(* ===== verification/Prelude.thy ===== *)
theory Prelude
  imports Main "HOL-Library.Word"
begin

text \<open>
  Shared vocabulary of the EnlilOS development: the machine integer types of
  \<^verbatim>\<open>include/types.h\<close>, the error numbers and the \<^verbatim>\<open>ERR\<close> encoding of
  \<^verbatim>\<open>include/syscall.h\<close>, the bounded search loop every table of the kernel uses,
  and the contract of a transition system with an invariant.
\<close>

unbundle bit_operations_syntax

named_theorems kernel_defs \<open>definitions a component's proofs unfold\<close>
named_theorems loop_laws \<open>characterisations of the bounded loops\<close>

subsection \<open>Machine integers\<close>

type_synonym u8 = "8 word"
type_synonym u16 = "16 word"
type_synonym u32 = "32 word"
type_synonym u64 = "64 word"

lemma and_sub: "(a AND b) AND r = r \<Longrightarrow> a AND r = r" for a b r :: "'a::len word"
proof -
  assume h: "(a AND b) AND r = r"
  have "a AND r = a AND ((a AND b) AND r)" using h by simp
  also have "\<dots> = (a AND b) AND r" by (simp add: and.assoc)
  finally show ?thesis using h by simp
qed

subsection \<open>Error numbers\<close>

text \<open>
  The error numbers of \<^verbatim>\<open>include/syscall.h\<close>. A C function that returns a negative
  error number on failure and a result otherwise is a function into \<open>errno + 'a\<close>;
  \<open>ret64\<close> is the 64-bit register value the caller sees.
\<close>

datatype errno =
    EPERM | ENOENT | ESRCH | EINTR | EIO | EBADF | ECHILD | EAGAIN | ENOMEM | EACCES
  | EFAULT | EBUSY | EEXIST | ENODEV | EINVAL | ENFILE | EMFILE | ENOSPC | EPIPE | ERANGE
  | EDEADLK | ENAMETOOLONG | ENOSYS | EIDRM | ENOTSOCK | EOPNOTSUPP | EAFNOSUPPORT
  | EADDRINUSE | EADDRNOTAVAIL | ENOBUFS | EISCONN | ENOTCONN | ETIMEDOUT | ECONNREFUSED
  | EINPROGRESS

fun errno_code :: "errno \<Rightarrow> nat" where
  "errno_code EPERM = 1"
| "errno_code ENOENT = 2"
| "errno_code ESRCH = 3"
| "errno_code EINTR = 4"
| "errno_code EIO = 5"
| "errno_code EBADF = 9"
| "errno_code ECHILD = 10"
| "errno_code EAGAIN = 11"
| "errno_code ENOMEM = 12"
| "errno_code EACCES = 13"
| "errno_code EFAULT = 14"
| "errno_code EBUSY = 16"
| "errno_code EEXIST = 17"
| "errno_code ENODEV = 19"
| "errno_code EINVAL = 22"
| "errno_code ENFILE = 23"
| "errno_code EMFILE = 24"
| "errno_code ENOSPC = 28"
| "errno_code EPIPE = 32"
| "errno_code ERANGE = 34"
| "errno_code EDEADLK = 35"
| "errno_code ENAMETOOLONG = 36"
| "errno_code ENOSYS = 38"
| "errno_code EIDRM = 43"
| "errno_code ENOTSOCK = 88"
| "errno_code EOPNOTSUPP = 95"
| "errno_code EAFNOSUPPORT = 97"
| "errno_code EADDRINUSE = 98"
| "errno_code EADDRNOTAVAIL = 99"
| "errno_code ENOBUFS = 105"
| "errno_code EISCONN = 106"
| "errno_code ENOTCONN = 107"
| "errno_code ETIMEDOUT = 110"
| "errno_code ECONNREFUSED = 111"
| "errno_code EINPROGRESS = 115"

definition ERR :: "errno \<Rightarrow> u64" where
  "ERR e = - of_nat (errno_code e)"

definition ret64 :: "errno + u64 \<Rightarrow> u64" where
  "ret64 r = (case r of Inl e \<Rightarrow> ERR e | Inr v \<Rightarrow> v)"

lemma errno_code_bounds: "0 < errno_code e \<and> errno_code e \<le> 115"
  by (cases e) simp_all

lemma errno_code_inj: "errno_code e = errno_code e' \<Longrightarrow> e = e'"
  by (cases e; cases e') simp_all

lemma unat_ERR: "unat (ERR e) = 2 ^ 64 - errno_code e"
  by (cases e) (simp_all add: ERR_def unsigned_minus_1_eq_mask mask_eq_exp_minus_1)

text \<open>An error register value is never below \<open>2 ^ 63\<close>, and it identifies the error.\<close>

lemma ERR_high: "2 ^ 63 \<le> unat (ERR e)"
  using errno_code_bounds [of e] by (cases e) (simp_all add: unat_ERR)

lemma ERR_inj: "ERR e = ERR e' \<Longrightarrow> e = e'"
proof -
  assume "ERR e = ERR e'"
  then have eq: "2 ^ 64 - errno_code e = (2 ^ 64 - errno_code e' :: nat)"
    by (metis unat_ERR)
  have "errno_code e \<le> 2 ^ 64" "errno_code e' \<le> 2 ^ 64"
    using errno_code_bounds [of e] errno_code_bounds [of e'] by auto
  with eq have "errno_code e = errno_code e'"
    by (metis diff_diff_cancel)
  then show "e = e'" by (rule errno_code_inj)
qed

subsection \<open>Bounded search loops\<close>

text \<open>
  \<^verbatim>\<open>for (i = lo; i < n; i++) if (P(i)) return i;\<close> followed by the failure value: the
  loop behind every fixed-size table of the kernel.
\<close>

function for_find :: "(nat \<Rightarrow> bool) \<Rightarrow> nat \<Rightarrow> nat \<Rightarrow> nat option" where
  "for_find P i n = (if i < n then (if P i then Some i else for_find P (Suc i) n) else None)"
  by pat_completeness auto
termination
  by (relation "measure (\<lambda>(P, i, n). n - i)") auto

declare for_find.simps [simp del]

lemma for_find_Some [loop_laws]:
  "for_find P i n = Some k \<longleftrightarrow> i \<le> k \<and> k < n \<and> P k \<and> (\<forall>j. i \<le> j \<and> j < k \<longrightarrow> \<not> P j)"
proof (induction P i n rule: for_find.induct)
  case (1 P i n)
  show ?case
  proof (cases "i < n \<and> \<not> P i")
    case True
    with 1 have "for_find P i n = Some k \<longleftrightarrow>
        Suc i \<le> k \<and> k < n \<and> P k \<and> (\<forall>j. Suc i \<le> j \<and> j < k \<longrightarrow> \<not> P j)"
      by (simp add: for_find.simps [of P i n])
    also have "\<dots> \<longleftrightarrow> i \<le> k \<and> k < n \<and> P k \<and> (\<forall>j. i \<le> j \<and> j < k \<longrightarrow> \<not> P j)"
      using True by (metis Suc_leD Suc_leI le_neq_implies_less)
    finally show ?thesis .
  next
    case False
    then show ?thesis
      by (auto simp: for_find.simps [of P i n] dest: le_neq_implies_less)
  qed
qed

lemma for_find_None [loop_laws]:
  "for_find P i n = None \<longleftrightarrow> (\<forall>k. i \<le> k \<and> k < n \<longrightarrow> \<not> P k)"
proof (induction P i n rule: for_find.induct)
  case (1 P i n)
  show ?case
  proof (cases "i < n \<and> \<not> P i")
    case True
    with 1 have "for_find P i n = None \<longleftrightarrow> (\<forall>k. Suc i \<le> k \<and> k < n \<longrightarrow> \<not> P k)"
      by (simp add: for_find.simps [of P i n])
    also have "\<dots> \<longleftrightarrow> (\<forall>k. i \<le> k \<and> k < n \<longrightarrow> \<not> P k)"
      using True by (metis Suc_leD Suc_leI le_neq_implies_less)
    finally show ?thesis .
  next
    case False
    then show ?thesis by (auto simp: for_find.simps [of P i n])
  qed
qed

lemma for_find_SomeD:
  assumes "for_find P i n = Some k"
  shows "i \<le> k" "k < n" "P k" "\<And>j. i \<le> j \<Longrightarrow> j < k \<Longrightarrow> \<not> P j"
  using assms by (auto simp: for_find_Some)

lemma for_find_exists: "(\<exists>k. for_find P i n = Some k) \<longleftrightarrow> (\<exists>k. i \<le> k \<and> k < n \<and> P k)"
  by (metis for_find_None for_find_SomeD(1-3) not_None_eq)

subsection \<open>Transition systems with an invariant\<close>

text \<open>
  A component whose operations share one invariant: the client's view is that the
  invariant holds after any sequence of operations.
\<close>

locale invariant_system =
  fixes step :: "'s \<Rightarrow> 's \<Rightarrow> bool"
    and inv :: "'s \<Rightarrow> bool"
  assumes step_inv: "inv s \<Longrightarrow> step s t \<Longrightarrow> inv t"
begin

lemma run_inv: "step\<^sup>*\<^sup>* s t \<Longrightarrow> inv s \<Longrightarrow> inv t"
  by (induction rule: rtranclp_induct) (auto intro: step_inv)

end

end
