(* ===== verification/Cap.thy ===== *)
theory Cap
  imports Prelude
begin

text \<open>
  The capability system, \<^verbatim>\<open>kernel/cap.c\<close> and \<^verbatim>\<open>include/cap.h\<close>: a global pool of
  256 capability entries, a table of 64 owned tokens per task slot, and the five system
  calls on them. The cycle counter \<^verbatim>\<open>CNTPCT_EL0\<close> that tokens are made from is an
  argument of the operations that read it.
\<close>

subsection \<open>Data\<close>

type_synonym cap_t = u64

definition CAP_INVALID :: cap_t where "CAP_INVALID = 0"
definition CAP_TYPE_TASK :: u32 where "CAP_TYPE_TASK = 6"
definition CAP_RIGHT_SEND :: u64 where "CAP_RIGHT_SEND = 8"
definition CAP_RIGHT_DERIVE :: u64 where "CAP_RIGHT_DERIVE = 16"
definition CAP_RIGHT_REVOKE :: u64 where "CAP_RIGHT_REVOKE = 32"
definition CAP_RIGHTS_ALL :: u64 where "CAP_RIGHTS_ALL = 0x3F"
definition CAP_POOL_SIZE :: nat where "CAP_POOL_SIZE = 256"
definition MAX_CAPS_PER_TASK :: nat where "MAX_CAPS_PER_TASK = 64"
definition CAP_TASKS :: nat where "CAP_TASKS = 96"

lemmas cap_consts [kernel_defs] =
  CAP_INVALID_def CAP_TYPE_TASK_def CAP_RIGHT_SEND_def CAP_RIGHT_DERIVE_def
  CAP_RIGHT_REVOKE_def CAP_RIGHTS_ALL_def CAP_POOL_SIZE_def MAX_CAPS_PER_TASK_def CAP_TASKS_def

record cap_entry =
  ce_token :: cap_t
  ce_type :: u32
  ce_owner_pid :: u32
  ce_rights :: u64
  ce_object :: u64
  ce_valid :: bool

record cap_info =
  ci_type :: u32
  ci_owner_pid :: u32
  ci_rights :: u64
  ci_object :: u64

record cap_state =
  cap_pool :: "nat \<Rightarrow> cap_entry"
  cap_table :: "nat \<Rightarrow> nat \<Rightarrow> cap_t"
  cap_salt :: u64

subsection \<open>Internal helpers\<close>

definition cap_make_token :: "u64 \<Rightarrow> u64 \<Rightarrow> u32 \<Rightarrow> cap_t" where
  "cap_make_token cntpct salt pid =
     (cntpct XOR push_bit 32 (ucast pid) XOR salt XOR ucast pid) AND 0x7FFFFFFFFFFFFFFF"

definition cap_pool_find :: "cap_state \<Rightarrow> cap_t \<Rightarrow> nat option" where
  "cap_pool_find s token =
     for_find (\<lambda>i. ce_valid (cap_pool s i) \<and> ce_token (cap_pool s i) = token) 0 CAP_POOL_SIZE"

definition cap_slot :: "u32 \<Rightarrow> nat" where
  "cap_slot pid = unat pid mod CAP_TASKS"

definition cap_table_has :: "cap_state \<Rightarrow> u32 \<Rightarrow> cap_t \<Rightarrow> bool" where
  "cap_table_has s pid token =
     (for_find (\<lambda>i. cap_table s (cap_slot pid) i = token) 0 MAX_CAPS_PER_TASK \<noteq> None)"

definition cap_table_set :: "cap_state \<Rightarrow> nat \<Rightarrow> nat \<Rightarrow> cap_t \<Rightarrow> cap_state" where
  "cap_table_set s t i token =
     s\<lparr>cap_table := (cap_table s)(t := (cap_table s t)(i := token))\<rparr>"

definition cap_table_add :: "cap_state \<Rightarrow> u32 \<Rightarrow> cap_t \<Rightarrow> errno + cap_state" where
  "cap_table_add s pid token =
     (case for_find (\<lambda>i. cap_table s (cap_slot pid) i = CAP_INVALID) 0 MAX_CAPS_PER_TASK of
        Some i \<Rightarrow> Inr (cap_table_set s (cap_slot pid) i token)
      | None \<Rightarrow> Inl ENOMEM)"

definition cap_zero_entry :: cap_entry where
  "cap_zero_entry =
     \<lparr>ce_token = 0, ce_type = 0, ce_owner_pid = 0, ce_rights = 0, ce_object = 0, ce_valid = False\<rparr>"

definition cap_init :: "u64 \<Rightarrow> cap_state" where
  "cap_init cntpct =
     \<lparr>cap_pool = (\<lambda>_. cap_zero_entry), cap_table = (\<lambda>_ _. 0),
      cap_salt = cntpct XOR 0xDEADBEEFCAFEBABE\<rparr>"

subsection \<open>Kernel interface\<close>

definition cap_pool_set :: "cap_state \<Rightarrow> nat \<Rightarrow> cap_entry \<Rightarrow> cap_state" where
  "cap_pool_set s i e = s\<lparr>cap_pool := (cap_pool s)(i := e)\<rparr>"

text \<open>The two counter values are those of the first and of the second \<^verbatim>\<open>cap_make_token\<close>.\<close>

definition cap_new_token :: "u64 \<Rightarrow> u64 \<Rightarrow> u64 \<Rightarrow> u32 \<Rightarrow> cap_t" where
  "cap_new_token c1 c2 salt pid =
     (let token = cap_make_token c1 salt pid
      in if token = CAP_INVALID then cap_make_token c2 salt pid OR 1 else token)"

definition cap_alloc_kernel ::
  "u64 \<Rightarrow> u64 \<Rightarrow> cap_state \<Rightarrow> u32 \<Rightarrow> u32 \<Rightarrow> u64 \<Rightarrow> u64 \<Rightarrow> cap_t \<times> cap_state" where
  "cap_alloc_kernel c1 c2 s pid ty rights object =
     (case for_find (\<lambda>i. \<not> ce_valid (cap_pool s i)) 0 CAP_POOL_SIZE of
        None \<Rightarrow> (CAP_INVALID, s)
      | Some i \<Rightarrow>
          (let token = cap_new_token c1 c2 (cap_salt s) pid;
               e = \<lparr>ce_token = token, ce_type = ty, ce_owner_pid = pid,
                    ce_rights = rights AND CAP_RIGHTS_ALL, ce_object = object, ce_valid = True\<rparr>;
               s1 = cap_pool_set s i e
           in case cap_table_add s1 pid token of
                Inl _ \<Rightarrow> (CAP_INVALID, cap_pool_set s1 i (e\<lparr>ce_valid := False\<rparr>))
              | Inr s2 \<Rightarrow> (token, s2)))"

definition cap_validate :: "cap_state \<Rightarrow> cap_t \<Rightarrow> u32 \<Rightarrow> u64 \<Rightarrow> errno + unit" where
  "cap_validate s token ty required =
     (case cap_pool_find s token of
        None \<Rightarrow> Inl EPERM
      | Some i \<Rightarrow>
          (let e = cap_pool s i
           in if ce_type e \<noteq> ty then Inl EPERM
              else if ce_rights e AND required \<noteq> required then Inl EPERM
              else Inr ()))"

subsection \<open>System calls\<close>

text \<open>The current task is its pid, or \<open>None\<close> when \<^verbatim>\<open>current_task\<close> is null.\<close>

definition sys_cap_alloc ::
  "u64 \<Rightarrow> u64 \<Rightarrow> u32 option \<Rightarrow> cap_state \<Rightarrow> u64 \<Rightarrow> u64 \<Rightarrow> (errno + u64) \<times> cap_state" where
  "sys_cap_alloc c1 c2 cur s a0 a1 =
     (let ty = ucast a0; rights = a1 AND CAP_RIGHTS_ALL
      in if CAP_TYPE_TASK < ty then (Inl EINVAL, s)
         else case cur of
           None \<Rightarrow> (Inl ESRCH, s)
         | Some pid \<Rightarrow>
             (case cap_alloc_kernel c1 c2 s pid ty rights 0 of
                (token, s') \<Rightarrow> if token = CAP_INVALID then (Inl ENOMEM, s') else (Inr token, s')))"

definition sys_cap_send ::
  "u32 option \<Rightarrow> cap_state \<Rightarrow> u64 \<Rightarrow> u64 \<Rightarrow> (errno + u64) \<times> cap_state" where
  "sys_cap_send cur s a0 token =
     (case cur of
        None \<Rightarrow> (Inl ESRCH, s)
      | Some pid \<Rightarrow>
          (case cap_pool_find s token of
             None \<Rightarrow> (Inl EINVAL, s)
           | Some i \<Rightarrow>
               if \<not> cap_table_has s pid token then (Inl EPERM, s)
               else if ce_rights (cap_pool s i) AND CAP_RIGHT_SEND = 0 then (Inl EPERM, s)
               else case cap_table_add s (ucast a0) token of
                 Inl _ \<Rightarrow> (Inl ENOMEM, s)
               | Inr s' \<Rightarrow> (Inr 0, s')))"

text \<open>The two nested loops that clear a token from every task's table.\<close>

definition cap_table_purge :: "cap_state \<Rightarrow> cap_t \<Rightarrow> cap_state" where
  "cap_table_purge s token =
     s\<lparr>cap_table := (\<lambda>t i. if t < CAP_TASKS \<and> i < MAX_CAPS_PER_TASK \<and> cap_table s t i = token
                           then CAP_INVALID else cap_table s t i)\<rparr>"

definition sys_cap_revoke ::
  "u32 option \<Rightarrow> cap_state \<Rightarrow> u64 \<Rightarrow> (errno + u64) \<times> cap_state" where
  "sys_cap_revoke cur s token =
     (case cur of
        None \<Rightarrow> (Inl ESRCH, s)
      | Some pid \<Rightarrow>
          (case cap_pool_find s token of
             None \<Rightarrow> (Inl EINVAL, s)
           | Some i \<Rightarrow>
               (let e = cap_pool s i
                in if \<not> cap_table_has s pid token then (Inl EPERM, s)
                   else if ce_owner_pid e \<noteq> pid then (Inl EPERM, s)
                   else if ce_rights e AND CAP_RIGHT_REVOKE = 0 then (Inl EPERM, s)
                   else (Inr 0, cap_table_purge (cap_pool_set s i (e\<lparr>ce_valid := False\<rparr>)) token))))"

definition sys_cap_derive ::
  "u64 \<Rightarrow> u64 \<Rightarrow> u32 option \<Rightarrow> cap_state \<Rightarrow> u64 \<Rightarrow> u64 \<Rightarrow> (errno + u64) \<times> cap_state" where
  "sys_cap_derive c1 c2 cur s src a1 =
     (let rmask = a1 AND CAP_RIGHTS_ALL
      in case cur of
           None \<Rightarrow> (Inl ESRCH, s)
         | Some pid \<Rightarrow>
             (case cap_pool_find s src of
                None \<Rightarrow> (Inl EINVAL, s)
              | Some i \<Rightarrow>
                  (let se = cap_pool s i
                   in if \<not> cap_table_has s pid src then (Inl EPERM, s)
                      else if ce_rights se AND CAP_RIGHT_DERIVE = 0 then (Inl EPERM, s)
                      else case cap_alloc_kernel c1 c2 s pid (ce_type se)
                                  (ce_rights se AND rmask) (ce_object se) of
                        (child, s') \<Rightarrow>
                          if child = CAP_INVALID then (Inl ENOMEM, s') else (Inr child, s'))))"

text \<open>
  \<^verbatim>\<open>sys_cap_query\<close> ends in \<^verbatim>\<open>cap_store_user\<close>, whose page-wise copy depends on the
  MMU: \<open>store\<close> stands for it and returns \<open>Inl\<close> its error.
\<close>

definition sys_cap_query ::
  "(u64 \<Rightarrow> cap_info \<Rightarrow> errno + unit) \<Rightarrow> u32 option \<Rightarrow> cap_state \<Rightarrow> u64 \<Rightarrow> u64 \<Rightarrow> errno + u64" where
  "sys_cap_query store cur s token ubuf =
     (if ubuf = 0 then Inl EFAULT
      else case cur of
        None \<Rightarrow> Inl ESRCH
      | Some pid \<Rightarrow>
          (case cap_pool_find s token of
             None \<Rightarrow> Inl EINVAL
           | Some i \<Rightarrow>
               if \<not> cap_table_has s pid token then Inl EPERM
               else
                 (let e = cap_pool s i;
                      info = \<lparr>ci_type = ce_type e, ci_owner_pid = ce_owner_pid e,
                              ci_rights = ce_rights e, ci_object = ce_object e\<rparr>
                  in case store ubuf info of Inl err \<Rightarrow> Inl err | Inr _ \<Rightarrow> Inr 0)))"

subsection \<open>Steps of the capability system\<close>

text \<open>Any system call by any task, with any counter values.\<close>

inductive cap_step :: "cap_state \<Rightarrow> cap_state \<Rightarrow> bool" where
  alloc: "cap_step s (snd (sys_cap_alloc c1 c2 cur s a0 a1))"
| send: "cap_step s (snd (sys_cap_send cur s a0 a1))"
| revoke: "cap_step s (snd (sys_cap_revoke cur s a0))"
| derive: "cap_step s (snd (sys_cap_derive c1 c2 cur s a0 a1))"

subsection \<open>What the operations change\<close>

lemma cap_make_token_top: "\<not> bit (cap_make_token c salt pid) 63"
  by (simp add: cap_make_token_def bit_simps)

lemma cap_new_token_props:
  "cap_new_token c1 c2 salt pid \<noteq> 0 \<and> \<not> bit (cap_new_token c1 c2 salt pid) 63"
proof (cases "cap_make_token c1 salt pid = 0")
  case True
  have "bit (cap_make_token c2 salt pid OR 1) 0" by (simp add: bit_simps)
  then have "cap_make_token c2 salt pid OR 1 \<noteq> 0" by (metis bit_0_eq bot_apply bot_bool_def)
  moreover have "\<not> bit (cap_make_token c2 salt pid OR 1) 63"
    using cap_make_token_top [of c2 salt pid] by (simp add: bit_simps)
  ultimately show ?thesis using True by (simp add: cap_new_token_def cap_consts)
next
  case False
  then show ?thesis
    using cap_make_token_top [of c1 salt pid] by (simp add: cap_new_token_def cap_consts)
qed

lemma cap_pool_find_SomeD:
  assumes "cap_pool_find s token = Some i"
  shows "i < CAP_POOL_SIZE" "ce_valid (cap_pool s i)" "ce_token (cap_pool s i) = token"
  using for_find_SomeD [OF assms [unfolded cap_pool_find_def]] by auto

lemma cap_pool_find_None:
  "cap_pool_find s token = None \<longleftrightarrow>
   (\<forall>i < CAP_POOL_SIZE. ce_valid (cap_pool s i) \<longrightarrow> ce_token (cap_pool s i) \<noteq> token)"
  by (auto simp: cap_pool_find_def for_find_None)

lemma cap_table_has_iff:
  "cap_table_has s pid token \<longleftrightarrow> (\<exists>k < MAX_CAPS_PER_TASK. cap_table s (cap_slot pid) k = token)"
  unfolding cap_table_has_def
  using for_find_exists [of "\<lambda>i. cap_table s (cap_slot pid) i = token" 0 MAX_CAPS_PER_TASK]
  by auto

lemma cap_slot_bound [simp]: "cap_slot pid < CAP_TASKS"
  by (simp add: cap_slot_def CAP_TASKS_def)

lemma cap_table_add_Inr:
  assumes "cap_table_add s pid token = Inr s'"
  obtains k where "k < MAX_CAPS_PER_TASK" "cap_table s (cap_slot pid) k = CAP_INVALID"
    "s' = cap_table_set s (cap_slot pid) k token"
  using assms by (auto simp: cap_table_add_def split: option.splits dest: for_find_SomeD)

lemma cap_table_add_Inl:
  assumes "cap_table_add s pid token = Inl e"
  shows "e = ENOMEM \<and> (\<forall>k < MAX_CAPS_PER_TASK. cap_table s (cap_slot pid) k \<noteq> CAP_INVALID)"
  using assms by (auto simp: cap_table_add_def for_find_None split: option.splits)

lemma cap_table_set_simps [simp]:
  "cap_pool (cap_table_set s t k v) = cap_pool s"
  "cap_salt (cap_table_set s t k v) = cap_salt s"
  "cap_table (cap_table_set s t k v) t' k' = (if t' = t \<and> k' = k then v else cap_table s t' k')"
  by (auto simp: cap_table_set_def)

lemma cap_pool_set_simps [simp]:
  "cap_table (cap_pool_set s i e) = cap_table s"
  "cap_salt (cap_pool_set s i e) = cap_salt s"
  "cap_pool (cap_pool_set s i e) j = (if j = i then e else cap_pool s j)"
  by (auto simp: cap_pool_set_def)

lemma cap_table_purge_simps [simp]:
  "cap_pool (cap_table_purge s token) = cap_pool s"
  "cap_salt (cap_table_purge s token) = cap_salt s"
  by (simp_all add: cap_table_purge_def)

text \<open>
  Allocation either gives a non-zero token to a slot that was free and to a table entry
  that was empty, or returns \<open>CAP_INVALID\<close> and leaves the valid entries and the tables alone.
\<close>

definition cap_unchanged :: "cap_state \<Rightarrow> cap_state \<Rightarrow> bool" where
  "cap_unchanged s s' \<longleftrightarrow> cap_table s' = cap_table s \<and>
     (\<forall>i. ce_valid (cap_pool s' i) = ce_valid (cap_pool s i) \<and>
          (ce_valid (cap_pool s i) \<longrightarrow> cap_pool s' i = cap_pool s i))"

lemma cap_alloc_cases:
  obtains (full) s' where "cap_alloc_kernel c1 c2 s pid ty r obj = (CAP_INVALID, s')"
      "cap_unchanged s s'"
      "(\<forall>i < CAP_POOL_SIZE. ce_valid (cap_pool s i)) \<or>
       (\<forall>k < MAX_CAPS_PER_TASK. cap_table s (cap_slot pid) k \<noteq> CAP_INVALID)"
  | (ok) i k token s' where "cap_alloc_kernel c1 c2 s pid ty r obj = (token, s')"
      "token = cap_new_token c1 c2 (cap_salt s) pid"
      "i < CAP_POOL_SIZE" "\<not> ce_valid (cap_pool s i)"
      "k < MAX_CAPS_PER_TASK" "cap_table s (cap_slot pid) k = CAP_INVALID"
      "s' = cap_table_set (cap_pool_set s i
              \<lparr>ce_token = token, ce_type = ty, ce_owner_pid = pid,
               ce_rights = r AND CAP_RIGHTS_ALL, ce_object = obj, ce_valid = True\<rparr>)
              (cap_slot pid) k token"
proof (cases "for_find (\<lambda>i. \<not> ce_valid (cap_pool s i)) 0 CAP_POOL_SIZE")
  case None
  with full [of s] show ?thesis
    by (auto simp: cap_alloc_kernel_def for_find_None cap_unchanged_def)
next
  case (Some i)
  define token where "token = cap_new_token c1 c2 (cap_salt s) pid"
  define e where "e = \<lparr>ce_token = token, ce_type = ty, ce_owner_pid = pid,
      ce_rights = r AND CAP_RIGHTS_ALL, ce_object = obj, ce_valid = True\<rparr>"
  note i = for_find_SomeD [OF Some]
  show ?thesis
  proof (cases "cap_table_add (cap_pool_set s i e) pid token")
    case (Inl err)
    have "cap_alloc_kernel c1 c2 s pid ty r obj =
        (CAP_INVALID, cap_pool_set (cap_pool_set s i e) i (e\<lparr>ce_valid := False\<rparr>))"
      using Some Inl by (simp add: cap_alloc_kernel_def token_def e_def Let_def)
    moreover have "cap_unchanged s (cap_pool_set (cap_pool_set s i e) i (e\<lparr>ce_valid := False\<rparr>))"
      using i by (auto simp: cap_unchanged_def)
    ultimately show ?thesis
      using full cap_table_add_Inl [OF Inl] by auto
  next
    case (Inr s2)
    then obtain k where k: "k < MAX_CAPS_PER_TASK"
      "cap_table s (cap_slot pid) k = CAP_INVALID"
      "s2 = cap_table_set (cap_pool_set s i e) (cap_slot pid) k token"
      by (elim cap_table_add_Inr) auto
    have "cap_alloc_kernel c1 c2 s pid ty r obj = (token, s2)"
      using Some Inr by (simp add: cap_alloc_kernel_def token_def e_def)
    with ok [of token s2 i k] i k show ?thesis
      by (simp add: token_def e_def)
  qed
qed

lemma cap_alloc_fail:
  assumes "cap_alloc_kernel c1 c2 s pid ty r obj = (CAP_INVALID, s')"
  shows "cap_unchanged s s'"
proof (cases rule: cap_alloc_cases [of c1 c2 s pid ty r obj])
  case (full s'')
  with assms show ?thesis by simp
next
  case (ok i k token s'')
  with assms cap_new_token_props [of c1 c2 "cap_salt s" pid] show ?thesis
    by (simp add: CAP_INVALID_def)
qed

subsection \<open>The invariant\<close>

text \<open>
  Every valid entry has a non-zero token with the top bit clear and only defined rights,
  and every token a task holds names a valid entry.
\<close>

definition cap_entry_ok :: "cap_entry \<Rightarrow> bool" where
  "cap_entry_ok e \<longleftrightarrow> (ce_valid e \<longrightarrow>
     ce_token e \<noteq> CAP_INVALID \<and> \<not> bit (ce_token e) 63 \<and> ce_rights e AND CAP_RIGHTS_ALL = ce_rights e)"

definition cap_names :: "cap_state \<Rightarrow> cap_t \<Rightarrow> bool" where
  "cap_names s token \<longleftrightarrow>
     (\<exists>i < CAP_POOL_SIZE. ce_valid (cap_pool s i) \<and> ce_token (cap_pool s i) = token)"

definition cap_inv :: "cap_state \<Rightarrow> bool" where
  "cap_inv s \<longleftrightarrow>
     (\<forall>i < CAP_POOL_SIZE. cap_entry_ok (cap_pool s i)) \<and>
     (\<forall>t < CAP_TASKS. \<forall>k < MAX_CAPS_PER_TASK.
        cap_table s t k \<noteq> CAP_INVALID \<longrightarrow> cap_names s (cap_table s t k))"

definition cap_unique :: "cap_state \<Rightarrow> bool" where
  "cap_unique s \<longleftrightarrow>
     (\<forall>i < CAP_POOL_SIZE. \<forall>j < CAP_POOL_SIZE. ce_valid (cap_pool s i) \<and> ce_valid (cap_pool s j) \<and>
        ce_token (cap_pool s i) = ce_token (cap_pool s j) \<longrightarrow> i = j)"

text \<open>No valid entry already has the token the next allocation makes.\<close>

definition cap_fresh :: "cap_state \<Rightarrow> u64 \<Rightarrow> u64 \<Rightarrow> u32 \<Rightarrow> bool" where
  "cap_fresh s c1 c2 pid \<longleftrightarrow> cap_pool_find s (cap_new_token c1 c2 (cap_salt s) pid) = None"

lemma cap_invD:
  assumes "cap_inv s"
  shows "i < CAP_POOL_SIZE \<Longrightarrow> cap_entry_ok (cap_pool s i)"
    and "t < CAP_TASKS \<Longrightarrow> k < MAX_CAPS_PER_TASK \<Longrightarrow> cap_table s t k \<noteq> CAP_INVALID \<Longrightarrow>
         cap_names s (cap_table s t k)"
  using assms by (auto simp: cap_inv_def)

lemma cap_invI:
  assumes "\<And>i. i < CAP_POOL_SIZE \<Longrightarrow> cap_entry_ok (cap_pool s i)"
    and "\<And>t k. t < CAP_TASKS \<Longrightarrow> k < MAX_CAPS_PER_TASK \<Longrightarrow> cap_table s t k \<noteq> CAP_INVALID \<Longrightarrow>
           cap_names s (cap_table s t k)"
  shows "cap_inv s"
  using assms by (auto simp: cap_inv_def)

lemma cap_names_find: "cap_pool_find s token = Some i \<Longrightarrow> cap_names s token"
  using cap_pool_find_SomeD [of s token i] by (auto simp: cap_names_def)

lemma cap_names_table_set [simp]: "cap_names (cap_table_set s t k v) x = cap_names s x"
  by (simp add: cap_names_def)

lemma cap_names_pool_set:
  "cap_names s x \<Longrightarrow> \<not> ce_valid (cap_pool s i) \<Longrightarrow> cap_names (cap_pool_set s i e) x"
  by (auto simp: cap_names_def)

lemma cap_names_new:
  "i < CAP_POOL_SIZE \<Longrightarrow> ce_valid e \<Longrightarrow> cap_names (cap_pool_set s i e) (ce_token e)"
  by (auto simp: cap_names_def intro: exI [of _ i])

lemma cap_names_unchanged: "cap_unchanged s s' \<Longrightarrow> cap_names s x \<Longrightarrow> cap_names s' x"
  unfolding cap_names_def cap_unchanged_def by metis

lemma cap_inv_init: "cap_inv (cap_init c)"
  by (simp add: cap_inv_def cap_init_def cap_zero_entry_def cap_entry_ok_def cap_consts)

lemma cap_inv_unchanged:
  assumes "cap_inv s" "cap_unchanged s s'"
  shows "cap_inv s'"
proof (rule cap_invI)
  show "cap_entry_ok (cap_pool s' i)" if "i < CAP_POOL_SIZE" for i
    using cap_invD(1) [OF assms(1) that] assms(2)
    by (cases "ce_valid (cap_pool s i)") (auto simp: cap_unchanged_def cap_entry_ok_def)
  show "cap_names s' (cap_table s' t k)"
    if "t < CAP_TASKS" "k < MAX_CAPS_PER_TASK" "cap_table s' t k \<noteq> CAP_INVALID" for t k
    using cap_invD(2) [OF assms(1) that(1,2)] that(3) assms(2) cap_names_unchanged
    by (auto simp: cap_unchanged_def)
qed

lemma cap_unchanged_refl [simp]: "cap_unchanged s s"
  by (simp add: cap_unchanged_def)

lemma cap_inv_alloc:
  assumes inv: "cap_inv s"
  shows "cap_inv (snd (cap_alloc_kernel c1 c2 s pid ty r obj))"
proof (cases rule: cap_alloc_cases [of c1 c2 s pid ty r obj])
  case (full s')
  with inv show ?thesis by (auto intro: cap_inv_unchanged)
next
  case (ok i k token s')
  note tok = cap_new_token_props [of c1 c2 "cap_salt s" pid, folded ok(2)]
  have "cap_inv s'"
  proof (rule cap_invI)
    show "cap_entry_ok (cap_pool s' j)" if "j < CAP_POOL_SIZE" for j
      using cap_invD(1) [OF inv that] tok
      by (auto simp: ok(7) cap_entry_ok_def CAP_INVALID_def ac_simps)
    show "cap_names s' (cap_table s' t l)"
      if "t < CAP_TASKS" "l < MAX_CAPS_PER_TASK" "cap_table s' t l \<noteq> CAP_INVALID" for t l
      using cap_invD(2) [OF inv that(1,2)] that(3) ok(4)
        cap_names_new [OF ok(3), of "cap_pool s' i" s]
      by (auto simp: ok(7) intro: cap_names_pool_set)
  qed
  with ok(1) show ?thesis by simp
qed

lemma cap_inv_add:
  assumes "cap_inv s" "cap_pool_find s token = Some i" "cap_table_add s pid token = Inr s'"
  shows "cap_inv s'"
proof -
  from assms(3) obtain k where "s' = cap_table_set s (cap_slot pid) k token"
    by (rule cap_table_add_Inr)
  with cap_invD [OF assms(1)] cap_names_find [OF assms(2)] show ?thesis
    by (intro cap_invI) auto
qed

lemma cap_inv_revoke:
  assumes inv: "cap_inv s"
    and e: "e = cap_pool s i" "ce_token e = token"
    and s': "s' = cap_table_purge (cap_pool_set s i (e\<lparr>ce_valid := False\<rparr>)) token"
  shows "cap_inv s'"
proof (rule cap_invI)
  show "cap_entry_ok (cap_pool s' j)" if "j < CAP_POOL_SIZE" for j
    using cap_invD(1) [OF inv that] by (auto simp: s' cap_entry_ok_def)
  show "cap_names s' (cap_table s' t l)"
    if "t < CAP_TASKS" "l < MAX_CAPS_PER_TASK" "cap_table s' t l \<noteq> CAP_INVALID" for t l
  proof -
    from that have old: "cap_table s t l \<noteq> CAP_INVALID" "cap_table s t l \<noteq> token"
      "cap_table s' t l = cap_table s t l"
      by (auto simp: s' cap_table_purge_def split: if_splits)
    with cap_invD(2) [OF inv that(1,2)] obtain j where
      "j < CAP_POOL_SIZE" "ce_valid (cap_pool s j)" "ce_token (cap_pool s j) = cap_table s t l"
      by (auto simp: cap_names_def)
    with old e show ?thesis by (auto simp: s' cap_names_def intro: exI [of _ j])
  qed
qed

lemma cap_step_inv: "cap_inv s \<Longrightarrow> cap_step s t \<Longrightarrow> cap_inv t"
proof (erule cap_step.cases, goal_cases)
  case (1 s' c1 c2 cur a0 a1)
  then show ?case
    using cap_inv_alloc [of s c1 c2]
    by (auto simp: sys_cap_alloc_def Let_def split: option.splits prod.splits)
       (metis snd_conv)+
next
  case (2 s' cur a0 a1)
  then show ?case
    by (auto simp: sys_cap_send_def split: option.splits sum.splits intro: cap_inv_add)
next
  case (3 s' cur a0)
  then show ?case
    by (auto simp: sys_cap_revoke_def Let_def split: option.splits
        intro: cap_inv_revoke [OF _ refl] dest: cap_pool_find_SomeD)
next
  case (4 s' c1 c2 cur a0 a1)
  then show ?case
    using cap_inv_alloc [of s c1 c2]
    by (auto simp: sys_cap_derive_def Let_def split: option.splits prod.splits)
       (metis snd_conv)+
qed

interpretation capsys: invariant_system cap_step cap_inv
  by unfold_locales (rule cap_step_inv)

subsection \<open>Results\<close>

text \<open>
  C1. After any sequence of capability system calls by any tasks from the state
  \<open>cap_init\<close> builds, the invariant holds: valid entries carry non-zero tokens below
  \<open>2 ^ 63\<close> and only defined rights, and no task table holds a token that was revoked or
  never issued.
\<close>

theorem cap_reachable_inv: "cap_step\<^sup>*\<^sup>* (cap_init c) t \<Longrightarrow> cap_inv t"
  using capsys.run_inv cap_inv_init by blast

theorem cap_reachable_inv_witness:
  "cap_inv (snd (sys_cap_alloc 5 6 (Some 3) (cap_init 9) 2 0x3F))"
  by (rule cap_reachable_inv [of 9]) (rule r_into_rtranclp, rule cap_step.alloc)

text \<open>
  An entry whose object a system call cannot choose (non-zero object) stems from an entry
  for the same object and type that had at least its rights.
\<close>

definition cap_grant :: "cap_state \<Rightarrow> u32 \<Rightarrow> u64 \<Rightarrow> u64 \<Rightarrow> bool" where
  "cap_grant s ty obj r \<longleftrightarrow>
     (\<exists>i < CAP_POOL_SIZE. ce_valid (cap_pool s i) \<and> ce_type (cap_pool s i) = ty \<and>
        ce_object (cap_pool s i) = obj \<and> ce_rights (cap_pool s i) AND r = r)"

lemma cap_grant_alloc:
  assumes "cap_grant (snd (cap_alloc_kernel c1 c2 s pid ty r obj)) ty' obj' r'"
  shows "cap_grant s ty' obj' r' \<or> (ty' = ty \<and> obj' = obj \<and> (r AND CAP_RIGHTS_ALL) AND r' = r')"
proof (cases rule: cap_alloc_cases [of c1 c2 s pid ty r obj])
  case (full s')
  with assms show ?thesis
    unfolding cap_grant_def cap_unchanged_def by (metis snd_conv)
next
  case (ok i k token s')
  with assms show ?thesis
    by (auto simp: cap_grant_def ok(7) split: if_splits)
qed

lemma cap_grant_step:
  assumes "cap_step s t" "obj \<noteq> 0" "cap_grant t ty obj r"
  shows "cap_grant s ty obj r"
  using assms(1)
proof cases
  case (alloc c1 c2 cur a0 a1)
  with assms(2,3) show ?thesis
    using cap_grant_alloc [of c1 c2 s _ _ _ 0 ty obj r]
    by (auto simp: sys_cap_alloc_def Let_def split: option.splits prod.splits if_splits)
       (metis snd_conv)+
next
  case (send cur a0 a1)
  with assms(2,3) show ?thesis
    by (auto simp: sys_cap_send_def cap_grant_def split: option.splits sum.splits if_splits
        elim!: cap_table_add_Inr)
next
  case (revoke cur a0)
  with assms(2,3) show ?thesis
    by (auto simp: sys_cap_revoke_def cap_grant_def Let_def split: option.splits if_splits)
next
  case (derive c1 c2 cur a0 a1)
  show ?thesis
  proof (rule ccontr)
    assume no: "\<not> cap_grant s ty obj r"
    with derive assms(3) obtain pid i where d: "cur = Some pid" "cap_pool_find s a0 = Some i"
      "cap_grant (snd (cap_alloc_kernel c1 c2 s pid (ce_type (cap_pool s i))
         (ce_rights (cap_pool s i) AND (a1 AND CAP_RIGHTS_ALL)) (ce_object (cap_pool s i)))) ty obj r"
      by (auto simp: sys_cap_derive_def Let_def split: option.splits prod.splits if_splits)
    let ?e = "cap_pool s i"
    from cap_grant_alloc [OF d(3)] no have
      "ty = ce_type ?e" "obj = ce_object ?e"
      "((ce_rights ?e AND (a1 AND CAP_RIGHTS_ALL)) AND CAP_RIGHTS_ALL) AND r = r"
      by auto
    moreover have "ce_rights ?e AND r = r"
      using calculation(3) and_sub [of "ce_rights ?e" "(a1 AND CAP_RIGHTS_ALL) AND CAP_RIGHTS_ALL" r]
      by (simp add: and.assoc)
    ultimately have "cap_grant s ty obj r"
      using cap_pool_find_SomeD [OF d(2)] by (auto simp: cap_grant_def intro: exI [of _ i])
    with no show False by blast
  qed
qed

text \<open>
  C2. No sequence of capability system calls amplifies authority over a kernel object:
  if after it a valid entry grants rights \<open>r\<close> on object \<open>obj\<close> (not 0, the object of the
  capabilities a task makes for itself), one valid entry for the same type and object
  already granted all of \<open>r\<close> before.
\<close>

theorem cap_no_amplification:
  assumes "cap_step\<^sup>*\<^sup>* s t" "obj \<noteq> 0" "cap_grant t ty obj r"
  shows "cap_grant s ty obj r"
  using assms by (induction rule: converse_rtranclp_induct) (auto intro: cap_grant_step)

text \<open>A kernel-granted capability on object 7 (type 1, all rights) held by task 2.\<close>

definition cap_demo :: cap_state where
  "cap_demo = snd (cap_alloc_kernel 0 0 (cap_init 0) 2 1 0x3F 7)"

definition cap_demo_token :: cap_t where
  "cap_demo_token = cap_make_token 0 (cap_salt (cap_init 0)) 2"

lemmas cap_eval =
  cap_alloc_kernel_def cap_table_add_def cap_pool_find_def cap_table_has_def cap_slot_def
  cap_new_token_def cap_make_token_def cap_init_def cap_zero_entry_def
  cap_pool_set_def cap_table_set_def Let_def for_find.simps

lemma cap_demo_eval:
  "cap_demo_token = 0x5EADBEEDCAFEBABC"
  "cap_pool cap_demo = (\<lambda>_. cap_zero_entry)(0 := \<lparr>ce_token = 0x5EADBEEDCAFEBABC, ce_type = 1,
     ce_owner_pid = 2, ce_rights = 0x3F, ce_object = 7, ce_valid = True\<rparr>)"
  "cap_table cap_demo = (\<lambda>_ _. 0)(2 := (\<lambda>_. 0)(0 := 0x5EADBEEDCAFEBABC))"
  "cap_salt cap_demo = 0xDEADBEEFCAFEBABE"
  by (simp_all add: cap_demo_def cap_demo_token_def cap_eval cap_consts)

theorem cap_no_amplification_witness:
  "cap_step\<^sup>*\<^sup>* cap_demo (snd (sys_cap_derive 1 0 (Some 2) cap_demo cap_demo_token 3)) \<and>
   cap_grant (snd (sys_cap_derive 1 0 (Some 2) cap_demo cap_demo_token 3)) 1 7 3 \<and>
   cap_grant cap_demo 1 7 3"
proof -
  let ?t = "snd (sys_cap_derive 1 0 (Some 2) cap_demo cap_demo_token 3)"
  have run: "cap_step\<^sup>*\<^sup>* cap_demo ?t" by (rule r_into_rtranclp, rule cap_step.derive)
  have "cap_grant ?t 1 7 3"
    by (auto simp: cap_grant_def sys_cap_derive_def cap_demo_eval cap_eval cap_consts
        intro!: exI [of _ 1])
  with run show ?thesis using cap_no_amplification [OF run, of 7 1 3] by simp
qed

lemma cap_find_unique:
  assumes "cap_unique s" "i < CAP_POOL_SIZE" "ce_valid (cap_pool s i)"
  shows "cap_pool_find s (ce_token (cap_pool s i)) = Some i"
proof (cases "cap_pool_find s (ce_token (cap_pool s i))")
  case None
  with assms show ?thesis by (auto simp: cap_pool_find_None)
next
  case (Some j)
  with assms cap_pool_find_SomeD [OF Some] show ?thesis by (auto simp: cap_unique_def)
qed

lemma cap_unique_alloc:
  assumes "cap_unique s" "cap_fresh s c1 c2 pid"
  shows "cap_unique (snd (cap_alloc_kernel c1 c2 s pid ty r obj))"
proof (cases rule: cap_alloc_cases [of c1 c2 s pid ty r obj])
  case (full s')
  with assms(1) show ?thesis unfolding cap_unique_def cap_unchanged_def by (metis snd_conv)
next
  case (ok i k token s')
  then show ?thesis
    using assms by (auto simp: cap_unique_def cap_fresh_def cap_pool_find_None)
qed



text \<open>
  Derivation attenuates. When \<^verbatim>\<open>sys_cap_derive\<close> succeeds with a token that is not
  already in the pool, the source was held by the caller and had the derive right, and the
  child is a new entry, held and owned by the caller, for the same type and object, whose
  rights are exactly the source's rights restricted to the requested mask; every entry that
  was valid is unchanged.
\<close>

lemma cap_derive_attenuates:
  assumes "cap_fresh s c1 c2 pid" "sys_cap_derive c1 c2 (Some pid) s src m = (Inr child, s')"
  shows "\<exists>i j. cap_pool_find s src = Some i \<and> cap_table_has s pid src \<and>
           ce_rights (cap_pool s i) AND CAP_RIGHT_DERIVE \<noteq> 0 \<and>
           cap_pool_find s' child = Some j \<and> \<not> ce_valid (cap_pool s j) \<and> cap_table_has s' pid child \<and>
           cap_pool s' j = \<lparr>ce_token = child, ce_type = ce_type (cap_pool s i), ce_owner_pid = pid,
             ce_rights = ce_rights (cap_pool s i) AND m AND CAP_RIGHTS_ALL,
             ce_object = ce_object (cap_pool s i), ce_valid = True\<rparr> \<and>
           (\<forall>l. ce_valid (cap_pool s l) \<longrightarrow> cap_pool s' l = cap_pool s l)"
proof -
  from assms(2) obtain i where f: "cap_pool_find s src = Some i" "cap_table_has s pid src"
    and d: "ce_rights (cap_pool s i) AND CAP_RIGHT_DERIVE \<noteq> 0"
    and a: "cap_alloc_kernel c1 c2 s pid (ce_type (cap_pool s i))
       (ce_rights (cap_pool s i) AND (m AND CAP_RIGHTS_ALL)) (ce_object (cap_pool s i)) = (child, s')"
    and n: "child \<noteq> CAP_INVALID"
    by (auto simp: sys_cap_derive_def Let_def split: option.splits if_splits prod.splits)
  show ?thesis
  proof (cases rule: cap_alloc_cases [of c1 c2 s pid "ce_type (cap_pool s i)"
        "ce_rights (cap_pool s i) AND (m AND CAP_RIGHTS_ALL)" "ce_object (cap_pool s i)"])
    case (full s'')
    with a n show ?thesis by simp
  next
    case (ok j k token s'')
    with a have eqs: "token = child" "s'' = s'" by auto
    have uniq: "ce_token (cap_pool s l) \<noteq> child" if "l < CAP_POOL_SIZE" "ce_valid (cap_pool s l)" for l
      using assms(1) that ok(2) eqs by (auto simp: cap_fresh_def cap_pool_find_None)
    have "cap_pool_find s' child = Some j"
      using uniq ok(3,4,7) eqs
      by (auto simp: cap_pool_find_def for_find_Some)
    moreover have "cap_table_has s' pid child"
      using ok(5,7) eqs by (auto simp: cap_table_has_iff)
    moreover have "cap_pool s' j = \<lparr>ce_token = child, ce_type = ce_type (cap_pool s i),
        ce_owner_pid = pid, ce_rights = ce_rights (cap_pool s i) AND m AND CAP_RIGHTS_ALL,
        ce_object = ce_object (cap_pool s i), ce_valid = True\<rparr>"
      using ok(7) eqs by (simp add: ac_simps)
    ultimately show ?thesis
      using f d ok(4,7) eqs by (intro exI [of _ i] exI [of _ j]) auto
  qed
qed

text \<open>
  C4. A failing capability system call has no effect: whatever error allocation, send,
  revocation or derivation returns, the task tables and all valid entries are unchanged.
\<close>

theorem cap_errors_have_no_effect:
  "(sys_cap_alloc c1 c2 cur s a0 a1 = (Inl e, s') \<or> sys_cap_send cur s a0 a1 = (Inl e, s') \<or>
    sys_cap_revoke cur s a0 = (Inl e, s') \<or> sys_cap_derive c1 c2 cur s a0 a1 = (Inl e, s')) \<Longrightarrow>
   cap_unchanged s s'"
proof (elim disjE, goal_cases)
  case 1
  then show ?case
    by (auto simp: sys_cap_alloc_def Let_def cap_alloc_fail
        split: option.splits if_splits prod.splits)
next
  case 2
  then show ?case by (auto simp: sys_cap_send_def split: option.splits if_splits sum.splits)
next
  case 3
  then show ?case by (auto simp: sys_cap_revoke_def Let_def split: option.splits if_splits)
next
  case 4
  then show ?case
    by (auto simp: sys_cap_derive_def Let_def cap_alloc_fail
        split: option.splits if_splits prod.splits)
qed

theorem cap_errors_have_no_effect_witness:
  "sys_cap_send (Some 4) cap_demo 5 cap_demo_token = (Inl EPERM, cap_demo) \<and>
   cap_unchanged cap_demo cap_demo"
proof -
  have r: "sys_cap_send (Some 4) cap_demo 5 cap_demo_token = (Inl EPERM, cap_demo)"
    by (simp add: sys_cap_send_def cap_pool_find_def for_find.simps cap_demo_eval
        cap_table_has_iff cap_slot_def cap_consts)
  with cap_errors_have_no_effect [of 0 0 "Some 4" cap_demo 5 cap_demo_token EPERM cap_demo]
  show ?thesis by simp
qed

end
