(* ===== verification/Fifo.thy ===== *)
theory Fifo
  imports Prelude "HOL-Library.Monad_Syntax"
begin

text \<open>
  The intrusive singly linked FIFO that the kernel writes out in several places: the run
  queues of \<^verbatim>\<open>kernel/sched.c\<close>, the hash buckets of \<^verbatim>\<open>kernel/futex.c\<close>, the wait
  queues of \<^verbatim>\<open>kernel/ksem.c\<close> and \<^verbatim>\<open>kernel/kmon.c\<close>. Nodes are pool indices, the
  \<^verbatim>\<open>next\<close> fields of a pool are one map, a queue is a head and a tail pointer. The list a
  queue holds is a ghost value related to the pointers by \<open>fifo_rep\<close>; the contract of the
  operations is the locale \<open>fifo_queue\<close>, which the pointer operations satisfy.
\<close>

subsection \<open>Pointer operations\<close>

type_synonym links = "nat \<Rightarrow> nat option"

record fifo =
  fhead :: "nat option"
  ftail :: "nat option"

definition fifo_empty :: fifo where
  "fifo_empty = \<lparr>fhead = None, ftail = None\<rparr>"

definition fifo_push :: "links \<Rightarrow> fifo \<Rightarrow> nat \<Rightarrow> links \<times> fifo" where
  "fifo_push nx q x =
     (let nx = nx(x := None)
      in case fhead q of
           None \<Rightarrow> (nx, \<lparr>fhead = Some x, ftail = Some x\<rparr>)
         | Some _ \<Rightarrow>
             ((case ftail q of None \<Rightarrow> nx | Some t \<Rightarrow> nx(t := Some x)), q\<lparr>ftail := Some x\<rparr>))"

definition fifo_pop :: "links \<Rightarrow> fifo \<Rightarrow> nat option \<times> links \<times> fifo" where
  "fifo_pop nx q =
     (case fhead q of
        None \<Rightarrow> (None, nx, q)
      | Some x \<Rightarrow>
          (let q = q\<lparr>fhead := nx x\<rparr>;
               q = (if fhead q = None then q\<lparr>ftail := None\<rparr> else q)
           in (Some x, nx(x := None), q)))"

text \<open>Unlinking \<open>cur\<close>, whose predecessor is \<open>prev\<close> (\<open>None\<close> at the head).\<close>

definition fifo_unlink :: "links \<Rightarrow> fifo \<Rightarrow> nat option \<Rightarrow> nat \<Rightarrow> links \<times> fifo" where
  "fifo_unlink nx q prev cur =
     (let (nx1, q1) = (case prev of Some p \<Rightarrow> (nx(p := nx cur), q) | None \<Rightarrow> (nx, q\<lparr>fhead := nx cur\<rparr>));
          q2 = (if ftail q1 = Some cur then q1\<lparr>ftail := prev\<rparr> else q1)
      in (nx1(cur := None), q2))"

partial_function (option) fifo_remove_loop ::
  "links \<Rightarrow> fifo \<Rightarrow> nat \<Rightarrow> nat option \<Rightarrow> nat option \<Rightarrow> (bool \<times> links \<times> fifo) option" where
  "fifo_remove_loop nx q x prev cur =
     (case cur of
        None \<Rightarrow> Some (False, nx, q)
      | Some c \<Rightarrow>
          if c = x then Some (True, fifo_unlink nx q prev c)
          else fifo_remove_loop nx q x (Some c) (nx c))"

definition fifo_remove :: "links \<Rightarrow> fifo \<Rightarrow> nat \<Rightarrow> (bool \<times> links \<times> fifo) option" where
  "fifo_remove nx q x = fifo_remove_loop nx q x None (fhead q)"

subsection \<open>The list a queue represents\<close>

fun chain :: "links \<Rightarrow> nat option \<Rightarrow> nat list \<Rightarrow> bool" where
  "chain nx p [] = (p = None)"
| "chain nx p (x # xs) = (p = Some x \<and> chain nx (nx x) xs)"

definition last_opt :: "nat list \<Rightarrow> nat option" where
  "last_opt xs = (if xs = [] then None else Some (last xs))"

definition fifo_rep :: "links \<Rightarrow> fifo \<Rightarrow> nat list \<Rightarrow> bool" where
  "fifo_rep nx q xs \<longleftrightarrow> chain nx (fhead q) xs \<and> ftail q = last_opt xs \<and> distinct xs"

lemma chain_upd [simp]: "y \<notin> set xs \<Longrightarrow> chain (nx(y := v)) p xs = chain nx p xs"
  by (induction xs arbitrary: p) auto

lemma chain_cong: "(\<And>y. y \<in> set xs \<Longrightarrow> nx' y = nx y) \<Longrightarrow> chain nx' p xs = chain nx p xs"
  by (induction xs arbitrary: p) auto

lemma chain_unique: "chain nx p xs \<Longrightarrow> chain nx p ys \<Longrightarrow> xs = ys"
proof (induction xs arbitrary: p ys)
  case Nil
  then show ?case by (cases ys) auto
next
  case (Cons x xs)
  then show ?case by (cases ys) auto
qed

lemma chain_append_node:
  "chain nx p (xs @ c # ys) \<Longrightarrow> chain nx (nx c) ys"
  by (induction xs arbitrary: p) auto

lemma chain_snoc:
  "chain nx p xs \<Longrightarrow> xs \<noteq> [] \<Longrightarrow> distinct xs \<Longrightarrow> x \<notin> set xs \<Longrightarrow>
   chain (nx(x := None, last xs := Some x)) p (xs @ [x])"
proof (induction xs arbitrary: p)
  case Nil
  then show ?case by simp
next
  case (Cons a xs)
  show ?case
  proof (cases "xs = []")
    case True
    with Cons.prems show ?thesis by auto
  next
    case False
    with Cons.prems have "last xs \<noteq> a" by (metis distinct.simps(2) last_in_set)
    with False Cons show ?thesis by auto
  qed
qed

lemma chain_last_None: "chain nx p xs \<Longrightarrow> xs \<noteq> [] \<Longrightarrow> nx (last xs) = None"
proof (induction xs arbitrary: p)
  case Nil
  then show ?case by simp
next
  case (Cons a xs)
  then show ?case by (cases "xs = []") auto
qed

text \<open>Replacing the link of the predecessor drops exactly the node between.\<close>

lemma chain_bypass:
  "chain nx p (xs @ a # c # ys) \<Longrightarrow> distinct (xs @ a # c # ys) \<Longrightarrow>
   chain (nx(a := nx c, c := None)) p (xs @ a # ys)"
  by (induction xs arbitrary: p) auto

lemma last_opt_simps [simp]:
  "last_opt [] = None" "last_opt (xs @ [x]) = Some x" "xs \<noteq> [] \<Longrightarrow> last_opt xs = Some (last xs)"
  by (simp_all add: last_opt_def)

lemma last_opt_Some: "last_opt xs = Some x \<longleftrightarrow> xs \<noteq> [] \<and> last xs = x"
  by (simp add: last_opt_def)

lemma last_opt_None: "last_opt xs = None \<longleftrightarrow> xs = []"
  by (simp add: last_opt_def)

lemma fifo_rep_empty: "fifo_rep nx fifo_empty []"
  by (simp add: fifo_rep_def fifo_empty_def)

lemma fifo_rep_head: "fifo_rep nx q xs \<Longrightarrow> fhead q = None \<longleftrightarrow> xs = []"
  by (cases xs) (auto simp: fifo_rep_def)

lemma fifo_rep_head_Some: "fifo_rep nx q xs \<Longrightarrow> fhead q = Some x \<Longrightarrow> \<exists>ys. xs = x # ys"
  by (cases xs) (auto simp: fifo_rep_def)

lemma fifo_rep_distinct: "fifo_rep nx q xs \<Longrightarrow> distinct xs"
  by (simp add: fifo_rep_def)

lemma fifo_rep_unique: "fifo_rep nx q xs \<Longrightarrow> fifo_rep nx q ys \<Longrightarrow> xs = ys"
  by (auto simp: fifo_rep_def intro: chain_unique)

text \<open>Links of nodes outside the queue do not matter: the frame rule of the queues.\<close>

lemma fifo_rep_frame:
  "fifo_rep nx q xs \<Longrightarrow> (\<And>y. y \<in> set xs \<Longrightarrow> nx' y = nx y) \<Longrightarrow> fifo_rep nx' q xs"
  unfolding fifo_rep_def using chain_cong [of xs nx' nx] by auto

subsection \<open>Correctness of the pointer operations\<close>

lemma fifo_push_rep:
  assumes "fifo_rep nx q xs" "x \<notin> set xs" "fifo_push nx q x = (nx', q')"
  shows "fifo_rep nx' q' (xs @ [x])" and "\<And>y. y \<notin> set xs \<Longrightarrow> y \<noteq> x \<Longrightarrow> nx' y = nx y"
proof -
  have "fifo_rep nx' q' (xs @ [x]) \<and> (\<forall>y. y \<notin> set xs \<longrightarrow> y \<noteq> x \<longrightarrow> nx' y = nx y)"
  proof (cases "xs = []")
    case True
    with assms show ?thesis by (auto simp: fifo_rep_def fifo_push_def)
  next
    case False
    then obtain z zs where xs: "xs = z # zs" by (cases xs) auto
    with assms(1) have h: "fhead q = Some z" and t: "ftail q = Some (last xs)"
      by (auto simp: fifo_rep_def last_opt_def)
    have "nx' = nx(x := None, last xs := Some x)" "q' = q\<lparr>ftail := Some x\<rparr>"
      using assms(3) h t by (auto simp: fifo_push_def)
    with assms(1,2) False show ?thesis
      by (auto simp: fifo_rep_def chain_snoc)
  qed
  then show "fifo_rep nx' q' (xs @ [x])"
    and "\<And>y. y \<notin> set xs \<Longrightarrow> y \<noteq> x \<Longrightarrow> nx' y = nx y" by auto
qed

lemma fifo_pop_rep_Nil: "fifo_rep nx q [] \<Longrightarrow> fifo_pop nx q = (None, nx, q)"
  by (simp add: fifo_rep_def fifo_pop_def)

lemma fifo_pop_rep_Cons:
  assumes "fifo_rep nx q (x # xs)"
  obtains nx' q' where "fifo_pop nx q = (Some x, nx', q')" "fifo_rep nx' q' xs" "nx' = nx(x := None)"
proof -
  from assms have h: "fhead q = Some x" and c: "chain nx (nx x) xs" and d: "x \<notin> set xs" "distinct xs"
    and t: "ftail q = Some (last (x # xs))"
    by (auto simp: fifo_rep_def last_opt_def)
  show ?thesis
  proof (cases xs)
    case Nil
    with h c t show ?thesis
      by (intro that) (auto simp: fifo_pop_def fifo_rep_def)
  next
    case (Cons y ys)
    with h c d t show ?thesis
      by (intro that) (auto simp: fifo_pop_def fifo_rep_def last_opt_def)
  qed
qed

lemma fifo_unlink_rep:
  assumes rep: "fifo_rep nx q (xs @ c # ys)" and prev: "prev = last_opt xs"
    and eq: "fifo_unlink nx q prev c = (nx', q')"
  shows "fifo_rep nx' q' (xs @ ys)" and "\<And>y. y \<notin> set (xs @ c # ys) \<Longrightarrow> nx' y = nx y"
    and "nx' c = None" and "\<And>y. y \<in> set ys \<Longrightarrow> nx' y = nx y"
proof -
  have ch: "chain nx (fhead q) (xs @ c # ys)" and d: "distinct (xs @ c # ys)"
    and t: "ftail q = Some (last (c # ys))"
    using rep by (auto simp: fifo_rep_def last_opt_def)
  have c_ys: "c \<notin> set ys" and c_xs: "c \<notin> set xs" using d by auto
  have tail_eq: "ftail q = Some c \<longleftrightarrow> ys = []"
    using t c_ys by (auto split: if_splits dest: last_in_set)
  have "fifo_rep nx' q' (xs @ ys) \<and> (\<forall>y. y \<notin> set (xs @ c # ys) \<longrightarrow> nx' y = nx y)
        \<and> nx' c = None \<and> (\<forall>y \<in> set ys. nx' y = nx y)"
  proof (cases xs rule: rev_cases)
    case Nil
    with ch have "chain nx (nx c) ys" by simp
    with Nil prev eq tail_eq t d show ?thesis
      by (auto simp: fifo_unlink_def fifo_rep_def last_opt_def)
  next
    case (snoc zs a)
    have "chain (nx(a := nx c, c := None)) (fhead q) (zs @ a # ys)"
      using chain_bypass [of nx "fhead q" zs a c ys] ch d snoc by simp
    with snoc prev eq tail_eq t d show ?thesis
      by (auto simp: fifo_unlink_def fifo_rep_def last_opt_def)
  qed
  then show "fifo_rep nx' q' (xs @ ys)" "\<And>y. y \<notin> set (xs @ c # ys) \<Longrightarrow> nx' y = nx y"
    "nx' c = None" "\<And>y. y \<in> set ys \<Longrightarrow> nx' y = nx y" by auto
qed

text \<open>The search loop runs down the rest of the list and stops: it returns a value.\<close>

lemma fifo_remove_loop_absent:
  "chain nx cur ys \<Longrightarrow> x \<notin> set ys \<Longrightarrow> fifo_remove_loop nx q x prev cur = Some (False, nx, q)"
proof (induction ys arbitrary: prev cur)
  case Nil
  then show ?case by (simp add: fifo_remove_loop.simps)
next
  case (Cons y ys)
  then show ?case by (subst fifo_remove_loop.simps) auto
qed

lemma fifo_remove_loop_present:
  "chain nx cur (zs @ x # ys) \<Longrightarrow> x \<notin> set zs \<Longrightarrow>
   fifo_remove_loop nx q x (last_opt ws) cur = Some (True, fifo_unlink nx q (last_opt (ws @ zs)) x)"
proof (induction zs arbitrary: ws cur)
  case Nil
  then show ?case by (subst fifo_remove_loop.simps) auto
next
  case (Cons z zs)
  have "fifo_remove_loop nx q x (last_opt (ws @ [z])) (nx z) =
        Some (True, fifo_unlink nx q (last_opt ((ws @ [z]) @ zs)) x)"
    using Cons.prems by (intro Cons.IH) auto
  then show ?case
    using Cons.prems by (subst fifo_remove_loop.simps) auto
qed

lemma fifo_remove_rep:
  assumes "fifo_rep nx q xs"
  obtains nx' q' where "fifo_remove nx q x = Some (x \<in> set xs, nx', q')"
    "fifo_rep nx' q' (remove1 x xs)" "\<And>y. y \<notin> set xs \<Longrightarrow> nx' y = nx y"
    "x \<notin> set xs \<Longrightarrow> nx' = nx \<and> q' = q"
proof (cases "x \<in> set xs")
  case False
  then have "fifo_remove nx q x = Some (False, nx, q)"
    using assms by (auto simp: fifo_remove_def fifo_rep_def intro: fifo_remove_loop_absent)
  with False assms show ?thesis by (intro that) (auto simp: remove1_idem)
next
  case True
  then obtain zs ys where xs: "xs = zs @ x # ys" and nz: "x \<notin> set zs"
    by (meson split_list_first)
  have r: "fifo_remove nx q x = Some (True, fifo_unlink nx q (last_opt zs) x)"
    using fifo_remove_loop_present [of nx "fhead q" zs x ys q "[]"] assms xs nz
    by (simp add: fifo_remove_def fifo_rep_def)
  obtain nx' q' where u: "fifo_unlink nx q (last_opt zs) x = (nx', q')" by fastforce
  from assms xs have rep: "fifo_rep nx q (zs @ x # ys)" by simp
  have rm: "remove1 x xs = zs @ ys" using xs nz by (simp add: remove1_append)
  show ?thesis
    using that [of nx' q'] r u xs rm fifo_unlink_rep(1,2) [OF rep refl u] by auto
qed

subsection \<open>The contract of a FIFO queue\<close>

text \<open>
  What the clients rely on: a queue holds a list of distinct nodes, a push appends, a pop
  takes the first, a removal drops the node wherever it is, and none of them disturbs a
  queue over other nodes (the links agree outside the queue's own nodes).
\<close>

locale fifo_queue =
  fixes rep :: "'l \<Rightarrow> 'q \<Rightarrow> nat list \<Rightarrow> bool"
    and agree :: "'l \<Rightarrow> 'l \<Rightarrow> nat set \<Rightarrow> bool"
    and push :: "'l \<Rightarrow> 'q \<Rightarrow> nat \<Rightarrow> 'l \<times> 'q"
    and pop :: "'l \<Rightarrow> 'q \<Rightarrow> nat option \<times> 'l \<times> 'q"
    and rm :: "'l \<Rightarrow> 'q \<Rightarrow> nat \<Rightarrow> (bool \<times> 'l \<times> 'q) option"
  assumes rep_distinct: "rep l q xs \<Longrightarrow> distinct xs"
    and rep_frame: "rep l q xs \<Longrightarrow> agree l l' (set xs) \<Longrightarrow> rep l' q xs"
    and agree_mono: "agree l l' B \<Longrightarrow> A \<subseteq> B \<Longrightarrow> agree l l' A"
    and push_rep: "rep l q xs \<Longrightarrow> x \<notin> set xs \<Longrightarrow>
       (case push l q x of (l', q') \<Rightarrow> rep l' q' (xs @ [x]) \<and> agree l l' (- insert x (set xs)))"
    and pop_Nil: "rep l q [] \<Longrightarrow> pop l q = (None, l, q)"
    and pop_Cons: "rep l q (x # xs) \<Longrightarrow>
       (case pop l q of (r, l', q') \<Rightarrow> r = Some x \<and> rep l' q' xs \<and> agree l l' (- {x}))"
    and rm_rep: "rep l q xs \<Longrightarrow>
       (\<exists>l' q'. rm l q x = Some (x \<in> set xs, l', q') \<and> rep l' q' (remove1 x xs)
          \<and> agree l l' (- set xs))"
begin

lemma push_other:
  assumes "rep l q xs" "x \<notin> set xs" "rep l p ys" "set ys \<inter> insert x (set xs) = {}"
    "push l q x = (l', q')"
  shows "rep l' p ys"
proof -
  have "agree l l' (- insert x (set xs))" using push_rep [OF assms(1,2)] assms(5) by simp
  then have "agree l l' (set ys)" by (rule agree_mono) (use assms(4) in auto)
  then show ?thesis by (rule rep_frame [OF assms(3)])
qed

lemma pop_other:
  assumes "rep l q (x # xs)" "rep l p ys" "x \<notin> set ys" "pop l q = (r, l', q')"
  shows "rep l' p ys"
proof -
  have "agree l l' (- {x})" using pop_Cons [OF assms(1)] assms(4) by simp
  then have "agree l l' (set ys)" by (rule agree_mono) (use assms(3) in auto)
  then show ?thesis by (rule rep_frame [OF assms(2)])
qed

lemma rm_other:
  assumes "rep l q xs" "rep l p ys" "set ys \<inter> set xs = {}" "rm l q x = Some (b, l', q')"
  shows "rep l' p ys"
proof -
  have "agree l l' (- set xs)" using rm_rep [OF assms(1), of x] assms(4) by auto
  then have "agree l l' (set ys)" by (rule agree_mono) (use assms(3) in auto)
  then show ?thesis by (rule rep_frame [OF assms(2)])
qed

text \<open>First in, first out: what is pushed comes out after everything already queued.\<close>

lemma push_then_pop:
  assumes "rep l q (y # xs)" "x \<notin> set (y # xs)" "push l q x = (l1, q1)" "pop l1 q1 = (r, l2, q2)"
  shows "r = Some y \<and> rep l2 q2 (xs @ [x])"
  using push_rep [OF assms(1,2)] assms(3,4) pop_Cons [of l1 q1 y "xs @ [x]"] by auto

end

definition links_agree :: "links \<Rightarrow> links \<Rightarrow> nat set \<Rightarrow> bool" where
  "links_agree nx nx' A \<longleftrightarrow> (\<forall>y \<in> A. nx' y = nx y)"

interpretation sll: fifo_queue fifo_rep links_agree fifo_push fifo_pop fifo_remove
proof (unfold_locales, goal_cases)
  case (1 l q xs)
  then show ?case by (rule fifo_rep_distinct)
next
  case (2 l q xs l')
  then show ?case by (auto simp: links_agree_def intro: fifo_rep_frame)
next
  case (3 l l' B A)
  then show ?case by (auto simp: links_agree_def)
next
  case (4 l q xs x)
  obtain l' q' where "fifo_push l q x = (l', q')" by fastforce
  with fifo_push_rep [OF 4 this] show ?case by (auto simp: links_agree_def)
next
  case (5 l q)
  then show ?case by (rule fifo_pop_rep_Nil)
next
  case (6 l q x xs)
  then show ?case by (rule fifo_pop_rep_Cons) (auto simp: links_agree_def)
next
  case (7 l q xs x)
  then obtain nx' q' where "fifo_remove l q x = Some (x \<in> set xs, nx', q')"
    "fifo_rep nx' q' (remove1 x xs)" "\<And>y. y \<notin> set xs \<Longrightarrow> nx' y = l y"
    by (rule fifo_remove_rep [where x = x]) blast
  then show ?case by (auto simp: links_agree_def)
qed

subsection \<open>Arrays of queues\<close>

text \<open>
  An array of queues over one pool of nodes: every queue represents its list and no node is in
  two of them. Each operation changes the list of one queue only.
\<close>

definition qarr :: "links \<Rightarrow> ('b \<Rightarrow> fifo) \<Rightarrow> ('b \<Rightarrow> nat list) \<Rightarrow> bool" where
  "qarr nx bs qs \<longleftrightarrow>
     (\<forall>b. fifo_rep nx (bs b) (qs b)) \<and> (\<forall>a b. a \<noteq> b \<longrightarrow> set (qs a) \<inter> set (qs b) = {})"

lemma qarrD:
  assumes "qarr nx bs qs"
  shows "fifo_rep nx (bs b) (qs b)" "distinct (qs b)" "a \<noteq> b \<Longrightarrow> set (qs a) \<inter> set (qs b) = {}"
    "x \<in> set (qs a) \<Longrightarrow> x \<in> set (qs b) \<Longrightarrow> a = b"
  using assms by (auto simp: qarr_def dest: fifo_rep_distinct)

lemma qarr_empty: "qarr nx (\<lambda>_. fifo_empty) (\<lambda>_. [])"
  by (simp add: qarr_def fifo_rep_empty)

lemma qarr_update:
  assumes q: "qarr nx bs qs" and rep: "fifo_rep nx' q' xs"
    and frame: "\<And>y. y \<notin> set xs \<Longrightarrow> y \<notin> set (qs b) \<Longrightarrow> nx' y = nx y"
    and new: "\<And>a. a \<noteq> b \<Longrightarrow> set xs \<inter> set (qs a) = {}"
  shows "qarr nx' (bs(b := q')) (qs(b := xs))"
proof -
  have "fifo_rep nx' (bs a) (qs a)" if "a \<noteq> b" for a
    by (rule fifo_rep_frame [OF qarrD(1) [OF q]]) (use frame new [OF that] qarrD(3) [OF q that] in auto)
  moreover have "set (qs a) \<inter> set xs = {}" if "a \<noteq> b" for a using new [OF that] by auto
  ultimately show ?thesis using q rep new by (auto simp: qarr_def)
qed

lemma qarr_push:
  assumes q: "qarr nx bs qs" and new: "\<And>a. x \<notin> set (qs a)" and eq: "fifo_push nx (bs b) x = (nx', q')"
  shows "qarr nx' (bs(b := q')) (qs(b := qs b @ [x]))"
  using fifo_push_rep [OF qarrD(1) [OF q] new eq] qarrD(3) [OF q] new
  by (intro qarr_update [OF q]) auto

lemma qarr_unlink:
  assumes q: "qarr nx bs qs" and eq: "qs b = xs @ c # ys"
    and un: "fifo_unlink nx (bs b) (last_opt xs) c = (nx', q')"
  shows "qarr nx' (bs(b := q')) (qs(b := xs @ ys))" and "\<And>y. y \<in> set ys \<Longrightarrow> nx' y = nx y"
proof -
  have rep: "fifo_rep nx (bs b) (xs @ c # ys)" using qarrD(1) [OF q, of b] eq by simp
  note un = fifo_unlink_rep [OF rep refl un]
  show "qarr nx' (bs(b := q')) (qs(b := xs @ ys))"
  proof (rule qarr_update [OF q un(1)])
    show "nx' y = nx y" if "y \<notin> set (xs @ ys)" "y \<notin> set (qs b)" for y
      using un(2) that eq by simp
    show "set (xs @ ys) \<inter> set (qs a) = {}" if "a \<noteq> b" for a
      using qarrD(3) [OF q that] eq by auto
  qed
  show "nx' y = nx y" if "y \<in> set ys" for y using un(4) that .
qed

lemma qarr_remove:
  assumes q: "qarr nx bs qs"
  obtains nx' q' where "fifo_remove nx (bs b) x = Some (x \<in> set (qs b), nx', q')"
    "qarr nx' (bs(b := q')) (qs(b := remove1 x (qs b)))"
proof -
  have sub: "set (remove1 x (qs b)) \<subseteq> set (qs b)" by (rule set_remove1_subset)
  obtain nx' q' where r: "fifo_remove nx (bs b) x = Some (x \<in> set (qs b), nx', q')"
    "fifo_rep nx' q' (remove1 x (qs b))" "\<And>y. y \<notin> set (qs b) \<Longrightarrow> nx' y = nx y"
    by (rule fifo_remove_rep [OF qarrD(1) [OF q, of b], of x]) blast
  have "qarr nx' (bs(b := q')) (qs(b := remove1 x (qs b)))"
    using r(3) sub qarrD(3) [OF q] by (intro qarr_update [OF q r(2)]) blast+
  with r(1) show ?thesis by (rule that)
qed

lemma qarr_chain:
  "qarr nx bs qs \<Longrightarrow> qs b = xs @ c # ys \<Longrightarrow> chain nx (nx c) ys"
  using qarrD(1) [of nx bs qs b] chain_append_node [of nx "fhead (bs b)" xs c ys]
  by (simp add: fifo_rep_def)

end
