(* ===== verification/Sched.thy ===== *)
theory Sched
  imports Fifo
begin

text \<open>
  The fixed-priority preemptive scheduler, \<^verbatim>\<open>kernel/sched.c\<close>: the task pool, the ready
  bitmap, one FIFO run queue per priority, blocking, wake-up, the timer tick and priority
  donation. A task pointer is its slot in the pool, \<^verbatim>\<open>NULL\<close> is \<open>None\<close>; the \<^verbatim>\<open>next\<close>
  fields of the TCBs are the map \<open>t_next\<close>. The process contexts that live in the same file
  are fields of the same state; their operations are in the theory of processes.
\<close>

subsection \<open>Data\<close>

definition SCHED_MAX_TASKS :: nat where "SCHED_MAX_TASKS = 96"
definition SCHED_TICK_QUANTUM :: u8 where "SCHED_TICK_QUANTUM = 10"
definition PRIO_KERNEL :: u8 where "PRIO_KERNEL = 0"
definition PRIO_NORMAL :: u8 where "PRIO_NORMAL = 128"
definition PRIO_IDLE :: u8 where "PRIO_IDLE = 255"
definition TICK_NS :: u64 where "TICK_NS = 1000000"
definition TCB_FLAG_KERNEL :: u8 where "TCB_FLAG_KERNEL = 1"
definition TCB_FLAG_IDLE :: u8 where "TCB_FLAG_IDLE = 2"
definition TCB_FLAG_USER :: u8 where "TCB_FLAG_USER = 8"
definition TCB_FLAG_THREAD :: u8 where "TCB_FLAG_THREAD = 16"

lemmas sched_consts [kernel_defs] =
  SCHED_MAX_TASKS_def SCHED_TICK_QUANTUM_def PRIO_KERNEL_def PRIO_NORMAL_def PRIO_IDLE_def
  TICK_NS_def TCB_FLAG_KERNEL_def TCB_FLAG_IDLE_def TCB_FLAG_USER_def TCB_FLAG_THREAD_def

datatype tcb_state = TCB_RUNNING | TCB_READY | TCB_BLOCKED | TCB_ZOMBIE

record tcb =
  t_sp :: u64
  t_pid :: u32
  t_priority :: u8
  t_state :: tcb_state
  t_flags :: u8
  t_ticks_left :: u8
  t_runtime_ns :: u64
  t_budget_ns :: u64
  t_period_ms :: u64
  t_deadline_ms :: u64
  t_name :: string

record exception_frame =
  f_x :: "nat \<Rightarrow> u64"
  f_sp :: u64
  f_pc :: u64
  f_spsr :: u64
  f_esr :: u64
  f_far :: u64

record task_ctx =
  c_mm :: "nat option"
  c_kernel_stack_pa :: u64
  c_user_entry :: u64
  c_user_sp :: u64
  c_argc :: u64
  c_argv :: u64
  c_envp :: u64
  c_auxv :: u64
  c_tpidr_el0 :: u64
  c_child_set_tid_uva :: u64
  c_clear_child_tid_uva :: u64
  c_is_user :: bool
  c_resume_from_frame :: bool
  c_proc_slot :: nat
  c_exit_code :: int
  c_start_frame :: exception_frame

record rlimit64 =
  rlim_cur :: u64
  rlim_max :: u64

record proc_ctx =
  p_mm :: "nat option"
  p_tgid :: u32
  p_parent_pid :: u32
  p_pgid :: u32
  p_sid :: u32
  p_wait_exit_code :: int
  p_group_exit_code :: int
  p_refcount :: u16
  p_in_use :: bool
  p_waitable :: bool
  p_group_exiting :: bool
  p_abi_mode :: u8
  p_exec_path :: string
  p_rlimits :: "nat \<Rightarrow> rlimit64"
  p_itimer_expires_ms :: u64
  p_itimer_interval_ms :: u64

record sched =
  task_pool :: "nat \<Rightarrow> tcb"
  task_count :: nat
  next_pid :: u32
  donated_priority :: "nat \<Rightarrow> u8"
  task_ctx :: "nat \<Rightarrow> task_ctx"
  proc_ctx :: "nat \<Rightarrow> proc_ctx"
  ready_bitmap :: "nat \<Rightarrow> u64"
  rq :: "nat \<Rightarrow> fifo"
  t_next :: links
  current_task :: "nat option"
  need_resched :: bool

definition set_tcb :: "sched \<Rightarrow> nat \<Rightarrow> tcb \<Rightarrow> sched" where
  "set_tcb s t b = s\<lparr>task_pool := (task_pool s)(t := b)\<rparr>"

definition set_state :: "sched \<Rightarrow> nat \<Rightarrow> tcb_state \<Rightarrow> sched" where
  "set_state s t st = set_tcb s t ((task_pool s t)\<lparr>t_state := st\<rparr>)"

definition set_ticks :: "sched \<Rightarrow> nat \<Rightarrow> u8 \<Rightarrow> sched" where
  "set_ticks s t n = set_tcb s t ((task_pool s t)\<lparr>t_ticks_left := n\<rparr>)"

abbreviation state_of :: "sched \<Rightarrow> nat \<Rightarrow> tcb_state" where
  "state_of s t \<equiv> t_state (task_pool s t)"

definition eff_prio_slot :: "sched \<Rightarrow> nat \<Rightarrow> u8" where
  "eff_prio_slot s t =
     (if donated_priority s t < t_priority (task_pool s t)
      then donated_priority s t else t_priority (task_pool s t))"

definition eff_prio_of :: "sched \<Rightarrow> nat option \<Rightarrow> u8" where
  "eff_prio_of s t = (case t of None \<Rightarrow> PRIO_IDLE | Some i \<Rightarrow> eff_prio_slot s i)"

subsection \<open>Ready bitmap\<close>

definition bitmap_set :: "(nat \<Rightarrow> u64) \<Rightarrow> u8 \<Rightarrow> nat \<Rightarrow> u64" where
  "bitmap_set bm p =
     (let w = unat (drop_bit 6 p) in bm(w := bm w OR push_bit (unat (p AND 63)) 1))"

definition bitmap_clear :: "(nat \<Rightarrow> u64) \<Rightarrow> u8 \<Rightarrow> nat \<Rightarrow> u64" where
  "bitmap_clear bm p =
     (let w = unat (drop_bit 6 p) in bm(w := bm w AND NOT (push_bit (unat (p AND 63)) 1)))"

text \<open>\<^verbatim>\<open>__builtin_ctzll\<close>: the index of the lowest set bit (undefined at 0, never asked there).\<close>

definition ctzll :: "u64 \<Rightarrow> nat" where
  "ctzll x = (case for_find (bit x) 0 64 of Some i \<Rightarrow> i | None \<Rightarrow> 64)"

definition bitmap_find_first :: "(nat \<Rightarrow> u64) \<Rightarrow> nat option" where
  "bitmap_find_first bm =
     (case for_find (\<lambda>w. bm w \<noteq> 0) 0 4 of
        Some w \<Rightarrow> Some (w * 64 + ctzll (bm w))
      | None \<Rightarrow> None)"

subsection \<open>Run queues\<close>

definition rq_push :: "sched \<Rightarrow> nat \<Rightarrow> sched" where
  "rq_push s t =
     (let p = eff_prio_slot s t;
          (nx, q) = fifo_push (t_next s) (rq s (unat p)) t
      in s\<lparr>t_next := nx, rq := (rq s)(unat p := q), ready_bitmap := bitmap_set (ready_bitmap s) p\<rparr>)"

definition rq_pop :: "sched \<Rightarrow> u8 \<Rightarrow> nat option \<times> sched" where
  "rq_pop s p =
     (case fifo_pop (t_next s) (rq s (unat p)) of
        (None, _, _) \<Rightarrow> (None, s)
      | (Some t, nx, q) \<Rightarrow>
          (Some t, s\<lparr>t_next := nx, rq := (rq s)(unat p := q),
                     ready_bitmap := (if fhead q = None then bitmap_clear (ready_bitmap s) p
                                      else ready_bitmap s)\<rparr>))"

definition rq_remove :: "sched \<Rightarrow> nat \<Rightarrow> u8 \<Rightarrow> (bool \<times> sched) option" where
  "rq_remove s t p =
     do {
       (found, nx, q) \<leftarrow> fifo_remove (t_next s) (rq s (unat p)) t;
       Some (if found
             then (True, s\<lparr>t_next := nx, rq := (rq s)(unat p := q),
                           ready_bitmap := (if fhead q = None then bitmap_clear (ready_bitmap s) p
                                            else ready_bitmap s)\<rparr>)
             else (False, s))
     }"

subsection \<open>Picking the next task and switching\<close>

text \<open>
  The \<^verbatim>\<open>for (;;)\<close> of \<^verbatim>\<open>schedule_locked\<close>: stale queue entries are discarded until a READY
  task other than the previous one is found; \<open>None\<close> as the result of the loop is "never
  returns", \<open>Some (None, s)\<close> is the early return when no bit is set.
\<close>

partial_function (option) sched_pick :: "nat \<Rightarrow> sched \<Rightarrow> (nat option \<times> sched) option" where
  "sched_pick prev s =
     (case bitmap_find_first (ready_bitmap s) of
        None \<Rightarrow> Some (None, s)
      | Some p \<Rightarrow>
          if p > 255 then Some (None, s)
          else
            (case rq_pop s (word_of_nat p) of
               (None, s') \<Rightarrow> sched_pick prev s'
             | (Some n, s') \<Rightarrow>
                 if n = prev \<or> state_of s' n \<noteq> TCB_READY then sched_pick prev s'
                 else Some (Some n, s')))"

definition sched_switch :: "sched \<Rightarrow> nat \<Rightarrow> nat \<Rightarrow> sched" where
  "sched_switch s prev n =
     (let s = (if state_of s prev = TCB_RUNNING then rq_push (set_state s prev TCB_READY) prev else s);
          s = (if t_ticks_left (task_pool s prev) = 0 then set_ticks s prev SCHED_TICK_QUANTUM else s);
          s = set_state s n TCB_RUNNING;
          s = (if t_ticks_left (task_pool s n) = 0 then set_ticks s n SCHED_TICK_QUANTUM else s)
      in s\<lparr>current_task := Some n\<rparr>)"

text \<open>
  The state when the context switch happens. With \<^verbatim>\<open>current_task\<close> null the code reads
  through the null pointer: no result.
\<close>

definition schedule_locked :: "sched \<Rightarrow> sched option" where
  "schedule_locked s =
     do {
       prev \<leftarrow> current_task s;
       (next, s') \<leftarrow> sched_pick prev s;
       Some (case next of None \<Rightarrow> s' | Some n \<Rightarrow> sched_switch s' prev n)
     }"

definition schedule :: "sched \<Rightarrow> sched option" where
  "schedule s = schedule_locked s"

definition sched_yield :: "sched \<Rightarrow> sched option" where
  "sched_yield s =
     schedule_locked (case current_task s of None \<Rightarrow> s | Some c \<Rightarrow> set_ticks s c 0)"

definition sched_block :: "sched \<Rightarrow> sched option" where
  "sched_block s =
     schedule_locked (case current_task s of None \<Rightarrow> s | Some c \<Rightarrow> set_state s c TCB_BLOCKED)"

definition resched_if_higher :: "sched \<Rightarrow> nat \<Rightarrow> sched" where
  "resched_if_higher s t =
     (if current_task s \<noteq> None \<and> eff_prio_slot s t < eff_prio_of s (current_task s)
      then s\<lparr>need_resched := True\<rparr> else s)"

definition sched_unblock :: "sched \<Rightarrow> nat option \<Rightarrow> sched" where
  "sched_unblock s t =
     (case t of
        None \<Rightarrow> s
      | Some t \<Rightarrow>
          if state_of s t = TCB_BLOCKED
          then resched_if_higher
                 (rq_push (set_ticks (set_state s t TCB_READY) t SCHED_TICK_QUANTUM) t) t
          else s)"

subsection \<open>Timer tick\<close>

text \<open>
  \<open>alarm\<close> is the effect of \<^verbatim>\<open>signal_send_pid(tgid, SIGALRM)\<close> on this state, which belongs
  to the signal code.
\<close>

definition sched_tick_itimer :: "(u32 \<Rightarrow> sched \<Rightarrow> sched) \<Rightarrow> u64 \<Rightarrow> sched \<Rightarrow> nat \<Rightarrow> sched" where
  "sched_tick_itimer alarm jiffies s i =
     (let proc = proc_ctx s i
      in if \<not> p_in_use proc \<or> p_itimer_expires_ms proc = 0 then s
         else if jiffies < p_itimer_expires_ms proc then s
         else
           (let proc' = proc\<lparr>p_itimer_expires_ms :=
                  (if p_itimer_interval_ms proc \<noteq> 0 then jiffies + p_itimer_interval_ms proc else 0)\<rparr>
            in (alarm (p_tgid proc') (s\<lparr>proc_ctx := (proc_ctx s)(i := proc')\<rparr>))\<lparr>need_resched := True\<rparr>))"

definition sched_tick_account :: "u64 \<Rightarrow> sched \<Rightarrow> nat \<Rightarrow> sched" where
  "sched_tick_account jiffies s c =
     (let b = (task_pool s c)\<lparr>t_runtime_ns := t_runtime_ns (task_pool s c) + TICK_NS\<rparr>;
          b = (if t_ticks_left b > 0 then b\<lparr>t_ticks_left := t_ticks_left b - 1\<rparr> else b);
          s = set_tcb s c b;
          s = (if t_ticks_left b = 0 then s\<lparr>need_resched := True\<rparr> else s)
      in if t_deadline_ms b > 0 \<and> jiffies > t_deadline_ms b \<and> t_flags b AND TCB_FLAG_IDLE = 0
         then s\<lparr>need_resched := True\<rparr> else s)"

definition sched_tick :: "(u32 \<Rightarrow> sched \<Rightarrow> sched) \<Rightarrow> u64 \<Rightarrow> sched \<Rightarrow> sched" where
  "sched_tick alarm jiffies s =
     (case current_task s of
        None \<Rightarrow> s
      | Some c \<Rightarrow>
          foldl (sched_tick_itimer alarm jiffies) (sched_tick_account jiffies s c) [0..<SCHED_MAX_TASKS])"

subsection \<open>Priority donation\<close>

definition set_donated :: "sched \<Rightarrow> nat \<Rightarrow> u8 \<Rightarrow> sched" where
  "set_donated s t d = s\<lparr>donated_priority := (donated_priority s)(t := d)\<rparr>"

text \<open>Moving a READY task between run queues when its effective priority changed.\<close>

definition sched_requeue :: "sched \<Rightarrow> nat \<Rightarrow> u8 \<Rightarrow> sched option" where
  "sched_requeue s t old_eff =
     (if eff_prio_slot s t \<noteq> old_eff \<and> state_of s t = TCB_READY
      then do { (_, s') \<leftarrow> rq_remove s t old_eff; Some (rq_push s' t) }
      else Some s)"

definition sched_task_donate_priority :: "sched \<Rightarrow> nat option \<Rightarrow> u8 \<Rightarrow> (bool \<times> sched) option" where
  "sched_task_donate_priority s t d =
     (case t of
        None \<Rightarrow> Some (False, s)
      | Some t \<Rightarrow>
          (let old_eff = eff_prio_slot s t;
               s1 = (if donated_priority s t = 0xFF \<or> d < donated_priority s t
                     then set_donated s t d else s);
               new_eff = eff_prio_slot s1 t
           in do {
                s2 \<leftarrow> sched_requeue s1 t old_eff;
                Some (True,
                  if current_task s2 \<noteq> None \<and> current_task s2 \<noteq> Some t
                     \<and> new_eff < eff_prio_of s2 (current_task s2)
                  then s2\<lparr>need_resched := True\<rparr> else s2)
              }))"

definition sched_task_clear_donation :: "sched \<Rightarrow> nat option \<Rightarrow> sched option" where
  "sched_task_clear_donation s t =
     (case t of
        None \<Rightarrow> Some s
      | Some t \<Rightarrow>
          (let old_eff = eff_prio_slot s t;
               s1 = set_donated s t 0xFF;
               new_eff = eff_prio_slot s1 t
           in do {
                s2 \<leftarrow> sched_requeue s1 t old_eff;
                Some (if current_task s2 = Some t
                      then (case bitmap_find_first (ready_bitmap s2) of
                              Some h \<Rightarrow> if h < unat new_eff then s2\<lparr>need_resched := True\<rparr> else s2
                            | None \<Rightarrow> s2)
                      else if current_task s2 \<noteq> None \<and> new_eff < eff_prio_of s2 (current_task s2)
                      then s2\<lparr>need_resched := True\<rparr>
                      else s2)
              }))"

subsection \<open>The bitmap finds the lowest set priority\<close>

definition bm_bit :: "(nat \<Rightarrow> u64) \<Rightarrow> nat \<Rightarrow> bool" where
  "bm_bit bm p \<longleftrightarrow> bit (bm (p div 64)) (p mod 64)"

lemma prio_word: "unat (drop_bit 6 p) = unat p div 64" for p :: u8
  by (simp add: drop_bit_eq_div unat_div)

lemma prio_mask: "unat (p AND 63) = unat p mod 64" for p :: u8
proof -
  have "p AND 63 = p mod 64"
    using take_bit_eq_mask [of 6 p] by (simp add: mask_eq_exp_minus_1 take_bit_eq_mod)
  then show ?thesis by (simp add: unat_mod)
qed

lemma prio_split: "p div 64 = q div 64 \<and> p mod 64 = q mod (64 :: nat) \<longleftrightarrow> p = q"
  by (metis div_mult_mod_eq)

lemma bm_bit_set [simp]: "bm_bit (bitmap_set bm p) q \<longleftrightarrow> q = unat p \<or> bm_bit bm q"
  using prio_split [of q "unat p"]
  by (auto simp: bm_bit_def bitmap_set_def prio_word prio_mask Let_def bit_simps)

lemma bm_bit_clear [simp]: "bm_bit (bitmap_clear bm p) q \<longleftrightarrow> q \<noteq> unat p \<and> bm_bit bm q"
  using prio_split [of q "unat p"]
  by (auto simp: bm_bit_def bitmap_clear_def prio_word prio_mask Let_def bit_simps)

lemma word_nonzero_bit: "(x :: u64) \<noteq> 0 \<longleftrightarrow> (\<exists>i < 64. bit x i)"
  by (auto simp: bit_eq_iff dest: bit_imp_le_length)

lemma ctzll_props:
  assumes "x \<noteq> 0"
  shows "ctzll x < 64" "bit x (ctzll x)" "\<And>j. j < ctzll x \<Longrightarrow> \<not> bit x j"
proof -
  from assms obtain k where k: "for_find (bit x) 0 64 = Some k"
    using for_find_exists [of "bit x" 0 64] word_nonzero_bit [of x] by auto
  with for_find_SomeD [OF k] show "ctzll x < 64" "bit x (ctzll x)"
    "\<And>j. j < ctzll x \<Longrightarrow> \<not> bit x j" by (auto simp: ctzll_def)
qed

lemma bitmap_find_first_None:
  "bitmap_find_first bm = None \<longleftrightarrow> (\<forall>p < 256. \<not> bm_bit bm p)"
proof -
  have "bitmap_find_first bm = None \<longleftrightarrow> (\<forall>w < 4. bm w = 0)"
    by (auto simp: bitmap_find_first_def for_find_None for_find_Some split: option.splits)
  also have "\<dots> \<longleftrightarrow> (\<forall>p < 256. \<not> bm_bit bm p)"
  proof (intro iffI allI impI)
    fix w :: nat
    assume h: "\<forall>p < 256. \<not> bm_bit bm p" and w: "w < 4"
    have "\<not> bit (bm w) i" if "i < 64" for i
    proof -
      have "\<not> bm_bit bm (w * 64 + i)" using h w that by auto
      then show ?thesis using that by (simp add: bm_bit_def)
    qed
    then show "bm w = 0" using word_nonzero_bit [of "bm w"] by auto
  qed (auto simp: bm_bit_def)
  finally show ?thesis .
qed

lemma bitmap_find_first_Some:
  assumes "bitmap_find_first bm = Some p"
  shows "p < 256" "bm_bit bm p" "\<And>q. q < p \<Longrightarrow> \<not> bm_bit bm q"
proof -
  from assms obtain w where w: "for_find (\<lambda>w. bm w \<noteq> 0) 0 4 = Some w" "p = w * 64 + ctzll (bm w)"
    by (auto simp: bitmap_find_first_def split: option.splits)
  note f = for_find_SomeD [OF w(1)] note c = ctzll_props [OF f(3)]
  show "p < 256" "bm_bit bm p" using w(2) f(2) c(1,2) by (auto simp: bm_bit_def)
  show "\<not> bm_bit bm q" if "q < p" for q
  proof (cases "q div 64 = w")
    case True
    with that w(2) have "q mod 64 < ctzll (bm w)"
      by (metis add_less_cancel_left div_mult_mod_eq)
    with True c(3) show ?thesis by (simp add: bm_bit_def)
  next
    case False
    have "q div 64 < w" using that w(2) c(1) False by (auto simp: less_mult_imp_div_less le_neq_implies_less)
    with f(4) show ?thesis by (simp add: bm_bit_def)
  qed
qed

subsection \<open>Queues and the lists they hold\<close>

text \<open>
  \<open>qs p\<close> is the list of tasks in the run queue of priority \<open>p\<close>: the pointers of each queue
  represent it, no task is in two queues, and the bitmap marks the non-empty ones.
\<close>

definition rqs :: "sched \<Rightarrow> (nat \<Rightarrow> nat list) \<Rightarrow> bool" where
  "rqs s qs \<longleftrightarrow>
     (\<forall>p < 256. fifo_rep (t_next s) (rq s p) (qs p) \<and> (bm_bit (ready_bitmap s) p \<longleftrightarrow> qs p \<noteq> [])) \<and>
     (\<forall>p < 256. \<forall>q < 256. p \<noteq> q \<longrightarrow> set (qs p) \<inter> set (qs q) = {})"

lemma rqs_cong:
  "t_next s' = t_next s \<Longrightarrow> rq s' = rq s \<Longrightarrow> ready_bitmap s' = ready_bitmap s \<Longrightarrow> rqs s' qs = rqs s qs"
  by (simp add: rqs_def)

lemma rqsD:
  assumes "rqs s qs" "p < 256"
  shows "fifo_rep (t_next s) (rq s p) (qs p)" "bm_bit (ready_bitmap s) p \<longleftrightarrow> qs p \<noteq> []"
    "distinct (qs p)" "q < 256 \<Longrightarrow> p \<noteq> q \<Longrightarrow> set (qs p) \<inter> set (qs q) = {}"
  using assms by (auto simp: rqs_def dest: fifo_rep_distinct)

lemma prio_bound [simp]: "unat (p :: u8) < 256"
  using unsigned_less [of p] by simp

lemma prio_max: "(p :: u8) \<le> 0xFF"
proof -
  have "unat p \<le> 255" using prio_bound [of p] by linarith
  then show ?thesis by (simp add: word_le_nat_alt)
qed

text \<open>Replacing the list of one queue: what each queue operation has to show.\<close>

lemma rqs_update:
  assumes "rqs s qs" "p < 256" "fifo_rep nx q xs" "bm_bit bm p \<longleftrightarrow> xs \<noteq> []"
    and "\<And>r. r < 256 \<Longrightarrow> r \<noteq> p \<Longrightarrow> fifo_rep nx (rq s r) (qs r)"
    and "\<And>r. r < 256 \<Longrightarrow> r \<noteq> p \<Longrightarrow> bm_bit bm r = bm_bit (ready_bitmap s) r"
    and "\<And>r. r < 256 \<Longrightarrow> r \<noteq> p \<Longrightarrow> set xs \<inter> set (qs r) = {}"
    and "t_next s' = nx" "rq s' = (rq s)(p := q)" "ready_bitmap s' = bm"
  shows "rqs s' (qs(p := xs))"
  using assms unfolding rqs_def by auto

lemma rq_push_rqs:
  assumes q: "rqs s qs" and new: "\<And>p. p < 256 \<Longrightarrow> t \<notin> set (qs p)" and p: "p = unat (eff_prio_slot s t)"
  shows "rqs (rq_push s t) (qs(p := qs p @ [t]))"
proof -
  obtain nx qq where push: "fifo_push (t_next s) (rq s p) t = (nx, qq)" by fastforce
  have p256: "p < 256" using p by simp
  note rep = rqsD(1) [OF q p256]
  have pr: "fifo_rep nx qq (qs p @ [t])"
    using sll.push_rep [OF rep new [OF p256]] push by simp
  show ?thesis
  proof (rule rqs_update [OF q p256 pr])
    show "fifo_rep nx (rq s r) (qs r)" if "r < 256" "r \<noteq> p" for r
      using sll.push_other [OF rep new [OF p256] rqsD(1) [OF q that(1)] _ push]
        rqsD(4) [OF q that(1) p256 that(2)] new [OF that(1)] by auto
    show "set (qs p @ [t]) \<inter> set (qs r) = {}" if "r < 256" "r \<noteq> p" for r
      using rqsD(4) [OF q p256 that(1)] that new [OF that(1)] by auto
  qed (use push p in \<open>auto simp: rq_push_def Let_def\<close>)
qed

lemma rq_pop_rqs:
  assumes q: "rqs s qs" and h: "qs (unat p) = t # ts"
  obtains s' where "rq_pop s p = (Some t, s')" "rqs s' (qs(unat p := ts))"
    "task_pool s' = task_pool s" "current_task s' = current_task s" "task_count s' = task_count s"
    "donated_priority s' = donated_priority s" "need_resched s' = need_resched s"
    "proc_ctx s' = proc_ctx s" "task_ctx s' = task_ctx s" "next_pid s' = next_pid s"
proof -
  have rep: "fifo_rep (t_next s) (rq s (unat p)) (t # ts)" using rqsD(1) [OF q, of "unat p"] h by simp
  obtain r nx qq where pop: "fifo_pop (t_next s) (rq s (unat p)) = (r, nx, qq)" by (metis prod_cases3)
  with sll.pop_Cons [OF rep] have r: "r = Some t" "fifo_rep nx qq ts" by auto
  define s' where "s' = s\<lparr>t_next := nx, rq := (rq s)(unat p := qq),
      ready_bitmap := (if fhead qq = None then bitmap_clear (ready_bitmap s) p else ready_bitmap s)\<rparr>"
  have b: "bm_bit (ready_bitmap s) (unat p)" using rqsD(2) [OF q, of "unat p"] h by simp
  have "rqs s' (qs(unat p := ts))"
  proof (rule rqs_update [OF q _ r(2)])
    show "bm_bit (ready_bitmap s') (unat p) \<longleftrightarrow> ts \<noteq> []"
      using fifo_rep_head [OF r(2)] b by (simp add: s'_def)
    show "fifo_rep nx (rq s k) (qs k)" if "k < 256" "k \<noteq> unat p" for k
      using sll.pop_other [OF rep rqsD(1) [OF q that(1)] _ pop] rqsD(4) [OF q that(1) _ that(2)] h by force
    show "set ts \<inter> set (qs k) = {}" if "k < 256" "k \<noteq> unat p" for k
      using rqsD(4) [OF q that(1), of "unat p"] that h by auto
  qed (auto simp: s'_def)
  moreover have "rq_pop s p = (Some t, s')" using pop r by (simp add: rq_pop_def s'_def)
  ultimately show ?thesis by (intro that [of s']) (auto simp: s'_def)
qed

lemma rq_remove_rqs:
  assumes q: "rqs s qs" and h: "t \<in> set (qs (unat p))"
  obtains s' where "rq_remove s t p = Some (True, s')" "rqs s' (qs(unat p := remove1 t (qs (unat p))))"
    "task_pool s' = task_pool s" "current_task s' = current_task s" "task_count s' = task_count s"
    "donated_priority s' = donated_priority s" "need_resched s' = need_resched s"
    "proc_ctx s' = proc_ctx s" "task_ctx s' = task_ctx s" "next_pid s' = next_pid s"
proof -
  let ?xs = "qs (unat p)"
  have rep: "fifo_rep (t_next s) (rq s (unat p)) ?xs" using rqsD(1) [OF q, of "unat p"] by simp
  obtain nx qq where rm: "fifo_remove (t_next s) (rq s (unat p)) t = Some (True, nx, qq)"
    "fifo_rep nx qq (remove1 t ?xs)"
    using sll.rm_rep [OF rep, of t] h by auto
  define s' where "s' = s\<lparr>t_next := nx, rq := (rq s)(unat p := qq),
      ready_bitmap := (if fhead qq = None then bitmap_clear (ready_bitmap s) p else ready_bitmap s)\<rparr>"
  have b: "bm_bit (ready_bitmap s) (unat p)" using rqsD(2) [OF q, of "unat p"] h by auto
  have sub: "set (remove1 t ?xs) \<subseteq> set ?xs" by (rule set_remove1_subset)
  have "rqs s' (qs(unat p := remove1 t ?xs))"
  proof (rule rqs_update [OF q _ rm(2)])
    show "bm_bit (ready_bitmap s') (unat p) \<longleftrightarrow> remove1 t ?xs \<noteq> []"
      using fifo_rep_head [OF rm(2)] b by (simp add: s'_def)
    show "fifo_rep nx (rq s k) (qs k)" if "k < 256" "k \<noteq> unat p" for k
      using sll.rm_other [OF rep rqsD(1) [OF q that(1)] _ rm(1)] rqsD(4) [OF q that(1) _ that(2)] by auto
    show "set (remove1 t ?xs) \<inter> set (qs k) = {}" if "k < 256" "k \<noteq> unat p" for k
      using rqsD(4) [OF q that(1), of "unat p"] that sub by fastforce
  qed (auto simp: s'_def)
  moreover have "rq_remove s t p = Some (True, s')" using rm by (simp add: rq_remove_def s'_def)
  ultimately show ?thesis by (intro that [of s']) (auto simp: s'_def)
qed

subsection \<open>The scheduler invariant\<close>

text \<open>
  The run queues hold exactly the READY tasks, each in the queue of its effective priority;
  the current task exists, is not READY, and is the only task that may be RUNNING.
\<close>

definition sched_wf :: "sched \<Rightarrow> (nat \<Rightarrow> nat list) \<Rightarrow> bool" where
  "sched_wf s qs \<longleftrightarrow> rqs s qs \<and>
     (\<forall>p < 256. \<forall>t \<in> set (qs p). t < task_count s \<and> state_of s t = TCB_READY \<and> unat (eff_prio_slot s t) = p) \<and>
     (\<forall>t < task_count s. state_of s t = TCB_READY \<longrightarrow> t \<in> set (qs (unat (eff_prio_slot s t)))) \<and>
     (\<exists>c < task_count s. current_task s = Some c \<and> state_of s c \<noteq> TCB_READY \<and>
        (\<forall>t < task_count s. state_of s t = TCB_RUNNING \<longrightarrow> t = c))"

lemma sched_wfD:
  assumes "sched_wf s qs"
  shows "rqs s qs"
    and "p < 256 \<Longrightarrow> t \<in> set (qs p) \<Longrightarrow> t < task_count s \<and> state_of s t = TCB_READY \<and> unat (eff_prio_slot s t) = p"
    and "t < task_count s \<Longrightarrow> state_of s t = TCB_READY \<Longrightarrow> t \<in> set (qs (unat (eff_prio_slot s t)))"
  using assms unfolding sched_wf_def by blast+

lemma sched_wf_current:
  assumes "sched_wf s qs"
  obtains c where "current_task s = Some c" "c < task_count s" "state_of s c \<noteq> TCB_READY"
    "\<And>t. t < task_count s \<Longrightarrow> state_of s t = TCB_RUNNING \<Longrightarrow> t = c"
  using assms unfolding sched_wf_def by blast

text \<open>A task that is not READY is in no run queue.\<close>

lemma sched_wf_not_queued:
  "sched_wf s qs \<Longrightarrow> state_of s t \<noteq> TCB_READY \<Longrightarrow> p < 256 \<Longrightarrow> t \<notin> set (qs p)"
  using sched_wfD(2) by blast

lemma set_tcb_simps [simp]:
  "task_pool (set_tcb s t b) = (task_pool s)(t := b)"
  "t_next (set_tcb s t b) = t_next s" "rq (set_tcb s t b) = rq s"
  "ready_bitmap (set_tcb s t b) = ready_bitmap s" "current_task (set_tcb s t b) = current_task s"
  "task_count (set_tcb s t b) = task_count s" "donated_priority (set_tcb s t b) = donated_priority s"
  "need_resched (set_tcb s t b) = need_resched s" "proc_ctx (set_tcb s t b) = proc_ctx s"
  by (simp_all add: set_tcb_def)

lemma set_state_simps [simp]:
  "task_pool (set_state s t st) = (task_pool s)(t := (task_pool s t)\<lparr>t_state := st\<rparr>)"
  "t_next (set_state s t st) = t_next s" "rq (set_state s t st) = rq s"
  "ready_bitmap (set_state s t st) = ready_bitmap s" "current_task (set_state s t st) = current_task s"
  "task_count (set_state s t st) = task_count s" "donated_priority (set_state s t st) = donated_priority s"
  "need_resched (set_state s t st) = need_resched s" "proc_ctx (set_state s t st) = proc_ctx s"
  by (simp_all add: set_state_def)

lemma set_ticks_simps [simp]:
  "task_pool (set_ticks s t n) = (task_pool s)(t := (task_pool s t)\<lparr>t_ticks_left := n\<rparr>)"
  "t_next (set_ticks s t n) = t_next s" "rq (set_ticks s t n) = rq s"
  "ready_bitmap (set_ticks s t n) = ready_bitmap s" "current_task (set_ticks s t n) = current_task s"
  "task_count (set_ticks s t n) = task_count s" "donated_priority (set_ticks s t n) = donated_priority s"
  "need_resched (set_ticks s t n) = need_resched s" "proc_ctx (set_ticks s t n) = proc_ctx s"
  by (simp_all add: set_ticks_def)

lemma rq_push_simps [simp]:
  "task_pool (rq_push s t) = task_pool s" "current_task (rq_push s t) = current_task s"
  "task_count (rq_push s t) = task_count s" "donated_priority (rq_push s t) = donated_priority s"
  "need_resched (rq_push s t) = need_resched s" "proc_ctx (rq_push s t) = proc_ctx s"
  by (simp_all add: rq_push_def Let_def split: prod.splits)

lemma eff_prio_cong:
  "donated_priority s' t = donated_priority s t \<Longrightarrow>
   t_priority (task_pool s' t) = t_priority (task_pool s t) \<Longrightarrow> eff_prio_slot s' t = eff_prio_slot s t"
  by (simp add: eff_prio_slot_def)

text \<open>The invariant looks only at these parts of the state.\<close>

lemma sched_wf_cong:
  assumes "sched_wf s qs" "t_next s' = t_next s" "rq s' = rq s" "ready_bitmap s' = ready_bitmap s"
    "task_count s' = task_count s" "current_task s' = current_task s"
    "donated_priority s' = donated_priority s"
    "\<And>t. t_state (task_pool s' t) = t_state (task_pool s t)"
    "\<And>t. t_priority (task_pool s' t) = t_priority (task_pool s t)"
  shows "sched_wf s' qs"
proof -
  have "eff_prio_slot s' = eff_prio_slot s"
    using assms(7,9) by (auto simp: eff_prio_slot_def)
  then show ?thesis
    using assms unfolding sched_wf_def by (simp add: rqs_cong [of s' s])
qed

lemma sched_wf_resched [simp]: "sched_wf s qs \<Longrightarrow> sched_wf (s\<lparr>need_resched := b\<rparr>) qs"
  by (erule sched_wf_cong) auto

lemma sched_wf_ticks: "sched_wf s qs \<Longrightarrow> sched_wf (set_ticks s t n) qs"
  by (erule sched_wf_cong) auto

text \<open>The current task leaves the CPU in a state other than READY.\<close>

lemma sched_wf_leave:
  assumes wf: "sched_wf s qs" and c: "current_task s = Some c" and st: "st \<noteq> TCB_READY" "st \<noteq> TCB_RUNNING"
  shows "sched_wf (set_state s c st) qs"
proof -
  obtain c' where "current_task s = Some c'" "c' < task_count s" "state_of s c' \<noteq> TCB_READY"
    "\<And>t. t < task_count s \<Longrightarrow> state_of s t = TCB_RUNNING \<Longrightarrow> t = c'"
    using sched_wf_current [OF wf] by blast
  with c have cc: "c < task_count s" "state_of s c \<noteq> TCB_READY"
    "\<And>t. t < task_count s \<Longrightarrow> state_of s t = TCB_RUNNING \<Longrightarrow> t = c" by auto
  have e: "eff_prio_slot (set_state s c st) = eff_prio_slot s"
    by (auto simp: eff_prio_slot_def)
  show ?thesis
    unfolding sched_wf_def e
  proof (intro conjI allI impI ballI)
    show "rqs (set_state s c st) qs"
      using sched_wfD(1) [OF wf] by (simp add: rqs_cong [of "set_state s c st" s])
  next
    fix p t assume "p < 256" "t \<in> set (qs p)"
    with sched_wfD(2) [OF wf, of p t] cc(2) st(1)
    show "t < task_count (set_state s c st)" "state_of (set_state s c st) t = TCB_READY"
      "unat (eff_prio_slot s t) = p" by auto
  next
    fix t assume "t < task_count (set_state s c st)" "state_of (set_state s c st) t = TCB_READY"
    with sched_wfD(3) [OF wf, of t] cc(2) st(1) show "t \<in> set (qs (unat (eff_prio_slot s t)))"
      by (auto split: if_splits)
  next
    show "\<exists>d < task_count (set_state s c st). current_task (set_state s c st) = Some d \<and>
        state_of (set_state s c st) d \<noteq> TCB_READY \<and>
        (\<forall>t < task_count (set_state s c st). state_of (set_state s c st) t = TCB_RUNNING \<longrightarrow> t = d)"
      using c cc st by (intro exI [of _ c]) auto
  qed
qed

subsection \<open>Scheduling decisions\<close>

definition top_queue :: "(nat \<Rightarrow> nat list) \<Rightarrow> nat \<Rightarrow> bool" where
  "top_queue qs p \<longleftrightarrow> p < 256 \<and> qs p \<noteq> [] \<and> (\<forall>q < p. qs q = [])"

lemma find_first_top: "rqs s qs \<Longrightarrow> top_queue qs p \<Longrightarrow> bitmap_find_first (ready_bitmap s) = Some p"
proof -
  assume q: "rqs s qs" and t: "top_queue qs p"
  have "bitmap_find_first (ready_bitmap s) \<noteq> None"
    using q t rqsD(2) [OF q] by (auto simp: bitmap_find_first_None top_queue_def)
  then obtain r where r: "bitmap_find_first (ready_bitmap s) = Some r" by auto
  note f = bitmap_find_first_Some [OF r]
  have "\<not> r < p" using f(2) t rqsD(2) [OF q f(1)] by (auto simp: top_queue_def)
  moreover have "\<not> p < r" using f(3) [of p] t rqsD(2) [OF q] by (auto simp: top_queue_def)
  ultimately show ?thesis using r by simp
qed

lemma find_first_none: "rqs s qs \<Longrightarrow> (\<And>p. p < 256 \<Longrightarrow> qs p = []) \<Longrightarrow> bitmap_find_first (ready_bitmap s) = None"
  using rqsD(2) by (auto simp: bitmap_find_first_None)

lemma sched_pick_empty:
  "rqs s qs \<Longrightarrow> (\<And>p. p < 256 \<Longrightarrow> qs p = []) \<Longrightarrow> sched_pick prev s = Some (None, s)"
  by (subst sched_pick.simps) (simp add: find_first_none)

lemma sched_pick_top:
  assumes wf: "sched_wf s qs" and c: "current_task s = Some c"
    and top: "top_queue qs p" "qs p = n # ts"
  obtains s' where "sched_pick c s = Some (Some n, s')" "rqs s' (qs(p := ts))"
    "task_pool s' = task_pool s" "current_task s' = current_task s" "task_count s' = task_count s"
    "donated_priority s' = donated_priority s" "need_resched s' = need_resched s"
proof -
  have p: "p < 256" "unat (word_of_nat p :: u8) = p"
    using top(1) by (auto simp: top_queue_def unat_of_nat)
  have n: "n < task_count s" "state_of s n = TCB_READY"
    using sched_wfD(2) [OF wf p(1), of n] top(2) by auto
  have "n \<noteq> c" using n(2) c sched_wf_current [OF wf] by (metis option.inject)
  obtain s' where s': "rq_pop s (word_of_nat p) = (Some n, s')" "rqs s' (qs(p := ts))"
    "task_pool s' = task_pool s" "current_task s' = current_task s" "task_count s' = task_count s"
    "donated_priority s' = donated_priority s" "need_resched s' = need_resched s"
    using rq_pop_rqs [OF sched_wfD(1) [OF wf], of "word_of_nat p" n ts] top(2) p(2) by metis
  have "sched_pick c s = Some (Some n, s')"
    using find_first_top [OF sched_wfD(1) [OF wf] top(1)] s' n \<open>n \<noteq> c\<close> p(1)
    by (subst sched_pick.simps) simp
  with s' show ?thesis by (intro that)
qed

subsection \<open>The context switch\<close>

text \<open>The queues after \<open>c\<close> gives way: it goes to the end of its own queue if it was RUNNING.\<close>

definition requeue_prev :: "sched \<Rightarrow> nat \<Rightarrow> (nat \<Rightarrow> nat list) \<Rightarrow> nat \<Rightarrow> nat list" where
  "requeue_prev s c qs =
     (if state_of s c = TCB_RUNNING
      then (let p = unat (eff_prio_slot s c) in qs(p := qs p @ [c])) else qs)"

lemma sched_switch_fields:
  assumes "n \<noteq> c"
  shows "current_task (sched_switch s c n) = Some n"
    "task_count (sched_switch s c n) = task_count s"
    "donated_priority (sched_switch s c n) = donated_priority s"
    "need_resched (sched_switch s c n) = need_resched s"
    "state_of (sched_switch s c n) t =
       (if t = n then TCB_RUNNING
        else if t = c \<and> state_of s c = TCB_RUNNING then TCB_READY else state_of s t)"
    "t_priority (task_pool (sched_switch s c n) t) = t_priority (task_pool s t)"
  using assms by (auto simp: sched_switch_def Let_def)

lemma sched_switch_eff [simp]: "n \<noteq> c \<Longrightarrow> eff_prio_slot (sched_switch s c n) = eff_prio_slot s"
  by (auto simp: eff_prio_slot_def sched_switch_fields)

lemma sched_switch_rqs:
  assumes q: "rqs s qs" and nq: "\<And>p. p < 256 \<Longrightarrow> c \<notin> set (qs p)" and nc: "n \<noteq> c"
  shows "rqs (sched_switch s c n) (requeue_prev s c qs)"
proof -
  have e: "eff_prio_slot (set_state s c TCB_READY) c = eff_prio_slot s c"
    by (simp add: eff_prio_slot_def)
  have "rqs (set_state s c TCB_READY) qs" using q by (simp add: rqs_cong [of "set_state s c TCB_READY" s])
  from rq_push_rqs [OF this nq refl]
  have push: "rqs (rq_push (set_state s c TCB_READY) c)
      (qs(unat (eff_prio_slot s c) := qs (unat (eff_prio_slot s c)) @ [c]))"
    by (simp add: e)
  show ?thesis
  proof (cases "state_of s c = TCB_RUNNING")
    case True
    then show ?thesis
      using push rqs_cong [of "sched_switch s c n" "rq_push (set_state s c TCB_READY) c"]
      by (simp add: sched_switch_def requeue_prev_def Let_def)
  next
    case False
    then show ?thesis
      using q rqs_cong [of "sched_switch s c n" s] by (simp add: sched_switch_def requeue_prev_def Let_def)
  qed
qed

lemma sched_switch_wf:
  assumes wf: "sched_wf s qs" and c: "current_task s = Some c" and top: "p < 256" "qs p = n # ts"
    and s1: "rqs s1 (qs(p := ts))" "task_pool s1 = task_pool s" "current_task s1 = current_task s"
      "task_count s1 = task_count s" "donated_priority s1 = donated_priority s"
  shows "sched_wf (sched_switch s1 c n) (requeue_prev s c (qs(p := ts)))"
proof -
  let ?qs = "qs(p := ts)" and ?t = "sched_switch s1 c n"
  obtain cc: "c < task_count s" "state_of s c \<noteq> TCB_READY"
    "\<And>t. t < task_count s \<Longrightarrow> state_of s t = TCB_RUNNING \<Longrightarrow> t = c"
    using sched_wf_current [OF wf] c by (metis option.inject)
  have n: "n < task_count s" "state_of s n = TCB_READY" "unat (eff_prio_slot s n) = p"
    using sched_wfD(2) [OF wf top(1), of n] top(2) by auto
  have nc: "n \<noteq> c" using n cc by auto
  have e: "eff_prio_slot s1 = eff_prio_slot s" using s1 by (auto simp: eff_prio_slot_def)
  have dist: "n \<notin> set ts" using rqsD(3) [OF sched_wfD(1) [OF wf] top(1)] top(2) by auto
  have cq: "c \<notin> set (?qs r)" if "r < 256" for r
    using sched_wf_not_queued [OF wf cc(2) that] top(2) by (cases "r = p") auto
  have rep: "requeue_prev s1 c ?qs = requeue_prev s c ?qs" using s1 e by (simp add: requeue_prev_def)
  have mem: "t \<in> set (requeue_prev s c ?qs r) \<longleftrightarrow>
      t \<in> set (?qs r) \<or> (t = c \<and> state_of s c = TCB_RUNNING \<and> r = unat (eff_prio_slot s c))" for t r
    by (auto simp: requeue_prev_def Let_def)
  have inq: "t \<in> set (?qs r) \<longleftrightarrow> t \<in> set (qs r) \<and> t \<noteq> n" if "r < 256" for t r
  proof (cases "r = p")
    case True
    with top(2) dist show ?thesis by auto
  next
    case False
    with sched_wfD(2) [OF wf that, of n] n(3) have "n \<notin> set (qs r)" by blast
    with False show ?thesis by auto
  qed
  note fld = sched_switch_fields [OF nc, of s1]
  show ?thesis
    unfolding sched_wf_def
  proof (intro conjI allI impI ballI)
    show "rqs ?t (requeue_prev s c ?qs)" using sched_switch_rqs [of s1 ?qs c n, OF s1(1) cq nc] rep by simp
  next
    fix r t assume r: "r < 256" and t: "t \<in> set (requeue_prev s c ?qs r)"
    have "t < task_count s \<and> state_of ?t t = TCB_READY \<and> unat (eff_prio_slot s t) = r"
    proof (cases "t \<in> set (?qs r)")
      case True
      then have "t \<in> set (qs r)" "t \<noteq> n" using inq [OF r, of t] by blast+
      then show ?thesis using sched_wfD(2) [OF wf r, of t] s1(2) by (simp add: fld(5))
    next
      case False
      then have "t = c" "state_of s c = TCB_RUNNING" "r = unat (eff_prio_slot s c)"
        using mem [of t r] t by blast+
      then show ?thesis using cc(1) nc s1(2) by (simp add: fld(5))
    qed
    then show "t < task_count ?t" "state_of ?t t = TCB_READY" "unat (eff_prio_slot ?t t) = r"
      using fld(2) s1(4) nc e by simp_all
  next
    fix t assume t: "t < task_count ?t" "state_of ?t t = TCB_READY"
    have tn: "t \<noteq> n" "t < task_count s" using t fld(2) s1(4) by (auto simp: fld(5))
    have et: "eff_prio_slot ?t t = eff_prio_slot s t" using nc e by simp
    have "(t = c \<and> state_of s c = TCB_RUNNING) \<or> state_of s t = TCB_READY"
      using t(2) s1(2) tn(1) by (simp add: fld(5) split: if_splits)
    then show "t \<in> set (requeue_prev s c ?qs (unat (eff_prio_slot ?t t)))"
      using mem [of t "unat (eff_prio_slot s t)"] inq [of "unat (eff_prio_slot s t)" t]
        sched_wfD(3) [OF wf tn(2)] tn(1) prio_bound by (auto simp: et)
  next
    show "\<exists>d < task_count ?t. current_task ?t = Some d \<and> state_of ?t d \<noteq> TCB_READY \<and>
        (\<forall>t < task_count ?t. state_of ?t t = TCB_RUNNING \<longrightarrow> t = d)"
      using fld n(1) s1 cc(3) by (intro exI [of _ n]) (auto split: if_splits)
  qed
qed

text \<open>What one scheduling decision does, in terms of the queues.\<close>

lemma schedule_empty:
  assumes "sched_wf s qs" "\<And>p. p < 256 \<Longrightarrow> qs p = []"
  shows "schedule_locked s = Some s"
proof -
  obtain c where "current_task s = Some c" using sched_wf_current [OF assms(1)] by blast
  with sched_pick_empty [OF sched_wfD(1) [OF assms(1)] assms(2), of c] show ?thesis
    by (simp add: schedule_locked_def)
qed

lemma schedule_top:
  assumes wf: "sched_wf s qs" and c: "current_task s = Some c"
    and top: "top_queue qs p" "qs p = n # ts"
  obtains s' where "schedule_locked s = Some s'" "current_task s' = Some n"
    "sched_wf s' (requeue_prev s c (qs(p := ts)))" "task_count s' = task_count s"
    "\<And>t. state_of s' t = (if t = n then TCB_RUNNING
        else if t = c \<and> state_of s c = TCB_RUNNING then TCB_READY else state_of s t)"
    "eff_prio_slot s' = eff_prio_slot s"
proof -
  have p: "p < 256" using top by (simp add: top_queue_def)
  have n: "state_of s n = TCB_READY" using sched_wfD(2) [OF wf p, of n] top(2) by simp
  have nc: "n \<noteq> c" using n c sched_wf_current [OF wf] by (metis option.inject)
  obtain s1 where s1: "sched_pick c s = Some (Some n, s1)" "rqs s1 (qs(p := ts))"
    "task_pool s1 = task_pool s" "current_task s1 = current_task s" "task_count s1 = task_count s"
    "donated_priority s1 = donated_priority s"
    using sched_pick_top [OF wf c top] by metis
  have "schedule_locked s = Some (sched_switch s1 c n)"
    using c s1(1) by (simp add: schedule_locked_def)
  moreover have "sched_wf (sched_switch s1 c n) (requeue_prev s c (qs(p := ts)))"
    using sched_switch_wf [OF wf c p top(2) s1(2-6)] .
  moreover have "eff_prio_slot (sched_switch s1 c n) = eff_prio_slot s"
    using s1 nc by (auto simp: eff_prio_slot_def sched_switch_fields)
  ultimately show ?thesis
    using that [of "sched_switch s1 c n"] sched_switch_fields [OF nc, of s1] s1(3,5) by simp
qed

lemma top_queue_exists: "p < 256 \<Longrightarrow> qs p \<noteq> [] \<Longrightarrow> \<exists>p. top_queue qs p"
proof -
  assume "p < 256" "qs p \<noteq> []"
  then have "\<exists>p. p < 256 \<and> qs p \<noteq> []" by blast
  then obtain q where "q < 256 \<and> qs q \<noteq> []" "\<forall>r < q. \<not> (r < 256 \<and> qs r \<noteq> [])"
    using exists_least_iff [of "\<lambda>p. p < 256 \<and> qs p \<noteq> []"] by auto
  then have "top_queue qs q" unfolding top_queue_def using less_trans by blast
  then show ?thesis ..
qed

subsection \<open>Wake-up and donation\<close>

text \<open>Making a task READY that is neither READY nor current, and queueing it.\<close>

lemma sched_wf_enqueue:
  assumes wf: "sched_wf s qs" and t: "t < task_count s" "state_of s t \<noteq> TCB_READY"
    and nc: "current_task s \<noteq> Some t"
    and s1: "t_next s1 = t_next s" "rq s1 = rq s" "ready_bitmap s1 = ready_bitmap s"
      "task_count s1 = task_count s" "current_task s1 = current_task s"
      "donated_priority s1 = donated_priority s"
      "\<And>x. state_of s1 x = (if x = t then TCB_READY else state_of s x)"
      "\<And>x. t_priority (task_pool s1 x) = t_priority (task_pool s x)"
    and p: "p = unat (eff_prio_slot s t)"
  shows "sched_wf (rq_push s1 t) (qs(p := qs p @ [t]))"
proof -
  have e: "eff_prio_slot s1 = eff_prio_slot s" "eff_prio_slot (rq_push s1 t) = eff_prio_slot s"
    using s1 by (auto simp: eff_prio_slot_def)
  have nq: "t \<notin> set (qs r)" if "r < 256" for r using sched_wf_not_queued [OF wf t(2) that] .
  have "rqs s1 qs" using sched_wfD(1) [OF wf] s1 by (simp add: rqs_cong [of s1 s])
  then have q: "rqs (rq_push s1 t) (qs(p := qs p @ [t]))"
    using rq_push_rqs [of s1 qs t p] nq p e by simp
  obtain c where c: "current_task s = Some c" "c < task_count s" "state_of s c \<noteq> TCB_READY"
    "\<And>x. x < task_count s \<Longrightarrow> state_of s x = TCB_RUNNING \<Longrightarrow> x = c"
    using sched_wf_current [OF wf] by blast
  have mem: "x \<in> set ((qs(p := qs p @ [t])) r) \<longleftrightarrow> x \<in> set (qs r) \<or> (x = t \<and> r = p)" for x r
    by auto
  show ?thesis
    unfolding sched_wf_def mem
  proof (intro conjI allI impI ballI)
    show "rqs (rq_push s1 t) (qs(p := qs p @ [t]))" by (rule q)
  next
    fix r x assume "r < 256" and "x \<in> set ((qs(p := qs p @ [t])) r)"
    then consider "x \<in> set (qs r)" "x \<noteq> t" | "x = t" "r = p" unfolding mem using nq by blast
    then show "x < task_count (rq_push s1 t)" "state_of (rq_push s1 t) x = TCB_READY"
      "unat (eff_prio_slot (rq_push s1 t) x) = r"
      using sched_wfD(2) [OF wf \<open>r < 256\<close>, of x] t(1) s1 e p by (cases, simp_all)+
  next
    fix x assume "x < task_count (rq_push s1 t)" "state_of (rq_push s1 t) x = TCB_READY"
    then show "x \<in> set (qs (unat (eff_prio_slot (rq_push s1 t) x))) \<or>
        x = t \<and> unat (eff_prio_slot (rq_push s1 t) x) = p"
      using sched_wfD(3) [OF wf, of x] s1 e p by (auto split: if_splits)
  next
    show "\<exists>d < task_count (rq_push s1 t). current_task (rq_push s1 t) = Some d \<and>
        state_of (rq_push s1 t) d \<noteq> TCB_READY \<and>
        (\<forall>x < task_count (rq_push s1 t). state_of (rq_push s1 t) x = TCB_RUNNING \<longrightarrow> x = d)"
      using c nc s1 by (intro exI [of _ c]) (auto split: if_splits)
  qed
qed

lemma resched_if_higher_fields [simp]:
  "task_pool (resched_if_higher s t) = task_pool s" "current_task (resched_if_higher s t) = current_task s"
  "task_count (resched_if_higher s t) = task_count s"
  "donated_priority (resched_if_higher s t) = donated_priority s"
  by (simp_all add: resched_if_higher_def)

lemma sched_wf_resched_if [simp]: "sched_wf s qs \<Longrightarrow> sched_wf (resched_if_higher s t) qs"
  by (simp add: resched_if_higher_def)

lemma sched_unblock_wf:
  assumes wf: "sched_wf s qs" and t: "t < task_count s" "state_of s t = TCB_BLOCKED"
    and nc: "current_task s \<noteq> Some t" and p: "p = unat (eff_prio_slot s t)"
  shows "sched_wf (sched_unblock s (Some t)) (qs(p := qs p @ [t]))"
    "state_of (sched_unblock s (Some t)) x = (if x = t then TCB_READY else state_of s x)"
    "current_task (sched_unblock s (Some t)) = current_task s"
    "task_count (sched_unblock s (Some t)) = task_count s"
proof -
  let ?s1 = "set_ticks (set_state s t TCB_READY) t SCHED_TICK_QUANTUM"
  have u: "sched_unblock s (Some t) = resched_if_higher (rq_push ?s1 t) t"
    using t(2) by (simp add: sched_unblock_def)
  have "sched_wf (rq_push ?s1 t) (qs(p := qs p @ [t]))"
    by (rule sched_wf_enqueue [OF wf t(1) _ nc _ _ _ _ _ _ _ _ p]) (use t(2) in auto)
  then show "sched_wf (sched_unblock s (Some t)) (qs(p := qs p @ [t]))"
    by (simp add: u)
  show "state_of (sched_unblock s (Some t)) x = (if x = t then TCB_READY else state_of s x)"
    "current_task (sched_unblock s (Some t)) = current_task s"
    "task_count (sched_unblock s (Some t)) = task_count s" by (simp_all add: u)
qed

lemma sched_unblock_idle: "state_of s t \<noteq> TCB_BLOCKED \<Longrightarrow> sched_unblock s (Some t) = s"
  by (simp add: sched_unblock_def)

text \<open>
  A change of the donated priority followed by the requeue keeps the invariant: a READY task
  moves to the queue of its new effective priority, any other task keeps its place.
\<close>

lemma set_donated_simps [simp]:
  "task_pool (set_donated s t d) = task_pool s" "t_next (set_donated s t d) = t_next s"
  "rq (set_donated s t d) = rq s" "ready_bitmap (set_donated s t d) = ready_bitmap s"
  "current_task (set_donated s t d) = current_task s" "task_count (set_donated s t d) = task_count s"
  "donated_priority (set_donated s t d) = (donated_priority s)(t := d)"
  by (simp_all add: set_donated_def)

lemma set_donated_eff: "x \<noteq> t \<Longrightarrow> eff_prio_slot (set_donated s t d) x = eff_prio_slot s x"
  by (simp add: eff_prio_slot_def)

definition donate_queues :: "sched \<Rightarrow> sched \<Rightarrow> nat \<Rightarrow> (nat \<Rightarrow> nat list) \<Rightarrow> nat \<Rightarrow> nat list" where
  "donate_queues s s1 t qs =
     (let p = unat (eff_prio_slot s t); p' = unat (eff_prio_slot s1 t);
          qs' = qs(p := remove1 t (qs p))
      in if p' \<noteq> p \<and> state_of s t = TCB_READY then qs'(p' := qs' p' @ [t]) else qs)"

lemma sched_requeue_stay:
  assumes wf: "sched_wf s qs" and s1: "s1 = set_donated s t d"
    and stay: "eff_prio_slot s1 t = eff_prio_slot s t \<or> state_of s t \<noteq> TCB_READY"
  shows "sched_requeue s1 t (eff_prio_slot s t) = Some s1 \<and> sched_wf s1 qs"
proof
  show "sched_requeue s1 t (eff_prio_slot s t) = Some s1"
    using stay by (auto simp: sched_requeue_def s1)
  have e: "eff_prio_slot s1 x = eff_prio_slot s x \<or> state_of s x \<noteq> TCB_READY" for x
    using stay set_donated_eff [of x t s d] by (cases "x = t") (auto simp: s1)
  have "rqs s1 qs" using sched_wfD(1) [OF wf] rqs_cong [of "set_donated s t d" s qs] by (simp add: s1)
  then show "sched_wf s1 qs"
    using wf e unfolding sched_wf_def by (simp add: s1) metis
qed

lemma sched_requeue_move:
  assumes wf: "sched_wf s qs" and t: "t < task_count s" and s1: "s1 = set_donated s t d"
    and mv: "eff_prio_slot s1 t \<noteq> eff_prio_slot s t" "state_of s t = TCB_READY"
  obtains s2 where "sched_requeue s1 t (eff_prio_slot s t) = Some s2"
    "sched_wf s2 (donate_queues s s1 t qs)" "task_pool s2 = task_pool s"
    "current_task s2 = current_task s" "task_count s2 = task_count s" "donated_priority s2 = donated_priority s1"
proof -
  let ?p = "unat (eff_prio_slot s t)" and ?p' = "unat (eff_prio_slot s1 t)"
  let ?qs = "qs(?p := remove1 t (qs ?p))"
  have pp: "?p' \<noteq> ?p" using mv(1) by (simp add: word_unat_eq_iff)
  have mem: "t \<in> set (qs ?p)" using sched_wfD(3) [OF wf t mv(2)] .
  have q1: "rqs s1 qs" using sched_wfD(1) [OF wf] rqs_cong [of "set_donated s t d" s qs] by (simp add: s1)
  obtain s2 where s2: "rq_remove s1 t (eff_prio_slot s t) = Some (True, s2)" "rqs s2 ?qs"
    "task_pool s2 = task_pool s1" "current_task s2 = current_task s1" "task_count s2 = task_count s1"
    "donated_priority s2 = donated_priority s1"
    using rq_remove_rqs [OF q1 mem] by metis
  have inq: "x \<in> set (?qs r) \<longleftrightarrow> x \<in> set (qs r) \<and> x \<noteq> t" if "r < 256" for x r
    using sched_wfD(2) [OF wf that, of t] rqsD(3) [OF q1, of ?p] by (cases "r = ?p") auto
  have e: "eff_prio_slot s2 = eff_prio_slot s1" using s2 by (auto simp: eff_prio_slot_def)
  have q2: "rqs (rq_push s2 t) (donate_queues s s1 t qs)"
    using rq_push_rqs [OF s2(2), of t ?p'] inq e pp mv(2) by (simp add: donate_queues_def Let_def)
  have dq: "x \<in> set (donate_queues s s1 t qs r) \<longleftrightarrow> (x \<in> set (qs r) \<and> x \<noteq> t) \<or> (x = t \<and> r = ?p')"
    if "r < 256" for x r
    using inq [OF that] inq [of ?p'] pp mv(2) by (auto simp: donate_queues_def Let_def)
  have e2: "eff_prio_slot (rq_push s2 t) = eff_prio_slot s1" using s2 by (auto simp: eff_prio_slot_def)
  have eo: "eff_prio_slot s1 x = eff_prio_slot s x" if "x \<noteq> t" for x
    using set_donated_eff [OF that] by (simp add: s1)
  have "sched_wf (rq_push s2 t) (donate_queues s s1 t qs)"
    unfolding sched_wf_def e2
  proof (intro conjI allI impI ballI)
    show "rqs (rq_push s2 t) (donate_queues s s1 t qs)" by (rule q2)
  next
    fix r x assume r: "r < 256" "x \<in> set (donate_queues s s1 t qs r)"
    then show "x < task_count (rq_push s2 t)" "state_of (rq_push s2 t) x = TCB_READY"
      "unat (eff_prio_slot s1 x) = r"
      using sched_wfD(2) [OF wf r(1), of x] dq [OF r(1)] t mv(2) s2 eo by (auto simp: s1)
  next
    fix x assume "x < task_count (rq_push s2 t)" "state_of (rq_push s2 t) x = TCB_READY"
    then show "x \<in> set (donate_queues s s1 t qs (unat (eff_prio_slot s1 x)))"
      using sched_wfD(3) [OF wf, of x] dq s2 eo [of x] by (cases "x = t") (auto simp: s1)
  next
    show "\<exists>c < task_count (rq_push s2 t). current_task (rq_push s2 t) = Some c \<and>
        state_of (rq_push s2 t) c \<noteq> TCB_READY \<and>
        (\<forall>x < task_count (rq_push s2 t). state_of (rq_push s2 t) x = TCB_RUNNING \<longrightarrow> x = c)"
      using sched_wf_current [OF wf] s2 by (simp add: s1) metis
  qed
  moreover have "sched_requeue s1 t (eff_prio_slot s t) = Some (rq_push s2 t)"
    using s2(1) mv by (simp add: sched_requeue_def s1)
  ultimately show ?thesis using that s2 by (simp add: s1)
qed

lemma sched_requeue_wf:
  assumes wf: "sched_wf s qs" and t: "t < task_count s" and s1: "s1 = set_donated s t d"
  obtains s2 where "sched_requeue s1 t (eff_prio_slot s t) = Some s2"
    "sched_wf s2 (donate_queues s s1 t qs)" "task_pool s2 = task_pool s"
    "current_task s2 = current_task s" "task_count s2 = task_count s" "donated_priority s2 = donated_priority s1"
proof (cases "eff_prio_slot s1 t = eff_prio_slot s t \<or> state_of s t \<noteq> TCB_READY")
  case True
  then have "donate_queues s s1 t qs = qs" by (auto simp: donate_queues_def Let_def)
  with sched_requeue_stay [OF wf s1 True] that [of s1] show ?thesis by (simp add: s1)
next
  case False
  with sched_requeue_move [OF wf t s1] that show ?thesis by blast
qed

subsection \<open>The operations keep the invariant\<close>

text \<open>
  The invariant between two operations: the queues are right, the current task is RUNNING and
  the idle task (slot 1, created by \<^verbatim>\<open>sched_init\<close>) never blocks.
\<close>

definition IDLE_SLOT :: nat where "IDLE_SLOT = 1"

definition sched_inv :: "sched \<Rightarrow> bool" where
  "sched_inv s \<longleftrightarrow> (\<exists>qs. sched_wf s qs) \<and>
     (\<exists>c. current_task s = Some c \<and> state_of s c = TCB_RUNNING) \<and>
     IDLE_SLOT < task_count s \<and> state_of s IDLE_SLOT \<in> {TCB_READY, TCB_RUNNING}"

lemma sched_invE:
  assumes "sched_inv s"
  obtains qs c where "sched_wf s qs" "current_task s = Some c" "c < task_count s"
    "state_of s c = TCB_RUNNING" "IDLE_SLOT < task_count s" "state_of s IDLE_SLOT \<in> {TCB_READY, TCB_RUNNING}"
proof -
  obtain qs c where "sched_wf s qs" "current_task s = Some c" "state_of s c = TCB_RUNNING"
    using assms by (auto simp: sched_inv_def)
  moreover from this have "c < task_count s" using sched_wf_current by (metis option.inject)
  ultimately show ?thesis using assms that by (auto simp: sched_inv_def)
qed

lemma sched_invI:
  "sched_wf s qs \<Longrightarrow> current_task s = Some c \<Longrightarrow> state_of s c = TCB_RUNNING \<Longrightarrow>
   IDLE_SLOT < task_count s \<Longrightarrow> state_of s IDLE_SLOT \<in> {TCB_READY, TCB_RUNNING} \<Longrightarrow> sched_inv s"
  unfolding sched_inv_def by blast

lemma sched_inv_resched [simp]: "sched_inv s \<Longrightarrow> sched_inv (s\<lparr>need_resched := b\<rparr>)"
  by (auto simp: sched_inv_def intro: sched_wf_resched)

text \<open>A decision from a state whose current task just gave up the CPU (or did not).\<close>

lemma schedule_locked_inv:
  assumes wf: "sched_wf s qs" and idle: "IDLE_SLOT < task_count s"
    and st: "state_of s IDLE_SLOT \<in> {TCB_READY, TCB_RUNNING}"
    and run: "\<And>c. current_task s = Some c \<Longrightarrow> state_of s c = TCB_RUNNING \<or> c \<noteq> IDLE_SLOT"
  obtains s' where "schedule_locked s = Some s'" "sched_inv s'" "task_count s' = task_count s"
proof -
  obtain c where c: "current_task s = Some c" "c < task_count s" "state_of s c \<noteq> TCB_READY"
    "\<And>t. t < task_count s \<Longrightarrow> state_of s t = TCB_RUNNING \<Longrightarrow> t = c"
    using sched_wf_current [OF wf] by blast
  show ?thesis
  proof (cases "\<exists>p < 256. qs p \<noteq> []")
    case True
    then obtain p where p: "top_queue qs p" using top_queue_exists by blast
    then obtain n ts where q: "qs p = n # ts" "p < 256" by (auto simp: top_queue_def neq_Nil_conv)
    have n: "n < task_count s" using sched_wfD(2) [OF wf q(2), of n] q(1) by simp
    obtain s' where s': "schedule_locked s = Some s'" "current_task s' = Some n"
      "sched_wf s' (requeue_prev s c (qs(p := ts)))" "task_count s' = task_count s"
      "\<And>t. state_of s' t = (if t = n then TCB_RUNNING
        else if t = c \<and> state_of s c = TCB_RUNNING then TCB_READY else state_of s t)"
      using schedule_top [OF wf c(1) p q(1)] by metis
    have "state_of s' IDLE_SLOT \<in> {TCB_READY, TCB_RUNNING}"
      using s'(5) [of IDLE_SLOT] st run [OF c(1)] c(4) [OF idle] by auto
    then show ?thesis using s' that idle sched_invI [OF s'(3,2)] by simp
  next
    case False
    then have e: "schedule_locked s = Some s" using schedule_empty [OF wf] by blast
    have "state_of s IDLE_SLOT \<noteq> TCB_READY" using sched_wfD(3) [OF wf idle] False by force
    with st c(4) [OF idle] run [OF c(1)] have "state_of s c = TCB_RUNNING" by auto
    then show ?thesis using that [OF e] sched_invI [OF wf c(1) _ idle st] by simp
  qed
qed

lemma schedule_inv:
  assumes "sched_inv s" obtains s' where "schedule s = Some s'" "sched_inv s'"
  using assms schedule_locked_inv that by (metis sched_invE option.inject schedule_def)

lemma sched_yield_inv:
  assumes "sched_inv s" obtains s' where "sched_yield s = Some s'" "sched_inv s'"
proof -
  obtain qs c where s: "sched_wf s qs" "current_task s = Some c" "state_of s c = TCB_RUNNING"
    "IDLE_SLOT < task_count s" "state_of s IDLE_SLOT \<in> {TCB_READY, TCB_RUNNING}"
    using sched_invE [OF assms] by metis
  have "sched_wf (set_ticks s c 0) qs" by (rule sched_wf_ticks [OF s(1)])
  then obtain s' where "schedule_locked (set_ticks s c 0) = Some s'" "sched_inv s'"
    by (rule schedule_locked_inv) (use s in auto)
  then show ?thesis using that s(2) by (simp add: sched_yield_def)
qed

lemma sched_block_inv:
  assumes "sched_inv s" "current_task s \<noteq> Some IDLE_SLOT"
  obtains s' where "sched_block s = Some s'" "sched_inv s'"
proof -
  obtain qs c where s: "sched_wf s qs" "current_task s = Some c" "state_of s c = TCB_RUNNING"
    "IDLE_SLOT < task_count s" "state_of s IDLE_SLOT \<in> {TCB_READY, TCB_RUNNING}"
    using sched_invE [OF assms(1)] by metis
  have "sched_wf (set_state s c TCB_BLOCKED) qs" by (rule sched_wf_leave [OF s(1,2)]) simp_all
  then obtain s' where "schedule_locked (set_state s c TCB_BLOCKED) = Some s'" "sched_inv s'"
    by (rule schedule_locked_inv) (use s assms(2) in auto)
  then show ?thesis using that s(2) by (simp add: sched_block_def)
qed

lemma sched_unblock_inv:
  assumes inv: "sched_inv s" and t: "t < task_count s"
  shows "sched_inv (sched_unblock s (Some t))"
proof (cases "state_of s t = TCB_BLOCKED")
  case True
  obtain qs c where s: "sched_wf s qs" "current_task s = Some c" "state_of s c = TCB_RUNNING"
    "IDLE_SLOT < task_count s" "state_of s IDLE_SLOT \<in> {TCB_READY, TCB_RUNNING}"
    using sched_invE [OF inv] by metis
  have nc: "current_task s \<noteq> Some t" "t \<noteq> c" using s True by auto
  note u = sched_unblock_wf [OF s(1) t True nc(1) refl]
  show ?thesis by (rule sched_invI [OF u(1)]) (use u s nc in auto)
qed (use inv in \<open>simp add: sched_unblock_def\<close>)

lemma donate_unchanged:
  "donated_priority s t = d \<Longrightarrow> set_donated s t d = s"
  by (simp add: set_donated_def fun_upd_idem)

lemma donate_inv:
  assumes inv: "sched_inv s" and t: "t < task_count s"
  obtains s2 where "sched_requeue (set_donated s t d) t (eff_prio_slot s t) = Some s2" "sched_inv s2"
    "task_pool s2 = task_pool s" "current_task s2 = current_task s" "task_count s2 = task_count s"
    "donated_priority s2 = (donated_priority s)(t := d)"
proof -
  obtain qs c where s: "sched_wf s qs" "current_task s = Some c" "state_of s c = TCB_RUNNING"
    "IDLE_SLOT < task_count s" "state_of s IDLE_SLOT \<in> {TCB_READY, TCB_RUNNING}"
    using sched_invE [OF inv] by metis
  obtain s2 where s2: "sched_requeue (set_donated s t d) t (eff_prio_slot s t) = Some s2"
    "sched_wf s2 (donate_queues s (set_donated s t d) t qs)" "task_pool s2 = task_pool s"
    "current_task s2 = current_task s" "task_count s2 = task_count s"
    "donated_priority s2 = donated_priority (set_donated s t d)"
    using sched_requeue_wf [OF s(1) t refl] by metis
  have "sched_inv s2" by (rule sched_invI [OF s2(2)]) (use s s2 in auto)
  then show ?thesis using that s2 by simp
qed

text \<open>Donation takes the minimum of the old donation and the new one.\<close>

lemma donation_min:
  "(if donated_priority s t = 0xFF \<or> d < donated_priority s t then set_donated s t d else s) =
   set_donated s t (min (donated_priority s t) d)"
proof -
  have "donated_priority s t = 0xFF \<Longrightarrow> min (donated_priority s t) d = d"
    using prio_max [of d] by (simp add: min_absorb2)
  then show ?thesis by (auto simp: min_def donate_unchanged)
qed

lemma donate_priority_eq:
  assumes inv: "sched_inv s" and t: "t < task_count s"
  obtains s' where "sched_task_donate_priority s (Some t) d = Some (True, s')" "sched_inv s'"
    "task_pool s' = task_pool s" "current_task s' = current_task s" "task_count s' = task_count s"
    "donated_priority s' = (donated_priority s)(t := min (donated_priority s t) d)"
proof -
  obtain s2 where s2: "sched_requeue (set_donated s t (min (donated_priority s t) d)) t (eff_prio_slot s t) = Some s2"
    "sched_inv s2" "task_pool s2 = task_pool s" "current_task s2 = current_task s"
    "task_count s2 = task_count s" "donated_priority s2 = (donated_priority s)(t := min (donated_priority s t) d)"
    using donate_inv [OF inv t] by metis
  define P where "P \<longleftrightarrow> current_task s2 \<noteq> None \<and> current_task s2 \<noteq> Some t \<and>
    eff_prio_slot (set_donated s t (min (donated_priority s t) d)) t < eff_prio_of s2 (current_task s2)"
  have "sched_task_donate_priority s (Some t) d = Some (True, if P then s2\<lparr>need_resched := True\<rparr> else s2)"
    unfolding sched_task_donate_priority_def P_def by (simp add: donation_min s2(1) Let_def)
  then show ?thesis by (rule that) (use s2 in auto)
qed

lemma clear_donation_eq:
  assumes inv: "sched_inv s" and t: "t < task_count s"
  obtains s' where "sched_task_clear_donation s (Some t) = Some s'" "sched_inv s'"
    "task_pool s' = task_pool s" "current_task s' = current_task s" "task_count s' = task_count s"
    "donated_priority s' = (donated_priority s)(t := 0xFF)"
proof -
  obtain s2 where s2: "sched_requeue (set_donated s t 0xFF) t (eff_prio_slot s t) = Some s2"
    "sched_inv s2" "task_pool s2 = task_pool s" "current_task s2 = current_task s"
    "task_count s2 = task_count s" "donated_priority s2 = (donated_priority s)(t := 0xFF)"
    using donate_inv [OF inv t] by metis
  have "\<exists>b. sched_task_clear_donation s (Some t) = Some (s2\<lparr>need_resched := b\<rparr>)"
    unfolding sched_task_clear_donation_def
    by (auto simp: s2(1) Let_def split: option.splits
        intro: exI [of _ True] exI [of _ "need_resched s2"])
  then obtain b where "sched_task_clear_donation s (Some t) = Some (s2\<lparr>need_resched := b\<rparr>)" ..
  then show ?thesis by (rule that) (use s2 in auto)
qed

subsection \<open>The timer tick\<close>

lemma sched_wf_proc [simp]: "sched_wf s qs \<Longrightarrow> sched_wf (s\<lparr>proc_ctx := f\<rparr>) qs"
  by (erule sched_wf_cong) auto

lemma sched_inv_proc [simp]: "sched_inv s \<Longrightarrow> sched_inv (s\<lparr>proc_ctx := f\<rparr>)"
  by (auto simp: sched_inv_def intro: sched_wf_proc)

text \<open>
  What other components do to the scheduler from a signal or a clean-up: they wake tasks.
  \<^verbatim>\<open>signal_send_pid\<close> calls nothing else of the scheduler.
\<close>

definition wake_all :: "sched \<Rightarrow> nat list \<Rightarrow> sched" where
  "wake_all = foldl (\<lambda>s w. sched_unblock s (Some w))"

lemma wake_all_simps [simp]:
  "wake_all s [] = s" "wake_all s (w # ws) = wake_all (sched_unblock s (Some w)) ws"
  by (simp_all add: wake_all_def)

definition alarm_ok :: "(u32 \<Rightarrow> sched \<Rightarrow> sched) \<Rightarrow> bool" where
  "alarm_ok alarm \<longleftrightarrow> (\<forall>pid s. \<exists>ws. alarm pid s = wake_all s ws \<and> (\<forall>w \<in> set ws. w < task_count s))"

lemma resched_if_higher_proc [simp]: "proc_ctx (resched_if_higher s t) = proc_ctx s"
  by (simp add: resched_if_higher_def)

lemma sched_unblock_proc [simp]:
  "proc_ctx (sched_unblock s t) = proc_ctx s" "task_count (sched_unblock s t) = task_count s"
  "current_task (sched_unblock s t) = current_task s"
  by (simp_all add: sched_unblock_def split: option.splits)

lemma wake_all_proc [simp]:
  "proc_ctx (wake_all s ws) = proc_ctx s" "task_count (wake_all s ws) = task_count s"
  "current_task (wake_all s ws) = current_task s"
  by (induction ws arbitrary: s) simp_all

lemma wake_all_inv: "sched_inv s \<Longrightarrow> \<forall>w \<in> set ws. w < task_count s \<Longrightarrow> sched_inv (wake_all s ws)"
  by (induction ws arbitrary: s) (simp_all add: sched_unblock_inv)

lemma alarm_okD:
  assumes "alarm_ok alarm"
  shows "sched_inv s \<Longrightarrow> sched_inv (alarm pid s)" "proc_ctx (alarm pid s) = proc_ctx s"
proof -
  obtain ws where "alarm pid s = wake_all s ws" "\<forall>w \<in> set ws. w < task_count s"
    using assms unfolding alarm_ok_def by blast
  then show "sched_inv s \<Longrightarrow> sched_inv (alarm pid s)" "proc_ctx (alarm pid s) = proc_ctx s"
    by (simp_all add: wake_all_inv)
qed

lemma sched_tick_itimer_inv:
  "alarm_ok alarm \<Longrightarrow> sched_inv s \<Longrightarrow> sched_inv (sched_tick_itimer alarm j s i)"
  by (auto simp: sched_tick_itimer_def Let_def alarm_okD)

lemma itimer_fold_inv:
  "alarm_ok alarm \<Longrightarrow> sched_inv s \<Longrightarrow> sched_inv (foldl (sched_tick_itimer alarm j) s is)"
  by (induction "is" arbitrary: s) (auto intro: sched_tick_itimer_inv)

text \<open>Accounting on the current task keeps the scheduling fields.\<close>

lemma sched_inv_account:
  assumes inv: "sched_inv s" and b: "t_state b = state_of s c" "t_priority b = t_priority (task_pool s c)"
  shows "sched_inv (set_tcb s c b)"
proof -
  have "sched_wf (set_tcb s c b) qs" if "sched_wf s qs" for qs
    using that by (rule sched_wf_cong) (use b in auto)
  then show ?thesis using inv b unfolding sched_inv_def by (auto split: if_splits)
qed

lemma sched_tick_inv:
  assumes "alarm_ok alarm" "sched_inv s"
  shows "sched_inv (sched_tick alarm j s)"
proof -
  obtain c where c: "current_task s = Some c" using assms(2) by (auto simp: sched_inv_def)
  show ?thesis
    unfolding sched_tick_def sched_tick_account_def c option.case Let_def
    by (rule itimer_fold_inv [OF assms(1)])
      (auto intro!: sched_inv_resched sched_inv_account [OF assms(2)])
qed

text \<open>Each slot is treated once, from the value it had before the tick.\<close>

definition itimer_after :: "u64 \<Rightarrow> proc_ctx \<Rightarrow> proc_ctx" where
  "itimer_after j p =
     (if p_in_use p \<and> p_itimer_expires_ms p \<noteq> 0 \<and> p_itimer_expires_ms p \<le> j
      then p\<lparr>p_itimer_expires_ms := (if p_itimer_interval_ms p \<noteq> 0 then j + p_itimer_interval_ms p else 0)\<rparr>
      else p)"

lemma itimer_proc_ctx:
  assumes "alarm_ok alarm"
  shows "proc_ctx (sched_tick_itimer alarm j s i) = (proc_ctx s)(i := itimer_after j (proc_ctx s i))"
  using assms by (auto simp: sched_tick_itimer_def itimer_after_def alarm_okD Let_def fun_eq_iff not_le)

lemma itimer_fold_proc_ctx:
  assumes "alarm_ok alarm" "distinct is"
  shows "proc_ctx (foldl (sched_tick_itimer alarm j) s is) i =
    (if i \<in> set is then itimer_after j (proc_ctx s i) else proc_ctx s i)"
  using assms(2) by (induction "is" arbitrary: s) (auto simp: itimer_proc_ctx [OF assms(1)])

subsection \<open>Step relation\<close>

inductive sched_step :: "sched \<Rightarrow> sched \<Rightarrow> bool" where
  step_schedule: "schedule s = Some s' \<Longrightarrow> sched_step s s'"
| step_yield: "sched_yield s = Some s' \<Longrightarrow> sched_step s s'"
| step_block: "current_task s \<noteq> Some IDLE_SLOT \<Longrightarrow> sched_block s = Some s' \<Longrightarrow> sched_step s s'"
| step_unblock: "t < task_count s \<Longrightarrow> sched_step s (sched_unblock s (Some t))"
| step_donate: "t < task_count s \<Longrightarrow> sched_task_donate_priority s (Some t) d = Some (ok, s') \<Longrightarrow> sched_step s s'"
| step_clear: "t < task_count s \<Longrightarrow> sched_task_clear_donation s (Some t) = Some s' \<Longrightarrow> sched_step s s'"
| step_tick: "alarm_ok alarm \<Longrightarrow> sched_step s (sched_tick alarm j s)"

inductive_cases sched_stepE: "sched_step s s'"

lemma sched_step_inv:
  assumes "sched_inv s" "sched_step s s'" shows "sched_inv s'"
  using assms(2)
proof cases
  case step_schedule then show ?thesis using schedule_inv [OF assms(1)] by (metis option.inject)
next
  case step_yield then show ?thesis using sched_yield_inv [OF assms(1)] by (metis option.inject)
next
  case step_block then show ?thesis using sched_block_inv [OF assms(1)] by (metis option.inject)
next
  case step_donate then show ?thesis
    using donate_priority_eq [OF assms(1)] by (metis option.inject prod.inject)
next
  case step_clear then show ?thesis using clear_donation_eq [OF assms(1)] by (metis option.inject)
qed (use assms(1) sched_unblock_inv sched_tick_inv in auto)

interpretation schedsys: invariant_system sched_step sched_inv
  by unfold_locales (rule sched_step_inv)

subsection \<open>The state after boot\<close>

text \<open>
  The scheduler state \<^verbatim>\<open>sched_init\<close> leaves: the running kernel task and the READY idle task,
  the process contexts apart.
\<close>

definition zero_tcb :: tcb where
  "zero_tcb = \<lparr>t_sp = 0, t_pid = 0, t_priority = 0, t_state = TCB_RUNNING, t_flags = 0, t_ticks_left = 0,
     t_runtime_ns = 0, t_budget_ns = 0, t_period_ms = 0, t_deadline_ms = 0, t_name = []\<rparr>"

definition zero_frame :: exception_frame where
  "zero_frame = \<lparr>f_x = (\<lambda>_. 0), f_sp = 0, f_pc = 0, f_spsr = 0, f_esr = 0, f_far = 0\<rparr>"

definition zero_ctx :: task_ctx where
  "zero_ctx = \<lparr>c_mm = None, c_kernel_stack_pa = 0, c_user_entry = 0, c_user_sp = 0, c_argc = 0,
     c_argv = 0, c_envp = 0, c_auxv = 0, c_tpidr_el0 = 0, c_child_set_tid_uva = 0,
     c_clear_child_tid_uva = 0, c_is_user = False, c_resume_from_frame = False, c_proc_slot = 0,
     c_exit_code = 0, c_start_frame = zero_frame\<rparr>"

definition zero_proc :: proc_ctx where
  "zero_proc = \<lparr>p_mm = None, p_tgid = 0, p_parent_pid = 0, p_pgid = 0, p_sid = 0,
     p_wait_exit_code = 0, p_group_exit_code = 0, p_refcount = 0, p_in_use = False, p_waitable = False,
     p_group_exiting = False, p_abi_mode = 0, p_exec_path = [], p_rlimits = (\<lambda>_. \<lparr>rlim_cur = 0, rlim_max = 0\<rparr>),
     p_itimer_expires_ms = 0, p_itimer_interval_ms = 0\<rparr>"

definition sched_bss :: sched where
  "sched_bss = \<lparr>task_pool = (\<lambda>_. zero_tcb), task_count = 0, next_pid = 0,
     donated_priority = (\<lambda>_. 0), task_ctx = (\<lambda>_. zero_ctx), proc_ctx = (\<lambda>_. zero_proc),
     ready_bitmap = (\<lambda>_. 0), rq = (\<lambda>_. \<lparr>fhead = None, ftail = None\<rparr>), t_next = (\<lambda>_. None),
     current_task = None, need_resched = False\<rparr>"

definition sched_boot :: sched where
  "sched_boot = rq_push (sched_bss\<lparr>task_count := 2, next_pid := 2, current_task := Some 0,
     donated_priority := (\<lambda>_. 0)(0 := 0xFF, 1 := 0xFF),
     task_pool := (\<lambda>_. zero_tcb)
       (0 := zero_tcb\<lparr>t_priority := PRIO_KERNEL, t_flags := TCB_FLAG_KERNEL, t_ticks_left := SCHED_TICK_QUANTUM\<rparr>,
        1 := zero_tcb\<lparr>t_pid := 1, t_priority := PRIO_IDLE, t_state := TCB_READY,
               t_flags := TCB_FLAG_KERNEL OR TCB_FLAG_IDLE, t_ticks_left := 0xFF\<rparr>)\<rparr>) 1"

lemma sched_bss_rqs: "rqs sched_bss (\<lambda>_. [])"
  by (simp add: rqs_def sched_bss_def fifo_rep_def bm_bit_def)

lemma sched_boot_wf: "sched_wf sched_boot ((\<lambda>_. [])(255 := [1]))"
proof -
  let ?s = "sched_bss\<lparr>task_count := 2, next_pid := 2, current_task := Some 0,
     donated_priority := (\<lambda>_. 0)(0 := 0xFF, 1 := 0xFF),
     task_pool := (\<lambda>_. zero_tcb)
       (0 := zero_tcb\<lparr>t_priority := PRIO_KERNEL, t_flags := TCB_FLAG_KERNEL, t_ticks_left := SCHED_TICK_QUANTUM\<rparr>,
        1 := zero_tcb\<lparr>t_pid := 1, t_priority := PRIO_IDLE, t_state := TCB_READY,
               t_flags := TCB_FLAG_KERNEL OR TCB_FLAG_IDLE, t_ticks_left := 0xFF\<rparr>)\<rparr>"
  have "rqs ?s (\<lambda>_. [])" using sched_bss_rqs rqs_cong [of ?s sched_bss] by simp
  from rq_push_rqs [OF this, of 1 255]
  have "rqs sched_boot ((\<lambda>_. [])(255 := [1]))"
    by (simp add: sched_boot_def eff_prio_slot_def PRIO_IDLE_def)
  moreover have "t = 0 \<or> t = 1" if "t < 2" for t :: nat using that by auto
  ultimately show ?thesis
    by (auto simp: sched_wf_def sched_boot_def eff_prio_slot_def zero_tcb_def sched_bss_def PRIO_IDLE_def)
qed

lemma sched_boot_fields [simp]:
  "current_task sched_boot = Some 0" "task_count sched_boot = 2"
  "task_pool sched_boot 0 = zero_tcb\<lparr>t_priority := PRIO_KERNEL, t_flags := TCB_FLAG_KERNEL,
     t_ticks_left := SCHED_TICK_QUANTUM\<rparr>"
  "state_of sched_boot (Suc 0) = TCB_READY" "t_priority (task_pool sched_boot (Suc 0)) = 255"
  "donated_priority sched_boot 0 = 255" "donated_priority sched_boot (Suc 0) = 255"
  "proc_ctx sched_boot = (\<lambda>_. zero_proc)"
  by (simp_all add: sched_boot_def PRIO_IDLE_def sched_bss_def)

lemma sched_boot_inv: "sched_inv sched_boot"
  by (rule sched_invI [OF sched_boot_wf, of 0]) (auto simp: zero_tcb_def IDLE_SLOT_def)

lemma alarm_ok_none: "alarm_ok (\<lambda>_ s. s)"
  by (auto simp: alarm_ok_def intro: exI [of _ "[]"])

subsection \<open>Properties\<close>



text \<open>
  C6. A scheduling decision always returns, and it runs the first task of the non-empty queue
  of highest priority: the new current task was READY, no READY task has a better effective
  priority, the task that was RUNNING goes to the tail of the queue of its own priority (round
  robin), and no other queue changes.
\<close>

theorem schedule_picks_highest:
  assumes wf: "sched_wf s qs" and c: "current_task s = Some c"
    and r: "r < task_count s" "state_of s r = TCB_READY"
  shows "\<exists>s' n ts. schedule s = Some s' \<and> current_task s' = Some n \<and>
    state_of s n = TCB_READY \<and> state_of s' n = TCB_RUNNING \<and>
    (\<forall>t < task_count s. state_of s t = TCB_READY \<longrightarrow> eff_prio_slot s n \<le> eff_prio_slot s t) \<and>
    qs (unat (eff_prio_slot s n)) = n # ts \<and>
    sched_wf s' (requeue_prev s c (qs(unat (eff_prio_slot s n) := ts)))"
proof -
  have "qs (unat (eff_prio_slot s r)) \<noteq> []" using sched_wfD(3) [OF wf r] by auto
  then obtain p where p: "top_queue qs p" using top_queue_exists prio_bound by blast
  then obtain n ts where q: "qs p = n # ts" "p < 256" by (auto simp: top_queue_def neq_Nil_conv)
  have n: "state_of s n = TCB_READY" "unat (eff_prio_slot s n) = p"
    using sched_wfD(2) [OF wf q(2), of n] q(1) by auto
  have "eff_prio_slot s n \<le> eff_prio_slot s t" if "t < task_count s" "state_of s t = TCB_READY" for t
    using sched_wfD(3) [OF wf that] p n(2) by (force simp: top_queue_def word_le_nat_alt not_less [symmetric])
  moreover obtain s' where "schedule s = Some s'" "current_task s' = Some n"
    "sched_wf s' (requeue_prev s c (qs(p := ts)))" "state_of s' n = TCB_RUNNING"
    using schedule_top [OF wf c p q(1)] by (metis schedule_def)
  ultimately show ?thesis using n q by blast
qed

theorem schedule_picks_highest_witness:
  "\<exists>s' n ts. schedule sched_boot = Some s' \<and> current_task s' = Some n \<and>
    state_of sched_boot n = TCB_READY \<and> state_of s' n = TCB_RUNNING \<and>
    (\<forall>t < task_count sched_boot. state_of sched_boot t = TCB_READY \<longrightarrow>
       eff_prio_slot sched_boot n \<le> eff_prio_slot sched_boot t) \<and>
    ((\<lambda>_. [])(255 := [1])) (unat (eff_prio_slot sched_boot n)) = n # ts \<and>
    sched_wf s' (requeue_prev sched_boot 0
      (((\<lambda>_. [])(255 := [1]))(unat (eff_prio_slot sched_boot n) := ts)))"
  by (rule schedule_picks_highest [OF sched_boot_wf, of 0 1]) simp_all

text \<open>
  The decision does not compare with the task that is still RUNNING: when every READY task
  has a worse priority than the running one, \<^verbatim>\<open>schedule()\<close> (as after a yield or the end of a
  time slice) still takes the CPU away from it and gives it to a task of lower priority.
\<close>

lemma schedule_demotes_running:
  assumes wf: "sched_wf s qs" and c: "current_task s = Some c" "state_of s c = TCB_RUNNING"
    and r: "r < task_count s" "state_of s r = TCB_READY"
    and low: "\<And>t. t < task_count s \<Longrightarrow> state_of s t = TCB_READY \<Longrightarrow> eff_prio_slot s c < eff_prio_slot s t"
  shows "\<exists>s' n. schedule s = Some s' \<and> current_task s' = Some n \<and> n \<noteq> c \<and>
    state_of s' c = TCB_READY \<and> eff_prio_slot s' c < eff_prio_slot s' n"
proof -
  have "qs (unat (eff_prio_slot s r)) \<noteq> []" using sched_wfD(3) [OF wf r] by auto
  then obtain p where p: "top_queue qs p" using top_queue_exists prio_bound by blast
  then obtain n ts where q: "qs p = n # ts" "p < 256" by (auto simp: top_queue_def neq_Nil_conv)
  have n: "n < task_count s" "state_of s n = TCB_READY"
    using sched_wfD(2) [OF wf q(2), of n] q(1) by auto
  then have "n \<noteq> c" using c(2) by auto
  moreover obtain s' where "schedule s = Some s'" "current_task s' = Some n" "state_of s' c = TCB_READY"
    "eff_prio_slot s' = eff_prio_slot s"
    using schedule_top [OF wf c(1) p q(1)] c(2) calculation by (metis schedule_def)
  ultimately show ?thesis using low [OF n] by metis
qed

text \<open>Donation lowers the effective priority number to the minimum, clearing it restores the base priority.\<close>

lemma donation_effect:
  assumes inv: "sched_inv s" and t: "t < task_count s"
  shows "\<exists>s1 s2. sched_task_donate_priority s (Some t) d = Some (True, s1) \<and> sched_inv s1 \<and>
      eff_prio_slot s1 t = min (eff_prio_slot s t) d \<and>
      sched_task_clear_donation s1 (Some t) = Some s2 \<and> sched_inv s2 \<and>
      eff_prio_slot s2 t = t_priority (task_pool s t) \<and> task_pool s2 = task_pool s \<and>
      (\<forall>x. x \<noteq> t \<longrightarrow> eff_prio_slot s1 x = eff_prio_slot s x \<and> eff_prio_slot s2 x = eff_prio_slot s x)"
proof -
  have top: "\<not> (0xFF :: u8) < p" for p
    using prio_max [of p] by (simp add: not_less)
  obtain s1 where s1: "sched_task_donate_priority s (Some t) d = Some (True, s1)" "sched_inv s1"
    "task_pool s1 = task_pool s" "task_count s1 = task_count s"
    "donated_priority s1 = (donated_priority s)(t := min (donated_priority s t) d)"
    using donate_priority_eq [OF inv t] by metis
  obtain s2 where s2: "sched_task_clear_donation s1 (Some t) = Some s2" "sched_inv s2"
    "task_pool s2 = task_pool s1" "donated_priority s2 = (donated_priority s1)(t := 0xFF)"
    using clear_donation_eq [OF s1(2), of t] t s1(4) by metis
  have "eff_prio_slot s1 t = min (eff_prio_slot s t) d"
    using s1(3,5) by (auto simp: eff_prio_slot_def min_def)
  moreover have "eff_prio_slot s2 t = t_priority (task_pool s t)"
    using s1(3) s2(3,4) top by (simp add: eff_prio_slot_def)
  moreover have "eff_prio_slot s1 x = eff_prio_slot s x \<and> eff_prio_slot s2 x = eff_prio_slot s x"
    if "x \<noteq> t" for x
    using that s1(3,5) s2(3,4) by (simp add: eff_prio_slot_def)
  ultimately show ?thesis using s1 s2 by auto
qed

lemma itimer_need_resched:
  "need_resched s \<Longrightarrow> need_resched (foldl (sched_tick_itimer alarm j) s is)"
  by (induction "is" arbitrary: s) (auto simp: sched_tick_itimer_def Let_def)

lemma itimer_due_resched:
  assumes "alarm_ok alarm" "distinct is" "i \<in> set is"
    and "p_in_use (proc_ctx s i)" "p_itimer_expires_ms (proc_ctx s i) \<noteq> 0"
      "p_itimer_expires_ms (proc_ctx s i) \<le> j"
  shows "need_resched (foldl (sched_tick_itimer alarm j) s is)"
  using assms(2-)
proof (induction "is" arbitrary: s)
  case (Cons a as)
  show ?case
  proof (cases "a = i")
    case True
    then have "need_resched (sched_tick_itimer alarm j s a)"
      using Cons.prems by (simp add: sched_tick_itimer_def Let_def not_less [symmetric])
    then show ?thesis by (simp add: itimer_need_resched)
  next
    case False
    then show ?thesis
      using Cons.IH [of "sched_tick_itimer alarm j s a"] Cons.prems
      by (simp add: itimer_proc_ctx [OF assms(1)])
  qed
qed simp

lemma tick_account_resched:
  assumes "t_ticks_left (task_pool s c) \<le> 1 \<or>
      (0 < t_deadline_ms (task_pool s c) \<and> t_deadline_ms (task_pool s c) < j \<and>
        t_flags (task_pool s c) AND TCB_FLAG_IDLE = 0)"
  shows "need_resched (sched_tick_account j s c)"
proof -
  have "x \<le> 1 \<longleftrightarrow> x = 0 \<or> x = 1" for x :: u8 by (auto simp: word_le_nat_alt word_unat_eq_iff)
  with assms show ?thesis by (auto simp: sched_tick_account_def Let_def)
qed

text \<open>
  A timer tick asks for a reschedule when the running task used up its time slice or
  missed its deadline, and treats the interval timer of every process once: a timer that is
  due fires, is re-armed at now plus its interval (modulo \<open>2^64\<close>) or disarmed when it is a
  one-shot timer, and asks for a reschedule; a timer not yet due is left alone. The signal
  delivery is only assumed to act on the scheduler by waking tasks.
\<close>

lemma sched_tick_effect:
  assumes al: "alarm_ok alarm" and c: "current_task s = Some c" and i: "i < SCHED_MAX_TASKS"
  shows "proc_ctx (sched_tick alarm j s) i = itimer_after j (proc_ctx s i) \<and>
     (t_ticks_left (task_pool s c) \<le> 1 \<or>
      (0 < t_deadline_ms (task_pool s c) \<and> t_deadline_ms (task_pool s c) < j \<and>
        t_flags (task_pool s c) AND TCB_FLAG_IDLE = 0) \<or>
      (p_in_use (proc_ctx s i) \<and> p_itimer_expires_ms (proc_ctx s i) \<noteq> 0 \<and>
        p_itimer_expires_ms (proc_ctx s i) \<le> j)
      \<longrightarrow> need_resched (sched_tick alarm j s))"
proof -
  let ?s1 = "sched_tick_account j s c" and ?is = "[0..<SCHED_MAX_TASKS]"
  have t: "sched_tick alarm j s = foldl (sched_tick_itimer alarm j) ?s1 ?is"
    by (simp add: sched_tick_def c)
  have p: "proc_ctx ?s1 = proc_ctx s" by (simp add: sched_tick_account_def Let_def)
  show ?thesis
    unfolding t
    using i itimer_fold_proc_ctx [OF al, of ?is j ?s1 i] p
      tick_account_resched [of s c j] itimer_need_resched [of ?s1 alarm j ?is]
      itimer_due_resched [OF al, of ?is i ?s1 j] by auto
qed

end
