(* ===== verification/Proc.thy ===== *)
theory Proc
  imports Sched
begin

text \<open>
  Tasks and processes, the second half of \<^verbatim>\<open>kernel/sched.c\<close>: the allocation of tasks and of
  process contexts, creation of kernel tasks, user tasks, forked tasks and threads, exit and
  group exit, sessions and process groups, resource limits and interval timers. An address
  space is a number (\<^verbatim>\<open>mm_space_t *\<close>, \<open>None\<close> for null); the spaces an operation hands to
  \<^verbatim>\<open>mmu_space_destroy\<close> are part of its result. A \<^verbatim>\<open>while (1) wfe\<close> after a panic message is
  \<open>None\<close>. The clean-up hooks of other components that run on exit are parameters.
\<close>

subsection \<open>Data\<close>

definition mmu_kernel_space :: "nat option" where "mmu_kernel_space = Some 0"
definition TASK_STACK_SIZE :: u64 where "TASK_STACK_SIZE = 16384"
definition SCHED_EXEC_PATH_MAX :: nat where "SCHED_EXEC_PATH_MAX = 256"
definition SCHED_ABI_ENLILOS :: u32 where "SCHED_ABI_ENLILOS = 0"
definition SCHED_ABI_LINUX :: u32 where "SCHED_ABI_LINUX = 1"
definition MAX_FD :: u64 where "MAX_FD = 64"
definition RLIMIT_STACK :: nat where "RLIMIT_STACK = 3"
definition RLIMIT_CORE :: nat where "RLIMIT_CORE = 4"
definition RLIMIT_NPROC :: nat where "RLIMIT_NPROC = 6"
definition RLIMIT_NOFILE :: nat where "RLIMIT_NOFILE = 7"
definition RLIMIT_MEMLOCK :: nat where "RLIMIT_MEMLOCK = 8"
definition RLIMIT_MSGQUEUE :: nat where "RLIMIT_MSGQUEUE = 12"
definition RLIMIT_NICE :: nat where "RLIMIT_NICE = 13"
definition RLIMIT_RTPRIO :: nat where "RLIMIT_RTPRIO = 14"
definition RLIMIT_NLIMITS :: nat where "RLIMIT_NLIMITS = 16"
definition RLIM64_INFINITY :: u64 where "RLIM64_INFINITY = - 1"

definition set_ctx :: "sched \<Rightarrow> nat \<Rightarrow> task_ctx \<Rightarrow> sched" where
  "set_ctx s t c = s\<lparr>task_ctx := (task_ctx s)(t := c)\<rparr>"

definition set_proc :: "sched \<Rightarrow> nat \<Rightarrow> proc_ctx \<Rightarrow> sched" where
  "set_proc s p c = s\<lparr>proc_ctx := (proc_ctx s)(p := c)\<rparr>"

subsection \<open>Accessors\<close>

definition proc_of :: "sched \<Rightarrow> nat option \<Rightarrow> nat option" where
  "proc_of s t =
     (case t of
        None \<Rightarrow> None
      | Some i \<Rightarrow>
          (let p = c_proc_slot (task_ctx s i)
           in if p \<ge> SCHED_MAX_TASKS then None else if p_in_use (proc_ctx s p) then Some p else None))"

definition tgid_of :: "sched \<Rightarrow> nat option \<Rightarrow> u32" where
  "tgid_of s t =
     (case proc_of s t of
        Some p \<Rightarrow> p_tgid (proc_ctx s p)
      | None \<Rightarrow> (case t of Some i \<Rightarrow> t_pid (task_pool s i) | None \<Rightarrow> 0))"

definition parent_pid_of :: "sched \<Rightarrow> nat option \<Rightarrow> u32" where
  "parent_pid_of s t = (case proc_of s t of Some p \<Rightarrow> p_parent_pid (proc_ctx s p) | None \<Rightarrow> 0)"

definition pgid_of :: "sched \<Rightarrow> nat option \<Rightarrow> u32" where
  "pgid_of s t = (case proc_of s t of Some p \<Rightarrow> p_pgid (proc_ctx s p) | None \<Rightarrow> 0)"

definition sid_of :: "sched \<Rightarrow> nat option \<Rightarrow> u32" where
  "sid_of s t = (case proc_of s t of Some p \<Rightarrow> p_sid (proc_ctx s p) | None \<Rightarrow> 0)"

definition sched_task_find :: "sched \<Rightarrow> u32 \<Rightarrow> nat option" where
  "sched_task_find s pid = for_find (\<lambda>i. t_pid (task_pool s i) = pid) 0 (task_count s)"

definition sched_task_is_user :: "sched \<Rightarrow> nat option \<Rightarrow> bool" where
  "sched_task_is_user s t = (case t of None \<Rightarrow> False | Some i \<Rightarrow> c_is_user (task_ctx s i))"

definition sched_task_is_thread :: "sched \<Rightarrow> nat option \<Rightarrow> bool" where
  "sched_task_is_thread s t =
     (case t of None \<Rightarrow> False | Some i \<Rightarrow> t_flags (task_pool s i) AND TCB_FLAG_THREAD \<noteq> 0)"

definition sched_task_space :: "sched \<Rightarrow> nat option \<Rightarrow> nat option" where
  "sched_task_space s t =
     (case proc_of s t of
        None \<Rightarrow> mmu_kernel_space
      | Some p \<Rightarrow> if p_mm (proc_ctx s p) = None then mmu_kernel_space else p_mm (proc_ctx s p))"

definition sched_task_get_exit_code :: "sched \<Rightarrow> nat option \<Rightarrow> int option" where
  "sched_task_get_exit_code s t = (case t of None \<Rightarrow> None | Some i \<Rightarrow> Some (c_exit_code (task_ctx s i)))"

definition sched_task_proc_slot :: "sched \<Rightarrow> nat option \<Rightarrow> nat" where
  "sched_task_proc_slot s t = (case t of None \<Rightarrow> 0 | Some i \<Rightarrow> c_proc_slot (task_ctx s i))"

definition sched_task_proc_refcount :: "sched \<Rightarrow> nat option \<Rightarrow> u16" where
  "sched_task_proc_refcount s t = (case proc_of s t of None \<Rightarrow> 0 | Some p \<Rightarrow> p_refcount (proc_ctx s p))"

definition sched_task_abi_mode :: "sched \<Rightarrow> nat option \<Rightarrow> u32" where
  "sched_task_abi_mode s t =
     (case proc_of s t of None \<Rightarrow> SCHED_ABI_ENLILOS | Some p \<Rightarrow> ucast (p_abi_mode (proc_ctx s p)))"

definition sched_task_exec_path :: "sched \<Rightarrow> nat option \<Rightarrow> string option" where
  "sched_task_exec_path s t =
     (case proc_of s t of
        None \<Rightarrow> None
      | Some p \<Rightarrow> if p_exec_path (proc_ctx s p) = [] then None else Some (p_exec_path (proc_ctx s p)))"

definition sched_task_at :: "sched \<Rightarrow> nat \<Rightarrow> nat option" where
  "sched_task_at s i = (if i \<ge> task_count s then None else Some i)"

text \<open>A C string is the list of its characters before the terminator.\<close>

definition sched_strlcpy :: "nat \<Rightarrow> string option \<Rightarrow> string" where
  "sched_strlcpy cap src = (case src of None \<Rightarrow> [] | Some cs \<Rightarrow> take (cap - 1) cs)"

subsection \<open>Process contexts\<close>

definition proc_rlimit_defaults :: "proc_ctx \<Rightarrow> proc_ctx" where
  "proc_rlimit_defaults p =
     (let both = (\<lambda>v. \<lparr>rlim_cur = v, rlim_max = v\<rparr>);
          r = (\<lambda>i. if i < RLIMIT_NLIMITS then both RLIM64_INFINITY else p_rlimits p i)
      in p\<lparr>p_rlimits := r
            (RLIMIT_STACK := \<lparr>rlim_cur = 8 * 1024 * 1024, rlim_max = RLIM64_INFINITY\<rparr>,
             RLIMIT_CORE := both 0,
             RLIMIT_NOFILE := both MAX_FD,
             RLIMIT_NPROC := both (word_of_nat SCHED_MAX_TASKS),
             RLIMIT_MEMLOCK := both (64 * 1024),
             RLIMIT_NICE := both 0,
             RLIMIT_RTPRIO := both 0,
             RLIMIT_MSGQUEUE := both 819200)\<rparr>)"

definition proc_alloc :: "sched \<Rightarrow> nat option \<Rightarrow> u32 \<Rightarrow> u32 \<Rightarrow> u32 \<Rightarrow> u32 \<Rightarrow> (nat \<times> sched) option" where
  "proc_alloc s mm tgid parent_pid pgid sid =
     (case for_find (\<lambda>i. \<not> p_in_use (proc_ctx s i)) 0 SCHED_MAX_TASKS of
        None \<Rightarrow> None
      | Some i \<Rightarrow>
          Some (i, set_proc s i (proc_rlimit_defaults (zero_proc
            \<lparr>p_mm := (if mm \<noteq> None then mm else mmu_kernel_space), p_tgid := tgid,
             p_parent_pid := parent_pid, p_pgid := pgid, p_sid := sid, p_refcount := 1,
             p_in_use := True, p_abi_mode := ucast SCHED_ABI_ENLILOS\<rparr>))))"

definition proc_retain :: "sched \<Rightarrow> nat \<Rightarrow> sched option" where
  "proc_retain s slot =
     (if slot \<ge> SCHED_MAX_TASKS \<or> \<not> p_in_use (proc_ctx s slot) then None
      else Some (set_proc s slot ((proc_ctx s slot)\<lparr>p_refcount := p_refcount (proc_ctx s slot) + 1\<rparr>)))"

definition proc_set_group_exit :: "sched \<Rightarrow> nat \<Rightarrow> int \<Rightarrow> sched" where
  "proc_set_group_exit s slot code =
     (if slot \<ge> SCHED_MAX_TASKS \<or> \<not> p_in_use (proc_ctx s slot) then s
      else set_proc s slot ((proc_ctx s slot)\<lparr>p_group_exiting := True, p_group_exit_code := code\<rparr>))"

definition proc_leader_task :: "sched \<Rightarrow> proc_ctx \<Rightarrow> nat option" where
  "proc_leader_task s p = (if p_tgid p = 0 then None else sched_task_find s (p_tgid p))"

record release_result =
  rel_last :: bool
  rel_parent :: u32
  rel_destroyed :: "nat option"

definition proc_release :: "sched \<Rightarrow> nat \<Rightarrow> int \<Rightarrow> release_result \<times> sched" where
  "proc_release s slot code =
     (let p = proc_ctx s slot
      in if slot \<ge> SCHED_MAX_TASKS \<or> \<not> p_in_use p \<or> p_refcount p = 0
         then (\<lparr>rel_last = False, rel_parent = 0, rel_destroyed = None\<rparr>, s)
         else
           (let p = p\<lparr>p_refcount := p_refcount p - 1\<rparr>
            in if p_refcount p \<noteq> 0
               then (\<lparr>rel_last = False, rel_parent = 0, rel_destroyed = None\<rparr>, set_proc s slot p)
               else
                 (let final_code = (if p_group_exiting p then p_group_exit_code p else code);
                      s1 = (case proc_leader_task s p of
                              None \<Rightarrow> s
                            | Some l \<Rightarrow> set_ctx s l ((task_ctx s l)\<lparr>c_exit_code := final_code\<rparr>));
                      mm = p_mm p;
                      p = p\<lparr>p_waitable := True, p_wait_exit_code := final_code, p_mm := mmu_kernel_space\<rparr>
                  in (\<lparr>rel_last = True, rel_parent = p_parent_pid p,
                       rel_destroyed = (if mm \<noteq> None \<and> mm \<noteq> mmu_kernel_space then mm else None)\<rparr>,
                      set_proc s1 slot p))))"

definition task_bind_new_process ::
  "sched \<Rightarrow> nat \<Rightarrow> nat option \<Rightarrow> u32 \<Rightarrow> u32 \<Rightarrow> u32 \<Rightarrow> sched option" where
  "task_bind_new_process s t mm parent_pid pgid sid =
     (let pid = t_pid (task_pool s t)
      in case proc_alloc s mm pid parent_pid (if pgid \<noteq> 0 then pgid else pid) (if sid \<noteq> 0 then sid else pid) of
           None \<Rightarrow> None
         | Some (slot, s1) \<Rightarrow>
             Some (set_ctx s1 t ((task_ctx s1 t)
               \<lparr>c_mm := (if mm \<noteq> None then mm else mmu_kernel_space), c_proc_slot := slot\<rparr>)))"

definition task_bind_shared_process :: "sched \<Rightarrow> nat \<Rightarrow> nat \<Rightarrow> sched option" where
  "task_bind_shared_process s t owner =
     (case proc_of s (Some owner) of
        None \<Rightarrow> None
      | Some p \<Rightarrow>
          (let slot = c_proc_slot (task_ctx s owner)
           in case proc_retain s slot of
                None \<Rightarrow> None
              | Some s1 \<Rightarrow>
                  Some (set_ctx s1 t ((task_ctx s1 t)\<lparr>c_mm := p_mm (proc_ctx s1 p), c_proc_slot := slot\<rparr>))))"

subsection \<open>Creating tasks\<close>

definition task_alloc :: "sched \<Rightarrow> (nat \<times> sched) option" where
  "task_alloc s =
     (if task_count s \<ge> SCHED_MAX_TASKS then None
      else
        (let slot = task_count s;
             s = s\<lparr>task_count := Suc slot, next_pid := next_pid s + 1,
                   task_pool := (task_pool s)(slot :=
                     \<lparr>t_sp = 0, t_pid = next_pid s, t_priority = PRIO_NORMAL, t_state = TCB_READY,
                      t_flags = TCB_FLAG_KERNEL, t_ticks_left = SCHED_TICK_QUANTUM, t_runtime_ns = 0,
                      t_budget_ns = 0, t_period_ms = 0, t_deadline_ms = 0, t_name = ''(unnamed)''\<rparr>),
                   t_next := (t_next s)(slot := None),
                   donated_priority := (donated_priority s)(slot := 0xFF)\<rparr>
         in Some (slot, set_ctx s slot (zero_ctx
              \<lparr>c_mm := mmu_kernel_space, c_tpidr_el0 := c_tpidr_el0 (task_ctx s slot), c_proc_slot := 0xFF\<rparr>))))"

text \<open>The saved stack pointer of a new task; the frame itself is in the task's stack memory.\<close>

definition task_setup_stack :: "sched \<Rightarrow> nat \<Rightarrow> u64 \<Rightarrow> sched" where
  "task_setup_stack s t stack_top = set_tcb s t ((task_pool s t)\<lparr>t_sp := stack_top - 96\<rparr>)"

definition inherit_pgid :: "sched \<Rightarrow> nat \<Rightarrow> u32" where
  "inherit_pgid s t =
     (if current_task s \<noteq> None \<and> pgid_of s (current_task s) \<noteq> 0
      then pgid_of s (current_task s) else t_pid (task_pool s t))"

definition inherit_sid :: "sched \<Rightarrow> nat \<Rightarrow> u32" where
  "inherit_sid s t =
     (if current_task s \<noteq> None \<and> sid_of s (current_task s) \<noteq> 0
      then sid_of s (current_task s) else t_pid (task_pool s t))"

definition sched_task_create :: "sched \<Rightarrow> u64 \<Rightarrow> string \<Rightarrow> u8 \<Rightarrow> (nat \<times> sched) option" where
  "sched_task_create s stack_pa name priority =
     do {
       (t, s) \<leftarrow> task_alloc s;
       let s = set_tcb s t ((task_pool s t)\<lparr>t_name := name, t_priority := priority, t_state := TCB_READY,
                 t_flags := TCB_FLAG_KERNEL, t_ticks_left := SCHED_TICK_QUANTUM\<rparr>);
       let s = set_ctx s t ((task_ctx s t)\<lparr>c_kernel_stack_pa := stack_pa, c_is_user := False\<rparr>);
       s \<leftarrow> task_bind_new_process s t mmu_kernel_space 0 (inherit_pgid s t) (inherit_sid s t);
       let s = task_setup_stack s t (stack_pa + TASK_STACK_SIZE);
       Some (t, resched_if_higher (rq_push s t) t)
     }"

record user_args =
  ua_entry :: u64
  ua_sp :: u64
  ua_argc :: u64
  ua_argv :: u64
  ua_envp :: u64
  ua_auxv :: u64

definition sched_task_create_user ::
  "sched \<Rightarrow> u64 \<Rightarrow> string \<Rightarrow> nat option \<Rightarrow> user_args \<Rightarrow> u8 \<Rightarrow> (nat \<times> sched) option" where
  "sched_task_create_user s stack_pa name mm ua priority =
     do {
       (t, s) \<leftarrow> task_alloc s;
       mm' \<leftarrow> mm;
       let s = set_tcb s t ((task_pool s t)\<lparr>t_name := name, t_priority := priority, t_state := TCB_READY,
                 t_flags := TCB_FLAG_USER, t_ticks_left := SCHED_TICK_QUANTUM\<rparr>);
       let s = set_ctx s t ((task_ctx s t)\<lparr>c_mm := Some mm', c_kernel_stack_pa := stack_pa,
                 c_user_entry := ua_entry ua, c_user_sp := ua_sp ua, c_argc := ua_argc ua, c_argv := ua_argv ua,
                 c_envp := ua_envp ua, c_auxv := ua_auxv ua, c_child_set_tid_uva := 0,
                 c_clear_child_tid_uva := 0, c_is_user := True, c_resume_from_frame := False, c_tpidr_el0 := 0\<rparr>);
       s \<leftarrow> task_bind_new_process s t (Some mm')
              (if current_task s \<noteq> None then tgid_of s (current_task s) else 0)
              (inherit_pgid s t) (inherit_sid s t);
       let s = task_setup_stack s t (stack_pa + TASK_STACK_SIZE);
       Some (t, resched_if_higher (rq_push s t) t)
     }"

definition frame_child :: "exception_frame \<Rightarrow> exception_frame" where
  "frame_child f = f\<lparr>f_x := (f_x f)(0 := 0)\<rparr>"

text \<open>The child of \<^verbatim>\<open>fork\<close> starts from the parent's frame with result 0 and inherits its limits.\<close>

definition sched_task_fork_user ::
  "sched \<Rightarrow> u64 \<Rightarrow> string \<Rightarrow> nat option \<Rightarrow> exception_frame option \<Rightarrow> u8 \<Rightarrow> (nat \<times> sched) option" where
  "sched_task_fork_user s stack_pa name mm frame priority =
     do {
       (t, s) \<leftarrow> task_alloc s;
       mm' \<leftarrow> mm;
       f \<leftarrow> frame;
       let s = set_tcb s t ((task_pool s t)\<lparr>t_name := name, t_priority := priority, t_state := TCB_READY,
                 t_flags := TCB_FLAG_USER, t_ticks_left := SCHED_TICK_QUANTUM\<rparr>);
       let s = set_ctx s t ((task_ctx s t)\<lparr>c_mm := Some mm', c_kernel_stack_pa := stack_pa,
                 c_user_entry := f_pc f, c_user_sp := f_sp f, c_argc := 0, c_argv := 0, c_envp := 0,
                 c_auxv := 0, c_child_set_tid_uva := 0, c_clear_child_tid_uva := 0, c_is_user := True,
                 c_resume_from_frame := True,
                 c_tpidr_el0 := (case current_task s of Some c \<Rightarrow> c_tpidr_el0 (task_ctx s c) | None \<Rightarrow> 0)\<rparr>);
       s \<leftarrow> task_bind_new_process s t (Some mm')
              (if current_task s \<noteq> None then tgid_of s (current_task s) else 0)
              (inherit_pgid s t) (inherit_sid s t);
       let s = (case (proc_of s (current_task s), proc_of s (Some t)) of
                  (Some pp, Some cp) \<Rightarrow>
                    set_proc s cp ((proc_ctx s cp)\<lparr>p_rlimits :=
                      (\<lambda>i. if i < RLIMIT_NLIMITS then p_rlimits (proc_ctx s pp) i else p_rlimits (proc_ctx s cp) i)\<rparr>)
                | _ \<Rightarrow> s);
       let s = set_ctx s t ((task_ctx s t)\<lparr>c_start_frame := frame_child f\<rparr>);
       let s = task_setup_stack s t (stack_pa + TASK_STACK_SIZE);
       Some (t, resched_if_higher (rq_push s t) t)
     }"

record clone_args =
  ca_sp :: u64
  ca_tpidr :: u64
  ca_set_tid :: u64
  ca_clear_tid :: u64

definition sched_task_clone_user_thread ::
  "sched \<Rightarrow> u64 \<Rightarrow> string \<Rightarrow> exception_frame option \<Rightarrow> clone_args \<Rightarrow> u8 \<Rightarrow> (nat \<times> sched) option" where
  "sched_task_clone_user_thread s stack_pa name frame ca priority =
     do {
       (t, s) \<leftarrow> task_alloc s;
       f \<leftarrow> frame;
       c \<leftarrow> current_task s;
       (if \<not> sched_task_is_user s (Some c) then None else Some ());
       let s = set_tcb s t ((task_pool s t)\<lparr>t_name := name, t_priority := priority, t_state := TCB_READY,
                 t_flags := TCB_FLAG_USER OR TCB_FLAG_THREAD, t_ticks_left := SCHED_TICK_QUANTUM\<rparr>);
       s \<leftarrow> task_bind_shared_process s t c;
       let sp = (if ca_sp ca \<noteq> 0 then ca_sp ca else f_sp f);
       let s = set_ctx s t ((task_ctx s t)\<lparr>c_kernel_stack_pa := stack_pa,
                 c_user_entry := f_pc f, c_user_sp := sp, c_argc := 0, c_argv := 0, c_envp := 0,
                 c_auxv := 0, c_child_set_tid_uva := ca_set_tid ca, c_clear_child_tid_uva := ca_clear_tid ca,
                 c_is_user := True, c_resume_from_frame := True, c_tpidr_el0 := ca_tpidr ca,
                 c_start_frame := (frame_child f)\<lparr>f_sp := sp\<rparr>\<rparr>);
       let s = task_setup_stack s t (stack_pa + TASK_STACK_SIZE);
       Some (t, resched_if_higher (rq_push s t) t)
     }"

definition sched_init :: "sched option" where
  "sched_init =
     do {
       (kern, s) \<leftarrow> task_alloc sched_bss;
       let s = set_tcb s kern ((task_pool s kern)\<lparr>t_name := ''kernel'', t_priority := PRIO_KERNEL,
                 t_state := TCB_RUNNING, t_flags := TCB_FLAG_KERNEL, t_ticks_left := SCHED_TICK_QUANTUM\<rparr>);
       s \<leftarrow> task_bind_new_process s kern mmu_kernel_space 0 (t_pid (task_pool s kern)) (t_pid (task_pool s kern));
       let s = s\<lparr>current_task := Some kern\<rparr>;
       (idle, s) \<leftarrow> task_alloc s;
       let s = set_tcb s idle ((task_pool s idle)\<lparr>t_name := ''idle'', t_priority := PRIO_IDLE,
                 t_state := TCB_READY, t_flags := TCB_FLAG_KERNEL OR TCB_FLAG_IDLE, t_ticks_left := 0xFF\<rparr>);
       s \<leftarrow> task_bind_new_process s idle mmu_kernel_space 0 (t_pid (task_pool s idle)) (t_pid (task_pool s idle));
       Some (rq_push s idle)
     }"

definition sched_task_rebind_user :: "sched \<Rightarrow> nat option \<Rightarrow> nat option \<Rightarrow> user_args \<Rightarrow> sched option" where
  "sched_task_rebind_user s t mm ua =
     (case (t, proc_of s t, mm) of
        (Some t, Some p, Some mm) \<Rightarrow>
          (let s = set_tcb s t ((task_pool s t)\<lparr>t_flags :=
                     t_flags (task_pool s t) AND NOT TCB_FLAG_KERNEL OR TCB_FLAG_USER\<rparr>);
               s = set_ctx s t ((task_ctx s t)\<lparr>c_mm := Some mm, c_user_entry := ua_entry ua,
                     c_user_sp := ua_sp ua, c_argc := ua_argc ua, c_argv := ua_argv ua, c_envp := ua_envp ua,
                     c_auxv := ua_auxv ua, c_is_user := True\<rparr>)
           in Some (set_proc s p ((proc_ctx s p)\<lparr>p_mm := Some mm\<rparr>)))
      | _ \<Rightarrow> None)"

subsection \<open>Exit\<close>

text \<open>
  \<open>hook t\<close> is the clean-up of the other components for an exiting task (futexes, monitors,
  semaphores, ptys, signals, the store to the clear-tid address), \<open>last_hook t slot parent\<close> that
  of the last thread of a process, the SIGCHLD to the parent included. The result carries the
  address space that was handed to the MMU for destruction.
\<close>

definition sched_task_finish_exit ::
  "(nat \<Rightarrow> sched \<Rightarrow> sched) \<Rightarrow> (nat \<Rightarrow> nat \<Rightarrow> u32 \<Rightarrow> sched \<Rightarrow> sched) \<Rightarrow> sched \<Rightarrow> nat \<Rightarrow> int \<Rightarrow>
   (nat option \<times> sched) option" where
  "sched_task_finish_exit hook last_hook s t code =
     do {
       let s = set_ctx s t ((task_ctx s t)\<lparr>c_exit_code := code\<rparr>);
       s \<leftarrow> (if current_task s \<noteq> Some t \<and> state_of s t = TCB_READY
             then do { (_, s') \<leftarrow> rq_remove s t (eff_prio_slot s t); Some s' } else Some s);
       let s = hook t s;
       let slot = c_proc_slot (task_ctx s t);
       let (r, s) = proc_release s slot code;
       let s = (if rel_last r then last_hook t slot (rel_parent r) s else s);
       Some (rel_destroyed r, set_state s t TCB_ZOMBIE)
     }"

fun finish_exit_all ::
  "(nat \<Rightarrow> sched \<Rightarrow> sched) \<Rightarrow> (nat \<Rightarrow> nat \<Rightarrow> u32 \<Rightarrow> sched \<Rightarrow> sched) \<Rightarrow> nat \<Rightarrow> int \<Rightarrow> nat list \<Rightarrow> sched \<Rightarrow>
   (nat list \<times> sched) option" where
  "finish_exit_all hook last_hook slot code [] s = Some ([], s)"
| "finish_exit_all hook last_hook slot code (i # is) s =
     (if current_task s = Some i \<or> state_of s i = TCB_ZOMBIE \<or> c_proc_slot (task_ctx s i) \<noteq> slot
      then finish_exit_all hook last_hook slot code is s
      else do {
        (d, s) \<leftarrow> sched_task_finish_exit hook last_hook s i code;
        (ds, s) \<leftarrow> finish_exit_all hook last_hook slot code is s;
        Some (case d of None \<Rightarrow> ds | Some m \<Rightarrow> m # ds, s)
      })"

definition sched_task_begin_exit_group ::
  "(nat \<Rightarrow> sched \<Rightarrow> sched) \<Rightarrow> (nat \<Rightarrow> nat \<Rightarrow> u32 \<Rightarrow> sched \<Rightarrow> sched) \<Rightarrow> sched \<Rightarrow> int \<Rightarrow> (nat list \<times> sched) option" where
  "sched_task_begin_exit_group hook last_hook s code =
     (case current_task s of
        None \<Rightarrow> Some ([], s)
      | Some c \<Rightarrow>
          (let slot = c_proc_slot (task_ctx s c)
           in finish_exit_all hook last_hook slot code [0..<task_count s] (proc_set_group_exit s slot code)))"

definition sched_task_exit_with_code ::
  "(nat \<Rightarrow> sched \<Rightarrow> sched) \<Rightarrow> (nat \<Rightarrow> nat \<Rightarrow> u32 \<Rightarrow> sched \<Rightarrow> sched) \<Rightarrow> sched \<Rightarrow> int \<Rightarrow> (nat option \<times> sched) option" where
  "sched_task_exit_with_code hook last_hook s code =
     (case current_task s of
        None \<Rightarrow> do { s \<leftarrow> schedule s; Some (None, s) }
      | Some c \<Rightarrow>
          do {
            (d, s) \<leftarrow> sched_task_finish_exit hook last_hook s c code;
            s \<leftarrow> schedule s;
            Some (d, s)
          })"

definition sched_task_is_process_waitable :: "sched \<Rightarrow> nat option \<Rightarrow> bool" where
  "sched_task_is_process_waitable s t =
     (case (t, proc_of s t) of
        (Some i, Some p) \<Rightarrow> t_pid (task_pool s i) = p_tgid (proc_ctx s p) \<and> p_waitable (proc_ctx s p)
      | _ \<Rightarrow> False)"

definition sched_task_mark_reaped :: "sched \<Rightarrow> nat option \<Rightarrow> sched" where
  "sched_task_mark_reaped s t =
     (case proc_of s t of
        None \<Rightarrow> s
      | Some p \<Rightarrow> set_proc s p ((proc_ctx s p)\<lparr>p_waitable := False, p_in_use := False\<rparr>))"

subsection \<open>Sessions and process groups\<close>

definition sched_task_has_session :: "sched \<Rightarrow> u32 \<Rightarrow> bool" where
  "sched_task_has_session s sid \<longleftrightarrow> sid \<noteq> 0 \<and>
     for_find (\<lambda>i. state_of s i \<noteq> TCB_ZOMBIE \<and> sid_of s (Some i) = sid) 0 (task_count s) \<noteq> None"

definition sched_task_has_pgrp :: "sched \<Rightarrow> u32 \<Rightarrow> u32 \<Rightarrow> bool" where
  "sched_task_has_pgrp s sid pgid \<longleftrightarrow> pgid \<noteq> 0 \<and> sid \<noteq> 0 \<and>
     for_find (\<lambda>i. state_of s i \<noteq> TCB_ZOMBIE \<and> sid_of s (Some i) = sid \<and> pgid_of s (Some i) = pgid)
       0 (task_count s) \<noteq> None"

definition sched_task_setpgid :: "sched \<Rightarrow> nat option \<Rightarrow> nat option \<Rightarrow> u32 \<Rightarrow> (errno + unit) \<times> sched" where
  "sched_task_setpgid s caller target pgid =
     (case (caller, target) of
        (Some c, Some t) \<Rightarrow>
          if \<not> sched_task_is_user s caller \<or> \<not> sched_task_is_user s target then (Inl EPERM, s)
          else (case (proc_of s caller, proc_of s target) of
             (Some cp, Some tp) \<Rightarrow>
               (let cproc = proc_ctx s cp; tproc = proc_ctx s tp
                in if t \<noteq> c \<and> p_parent_pid tproc \<noteq> p_tgid cproc then (Inl EPERM, s)
                   else if t_pid (task_pool s t) \<noteq> p_tgid tproc then (Inl EPERM, s)
                   else if p_sid tproc = p_tgid tproc then (Inl EPERM, s)
                   else
                     (let pgid = (if pgid = 0 then p_tgid tproc else pgid)
                      in if p_sid tproc \<noteq> p_sid cproc then (Inl EPERM, s)
                         else if pgid \<noteq> p_tgid tproc \<and> \<not> sched_task_has_pgrp s (p_sid tproc) pgid
                         then (Inl EPERM, s)
                         else (Inr (), set_proc s tp (tproc\<lparr>p_pgid := pgid\<rparr>))))
           | _ \<Rightarrow> (Inl EINVAL, s))
      | _ \<Rightarrow> (Inl EINVAL, s))"

definition sched_task_setsid :: "sched \<Rightarrow> nat option \<Rightarrow> (errno + u32) \<times> sched" where
  "sched_task_setsid s task =
     (case proc_of s task of
        None \<Rightarrow> (Inl EINVAL, s)
      | Some p \<Rightarrow>
          (let proc = proc_ctx s p
           in if \<not> sched_task_is_user s task then (Inl EPERM, s)
              else if p_pgid proc = p_tgid proc then (Inl EPERM, s)
              else (Inr (p_tgid proc), set_proc s p (proc\<lparr>p_sid := p_tgid proc, p_pgid := p_tgid proc\<rparr>))))"

subsection \<open>Per-task and per-process settings\<close>

definition sched_task_set_abi_mode :: "sched \<Rightarrow> nat option \<Rightarrow> u32 \<Rightarrow> sched option" where
  "sched_task_set_abi_mode s t abi_mode =
     (case proc_of s t of
        None \<Rightarrow> None
      | Some p \<Rightarrow>
          if abi_mode \<noteq> SCHED_ABI_ENLILOS \<and> abi_mode \<noteq> SCHED_ABI_LINUX then None
          else Some (set_proc s p ((proc_ctx s p)\<lparr>p_abi_mode := ucast abi_mode\<rparr>)))"

definition sched_task_set_exec_path :: "sched \<Rightarrow> nat option \<Rightarrow> string option \<Rightarrow> sched option" where
  "sched_task_set_exec_path s t path =
     (case proc_of s t of
        None \<Rightarrow> None
      | Some p \<Rightarrow>
          Some (set_proc s p ((proc_ctx s p)\<lparr>p_exec_path := sched_strlcpy SCHED_EXEC_PATH_MAX path\<rparr>)))"

definition sched_task_set_tpidr :: "sched \<Rightarrow> nat option \<Rightarrow> u64 \<Rightarrow> sched" where
  "sched_task_set_tpidr s t v =
     (case t of None \<Rightarrow> s | Some i \<Rightarrow> set_ctx s i ((task_ctx s i)\<lparr>c_tpidr_el0 := v\<rparr>))"

definition sched_task_get_tpidr :: "sched \<Rightarrow> nat option \<Rightarrow> u64" where
  "sched_task_get_tpidr s t = (case t of None \<Rightarrow> 0 | Some i \<Rightarrow> c_tpidr_el0 (task_ctx s i))"

definition sched_task_set_clear_tid :: "sched \<Rightarrow> nat option \<Rightarrow> u64 \<Rightarrow> sched option" where
  "sched_task_set_clear_tid s t v =
     (case t of
        None \<Rightarrow> None
      | Some i \<Rightarrow>
          if \<not> c_is_user (task_ctx s i) then None
          else Some (set_ctx s i ((task_ctx s i)\<lparr>c_clear_child_tid_uva := v\<rparr>)))"

definition sched_proc_get_rlimit :: "sched \<Rightarrow> nat option \<Rightarrow> nat \<Rightarrow> rlimit64 option" where
  "sched_proc_get_rlimit s t resource =
     (if t = None \<or> resource \<ge> RLIMIT_NLIMITS then None
      else case proc_of s t of None \<Rightarrow> None | Some p \<Rightarrow> Some (p_rlimits (proc_ctx s p) resource))"

definition sched_proc_set_rlimit :: "sched \<Rightarrow> nat option \<Rightarrow> nat \<Rightarrow> rlimit64 option \<Rightarrow> sched option" where
  "sched_proc_set_rlimit s t resource inp =
     (case inp of
        None \<Rightarrow> None
      | Some r \<Rightarrow>
          if t = None \<or> resource \<ge> RLIMIT_NLIMITS then None
          else case proc_of s t of
                 None \<Rightarrow> None
               | Some p \<Rightarrow> Some (set_proc s p ((proc_ctx s p)\<lparr>p_rlimits := (p_rlimits (proc_ctx s p))(resource := r)\<rparr>)))"

definition sched_proc_set_itimer :: "sched \<Rightarrow> u64 \<Rightarrow> nat option \<Rightarrow> u64 \<Rightarrow> u64 \<Rightarrow> sched" where
  "sched_proc_set_itimer s now t value_ms interval_ms =
     (case proc_of s t of
        None \<Rightarrow> s
      | Some p \<Rightarrow>
          if value_ms = 0
          then set_proc s p ((proc_ctx s p)\<lparr>p_itimer_expires_ms := 0, p_itimer_interval_ms := 0\<rparr>)
          else set_proc s p ((proc_ctx s p)\<lparr>p_itimer_expires_ms := now + value_ms, p_itimer_interval_ms := interval_ms\<rparr>))"

definition sched_proc_get_itimer :: "sched \<Rightarrow> u64 \<Rightarrow> nat option \<Rightarrow> u64 \<times> u64" where
  "sched_proc_get_itimer s now t =
     (case proc_of s t of
        None \<Rightarrow> (0, 0)
      | Some p \<Rightarrow>
          (let e = p_itimer_expires_ms (proc_ctx s p)
           in (if e = 0 \<or> now \<ge> e then 0 else e - now, p_itimer_interval_ms (proc_ctx s p))))"

text \<open>One entry of the table \<^verbatim>\<open>sched_task_snapshot\<close> fills in.\<close>

record task_info =
  i_pid :: u32
  i_priority :: u8
  i_state :: tcb_state
  i_flags :: u8
  i_runtime_ns :: u64
  i_budget_ns :: u64
  i_period_ms :: u64
  i_deadline_ms :: u64
  i_name :: string

definition sched_task_snapshot :: "sched \<Rightarrow> nat \<Rightarrow> task_info list" where
  "sched_task_snapshot s max_entries =
     map (\<lambda>i. let t = task_pool s i in
           \<lparr>i_pid = t_pid t, i_priority = eff_prio_slot s i, i_state = t_state t, i_flags = t_flags t,
            i_runtime_ns = t_runtime_ns t, i_budget_ns = t_budget_ns t, i_period_ms = t_period_ms t,
            i_deadline_ms = t_deadline_ms t, i_name = sched_strlcpy 32 (Some (t_name t))\<rparr>)
       [0..<min (task_count s) max_entries]"

subsection \<open>What scheduling leaves alone\<close>

text \<open>
  Scheduler operations do not change the tasks' identities, their contexts, which tasks are
  zombies, nor the process contexts beyond the expiry of interval timers.
\<close>

definition proc_core :: "proc_ctx \<Rightarrow> proc_ctx" where
  "proc_core p = p\<lparr>p_itimer_expires_ms := 0\<rparr>"

definition proc_same :: "sched \<Rightarrow> sched \<Rightarrow> bool" where
  "proc_same s s' \<longleftrightarrow> task_count s' = task_count s \<and> next_pid s' = next_pid s \<and> task_ctx s' = task_ctx s \<and>
     (\<forall>t. t_pid (task_pool s' t) = t_pid (task_pool s t) \<and>
          (state_of s' t = TCB_ZOMBIE \<longleftrightarrow> state_of s t = TCB_ZOMBIE)) \<and>
     (\<forall>i. proc_core (proc_ctx s' i) = proc_core (proc_ctx s i))"

lemma proc_same_refl [simp]: "proc_same s s"
  by (simp add: proc_same_def)

lemma proc_same_trans: "proc_same a b \<Longrightarrow> proc_same b c \<Longrightarrow> proc_same a c"
  by (simp add: proc_same_def)

lemma rq_push_frame [simp]: "task_ctx (rq_push s t) = task_ctx s" "next_pid (rq_push s t) = next_pid s"
  by (simp_all add: rq_push_def Let_def split: prod.splits)

lemma set_tcb_frame [simp]:
  "task_ctx (set_tcb s t b) = task_ctx s" "next_pid (set_tcb s t b) = next_pid s"
  "task_ctx (set_state s t st) = task_ctx s" "next_pid (set_state s t st) = next_pid s"
  "task_ctx (set_ticks s t n) = task_ctx s" "next_pid (set_ticks s t n) = next_pid s"
  "task_ctx (resched_if_higher s t) = task_ctx s" "next_pid (resched_if_higher s t) = next_pid s"
  by (simp_all add: set_tcb_def set_state_def set_ticks_def resched_if_higher_def)

lemma rq_pop_same: "rq_pop s p = (r, s') \<Longrightarrow> proc_same s s' \<and> current_task s' = current_task s \<and> task_pool s' = task_pool s"
  by (auto simp: rq_pop_def proc_same_def split: prod.splits option.splits)

lemma rq_remove_same:
  "rq_remove s t p = Some (b, s') \<Longrightarrow> proc_same s s' \<and> current_task s' = current_task s \<and> task_pool s' = task_pool s"
  by (auto simp: rq_remove_def proc_same_def Option.bind_eq_Some_conv split: if_splits)

lemma sched_pick_same:
  assumes "sched_pick c s = Some y"
  shows "proc_same s (snd y) \<and> current_task (snd y) = current_task s \<and>
    (\<forall>n. fst y = Some n \<longrightarrow> state_of (snd y) n = TCB_READY)" (is "?Q s y")
proof (rule sched_pick.raw_induct [where P = "\<lambda>_ s y. ?Q s y", OF _ assms])
  fix pick prev s and y :: "nat option \<times> sched"
  assume IH: "\<And>prev s y. pick prev s = Some y \<Longrightarrow> ?Q s y"
    and eq: "(case bitmap_find_first (ready_bitmap s) of None \<Rightarrow> Some (None, s)
      | Some p \<Rightarrow> if 255 < p then Some (None, s)
          else case rq_pop s (word_of_nat p) of (None, s') \<Rightarrow> pick prev s'
               | (Some n, s') \<Rightarrow> if n = prev \<or> state_of s' n \<noteq> TCB_READY then pick prev s'
                                 else Some (Some n, s')) = Some y"
  show "?Q s y"
  proof (cases "bitmap_find_first (ready_bitmap s)")
    case None
    with eq show ?thesis by auto
  next
    case (Some p)
    obtain r s1 where pop: "rq_pop s (word_of_nat p) = (r, s1)" by fastforce
    note same = rq_pop_same [OF pop]
    show ?thesis
    proof (cases "255 < p \<or> (\<exists>n. r = Some n \<and> n \<noteq> prev \<and> state_of s1 n = TCB_READY)")
      case True
      then have "y = (None, s) \<or> y = (r, s1) \<and> (\<exists>n. r = Some n \<and> state_of s1 n = TCB_READY)"
        using eq unfolding Some pop option.case prod.case by (auto split: if_splits)
      with same show ?thesis by auto
    next
      case False
      then have "pick prev s1 = Some y" 
        using eq unfolding Some pop option.case prod.case by (auto split: option.splits)
      with IH [of prev s1 y] same show ?thesis by (auto intro: proc_same_trans)
    qed
  qed
qed

lemma sched_switch_same: "state_of s n \<noteq> TCB_ZOMBIE \<Longrightarrow> proc_same s (sched_switch s c n)"
  by (auto simp: proc_same_def sched_switch_def Let_def)

lemma schedule_same:
  assumes "schedule s = Some s'" shows "proc_same s s'"
proof -
  obtain c n s1 where c: "sched_pick c s = Some (n, s1)"
    and s': "s' = (case n of None \<Rightarrow> s1 | Some n \<Rightarrow> sched_switch s1 c n)"
    using assms by (auto simp: schedule_def schedule_locked_def Option.bind_eq_Some_conv)
  note p = sched_pick_same [OF c]
  show ?thesis
  proof (cases n)
    case (Some m)
    then have "proc_same s1 s'" using p s' sched_switch_same [of s1 m c] by simp
    then show ?thesis using p proc_same_trans by auto
  qed (use p s' in simp)
qed

lemma sched_unblock_same: "proc_same s (sched_unblock s t)"
  by (auto simp: proc_same_def sched_unblock_def split: option.splits)

lemma wake_all_same: "proc_same s (wake_all s ws)"
  by (induction ws arbitrary: s) (auto intro: proc_same_trans sched_unblock_same)

lemma set_ticks_same [simp]: "proc_same s (set_ticks s t n)"
  by (simp add: proc_same_def)

lemma need_resched_same [simp]: "proc_same s (s\<lparr>need_resched := b\<rparr>)"
  by (simp add: proc_same_def)

lemma sched_yield_same: "sched_yield s = Some s' \<Longrightarrow> proc_same s s'"
  unfolding sched_yield_def schedule_def [symmetric]
  by (auto dest!: schedule_same split: option.splits intro: proc_same_trans [OF set_ticks_same])

lemma sched_block_same:
  assumes "sched_block s = Some s'" "\<And>c. current_task s = Some c \<Longrightarrow> state_of s c \<noteq> TCB_ZOMBIE"
  shows "proc_same s s'"
proof (cases "current_task s")
  case (Some c)
  then have "proc_same s (set_state s c TCB_BLOCKED)" using assms(2) by (simp add: proc_same_def)
  then show ?thesis
    using assms(1) Some schedule_same proc_same_trans by (auto simp: sched_block_def schedule_def)
qed (use assms schedule_same in \<open>auto simp: sched_block_def schedule_def\<close>)

lemma sched_requeue_same: "sched_requeue s t e = Some s' \<Longrightarrow> proc_same s s' \<and> current_task s' = current_task s"
  by (auto simp: sched_requeue_def Option.bind_eq_Some_conv proc_same_def dest!: rq_remove_same split: if_splits)

lemma set_donated_same [simp]: "proc_same s (set_donated s t d)"
  by (simp add: proc_same_def set_donated_def)

lemma donate_same: "sched_task_donate_priority s t d = Some (ok, s') \<Longrightarrow> proc_same s s'"
  by (auto simp: sched_task_donate_priority_def Let_def Option.bind_eq_Some_conv dest!: sched_requeue_same
      split: option.splits if_splits intro: proc_same_trans [OF set_donated_same] proc_same_trans [OF _ need_resched_same])

lemma clear_donation_same: "sched_task_clear_donation s t = Some s' \<Longrightarrow> proc_same s s'"
  by (auto simp: sched_task_clear_donation_def Let_def Option.bind_eq_Some_conv dest!: sched_requeue_same
      split: option.splits if_splits
      intro: proc_same_trans [OF set_donated_same] proc_same_trans [OF proc_same_trans [OF set_donated_same] need_resched_same])

lemma sched_tick_itimer_same:
  assumes "alarm_ok alarm" shows "proc_same s (sched_tick_itimer alarm j s i)"
proof -
  have a: "proc_same s (s\<lparr>proc_ctx := (proc_ctx s)(i := (proc_ctx s i)\<lparr>p_itimer_expires_ms := e\<rparr>)\<rparr>)" for e
    by (simp add: proc_same_def proc_core_def)
  have b: "proc_same u (alarm pid u)" for pid u
    using assms wake_all_same unfolding alarm_ok_def by metis
  note all = proc_same_trans [OF proc_same_trans [OF a b] need_resched_same]
  show ?thesis using all by (simp add: sched_tick_itimer_def Let_def)
qed

lemma sched_tick_same: "alarm_ok alarm \<Longrightarrow> proc_same s (sched_tick alarm j s)"
proof -
  assume al: "alarm_ok alarm"
  have "proc_same u (foldl (sched_tick_itimer alarm j) u is)" for u "is"
    by (induction "is" arbitrary: u) (auto intro: proc_same_trans sched_tick_itimer_same [OF al])
  moreover have "proc_same s (sched_tick_account j s c)" for c
    by (simp add: sched_tick_account_def Let_def proc_same_def)
  ultimately show ?thesis
    by (auto simp: sched_tick_def split: option.splits intro: proc_same_trans)
qed

lemma sched_step_same:
  assumes "sched_inv s" "sched_step s s'" shows "proc_same s s'"
  using assms(2)
proof cases
  case step_block
  show ?thesis
    by (rule sched_block_same [OF step_block(2)]) (use assms(1) in \<open>auto simp: sched_inv_def\<close>)
qed (auto intro: schedule_same sched_yield_same sched_unblock_same donate_same clear_donation_same sched_tick_same)

subsection \<open>The invariant of tasks and processes\<close>

definition live :: "sched \<Rightarrow> nat \<Rightarrow> nat set" where
  "live s i = {t. t < task_count s \<and> c_proc_slot (task_ctx s t) = i \<and> state_of s t \<noteq> TCB_ZOMBIE}"

text \<open>
  Pids are slot numbers; every task that has not exited belongs to a process in use; the
  reference count of a process is the number of its live threads, and it can be waited for
  exactly when it has none.
\<close>

definition proc_inv :: "sched \<Rightarrow> bool" where
  "proc_inv s \<longleftrightarrow> task_count s \<le> SCHED_MAX_TASKS \<and> next_pid s = word_of_nat (task_count s) \<and>
     (\<forall>t < task_count s. t_pid (task_pool s t) = word_of_nat t \<and> c_proc_slot (task_ctx s t) < SCHED_MAX_TASKS \<and>
        (state_of s t \<noteq> TCB_ZOMBIE \<longrightarrow> p_in_use (proc_ctx s (c_proc_slot (task_ctx s t))))) \<and>
     (\<forall>i < SCHED_MAX_TASKS. p_in_use (proc_ctx s i) \<longrightarrow>
        unat (p_refcount (proc_ctx s i)) = card (live s i) \<and>
        (p_waitable (proc_ctx s i) \<longleftrightarrow> live s i = {}))"

lemma finite_live [simp]: "finite (live s i)"
  by (simp add: live_def)

lemma card_live: "proc_inv s \<Longrightarrow> card (live s i) \<le> 96"
proof -
  assume "proc_inv s"
  then have "live s i \<subseteq> {..<96}" by (auto simp: live_def proc_inv_def SCHED_MAX_TASKS_def)
  from card_mono [OF _ this] show ?thesis by simp
qed

lemma proc_core_fields:
  assumes "proc_core p = proc_core q"
  shows "p_in_use p = p_in_use q" "p_refcount p = p_refcount q" "p_waitable p = p_waitable q"
proof -
  have "p_in_use (proc_core p) = p_in_use (proc_core q)" "p_refcount (proc_core p) = p_refcount (proc_core q)"
    "p_waitable (proc_core p) = p_waitable (proc_core q)" using assms by simp_all
  then show "p_in_use p = p_in_use q" "p_refcount p = p_refcount q" "p_waitable p = p_waitable q"
    by (simp_all add: proc_core_def)
qed

lemma proc_inv_same:
  assumes "proc_same s s'" "proc_inv s" shows "proc_inv s'"
proof -
  have l: "live s' = live s" using assms(1) by (auto simp: live_def proc_same_def)
  have f: "p_in_use (proc_ctx s' i) = p_in_use (proc_ctx s i)" "p_refcount (proc_ctx s' i) = p_refcount (proc_ctx s i)"
    "p_waitable (proc_ctx s' i) = p_waitable (proc_ctx s i)" for i
    using assms(1) proc_core_fields [of "proc_ctx s' i" "proc_ctx s i"] by (auto simp: proc_same_def)
  show ?thesis using assms unfolding proc_inv_def proc_same_def l by (simp add: f)
qed

text \<open>A change of a process context that keeps the fields the invariant is about.\<close>

lemma proc_inv_set_proc:
  assumes "proc_inv s" "p_in_use q = p_in_use (proc_ctx s i)" "p_refcount q = p_refcount (proc_ctx s i)"
    "p_waitable q = p_waitable (proc_ctx s i)"
  shows "proc_inv (set_proc s i q)"
  using assms by (auto simp: proc_inv_def set_proc_def live_def)

text \<open>A new task in process \<open>i\<close>.\<close>

lemma proc_inv_add:
  assumes inv: "proc_inv s" and t: "t = task_count s" "t < SCHED_MAX_TASKS"
    and n: "task_count s' = Suc t" "next_pid s' = next_pid s + 1"
    and c: "task_ctx s' = (task_ctx s)(t := c)" "c_proc_slot c = i" "i < SCHED_MAX_TASKS"
    and x: "\<And>x. x \<noteq> t \<Longrightarrow> t_pid (task_pool s' x) = t_pid (task_pool s x) \<and> state_of s' x = state_of s x"
    and new: "t_pid (task_pool s' t) = next_pid s" "state_of s' t \<noteq> TCB_ZOMBIE"
    and p: "proc_ctx s' = (proc_ctx s)(i := p)" "p_in_use p" "\<not> p_waitable p"
      "unat (p_refcount p) = card (live s i) + 1"
  shows "proc_inv s'"
proof -
  have li: "live s' i = insert t (live s i)" "t \<notin> live s i"
    using t n c x new by (auto simp: live_def less_Suc_eq)
  have lj: "live s' j = live s j" if "j \<noteq> i" for j
    using that t n c x by (auto simp: live_def less_Suc_eq)
  show ?thesis
    unfolding proc_inv_def
  proof (intro conjI allI impI)
    show "task_count s' \<le> SCHED_MAX_TASKS" using t n by simp
    show "next_pid s' = word_of_nat (task_count s')" using inv n t by (simp add: proc_inv_def)
  next
    fix x assume "x < task_count s'"
    then have "x = t \<or> x \<noteq> t \<and> x < task_count s" using n t by auto
    then show "t_pid (task_pool s' x) = word_of_nat x" "c_proc_slot (task_ctx s' x) < SCHED_MAX_TASKS"
      using inv x [of x] c new t by (auto simp: proc_inv_def)
  next
    fix x assume "x < task_count s'" "state_of s' x \<noteq> TCB_ZOMBIE"
    then have "x = t \<or> x \<noteq> t \<and> x < task_count s \<and> state_of s x \<noteq> TCB_ZOMBIE" using n t x by auto
    then show "p_in_use (proc_ctx s' (c_proc_slot (task_ctx s' x)))"
      using inv c p by (auto simp: proc_inv_def)
  next
    fix j assume j: "j < SCHED_MAX_TASKS" "p_in_use (proc_ctx s' j)"
    show "unat (p_refcount (proc_ctx s' j)) = card (live s' j)" "p_waitable (proc_ctx s' j) = (live s' j = {})"
      using j inv p li lj [of j] unfolding proc_inv_def by (cases "j = i"; simp)+
  qed
qed

subsection \<open>A new task enters the run queues\<close>

lemma rqs_unlinked:
  assumes "rqs s qs" "\<And>p. p < 256 \<Longrightarrow> t \<notin> set (qs p)"
    "t_next s' = (t_next s)(t := v)" "rq s' = rq s" "ready_bitmap s' = ready_bitmap s"
  shows "rqs s' qs"
  using assms by (simp add: rqs_def fifo_rep_def)

lemma sched_wf_new_task:
  assumes wf: "sched_wf s qs" and t: "t = task_count s"
    and f: "t_next s1 = (t_next s)(t := None)" "rq s1 = rq s" "ready_bitmap s1 = ready_bitmap s"
      "task_count s1 = Suc t" "current_task s1 = current_task s"
      "donated_priority s1 = (donated_priority s)(t := d)" "task_pool s1 = (task_pool s)(t := b)"
      "t_state b = TCB_READY"
    and p: "p = unat (eff_prio_slot s1 t)"
  shows "sched_wf (rq_push s1 t) (qs(p := qs p @ [t]))"
proof -
  let ?s0 = "set_state s1 t TCB_BLOCKED"
  have nq: "t \<notin> set (qs r)" if "r < 256" for r using sched_wfD(2) [OF wf that, of t] t by auto
  have e: "eff_prio_slot ?s0 x = eff_prio_slot s x" if "x \<noteq> t" for x
    using that f by (simp add: eff_prio_slot_def)
  obtain c where c: "current_task s = Some c" "c < task_count s" "state_of s c \<noteq> TCB_READY"
    "\<And>x. x < task_count s \<Longrightarrow> state_of s x = TCB_RUNNING \<Longrightarrow> x = c"
    using sched_wf_current [OF wf] by blast
  have "sched_wf ?s0 qs"
    unfolding sched_wf_def
  proof (intro conjI allI impI ballI)
    show "rqs ?s0 qs" by (rule rqs_unlinked [OF sched_wfD(1) [OF wf] nq]) (use f in simp_all)
  next
    fix r x assume r: "r < 256" "x \<in> set (qs r)"
    then have "x \<noteq> t" using nq by auto
    with sched_wfD(2) [OF wf r] show "x < task_count ?s0" "state_of ?s0 x = TCB_READY"
      "unat (eff_prio_slot ?s0 x) = r" using e f t by auto
  next
    fix x assume x: "x < task_count ?s0" "state_of ?s0 x = TCB_READY"
    then have "x \<noteq> t" by auto
    with x sched_wfD(3) [OF wf, of x] show "x \<in> set (qs (unat (eff_prio_slot ?s0 x)))" using e f t by auto
  next
    show "\<exists>c < task_count ?s0. current_task ?s0 = Some c \<and> state_of ?s0 c \<noteq> TCB_READY \<and>
        (\<forall>x < task_count ?s0. state_of ?s0 x = TCB_RUNNING \<longrightarrow> x = c)"
      using c f t by (intro exI [of _ c]) (auto simp: less_Suc_eq)
  qed
  then show ?thesis
    by (rule sched_wf_enqueue) (use f t c p in \<open>auto simp: eff_prio_slot_def\<close>)
qed

lemma sched_inv_new_task:
  assumes inv: "sched_inv s" and t: "t = task_count s"
    and f: "t_next s1 = (t_next s)(t := None)" "rq s1 = rq s" "ready_bitmap s1 = ready_bitmap s"
      "task_count s1 = Suc t" "current_task s1 = current_task s"
      "donated_priority s1 = (donated_priority s)(t := d)" "task_pool s1 = (task_pool s)(t := b)"
      "t_state b = TCB_READY"
  shows "sched_inv (resched_if_higher (rq_push s1 t) t)"
proof -
  obtain qs c where s: "sched_wf s qs" "current_task s = Some c" "c < task_count s" "state_of s c = TCB_RUNNING"
    "IDLE_SLOT < task_count s" "state_of s IDLE_SLOT \<in> {TCB_READY, TCB_RUNNING}"
    using sched_invE [OF inv] by metis
  have wf: "sched_wf (resched_if_higher (rq_push s1 t) t)
      (qs(unat (eff_prio_slot s1 t) := qs (unat (eff_prio_slot s1 t)) @ [t]))"
    using sched_wf_new_task [OF s(1) t f refl] by simp
  show ?thesis
    by (rule sched_invI [OF wf]) (use s f t in auto)
qed

text \<open>The parts of the state that creating a task changes, the same for all four ways.\<close>

definition allocated :: "sched \<Rightarrow> nat \<Rightarrow> sched \<Rightarrow> bool" where
  "allocated s t s1 \<longleftrightarrow> t = task_count s \<and> t < SCHED_MAX_TASKS \<and>
     t_next s1 = (t_next s)(t := None) \<and> rq s1 = rq s \<and> ready_bitmap s1 = ready_bitmap s \<and>
     task_count s1 = Suc t \<and> next_pid s1 = next_pid s + 1 \<and> current_task s1 = current_task s \<and>
     donated_priority s1 = (donated_priority s)(t := 0xFF) \<and>
     (\<forall>x. x \<noteq> t \<longrightarrow> task_pool s1 x = task_pool s x \<and> task_ctx s1 x = task_ctx s x) \<and>
     t_state (task_pool s1 t) = TCB_READY \<and> t_pid (task_pool s1 t) = next_pid s"

definition spawned :: "sched \<Rightarrow> nat \<Rightarrow> sched \<Rightarrow> bool" where
  "spawned s t s1 \<longleftrightarrow> allocated s t s1 \<and>
     (let i = c_proc_slot (task_ctx s1 t); p = proc_ctx s1 i; p0 = proc_ctx s i
      in i < SCHED_MAX_TASKS \<and> (\<forall>j. j \<noteq> i \<longrightarrow> proc_ctx s1 j = proc_ctx s j) \<and>
         p_in_use p \<and> \<not> p_waitable p \<and>
         (if p_in_use p0 then p_refcount p = p_refcount p0 + 1 else p_refcount p = 1))"

lemma spawned_inv:
  assumes sp: "spawned s t s1" and inv: "sched_inv s" "proc_inv s"
  shows "sched_inv (resched_if_higher (rq_push s1 t) t)" "proc_inv (resched_if_higher (rq_push s1 t) t)"
proof -
  let ?s' = "resched_if_higher (rq_push s1 t) t"
  have al: "allocated s t s1" using sp by (simp add: spawned_def)
  have f: "t = task_count s" "t < SCHED_MAX_TASKS" "t_next s1 = (t_next s)(t := None)" "rq s1 = rq s"
    "ready_bitmap s1 = ready_bitmap s" "task_count s1 = Suc t" "next_pid s1 = next_pid s + 1"
    "current_task s1 = current_task s" "donated_priority s1 = (donated_priority s)(t := 0xFF)"
    using al by (auto simp: allocated_def)
  obtain b c where b: "task_pool s1 = (task_pool s)(t := b)" "t_state b = TCB_READY" "t_pid b = next_pid s"
    and c0: "task_ctx s1 = (task_ctx s)(t := c)"
  proof (rule that)
    show "task_pool s1 = (task_pool s)(t := task_pool s1 t)" "task_ctx s1 = (task_ctx s)(t := task_ctx s1 t)"
      using al by (auto simp: allocated_def fun_eq_iff)
  qed (use al in \<open>auto simp: allocated_def\<close>)
  show "sched_inv ?s'" by (rule sched_inv_new_task [OF inv(1) f(1,3-6,8,9) b(1,2)])
  let ?i = "c_proc_slot c"
  obtain p where c: "?i < SCHED_MAX_TASKS" "proc_ctx s1 = (proc_ctx s)(?i := p)" "p_in_use p" "\<not> p_waitable p"
    and rc: "if p_in_use (proc_ctx s ?i) then p_refcount p = p_refcount (proc_ctx s ?i) + 1 else p_refcount p = 1"
  proof (rule that)
    show "proc_ctx s1 = (proc_ctx s)(?i := proc_ctx s1 ?i)"
      using sp c0 by (auto simp: spawned_def Let_def fun_eq_iff)
  qed (use sp c0 in \<open>auto simp: spawned_def Let_def\<close>)
  have "unat (p_refcount p) = card (live s ?i) + 1"
  proof (cases "p_in_use (proc_ctx s ?i)")
    case True
    then have u: "unat (p_refcount (proc_ctx s ?i)) = card (live s ?i)"
      using inv(2) c(1) by (auto simp: proc_inv_def)
    with card_live [OF inv(2), of ?i] have "unat (p_refcount (proc_ctx s ?i) + 1) = card (live s ?i) + 1"
      by (simp add: unat_word_ariths)
    then show ?thesis using rc True by simp
  next
    case False
    then have "live s ?i = {}" using inv(2) by (auto simp: live_def proc_inv_def)
    then show ?thesis using rc False by simp
  qed
  then show "proc_inv ?s'"
    by (intro proc_inv_add [OF inv(2) f(1,2), where c = c and p = p and i = ?i])
      (use f(6,7) b c0 c in simp_all)
qed

text \<open>Where a step of a creation takes the state: still one new task away from \<open>s\<close>.\<close>

lemma proc_allocD:
  assumes "proc_alloc s mm tgid ppid pgid sid = Some (i, s')"
  obtains p where "s' = set_proc s i p" "i < SCHED_MAX_TASKS" "\<not> p_in_use (proc_ctx s i)"
    "p_in_use p" "\<not> p_waitable p" "p_refcount p = 1" "p_tgid p = tgid" "p_parent_pid p = ppid"
    "p_pgid p = pgid" "p_sid p = sid"
  using assms for_find_SomeD [of "\<lambda>i. \<not> p_in_use (proc_ctx s i)" 0 SCHED_MAX_TASKS i]
  by (auto simp: proc_alloc_def proc_rlimit_defaults_def zero_proc_def Let_def split: option.splits)

lemma set_ctx_simps [simp]:
  "task_pool (set_ctx s t c) = task_pool s" "t_next (set_ctx s t c) = t_next s" "rq (set_ctx s t c) = rq s"
  "ready_bitmap (set_ctx s t c) = ready_bitmap s" "current_task (set_ctx s t c) = current_task s"
  "task_count (set_ctx s t c) = task_count s" "donated_priority (set_ctx s t c) = donated_priority s"
  "next_pid (set_ctx s t c) = next_pid s" "proc_ctx (set_ctx s t c) = proc_ctx s"
  "task_ctx (set_ctx s t c) = (task_ctx s)(t := c)" "need_resched (set_ctx s t c) = need_resched s"
  by (simp_all add: set_ctx_def)

lemma set_proc_simps [simp]:
  "task_pool (set_proc s t c) = task_pool s" "t_next (set_proc s t c) = t_next s" "rq (set_proc s t c) = rq s"
  "ready_bitmap (set_proc s t c) = ready_bitmap s" "current_task (set_proc s t c) = current_task s"
  "task_count (set_proc s t c) = task_count s" "donated_priority (set_proc s t c) = donated_priority s"
  "next_pid (set_proc s t c) = next_pid s" "proc_ctx (set_proc s t c) = (proc_ctx s)(t := c)"
  "task_ctx (set_proc s t c) = task_ctx s" "need_resched (set_proc s t c) = need_resched s"
  by (simp_all add: set_proc_def)

lemma task_alloc_allocated: "task_alloc s = Some (t, s1) \<Longrightarrow> allocated s t s1 \<and> proc_ctx s1 = proc_ctx s"
  by (auto simp: task_alloc_def allocated_def Let_def split: if_splits)

lemma allocated_tcb:
  "allocated s t s1 \<Longrightarrow> t_state b = TCB_READY \<Longrightarrow> t_pid b = t_pid (task_pool s1 t) \<Longrightarrow> allocated s t (set_tcb s1 t b)"
  by (auto simp: allocated_def)

lemma allocated_ctx: "allocated s t s1 \<Longrightarrow> allocated s t (set_ctx s1 t c)"
  by (auto simp: allocated_def)

lemma allocated_bind:
  assumes "allocated s t s1" "proc_ctx s1 = proc_ctx s" "task_bind_new_process s1 t mm ppid pgid sid = Some s2"
  shows "spawned s t s2"
proof -
  obtain i s3 c where a: "proc_alloc s1 mm (t_pid (task_pool s1 t)) ppid
      (if pgid \<noteq> 0 then pgid else t_pid (task_pool s1 t)) (if sid \<noteq> 0 then sid else t_pid (task_pool s1 t)) = Some (i, s3)"
    and s2: "s2 = set_ctx s3 t c" "c_proc_slot c = i"
    using assms(3) by (auto simp: task_bind_new_process_def Let_def split: option.splits)
  from a obtain p where "s3 = set_proc s1 i p" "i < SCHED_MAX_TASKS" "\<not> p_in_use (proc_ctx s1 i)"
    "p_in_use p" "\<not> p_waitable p" "p_refcount p = 1" by (rule proc_allocD)
  with assms(1,2) s2 show ?thesis by (auto simp: spawned_def allocated_def Let_def)
qed

lemma allocated_share:
  assumes al: "allocated s t s1" "proc_ctx s1 = proc_ctx s" and b: "task_bind_shared_process s1 t c = Some s2"
    and c: "c < task_count s" "state_of s c \<noteq> TCB_ZOMBIE" and inv: "proc_inv s"
  shows "spawned s t s2"
proof -
  let ?i = "c_proc_slot (task_ctx s c)"
  have tc: "t \<noteq> c" "task_ctx s1 c = task_ctx s c" using al c by (auto simp: allocated_def)
  have i: "?i < SCHED_MAX_TASKS" "p_in_use (proc_ctx s ?i)" "c \<in> live s ?i"
    using inv c by (auto simp: proc_inv_def live_def)
  then have "\<not> p_waitable (proc_ctx s ?i)" using inv by (auto simp: proc_inv_def)
  with i al b tc show ?thesis
    by (auto simp: task_bind_shared_process_def proc_retain_def proc_of_def spawned_def allocated_def Let_def
        split: option.splits if_splits)
qed

lemma spawned_ctx:
  "spawned s t s1 \<Longrightarrow> c_proc_slot c = c_proc_slot (task_ctx s1 t) \<Longrightarrow> spawned s t (set_ctx s1 t c)"
  by (auto simp: spawned_def allocated_def Let_def)

lemma spawned_limits:
  assumes "spawned s t s1" "c_proc_slot (task_ctx s1 t) = i"
  shows "spawned s t (set_proc s1 i ((proc_ctx s1 i)\<lparr>p_rlimits := r\<rparr>))"
  using assms by (auto simp: spawned_def allocated_def Let_def)

lemma spawned_stack: "spawned s t s1 \<Longrightarrow> spawned s t (task_setup_stack s1 t sp)"
  by (auto simp: spawned_def allocated_def Let_def task_setup_stack_def)

text \<open>The two ways a created task gets its process, after its fields have been set.\<close>

lemma spawn_new:
  assumes "task_alloc s = Some (t, s1)" "task_bind_new_process (set_ctx (set_tcb s1 t b) t c) t mm pp pg sd = Some s2"
    "t_state b = TCB_READY" "t_pid b = t_pid (task_pool s1 t)"
  shows "spawned s t s2"
proof -
  note a = task_alloc_allocated [OF assms(1)]
  have "allocated s t (set_ctx (set_tcb s1 t b) t c)"
    using a assms(3,4) by (intro allocated_ctx allocated_tcb) auto
  then show ?thesis by (rule allocated_bind [OF _ _ assms(2)]) (use a in simp)
qed

lemma spawn_shared:
  assumes "task_alloc s = Some (t, s1)" "task_bind_shared_process (set_tcb s1 t b) t c = Some s2"
    "t_state b = TCB_READY" "t_pid b = t_pid (task_pool s1 t)"
    "proc_inv s" "c < task_count s" "state_of s c \<noteq> TCB_ZOMBIE"
  shows "spawned s t s2"
proof -
  note a = task_alloc_allocated [OF assms(1)]
  have "allocated s t (set_tcb s1 t b)" using a assms(3,4) by (intro allocated_tcb) auto
  then show ?thesis by (rule allocated_share [OF _ _ assms(2,6,7,5)]) (use a in simp)
qed

lemma create_spawned:
  assumes "sched_task_create s stack name prio = Some (t, s')"
  shows "\<exists>s1. spawned s t s1 \<and> s' = resched_if_higher (rq_push s1 t) t"
  using assms unfolding sched_task_create_def Let_def
  apply (clarsimp simp: Option.bind_eq_Some_conv)
  apply (rule exI, rule conjI [OF _ refl], rule spawned_stack, rule spawn_new, assumption, assumption)
  by simp_all

lemma create_user_spawned:
  assumes "sched_task_create_user s stack name mm ua prio = Some (t, s')"
  shows "\<exists>s1. spawned s t s1 \<and> s' = resched_if_higher (rq_push s1 t) t"
  using assms unfolding sched_task_create_user_def Let_def
  apply (clarsimp simp: Option.bind_eq_Some_conv)
  apply (rule exI, rule conjI [OF _ refl], rule spawned_stack, rule spawn_new, assumption, assumption)
  by simp_all

lemma fork_user_spawned:
  assumes "sched_task_fork_user s stack name mm frame prio = Some (t, s')"
  shows "\<exists>s1. spawned s t s1 \<and> s' = resched_if_higher (rq_push s1 t) t"
proof -
  have lim: "spawned s t (case proc_of u (current_task u) of None \<Rightarrow> u
      | Some pp \<Rightarrow> (case proc_of u (Some t) of None \<Rightarrow> u
          | Some cp \<Rightarrow> set_proc u cp ((proc_ctx u cp)\<lparr>p_rlimits := r pp cp\<rparr>)))"
    if "spawned s t u" for u r
    using that by (auto simp: proc_of_def Let_def intro!: spawned_limits split: option.splits)
  show ?thesis
    using assms unfolding sched_task_fork_user_def Let_def
    apply (clarsimp simp: Option.bind_eq_Some_conv)
    apply (rule exI, rule conjI [OF _ refl], rule spawned_stack, rule spawned_ctx, rule lim, rule spawn_new,
        assumption, assumption)
    by simp_all
qed

lemma clone_spawned:
  assumes "sched_task_clone_user_thread s stack name frame ca prio = Some (t, s')" "proc_inv s" "sched_inv s"
  shows "\<exists>s1. spawned s t s1 \<and> s' = resched_if_higher (rq_push s1 t) t"
proof -
  obtain c where c: "current_task s = Some c" "c < task_count s" "state_of s c \<noteq> TCB_ZOMBIE"
    using sched_invE [OF assms(3)] by (metis tcb_state.distinct(5))
  have guard: "(if \<not> P then None else Some ()) = Some x \<longleftrightarrow> P" for P x by simp
  have cur: "current_task u = current_task s" if "task_alloc s = Some (t, u)" for u
    using task_alloc_allocated [OF that] by (simp add: allocated_def)
  show ?thesis
    using assms(1) unfolding sched_task_clone_user_thread_def Let_def
    apply (clarsimp simp: Option.bind_eq_Some_conv guard split del: if_split)
    apply (frule cur, simp only: c(1) option.inject, hypsubst)
    apply (rule exI, rule conjI [OF _ refl], rule spawned_stack, rule spawned_ctx, rule spawn_shared,
        assumption, assumption)
    by (simp_all add: assms(2) c)
qed

subsection \<open>Exit\<close>

text \<open>The clean-up hooks act on the scheduler by waking other tasks.\<close>

definition hooks_ok :: "(nat \<Rightarrow> sched \<Rightarrow> sched) \<Rightarrow> (nat \<Rightarrow> nat \<Rightarrow> u32 \<Rightarrow> sched \<Rightarrow> sched) \<Rightarrow> bool" where
  "hooks_ok hook last_hook \<longleftrightarrow>
     (\<forall>t s. \<exists>ws. hook t s = wake_all s ws \<and> (\<forall>w \<in> set ws. w < task_count s \<and> w \<noteq> t)) \<and>
     (\<forall>t slot parent s. \<exists>ws. last_hook t slot parent s = wake_all s ws \<and> (\<forall>w \<in> set ws. w < task_count s \<and> w \<noteq> t))"

lemma hooks_okD:
  assumes "hooks_ok hook last_hook"
  shows "\<exists>ws. hook t s = wake_all s ws \<and> (\<forall>w \<in> set ws. w < task_count s \<and> w \<noteq> t)"
    "\<exists>ws. last_hook t slot parent s = wake_all s ws \<and> (\<forall>w \<in> set ws. w < task_count s \<and> w \<noteq> t)"
  using assms unfolding hooks_ok_def by simp_all

lemma sched_inv_current:
  assumes "sched_inv s" "current_task s = Some c"
  shows "c < task_count s" "state_of s c = TCB_RUNNING"
  by (rule sched_invE [OF assms(1)]; use assms(2) in simp)+

text \<open>Marking a task as a zombie commutes with waking others.\<close>

lemma set_state_eff [simp]: "eff_prio_slot (set_state s t st) = eff_prio_slot s"
  by (auto simp: eff_prio_slot_def)

lemma rq_push_set_state: "rq_push (set_state s t st) w = set_state (rq_push s w) t st"
  by (simp add: rq_push_def set_state_def set_tcb_def eff_prio_slot_def Let_def split: prod.splits)

lemma resched_set_state: "resched_if_higher (set_state s t st) w = set_state (resched_if_higher s w) t st"
  by (simp add: resched_if_higher_def eff_prio_of_def eff_prio_slot_def set_state_def set_tcb_def split: option.splits)

lemma set_state_twist:
  "w \<noteq> t \<Longrightarrow> set_ticks (set_state (set_state s t st) w st') w n = set_state (set_ticks (set_state s w st') w n) t st"
  by (simp add: set_ticks_def set_state_def set_tcb_def fun_upd_twist)

lemma unblock_set_state:
  "w \<noteq> t \<Longrightarrow> sched_unblock (set_state s t st) (Some w) = set_state (sched_unblock s (Some w)) t st"
  by (simp add: sched_unblock_def set_state_twist rq_push_set_state resched_set_state)

lemma wake_all_set_state:
  "t \<notin> set ws \<Longrightarrow> wake_all (set_state s t st) ws = set_state (wake_all s ws) t st"
  by (induction ws arbitrary: s) (simp_all add: unblock_set_state)

text \<open>The scheduler invariant while a task exits: the current task may already be a zombie.\<close>

definition exit_inv :: "sched \<Rightarrow> bool" where
  "exit_inv s \<longleftrightarrow> (\<exists>qs. sched_wf s qs) \<and>
     (\<exists>c. current_task s = Some c \<and> (state_of s c = TCB_RUNNING \<or> state_of s c = TCB_ZOMBIE \<and> c \<noteq> IDLE_SLOT)) \<and>
     IDLE_SLOT < task_count s \<and> state_of s IDLE_SLOT \<in> {TCB_READY, TCB_RUNNING}"

lemma exit_inv_unblock:
  assumes inv: "exit_inv s" and t: "t < task_count s" shows "exit_inv (sched_unblock s (Some t))"
proof (cases "state_of s t = TCB_BLOCKED")
  case True
  obtain qs c where s: "sched_wf s qs" "current_task s = Some c"
    "state_of s c = TCB_RUNNING \<or> state_of s c = TCB_ZOMBIE \<and> c \<noteq> IDLE_SLOT"
    "IDLE_SLOT < task_count s" "state_of s IDLE_SLOT \<in> {TCB_READY, TCB_RUNNING}"
    using inv by (auto simp: exit_inv_def)
  have nc: "current_task s \<noteq> Some t" "t \<noteq> c" using s True by auto
  note u = sched_unblock_wf [OF s(1) t True nc(1) refl]
  show ?thesis
    unfolding exit_inv_def u(2-4) using u(1) s nc by auto
qed (use inv in \<open>simp add: sched_unblock_def\<close>)

lemma exit_inv_wake_all: "exit_inv s \<Longrightarrow> \<forall>w \<in> set ws. w < task_count s \<Longrightarrow> exit_inv (wake_all s ws)"
  by (induction ws arbitrary: s) (simp_all add: exit_inv_unblock)

lemma sched_wf_ctx: "sched_wf s qs \<Longrightarrow> sched_wf (set_ctx s t c) qs" "sched_wf s qs \<Longrightarrow> sched_wf (set_proc s i p) qs"
  by (erule sched_wf_cong; simp)+

lemma exit_inv_ctx: "exit_inv s \<Longrightarrow> exit_inv (set_ctx s t c)" "exit_inv s \<Longrightarrow> exit_inv (set_proc s i p)"
  by (auto simp: exit_inv_def intro: sched_wf_ctx)

lemma sched_inv_ctx: "sched_inv s \<Longrightarrow> sched_inv (set_ctx s t c)" "sched_inv s \<Longrightarrow> sched_inv (set_proc s i p)"
  by (auto simp: sched_inv_def intro: sched_wf_ctx)

lemma exit_inv_release: "exit_inv s \<Longrightarrow> exit_inv (snd (proc_release s i code))"
  by (auto simp: proc_release_def Let_def intro!: exit_inv_ctx split: option.splits)

lemma release_set_state:
  "snd (proc_release (set_state s t st) i code) = set_state (snd (proc_release s i code)) t st"
proof -
  have "proc_leader_task (set_state s t st) p = proc_leader_task s p" for p
  proof -
    have "(\<lambda>x. t_pid (task_pool (set_state s t st) x) = q) = (\<lambda>x. t_pid (task_pool s x) = q)" for q by auto
    then show ?thesis unfolding proc_leader_task_def sched_task_find_def by simp
  qed
  moreover have "set_proc (set_state s t st) i p = set_state (set_proc s i p) t st"
    "set_ctx (set_state s t st) l c = set_state (set_ctx s l c) t st" for p l c
    by (simp_all add: set_proc_def set_ctx_def set_state_def set_tcb_def)
  ultimately show ?thesis by (simp add: proc_release_def Let_def split: option.splits)
qed

text \<open>Taking a task off the CPU or out of its queue and marking it a zombie.\<close>

lemma sched_wf_zombie:
  assumes wf: "sched_wf s qs" and nc: "current_task s \<noteq> Some t"
    and q: "rqs s1 qs'" "\<And>r. r < 256 \<Longrightarrow> set (qs' r) = set (qs r) - {t}"
    and s1: "task_pool s1 = task_pool s" "task_count s1 = task_count s" "current_task s1 = current_task s"
      "donated_priority s1 = donated_priority s"
  shows "sched_wf (set_state s1 t TCB_ZOMBIE) qs'"
proof -
  have e: "eff_prio_slot s1 = eff_prio_slot s" using s1 by (auto simp: eff_prio_slot_def)
  obtain c where c: "current_task s = Some c" "c < task_count s" "state_of s c \<noteq> TCB_READY"
    "\<And>x. x < task_count s \<Longrightarrow> state_of s x = TCB_RUNNING \<Longrightarrow> x = c"
    using sched_wf_current [OF wf] by blast
  let ?s = "set_state s1 t TCB_ZOMBIE"
  show ?thesis
    unfolding sched_wf_def set_state_eff e
  proof (intro conjI allI impI ballI)
    show "rqs ?s qs'" using q(1) rqs_cong [of ?s s1 qs'] by simp
  next
    fix r x assume "r < 256" "x \<in> set (qs' r)"
    with sched_wfD(2) [OF wf, of r x] q(2) [of r] show "x < task_count ?s" "state_of ?s x = TCB_READY"
      "unat (eff_prio_slot s x) = r" using s1 by auto
  next
    fix x assume x: "x < task_count ?s" "state_of ?s x = TCB_READY"
    then have "x \<noteq> t" by auto
    with x sched_wfD(3) [OF wf, of x] q(2) [of "unat (eff_prio_slot s x)"] s1
    show "x \<in> set (qs' (unat (eff_prio_slot s x)))" by auto
  next
    show "\<exists>c < task_count ?s. current_task ?s = Some c \<and> state_of ?s c \<noteq> TCB_READY \<and>
        (\<forall>x < task_count ?s. state_of ?s x = TCB_RUNNING \<longrightarrow> x = c)"
      using c nc s1 by (intro exI [of _ c]) (auto split: if_splits)
  qed
qed

lemma dequeue_exit_inv:
  assumes inv: "sched_inv s" and t: "t < task_count s" "t \<noteq> IDLE_SLOT"
  obtains s1 where "(if current_task s \<noteq> Some t \<and> state_of s t = TCB_READY
      then do { (_, s') \<leftarrow> rq_remove s t (eff_prio_slot s t); Some s' } else Some s) = Some s1"
    "exit_inv (set_state s1 t TCB_ZOMBIE)" "proc_same s s1" "current_task s1 = current_task s"
    "task_pool s1 = task_pool s"
proof -
  obtain qs c where s: "sched_wf s qs" "current_task s = Some c" "state_of s c = TCB_RUNNING"
    "IDLE_SLOT < task_count s" "state_of s IDLE_SLOT \<in> {TCB_READY, TCB_RUNNING}"
    using sched_invE [OF inv] by metis
  have ex: "exit_inv (set_state s1 t TCB_ZOMBIE)" if "sched_wf (set_state s1 t TCB_ZOMBIE) qs'"
    "task_pool s1 = task_pool s" "task_count s1 = task_count s" "current_task s1 = current_task s" for s1 qs'
    using that s t unfolding exit_inv_def by auto
  consider "t = c" | "t \<noteq> c" "state_of s t = TCB_READY" | "t \<noteq> c" "state_of s t \<noteq> TCB_READY" by blast
  then show ?thesis
  proof cases
    case 1
    with sched_wf_leave [OF s(1,2), of TCB_ZOMBIE] ex [of s] that [of s] s(2) show ?thesis by simp
  next
    case 2
    let ?p = "unat (eff_prio_slot s t)"
    note q = sched_wfD(1) [OF s(1)]
    obtain s1 where s1: "rq_remove s t (eff_prio_slot s t) = Some (True, s1)" "rqs s1 (qs(?p := remove1 t (qs ?p)))"
      "task_pool s1 = task_pool s" "current_task s1 = current_task s" "task_count s1 = task_count s"
      "donated_priority s1 = donated_priority s"
      using rq_remove_rqs [OF q sched_wfD(3) [OF s(1) t(1) 2(2)]] by metis
    have "set ((qs(?p := remove1 t (qs ?p))) r) = set (qs r) - {t}" if "r < 256" for r
      using sched_wfD(2) [OF s(1) that, of t] rqsD(3) [OF q, of ?p] by (cases "r = ?p") auto
    then have "sched_wf (set_state s1 t TCB_ZOMBIE) (qs(?p := remove1 t (qs ?p)))"
      using s(2) 2(1) s1 by (intro sched_wf_zombie [OF s(1) _ s1(2)]) auto
    then show ?thesis
      using ex [of s1] that [of s1] s1 2 s(2) rq_remove_same [OF s1(1)] by simp
  next
    case 3
    have "set (qs r) = set (qs r) - {t}" if "r < 256" for r
      using sched_wf_not_queued [OF s(1) 3(2) that] by simp
    then have "sched_wf (set_state s t TCB_ZOMBIE) qs"
      using s(2) 3(1) by (intro sched_wf_zombie [OF s(1) _ sched_wfD(1) [OF s(1)]]) auto
    then show ?thesis using ex [of s] that [of s] 3 by simp
  qed
qed

lemma live_zombie:
  "t < task_count s \<Longrightarrow> live (set_state s t TCB_ZOMBIE) i = live s i - {t}"
  by (auto simp: live_def)

lemma proc_release_props:
  assumes "i < SCHED_MAX_TASKS" "p_in_use (proc_ctx s i)" "p_refcount (proc_ctx s i) \<noteq> 0"
  obtains s2 p where "snd (proc_release s i code) = set_proc s2 i p" "p_in_use p"
    "p_refcount p = p_refcount (proc_ctx s i) - 1"
    "p_waitable p \<longleftrightarrow> p_waitable (proc_ctx s i) \<or> p_refcount p = 0"
    "\<And>x. c_proc_slot (task_ctx s2 x) = c_proc_slot (task_ctx s x)" "task_pool s2 = task_pool s"
    "task_count s2 = task_count s" "next_pid s2 = next_pid s" "proc_ctx s2 = proc_ctx s"
proof (cases "p_refcount (proc_ctx s i) - 1 = 0")
  case True
  define q where "q = (proc_ctx s i)\<lparr>p_refcount := p_refcount (proc_ctx s i) - 1\<rparr>"
  define fc where "fc = (if p_group_exiting q then p_group_exit_code q else code)"
  define s2 where "s2 = (case proc_leader_task s q of None \<Rightarrow> s
      | Some l \<Rightarrow> set_ctx s l ((task_ctx s l)\<lparr>c_exit_code := fc\<rparr>))"
  have "snd (proc_release s i code) = set_proc s2 i
      (q\<lparr>p_waitable := True, p_wait_exit_code := fc, p_mm := mmu_kernel_space\<rparr>)"
    using assms True unfolding s2_def fc_def q_def proc_release_def Let_def by (simp split: option.splits)
  then show ?thesis
    by (rule that) (use True assms in \<open>auto simp: q_def s2_def split: option.splits\<close>)
next
  case False
  then have "snd (proc_release s i code) = set_proc s i ((proc_ctx s i)\<lparr>p_refcount := p_refcount (proc_ctx s i) - 1\<rparr>)"
    using assms by (simp add: proc_release_def Let_def)
  then show ?thesis by (rule that) (use False assms in auto)
qed

lemma proc_inv_release:
  assumes inv: "proc_inv s" and t: "t < task_count s" "state_of s t \<noteq> TCB_ZOMBIE"
    and i: "i = c_proc_slot (task_ctx s t)"
  shows "proc_inv (set_state (snd (proc_release s i code)) t TCB_ZOMBIE)"
proof -
  have i96: "i < SCHED_MAX_TASKS" "p_in_use (proc_ctx s i)" "t \<in> live s i"
    using inv t i by (auto simp: proc_inv_def live_def)
  have rc: "unat (p_refcount (proc_ctx s i)) = card (live s i)" "\<not> p_waitable (proc_ctx s i)"
    using inv i96 by (auto simp: proc_inv_def)
  have pos: "0 < card (live s i)" using i96(3) by (auto simp: card_gt_0_iff)
  then have nz: "p_refcount (proc_ctx s i) \<noteq> 0" using rc by auto
  obtain s2 p where r: "snd (proc_release s i code) = set_proc s2 i p" "p_in_use p"
    "p_refcount p = p_refcount (proc_ctx s i) - 1"
    "p_waitable p \<longleftrightarrow> p_waitable (proc_ctx s i) \<or> p_refcount p = 0"
    "\<And>x. c_proc_slot (task_ctx s2 x) = c_proc_slot (task_ctx s x)" "task_pool s2 = task_pool s"
    "task_count s2 = task_count s" "next_pid s2 = next_pid s" "proc_ctx s2 = proc_ctx s"
    using proc_release_props [OF i96(1,2) nz] by metis
  let ?s = "set_state (set_proc s2 i p) t TCB_ZOMBIE"
  have u: "unat (p_refcount p) = card (live s i - {t})"
    using rc(1) r(3) i96(3) nz by (simp add: unat_minus_one)
  have w: "p_waitable p \<longleftrightarrow> live s i - {t} = {}"
    using u r(4) rc(2) by (metis card_0_eq finite_Diff finite_live unat_eq_zero)
  have l: "live ?s j = live s j - {t}" for j using t r by (auto simp: live_def)
  have lj: "live s j - {t} = live s j" if "j \<noteq> i" for j using that i by (auto simp: live_def)
  show ?thesis
    unfolding r(1) proc_inv_def l
  proof (intro conjI allI impI)
    show "task_count ?s \<le> SCHED_MAX_TASKS" "next_pid ?s = word_of_nat (task_count ?s)"
      using inv r by (auto simp: proc_inv_def)
  next
    fix x assume x: "x < task_count ?s"
    then show "t_pid (task_pool ?s x) = word_of_nat x" "c_proc_slot (task_ctx ?s x) < SCHED_MAX_TASKS"
      using inv r t by (auto simp: proc_inv_def)
  next
    fix x assume "x < task_count ?s" "state_of ?s x \<noteq> TCB_ZOMBIE"
    then show "p_in_use (proc_ctx ?s (c_proc_slot (task_ctx ?s x)))"
      using inv r by (auto simp: proc_inv_def split: if_splits)
  next
    fix j assume j: "j < SCHED_MAX_TASKS" "p_in_use (proc_ctx ?s j)"
    show "unat (p_refcount (proc_ctx ?s j)) = card (live s j - {t})"
      "p_waitable (proc_ctx ?s j) \<longleftrightarrow> live s j - {t} = {}"
      using j u w r(9) inv lj [of j] by (cases "j = i"; simp add: proc_inv_def)+
  qed
qed

text \<open>One task exits: it becomes a zombie, everything else stays consistent.\<close>

lemma proc_inv_set_ctx:
  assumes "proc_inv s" "c_proc_slot c = c_proc_slot (task_ctx s t)" shows "proc_inv (set_ctx s t c)"
proof -
  have "c_proc_slot (task_ctx (set_ctx s t c) x) = c_proc_slot (task_ctx s x)" for x using assms(2) by simp
  then show ?thesis using assms(1) unfolding proc_inv_def live_def by simp
qed

lemma wake_all_states:
  "state_of (wake_all s ws) x = state_of s x \<or> state_of s x = TCB_BLOCKED \<and> state_of (wake_all s ws) x = TCB_READY"
proof (induction ws arbitrary: s)
  case (Cons w ws)
  have "state_of (sched_unblock s (Some w)) x = state_of s x \<or>
      state_of s x = TCB_BLOCKED \<and> state_of (sched_unblock s (Some w)) x = TCB_READY"
    by (simp add: sched_unblock_def)
  with Cons.IH [of "sched_unblock s (Some w)"] show ?case by auto
qed simp

lemma wake_all_ctx [simp]: "task_ctx (wake_all s ws) = task_ctx s"
  using wake_all_same [of s ws] by (simp add: proc_same_def)

lemma release_frame:
  "current_task (snd (proc_release s i code)) = current_task s"
  "task_count (snd (proc_release s i code)) = task_count s"
  "task_pool (snd (proc_release s i code)) = task_pool s"
  "c_proc_slot (task_ctx (snd (proc_release s i code)) x) = c_proc_slot (task_ctx s x)"
  by (auto simp: proc_release_def Let_def split: option.splits)

lemma release_proc_cong:
  assumes "proc_ctx s = proc_ctx u"
  shows "proc_ctx (snd (proc_release s i code)) = proc_ctx (snd (proc_release u i code))"
    "fst (proc_release s i code) = fst (proc_release u i code)"
  using assms by (auto simp: proc_release_def Let_def split: option.splits)

lemma rq_remove_proc: "rq_remove s t p = Some (b, s') \<Longrightarrow> proc_ctx s' = proc_ctx s"
  by (auto simp: rq_remove_def Option.bind_eq_Some_conv split: if_splits)

lemma finish_exit_inv:
  assumes h: "hooks_ok hook last_hook" and inv: "sched_inv s" "proc_inv s"
    and t: "t < task_count s" "t \<noteq> IDLE_SLOT" "state_of s t \<noteq> TCB_ZOMBIE"
  obtains d s' where "sched_task_finish_exit hook last_hook s t code = Some (d, s')" "exit_inv s'" "proc_inv s'"
    "current_task s' = current_task s" "task_count s' = task_count s" "state_of s' t = TCB_ZOMBIE"
    "\<And>x. x \<noteq> t \<Longrightarrow> state_of s' x = state_of s x \<or> state_of s x = TCB_BLOCKED \<and> state_of s' x = TCB_READY"
    "\<And>x. c_proc_slot (task_ctx s' x) = c_proc_slot (task_ctx s x)"
    "proc_ctx s' = proc_ctx (snd (proc_release s (c_proc_slot (task_ctx s t)) code))"
    "d = rel_destroyed (fst (proc_release s (c_proc_slot (task_ctx s t)) code))"
proof -
  let ?s0 = "set_ctx s t ((task_ctx s t)\<lparr>c_exit_code := code\<rparr>)"
  have inv0: "sched_inv ?s0" "proc_inv ?s0"
    using inv by (auto intro: sched_inv_ctx proc_inv_set_ctx)
  obtain s1 where s1: "(if current_task ?s0 \<noteq> Some t \<and> state_of ?s0 t = TCB_READY
      then do { (_, s') \<leftarrow> rq_remove ?s0 t (eff_prio_slot ?s0 t); Some s' } else Some ?s0) = Some s1"
    "exit_inv (set_state s1 t TCB_ZOMBIE)" "proc_same ?s0 s1" "current_task s1 = current_task ?s0"
    "task_pool s1 = task_pool ?s0"
    using dequeue_exit_inv [OF inv0(1), of t] t(1,2) by auto
  have c1: "task_count s1 = task_count s" "c_proc_slot (task_ctx s1 x) = c_proc_slot (task_ctx s x)" for x
    using s1(3) by (auto simp: proc_same_def)
  obtain ws where ws: "hook t s1 = wake_all s1 ws" "\<forall>w \<in> set ws. w < task_count s1 \<and> w \<noteq> t"
    using hooks_okD(1) [OF h, of t s1] by (elim exE conjE)
  let ?s2 = "wake_all s1 ws"
  let ?i = "c_proc_slot (task_ctx ?s2 t)"
  obtain r s3 where s3: "proc_release ?s2 ?i code = (r, s3)" by fastforce
  then have s3': "s3 = snd (proc_release ?s2 ?i code)" by simp
  obtain ws' where ws': "last_hook t ?i (rel_parent r) s3 = wake_all s3 ws'" "\<forall>w \<in> set ws'. w < task_count s3 \<and> w \<noteq> t"
    using hooks_okD(2) [OF h, of t ?i "rel_parent r" s3] by (elim exE conjE)
  define us where "us = (if rel_last r then ws' else [])"
  let ?s' = "set_state (wake_all s3 us) t TCB_ZOMBIE"
  have us: "\<forall>w \<in> set us. w < task_count s3" "t \<notin> set us" using ws' by (auto simp: us_def)
  have run: "sched_task_finish_exit hook last_hook s t code = Some (rel_destroyed r, ?s')"
    unfolding sched_task_finish_exit_def Let_def s1(1)
    using ws(1) s3 ws'(1) by (simp add: us_def)
  have comm: "?s' = wake_all (set_state s3 t TCB_ZOMBIE) us" by (rule wake_all_set_state [OF us(2), symmetric])
  have e2: "exit_inv (set_state ?s2 t TCB_ZOMBIE)"
    using exit_inv_wake_all [OF s1(2), of ws] ws(2) by (auto simp: wake_all_set_state)
  then have "exit_inv (set_state s3 t TCB_ZOMBIE)"
    unfolding s3' release_set_state [symmetric] by (rule exit_inv_release)
  then have e: "exit_inv ?s'" unfolding comm by (rule exit_inv_wake_all) (use us in simp)
  have "proc_inv ?s2" using proc_inv_same [OF proc_same_trans [OF s1(3) wake_all_same] inv0(2)] .
  moreover have "state_of ?s2 t \<noteq> TCB_ZOMBIE"
    using wake_all_states [of s1 ws t] s1(5) t(3) by auto
  ultimately have "proc_inv (set_state s3 t TCB_ZOMBIE)"
    unfolding s3' using proc_inv_release [of ?s2 t ?i code] t(1) c1 by simp
  then have p: "proc_inv ?s'" unfolding comm using proc_inv_same [OF wake_all_same] by blast
  have st: "state_of ?s' x = state_of s x \<or> state_of s x = TCB_BLOCKED \<and> state_of ?s' x = TCB_READY" if "x \<noteq> t" for x
    using that wake_all_states [of s1 ws x] wake_all_states [of s3 us x] s1(5)
    by (auto simp: s3' release_frame)
  have pc: "proc_ctx ?s2 = proc_ctx s"
    using s1(1) by (auto simp: Option.bind_eq_Some_conv dest!: rq_remove_proc split: if_splits)
  have r: "r = fst (proc_release ?s2 ?i code)" using s3 by simp
  note rel = release_proc_cong [OF pc, of ?i code]
  show ?thesis
    by (rule that [OF run e p _ _ _ st])
      (use s1(4) c1 rel r in \<open>simp_all add: s3' release_frame\<close>)
qed

lemma exit_inv_running:
  "exit_inv s \<Longrightarrow> current_task s = Some c \<Longrightarrow> state_of s c = TCB_RUNNING \<Longrightarrow> sched_inv s"
  by (auto simp: exit_inv_def sched_inv_def)

lemma exit_with_code_inv:
  assumes h: "hooks_ok hook last_hook" and inv: "sched_inv s" "proc_inv s"
    and c: "current_task s = Some c" "c \<noteq> IDLE_SLOT"
  obtains d s' where "sched_task_exit_with_code hook last_hook s code = Some (d, s')" "sched_inv s'" "proc_inv s'"
    "task_count s' = task_count s" "state_of s' c = TCB_ZOMBIE"
proof -
  have cs: "c < task_count s" "state_of s c \<noteq> TCB_ZOMBIE" using sched_inv_current [OF inv(1) c(1)] by auto
  obtain d s1 where s1: "sched_task_finish_exit hook last_hook s c code = Some (d, s1)" "exit_inv s1" "proc_inv s1"
    "current_task s1 = current_task s" "task_count s1 = task_count s" "state_of s1 c = TCB_ZOMBIE"
    using finish_exit_inv [OF h inv cs(1) c(2) cs(2)] by metis
  obtain qs where wf: "sched_wf s1 qs" using s1(2) by (auto simp: exit_inv_def)
  obtain s2 where s2: "schedule_locked s1 = Some s2" "sched_inv s2" "task_count s2 = task_count s1"
    by (rule schedule_locked_inv [OF wf]) (use s1(2,4) c in \<open>auto simp: exit_inv_def\<close>)
  have "proc_same s1 s2" using schedule_same s2(1) by (simp add: schedule_def)
  then have "proc_inv s2" "state_of s2 c = TCB_ZOMBIE" using proc_inv_same s1(3,6) by (auto simp: proc_same_def)
  then show ?thesis
    using that [of d s2] s1 s2 c(1) by (simp add: sched_task_exit_with_code_def schedule_def)
qed

lemma finish_exit_all_inv:
  assumes h: "hooks_ok hook last_hook" and inv: "sched_inv s" "proc_inv s"
    and c: "current_task s = Some c" and idle: "c_proc_slot (task_ctx s IDLE_SLOT) \<noteq> slot"
    and "is": "\<forall>i \<in> set is. i < task_count s"
  shows "\<exists>ds s'. finish_exit_all hook last_hook slot code is s = Some (ds, s') \<and> sched_inv s' \<and> proc_inv s' \<and>
    current_task s' = Some c \<and> task_count s' = task_count s \<and>
    (\<forall>x. c_proc_slot (task_ctx s' x) = c_proc_slot (task_ctx s x)) \<and>
    (\<forall>x. state_of s x = TCB_ZOMBIE \<longrightarrow> state_of s' x = TCB_ZOMBIE) \<and>
    (\<forall>i \<in> set is. i \<noteq> c \<and> c_proc_slot (task_ctx s i) = slot \<longrightarrow> state_of s' i = TCB_ZOMBIE)"
  using inv c idle "is"
proof (induction "is" arbitrary: s)
  case (Cons i "is")
  have cr: "state_of s c = TCB_RUNNING" using sched_inv_current [OF Cons.prems(1,3)] by simp
  show ?case
  proof (cases "current_task s = Some i \<or> state_of s i = TCB_ZOMBIE \<or> c_proc_slot (task_ctx s i) \<noteq> slot")
    case True
    obtain ds s' where IH: "finish_exit_all hook last_hook slot code is s = Some (ds, s')" "sched_inv s'" "proc_inv s'"
      "current_task s' = Some c" "task_count s' = task_count s"
      "\<forall>x. c_proc_slot (task_ctx s' x) = c_proc_slot (task_ctx s x)"
      "\<forall>x. state_of s x = TCB_ZOMBIE \<longrightarrow> state_of s' x = TCB_ZOMBIE"
      "\<forall>i \<in> set is. i \<noteq> c \<and> c_proc_slot (task_ctx s i) = slot \<longrightarrow> state_of s' i = TCB_ZOMBIE"
      using Cons.IH [OF Cons.prems(1-4)] Cons.prems(5) by auto
    then show ?thesis using True Cons.prems(3) by (intro exI [of _ ds] exI [of _ s']) auto
  next
    case False
    then have i: "i < task_count s" "i \<noteq> IDLE_SLOT" "state_of s i \<noteq> TCB_ZOMBIE" "i \<noteq> c"
      using Cons.prems by auto
    obtain d s1 where s1: "sched_task_finish_exit hook last_hook s i code = Some (d, s1)" "exit_inv s1" "proc_inv s1"
      "current_task s1 = current_task s" "task_count s1 = task_count s" "state_of s1 i = TCB_ZOMBIE"
      "\<And>x. x \<noteq> i \<Longrightarrow> state_of s1 x = state_of s x \<or> state_of s x = TCB_BLOCKED \<and> state_of s1 x = TCB_READY"
      "\<And>x. c_proc_slot (task_ctx s1 x) = c_proc_slot (task_ctx s x)"
      using finish_exit_inv [OF h Cons.prems(1,2) i(1-3)] by metis
    have "state_of s1 c = TCB_RUNNING" using s1(7) [of c] i(4) cr by auto
    then have "sched_inv s1" using exit_inv_running s1(2,4) Cons.prems(3) by simp
    then obtain ds s' where IH: "finish_exit_all hook last_hook slot code is s1 = Some (ds, s')" "sched_inv s'" "proc_inv s'"
      "current_task s' = Some c" "task_count s' = task_count s1"
      "\<forall>x. c_proc_slot (task_ctx s' x) = c_proc_slot (task_ctx s1 x)"
      "\<forall>x. state_of s1 x = TCB_ZOMBIE \<longrightarrow> state_of s' x = TCB_ZOMBIE"
      "\<forall>i \<in> set is. i \<noteq> c \<and> c_proc_slot (task_ctx s1 i) = slot \<longrightarrow> state_of s' i = TCB_ZOMBIE"
      using Cons.IH [of s1] Cons.prems(3-5) s1(3-5,8) by auto
    have z: "state_of s1 x = TCB_ZOMBIE" if "state_of s x = TCB_ZOMBIE" for x
      using s1(6,7) that by (metis tcb_state.distinct(11))
    show ?thesis
      using False s1(1,5,6,8) IH z by (intro exI [of _ "case d of None \<Rightarrow> ds | Some m \<Rightarrow> m # ds"] exI [of _ s']) auto
  qed
qed auto

subsection \<open>Boot\<close>

lemma task_alloc_Some:
  "task_count s < SCHED_MAX_TASKS \<Longrightarrow> \<exists>s1. task_alloc s = Some (task_count s, s1)"
  by (simp add: task_alloc_def Let_def)

lemma task_bind_new_Some:
  assumes "i < SCHED_MAX_TASKS" "\<not> p_in_use (proc_ctx s i)"
  shows "\<exists>s1. task_bind_new_process s t mm pp pg sd = Some s1"
proof -
  obtain k where "for_find (\<lambda>i. \<not> p_in_use (proc_ctx s i)) 0 SCHED_MAX_TASKS = Some k"
    using for_find_exists [of "\<lambda>i. \<not> p_in_use (proc_ctx s i)" 0 SCHED_MAX_TASKS] assms by auto
  then show ?thesis by (simp add: task_bind_new_process_def proc_alloc_def Let_def)
qed

lemma task_bind_new_shape:
  assumes "task_bind_new_process s t mm pp pg sd = Some s'"
  obtains i p c where "s' = set_ctx (set_proc s i p) t c" "c_proc_slot c = i" "i < SCHED_MAX_TASKS"
    "\<not> p_in_use (proc_ctx s i)" "p_in_use p" "\<not> p_waitable p" "p_refcount p = 1"
proof -
  obtain i s1 c where a: "proc_alloc s mm (t_pid (task_pool s t)) pp
      (if pg \<noteq> 0 then pg else t_pid (task_pool s t)) (if sd \<noteq> 0 then sd else t_pid (task_pool s t)) = Some (i, s1)"
    and s': "s' = set_ctx s1 t c" "c_proc_slot c = i"
    using assms by (auto simp: task_bind_new_process_def Let_def split: option.splits)
  from a obtain p where "s1 = set_proc s i p" "i < SCHED_MAX_TASKS" "\<not> p_in_use (proc_ctx s i)"
    "p_in_use p" "\<not> p_waitable p" "p_refcount p = 1" by (rule proc_allocD)
  with s' that show ?thesis by blast
qed

text \<open>One boot task: allocated, filled in, bound to a new process.\<close>

lemma boot_task:
  assumes inv: "proc_inv s" and n: "task_count s < SCHED_MAX_TASKS"
    and free: "i0 < SCHED_MAX_TASKS" "\<not> p_in_use (proc_ctx s i0)"
    and b: "\<And>s1. task_alloc s = Some (task_count s, s1) \<Longrightarrow>
      t_pid (b s1) = next_pid s \<and> t_state (b s1) = st" "st \<noteq> TCB_ZOMBIE"
  obtains s1 s2 i where "task_alloc s = Some (task_count s, s1)"
    "task_bind_new_process (set_tcb s1 (task_count s) (b s1)) (task_count s) mm pp (pg s1) (sd s1) = Some s2"
    "proc_inv s2" "task_count s2 = Suc (task_count s)" "next_pid s2 = next_pid s + 1"
    "task_pool s2 = (task_pool s)(task_count s := b s1)"
    "t_next s2 = (t_next s)(task_count s := None)" "rq s2 = rq s" "ready_bitmap s2 = ready_bitmap s"
    "current_task s2 = current_task s" "donated_priority s2 = (donated_priority s)(task_count s := 0xFF)"
    "\<And>j. j \<noteq> i \<Longrightarrow> p_in_use (proc_ctx s2 j) = p_in_use (proc_ctx s j)"
    "c_proc_slot (task_ctx s2 (task_count s)) = i" "\<not> p_in_use (proc_ctx s i)" "p_in_use (proc_ctx s2 i)"
    "\<And>x. x \<noteq> task_count s \<Longrightarrow> task_ctx s2 x = task_ctx s x"
proof -
  let ?t = "task_count s"
  obtain s1 where a: "task_alloc s = Some (?t, s1)" using task_alloc_Some [OF n] by blast
  note al = task_alloc_allocated [OF a]
  have f: "t_next s1 = (t_next s)(?t := None)" "rq s1 = rq s" "ready_bitmap s1 = ready_bitmap s"
    "task_count s1 = Suc ?t" "next_pid s1 = next_pid s + 1" "current_task s1 = current_task s"
    "donated_priority s1 = (donated_priority s)(?t := 0xFF)"
    "\<And>x. x \<noteq> ?t \<Longrightarrow> task_pool s1 x = task_pool s x \<and> task_ctx s1 x = task_ctx s x" "proc_ctx s1 = proc_ctx s"
    using al by (auto simp: allocated_def)
  let ?u = "set_tcb s1 ?t (b s1)"
  obtain s2 where bind: "task_bind_new_process ?u ?t mm pp (pg s1) (sd s1) = Some s2"
    using task_bind_new_Some [of i0 ?u ?t mm pp "pg s1" "sd s1"] free f(9) by auto
  obtain i p c where s2: "s2 = set_ctx (set_proc ?u i p) ?t c" "c_proc_slot c = i" "i < SCHED_MAX_TASKS"
    "\<not> p_in_use (proc_ctx ?u i)" "p_in_use p" "\<not> p_waitable p" "p_refcount p = 1"
    using task_bind_new_shape [OF bind] by metis
  have "live s i = {}" using inv s2(4) f(9) by (auto simp: live_def proc_inv_def)
  moreover have "task_ctx s2 = (task_ctx s)(?t := c)" "task_pool s2 = (task_pool s)(?t := b s1)"
    using f(8) by (auto simp: s2(1) fun_eq_iff)
  ultimately have "proc_inv s2"
    using b(1) [OF a] b(2) f s2 n
    by (intro proc_inv_add [OF inv refl n, where c = c and i = i and p = p]) auto
  then show ?thesis
    using a bind f \<open>task_pool s2 = (task_pool s)(?t := b s1)\<close>
    by (intro that [of s1 s2 i]) (use s2(2-5) in \<open>auto simp: s2(1)\<close>)
qed

lemma proc_inv_bss: "proc_inv sched_bss"
  by (simp add: proc_inv_def sched_bss_def zero_proc_def SCHED_MAX_TASKS_def live_def)

lemma proc_inv_current: "proc_inv s \<Longrightarrow> proc_inv (s\<lparr>current_task := c\<rparr>)"
  by (simp add: proc_inv_def live_def)

lemma sched_init_inv:
  obtains s where "sched_init = Some s" "sched_inv s" "proc_inv s" "task_count s = 2" "current_task s = Some 0"
    "c_proc_slot (task_ctx s 1) \<noteq> c_proc_slot (task_ctx s 0)" "\<exists>j < SCHED_MAX_TASKS. \<not> p_in_use (proc_ctx s j)"
proof -
  define kb where "kb u = (task_pool u 0)\<lparr>t_name := ''kernel'', t_priority := PRIO_KERNEL,
    t_state := TCB_RUNNING, t_flags := TCB_FLAG_KERNEL, t_ticks_left := SCHED_TICK_QUANTUM\<rparr>" for u :: sched
  define ib where "ib u = (task_pool u 1)\<lparr>t_name := ''idle'', t_priority := PRIO_IDLE,
    t_state := TCB_READY, t_flags := TCB_FLAG_KERNEL OR TCB_FLAG_IDLE, t_ticks_left := 0xFF\<rparr>" for u :: sched
  have pid: "t_pid (task_pool u (task_count v)) = next_pid v" if "task_alloc v = Some (task_count v, u)" for u v
    using task_alloc_allocated [OF that] by (simp add: allocated_def)
  have c0: "task_count sched_bss = 0" "\<not> p_in_use (proc_ctx sched_bss i)" for i
    by (simp_all add: sched_bss_def zero_proc_def)
  have n0: "task_count sched_bss < SCHED_MAX_TASKS" "(0 :: nat) < SCHED_MAX_TASKS"
    by (simp_all add: c0 SCHED_MAX_TASKS_def)
  have kb: "t_pid (kb u) = next_pid sched_bss \<and> t_state (kb u) = TCB_RUNNING"
    if "task_alloc sched_bss = Some (task_count sched_bss, u)" for u
    using pid [OF that] by (simp add: kb_def c0)
  let ?kp = "\<lambda>u. t_pid (task_pool (set_tcb u 0 (kb u)) 0)"
  note bt = boot_task [where b = kb and mm = mmu_kernel_space and pp = 0 and pg = ?kp and sd = ?kp,
      OF proc_inv_bss n0 c0(2) kb tcb_state.distinct(5), unfolded c0(1)]
  obtain a k i where k: "task_alloc sched_bss = Some (0, a)"
    "task_bind_new_process (set_tcb a 0 (kb a)) 0 mmu_kernel_space 0 (?kp a) (?kp a) = Some k"
    "proc_inv k" "task_count k = Suc 0" "next_pid k = next_pid sched_bss + 1" "task_pool k = (task_pool sched_bss)(0 := kb a)"
    "t_next k = (t_next sched_bss)(0 := None)" "rq k = rq sched_bss" "ready_bitmap k = ready_bitmap sched_bss"
    "current_task k = current_task sched_bss" "donated_priority k = (donated_priority sched_bss)(0 := 0xFF)"
    "\<And>j. j \<noteq> i \<Longrightarrow> p_in_use (proc_ctx k j) = p_in_use (proc_ctx sched_bss j)"
    "c_proc_slot (task_ctx k 0) = i" "p_in_use (proc_ctx k i)"
    by (rule bt, assumption, rule that; assumption)
  let ?k = "k\<lparr>current_task := Some 0\<rparr>"
  obtain j where j: "j < SCHED_MAX_TASKS" "\<not> p_in_use (proc_ctx ?k j)"
    using k(12) [of "if i = 0 then 1 else 0"] c0 that [of "if i = 0 then 1 else 0"]
    by (auto simp: SCHED_MAX_TASKS_def split: if_splits)
  have n1: "task_count ?k < SCHED_MAX_TASKS" "task_count ?k = 1" using k(4) by (simp_all add: SCHED_MAX_TASKS_def)
  have ib: "t_pid (ib u) = next_pid ?k \<and> t_state (ib u) = TCB_READY"
    if "task_alloc ?k = Some (task_count ?k, u)" for u
    using pid [OF that] by (simp add: ib_def k(4))
  let ?ip = "\<lambda>u. t_pid (task_pool (set_tcb u 1 (ib u)) 1)"
  note bt = boot_task [where b = ib and mm = mmu_kernel_space and pp = 0 and pg = ?ip and sd = ?ip,
      OF proc_inv_current [OF k(3)] n1(1) j ib tcb_state.distinct(9), unfolded n1(2)]
  obtain b g l where g: "task_alloc ?k = Some (1, b)"
    "task_bind_new_process (set_tcb b 1 (ib b)) 1 mmu_kernel_space 0 (?ip b) (?ip b) = Some g"
    "proc_inv g" "task_count g = Suc 1" "task_pool g = (task_pool ?k)(1 := ib b)"
    "t_next g = (t_next ?k)(1 := None)" "rq g = rq ?k" "ready_bitmap g = ready_bitmap ?k" "current_task g = current_task ?k"
    "donated_priority g = (donated_priority ?k)(1 := 0xFF)"
    "\<And>j. j \<noteq> l \<Longrightarrow> p_in_use (proc_ctx g j) = p_in_use (proc_ctx ?k j)"
    "c_proc_slot (task_ctx g 1) = l" "\<not> p_in_use (proc_ctx ?k l)" "\<And>x. x \<noteq> 1 \<Longrightarrow> task_ctx g x = task_ctx ?k x"
    by (rule bt, assumption, rule that; assumption)
  have init: "sched_init = Some (rq_push g 1)"
    using k(1,2) g(1,2) unfolding kb_def ib_def by (simp add: sched_init_def Let_def)
  have "rqs ?k (\<lambda>_. [])"
    using k(7-9) by (simp add: rqs_def fifo_rep_def sched_bss_def bm_bit_def)
  then have "sched_wf ?k (\<lambda>_. [])"
    using k(4,6) by (auto simp: sched_wf_def kb_def)
  then have wf: "sched_wf (rq_push g 1) ((\<lambda>_. [])(unat (eff_prio_slot g 1) := [1]))"
    using sched_wf_new_task [of ?k "\<lambda>_. []" 1 g "0xFF" "ib b" "unat (eff_prio_slot g 1)"] k(4) g by (simp add: ib_def)
  have "sched_inv (rq_push g 1)"
    by (rule sched_invI [OF wf, of 0]) (use g k(6) in \<open>auto simp: IDLE_SLOT_def kb_def ib_def\<close>)
  moreover have "proc_inv (rq_push g 1)"
    using g(3) by (rule proc_inv_same [rotated]) (simp add: proc_same_def)
  moreover have "c_proc_slot (task_ctx g 1) \<noteq> c_proc_slot (task_ctx g 0)" using g(12-14) k(13,14) by auto
  moreover have "\<exists>j < SCHED_MAX_TASKS. \<not> p_in_use (proc_ctx g j)"
  proof -
    obtain j where "j < SCHED_MAX_TASKS" "j \<noteq> i" "j \<noteq> l"
    proof (rule that)
      define j :: nat where "j = (if i \<noteq> 0 \<and> l \<noteq> 0 then 0 else if i \<noteq> 1 \<and> l \<noteq> 1 then 1 else 2)"
      show "j < SCHED_MAX_TASKS" "j \<noteq> i" "j \<noteq> l" by (auto simp: j_def SCHED_MAX_TASKS_def)
    qed
    then show ?thesis using g(11) [of j] k(12) [of j] c0 by auto
  qed
  ultimately show ?thesis using that [OF init] g(4,9) by simp
qed

subsection \<open>Step relation\<close>

definition task_inv :: "sched \<Rightarrow> bool" where
  "task_inv s \<longleftrightarrow> sched_inv s \<and> proc_inv s"

inductive task_step :: "sched \<Rightarrow> sched \<Rightarrow> bool" where
  sched: "sched_step s s' \<Longrightarrow> task_step s s'"
| create: "sched_task_create s stack name prio = Some (t, s') \<Longrightarrow> task_step s s'"
| create_user: "sched_task_create_user s stack name mm ua prio = Some (t, s') \<Longrightarrow> task_step s s'"
| fork: "sched_task_fork_user s stack name mm frame prio = Some (t, s') \<Longrightarrow> task_step s s'"
| clone: "sched_task_clone_user_thread s stack name frame ca prio = Some (t, s') \<Longrightarrow> task_step s s'"
| exit: "hooks_ok hook last_hook \<Longrightarrow> current_task s \<noteq> Some IDLE_SLOT \<Longrightarrow>
    sched_task_exit_with_code hook last_hook s code = Some (d, s') \<Longrightarrow> task_step s s'"
| exit_group: "hooks_ok hook last_hook \<Longrightarrow> current_task s = Some c \<Longrightarrow>
    c_proc_slot (task_ctx s IDLE_SLOT) \<noteq> c_proc_slot (task_ctx s c) \<Longrightarrow>
    sched_task_begin_exit_group hook last_hook s code = Some (ds, s') \<Longrightarrow> task_step s s'"
| reap: "sched_task_is_process_waitable s (Some t) \<Longrightarrow> task_step s (sched_task_mark_reaped s (Some t))"
| setpgid: "sched_task_setpgid s caller target pgid = (r, s') \<Longrightarrow> task_step s s'"
| setsid: "sched_task_setsid s task = (r', s') \<Longrightarrow> task_step s s'"
| abi: "sched_task_set_abi_mode s task m = Some s' \<Longrightarrow> task_step s s'"
| exec_path: "sched_task_set_exec_path s task path = Some s' \<Longrightarrow> task_step s s'"
| tpidr: "task_step s (sched_task_set_tpidr s task v)"
| clear_tid: "sched_task_set_clear_tid s task v = Some s' \<Longrightarrow> task_step s s'"
| rlimit: "sched_proc_set_rlimit s task res inp = Some s' \<Longrightarrow> task_step s s'"
| itimer: "task_step s (sched_proc_set_itimer s now task val ivl)"
| rebind: "sched_task_rebind_user s task mm ua = Some s' \<Longrightarrow> task_step s s'"

lemma task_inv_set_proc:
  "task_inv s \<Longrightarrow> p_in_use q = p_in_use (proc_ctx s i) \<Longrightarrow> p_refcount q = p_refcount (proc_ctx s i) \<Longrightarrow>
   p_waitable q = p_waitable (proc_ctx s i) \<Longrightarrow> task_inv (set_proc s i q)"
  by (simp add: task_inv_def sched_inv_ctx proc_inv_set_proc)

lemma task_inv_set_ctx:
  "task_inv s \<Longrightarrow> c_proc_slot c = c_proc_slot (task_ctx s t) \<Longrightarrow> task_inv (set_ctx s t c)"
  by (simp add: task_inv_def sched_inv_ctx proc_inv_set_ctx)

lemma task_inv_spawned:
  "spawned s t s1 \<Longrightarrow> task_inv s \<Longrightarrow> task_inv (resched_if_higher (rq_push s1 t) t)"
  by (simp add: task_inv_def spawned_inv)

lemma proc_inv_reap:
  assumes inv: "proc_inv s" and w: "sched_task_is_process_waitable s (Some t)"
  shows "proc_inv (sched_task_mark_reaped s (Some t))"
proof -
  obtain p where p: "proc_of s (Some t) = Some p" "p_waitable (proc_ctx s p)" "p_in_use (proc_ctx s p)"
    "p < SCHED_MAX_TASKS"
    using w by (auto simp: sched_task_is_process_waitable_def proc_of_def Let_def split: option.splits if_splits)
  then have "live s p = {}" using inv by (auto simp: proc_inv_def)
  then have nl: "c_proc_slot (task_ctx s x) \<noteq> p" if "x < task_count s" "state_of s x \<noteq> TCB_ZOMBIE" for x
    using that by (auto simp: live_def)
  have l: "live (set_proc s p q) = live s" for q by (simp add: live_def fun_eq_iff)
  show ?thesis
    using inv nl unfolding sched_task_mark_reaped_def p(1) option.case proc_inv_def l by (auto split: if_splits)
qed

lemma task_inv_exit:
  assumes inv: "task_inv s" and h: "hooks_ok hook last_hook" and c: "current_task s \<noteq> Some IDLE_SLOT"
    and run: "sched_task_exit_with_code hook last_hook s code = Some (d, s')"
  shows "task_inv s'"
proof -
  obtain k where k: "current_task s = Some k" using inv by (auto simp: task_inv_def sched_inv_def)
  have a: "sched_inv s" "proc_inv s" "k \<noteq> IDLE_SLOT" using inv c k by (auto simp: task_inv_def)
  obtain d1 s1 where "sched_task_exit_with_code hook last_hook s code = Some (d1, s1)" "sched_inv s1" "proc_inv s1"
    by (rule exit_with_code_inv [OF h a(1,2) k a(3), of code])
  with run show ?thesis by (simp add: task_inv_def)
qed

lemma task_inv_group_exit_flag: "task_inv s \<Longrightarrow> task_inv (proc_set_group_exit s i code)"
  by (simp add: proc_set_group_exit_def task_inv_set_proc)

lemma group_exit_run:
  assumes inv: "task_inv s" and h: "hooks_ok hook last_hook" and c: "current_task s = Some c"
    and idle: "c_proc_slot (task_ctx s IDLE_SLOT) \<noteq> c_proc_slot (task_ctx s c)"
  obtains ds s' where "sched_task_begin_exit_group hook last_hook s code = Some (ds, s')" "task_inv s'"
    "current_task s' = Some c" "task_count s' = task_count s"
    "\<And>x. c_proc_slot (task_ctx s' x) = c_proc_slot (task_ctx s x)"
    "\<And>i. i < task_count s \<Longrightarrow> i \<noteq> c \<Longrightarrow> c_proc_slot (task_ctx s i) = c_proc_slot (task_ctx s c) \<Longrightarrow>
       state_of s' i = TCB_ZOMBIE"
proof -
  let ?i = "c_proc_slot (task_ctx s c)" let ?s = "proc_set_group_exit s ?i code"
  have f: "current_task ?s = current_task s" "task_count ?s = task_count s" "task_ctx ?s = task_ctx s"
    "task_pool ?s = task_pool s" by (simp_all add: proc_set_group_exit_def)
  have i1: "sched_inv ?s" "proc_inv ?s" using task_inv_group_exit_flag [OF inv] by (auto simp: task_inv_def)
  have "\<exists>ds s'. finish_exit_all hook last_hook ?i code [0..<task_count s] ?s = Some (ds, s') \<and> sched_inv s' \<and>
      proc_inv s' \<and> current_task s' = Some c \<and> task_count s' = task_count ?s \<and>
      (\<forall>x. c_proc_slot (task_ctx s' x) = c_proc_slot (task_ctx ?s x)) \<and>
      (\<forall>x. state_of ?s x = TCB_ZOMBIE \<longrightarrow> state_of s' x = TCB_ZOMBIE) \<and>
      (\<forall>i \<in> set [0..<task_count s]. i \<noteq> c \<and> c_proc_slot (task_ctx ?s i) = ?i \<longrightarrow> state_of s' i = TCB_ZOMBIE)"
    by (rule finish_exit_all_inv [OF h i1]) (use c idle f in auto)
  then obtain ds s' where r: "finish_exit_all hook last_hook ?i code [0..<task_count s] ?s = Some (ds, s')"
    "sched_inv s'" "proc_inv s'" "current_task s' = Some c" "task_count s' = task_count ?s"
    "\<forall>x. c_proc_slot (task_ctx s' x) = c_proc_slot (task_ctx ?s x)"
    "\<forall>i \<in> set [0..<task_count s]. i \<noteq> c \<and> c_proc_slot (task_ctx ?s i) = ?i \<longrightarrow> state_of s' i = TCB_ZOMBIE"
    by (elim exE conjE)
  have "sched_task_begin_exit_group hook last_hook s code = Some (ds, s')"
    using r(1) c by (simp add: sched_task_begin_exit_group_def Let_def)
  then show ?thesis by (rule that) (use r f in \<open>auto simp: task_inv_def\<close>)
qed

lemma task_inv_settings:
  assumes inv: "task_inv s"
  shows "sched_task_setpgid s caller target pgid = (r, s') \<Longrightarrow> task_inv s'"
    "sched_task_setsid s task = (r', s') \<Longrightarrow> task_inv s'"
    "sched_task_set_abi_mode s task m = Some s' \<Longrightarrow> task_inv s'"
    "sched_task_set_exec_path s task path = Some s' \<Longrightarrow> task_inv s'"
    "task_inv (sched_task_set_tpidr s task v)"
    "sched_task_set_clear_tid s task v = Some s' \<Longrightarrow> task_inv s'"
    "sched_proc_set_rlimit s task res inp = Some s' \<Longrightarrow> task_inv s'"
    "task_inv (sched_proc_set_itimer s now task val ivl)"
  using inv
  by (auto simp: sched_task_setpgid_def sched_task_setsid_def sched_task_set_abi_mode_def
      sched_task_set_exec_path_def sched_task_set_tpidr_def sched_task_set_clear_tid_def
      sched_proc_set_rlimit_def sched_proc_set_itimer_def Let_def
      intro!: task_inv_set_proc task_inv_set_ctx split: option.splits if_splits)

lemma task_inv_rebind: "task_inv s \<Longrightarrow> sched_task_rebind_user s task mm ua = Some s' \<Longrightarrow> task_inv s'"
proof -
  assume inv: "task_inv s" and r: "sched_task_rebind_user s task mm ua = Some s'"
  have "task_inv (set_tcb s t ((task_pool s t)\<lparr>t_flags := fl\<rparr>))" for t fl
    using inv proc_inv_same [of s "set_tcb s t ((task_pool s t)\<lparr>t_flags := fl\<rparr>)"]
    by (simp add: task_inv_def sched_inv_account proc_same_def)
  with r show ?thesis
    by (auto simp: sched_task_rebind_user_def Let_def intro!: task_inv_set_proc task_inv_set_ctx
        split: option.splits prod.splits)
qed

lemma task_step_inv:
  assumes inv: "task_inv s" and step: "task_step s s'" shows "task_inv s'"
  using step
proof cases
  case sched
  then show ?thesis
    using inv sched_step_inv [of s s'] sched_step_same [of s s'] proc_inv_same [of s s'] by (simp add: task_inv_def)
next
  case create then show ?thesis using inv task_inv_spawned create_spawned by metis
next
  case create_user then show ?thesis using inv task_inv_spawned create_user_spawned by metis
next
  case fork then show ?thesis using inv task_inv_spawned fork_user_spawned by metis
next
  case clone then show ?thesis using inv task_inv_spawned clone_spawned unfolding task_inv_def by metis
next
  case exit then show ?thesis using task_inv_exit [OF inv] by blast
next
  case (exit_group hook last_hook c code ds)
  obtain ds' s1 where "sched_task_begin_exit_group hook last_hook s code = Some (ds', s1)" "task_inv s1"
    by (rule group_exit_run [OF inv exit_group(1-3)])
  with exit_group show ?thesis by simp
next
  case (reap t)
  then show ?thesis
    using inv proc_inv_reap [of s t]
    by (auto simp: task_inv_def sched_task_mark_reaped_def sched_inv_ctx split: option.splits)
next
  case rebind then show ?thesis using task_inv_rebind [OF inv] by blast
qed (use task_inv_settings [OF inv] in auto)

interpretation tasksys: invariant_system task_step task_inv
  by unfold_locales (rule task_step_inv)

subsection \<open>Properties\<close>



lemma release_last:
  assumes "i < SCHED_MAX_TASKS" "p_in_use (proc_ctx s i)" "p_refcount (proc_ctx s i) = 1"
  shows "p_waitable (proc_ctx (snd (proc_release s i code)) i)"
    "p_wait_exit_code (proc_ctx (snd (proc_release s i code)) i) =
       (if p_group_exiting (proc_ctx s i) then p_group_exit_code (proc_ctx s i) else code)"
    "rel_destroyed (fst (proc_release s i code)) =
       (if p_mm (proc_ctx s i) \<noteq> None \<and> p_mm (proc_ctx s i) \<noteq> mmu_kernel_space then p_mm (proc_ctx s i) else None)"
  using assms by (auto simp: proc_release_def Let_def split: option.splits)

lemma release_shared:
  assumes "i < SCHED_MAX_TASKS" "p_in_use (proc_ctx s i)" "p_refcount (proc_ctx s i) \<noteq> 0"
    "p_refcount (proc_ctx s i) - 1 \<noteq> 0"
  shows "proc_ctx (snd (proc_release s i code)) i = (proc_ctx s i)\<lparr>p_refcount := p_refcount (proc_ctx s i) - 1\<rparr>"
    "rel_destroyed (fst (proc_release s i code)) = None"
  using assms by (auto simp: proc_release_def Let_def)


lemma hooks_ok_none: "hooks_ok (\<lambda>_ s. s) (\<lambda>_ _ _ s. s)"
  by (auto simp: hooks_ok_def intro: exI [of _ "[]"])


text \<open>
  Group exit: \<^verbatim>\<open>sched_task_begin_exit_group\<close> returns, every other thread of the caller's
  process is a zombie, the caller is the only live thread left, its process cannot be waited
  for yet, and both invariants are kept.
\<close>

lemma exit_group_kills_others:
  assumes h: "hooks_ok hook last_hook" and inv: "sched_inv s" "proc_inv s"
    and c: "current_task s = Some c" and i: "i = c_proc_slot (task_ctx s c)"
    and idle: "c_proc_slot (task_ctx s IDLE_SLOT) \<noteq> i"
  shows "\<exists>ds s'. sched_task_begin_exit_group hook last_hook s code = Some (ds, s') \<and>
    sched_inv s' \<and> proc_inv s' \<and> live s' i = {c} \<and> \<not> p_waitable (proc_ctx s' i)"
proof -
  have t: "task_inv s" using inv by (simp add: task_inv_def)
  obtain ds s' where r: "sched_task_begin_exit_group hook last_hook s code = Some (ds, s')" "task_inv s'"
    "current_task s' = Some c" "task_count s' = task_count s"
    "\<And>x. c_proc_slot (task_ctx s' x) = c_proc_slot (task_ctx s x)"
    "\<And>j. j < task_count s \<Longrightarrow> j \<noteq> c \<Longrightarrow> c_proc_slot (task_ctx s j) = c_proc_slot (task_ctx s c) \<Longrightarrow>
       state_of s' j = TCB_ZOMBIE"
    by (rule group_exit_run [OF t h c, of code]) (use idle i in auto)
  have ti: "sched_inv s'" "proc_inv s'" using r(2) by (auto simp: task_inv_def)
  note cs = sched_inv_current [OF ti(1) r(3)]
  have l: "live s' i = {c}"
    using cs r(4-6) i by (auto simp: live_def)
  have "i < SCHED_MAX_TASKS" "p_in_use (proc_ctx s' i)"
    using ti(2) cs r(5) [of c] i by (auto simp: proc_inv_def)
  then have "\<not> p_waitable (proc_ctx s' i)" using ti(2) l by (auto simp: proc_inv_def)
  then show ?thesis using r(1) ti l by blast
qed

lemma task_bind_new_fields:
  assumes "task_bind_new_process s t mm pp pg sd = Some s'"
  obtains i p c where "s' = set_ctx (set_proc s i p) t c" "c_proc_slot c = i" "i < SCHED_MAX_TASKS"
    "\<not> p_in_use (proc_ctx s i)" "p_in_use p" "p_tgid p = t_pid (task_pool s t)" "p_parent_pid p = pp"
    "pg \<noteq> 0 \<longrightarrow> p_pgid p = pg" "sd \<noteq> 0 \<longrightarrow> p_sid p = sd" "mm \<noteq> None \<longrightarrow> c_mm c = mm"
proof -
  obtain i s1 c where a: "proc_alloc s mm (t_pid (task_pool s t)) pp
      (if pg \<noteq> 0 then pg else t_pid (task_pool s t)) (if sd \<noteq> 0 then sd else t_pid (task_pool s t)) = Some (i, s1)"
    and s': "s' = set_ctx s1 t c" "c_proc_slot c = i" "mm \<noteq> None \<longrightarrow> c_mm c = mm"
    using assms by (auto simp: task_bind_new_process_def Let_def split: option.splits)
  from a obtain p where "s1 = set_proc s i p" "i < SCHED_MAX_TASKS" "\<not> p_in_use (proc_ctx s i)" "p_in_use p"
    "p_tgid p = t_pid (task_pool s t)" "p_parent_pid p = pp" "p_pgid p = (if pg \<noteq> 0 then pg else t_pid (task_pool s t))"
    "p_sid p = (if sd \<noteq> 0 then sd else t_pid (task_pool s t))" by (rule proc_allocD)
  with s' that show ?thesis by simp
qed

lemma current_proc:
  assumes "proc_inv s" "sched_inv s" "current_task s = Some c"
  shows "proc_of s (Some c) = Some (c_proc_slot (task_ctx s c))"
  using assms(1) sched_inv_current [OF assms(2,3)] by (auto simp: proc_of_def proc_inv_def Let_def not_le)

lemma alloc_same_proc:
  assumes "task_alloc s = Some (t, a)" "x \<noteq> t"
  shows "proc_of a (Some x) = proc_of s (Some x)" "tgid_of a (Some x) = tgid_of s (Some x)"
    "pgid_of a (Some x) = pgid_of s (Some x)" "sid_of a (Some x) = sid_of s (Some x)"
proof -
  have f: "task_ctx a x = task_ctx s x" "task_pool a x = task_pool s x" "proc_ctx a = proc_ctx s"
    using task_alloc_allocated [OF assms(1)] assms(2) by (auto simp: allocated_def)
  show p: "proc_of a (Some x) = proc_of s (Some x)" using f by (simp add: proc_of_def Let_def)
  show "tgid_of a (Some x) = tgid_of s (Some x)" "pgid_of a (Some x) = pgid_of s (Some x)"
    "sid_of a (Some x) = sid_of s (Some x)" using p f by (simp_all add: tgid_of_def pgid_of_def sid_of_def split: option.splits)
qed

lemma accessors_set [simp]:
  "x \<noteq> t \<Longrightarrow> proc_of (set_ctx (set_tcb s t b) t c) (Some x) = proc_of s (Some x)"
  "x \<noteq> t \<Longrightarrow> tgid_of (set_ctx (set_tcb s t b) t c) (Some x) = tgid_of s (Some x)"
  "x \<noteq> t \<Longrightarrow> pgid_of (set_ctx (set_tcb s t b) t c) (Some x) = pgid_of s (Some x)"
  "x \<noteq> t \<Longrightarrow> sid_of (set_ctx (set_tcb s t b) t c) (Some x) = sid_of s (Some x)"
  by (simp_all add: proc_of_def tgid_of_def pgid_of_def sid_of_def Let_def)

text \<open>
  Fork: the child is a new task with the next pid in a fresh process, a child of the
  caller's process in its group and session, with the caller's resource limits; it will start
  from the caller's frame with 0 in the result register, and it is READY.
\<close>

lemma fork_child:
  assumes inv: "sched_inv s" "proc_inv s" and c: "current_task s = Some c"
    and run: "sched_task_fork_user s stack name (Some mm) (Some f) prio = Some (t, s')"
  shows "t = task_count s \<and> t_pid (task_pool s' t) = next_pid s \<and> state_of s' t = TCB_READY \<and>
    c_start_frame (task_ctx s' t) = f\<lparr>f_x := (f_x f)(0 := 0)\<rparr> \<and> c_mm (task_ctx s' t) = Some mm \<and>
    (\<exists>i. proc_of s' (Some t) = Some i \<and> \<not> p_in_use (proc_ctx s i) \<and> p_tgid (proc_ctx s' i) = next_pid s \<and>
      p_parent_pid (proc_ctx s' i) = tgid_of s (Some c) \<and>
      (pgid_of s (Some c) \<noteq> 0 \<longrightarrow> p_pgid (proc_ctx s' i) = pgid_of s (Some c)) \<and>
      (sid_of s (Some c) \<noteq> 0 \<longrightarrow> p_sid (proc_ctx s' i) = sid_of s (Some c)) \<and>
      (\<forall>r < RLIMIT_NLIMITS. \<forall>j. proc_of s (Some c) = Some j \<longrightarrow>
         p_rlimits (proc_ctx s' i) r = p_rlimits (proc_ctx s j) r))"
proof -
  obtain a where a: "task_alloc s = Some (t, a)"
    using run unfolding sched_task_fork_user_def Let_def by (auto simp: Option.bind_eq_Some_conv)
  note al = task_alloc_allocated [OF a]
  have at: "t = task_count s" "t_pid (task_pool a t) = next_pid s" "current_task a = Some c"
    "task_ctx a c = task_ctx s c" "proc_ctx a = proc_ctx s" and ct: "c \<noteq> t"
    using al c sched_inv_current [OF inv(1) c] by (auto simp: allocated_def)
  define B where "B = (task_pool a t)\<lparr>t_name := name, t_priority := prio, t_state := TCB_READY,
      t_flags := TCB_FLAG_USER, t_ticks_left := SCHED_TICK_QUANTUM\<rparr>"
  define C where "C = (task_ctx (set_tcb a t B) t)\<lparr>c_mm := Some mm, c_kernel_stack_pa := stack,
      c_user_entry := f_pc f, c_user_sp := f_sp f, c_argc := 0, c_argv := 0, c_envp := 0, c_auxv := 0,
      c_child_set_tid_uva := 0, c_clear_child_tid_uva := 0, c_is_user := True, c_resume_from_frame := True,
      c_tpidr_el0 := (case current_task (set_tcb a t B) of
         Some c \<Rightarrow> c_tpidr_el0 (task_ctx (set_tcb a t B) c) | None \<Rightarrow> 0)\<rparr>"
  let ?b = "set_ctx (set_tcb a t B) t C"
  obtain y where y: "task_bind_new_process ?b t (Some mm) (tgid_of ?b (Some c)) (inherit_pgid ?b t) (inherit_sid ?b t) = Some y"
    and s': "s' = (let s = y; s = (case (proc_of s (current_task s), proc_of s (Some t)) of
                  (Some pp, Some cp) \<Rightarrow>
                    set_proc s cp ((proc_ctx s cp)\<lparr>p_rlimits :=
                      (\<lambda>i. if i < RLIMIT_NLIMITS then p_rlimits (proc_ctx s pp) i else p_rlimits (proc_ctx s cp) i)\<rparr>)
                | _ \<Rightarrow> s);
       s = set_ctx s t ((task_ctx s t)\<lparr>c_start_frame := frame_child f\<rparr>);
       s = task_setup_stack s t (stack + TASK_STACK_SIZE)
       in resched_if_higher (rq_push s t) t)"
    using run a at(3) unfolding sched_task_fork_user_def Let_def B_def C_def
    by (auto simp: Option.bind_eq_Some_conv)
  obtain i p e where yy: "y = set_ctx (set_proc ?b i p) t e" "c_proc_slot e = i" "i < SCHED_MAX_TASKS"
    "\<not> p_in_use (proc_ctx ?b i)" "p_in_use p" "p_tgid p = t_pid (task_pool ?b t)" "p_parent_pid p = tgid_of ?b (Some c)"
    "inherit_pgid ?b t \<noteq> 0 \<longrightarrow> p_pgid p = inherit_pgid ?b t" "inherit_sid ?b t \<noteq> 0 \<longrightarrow> p_sid p = inherit_sid ?b t"
    "Some mm \<noteq> None \<longrightarrow> c_mm e = Some mm"
    by (rule task_bind_new_fields [OF y])
  let ?j = "c_proc_slot (task_ctx s c)"
  have pc: "proc_of s (Some c) = Some ?j" by (rule current_proc [OF inv(2,1) c])
  then have j: "?j < SCHED_MAX_TASKS" "p_in_use (proc_ctx s ?j)"
    by (auto simp: proc_of_def Let_def split: if_splits)
  have ij: "?j \<noteq> i" using yy(4) at(5) j by auto
  have py: "proc_of y (current_task y) = Some ?j" "proc_of y (Some t) = Some i"
    using yy at ct j ij by (auto simp: proc_of_def Let_def not_le)
  have acc: "tgid_of ?b (Some c) = tgid_of s (Some c)" "pgid_of ?b (Some c) = pgid_of s (Some c)"
    "sid_of ?b (Some c) = sid_of s (Some c)" using alloc_same_proc [OF a ct] ct by simp_all
  have pg: "pgid_of s (Some c) \<noteq> 0 \<Longrightarrow> p_pgid p = pgid_of s (Some c)" "sid_of s (Some c) \<noteq> 0 \<Longrightarrow> p_sid p = sid_of s (Some c)"
    using yy(8,9) acc at(3) by (auto simp: inherit_pgid_def inherit_sid_def)
  have mmx: "c_mm e = Some mm" using yy(10) by simp
  show ?thesis
    unfolding s' Let_def py
    using at yy(1-7) acc pg ij mmx pc
    by (auto simp: task_setup_stack_def proc_of_def Let_def not_le frame_child_def B_def)
qed

lemma fork_total:
  assumes "task_count s < SCHED_MAX_TASKS" "j < SCHED_MAX_TASKS" "\<not> p_in_use (proc_ctx s j)"
  shows "\<exists>t s'. sched_task_fork_user s stack name (Some mm) (Some f) prio = Some (t, s')"
proof -
  obtain a where a: "task_alloc s = Some (task_count s, a)" using task_alloc_Some [OF assms(1)] by blast
  have "\<exists>y. task_bind_new_process (set_ctx (set_tcb a (task_count s) B) (task_count s) C) (task_count s) (Some mm) pp pg sd
      = Some y" for B C pp pg sd
    using assms(2,3) task_alloc_allocated [OF a] by (intro task_bind_new_Some [of j]) auto
  then show ?thesis
    unfolding sched_task_fork_user_def Let_def a by (auto simp: Option.bind_eq_Some_conv)
qed

text \<open>
  \<^verbatim>\<open>setpgid\<close>: an error changes nothing; success only happens for the caller itself or a
  child of its process, both in the same session, when the target leads its thread group and
  does not lead the session, and the new group is the target's own or one with a live member
  in that session; it changes the group of the target's process and nothing else.
\<close>

lemma setpgid_contract:
  assumes run: "sched_task_setpgid s (Some c) (Some t) pgid = (r, s')"
  shows "(case r of
      Inl e \<Rightarrow> s' = s
    | Inr _ \<Rightarrow> \<exists>cp tp g. proc_of s (Some c) = Some cp \<and> proc_of s (Some t) = Some tp \<and>
        (t = c \<or> p_parent_pid (proc_ctx s tp) = p_tgid (proc_ctx s cp)) \<and>
        t_pid (task_pool s t) = p_tgid (proc_ctx s tp) \<and> p_sid (proc_ctx s tp) \<noteq> p_tgid (proc_ctx s tp) \<and>
        p_sid (proc_ctx s tp) = p_sid (proc_ctx s cp) \<and>
        g = (if pgid = 0 then p_tgid (proc_ctx s tp) else pgid) \<and>
        (g = p_tgid (proc_ctx s tp) \<or>
         (\<exists>i < task_count s. state_of s i \<noteq> TCB_ZOMBIE \<and> sid_of s (Some i) = p_sid (proc_ctx s tp) \<and>
            pgid_of s (Some i) = g)) \<and>
        s' = set_proc s tp ((proc_ctx s tp)\<lparr>p_pgid := g\<rparr>))"
proof -
  have live: "sched_task_has_pgrp s sid g \<Longrightarrow> \<exists>i < task_count s. state_of s i \<noteq> TCB_ZOMBIE \<and>
      sid_of s (Some i) = sid \<and> pgid_of s (Some i) = g" for sid g
    by (auto simp: sched_task_has_pgrp_def dest: for_find_SomeD)
  show ?thesis
    using run live unfolding sched_task_setpgid_def Let_def
    by (auto split: option.splits if_splits sum.splits)
qed

text \<open>Interval timers: after arming, reading gives what is left of the value and the interval.\<close>

lemma itimer_roundtrip:
  assumes p: "proc_of s t = Some p" and v: "val \<noteq> 0" "unat now + unat val < 2 ^ 64"
    and now: "now \<le> now'" "unat now' < unat now + unat val"
  shows "sched_proc_get_itimer (sched_proc_set_itimer s now t val ivl) now' t = (val - (now' - now), ivl)"
proof -
  let ?s = "sched_proc_set_itimer s now t val ivl"
  have s': "?s = set_proc s p ((proc_ctx s p)\<lparr>p_itimer_expires_ms := now + val, p_itimer_interval_ms := ivl\<rparr>)"
    using p v by (simp add: sched_proc_set_itimer_def)
  have p': "proc_of ?s t = Some p"
    using p unfolding s' by (auto simp: proc_of_def Let_def split: option.splits if_splits)
  have u: "unat (now + val) = unat now + unat val" using v(2) by (simp add: unat_word_ariths)
  have "\<not> now + val \<le> now'" using now(2) u by (simp add: word_le_nat_alt)
  moreover have "now + val \<noteq> 0" using u v(1) by (metis add_is_0 unat_0 unat_eq_zero)
  ultimately show ?thesis
    using p' s' by (simp add: sched_proc_get_itimer_def Let_def)
qed

lemma spawned_count: "spawned s t s1 \<Longrightarrow> task_count s \<le> task_count (resched_if_higher (rq_push s1 t) t)"
  by (simp add: spawned_def allocated_def)

lemma proc_same_count: "proc_same s s' \<Longrightarrow> task_count s \<le> task_count s'"
  by (simp add: proc_same_def)

lemma task_step_count:
  assumes inv: "task_inv s" and step: "task_step s s'" shows "task_count s \<le> task_count s'"
  using step
proof cases
  case sched
  then show ?thesis using sched_step_same [of s s'] inv proc_same_count by (auto simp: task_inv_def)
next
  case create then show ?thesis using create_spawned spawned_count by metis
next
  case create_user then show ?thesis using create_user_spawned spawned_count by metis
next
  case fork then show ?thesis using fork_user_spawned spawned_count by metis
next
  case clone then show ?thesis using inv clone_spawned spawned_count unfolding task_inv_def by metis
next
  case (exit hook last_hook code d)
  obtain k where k: "current_task s = Some k" using inv by (auto simp: task_inv_def sched_inv_def)
  have a: "sched_inv s" "proc_inv s" "k \<noteq> IDLE_SLOT" using inv exit(2) k by (auto simp: task_inv_def)
  obtain d1 s1 where "sched_task_exit_with_code hook last_hook s code = Some (d1, s1)" "task_count s1 = task_count s"
    by (rule exit_with_code_inv [OF exit(1) a(1,2) k a(3), of code])
  with exit show ?thesis by simp
next
  case (exit_group hook last_hook c code ds)
  obtain ds' s1 where "sched_task_begin_exit_group hook last_hook s code = Some (ds', s1)" "task_count s1 = task_count s"
    by (rule group_exit_run [OF inv exit_group(1-3)])
  with exit_group show ?thesis by simp
qed (auto simp: sched_task_mark_reaped_def sched_task_setpgid_def sched_task_setsid_def sched_task_set_abi_mode_def
    sched_task_set_exec_path_def sched_task_set_tpidr_def sched_task_set_clear_tid_def
    sched_proc_set_rlimit_def sched_proc_set_itimer_def sched_task_rebind_user_def Let_def
    split: option.splits if_splits prod.splits)



end
