(* ===== verification/Utf8.thy ===== *)
theory Utf8
  imports Prelude
begin

text \<open>
  The UTF-8 decoder, \<^verbatim>\<open>kernel/utf8.c\<close>: \<^verbatim>\<open>utf8_decode\<close> and \<^verbatim>\<open>utf8_strlen\<close>. Memory is a map
  from addresses to bytes, the \<^verbatim>\<open>const char **\<close> argument an address that is returned updated.
  The specification is the encoder of RFC 3629: the decoder inverts it, yields only Unicode
  scalar values, and never steps over the terminator.
\<close>

subsection \<open>The code\<close>

definition UTF8_REPLACEMENT :: u32 where "UTF8_REPLACEMENT = 0xFFFD"

definition utf8_decode2 :: "u8 \<Rightarrow> u8 \<Rightarrow> nat \<Rightarrow> u32 \<times> nat" where
  "utf8_decode2 b0 b1 s =
     (if b1 AND 0xC0 \<noteq> 0x80 then (UTF8_REPLACEMENT, s + 1)
      else
        (let cp = push_bit 6 (ucast (b0 AND 0x1F)) OR ucast (b1 AND 0x3F)
         in if cp < 0x80 then (UTF8_REPLACEMENT, s + 2) else (cp, s + 2)))"

definition utf8_decode3 :: "u8 \<Rightarrow> u8 \<Rightarrow> u8 \<Rightarrow> nat \<Rightarrow> u32 \<times> nat" where
  "utf8_decode3 b0 b1 b2 s =
     (if b1 AND 0xC0 \<noteq> 0x80 then (UTF8_REPLACEMENT, s + 1)
      else if b2 AND 0xC0 \<noteq> 0x80 then (UTF8_REPLACEMENT, s + 2)
      else
        (let cp = push_bit 12 (ucast (b0 AND 0x0F)) OR push_bit 6 (ucast (b1 AND 0x3F)) OR ucast (b2 AND 0x3F)
         in if cp < 0x800 then (UTF8_REPLACEMENT, s + 3)
            else if 0xD800 \<le> cp \<and> cp \<le> 0xDFFF then (UTF8_REPLACEMENT, s + 3)
            else (cp, s + 3)))"

definition utf8_decode4 :: "u8 \<Rightarrow> u8 \<Rightarrow> u8 \<Rightarrow> u8 \<Rightarrow> nat \<Rightarrow> u32 \<times> nat" where
  "utf8_decode4 b0 b1 b2 b3 s =
     (if b1 AND 0xC0 \<noteq> 0x80 then (UTF8_REPLACEMENT, s + 1)
      else if b2 AND 0xC0 \<noteq> 0x80 then (UTF8_REPLACEMENT, s + 2)
      else if b3 AND 0xC0 \<noteq> 0x80 then (UTF8_REPLACEMENT, s + 3)
      else
        (let cp = push_bit 18 (ucast (b0 AND 0x07)) OR push_bit 12 (ucast (b1 AND 0x3F))
                  OR push_bit 6 (ucast (b2 AND 0x3F)) OR ucast (b3 AND 0x3F)
         in if cp < 0x10000 \<or> 0x10FFFF < cp then (UTF8_REPLACEMENT, s + 4) else (cp, s + 4)))"

definition utf8_decode :: "(nat \<Rightarrow> u8) \<Rightarrow> nat \<Rightarrow> u32 \<times> nat" where
  "utf8_decode m s =
     (let b0 = m s
      in if b0 = 0 then (0, s)
         else if b0 < 0x80 then (ucast b0, s + 1)
         else if b0 < 0xC0 then (UTF8_REPLACEMENT, s + 1)
         else if b0 < 0xE0 then utf8_decode2 b0 (m (s + 1)) s
         else if b0 < 0xF0 then utf8_decode3 b0 (m (s + 1)) (m (s + 2)) s
         else if b0 < 0xF8 then utf8_decode4 b0 (m (s + 1)) (m (s + 2)) (m (s + 3)) s
         else (UTF8_REPLACEMENT, s + 1))"

text \<open>The loop of \<^verbatim>\<open>utf8_strlen\<close>; \<open>None\<close> is a loop that never meets a terminator.\<close>

partial_function (option) utf8_strlen_loop :: "(nat \<Rightarrow> u8) \<Rightarrow> nat \<Rightarrow> u32 \<Rightarrow> u32 option" where
  "utf8_strlen_loop m s count =
     (if m s = 0 then Some count else utf8_strlen_loop m (snd (utf8_decode m s)) (count + 1))"

definition utf8_strlen :: "(nat \<Rightarrow> u8) \<Rightarrow> nat \<Rightarrow> u32 option" where
  "utf8_strlen m s = utf8_strlen_loop m s 0"

subsection \<open>The specification: RFC 3629\<close>

definition scalar_value :: "nat \<Rightarrow> bool" where
  "scalar_value c \<longleftrightarrow> c < 0xD800 \<or> (0xDFFF < c \<and> c \<le> 0x10FFFF)"

definition utf8_encode :: "nat \<Rightarrow> nat list" where
  "utf8_encode c =
     (if c < 0x80 then [c]
      else if c < 0x800 then [0xC0 + c div 64, 0x80 + c mod 64]
      else if c < 0x10000 then [0xE0 + c div 4096, 0x80 + c div 64 mod 64, 0x80 + c mod 64]
      else [0xF0 + c div 262144, 0x80 + c div 4096 mod 64, 0x80 + c div 64 mod 64, 0x80 + c mod 64])"

definition bytes_at :: "(nat \<Rightarrow> u8) \<Rightarrow> nat \<Rightarrow> nat list \<Rightarrow> bool" where
  "bytes_at m s bs \<longleftrightarrow> (\<forall>i < length bs. unat (m (s + i)) = bs ! i)"

subsection \<open>Bytes as numbers\<close>

lemma byte_masks:
  "unat (b AND 0x3F) = unat b mod 64" "unat (b AND 0x1F) = unat b mod 32"
  "unat (b AND 0x0F) = unat b mod 16" "unat (b AND 0x07) = unat b mod 8" for b :: u8
proof -
  have "b AND 0x3F = take_bit 6 b" "b AND 0x1F = take_bit 5 b" "b AND 0x0F = take_bit 4 b"
    "b AND 0x07 = take_bit 3 b"
    by (simp_all add: take_bit_eq_mask mask_eq_exp_minus_1)
  then show "unat (b AND 0x3F) = unat b mod 64" "unat (b AND 0x1F) = unat b mod 32"
    "unat (b AND 0x0F) = unat b mod 16" "unat (b AND 0x07) = unat b mod 8"
    by (simp_all add: take_bit_eq_mod unat_mod)
qed

lemma continuation_byte: "b AND 0xC0 = 0x80 \<longleftrightarrow> unat b div 64 = 2" for b :: u8
proof -
  have "(0xC0 :: u8) = push_bit 6 (mask 2)" by (simp add: push_bit_eq_mult mask_eq_exp_minus_1)
  moreover have "b AND push_bit 6 (mask 2) = push_bit 6 (drop_bit 6 b)"
    by (rule bit_word_eqI) (auto simp: bit_push_bit_iff bit_drop_bit_eq bit_and_iff bit_mask_iff)
  ultimately have "b AND 0xC0 = push_bit 6 (drop_bit 6 b)" by simp
  moreover have "push_bit 6 (drop_bit 6 b) = 0x80 \<longleftrightarrow> unat (drop_bit 6 b) = 2"
  proof -
    have "unat (drop_bit 6 b) = unat b div 64" by (simp add: drop_bit_eq_div unat_div)
    moreover have "unat b < 256" using unsigned_less [of b] by simp
    ultimately have "unat (push_bit 6 (drop_bit 6 b)) = unat b div 64 * 64"
      by (simp add: push_bit_eq_mult unat_mult_lem [symmetric] unat_word_ariths)
    then show ?thesis using \<open>unat (drop_bit 6 b) = unat b div 64\<close> by (auto simp: word_unat_eq_iff)
  qed
  ultimately show ?thesis by (simp add: drop_bit_eq_div unat_div)
qed

lemma or_shift:
  fixes x y :: u32
  assumes "unat y < 2 ^ n" "unat x * 2 ^ n + 2 ^ n \<le> 2 ^ 32"
  shows "unat (push_bit n x OR y) = unat x * 2 ^ n + unat y"
proof -
  have d: "push_bit n x AND y = 0"
  proof (rule bit_word_eqI)
    fix i assume "i < LENGTH(32)"
    have "\<not> bit y i" if "n \<le> i"
    proof -
      have "take_bit n y = y" 
        using assms(1) by (simp add: word_unat_eq_iff unsigned_take_bit_eq take_bit_nat_eq_self)
      then show ?thesis using that by (metis bit_take_bit_iff not_less)
    qed
    then show "bit (push_bit n x AND y) i = bit (0 :: u32) i" by (auto simp: bit_simps)
  qed
  have "push_bit n x OR y = push_bit n x + y" using d by (rule disjunctive_add_eq_or [symmetric])
  moreover have "unat (push_bit n x) = unat x * 2 ^ n"
  proof -
    have lt: "unat x * 2 ^ n < 2 ^ 32" using assms(2) zero_less_power [of "2 :: nat" n] by linarith
    have "unat (push_bit n x) = take_bit 32 (push_bit n (unat x))" by (simp add: unsigned_push_bit_eq)
    also have "\<dots> = unat x * 2 ^ n"
      using lt by (simp add: take_bit_nat_eq_self push_bit_eq_mult)
    finally show ?thesis .
  qed
  moreover have "unat x * 2 ^ n + unat y < 2 ^ 32" using assms by linarith
  ultimately show ?thesis by (simp add: unat_word_ariths)
qed

lemma unat_ucast_u8 [simp]: "unat (ucast (b :: u8) :: u32) = unat b"
proof -
  have "unat b < 256" using unsigned_less [of b] by simp
  then have "unat b < 2 ^ 32" by simp
  then show ?thesis by (simp add: unsigned_ucast_eq take_bit_nat_eq_self)
qed

text \<open>The code points the three multi-byte branches assemble.\<close>

lemma code_point2:
  "unat (push_bit 6 (ucast (b0 AND 0x1F)) OR ucast (b1 AND 0x3F) :: u32) =
   unat b0 mod 32 * 64 + unat b1 mod 64" for b0 b1 :: u8
  using or_shift [of "ucast (b1 AND 0x3F)" 6 "ucast (b0 AND 0x1F)"] by (simp add: byte_masks)

lemma code_point3:
  "unat (push_bit 12 (ucast (b0 AND 0x0F)) OR push_bit 6 (ucast (b1 AND 0x3F)) OR ucast (b2 AND 0x3F) :: u32) =
   unat b0 mod 16 * 4096 + unat b1 mod 64 * 64 + unat b2 mod 64" for b0 b1 b2 :: u8
proof -
  have "unat (push_bit 6 (ucast (b1 AND 0x3F)) OR ucast (b2 AND 0x3F) :: u32) =
      unat b1 mod 64 * 64 + unat b2 mod 64"
    using or_shift [of "ucast (b2 AND 0x3F)" 6 "ucast (b1 AND 0x3F)"] by (simp add: byte_masks)
  with or_shift [of "push_bit 6 (ucast (b1 AND 0x3F)) OR ucast (b2 AND 0x3F)" 12 "ucast (b0 AND 0x0F)"]
  show ?thesis by (simp add: byte_masks)
qed

lemma code_point4:
  "unat (push_bit 18 (ucast (b0 AND 0x07)) OR push_bit 12 (ucast (b1 AND 0x3F))
         OR push_bit 6 (ucast (b2 AND 0x3F)) OR ucast (b3 AND 0x3F) :: u32) =
   unat b0 mod 8 * 262144 + unat b1 mod 64 * 4096 + unat b2 mod 64 * 64 + unat b3 mod 64"
  for b0 b1 b2 b3 :: u8
proof -
  have "unat (push_bit 6 (ucast (b2 AND 0x3F)) OR ucast (b3 AND 0x3F) :: u32) =
      unat b2 mod 64 * 64 + unat b3 mod 64"
    using or_shift [of "ucast (b3 AND 0x3F)" 6 "ucast (b2 AND 0x3F)"] by (simp add: byte_masks)
  with or_shift [of "push_bit 6 (ucast (b2 AND 0x3F)) OR ucast (b3 AND 0x3F)" 12 "ucast (b1 AND 0x3F)"]
  have "unat (push_bit 12 (ucast (b1 AND 0x3F)) OR push_bit 6 (ucast (b2 AND 0x3F)) OR ucast (b3 AND 0x3F) :: u32) =
      unat b1 mod 64 * 4096 + unat b2 mod 64 * 64 + unat b3 mod 64" by (simp add: byte_masks)
  with or_shift [of "push_bit 12 (ucast (b1 AND 0x3F)) OR push_bit 6 (ucast (b2 AND 0x3F)) OR ucast (b3 AND 0x3F)"
      18 "ucast (b0 AND 0x07)"]
  show ?thesis by (simp add: byte_masks)
qed

subsection \<open>The decoder against the encoder\<close>

text \<open>The multi-byte branches in terms of the byte values.\<close>

lemma word_eq_of_nat: "unat (x :: u32) = c \<Longrightarrow> x = word_of_nat c"
proof -
  have "unat x < 4294967296" using unsigned_less [of x] by simp
  then show "unat x = c \<Longrightarrow> ?thesis" by (auto simp: word_unat_eq_iff unat_of_nat)
qed

lemma mod_in_block: "k * n \<le> x \<Longrightarrow> x < k * n + n \<Longrightarrow> x mod n = x - k * n" for x :: nat
proof -
  assume h: "k * n \<le> x" "x < k * n + n"
  then have "x = k * n + (x - k * n)" "x - k * n < n" by linarith+
  then show ?thesis by (metis mod_less mod_mult_self3)
qed

lemma continuation_bounds: "x div 64 = 2 \<longleftrightarrow> 128 \<le> x \<and> x < (192 :: nat)"
  using div_mult_mod_eq [of x 64] mod_less_divisor [of 64 x]
    div_less_iff_less_mult [of 64 x 3] less_eq_div_iff_mult_less_eq [of 64 2 x] by linarith

lemma lead_mod:
  "192 \<le> x \<Longrightarrow> x < 224 \<Longrightarrow> x mod 32 = x - 192" "224 \<le> x \<Longrightarrow> x < 240 \<Longrightarrow> x mod 16 = x - 224"
  "240 \<le> x \<Longrightarrow> x < 248 \<Longrightarrow> x mod 8 = x - 240" "x div 64 = 2 \<Longrightarrow> x mod 64 = x - 128" for x :: nat
  using mod_in_block [of 6 32 x] mod_in_block [of 14 16 x] mod_in_block [of 30 8 x] mod_in_block [of 2 64 x]
  by (simp_all add: continuation_bounds)

lemma code_point_less:
  "c < 2097152 \<Longrightarrow> n < 2097152 \<Longrightarrow> (word_of_nat c :: u32) < word_of_nat n \<longleftrightarrow> c < n"
  "c < 2097152 \<Longrightarrow> n < 2097152 \<Longrightarrow> (word_of_nat c :: u32) \<le> word_of_nat n \<longleftrightarrow> c \<le> n"
  by (simp_all add: word_less_nat_alt word_le_nat_alt unat_of_nat)

lemma utf8_decode2_eq:
  assumes "192 \<le> unat b0" "unat b0 < 224"
  shows "utf8_decode2 b0 b1 s =
    (if unat b1 div 64 \<noteq> 2 then (UTF8_REPLACEMENT, s + 1)
     else let c = (unat b0 - 192) * 64 + (unat b1 - 128)
          in (if c < 0x80 then UTF8_REPLACEMENT else word_of_nat c, s + 2))"
proof (cases "unat b1 div 64 = 2")
  case True
  define c where "c = (unat b0 - 192) * 64 + (unat b1 - 128)"
  have "c < 2097152" using assms True unfolding c_def continuation_bounds by linarith
  then have "(word_of_nat c :: u32) < 0x80 \<longleftrightarrow> c < 0x80" using code_point_less(1) [of c "0x80"] by simp
  moreover have "push_bit 6 (ucast (b0 AND 0x1F)) OR ucast (b1 AND 0x3F) = (word_of_nat c :: u32)"
    by (rule word_eq_of_nat) (simp only: code_point2 lead_mod assms True c_def)
  ultimately show ?thesis
    using True unfolding utf8_decode2_def continuation_byte c_def [symmetric] by (simp only: Let_def) simp
qed (simp add: utf8_decode2_def continuation_byte)

lemma utf8_decode3_eq:
  assumes "224 \<le> unat b0" "unat b0 < 240"
  shows "utf8_decode3 b0 b1 b2 s =
    (if unat b1 div 64 \<noteq> 2 then (UTF8_REPLACEMENT, s + 1)
     else if unat b2 div 64 \<noteq> 2 then (UTF8_REPLACEMENT, s + 2)
     else let c = (unat b0 - 224) * 4096 + (unat b1 - 128) * 64 + (unat b2 - 128)
          in (if c < 0x800 \<or> (0xD800 \<le> c \<and> c \<le> 0xDFFF) then UTF8_REPLACEMENT else word_of_nat c, s + 3))"
proof (cases "unat b1 div 64 = 2 \<and> unat b2 div 64 = 2")
  case True
  define c where "c = (unat b0 - 224) * 4096 + (unat b1 - 128) * 64 + (unat b2 - 128)"
  have "c < 2097152" using assms True unfolding c_def continuation_bounds by linarith
  then have "(word_of_nat c :: u32) < 0x800 \<longleftrightarrow> c < 0x800" "0xD800 \<le> (word_of_nat c :: u32) \<longleftrightarrow> 0xD800 \<le> c"
    "(word_of_nat c :: u32) \<le> 0xDFFF \<longleftrightarrow> c \<le> 0xDFFF"
    using code_point_less(1) [of c "0x800"] code_point_less(2) [of "0xD800" c] code_point_less(2) [of c "0xDFFF"]
    by simp_all
  moreover have "push_bit 12 (ucast (b0 AND 0x0F)) OR push_bit 6 (ucast (b1 AND 0x3F)) OR ucast (b2 AND 0x3F) =
      (word_of_nat c :: u32)"
    by (rule word_eq_of_nat) (simp only: code_point3 lead_mod assms True c_def)
  ultimately show ?thesis
    using True unfolding utf8_decode3_def continuation_byte c_def [symmetric] by (simp only: Let_def) simp
qed (auto simp: utf8_decode3_def continuation_byte)

lemma utf8_decode4_eq:
  assumes "240 \<le> unat b0" "unat b0 < 248"
  shows "utf8_decode4 b0 b1 b2 b3 s =
    (if unat b1 div 64 \<noteq> 2 then (UTF8_REPLACEMENT, s + 1)
     else if unat b2 div 64 \<noteq> 2 then (UTF8_REPLACEMENT, s + 2)
     else if unat b3 div 64 \<noteq> 2 then (UTF8_REPLACEMENT, s + 3)
     else let c = (unat b0 - 240) * 262144 + (unat b1 - 128) * 4096 + (unat b2 - 128) * 64 + (unat b3 - 128)
          in (if c < 0x10000 \<or> 0x10FFFF < c then UTF8_REPLACEMENT else word_of_nat c, s + 4))"
proof (cases "unat b1 div 64 = 2 \<and> unat b2 div 64 = 2 \<and> unat b3 div 64 = 2")
  case True
  define c where "c = (unat b0 - 240) * 262144 + (unat b1 - 128) * 4096 + (unat b2 - 128) * 64 + (unat b3 - 128)"
  have "c < 2097152" using assms True unfolding c_def continuation_bounds by linarith
  then have "(word_of_nat c :: u32) < 0x10000 \<longleftrightarrow> c < 0x10000" "0x10FFFF < (word_of_nat c :: u32) \<longleftrightarrow> 0x10FFFF < c"
    using code_point_less(1) [of c "0x10000"] code_point_less(1) [of "0x10FFFF" c] by simp_all
  moreover have "push_bit 18 (ucast (b0 AND 0x07)) OR push_bit 12 (ucast (b1 AND 0x3F))
      OR push_bit 6 (ucast (b2 AND 0x3F)) OR ucast (b3 AND 0x3F) = (word_of_nat c :: u32)"
    by (rule word_eq_of_nat) (simp only: code_point4 lead_mod assms True c_def)
  ultimately show ?thesis
    using True unfolding utf8_decode4_def continuation_byte c_def [symmetric] by (simp only: Let_def) simp
qed (auto simp: utf8_decode4_def continuation_byte)

text \<open>The dispatch on the lead byte, with the bytes as numbers.\<close>

definition utf8_class :: "nat \<Rightarrow> nat \<Rightarrow> nat \<Rightarrow> nat \<Rightarrow> (nat option) \<times> nat" where
  "utf8_class x0 x1 x2 x3 =
     (if x0 < 128 then (Some x0, 1)
      else if x0 < 192 \<or> 248 \<le> x0 \<or> x1 div 64 \<noteq> 2 then (None, 1)
      else if x0 < 224 then
        (let c = (x0 - 192) * 64 + (x1 - 128) in (if c < 0x80 then None else Some c, 2))
      else if x2 div 64 \<noteq> 2 then (None, 2)
      else if x0 < 240 then
        (let c = (x0 - 224) * 4096 + (x1 - 128) * 64 + (x2 - 128)
         in (if c < 0x800 \<or> (0xD800 \<le> c \<and> c \<le> 0xDFFF) then None else Some c, 3))
      else if x3 div 64 \<noteq> 2 then (None, 3)
      else
        (let c = (x0 - 240) * 262144 + (x1 - 128) * 4096 + (x2 - 128) * 64 + (x3 - 128)
         in (if c < 0x10000 \<or> 0x10FFFF < c then None else Some c, 4)))"

lemma utf8_decode_class:
  assumes "m s \<noteq> 0"
  shows "utf8_decode m s =
    (let (r, n) = utf8_class (unat (m s)) (unat (m (s + 1))) (unat (m (s + 2))) (unat (m (s + 3)))
     in (case r of Some c \<Rightarrow> word_of_nat c | None \<Rightarrow> UTF8_REPLACEMENT, s + n))"
proof -
  define x where "x = unat (m s)"
  have lt: "m s < 0x80 \<longleftrightarrow> x < 128" "m s < 0xC0 \<longleftrightarrow> x < 192" "m s < 0xE0 \<longleftrightarrow> x < 224"
    "m s < 0xF0 \<longleftrightarrow> x < 240" "m s < 0xF8 \<longleftrightarrow> x < 248"
    by (simp_all add: word_less_nat_alt x_def)
  have w: "ucast (m s) = (word_of_nat x :: u32)" by (rule word_eq_of_nat) (simp add: x_def)
  consider "x < 192 \<or> 248 \<le> x" | "192 \<le> x" "x < 224" | "224 \<le> x" "x < 240" | "240 \<le> x" "x < 248" by linarith
  then show ?thesis
  proof cases
    case 1 then show ?thesis
      using assms by (auto simp: utf8_decode_def utf8_class_def lt w x_def [symmetric])
  next
    case 2 then show ?thesis
      using assms utf8_decode2_eq [of "m s" "m (s + 1)" s]
      by (auto simp: utf8_decode_def utf8_class_def Let_def lt x_def [symmetric])
  next
    case 3 then show ?thesis
      using assms utf8_decode3_eq [of "m s" "m (s + 1)" "m (s + 2)" s]
      by (auto simp: utf8_decode_def utf8_class_def Let_def lt x_def [symmetric])
  next
    case 4 then show ?thesis
      using assms utf8_decode4_eq [of "m s" "m (s + 1)" "m (s + 2)" "m (s + 3)" s]
      by (auto simp: utf8_decode_def utf8_class_def Let_def lt x_def [symmetric])
  qed
qed

text \<open>Base-64 digits.\<close>

lemma digit: "b < 64 \<Longrightarrow> (a * 64 + b) div 64 = a" "b < 64 \<Longrightarrow> (a * 64 + b) mod 64 = (b :: nat)"
  by simp_all

lemma digits3:
  assumes "b < 64" "d < (64 :: nat)" and c: "c = a * 4096 + b * 64 + d"
  shows "c div 4096 = a" "c div 64 mod 64 = b" "c mod 64 = d"
proof -
  have e: "c = (a * 64 + b) * 64 + d" using c by simp
  have c1: "c div 64 = a * 64 + b" unfolding e by (rule digit(1) [OF assms(2)])
  show "c div 4096 = a" using c1 digit(1) [OF assms(1)] div_mult2_eq [of c 64 64] by simp
  show "c div 64 mod 64 = b" unfolding c1 by (rule digit(2) [OF assms(1)])
  show "c mod 64 = d" unfolding e by (rule digit(2) [OF assms(2)])
qed

lemma digits4:
  assumes "b < 64" "d < 64" "f < (64 :: nat)" and c: "c = a * 262144 + b * 4096 + d * 64 + f"
  shows "c div 262144 = a" "c div 4096 mod 64 = b" "c div 64 mod 64 = d" "c mod 64 = f"
proof -
  have e: "c = ((a * 64 + b) * 64 + d) * 64 + f" using c by simp
  have c1: "c div 64 = (a * 64 + b) * 64 + d" unfolding e by (rule digit(1) [OF assms(3)])
  have c2: "c div 4096 = a * 64 + b"
    using c1 digit(1) [OF assms(2), of "a * 64 + b"] div_mult2_eq [of c 64 64] by simp
  show "c div 262144 = a" using c2 digit(1) [OF assms(1)] div_mult2_eq [of c 4096 64] by simp
  show "c div 4096 mod 64 = b" unfolding c2 by (rule digit(2) [OF assms(1)])
  show "c div 64 mod 64 = d" unfolding c1 by (rule digit(2) [OF assms(2)])
  show "c mod 64 = f" unfolding e by (rule digit(2) [OF assms(3)])
qed

lemma class_encode2:
  assumes "192 \<le> x0" "x0 < 224" "128 \<le> x1" "x1 < 192" "c = (x0 - 192) * 64 + (x1 - 128)" "\<not> c < 0x80"
  shows "utf8_encode c = [x0, x1]" "scalar_value c"
proof -
  have "c div 64 = x0 - 192" "c mod 64 = x1 - 128" using digit [of "x1 - 128" "x0 - 192"] assms by simp_all
  moreover have "c < 0x800" using assms by linarith
  ultimately show "utf8_encode c = [x0, x1]" "scalar_value c"
    using assms by (simp_all add: utf8_encode_def scalar_value_def)
qed

lemma class_encode3:
  assumes "224 \<le> x0" "x0 < 240" "128 \<le> x1" "x1 < 192" "128 \<le> x2" "x2 < 192"
    "c = (x0 - 224) * 4096 + (x1 - 128) * 64 + (x2 - 128)" "\<not> (c < 0x800 \<or> (0xD800 \<le> c \<and> c \<le> 0xDFFF))"
  shows "utf8_encode c = [x0, x1, x2]" "scalar_value c"
proof -
  note d = digits3 [of "x1 - 128" "x2 - 128" c "x0 - 224"]
  have "c < 0x10000" using assms by linarith
  then show "utf8_encode c = [x0, x1, x2]" "scalar_value c"
    using d assms by (auto simp: utf8_encode_def scalar_value_def)
qed

lemma class_encode4:
  assumes "240 \<le> x0" "x0 < 248" "128 \<le> x1" "x1 < 192" "128 \<le> x2" "x2 < 192" "128 \<le> x3" "x3 < 192"
    "c = (x0 - 240) * 262144 + (x1 - 128) * 4096 + (x2 - 128) * 64 + (x3 - 128)" "\<not> (c < 0x10000 \<or> 0x10FFFF < c)"
  shows "utf8_encode c = [x0, x1, x2, x3]" "scalar_value c"
  using digits4 [of "x1 - 128" "x2 - 128" "x3 - 128" c "x0 - 240"] assms
  by (auto simp: utf8_encode_def scalar_value_def)

lemma utf8_class_some:
  assumes cl: "utf8_class x0 x1 x2 x3 = (Some c, n)"
  shows "scalar_value c \<and> utf8_encode c = take n [x0, x1, x2, x3]"
proof -
  consider "x0 < 128" | "128 \<le> x0 \<and> x0 < 192 \<or> 248 \<le> x0" | "192 \<le> x0" "x0 < 224"
    | "224 \<le> x0" "x0 < 240" | "240 \<le> x0" "x0 < 248" by linarith
  then show ?thesis
  proof cases
    case 1
    with cl show ?thesis by (auto simp: utf8_class_def utf8_encode_def scalar_value_def)
  next
    case 2
    with cl show ?thesis by (auto simp: utf8_class_def)
  next
    case 3
    with cl have "x1 div 64 = 2" "c = (x0 - 192) * 64 + (x1 - 128)" "\<not> c < 0x80" "n = 2"
      by (simp_all add: utf8_class_def Let_def split: if_splits)
    with 3 show ?thesis
      unfolding continuation_bounds using class_encode2 [of x0 x1 c] by (simp add: numeral_2_eq_2)
  next
    case 4
    with cl have "x1 div 64 = 2" "x2 div 64 = 2" "c = (x0 - 224) * 4096 + (x1 - 128) * 64 + (x2 - 128)"
      "\<not> (c < 0x800 \<or> (0xD800 \<le> c \<and> c \<le> 0xDFFF))" "n = 3"
      by (simp_all add: utf8_class_def Let_def split: if_splits)
    with 4 show ?thesis
      unfolding continuation_bounds using class_encode3 [of x0 x1 x2 c] by (simp add: numeral_3_eq_3)
  next
    case 5
    with cl have "x1 div 64 = 2" "x2 div 64 = 2" "x3 div 64 = 2"
      "c = (x0 - 240) * 262144 + (x1 - 128) * 4096 + (x2 - 128) * 64 + (x3 - 128)"
      "\<not> (c < 0x10000 \<or> 0x10FFFF < c)" "n = 4"
      by (simp_all add: utf8_class_def Let_def split: if_splits)
    with 5 show ?thesis
      unfolding continuation_bounds using class_encode4 [of x0 x1 x2 x3 c] by simp
  qed
qed

lemma utf8_class_length:
  assumes "utf8_class x0 x1 x2 x3 = (r, n)"
  shows "0 < n \<and> n \<le> 4 \<and> (1 < n \<longrightarrow> x1 div 64 = 2) \<and> (2 < n \<longrightarrow> x2 div 64 = 2) \<and> (3 < n \<longrightarrow> x3 div 64 = 2)"
  using assms unfolding utf8_class_def Let_def by (simp split: if_splits)

lemma digits_sum:
  "c = c div 64 * 64 + c mod 64"
  "c = c div 4096 * 4096 + c div 64 mod 64 * 64 + c mod (64 :: nat)"
  "c = c div 262144 * 262144 + c div 4096 mod 64 * 4096 + c div 64 mod 64 * 64 + c mod (64 :: nat)"
proof -
  have "c div 64 div 64 = c div 4096" "c div 4096 div 64 = c div 262144"
    using div_mult2_eq [of c 64 64] div_mult2_eq [of c 4096 64] by simp_all
  then have "c = c div 64 * 64 + c mod 64" "c div 64 = c div 4096 * 64 + c div 64 mod 64"
    "c div 4096 = c div 262144 * 64 + c div 4096 mod 64"
    using div_mult_mod_eq [of c 64] div_mult_mod_eq [of "c div 64" 64] div_mult_mod_eq [of "c div 4096" 64]
    by linarith+
  then show "c = c div 64 * 64 + c mod 64"
    "c = c div 4096 * 4096 + c div 64 mod 64 * 64 + c mod (64 :: nat)"
    "c = c div 262144 * 262144 + c div 4096 mod 64 * 4096 + c div 64 mod 64 * 64 + c mod (64 :: nat)"
    by linarith+
qed

lemma continuation_digit: "(128 + d mod 64) div 64 = (2 :: nat)"
  unfolding continuation_bounds by simp

lemma utf8_class_encode:
  assumes c: "scalar_value c" and x: "take (length (utf8_encode c)) [x0, x1, x2, x3] = utf8_encode c"
  shows "utf8_class x0 x1 x2 x3 = (Some c, length (utf8_encode c))"
proof -
  consider "c < 0x80" | "0x80 \<le> c" "c < 0x800" | "0x800 \<le> c" "c < 0x10000" | "0x10000 \<le> c" "c \<le> 0x10FFFF"
    using c unfolding scalar_value_def by linarith
  then show ?thesis
  proof cases
    case 1
    with x show ?thesis by (simp add: utf8_encode_def utf8_class_def)
  next
    case 2
    then have "x0 = 192 + c div 64" "x1 = 128 + c mod 64" "c div 64 < 32" using x
      by (simp_all add: utf8_encode_def less_mult_imp_div_less)
    with 2 show ?thesis
      using digits_sum(1) [of c] by (simp add: utf8_encode_def utf8_class_def continuation_digit)
  next
    case 3
    then have "x0 = 224 + c div 4096" "x1 = 128 + c div 64 mod 64" "x2 = 128 + c mod 64" "c div 4096 < 16"
      using x by (simp_all add: utf8_encode_def less_mult_imp_div_less)
    with 3 c show ?thesis
      using digits_sum(2) [of c] by (auto simp: utf8_encode_def utf8_class_def continuation_digit scalar_value_def)
  next
    case 4
    then have "x0 = 240 + c div 262144" "x1 = 128 + c div 4096 mod 64" "x2 = 128 + c div 64 mod 64"
      "x3 = 128 + c mod 64" "c div 262144 < 8"
      using x by (simp_all add: utf8_encode_def less_mult_imp_div_less)
    with 4 show ?thesis
      using digits_sum(3) [of c] by (simp add: utf8_encode_def utf8_class_def continuation_digit)
  qed
qed

lemma encode_length: "0 < length (utf8_encode c)" "length (utf8_encode c) \<le> 4"
  by (simp_all add: utf8_encode_def)

lemma nth_four: "i < 4 \<Longrightarrow> [f 0, f 1, f 2, f (3 :: nat)] ! i = f i"
  by (auto simp: less_Suc_eq numeral_eq_Suc)

lemma bytes_at_take:
  assumes "length bs \<le> 4"
  shows "bytes_at m s bs \<longleftrightarrow>
    take (length bs) [unat (m s), unat (m (s + 1)), unat (m (s + 2)), unat (m (s + 3))] = bs"
  using assms nth_four [of _ "\<lambda>i. unat (m (s + i))"]
  by (auto simp: bytes_at_def list_eq_iff_nth_eq)

lemma bytes_at_append:
  "bytes_at m s (xs @ ys) \<longleftrightarrow> bytes_at m s xs \<and> bytes_at m (s + length xs) ys"
proof -
  have "bytes_at m s (xs @ ys)" if "bytes_at m s xs" "bytes_at m (s + length xs) ys"
    unfolding bytes_at_def
  proof (intro allI impI)
    fix i assume i: "i < length (xs @ ys)"
    show "unat (m (s + i)) = (xs @ ys) ! i"
      using that i unfolding bytes_at_def
      by (cases "i < length xs") (auto simp: nth_append dest: spec [of _ "i - length xs"])
  qed
  moreover have "bytes_at m s xs \<and> bytes_at m (s + length xs) ys" if h: "bytes_at m s (xs @ ys)"
  proof -
    have "unat (m (s + length xs + i)) = ys ! i" if "i < length ys" for i
      using h that unfolding bytes_at_def by (auto simp: nth_append add.assoc dest: spec [of _ "length xs + i"])
    moreover have "unat (m (s + i)) = xs ! i" if "i < length xs" for i
      using h that unfolding bytes_at_def by (auto simp: nth_append dest: spec [of _ i])
    ultimately show ?thesis by (simp add: bytes_at_def)
  qed
  ultimately show ?thesis by blast
qed

lemma utf8_encode_nonzero: "0 < c \<Longrightarrow> bytes_at m s (utf8_encode c) \<Longrightarrow> m s \<noteq> 0"
  by (auto simp: bytes_at_def utf8_encode_def split: if_splits dest: spec [of _ 0])

lemma decode_encoded:
  assumes "scalar_value c" "0 < c" "bytes_at m s (utf8_encode c)"
  shows "utf8_decode m s = (word_of_nat c, s + length (utf8_encode c))"
proof -
  have "utf8_class (unat (m s)) (unat (m (s + 1))) (unat (m (s + 2))) (unat (m (s + 3))) =
      (Some c, length (utf8_encode c))"
    using assms(3) bytes_at_take [OF encode_length(2)] by (intro utf8_class_encode [OF assms(1)]) blast
  then show ?thesis
    using utf8_decode_class [of m s] utf8_encode_nonzero [OF assms(2,3)] by simp
qed

lemma decode_advance:
  assumes nz: "m s \<noteq> 0" and d: "utf8_decode m s = (cp, s')"
  shows "s < s'" "s' \<le> s + 4" "s \<le> i \<Longrightarrow> i < s' \<Longrightarrow> m i \<noteq> 0"
proof -
  obtain r n where cl: "utf8_class (unat (m s)) (unat (m (s + 1))) (unat (m (s + 2))) (unat (m (s + 3))) = (r, n)"
    by fastforce
  then have s': "s' = s + n" using utf8_decode_class [of m s, OF nz] d by (simp split: option.splits)
  note l = utf8_class_length [OF cl]
  show "s < s'" "s' \<le> s + 4" using l s' by auto
  assume i: "s \<le> i" "i < s'"
  then obtain k where k: "i = s + k" "k < n" using s' le_Suc_ex by fastforce
  with l have "k = 0 \<or> k = 1 \<or> k = 2 \<or> k = 3" by linarith
  with k l nz have "unat (m i) div 64 = 2 \<or> i = s" by (elim disjE) simp_all
  then show "m i \<noteq> 0" using nz by auto
qed

lemma strlen_terminates:
  assumes "m z = 0" "s \<le> z"
  shows "\<exists>n. utf8_strlen_loop m s k = Some n"
  using assms
proof (induction "z - s" arbitrary: s k rule: less_induct)
  case less
  show ?case
  proof (cases "m s = 0")
    case True
    then show ?thesis by (simp add: utf8_strlen_loop.simps [of m s])
  next
    case False
    obtain cp s' where d: "utf8_decode m s = (cp, s')" by fastforce
    note adv = decode_advance [OF False d]
    have "s' \<le> z" using adv(3) [of z] less.prems by (meson not_le)
    moreover have "z - s' < z - s" using adv(1) less.prems calculation by linarith
    ultimately have "\<exists>n. utf8_strlen_loop m s' (k + 1) = Some n" using less.hyps less.prems(1) by blast
    then show ?thesis using False d by (simp add: utf8_strlen_loop.simps [of m s])
  qed
qed

lemma strlen_loop_encoded:
  assumes "\<forall>c \<in> set cs. scalar_value c \<and> 0 < c" "bytes_at m s (concat (map utf8_encode cs))"
    "m (s + length (concat (map utf8_encode cs))) = 0"
  shows "utf8_strlen_loop m s k = Some (k + word_of_nat (length cs))"
  using assms
proof (induction cs arbitrary: s k)
  case Nil
  then show ?case by (simp add: utf8_strlen_loop.simps [of m s])
next
  case (Cons c cs)
  have b: "bytes_at m s (utf8_encode c)" "bytes_at m (s + length (utf8_encode c)) (concat (map utf8_encode cs))"
    using Cons.prems(2) by (simp_all add: bytes_at_append)
  have "m s \<noteq> 0" using utf8_encode_nonzero [OF _ b(1)] Cons.prems(1) by simp
  then show ?case
    using Cons.IH [OF _ b(2), of "k + 1"] Cons.prems decode_encoded [OF _ _ b(1)]
    by (simp add: utf8_strlen_loop.simps [of m s] add.assoc)
qed

subsection \<open>Properties\<close>

text \<open>
  Round trip: for every Unicode scalar value other than the terminator, decoding its
  RFC 3629 encoding gives the value back and advances over exactly its bytes.
\<close>

lemma utf8_roundtrip:
  assumes "scalar_value c" "0 < c" "bytes_at m s (utf8_encode c)"
  shows "utf8_decode m s = (word_of_nat c, s + length (utf8_encode c))"
  by (rule decode_encoded [OF assms])

definition euro_memory :: "nat \<Rightarrow> u8" where
  "euro_memory = (\<lambda>_. 0)(10 := 0xE2, 11 := 0x82, 12 := 0xAC)"

lemma euro_encode: "utf8_encode 0x20AC = [0xE2, 0x82, 0xAC]" "scalar_value 0x20AC"
  by (simp_all add: utf8_encode_def scalar_value_def)

lemma euro_bytes: "bytes_at euro_memory 10 [0xE2, 0x82, 0xAC]"
  by (simp add: bytes_at_take euro_memory_def)

text \<open>
  C10. Soundness and memory safety: on a string terminated at \<open>z\<close>, decoding a non-zero byte
  advances by one to four bytes and never beyond the terminator; a result other than the
  replacement character is a Unicode scalar value whose encoding is exactly the bytes consumed
  (so overlong forms, surrogates and values above U+10FFFF are never returned).
\<close>

theorem utf8_decode_sound:
  assumes nz: "m s \<noteq> 0" and z: "m z = 0" "s \<le> z" and d: "utf8_decode m s = (cp, s')"
  shows "s < s' \<and> s' \<le> s + 4 \<and> s' \<le> z \<and>
    (cp \<noteq> UTF8_REPLACEMENT \<longrightarrow> scalar_value (unat cp) \<and> bytes_at m s (utf8_encode (unat cp)) \<and>
       s' = s + length (utf8_encode (unat cp)))"
proof -
  note adv = decode_advance [OF nz d]
  have "s' \<le> z" using adv(3) [of z] z by (meson not_le)
  moreover have "scalar_value (unat cp) \<and> bytes_at m s (utf8_encode (unat cp)) \<and>
      s' = s + length (utf8_encode (unat cp))" if "cp \<noteq> UTF8_REPLACEMENT"
  proof -
    obtain r n where cl: "utf8_class (unat (m s)) (unat (m (s + 1))) (unat (m (s + 2))) (unat (m (s + 3))) = (r, n)"
      by fastforce
    with utf8_decode_class [of m s, OF nz] d that obtain c where c: "r = Some c" "cp = word_of_nat c" "s' = s + n"
      by (auto split: option.splits)
    note e = utf8_class_some [OF cl [unfolded c(1)]]
    have n4: "n \<le> 4" using utf8_class_length [OF cl] by simp
    have len: "length (utf8_encode c) = n" using e n4 by simp
    have "unat cp = c" using e by (auto simp: c(2) unat_of_nat scalar_value_def)
    then show ?thesis
      using e c(3) len n4 bytes_at_take [of "utf8_encode c" m s] by simp
  qed
  ultimately show ?thesis using adv by blast
qed

theorem utf8_decode_sound_witness:
  "\<exists>cp s'. utf8_decode euro_memory 10 = (cp, s') \<and> 10 < s' \<and> s' \<le> 10 + 4 \<and> s' \<le> 20"
proof -
  obtain cp s' where d: "utf8_decode euro_memory 10 = (cp, s')" by fastforce
  from utf8_decode_sound [OF _ _ _ d, of 20] d show ?thesis by (auto simp: euro_memory_def)
qed

text \<open>
  \<^verbatim>\<open>utf8_strlen\<close> returns on every terminated string, and on a well-formed one its result
  is the number of code points (modulo \<open>2^32\<close>).
\<close>

lemma utf8_strlen_counts:
  assumes "m z = 0" "s \<le> z"
  shows "(\<exists>n. utf8_strlen m s = Some n) \<and>
    (\<forall>cs. (\<forall>c \<in> set cs. scalar_value c \<and> 0 < c) \<and> bytes_at m s (concat (map utf8_encode cs)) \<and>
       m (s + length (concat (map utf8_encode cs))) = 0 \<longrightarrow>
       utf8_strlen m s = Some (word_of_nat (length cs)))"
  using strlen_terminates [of m z s 0, OF assms] strlen_loop_encoded [of _ m s 0] by (simp add: utf8_strlen_def)

end
