(* ===== verification/Blocking.thy ===== *)
theory Blocking
  imports Proc
begin

text \<open>
  Facts about the scheduler that the blocking components (futexes, semaphores, monitors)
  share: a task becomes BLOCKED only by its own \<^verbatim>\<open>sched_block\<close>, and what a sequence of
  \<^verbatim>\<open>sched_unblock\<close> calls does to the task states.
\<close>

lemma sched_unblock_state [simp]:
  "state_of (sched_unblock s (Some t)) x = (if x = t \<and> state_of s t = TCB_BLOCKED then TCB_READY else state_of s x)"
  by (simp add: sched_unblock_def)

lemma wake_all_state:
  "state_of (wake_all s ws) x = (if x \<in> set ws \<and> state_of s x = TCB_BLOCKED then TCB_READY else state_of s x)"
  by (induction ws arbitrary: s) auto

lemma sched_block_state:
  assumes inv: "sched_inv s" and c: "current_task s = Some c" "c \<noteq> IDLE_SLOT"
  obtains s' where "sched_block s = Some s'" "sched_inv s'" "proc_same s s'" "current_task s' \<noteq> Some c"
    "\<forall>t. state_of s' t = TCB_BLOCKED \<longleftrightarrow> t = c \<or> state_of s t = TCB_BLOCKED" "eff_prio_slot s' = eff_prio_slot s"
proof -
  obtain qs where s: "sched_wf s qs" "state_of s c = TCB_RUNNING" "IDLE_SLOT < task_count s"
    "state_of s IDLE_SLOT \<in> {TCB_READY, TCB_RUNNING}" "\<And>t. t < task_count s \<Longrightarrow> state_of s t = TCB_RUNNING \<Longrightarrow> t = c"
    using inv c(1) unfolding sched_inv_def by (metis option.inject sched_wf_current)
  let ?s = "set_state s c TCB_BLOCKED"
  have wf: "sched_wf ?s qs" by (rule sched_wf_leave [OF s(1) c(1)]) simp_all
  have "state_of s IDLE_SLOT = TCB_READY" using s(3-5) c(2) by blast
  then have "qs (unat (eff_prio_slot s IDLE_SLOT)) \<noteq> []" using sched_wfD(3) [OF s(1,3)] by auto
  then obtain p where p: "top_queue qs p" using top_queue_exists by (metis prio_bound)
  then obtain n ts where q: "qs p = n # ts" "p < 256" by (auto simp: top_queue_def neq_Nil_conv)
  have n: "state_of s n = TCB_READY" using sched_wfD(2) [OF s(1) q(2), of n] q(1) by simp
  obtain s' where s': "schedule_locked ?s = Some s'" "current_task s' = Some n"
    "\<And>t. state_of s' t = (if t = n then TCB_RUNNING
      else if t = c \<and> state_of ?s c = TCB_RUNNING then TCB_READY else state_of ?s t)" "eff_prio_slot s' = eff_prio_slot ?s"
    using schedule_top [OF wf _ p q(1)] c(1) by (metis set_state_simps(5))
  have b: "sched_block s = Some s'" using s'(1) c(1) by (simp add: sched_block_def)
  moreover have "sched_inv s'" using sched_block_inv [OF inv] c b by (metis option.inject)
  moreover have "proc_same s s'" using b s(2) c(1) by (intro sched_block_same) auto
  moreover have st: "state_of s' t = (if t = n then TCB_RUNNING else if t = c then TCB_BLOCKED else state_of s t)" for t
    using s'(3) [of t] by simp
  moreover have "n \<noteq> c" using n s(2) by auto
  moreover have "eff_prio_slot s' = eff_prio_slot s" unfolding s'(4) by (simp add: eff_prio_slot_def fun_eq_iff)
  ultimately show ?thesis
    using that [of s'] s'(2) n by simp
qed

lemma sched_switch_state:
  "state_of (sched_switch s c n) t = TCB_BLOCKED \<Longrightarrow> state_of s t = TCB_BLOCKED"
  by (auto simp: sched_switch_def Let_def split: if_splits)

lemma sched_pick_pool:
  assumes "sched_pick c s = Some y" shows "task_pool (snd y) = task_pool s"
proof (rule sched_pick.raw_induct [where P = "\<lambda>_ s y. task_pool (snd y) = task_pool s", OF _ assms])
  fix pick prev s and y :: "nat option \<times> sched"
  assume IH: "\<And>prev s y. pick prev s = Some y \<Longrightarrow> task_pool (snd y) = task_pool s"
    and eq: "(case bitmap_find_first (ready_bitmap s) of None \<Rightarrow> Some (None, s)
      | Some p \<Rightarrow> if 255 < p then Some (None, s)
          else case rq_pop s (word_of_nat p) of (None, s') \<Rightarrow> pick prev s'
               | (Some n, s') \<Rightarrow> if n = prev \<or> state_of s' n \<noteq> TCB_READY then pick prev s'
                                 else Some (Some n, s')) = Some y"
  show "task_pool (snd y) = task_pool s"
  proof (cases "bitmap_find_first (ready_bitmap s)")
    case (Some p)
    obtain r s1 where pop: "rq_pop s (word_of_nat p) = (r, s1)" by fastforce
    have "task_pool s1 = task_pool s" using rq_pop_same [OF pop] by simp
    with eq IH [of _ s1 y] show ?thesis
      unfolding Some pop option.case prod.case by (auto split: if_splits option.splits)
  qed (use eq in auto)
qed

lemma schedule_no_block:
  assumes "schedule_locked s = Some s'" "state_of s' t = TCB_BLOCKED" shows "state_of s t = TCB_BLOCKED"
proof -
  obtain c n s1 where c: "sched_pick c s = Some (n, s1)"
    and s': "s' = (case n of None \<Rightarrow> s1 | Some n \<Rightarrow> sched_switch s1 c n)"
    using assms by (auto simp: schedule_locked_def Option.bind_eq_Some_conv)
  have "state_of s1 t = TCB_BLOCKED" using assms(2) s' sched_switch_state by (auto split: option.splits)
  then show ?thesis using sched_pick_pool [OF c] by simp
qed

text \<open>The wake-ups of an alarm included, a tick blocks nobody.\<close>

lemma itimer_cases:
  "sched_tick_itimer alarm j s i = s \<or>
   (\<exists>pid p. sched_tick_itimer alarm j s i = (alarm pid (s\<lparr>proc_ctx := p\<rparr>))\<lparr>need_resched := True\<rparr>)"
proof (cases "\<not> p_in_use (proc_ctx s i) \<or> p_itimer_expires_ms (proc_ctx s i) = 0 \<or> j < p_itimer_expires_ms (proc_ctx s i)")
  case True
  then show ?thesis by (auto simp: sched_tick_itimer_def Let_def)
next
  case False
  then show ?thesis unfolding sched_tick_itimer_def Let_def by (intro disjI2) (simp split del: if_split, blast)
qed

lemma itimer_no_block:
  "alarm_ok alarm \<Longrightarrow> state_of (sched_tick_itimer alarm j s i) t = TCB_BLOCKED \<Longrightarrow> state_of s t = TCB_BLOCKED"
proof -
  assume al: "alarm_ok alarm" and b: "state_of (sched_tick_itimer alarm j s i) t = TCB_BLOCKED"
  consider "state_of (sched_tick_itimer alarm j s i) t = state_of s t"
    | pid p where "state_of (sched_tick_itimer alarm j s i) t = state_of (alarm pid (s\<lparr>proc_ctx := p\<rparr>)) t"
    using itimer_cases [of alarm j s i] by fastforce
  then show ?thesis
  proof cases
    case (2 pid p)
    obtain ws where "alarm pid (s\<lparr>proc_ctx := p\<rparr>) = wake_all (s\<lparr>proc_ctx := p\<rparr>) ws"
      using al unfolding alarm_ok_def by blast
    with 2 b show ?thesis by (simp add: wake_all_state split: if_splits)
  qed (use b in simp)
qed

lemma tick_no_block:
  assumes "alarm_ok alarm" "state_of (sched_tick alarm j s) t = TCB_BLOCKED" shows "state_of s t = TCB_BLOCKED"
proof -
  have "state_of (foldl (sched_tick_itimer alarm j) u is) t = TCB_BLOCKED \<Longrightarrow> state_of u t = TCB_BLOCKED" for u "is"
  proof (induction "is" arbitrary: u)
    case (Cons i "is")
    then show ?case using itimer_no_block [OF assms(1), of j u i t] by simp
  qed simp
  moreover have "state_of (sched_tick_account j s c) t = state_of s t" for c
    by (simp add: sched_tick_account_def Let_def)
  ultimately show ?thesis
    using assms(2) unfolding sched_tick_def by (cases "current_task s") (metis option.case)+
qed

lemma sched_step_no_block:
  assumes "sched_inv s" "sched_step s s'" "state_of s' t = TCB_BLOCKED"
  shows "state_of s t = TCB_BLOCKED \<or> current_task s = Some t \<and> sched_block s = Some s'"
  using assms(2)
proof cases
  case step_schedule then show ?thesis using schedule_no_block assms(3) by (auto simp: schedule_def)
next
  case step_yield
  then show ?thesis
    using schedule_no_block [OF _ assms(3), of "case current_task s of None \<Rightarrow> s | Some c \<Rightarrow> set_ticks s c 0"]
    by (simp add: sched_yield_def split: option.splits if_splits)
next
  case step_block
  obtain c where c: "current_task s = Some c" using assms(1) by (auto simp: sched_inv_def)
  have "c \<noteq> IDLE_SLOT" using step_block(1) c by simp
  then obtain s2 where "sched_block s = Some s2" "\<forall>t. state_of s2 t = TCB_BLOCKED \<longleftrightarrow> t = c \<or> state_of s t = TCB_BLOCKED"
    by (rule sched_block_state [OF assms(1) c])
  with step_block assms(3) c show ?thesis by auto
next
  case (step_unblock u) then show ?thesis using assms(3) by (auto split: if_splits)
next
  case step_donate
  then show ?thesis using donate_priority_eq [OF assms(1)] assms(3) by (metis option.inject prod.inject)
next
  case step_clear
  then show ?thesis using clear_donation_eq [OF assms(1)] assms(3) by (metis option.inject)
next
  case step_tick then show ?thesis using tick_no_block assms(3) by blast
qed

text \<open>What the donations keep of the scheduler.\<close>

definition sched_kept :: "sched \<Rightarrow> sched \<Rightarrow> bool" where
  "sched_kept s s' \<longleftrightarrow>
     sched_inv s' \<and> proc_same s s' \<and> task_pool s' = task_pool s \<and> current_task s' = current_task s"

lemma sched_keptD:
  assumes "sched_kept s s'"
  shows "sched_inv s'" "proc_same s s'" "task_pool s' = task_pool s" "current_task s' = current_task s"
    "task_count s' = task_count s"
  using assms by (auto simp: sched_kept_def proc_same_def)

lemma sched_kept_refl: "sched_inv s \<Longrightarrow> sched_kept s s"
  by (simp add: sched_kept_def)

lemma sched_kept_trans: "sched_kept a b \<Longrightarrow> sched_kept b c \<Longrightarrow> sched_kept a c"
  by (auto simp: sched_kept_def intro: proc_same_trans)

lemma clear_kept:
  assumes "sched_inv s" "t < task_count s"
  shows "\<exists>s'. sched_task_clear_donation s (Some t) = Some s' \<and> sched_kept s s'"
  using clear_donation_eq [OF assms] clear_donation_same unfolding sched_kept_def by metis

lemma donate_kept:
  assumes "sched_inv s" "t < task_count s"
  shows "\<exists>b s'. sched_task_donate_priority s (Some t) d = Some (b, s') \<and> sched_kept s s'"
  using donate_priority_eq [OF assms] donate_same unfolding sched_kept_def by metis

lemma task_inv_kept: "task_inv s \<Longrightarrow> sched_kept s s' \<Longrightarrow> task_inv s'"
  by (auto simp: task_inv_def sched_kept_def intro: proc_inv_same)

lemma task_inv_sched: "task_inv s \<Longrightarrow> sched_step s s' \<Longrightarrow> task_inv s'"
  using task_step_inv task_step.sched by blast

lemma task_invD: "task_inv s \<Longrightarrow> sched_inv s" "task_inv s \<Longrightarrow> proc_inv s"
  by (simp_all add: task_inv_def)

text \<open>A bounded loop whose body may not return.\<close>

fun ofold :: "('a \<Rightarrow> 's \<Rightarrow> 's option) \<Rightarrow> 'a list \<Rightarrow> 's \<Rightarrow> 's option" where
  "ofold f [] s = Some s"
| "ofold f (x # xs) s = f x s \<bind> ofold f xs"

lemma ofold_inv:
  assumes "\<And>x sk. x \<in> set xs \<Longrightarrow> P sk \<Longrightarrow> \<exists>sk'. f x sk = Some sk' \<and> P sk'" "P sk"
  shows "\<exists>sk'. ofold f xs sk = Some sk' \<and> P sk'"
  using assms
proof (induction xs arbitrary: sk)
  case (Cons x xs)
  obtain sk1 where "f x sk = Some sk1" "P sk1" using Cons.prems by auto
  moreover have "\<exists>sk'. ofold f xs sk1 = Some sk' \<and> P sk'" using Cons.prems(1) calculation(2) by (intro Cons.IH) auto
  ultimately show ?case by simp
qed simp

end
