(* ===== verification/Futex.thy ===== *)
theory Futex
  imports Blocking
begin

text \<open>
  User-space futexes, \<^verbatim>\<open>kernel/futex.c\<close>: 256 hash buckets of waiting tasks, each an
  intrusive FIFO over the table of waiters (one per task slot). The wait operation is split at
  \<^verbatim>\<open>sched_block\<close>: what the caller does before it leaves the CPU and what it does when it runs
  again. The word behind a user address is read through the address space
  (\<^verbatim>\<open>mmu_space_resolve_ptr\<close> and the copy), a parameter of the model. The abstract object is a
  map from keys (process slot, address) to FIFO lists of tasks; the buckets refine it.
\<close>

subsection \<open>Data\<close>

definition FUTEX_BUCKET_COUNT :: nat where "FUTEX_BUCKET_COUNT = 256"

definition FUTEX_WAIT_REASON_NONE :: u8 where "FUTEX_WAIT_REASON_NONE = 0"

definition FUTEX_WAIT_REASON_WAKE :: u8 where "FUTEX_WAIT_REASON_WAKE = 1"

definition MMU_USER_BASE :: u64 where "MMU_USER_BASE = 0x0000007FC0000000"

definition MMU_USER_LIMIT :: u64 where "MMU_USER_LIMIT = 0x0000008000000000"

record futex_waiter =
  w_task :: "nat option"
  w_uaddr :: u64
  w_proc_slot :: nat
  w_queued :: bool
  w_wake_reason :: u8

text \<open>The \<^verbatim>\<open>next\<close> fields of the waiters are the map \<open>w_next\<close>.\<close>

record futex =
  futex_buckets :: "nat \<Rightarrow> fifo"
  futex_waiters :: "nat \<Rightarrow> futex_waiter"
  w_next :: links

definition set_waiter :: "futex \<Rightarrow> nat \<Rightarrow> futex_waiter \<Rightarrow> futex" where
  "set_waiter f w v = f\<lparr>futex_waiters := (futex_waiters f)(w := v)\<rparr>"

subsection \<open>Keys and addresses\<close>

definition futex_hash :: "nat \<Rightarrow> u64 \<Rightarrow> nat" where
  "futex_hash slot uaddr =
     unat ((drop_bit 2 uaddr XOR of_nat slot * 131) AND of_nat (FUTEX_BUCKET_COUNT - 1))"

definition futex_task_index :: "sched \<Rightarrow> nat option \<Rightarrow> nat option" where
  "futex_task_index s task = for_find (\<lambda>i. sched_task_at s i = task) 0 (task_count s)"

definition futex_waiter_of :: "sched \<Rightarrow> nat option \<Rightarrow> nat option" where
  "futex_waiter_of s task =
     (case futex_task_index s task of
        None \<Rightarrow> None
      | Some i \<Rightarrow> if i \<ge> SCHED_MAX_TASKS then None else Some i)"

definition futex_validate_uaddr :: "sched \<Rightarrow> nat option \<Rightarrow> u64 \<Rightarrow> errno + unit" where
  "futex_validate_uaddr s task uaddr =
     (if task = None \<or> \<not> sched_task_is_user s task then Inl EPERM
      else if uaddr AND 3 \<noteq> 0 then Inl EINVAL
      else if uaddr < MMU_USER_BASE \<or> uaddr + 4 > MMU_USER_LIMIT then Inl EFAULT
      else Inr ())"

text \<open>\<open>load space uaddr\<close> is the word at \<open>uaddr\<close>, if \<^verbatim>\<open>mmu_space_resolve_ptr\<close> resolves it.\<close>

definition futex_load_u32_task ::
  "(nat \<Rightarrow> u64 \<Rightarrow> u32 option) \<Rightarrow> sched \<Rightarrow> nat option \<Rightarrow> u64 \<Rightarrow> errno + u32" where
  "futex_load_u32_task load s task uaddr =
     (case futex_validate_uaddr s task uaddr of
        Inl e \<Rightarrow> Inl e
      | Inr _ \<Rightarrow>
          (case sched_task_space s task of
             None \<Rightarrow> Inl EFAULT
           | Some space \<Rightarrow> (case load space uaddr of None \<Rightarrow> Inl EFAULT | Some v \<Rightarrow> Inr v)))"

definition futex_waiter_matches :: "futex \<Rightarrow> nat \<Rightarrow> nat \<Rightarrow> u64 \<Rightarrow> bool" where
  "futex_waiter_matches f w slot uaddr \<longleftrightarrow>
     w_queued (futex_waiters f w) \<and> w_proc_slot (futex_waiters f w) = slot
     \<and> w_uaddr (futex_waiters f w) = uaddr"

subsection \<open>Buckets\<close>

definition futex_waiter_zero :: futex_waiter where
  "futex_waiter_zero =
     \<lparr>w_task = None, w_uaddr = 0, w_proc_slot = 0, w_queued = False, w_wake_reason = FUTEX_WAIT_REASON_NONE\<rparr>"

definition futex_waiter_reset :: "futex \<Rightarrow> nat \<Rightarrow> futex" where
  "futex_waiter_reset f w = (set_waiter f w futex_waiter_zero)\<lparr>w_next := (w_next f)(w := None)\<rparr>"

definition futex_bucket_append :: "futex \<Rightarrow> nat \<Rightarrow> nat \<Rightarrow> futex" where
  "futex_bucket_append f b w =
     (let (nx, q) = fifo_push (w_next f) (futex_buckets f b) w
      in set_waiter (f\<lparr>w_next := nx, futex_buckets := (futex_buckets f)(b := q)\<rparr>) w
           ((futex_waiters f w)\<lparr>w_queued := True\<rparr>))"

definition futex_bucket_remove :: "futex \<Rightarrow> nat \<Rightarrow> nat \<Rightarrow> futex option" where
  "futex_bucket_remove f b w =
     do {
       (found, nx, q) \<leftarrow> fifo_remove (w_next f) (futex_buckets f b) w;
       Some (if found
             then set_waiter (f\<lparr>w_next := nx, futex_buckets := (futex_buckets f)(b := q)\<rparr>) w
                    ((futex_waiters f w)\<lparr>w_queued := False\<rparr>)
             else f)
     }"

text \<open>Taking \<open>cur\<close> out of bucket \<open>b\<close> behind \<open>prev\<close>: the block the three scans share.\<close>

definition futex_unlink :: "futex \<Rightarrow> nat \<Rightarrow> nat option \<Rightarrow> nat \<Rightarrow> futex" where
  "futex_unlink f b prev cur =
     (let (nx, q) = fifo_unlink (w_next f) (futex_buckets f b) prev cur
      in f\<lparr>w_next := nx, futex_buckets := (futex_buckets f)(b := q)\<rparr>)"

definition futex_mark_woken :: "futex \<Rightarrow> nat \<Rightarrow> futex" where
  "futex_mark_woken f w =
     set_waiter f w ((futex_waiters f w)\<lparr>w_queued := False, w_wake_reason := FUTEX_WAIT_REASON_WAKE\<rparr>)"

text \<open>Moving an unlinked waiter to the tail of the bucket of its new address.\<close>

definition futex_move :: "futex \<Rightarrow> nat \<Rightarrow> nat \<Rightarrow> u64 \<Rightarrow> futex" where
  "futex_move f b w uaddr2 =
     (let f = set_waiter f w ((futex_waiters f w)\<lparr>w_uaddr := uaddr2\<rparr>);
          (nx, q) = fifo_push (w_next f) (futex_buckets f b) w
      in f\<lparr>w_next := nx, futex_buckets := (futex_buckets f)(b := q)\<rparr>)"

subsection \<open>Waking and requeueing the waiters of a key\<close>

text \<open>
  The loops walk a bucket with the predecessor in hand; \<open>wl\<close> is the part of the wake list
  already filled, whose length is \<^verbatim>\<open>woke\<close>. \<open>None\<close> would be a loop that does not end.
\<close>

partial_function (option) futex_wake_loop ::
  "nat \<Rightarrow> nat \<Rightarrow> u64 \<Rightarrow> nat \<Rightarrow> futex \<Rightarrow> nat option \<Rightarrow> nat option \<Rightarrow> nat option list
   \<Rightarrow> (nat option list \<times> futex) option" where
  "futex_wake_loop b slot uaddr count f prev cur wl =
     (case cur of
        None \<Rightarrow> Some (wl, f)
      | Some c \<Rightarrow>
          if \<not> length wl < count then Some (wl, f)
          else
            (let nxt = w_next f c
             in if futex_waiter_matches f c slot uaddr
                then futex_wake_loop b slot uaddr count
                       (futex_mark_woken (futex_unlink f b prev c) c) prev nxt
                       (wl @ [w_task (futex_waiters f c)])
                else futex_wake_loop b slot uaddr count f (Some c) nxt wl))"

definition futex_wake_key_locked :: "futex \<Rightarrow> nat \<Rightarrow> u64 \<Rightarrow> u32 \<Rightarrow> (nat option list \<times> futex) option" where
  "futex_wake_key_locked f slot uaddr count =
     (let b = futex_hash slot uaddr
      in futex_wake_loop b slot uaddr (unat count) f None (fhead (futex_buckets f b)) [])"

partial_function (option) futex_requeue_loop ::
  "nat \<Rightarrow> nat \<Rightarrow> nat \<Rightarrow> u64 \<Rightarrow> u64 \<Rightarrow> nat \<Rightarrow> nat \<Rightarrow> futex \<Rightarrow> nat option \<Rightarrow> nat option \<Rightarrow> nat option list
   \<Rightarrow> nat \<Rightarrow> (nat option list \<times> nat \<times> futex) option" where
  "futex_requeue_loop b b2 slot uaddr uaddr2 wake_count requeue_count f prev cur wl moved =
     (case cur of
        None \<Rightarrow> Some (wl, moved, f)
      | Some c \<Rightarrow>
          if \<not> (length wl < wake_count \<or> moved < requeue_count) then Some (wl, moved, f)
          else
            (let nxt = w_next f c
             in if \<not> futex_waiter_matches f c slot uaddr
                then futex_requeue_loop b b2 slot uaddr uaddr2 wake_count requeue_count f (Some c) nxt wl moved
                else if length wl < wake_count
                then futex_requeue_loop b b2 slot uaddr uaddr2 wake_count requeue_count
                       (futex_mark_woken (futex_unlink f b prev c) c) prev nxt
                       (wl @ [w_task (futex_waiters f c)]) moved
                else if moved < requeue_count \<and> uaddr2 \<noteq> uaddr
                then futex_requeue_loop b b2 slot uaddr uaddr2 wake_count requeue_count
                       (futex_move (futex_unlink f b prev c) b2 c uaddr2) prev nxt wl (Suc moved)
                else futex_requeue_loop b b2 slot uaddr uaddr2 wake_count requeue_count f (Some c) nxt wl moved))"

definition futex_requeue_key_locked ::
  "futex \<Rightarrow> nat \<Rightarrow> u64 \<Rightarrow> u32 \<Rightarrow> u32 \<Rightarrow> u64 \<Rightarrow> (nat option list \<times> nat \<times> futex) option" where
  "futex_requeue_key_locked f slot uaddr wake_count requeue_count uaddr2 =
     (let b = futex_hash slot uaddr
      in futex_requeue_loop b (futex_hash slot uaddr2) slot uaddr uaddr2 (unat wake_count)
           (unat requeue_count) f None (fhead (futex_buckets f b)) [] 0)"

subsection \<open>System calls\<close>

definition futex_init :: futex where
  "futex_init = \<lparr>futex_buckets = (\<lambda>_. fifo_empty), futex_waiters = (\<lambda>_. futex_waiter_zero), w_next = (\<lambda>_. None)\<rparr>"

text \<open>Dequeue if queued, as the three clean-up paths do.\<close>

definition futex_dequeue :: "futex \<Rightarrow> nat \<Rightarrow> futex option" where
  "futex_dequeue f w =
     (let v = futex_waiters f w
      in if w_queued v then futex_bucket_remove f (futex_hash (w_proc_slot v) (w_uaddr v)) w else Some f)"

definition futex_enqueue :: "futex \<Rightarrow> nat \<Rightarrow> nat \<Rightarrow> nat \<Rightarrow> u64 \<Rightarrow> futex option" where
  "futex_enqueue f w task slot uaddr =
     do {
       f \<leftarrow> futex_dequeue f w;
       Some (futex_bucket_append
               (set_waiter f w ((futex_waiters f w)\<lparr>w_task := Some task, w_uaddr := uaddr,
                  w_proc_slot := slot, w_wake_reason := FUTEX_WAIT_REASON_NONE\<rparr>))
               (futex_hash slot uaddr) w)
     }"

text \<open>
  \<open>Some (Inl e, \<dots>)\<close> is an early return, \<open>Some (Inr w, \<dots>)\<close> the state in which the caller has
  left the CPU with its waiter \<open>w\<close> queued; \<open>futex_wait_resume\<close> is the rest of the call.
\<close>

definition futex_wait_current ::
  "(nat \<Rightarrow> u64 \<Rightarrow> u32 option) \<Rightarrow> sched \<Rightarrow> futex \<Rightarrow> u64 \<Rightarrow> u32 \<Rightarrow> u64
   \<Rightarrow> ((errno + nat) \<times> sched \<times> futex) option" where
  "futex_wait_current load s f uaddr expected timeout_uva =
     (case current_task s of
        None \<Rightarrow> Some (Inl EPERM, s, f)
      | Some cur \<Rightarrow>
          if timeout_uva \<noteq> 0 then Some (Inl ENOSYS, s, f)
          else
            (case futex_load_u32_task load s (Some cur) uaddr of
               Inl e \<Rightarrow> Some (Inl e, s, f)
             | Inr v \<Rightarrow>
                 if v \<noteq> expected then Some (Inl EAGAIN, s, f)
                 else
                   (case futex_waiter_of s (Some cur) of
                      None \<Rightarrow> Some (Inl EINVAL, s, f)
                    | Some w \<Rightarrow>
                        do {
                          f' \<leftarrow> futex_enqueue f w cur (sched_task_proc_slot s (Some cur)) uaddr;
                          s' \<leftarrow> sched_block s;
                          Some (Inr w, s', f')
                        })))"

definition futex_wait_resume :: "futex \<Rightarrow> nat \<Rightarrow> ((errno + unit) \<times> futex) option" where
  "futex_wait_resume f w =
     do {
       f \<leftarrow> futex_dequeue f w;
       Some ((if w_wake_reason (futex_waiters f w) = FUTEX_WAIT_REASON_WAKE then Inr () else Inl EINTR),
             futex_waiter_reset f w)
     }"

text \<open>The loop over the wake list after the interrupts are restored.\<close>

definition futex_unblock_one :: "sched \<Rightarrow> nat option \<Rightarrow> sched" where
  "futex_unblock_one s t =
     (case t of
        None \<Rightarrow> s
      | Some i \<Rightarrow> if state_of s i = TCB_BLOCKED then sched_unblock s (Some i) else s)"

definition futex_unblock_all :: "sched \<Rightarrow> nat option list \<Rightarrow> sched" where
  "futex_unblock_all s wl = foldl futex_unblock_one s wl"

definition futex_wake_current ::
  "sched \<Rightarrow> futex \<Rightarrow> u64 \<Rightarrow> u32 \<Rightarrow> ((errno + nat) \<times> sched \<times> futex) option" where
  "futex_wake_current s f uaddr count =
     (case current_task s of
        None \<Rightarrow> Some (Inl EPERM, s, f)
      | Some cur \<Rightarrow>
          (case futex_validate_uaddr s (Some cur) uaddr of
             Inl e \<Rightarrow> Some (Inl e, s, f)
           | Inr _ \<Rightarrow>
               if count = 0 then Some (Inr 0, s, f)
               else
                 do {
                   (wl, f') \<leftarrow> futex_wake_key_locked f (sched_task_proc_slot s (Some cur)) uaddr count;
                   Some (Inr (length wl), futex_unblock_all s wl, f')
                 }))"

definition futex_requeue_current ::
  "(nat \<Rightarrow> u64 \<Rightarrow> u32 option) \<Rightarrow> sched \<Rightarrow> futex \<Rightarrow> u64 \<Rightarrow> u32 \<Rightarrow> u32 \<Rightarrow> u64 \<Rightarrow> bool \<Rightarrow> u32
   \<Rightarrow> ((errno + nat) \<times> sched \<times> futex) option" where
  "futex_requeue_current load s f uaddr wake_count requeue_count uaddr2 cmp_enabled cmp_value =
     (case current_task s of
        None \<Rightarrow> Some (Inl EPERM, s, f)
      | Some cur \<Rightarrow>
          (case futex_validate_uaddr s (Some cur) uaddr of
             Inl e \<Rightarrow> Some (Inl e, s, f)
           | Inr _ \<Rightarrow>
               (case futex_validate_uaddr s (Some cur) uaddr2 of
                  Inl e \<Rightarrow> Some (Inl e, s, f)
                | Inr _ \<Rightarrow>
                    (case (if cmp_enabled
                           then (case futex_load_u32_task load s (Some cur) uaddr of
                                   Inl e \<Rightarrow> Inl e
                                 | Inr v \<Rightarrow> if v \<noteq> cmp_value then Inl EAGAIN else Inr ())
                           else Inr ()) of
                       Inl e \<Rightarrow> Some (Inl e, s, f)
                     | Inr _ \<Rightarrow>
                         do {
                           (wl, moved, f') \<leftarrow> futex_requeue_key_locked f (sched_task_proc_slot s (Some cur))
                                                uaddr wake_count requeue_count uaddr2;
                           let count = length wl + moved;
                           Some (Inr count,
                                 (if wake_count > 0
                                  then futex_unblock_all s (take (min count (unat wake_count)) wl) else s),
                                 f')
                         }))))"

definition futex_wake_task_uaddr :: "sched \<Rightarrow> futex \<Rightarrow> nat option \<Rightarrow> u64 \<Rightarrow> u32 \<Rightarrow> (nat \<times> sched \<times> futex) option" where
  "futex_wake_task_uaddr s f task uaddr count =
     (if task = None \<or> uaddr = 0 \<or> count = 0 then Some (0, s, f)
      else
        do {
          (wl, f') \<leftarrow> futex_wake_key_locked f (sched_task_proc_slot s task) uaddr count;
          Some (length wl, futex_unblock_all s wl, f')
        })"

definition futex_task_cleanup :: "sched \<Rightarrow> futex \<Rightarrow> nat option \<Rightarrow> futex option" where
  "futex_task_cleanup s f task =
     (case futex_waiter_of s task of
        None \<Rightarrow> Some f
      | Some w \<Rightarrow> do { f \<leftarrow> futex_dequeue f w; Some (futex_waiter_reset f w) })"

subsection \<open>The lists in the buckets\<close>

definition frep :: "futex \<Rightarrow> (nat \<Rightarrow> nat list) \<Rightarrow> bool" where
  "frep f qs \<longleftrightarrow> qarr (w_next f) (futex_buckets f) qs"

definition mark_all :: "nat list \<Rightarrow> (nat \<Rightarrow> futex_waiter) \<Rightarrow> nat \<Rightarrow> futex_waiter" where
  "mark_all ws v w =
     (if w \<in> set ws then (v w)\<lparr>w_queued := False, w_wake_reason := FUTEX_WAIT_REASON_WAKE\<rparr> else v w)"

definition move_all :: "nat list \<Rightarrow> u64 \<Rightarrow> (nat \<Rightarrow> futex_waiter) \<Rightarrow> nat \<Rightarrow> futex_waiter" where
  "move_all ws a v w = (if w \<in> set ws then (v w)\<lparr>w_uaddr := a\<rparr> else v w)"

lemma mark_all_Nil [simp]: "mark_all [] v = v"
  by (simp add: mark_all_def fun_eq_iff)

lemma move_all_Nil [simp]: "move_all [] a v = v"
  by (simp add: move_all_def fun_eq_iff)

text \<open>A list without the first \<open>n\<close> elements that satisfy \<open>P\<close>.\<close>

fun drop_first :: "('a \<Rightarrow> bool) \<Rightarrow> nat \<Rightarrow> 'a list \<Rightarrow> 'a list" where
  "drop_first P n [] = []"
| "drop_first P n (x # xs) = (if P x \<and> 0 < n then drop_first P (n - 1) xs else x # drop_first P n xs)"

lemma drop_first_0 [simp]: "drop_first P 0 xs = xs"
  by (induction xs) auto

lemma drop_first_filter: "filter P (drop_first P n xs) = drop n (filter P xs)"
proof (induction xs arbitrary: n)
  case (Cons x xs)
  then show ?case by (cases n) auto
qed simp

lemma drop_first_other: "(\<And>x. Q x \<Longrightarrow> \<not> P x) \<Longrightarrow> filter Q (drop_first P n xs) = filter Q xs"
  by (induction xs arbitrary: n) auto

lemma drop_first_cong: "(\<And>x. x \<in> set xs \<Longrightarrow> P x = Q x) \<Longrightarrow> drop_first P n xs = drop_first Q n xs"
  by (induction xs arbitrary: n) auto

lemma drop_first_set:
  "distinct xs \<Longrightarrow> set (drop_first P n xs) = set xs - set (take n (filter P xs))"
proof (induction xs arbitrary: n)
  case (Cons x xs)
  have "x \<notin> set (take k (filter P xs))" for k using Cons.prems by (auto dest: in_set_takeD)
  with Cons show ?case by (cases n) auto
qed simp

lemma fields [simp]:
  "futex_waiters (set_waiter f w v) = (futex_waiters f)(w := v)"
  "w_next (set_waiter f w v) = w_next f" "futex_buckets (set_waiter f w v) = futex_buckets f"
  "futex_waiters (futex_unlink f b p c) = futex_waiters f"
  "w_next (futex_mark_woken f c) = w_next f" "futex_buckets (futex_mark_woken f c) = futex_buckets f"
  by (simp_all add: set_waiter_def futex_unlink_def futex_mark_woken_def split: prod.splits)

lemma frepD:
  assumes "frep f qs"
  shows "distinct (qs b)" "x \<in> set (qs a) \<Longrightarrow> x \<in> set (qs b) \<Longrightarrow> a = b"
    "chain (w_next f) (fhead (futex_buckets f b)) (qs b)"
  using qarrD [OF assms [unfolded frep_def], of b] qarrD(4) [OF assms [unfolded frep_def]]
  by (auto simp: fifo_rep_def)

lemma frep_set_waiter [simp]: "frep (set_waiter f w v) qs = frep f qs"
  by (simp add: frep_def)

lemma frep_mark [simp]: "frep (futex_mark_woken f c) qs = frep f qs"
  by (simp add: frep_def)

lemma frep_unlink:
  assumes "frep f qs" "qs b = ds @ c # cs"
  shows "frep (futex_unlink f b (last_opt ds) c) (qs(b := ds @ cs))"
    and "y \<in> set cs \<Longrightarrow> w_next (futex_unlink f b (last_opt ds) c) y = w_next f y"
  using qarr_unlink [of "w_next f" "futex_buckets f" qs b ds c cs] assms
  by (auto simp: frep_def futex_unlink_def split: prod.splits)

lemma frep_next: "frep f qs \<Longrightarrow> qs b = ds @ c # cs \<Longrightarrow> chain (w_next f) (w_next f c) cs"
  unfolding frep_def by (rule qarr_chain)

lemma frep_move:
  assumes "frep f qs" "\<And>a. c \<notin> set (qs a)"
  shows "frep (futex_move f b c u) (qs(b := qs b @ [c]))"
    and "futex_waiters (futex_move f b c u) = (futex_waiters f)(c := (futex_waiters f c)\<lparr>w_uaddr := u\<rparr>)"
  using qarr_push [of "w_next f" "futex_buckets f" qs c b] assms
  by (auto simp: frep_def futex_move_def Let_def split: prod.splits)

text \<open>The wake loop takes the first \<open>count\<close> matching waiters of the rest of the bucket.\<close>

lemma futex_wake_loop_spec:
  assumes "frep f qs" "qs b = ds @ cs" "chain (w_next f) cur cs"
    and "L = take (count - length wl) (filter (\<lambda>w. futex_waiter_matches f w slot uaddr) cs)"
  shows "\<exists>f'. futex_wake_loop b slot uaddr count f (last_opt ds) cur wl =
                Some (wl @ map (\<lambda>w. w_task (futex_waiters f w)) L, f')
           \<and> futex_waiters f' = mark_all L (futex_waiters f)
           \<and> frep f' (qs(b := ds @ drop_first (\<lambda>w. futex_waiter_matches f w slot uaddr) (count - length wl) cs))"
  using assms
proof (induction cs arbitrary: f qs ds cur wl L)
  case Nil
  then show ?case by (simp add: futex_wake_loop.simps mark_all_def fun_upd_idem)
next
  case (Cons c cs)
  let ?M = "\<lambda>f w. futex_waiter_matches f w slot uaddr"
  have cur: "cur = Some c" and ch: "chain (w_next f) (w_next f c) cs" using Cons.prems(3) by auto
  have d: "c \<notin> set cs" using frepD(1) [OF Cons.prems(1), of b] Cons.prems(2) by simp
  consider (stop) "\<not> length wl < count" | (take) "length wl < count" "?M f c" | (skip) "length wl < count" "\<not> ?M f c"
    by blast
  then show ?case
  proof cases
    case stop
    with Cons.prems cur show ?thesis
      by (simp add: futex_wake_loop.simps [of _ _ _ _ _ _ "Some c"] mark_all_def fun_upd_idem)
  next
    case take
    define f1 where "f1 = futex_mark_woken (futex_unlink f b (last_opt ds) c) c"
    define L1 where "L1 = List.take (count - length (wl @ [w_task (futex_waiters f c)])) (filter (?M f1) cs)"
    have w1: "futex_waiters f1 = mark_all [c] (futex_waiters f)"
      by (auto simp: f1_def futex_mark_woken_def mark_all_def)
    have M: "?M f1 w = ?M f w" if "w \<in> set cs" for w
      using that d by (auto simp: futex_waiter_matches_def w1 mark_all_def)
    have nx: "chain (w_next f1) (w_next f c) cs"
      using ch frep_unlink(2) [OF Cons.prems(1,2)] by (subst chain_cong [where nx = "w_next f"]) (auto simp: f1_def)
    have rep1: "frep f1 (qs(b := ds @ cs))"
      using frep_unlink(1) [OF Cons.prems(1,2)] by (simp add: f1_def)
    have L: "L = c # L1" using take Cons.prems(4) M
      by (simp add: L1_def take_Cons' cong: filter_cong)
    have sub: "set L1 \<subseteq> set cs" by (auto simp: L1_def dest: in_set_takeD)
    obtain f' where f': "futex_wake_loop b slot uaddr count f1 (last_opt ds) (w_next f c) (wl @ [w_task (futex_waiters f c)])
          = Some ((wl @ [w_task (futex_waiters f c)]) @ map (\<lambda>w. w_task (futex_waiters f1 w)) L1, f')"
      "futex_waiters f' = mark_all L1 (futex_waiters f1)"
      "frep f' (qs(b := ds @ drop_first (?M f1) (count - length (wl @ [w_task (futex_waiters f c)])) cs))"
      using Cons.IH [OF rep1 fun_upd_same nx L1_def] unfolding fun_upd_upd by blast
    have "map (\<lambda>w. w_task (futex_waiters f1 w)) L1 = map (\<lambda>w. w_task (futex_waiters f w)) L1"
      using sub d by (auto simp: w1 mark_all_def)
    moreover have "mark_all L1 (futex_waiters f1) = mark_all L (futex_waiters f)"
      using sub d by (auto simp: w1 mark_all_def L fun_eq_iff)
    moreover have "drop_first (?M f1) (count - length (wl @ [w_task (futex_waiters f c)])) cs
        = drop_first (?M f) (count - length wl) (c # cs)"
      using take M by (simp add: drop_first_cong [of cs "?M f1" "?M f"])
    ultimately show ?thesis
      using f' take cur L by (intro exI [of _ f'])
        (simp add: futex_wake_loop.simps [of _ _ _ _ _ _ "Some c"] Let_def f1_def fun_upd_def)
  next
    case skip
    have "\<exists>f'. futex_wake_loop b slot uaddr count f (last_opt (ds @ [c])) (w_next f c) wl =
                Some (wl @ map (\<lambda>w. w_task (futex_waiters f w)) L, f')
           \<and> futex_waiters f' = mark_all L (futex_waiters f)
           \<and> frep f' (qs(b := (ds @ [c]) @ drop_first (?M f) (count - length wl) cs))"
      using Cons.prems skip ch by (intro Cons.IH) auto
    with skip cur show ?thesis
      by (simp add: futex_wake_loop.simps [of _ _ _ _ _ _ "Some c"] Let_def fun_upd_def)
  qed
qed

text \<open>Waiters that do not match are passed over.\<close>

lemma futex_requeue_loop_skip:
  "chain (w_next f) cur cs \<Longrightarrow> (\<And>w. w \<in> set cs \<Longrightarrow> \<not> futex_waiter_matches f w slot uaddr) \<Longrightarrow>
   futex_requeue_loop b b2 slot uaddr uaddr2 wc rc f prev cur wl moved = Some (wl, moved, f)"
proof (induction cs arbitrary: prev cur)
  case Nil
  then show ?case by (simp add: futex_requeue_loop.simps)
next
  case (Cons c cs)
  then have "futex_requeue_loop b b2 slot uaddr uaddr2 wc rc f (Some c) (w_next f c) wl moved = Some (wl, moved, f)"
    by (intro Cons.IH) auto
  with Cons.prems show ?case
    by (simp add: futex_requeue_loop.simps [of _ _ _ _ _ _ _ _ _ "Some c"] Let_def)
qed

text \<open>
  The requeue loop wakes the first \<open>n\<close> matching waiters and moves the next \<open>m\<close> to the tail of
  the other bucket, which may be the same one: \<open>os\<close> is what is left of the original list,
  \<open>ms\<close> what has been moved behind it.
\<close>

definition requeue_moved :: "u64 \<Rightarrow> u64 \<Rightarrow> nat \<Rightarrow> nat \<Rightarrow> nat list \<Rightarrow> nat list" where
  "requeue_moved uaddr uaddr2 n m L = (if uaddr2 \<noteq> uaddr then take m (drop n L) else [])"

definition requeue_lists :: "(nat \<Rightarrow> nat list) \<Rightarrow> nat \<Rightarrow> nat \<Rightarrow> nat list \<Rightarrow> nat list \<Rightarrow> nat \<Rightarrow> nat list" where
  "requeue_lists qs b b2 rest mv = (let q = qs(b := rest) in q(b2 := q b2 @ mv))"

lemma requeue_moved_Cons:
  "requeue_moved u u2 (Suc n) m (x # L) = requeue_moved u u2 n m L"
  "u2 \<noteq> u \<Longrightarrow> requeue_moved u u2 0 (Suc m) (x # L) = x # requeue_moved u u2 0 m L"
  "requeue_moved u u2 0 0 L = []" "requeue_moved u u n m L = []"
  by (simp_all add: requeue_moved_def)

definition requeue_post :: "nat \<Rightarrow> nat \<Rightarrow> nat \<Rightarrow> u64 \<Rightarrow> u64 \<Rightarrow> nat \<Rightarrow> nat \<Rightarrow> futex \<Rightarrow> (nat \<Rightarrow> nat list)
    \<Rightarrow> nat list \<Rightarrow> nat list \<Rightarrow> nat list \<Rightarrow> nat option list \<Rightarrow> nat \<Rightarrow> (nat option list \<times> nat \<times> futex) option \<Rightarrow> bool" where
  "requeue_post b b2 slot uaddr uaddr2 n m f qs ds os ms wl moved r \<longleftrightarrow>
     (let M = (\<lambda>w. futex_waiter_matches f w slot uaddr); L = filter M os; mv = requeue_moved uaddr uaddr2 n m L
      in \<exists>f'. r = Some (wl @ map (\<lambda>w. w_task (futex_waiters f w)) (take n L), moved + length mv, f')
           \<and> futex_waiters f' = move_all mv uaddr2 (mark_all (take n L) (futex_waiters f))
           \<and> frep f' (requeue_lists qs b b2 (ds @ drop_first M (n + length mv) os @ ms) mv))"

lemma requeue_post_wake:
  assumes post: "requeue_post b b2 slot u u2 (wc - length (wl @ [w_task (futex_waiters f c)])) m f1
      (qs(b := ds @ os @ ms)) ds os ms (wl @ [w_task (futex_waiters f c)]) moved r"
    and w1: "futex_waiters f1 = mark_all [c] (futex_waiters f)" and c: "c \<notin> set os"
    and M: "futex_waiter_matches f c slot u" and n: "length wl < wc"
  shows "requeue_post b b2 slot u u2 (wc - length wl) m f qs ds (c # os) ms wl moved r"
proof -
  have Mf: "futex_waiter_matches f1 w slot u = futex_waiter_matches f w slot u" if "w \<in> set os" for w
    using that c by (auto simp: futex_waiter_matches_def w1 mark_all_def)
  define n1 where "n1 = wc - length (wl @ [w_task (futex_waiters f c)])"
  have n1: "wc - length wl = Suc n1" using n by (simp add: n1_def)
  define L where "L = filter (\<lambda>w. futex_waiter_matches f w slot u) os"
  have L1: "filter (\<lambda>w. futex_waiter_matches f1 w slot u) os = L" using Mf by (simp add: L_def cong: filter_cong)
  have t: "map (\<lambda>w. w_task (futex_waiters f1 w)) (take n1 L) = map (\<lambda>w. w_task (futex_waiters f w)) (take n1 L)"
    using c by (auto simp: w1 mark_all_def)
  have mk: "mark_all (take n1 L) (futex_waiters f1) = mark_all (c # take n1 L) (futex_waiters f)"
    by (auto simp: w1 mark_all_def fun_eq_iff)
  have df: "drop_first (\<lambda>w. futex_waiter_matches f1 w slot u) k os = drop_first (\<lambda>w. futex_waiter_matches f w slot u) k os" for k
    by (rule drop_first_cong) (rule Mf)
  show ?thesis
    using post M unfolding requeue_post_def n1_def [symmetric] n1 L1 t mk df Let_def
    by (simp add: L_def [symmetric] requeue_moved_Cons requeue_lists_def mk)
qed

lemma requeue_post_move:
  assumes post: "requeue_post b b2 slot u u2 (wc - length wl) (rc - Suc moved) f2
      (qs(b := ds @ os @ ms, b2 := (qs(b := ds @ os @ ms)) b2 @ [c])) ds os (if b = b2 then ms @ [c] else ms)
      wl (Suc moved) r"
    and w2: "futex_waiters f2 = move_all [c] u2 (futex_waiters f)" and c: "c \<notin> set os"
    and M: "futex_waiter_matches f c slot u" and u: "u2 \<noteq> u" and n: "\<not> length wl < wc" "moved < rc"
  shows "requeue_post b b2 slot u u2 (wc - length wl) (rc - moved) f qs ds (c # os) ms wl moved r"
proof -
  have Mf: "futex_waiter_matches f2 w slot u = futex_waiter_matches f w slot u" if "w \<in> set os" for w
    using that c by (auto simp: futex_waiter_matches_def w2 move_all_def)
  define m1 where "m1 = rc - Suc moved"
  have m1: "rc - moved = Suc m1" and n0: "wc - length wl = 0" using n by (simp_all add: m1_def)
  define L where "L = filter (\<lambda>w. futex_waiter_matches f w slot u) os"
  have L2: "filter (\<lambda>w. futex_waiter_matches f2 w slot u) os = L" using Mf by (simp add: L_def cong: filter_cong)
  have df: "drop_first (\<lambda>w. futex_waiter_matches f2 w slot u) k os = drop_first (\<lambda>w. futex_waiter_matches f w slot u) k os" for k
    by (rule drop_first_cong) (rule Mf)
  have mv: "move_all xs u2 (futex_waiters f2) = move_all (c # xs) u2 (futex_waiters f)" for xs
    by (auto simp: w2 move_all_def fun_eq_iff)
  have ql: "requeue_lists (qs(b := ds @ os @ ms, b2 := (qs(b := ds @ os @ ms)) b2 @ [c])) b b2
      (ds @ rest @ (if b = b2 then ms @ [c] else ms)) xs = requeue_lists qs b b2 (ds @ rest @ ms) (c # xs)" for rest xs
    by (auto simp: requeue_lists_def Let_def fun_eq_iff)
  show ?thesis
    using post M u unfolding requeue_post_def m1_def [symmetric] m1 n0 L2 df ql mv Let_def
    by (simp add: L_def [symmetric] requeue_moved_Cons mv)
qed

lemma futex_requeue_loop_spec:
  assumes "frep f qs" "qs b = ds @ os @ ms" "b \<noteq> b2 \<longrightarrow> ms = []"
    and "os \<noteq> [] \<Longrightarrow> cur = Some (hd os)" "os = [] \<Longrightarrow> cur = None \<or> chain (w_next f) cur ms"
    and "\<And>w. w \<in> set ms \<Longrightarrow> \<not> futex_waiter_matches f w slot uaddr"
  shows "requeue_post b b2 slot uaddr uaddr2 (wc - length wl) (rc - moved) f qs ds os ms wl moved
           (futex_requeue_loop b b2 slot uaddr uaddr2 wc rc f (last_opt ds) cur wl moved)"
  using assms
proof (induction os arbitrary: f qs ds ms cur wl moved)
  case Nil
  have "futex_requeue_loop b b2 slot uaddr uaddr2 wc rc f (last_opt ds) cur wl moved = Some (wl, moved, f)"
  proof (cases cur)
    case None
    then show ?thesis by (simp add: futex_requeue_loop.simps)
  next
    case (Some c)
    with Nil.prems have "chain (w_next f) cur ms" by auto
    then show ?thesis by (rule futex_requeue_loop_skip) (use Nil.prems(6) in auto)
  qed
  with Nil.prems show ?case
    by (simp add: requeue_post_def requeue_moved_def requeue_lists_def mark_all_def move_all_def fun_upd_idem Let_def)
next
  case (Cons c os)
  let ?M = "\<lambda>f w. futex_waiter_matches f w slot uaddr"
  let ?loop = "futex_requeue_loop b b2 slot uaddr uaddr2 wc rc"
  let ?post = "requeue_post b b2 slot uaddr uaddr2"
  have cur: "cur = Some c" using Cons.prems(4) by simp
  have qb: "qs b = ds @ c # (os @ ms)" using Cons.prems(2) by simp
  have d: "c \<notin> set os" "c \<notin> set ms" using frepD(1) [OF Cons.prems(1), of b] qb by auto
  have nx: "w_next f c = (if os @ ms = [] then None else Some (hd (os @ ms)))"
    using frep_next [OF Cons.prems(1) qb] by (cases "os @ ms") auto
  define q1 where "q1 = qs(b := ds @ os @ ms)"
  have rep1: "frep (futex_unlink f b (last_opt ds) c) q1"
    using frep_unlink(1) [OF Cons.prems(1) qb] by (simp add: q1_def)
  have out: "c \<notin> set (q1 a)" for a
    using frepD(2) [OF Cons.prems(1), of c a b] qb d frepD(1) [OF Cons.prems(1), of b] by (auto simp: q1_def)
  consider (stop) "\<not> (length wl < wc \<or> moved < rc)"
    | (skip) "length wl < wc \<or> moved < rc" "\<not> ?M f c"
    | (keep) "\<not> length wl < wc" "moved < rc" "?M f c" "uaddr2 = uaddr"
    | (wake) "length wl < wc" "?M f c"
    | (move) "\<not> length wl < wc" "moved < rc" "?M f c" "uaddr2 \<noteq> uaddr" by blast
  then show ?case
  proof cases
    case stop
    with Cons.prems cur show ?thesis
      by (simp add: futex_requeue_loop.simps [of _ _ _ _ _ _ _ _ _ "Some c"] requeue_post_def
          requeue_moved_Cons requeue_lists_def Let_def fun_upd_idem)
  next
    case skip
    have "?post (wc - length wl) (rc - moved) f qs (ds @ [c]) os ms wl moved
        (?loop f (last_opt (ds @ [c])) (w_next f c) wl moved)"
      using Cons.prems qb nx frep_next [OF Cons.prems(1) qb] by (intro Cons.IH) auto
    with skip cur show ?thesis
      by (simp add: futex_requeue_loop.simps [of _ _ _ _ _ _ _ _ _ "Some c"] requeue_post_def Let_def)
  next
    case keep
    have "?post (wc - length wl) (rc - moved) f qs (ds @ [c]) os ms wl moved
        (?loop f (last_opt (ds @ [c])) (w_next f c) wl moved)"
      using Cons.prems qb nx frep_next [OF Cons.prems(1) qb] by (intro Cons.IH) auto
    with keep cur show ?thesis
      by (simp add: futex_requeue_loop.simps [of _ _ _ _ _ _ _ _ _ "Some c"] requeue_post_def requeue_moved_Cons Let_def)
  next
    case wake
    define f1 where "f1 = futex_mark_woken (futex_unlink f b (last_opt ds) c) c"
    define wl1 where "wl1 = wl @ [w_task (futex_waiters f c)]"
    have w1: "futex_waiters f1 = mark_all [c] (futex_waiters f)"
      by (auto simp: f1_def futex_mark_woken_def mark_all_def)
    have M: "?M f1 w = ?M f w" if "w \<noteq> c" for w
      using that by (auto simp: futex_waiter_matches_def w1 mark_all_def)
    have "?post (wc - length wl1) (rc - moved) f1 q1 ds os ms wl1 moved
        (?loop f1 (last_opt ds) (w_next f c) wl1 moved)"
    proof (rule Cons.IH)
      show "frep f1 q1" using rep1 by (simp add: f1_def)
      show "os = [] \<Longrightarrow> w_next f c = None \<or> chain (w_next f1) (w_next f c) ms"
        using frep_next [OF \<open>frep f1 q1\<close>, of b ds] nx by (cases ms) (auto simp: q1_def)
      show "\<not> ?M f1 w" if "w \<in> set ms" for w using Cons.prems(6) [OF that] M [of w] that d by auto
    qed (use Cons.prems(3) nx in \<open>auto simp: q1_def\<close>)
    moreover have "?loop f (last_opt ds) (Some c) wl moved = ?loop f1 (last_opt ds) (w_next f c) wl1 moved"
      using wake by (simp add: futex_requeue_loop.simps [of _ _ _ _ _ _ _ _ _ "Some c"] f1_def wl1_def Let_def)
    ultimately show ?thesis
      unfolding cur q1_def wl1_def using requeue_post_wake [OF _ w1 d(1) wake(2,1)] by simp
  next
    case move
    define f2 where "f2 = futex_move (futex_unlink f b (last_opt ds) c) b2 c uaddr2"
    define q2 where "q2 = q1(b2 := q1 b2 @ [c])"
    define ms2 where "ms2 = (if b = b2 then ms @ [c] else ms)"
    have rep2: "frep f2 q2" unfolding f2_def q2_def by (rule frep_move(1) [OF rep1 out])
    have w2: "futex_waiters f2 = move_all [c] uaddr2 (futex_waiters f)"
      unfolding f2_def frep_move(2) [OF rep1 out] by (auto simp: move_all_def)
    have q2b: "q2 b = ds @ os @ ms2" by (auto simp: q2_def q1_def ms2_def)
    have "?post (wc - length wl) (rc - Suc moved) f2 q2 ds os ms2 wl (Suc moved)
        (?loop f2 (last_opt ds) (w_next f c) wl (Suc moved))"
    proof (rule Cons.IH [OF rep2 q2b])
      show "os = [] \<Longrightarrow> w_next f c = None \<or> chain (w_next f2) (w_next f c) ms2"
        using frep_next [OF rep2, of b ds] q2b nx Cons.prems(3) by (cases ms) (auto simp: ms2_def)
      show "\<not> ?M f2 w" if "w \<in> set ms2" for w
        using that Cons.prems(6) move(4) by (auto simp: ms2_def futex_waiter_matches_def w2 move_all_def split: if_splits)
    qed (use Cons.prems(3) nx in \<open>auto simp: ms2_def\<close>)
    moreover have "?loop f (last_opt ds) (Some c) wl moved = ?loop f2 (last_opt ds) (w_next f c) wl (Suc moved)"
      using move by (simp add: futex_requeue_loop.simps [of _ _ _ _ _ _ _ _ _ "Some c"] f2_def Let_def)
    ultimately show ?thesis
      using requeue_post_move [OF _ w2 d(1) move(3,4,1,2)] unfolding cur q1_def q2_def ms2_def by simp
  qed
qed

subsection \<open>The abstract futex: a FIFO list of tasks per key\<close>

type_synonym futex_key = "nat \<times> u64"
type_synonym futex_spec = "futex_key \<Rightarrow> nat list"

definition spec_wake :: "futex_spec \<Rightarrow> futex_key \<Rightarrow> nat \<Rightarrow> nat list \<times> futex_spec" where
  "spec_wake A k n = (take n (A k), A(k := drop n (A k)))"

definition spec_requeue :: "futex_spec \<Rightarrow> futex_key \<Rightarrow> futex_key \<Rightarrow> nat \<Rightarrow> nat \<Rightarrow> nat list \<times> nat list \<times> futex_spec" where
  "spec_requeue A k k2 n m =
     (let mv = (if k2 = k then [] else take m (drop n (A k)));
          A1 = A(k := drop (n + length mv) (A k))
      in (take n (A k), mv, A1(k2 := A1 k2 @ mv)))"

definition spec_leave :: "futex_spec \<Rightarrow> nat \<Rightarrow> futex_spec" where
  "spec_leave A w = (\<lambda>k. remove1 w (A k))"

definition spec_wait :: "futex_spec \<Rightarrow> futex_key \<Rightarrow> nat \<Rightarrow> futex_spec" where
  "spec_wait A k w = (let A1 = spec_leave A w in A1(k := A1 k @ [w]))"

definition futex_key :: "futex \<Rightarrow> nat \<Rightarrow> futex_key" where
  "futex_key f w = (w_proc_slot (futex_waiters f w), w_uaddr (futex_waiters f w))"

abbreviation queued :: "futex \<Rightarrow> nat \<Rightarrow> bool" where
  "queued f w \<equiv> w_queued (futex_waiters f w)"

abbreviation key_hash :: "futex_key \<Rightarrow> nat" where
  "key_hash k \<equiv> futex_hash (fst k) (snd k)"

text \<open>
  The buckets hold exactly the queued waiters, each in the bucket of its key, and a queued
  waiter belongs to the task of its own slot.
\<close>

definition futex_wf :: "futex \<Rightarrow> (nat \<Rightarrow> nat list) \<Rightarrow> bool" where
  "futex_wf f qs \<longleftrightarrow> frep f qs \<and>
     (\<forall>b w. w \<in> set (qs b) \<longleftrightarrow> queued f w \<and> key_hash (futex_key f w) = b) \<and>
     (\<forall>w. queued f w \<longrightarrow> w < SCHED_MAX_TASKS \<and> w_task (futex_waiters f w) = Some w)"

definition futex_abs :: "futex \<Rightarrow> (nat \<Rightarrow> nat list) \<Rightarrow> futex_spec" where
  "futex_abs f qs k = filter (\<lambda>w. futex_waiter_matches f w (fst k) (snd k)) (qs (key_hash k))"

definition futex_rel :: "futex \<Rightarrow> futex_spec \<Rightarrow> bool" where
  "futex_rel f A \<longleftrightarrow> (\<exists>qs. futex_wf f qs \<and> A = futex_abs f qs)"

lemma matches_key: "futex_waiter_matches f w (fst k) (snd k) \<longleftrightarrow> queued f w \<and> futex_key f w = k"
  by (cases k) (auto simp: futex_waiter_matches_def futex_key_def)

lemma futex_wfD:
  assumes "futex_wf f qs"
  shows "frep f qs" "w \<in> set (qs b) \<longleftrightarrow> queued f w \<and> key_hash (futex_key f w) = b"
    "queued f w \<Longrightarrow> w < SCHED_MAX_TASKS" "queued f w \<Longrightarrow> w_task (futex_waiters f w) = Some w"
    "distinct (qs b)"
  using assms frepD(1) unfolding futex_wf_def by blast+

lemma futex_rel_mem:
  assumes "futex_rel f A"
  shows "w \<in> set (A k) \<longleftrightarrow> queued f w \<and> futex_key f w = k" and "distinct (A k)"
proof -
  from assms obtain qs where qs: "futex_wf f qs" "A = futex_abs f qs" by (auto simp: futex_rel_def)
  show "w \<in> set (A k) \<longleftrightarrow> queued f w \<and> futex_key f w = k"
    unfolding qs(2) futex_abs_def set_filter matches_key using futex_wfD(2) [OF qs(1)] by auto
  show "distinct (A k)" unfolding qs(2) futex_abs_def using futex_wfD(5) [OF qs(1)] by simp
qed

lemma futex_rel_queued:
  assumes "futex_rel f A" "w \<in> set (A k)"
  shows "w < SCHED_MAX_TASKS" "w_task (futex_waiters f w) = Some w"
  using assms futex_rel_mem(1) [OF assms(1)] futex_wfD(3,4) by (auto simp: futex_rel_def)

lemma futex_init_rel: "futex_rel futex_init (\<lambda>_. [])"
proof -
  have "futex_wf futex_init (\<lambda>_. [])"
    by (simp add: futex_wf_def frep_def futex_init_def qarr_empty futex_waiter_zero_def)
  then show ?thesis by (auto simp: futex_rel_def futex_abs_def fun_eq_iff intro!: exI)
qed

lemma map_task_eq:
  "(\<And>w. w \<in> set xs \<Longrightarrow> w_task (futex_waiters f w) = Some w) \<Longrightarrow>
   map (\<lambda>w. w_task (futex_waiters f w)) xs = map Some xs"
  by simp

lemma futex_wake_refines:
  assumes rel: "futex_rel f A"
  obtains f' where "futex_wake_key_locked f slot u n = Some (map Some (take (unat n) (A (slot, u))), f')"
    "futex_rel f' (A((slot, u) := drop (unat n) (A (slot, u))))"
    "futex_waiters f' = mark_all (take (unat n) (A (slot, u))) (futex_waiters f)"
proof -
  from rel obtain qs where wf: "futex_wf f qs" and A: "A = futex_abs f qs" by (auto simp: futex_rel_def)
  define b where "b = futex_hash slot u"
  define M where "M = (\<lambda>w. futex_waiter_matches f w slot u)"
  define L where "L = take (unat n) (A (slot, u))"
  have Ak: "A (slot, u) = filter M (qs b)" by (simp add: A futex_abs_def M_def b_def)
  have Leq: "L = take (unat n - length []) (filter M (qs b))" by (simp add: L_def Ak)
  obtain f' where f': "futex_wake_loop b slot u (unat n) f (last_opt []) (fhead (futex_buckets f b)) []
        = Some ([] @ map (\<lambda>w. w_task (futex_waiters f w)) L, f')"
    "futex_waiters f' = mark_all L (futex_waiters f)"
    "frep f' (qs(b := [] @ drop_first M (unat n - length []) (qs b)))"
    using futex_wake_loop_spec [of f qs b "[]" "qs b", OF futex_wfD(1) [OF wf] _ frepD(3) [OF futex_wfD(1) [OF wf]]
        Leq [unfolded M_def]] unfolding M_def by auto
  define qs' where "qs' = qs(b := drop_first M (unat n) (qs b))"
  have LM: "M w" "w \<in> set (qs b)" if "w \<in> set L" for w
    using that by (auto simp: L_def Ak dest: in_set_takeD)
  have q': "queued f' w \<longleftrightarrow> queued f w \<and> w \<notin> set L" "futex_key f' w = futex_key f w"
    "w_task (futex_waiters f' w) = w_task (futex_waiters f w)" for w
    by (auto simp: f'(2) mark_all_def futex_key_def)
  have set': "set (qs' a) = set (qs a) - set L" for a
  proof (cases "a = b")
    case True
    then show ?thesis
      using drop_first_set [OF futex_wfD(5) [OF wf], of M "unat n" b] by (simp add: qs'_def L_def Ak)
  next
    case False
    then have "w \<notin> set L" if "w \<in> set (qs a)" for w
      using that LM(2) [of w] frepD(2) [OF futex_wfD(1) [OF wf], of w a b] by blast
    with False show ?thesis by (auto simp: qs'_def)
  qed
  have wf': "futex_wf f' qs'"
    unfolding futex_wf_def set' q' using f'(3) futex_wfD(2,3,4) [OF wf] by (auto simp: qs'_def)
  have m': "futex_waiter_matches f' w (fst k) (snd k) = futex_waiter_matches f w (fst k) (snd k)"
    if "w \<in> set (qs' a)" for w k a
    using that set' by (auto simp: matches_key q')
  have abs': "futex_abs f' qs' = A((slot, u) := drop (unat n) (A (slot, u)))"
  proof (rule ext)
    fix k
    have "futex_abs f' qs' k = filter (\<lambda>w. futex_waiter_matches f w (fst k) (snd k)) (qs' (key_hash k))"
      unfolding futex_abs_def by (rule filter_cong [OF refl m'])
    also have "\<dots> = (A((slot, u) := drop (unat n) (A (slot, u)))) k"
    proof (cases "k = (slot, u)")
      case True
      then show ?thesis by (simp add: qs'_def b_def [symmetric] M_def [symmetric] drop_first_filter Ak)
    next
      case False
      then have "filter (\<lambda>w. futex_waiter_matches f w (fst k) (snd k)) (drop_first M (unat n) xs)
          = filter (\<lambda>w. futex_waiter_matches f w (fst k) (snd k)) xs" for xs
        by (intro drop_first_other) (auto simp: M_def futex_waiter_matches_def)
      with False show ?thesis by (simp add: qs'_def A futex_abs_def)
    qed
    finally show "futex_abs f' qs' k = (A((slot, u) := drop (unat n) (A (slot, u)))) k" .
  qed
  have "map (\<lambda>w. w_task (futex_waiters f w)) L = map Some L"
    using LM(2) futex_wfD(2,4) [OF wf] by (intro map_task_eq) blast
  with f'(1) have "futex_wake_key_locked f slot u n = Some (map Some L, f')"
    by (simp add: futex_wake_key_locked_def b_def [symmetric])
  moreover have "futex_rel f' (futex_abs f' qs')" using wf' by (auto simp: futex_rel_def)
  ultimately show ?thesis using that [of f'] f'(2) unfolding L_def abs' by blast
qed

lemma requeue_moved_prefix:
  "take (n + length (requeue_moved u u2 n m L)) L = take n L @ requeue_moved u u2 n m L"
  by (auto simp: requeue_moved_def take_add min_def)

lemma futex_requeue_refines:
  assumes rel: "futex_rel f A"
    and spec: "spec_requeue A (slot, u) (slot, u2) (unat n) (unat m) = (ws, mv, A')"
  obtains f' where "futex_requeue_key_locked f slot u n m u2 = Some (map Some ws, length mv, f')"
    "futex_rel f' A'"
    "futex_waiters f' = move_all mv u2 (mark_all ws (futex_waiters f))"
proof -
  from rel obtain qs where wf: "futex_wf f qs" and A: "A = futex_abs f qs" by (auto simp: futex_rel_def)
  define b where "b = futex_hash slot u"
  define b2 where "b2 = futex_hash slot u2"
  define M where "M = (\<lambda>w. futex_waiter_matches f w slot u)"
  have Ak: "A (slot, u) = filter M (qs b)" by (simp add: A futex_abs_def M_def b_def)
  have ws: "ws = take (unat n) (filter M (qs b))" and mv: "mv = requeue_moved u u2 (unat n) (unat m) (filter M (qs b))"
    using spec by (auto simp: spec_requeue_def requeue_moved_def Ak Let_def)
  define A1 where "A1 = A((slot, u) := drop (unat n + length mv) (A (slot, u)))"
  have A': "A' = A1((slot, u2) := A1 (slot, u2) @ mv)"
    using spec by (auto simp: spec_requeue_def Let_def A1_def)
  define D where "D = ws @ mv"
  have D: "D = take (unat n + length mv) (filter M (qs b))" unfolding D_def ws mv by (rule requeue_moved_prefix [symmetric])
  have "requeue_post b b2 slot u u2 (unat n - length ([] :: nat option list)) (unat m - 0) f qs [] (qs b) [] [] 0
      (futex_requeue_loop b b2 slot u u2 (unat n) (unat m) f (last_opt []) (fhead (futex_buckets f b)) [] 0)"
    using frepD(3) [OF futex_wfD(1) [OF wf], of b] futex_wfD(1) [OF wf]
    by (intro futex_requeue_loop_spec) (auto simp: neq_Nil_conv)
  then obtain f' where f': "futex_requeue_key_locked f slot u n m u2 =
        Some (map (\<lambda>w. w_task (futex_waiters f w)) ws, length mv, f')"
    "futex_waiters f' = move_all mv u2 (mark_all ws (futex_waiters f))"
    "frep f' (requeue_lists qs b b2 (drop_first M (unat n + length mv) (qs b)) mv)"
    unfolding requeue_post_def Let_def M_def [symmetric]
    by (auto simp: futex_requeue_key_locked_def ws mv b_def b2_def Let_def)
  define base where "base = qs(b := drop_first M (unat n + length mv) (qs b))"
  define qs' where "qs' = base(b2 := base b2 @ mv)"
  have rep': "frep f' qs'" using f'(3) by (simp add: requeue_lists_def base_def qs'_def Let_def)
  have DM: "M w" "w \<in> set (qs b)" if "w \<in> set D" for w using that by (auto simp: D dest: in_set_takeD)
  have disj: "w \<notin> set ws" if "w \<in> set mv" for w
  proof -
    have "distinct D" using futex_wfD(5) [OF wf] by (simp add: D)
    with that show ?thesis by (auto simp: D_def)
  qed
  have q': "queued f' w \<longleftrightarrow> queued f w \<and> w \<notin> set ws"
    "futex_key f' w = (if w \<in> set mv then (slot, u2) else futex_key f w)"
    "w_task (futex_waiters f' w) = w_task (futex_waiters f w)" for w
    using DM(1) [of w] by (auto simp: f'(2) mark_all_def move_all_def futex_key_def D_def M_def futex_waiter_matches_def)
  have baseset: "set (base a) = set (qs a) - set D" for a
  proof (cases "a = b")
    case True
    then show ?thesis
      using drop_first_set [OF futex_wfD(5) [OF wf], of M "unat n + length mv" b] by (simp add: base_def D)
  next
    case False
    then have "w \<notin> set D" if "w \<in> set (qs a)" for w
      using that DM(2) [of w] frepD(2) [OF futex_wfD(1) [OF wf], of w a b] by blast
    with False show ?thesis by (auto simp: base_def)
  qed
  have mvq: "queued f w" if "w \<in> set mv" for w
    using DM(1) [of w] that by (auto simp: D_def M_def futex_waiter_matches_def)
  have set': "w \<in> set (qs' a) \<longleftrightarrow> w \<in> set (qs a) - set D \<or> a = b2 \<and> w \<in> set mv" for w a
    using baseset [of a] by (auto simp: qs'_def)
  have wf': "futex_wf f' qs'"
    unfolding futex_wf_def
  proof (intro conjI allI impI rep')
    fix a w
    show "w \<in> set (qs' a) \<longleftrightarrow> queued f' w \<and> key_hash (futex_key f' w) = a"
      unfolding set' q' using mvq disj by (auto simp: D_def b2_def futex_wfD(2) [OF wf])
  qed (use q' futex_wfD(3,4) [OF wf] in auto)
  have abs': "futex_abs f' qs' = A'"
  proof (rule ext)
    fix k
    have "filter (\<lambda>w. futex_waiter_matches f' w (fst k) (snd k)) (base (key_hash k))
        = filter (\<lambda>w. futex_waiter_matches f w (fst k) (snd k)) (base (key_hash k))"
      by (rule filter_cong [OF refl]) (use baseset in \<open>auto simp: matches_key q' D_def\<close>)
    also have "\<dots> = A1 k"
    proof (cases "k = (slot, u)")
      case True
      then show ?thesis unfolding A1_def by (simp add: base_def b_def [symmetric] M_def [symmetric] drop_first_filter Ak)
    next
      case False
      then have "filter (\<lambda>w. futex_waiter_matches f w (fst k) (snd k)) (drop_first M j xs)
          = filter (\<lambda>w. futex_waiter_matches f w (fst k) (snd k)) xs" for xs j
        by (intro drop_first_other) (auto simp: M_def futex_waiter_matches_def)
      with False show ?thesis unfolding A1_def by (simp add: base_def A futex_abs_def)
    qed
    finally have base': "filter (\<lambda>w. futex_waiter_matches f' w (fst k) (snd k)) (base (key_hash k)) = A1 k" .
    have "filter (\<lambda>w. futex_waiter_matches f' w (fst k) (snd k)) mv = (if k = (slot, u2) then mv else [])"
      using mvq disj by (auto simp: matches_key q' filter_empty_conv intro: filter_True)
    then show "futex_abs f' qs' k = A' k"
      unfolding futex_abs_def qs'_def A' b2_def using base' by (cases "k = (slot, u2)") auto
  qed
  have "map (\<lambda>w. w_task (futex_waiters f w)) ws = map Some ws"
    using DM(2) futex_wfD(2,4) [OF wf] by (intro map_task_eq) (auto simp: D_def)
  moreover have "futex_rel f' A'" using wf' abs' by (auto simp: futex_rel_def)
  ultimately show ?thesis using that [of f'] f'(1,2) by simp
qed

text \<open>Leaving the queue and joining it.\<close>

lemma futex_dequeue_refines:
  assumes rel: "futex_rel f A"
  obtains f' where "futex_dequeue f w = Some f'" "futex_rel f' (spec_leave A w)"
    "futex_waiters f' = (futex_waiters f)(w := (futex_waiters f w)\<lparr>w_queued := False\<rparr>)"
proof -
  from rel obtain qs where wf: "futex_wf f qs" and A: "A = futex_abs f qs" by (auto simp: futex_rel_def)
  show ?thesis
  proof (cases "queued f w")
    case False
    then have "w \<notin> set (A k)" for k using futex_rel_mem(1) [OF rel] by simp
    then have "spec_leave A w = A" by (auto simp: spec_leave_def remove1_idem)
    moreover have "(futex_waiters f)(w := (futex_waiters f w)\<lparr>w_queued := False\<rparr>) = futex_waiters f"
      using False by (simp add: fun_eq_iff)
    ultimately show ?thesis using False rel that [of f] by (simp add: futex_dequeue_def Let_def)
  next
    case True
    define b where "b = key_hash (futex_key f w)"
    have wb: "w \<in> set (qs b)" using True futex_wfD(2) [OF wf] by (simp add: b_def)
    obtain nx q where r: "fifo_remove (w_next f) (futex_buckets f b) w = Some (w \<in> set (qs b), nx, q)"
      "qarr nx ((futex_buckets f)(b := q)) (qs(b := remove1 w (qs b)))"
      using qarr_remove [of "w_next f" "futex_buckets f" qs b w] futex_wfD(1) [OF wf]
      unfolding frep_def by blast
    define f' where "f' = set_waiter (f\<lparr>w_next := nx, futex_buckets := (futex_buckets f)(b := q)\<rparr>) w
                    ((futex_waiters f w)\<lparr>w_queued := False\<rparr>)"
    have eq: "futex_dequeue f w = Some f'"
      using True r(1) wb by (simp add: futex_dequeue_def futex_bucket_remove_def f'_def b_def futex_key_def Let_def)
    have v': "futex_waiters f' = (futex_waiters f)(w := (futex_waiters f w)\<lparr>w_queued := False\<rparr>)"
      by (simp add: f'_def set_waiter_def)
    define qs' where "qs' = qs(b := remove1 w (qs b))"
    have nin: "w \<in> set (qs a) \<longleftrightarrow> a = b" for a using True futex_wfD(2) [OF wf] by (auto simp: b_def)
    have qs': "qs' a = remove1 w (qs a)" for a using nin [of a] by (auto simp: qs'_def remove1_idem)
    have q': "queued f' x \<longleftrightarrow> queued f x \<and> x \<noteq> w" "futex_key f' x = futex_key f x"
      "w_task (futex_waiters f' x) = w_task (futex_waiters f x)" for x
      by (auto simp: v' futex_key_def)
    have "futex_wf f' qs'"
      unfolding futex_wf_def q' using r(2) futex_wfD [OF wf]
      by (auto simp: qs' frep_def f'_def set_waiter_def qs'_def [symmetric])
    moreover have "futex_abs f' qs' = spec_leave A w"
    proof (rule ext)
      fix k
      have "futex_abs f' qs' k = filter (\<lambda>x. futex_waiter_matches f x (fst k) (snd k)) (remove1 w (qs (key_hash k)))"
        unfolding futex_abs_def qs' matches_key q' using futex_wfD(5) [OF wf]
        by (intro filter_cong) auto
      also have "\<dots> = remove1 w (A k)"
        using futex_wfD(5) [OF wf] by (simp add: A futex_abs_def distinct_remove1_removeAll removeAll_filter_not_eq conj_commute)
      finally show "futex_abs f' qs' k = spec_leave A w k" by (simp add: spec_leave_def)
    qed
    ultimately have "futex_rel f' (spec_leave A w)" unfolding futex_rel_def by metis
    with that eq v' show ?thesis by blast
  qed
qed

lemma futex_reset_refines:
  assumes rel: "futex_rel f A" and nq: "\<not> queued f w"
  shows "futex_rel (futex_waiter_reset f w) A"
proof -
  from rel obtain qs where wf: "futex_wf f qs" and A: "A = futex_abs f qs" by (auto simp: futex_rel_def)
  let ?f = "futex_waiter_reset f w"
  have out: "w \<notin> set (qs a)" for a using nq futex_wfD(2) [OF wf] by simp
  have "fifo_rep (w_next ?f) (futex_buckets ?f b) (qs b)" for b
  proof -
    have "fifo_rep (w_next ?f) (futex_buckets f b) (qs b)"
      using out [of b] by (intro fifo_rep_frame [OF qarrD(1) [OF futex_wfD(1) [OF wf, unfolded frep_def]]])
        (auto simp: futex_waiter_reset_def)
    then show ?thesis by (simp add: futex_waiter_reset_def)
  qed
  then have rep: "frep ?f qs"
    using qarrD(3) [OF futex_wfD(1) [OF wf, unfolded frep_def]] by (auto simp: frep_def qarr_def)
  have v: "queued ?f x \<longleftrightarrow> queued f x" "queued f x \<Longrightarrow> futex_waiters ?f x = futex_waiters f x" for x
    using nq by (auto simp: futex_waiter_reset_def set_waiter_def futex_waiter_zero_def)
  then have "queued f x \<Longrightarrow> futex_key ?f x = futex_key f x" for x by (simp add: futex_key_def)
  then have "futex_wf ?f qs" "futex_abs ?f qs = A"
    using rep futex_wfD [OF wf] v by (auto simp: futex_wf_def A futex_abs_def matches_key fun_eq_iff intro!: filter_cong)
  then show ?thesis by (auto simp: futex_rel_def)
qed

lemma futex_append_refines:
  assumes rel: "futex_rel f A" and w: "\<not> queued f w" "w < SCHED_MAX_TASKS"
    and v: "v = (futex_waiters f w)\<lparr>w_task := Some w, w_uaddr := u, w_proc_slot := slot,
              w_wake_reason := FUTEX_WAIT_REASON_NONE\<rparr>"
  shows "futex_rel (futex_bucket_append (set_waiter f w v) (futex_hash slot u) w)
           (A((slot, u) := A (slot, u) @ [w]))"
proof -
  from rel obtain qs where wf: "futex_wf f qs" and A: "A = futex_abs f qs" by (auto simp: futex_rel_def)
  define b where "b = futex_hash slot u"
  define f' where "f' = futex_bucket_append (set_waiter f w v) b w"
  define qs' where "qs' = qs(b := qs b @ [w])"
  have out: "w \<notin> set (qs a)" for a using w futex_wfD(2) [OF wf] by simp
  obtain nx q where push: "fifo_push (w_next f) (futex_buckets f b) w = (nx, q)" by fastforce
  have rep: "frep f' qs'"
    using qarr_push [OF futex_wfD(1) [OF wf, unfolded frep_def] out push] push
    by (simp add: frep_def f'_def futex_bucket_append_def qs'_def)
  have v': "futex_waiters f' = (futex_waiters f)(w := v\<lparr>w_queued := True\<rparr>)"
    using push by (simp add: f'_def futex_bucket_append_def)
  have q': "queued f' x \<longleftrightarrow> queued f x \<or> x = w" "futex_key f' x = (if x = w then (slot, u) else futex_key f x)"
    "w_task (futex_waiters f' x) = (if x = w then Some w else w_task (futex_waiters f x))" for x
    by (auto simp: v' v futex_key_def)
  have "futex_wf f' qs'"
    unfolding futex_wf_def q' using rep w futex_wfD [OF wf] by (auto simp: qs'_def b_def)
  moreover have "futex_abs f' qs' = A((slot, u) := A (slot, u) @ [w])"
  proof (rule ext)
    fix k
    have "filter (\<lambda>x. futex_waiter_matches f' x (fst k) (snd k)) (qs (key_hash k)) = A k"
      unfolding A futex_abs_def using out by (intro filter_cong) (auto simp: matches_key q')
    then show "futex_abs f' qs' k = (A((slot, u) := A (slot, u) @ [w])) k"
      using q' [of w] by (auto simp: futex_abs_def qs'_def b_def matches_key)
  qed
  ultimately show ?thesis unfolding futex_rel_def f'_def b_def by metis
qed

lemma futex_enqueue_refines:
  assumes rel: "futex_rel f A" and w: "w < SCHED_MAX_TASKS"
  obtains f' where "futex_enqueue f w w slot u = Some f'" "futex_rel f' (spec_wait A (slot, u) w)"
    "\<not> w_wake_reason (futex_waiters f' w) = FUTEX_WAIT_REASON_WAKE"
proof -
  obtain f1 where f1: "futex_dequeue f w = Some f1" "futex_rel f1 (spec_leave A w)"
    "futex_waiters f1 = (futex_waiters f)(w := (futex_waiters f w)\<lparr>w_queued := False\<rparr>)"
    by (rule futex_dequeue_refines [OF rel])
  then have nq: "\<not> queued f1 w" by simp
  obtain nx q where push: "fifo_push (w_next f1) (futex_buckets f1 (futex_hash slot u)) w = (nx, q)" by fastforce
  have "futex_rel (futex_bucket_append (set_waiter f1 w ((futex_waiters f1 w)\<lparr>w_task := Some w, w_uaddr := u,
      w_proc_slot := slot, w_wake_reason := FUTEX_WAIT_REASON_NONE\<rparr>)) (futex_hash slot u) w) (spec_wait A (slot, u) w)"
    using futex_append_refines [OF f1(2) nq w refl, of slot u] by (simp only: spec_wait_def Let_def)
  then show ?thesis
    by (intro that [rotated])
      (use f1(1) push in \<open>auto simp: futex_enqueue_def spec_wait_def Let_def futex_bucket_append_def
         FUTEX_WAIT_REASON_NONE_def FUTEX_WAIT_REASON_WAKE_def\<close>)
qed

subsection \<open>Futexes and the scheduler\<close>

lemma futex_waiter_of_eq: "futex_waiter_of s (Some t) = (if t < task_count s \<and> t < SCHED_MAX_TASKS then Some t else None)"
proof (cases "t < task_count s")
  case True
  then have "for_find (\<lambda>i. sched_task_at s i = Some t) 0 (task_count s) = Some t"
    by (simp add: for_find_Some sched_task_at_def)
  with True show ?thesis by (simp add: futex_waiter_of_def futex_task_index_def)
next
  case False
  then have "for_find (\<lambda>i. sched_task_at s i = Some t) 0 (task_count s) = None"
    by (simp add: for_find_None sched_task_at_def)
  with False show ?thesis by (simp add: futex_waiter_of_def futex_task_index_def)
qed

lemma futex_unblock_all_eq: "futex_unblock_all s (map Some ws) = wake_all s ws"
proof -
  have "futex_unblock_one s (Some w) = sched_unblock s (Some w)" for s w
    by (simp add: futex_unblock_one_def sched_unblock_idle)
  then show ?thesis by (induction ws arbitrary: s) (simp_all add: futex_unblock_all_def)
qed

lemma futex_hash_bound: "futex_hash slot u < FUTEX_BUCKET_COUNT"
proof -
  have "unat ((x :: u64) AND 255) < 256" for x
  proof -
    have "unat (x AND 255) \<le> unat (255 :: u64)" by (metis word_and_le1 word_le_nat_alt)
    then show ?thesis by simp
  qed
  then show ?thesis by (simp add: futex_hash_def FUTEX_BUCKET_COUNT_def)
qed

text \<open>
  The steps of the system: a futex call by the current task, the end of a wait, the exit of a
  task, and every step of the scheduler. The label is the task whose own wait begins, ends or
  that blocks for another reason.
\<close>

inductive futex_step :: "nat option \<Rightarrow> sched \<times> futex \<Rightarrow> sched \<times> futex \<Rightarrow> bool" where
  wait: "current_task s = Some c \<Longrightarrow> c \<noteq> IDLE_SLOT \<Longrightarrow>
    futex_wait_current load s f u e tmo = Some (r, s', f') \<Longrightarrow> futex_step (Some c) (s, f) (s', f')"
| resume: "futex_wait_resume f c = Some (r, f') \<Longrightarrow> futex_step (Some c) (s, f) (s, f')"
| cleanup: "futex_task_cleanup s f (Some c) = Some f' \<Longrightarrow> futex_step (Some c) (s, f) (s, f')"
| wake: "futex_wake_current s f u n = Some (r, s', f') \<Longrightarrow> futex_step None (s, f) (s', f')"
| requeue: "futex_requeue_current load s f u n m u2 cmp v = Some (r, s', f') \<Longrightarrow> futex_step None (s, f) (s', f')"
| wake_task: "futex_wake_task_uaddr s f t u n = Some (r, s', f') \<Longrightarrow> futex_step None (s, f) (s', f')"
| sched: "sched_step s s' \<Longrightarrow> futex_step (if sched_block s = Some s' then current_task s else None) (s, f) (s', f)"

definition futex_inv :: "sched \<times> futex \<Rightarrow> bool" where
  "futex_inv x \<longleftrightarrow> (case x of (s, f) \<Rightarrow>
     sched_inv s \<and> (\<exists>A. futex_rel f A) \<and> (\<forall>w. queued f w \<longrightarrow> w < task_count s))"

lemma futex_invD:
  assumes "futex_inv (s, f)"
  obtains A where "sched_inv s" "futex_rel f A" "\<forall>w. queued f w \<longrightarrow> w < task_count s"
    "\<forall>w k. w \<in> set (A k) \<longrightarrow> w < task_count s"
proof -
  obtain A where A: "futex_rel f A" using assms by (auto simp: futex_inv_def)
  with assms that [of A] futex_rel_mem(1) [OF A] show ?thesis by (auto simp: futex_inv_def)
qed

text \<open>What is true of a task that is in a wait: still queued, or woken with its result set.\<close>

definition woken :: "sched \<Rightarrow> futex \<Rightarrow> nat \<Rightarrow> bool" where
  "woken s f c \<longleftrightarrow> \<not> queued f c \<and> w_wake_reason (futex_waiters f c) = FUTEX_WAIT_REASON_WAKE
     \<and> state_of s c \<noteq> TCB_BLOCKED"

lemma futex_wake_key_effect:
  assumes inv: "futex_inv (s, f)" and eq: "futex_wake_key_locked f slot u n = Some (wl, f')"
  shows "futex_inv (futex_unblock_all s wl, f')"
    and "queued f c \<or> woken s f c \<Longrightarrow> queued f' c \<or> woken (futex_unblock_all s wl) f' c"
proof -
  obtain A where A: "sched_inv s" "futex_rel f A" "\<forall>w. queued f w \<longrightarrow> w < task_count s"
    "\<forall>w k. w \<in> set (A k) \<longrightarrow> w < task_count s" by (rule futex_invD [OF inv])
  define ws where "ws = take (unat n) (A (slot, u))"
  obtain f2 where f2: "futex_wake_key_locked f slot u n = Some (map Some ws, f2)"
    "futex_rel f2 (A((slot, u) := drop (unat n) (A (slot, u))))"
    "futex_waiters f2 = mark_all ws (futex_waiters f)"
    unfolding ws_def by (rule futex_wake_refines [OF A(2)])
  have e: "wl = map Some ws" "f' = f2" using f2(1) eq by auto
  have lt: "\<forall>w \<in> set ws. w < task_count s" using A(4) in_set_takeD unfolding ws_def by metis
  show "futex_inv (futex_unblock_all s wl, f')"
    using wake_all_inv [OF A(1) lt] f2(2) A(3) unfolding e futex_inv_def futex_unblock_all_eq
    by (auto simp: f2(3) mark_all_def split: if_splits)
  show "queued f' c \<or> woken (futex_unblock_all s wl) f' c" if "queued f c \<or> woken s f c"
    using that unfolding e futex_unblock_all_eq woken_def by (auto simp: f2(3) mark_all_def wake_all_state)
qed

lemma futex_requeue_key_effect:
  assumes inv: "futex_inv (s, f)" and eq: "futex_requeue_key_locked f slot u n m u2 = Some (wl, moved, f')"
  shows "futex_inv (futex_unblock_all s wl, f')"
    and "queued f c \<or> woken s f c \<Longrightarrow> queued f' c \<or> woken (futex_unblock_all s wl) f' c"
    and "n = 0 \<Longrightarrow> wl = []" and "take (min (length wl + moved) (unat n)) wl = wl"
    and "min (length wl + moved) (unat n) = length wl"
proof -
  obtain A where A: "sched_inv s" "futex_rel f A" "\<forall>w. queued f w \<longrightarrow> w < task_count s"
    "\<forall>w k. w \<in> set (A k) \<longrightarrow> w < task_count s" by (rule futex_invD [OF inv])
  obtain ws mv A' where sp: "spec_requeue A (slot, u) (slot, u2) (unat n) (unat m) = (ws, mv, A')"
    by (metis prod_cases3)
  obtain f2 where f2: "futex_requeue_key_locked f slot u n m u2 = Some (map Some ws, length mv, f2)"
    "futex_rel f2 A'" "futex_waiters f2 = move_all mv u2 (mark_all ws (futex_waiters f))"
    by (rule futex_requeue_refines [OF A(2) sp])
  have e: "wl = map Some ws" "moved = length mv" "f' = f2" using f2(1) eq by auto
  have ws: "ws = take (unat n) (A (slot, u))" and mv: "length mv \<le> length (drop (unat n) (A (slot, u)))"
    using sp by (auto simp: spec_requeue_def Let_def)
  have lt: "\<forall>w \<in> set ws. w < task_count s" using A(4) in_set_takeD unfolding ws by metis
  show "futex_inv (futex_unblock_all s wl, f')"
    using wake_all_inv [OF A(1) lt] f2(2) A(3) unfolding e futex_inv_def futex_unblock_all_eq
    by (auto simp: f2(3) mark_all_def move_all_def split: if_splits)
  show "queued f' c \<or> woken (futex_unblock_all s wl) f' c" if "queued f c \<or> woken s f c"
    using that unfolding e futex_unblock_all_eq woken_def
    by (auto simp: f2(3) mark_all_def move_all_def wake_all_state)
  show "n = 0 \<Longrightarrow> wl = []" by (simp add: e ws)
  have "min (length ws + length mv) (unat n) = length ws" using mv by (auto simp: ws min_def)
  then show "take (min (length wl + moved) (unat n)) wl = wl" "min (length wl + moved) (unat n) = length wl"
    by (simp_all add: e)
qed

lemma futex_leave_effect:
  assumes inv: "futex_inv (s, f)" and eq: "futex_dequeue f w = Some f1"
  shows "futex_inv (s, futex_waiter_reset f1 w)"
    and "c \<noteq> w \<Longrightarrow> futex_waiters (futex_waiter_reset f1 w) c = futex_waiters f c"
proof -
  obtain A where A: "sched_inv s" "futex_rel f A" "\<forall>w. queued f w \<longrightarrow> w < task_count s"
    "\<forall>w k. w \<in> set (A k) \<longrightarrow> w < task_count s" by (rule futex_invD [OF inv])
  obtain f2 where f2: "futex_dequeue f w = Some f2" "futex_rel f2 (spec_leave A w)"
    "futex_waiters f2 = (futex_waiters f)(w := (futex_waiters f w)\<lparr>w_queued := False\<rparr>)"
    by (rule futex_dequeue_refines [OF A(2)])
  have e: "f1 = f2" using f2(1) eq by simp
  have v: "futex_waiters (futex_waiter_reset f1 w) x = (if x = w then futex_waiter_zero else futex_waiters f x)" for x
    by (simp add: futex_waiter_reset_def e f2(3))
  have "futex_rel (futex_waiter_reset f1 w) (spec_leave A w)"
    using futex_reset_refines [OF f2(2)] f2(3) by (simp add: e)
  then show "futex_inv (s, futex_waiter_reset f1 w)"
    using A(1,3) v by (auto simp: futex_inv_def futex_waiter_zero_def split: if_splits)
  show "c \<noteq> w \<Longrightarrow> futex_waiters (futex_waiter_reset f1 w) c = futex_waiters f c" by (simp add: v)
qed

lemma futex_enqueue_other:
  "futex_enqueue f w t slot u = Some f' \<Longrightarrow> c \<noteq> w \<Longrightarrow> futex_rel f A \<Longrightarrow> futex_waiters f' c = futex_waiters f c"
  unfolding futex_enqueue_def
  by (rule futex_dequeue_refines [of f A w]) (auto simp: futex_bucket_append_def split: prod.splits)

lemma futex_wait_effect:
  assumes inv: "futex_inv (s, f)" and c: "current_task s = Some c" "c \<noteq> IDLE_SLOT"
    and eq: "futex_wait_current load s f u e tmo = Some (r, s', f')"
  shows "futex_inv (s', f')"
    and "d \<noteq> c \<Longrightarrow> queued f d \<or> woken s f d \<Longrightarrow> queued f' d \<or> woken s' f' d"
    and "r = Inr w \<Longrightarrow> w = c \<and> queued f' c \<and> futex_key f' c = (sched_task_proc_slot s (Some c), u)
           \<and> state_of s' c = TCB_BLOCKED"
    and "\<not> isl r \<or> s' = s \<and> f' = f"
proof -
  obtain A where A: "sched_inv s" "futex_rel f A" "\<forall>w. queued f w \<longrightarrow> w < task_count s"
    "\<forall>w k. w \<in> set (A k) \<longrightarrow> w < task_count s" by (rule futex_invD [OF inv])
  have "isl r \<and> s' = s \<and> f' = f \<or> r = Inr c \<and> c < task_count s \<and> c < SCHED_MAX_TASKS \<and>
      futex_enqueue f c c (sched_task_proc_slot s (Some c)) u = Some f' \<and> sched_block s = Some s'"
    using eq c(1) unfolding futex_wait_current_def futex_waiter_of_eq
    by (auto simp: Option.bind_eq_Some_conv split: sum.splits if_splits)
  then consider (err) "isl r" "s' = s" "f' = f"
    | (ok) "r = Inr c" "c < task_count s" "c < SCHED_MAX_TASKS"
      "futex_enqueue f c c (sched_task_proc_slot s (Some c)) u = Some f'" "sched_block s = Some s'" by blast
  then have "futex_inv (s', f') \<and> (d \<noteq> c \<longrightarrow> queued f d \<or> woken s f d \<longrightarrow> queued f' d \<or> woken s' f' d) \<and>
     (r = Inr w \<longrightarrow> w = c \<and> queued f' c \<and> futex_key f' c = (sched_task_proc_slot s (Some c), u)
           \<and> state_of s' c = TCB_BLOCKED) \<and> (\<not> isl r \<or> s' = s \<and> f' = f)"
  proof cases
    case err
    with inv show ?thesis by auto
  next
    case ok
    let ?k = "(sched_task_proc_slot s (Some c), u)"
    obtain f2 where f2: "futex_enqueue f c c (sched_task_proc_slot s (Some c)) u = Some f2"
      "futex_rel f2 (spec_wait A ?k c)"
      by (rule futex_enqueue_refines [OF A(2) ok(3)])
    have e: "f2 = f'" using f2(1) ok(4) by simp
    obtain s2 where s2: "sched_block s = Some s2" "sched_inv s2" "proc_same s s2"
      "\<forall>t. state_of s2 t = TCB_BLOCKED \<longleftrightarrow> t = c \<or> state_of s t = TCB_BLOCKED"
      by (rule sched_block_state [OF A(1) c])
    have e2: "s2 = s'" using s2(1) ok(5) by simp
    have oth: "futex_waiters f' x = futex_waiters f x" if "x \<noteq> c" for x
      by (rule futex_enqueue_other [OF ok(4) that A(2)])
    have "c \<in> set (spec_wait A ?k c ?k)" by (simp add: spec_wait_def Let_def)
    then have q: "queued f' c" "futex_key f' c = ?k" using futex_rel_mem(1) [OF f2(2)] e by auto
    have "futex_inv (s', f')"
      using s2(2,3) f2(2) A(3) ok(2) oth e e2 unfolding futex_inv_def proc_same_def by auto metis
    with q s2(4) oth ok(1) show ?thesis by (auto simp: woken_def e2)
  qed
  then show "futex_inv (s', f')"
    and "d \<noteq> c \<Longrightarrow> queued f d \<or> woken s f d \<Longrightarrow> queued f' d \<or> woken s' f' d"
    and "r = Inr w \<Longrightarrow> w = c \<and> queued f' c \<and> futex_key f' c = (sched_task_proc_slot s (Some c), u)
           \<and> state_of s' c = TCB_BLOCKED"
    and "\<not> isl r \<or> s' = s \<and> f' = f" by auto
qed

lemma futex_requeue_cases:
  assumes "futex_requeue_current load s f u n m u2 cmp v = Some (r, s', f')"
  shows "s' = s \<and> f' = f \<or> (\<exists>slot wl moved. futex_requeue_key_locked f slot u n m u2 = Some (wl, moved, f') \<and>
    s' = (if n > 0 then futex_unblock_all s (take (min (length wl + moved) (unat n)) wl) else s))"
  using assms unfolding futex_requeue_current_def
  by (auto simp: Option.bind_eq_Some_conv Let_def split: option.splits sum.splits if_splits)

lemma futex_wake_keep:
  assumes inv: "futex_inv (s, f)"
    and "s' = s \<and> f' = f \<or> (\<exists>slot wl. futex_wake_key_locked f slot u n = Some (wl, f') \<and> s' = futex_unblock_all s wl)"
  shows "futex_inv (s', f') \<and> (queued f c \<or> woken s f c \<longrightarrow> queued f' c \<or> woken s' f' c)"
  using assms(2)
proof (elim disjE exE conjE)
  fix slot wl
  assume eq: "futex_wake_key_locked f slot u n = Some (wl, f')" and s': "s' = futex_unblock_all s wl"
  show ?thesis unfolding s' using futex_wake_key_effect(1) [OF inv eq] futex_wake_key_effect(2) [OF inv eq, of c] by blast
qed (use inv in auto)

lemma futex_step_effect:
  assumes inv: "futex_inv x" and step: "futex_step a x y"
  shows "futex_inv y \<and> (a \<noteq> Some c \<longrightarrow> queued (snd x) c \<or> woken (fst x) (snd x) c \<longrightarrow>
     queued (snd y) c \<or> woken (fst y) (snd y) c)"
  using step
proof cases
  case (wait s d load f u e tmo r s' f')
  then have "futex_inv (s, f)" using inv by simp
  note w = futex_wait_effect [OF this wait(4-6)]
  show ?thesis using w(1) w(2) [of c] wait(1-3) by auto
next
  case (resume f d r f' s)
  then obtain f1 where f1: "futex_dequeue f d = Some f1" "f' = futex_waiter_reset f1 d"
    by (auto simp: futex_wait_resume_def Option.bind_eq_Some_conv)
  have "futex_inv (s, f)" using inv resume by simp
  note l = futex_leave_effect [OF this f1(1)]
  show ?thesis using l(1) l(2) [of c] f1(2) resume(1-3) by (auto simp: woken_def)
next
  case (cleanup s f d f')
  have si: "futex_inv (s, f)" using inv cleanup by simp
  from cleanup(4) consider "f' = f" | f1 where "futex_dequeue f d = Some f1" "f' = futex_waiter_reset f1 d"
    unfolding futex_task_cleanup_def futex_waiter_of_eq by (auto simp: Option.bind_eq_Some_conv split: if_splits)
  then show ?thesis
  proof cases
    case 1
    then show ?thesis using si cleanup(1-3) by auto
  next
    case 2
    note l = futex_leave_effect [OF si 2(1)]
    show ?thesis using l(1) l(2) [of c] 2(2) cleanup(1-3) by (auto simp: woken_def)
  qed
next
  case (wake s f u n r s' f')
  then have si: "futex_inv (s, f)" using inv by simp
  have "s' = s \<and> f' = f \<or> (\<exists>slot wl. futex_wake_key_locked f slot u n = Some (wl, f') \<and> s' = futex_unblock_all s wl)"
    using wake(4) unfolding futex_wake_current_def
    by (auto simp: Option.bind_eq_Some_conv split: option.splits sum.splits if_splits)
  from futex_wake_keep [OF si this, of c] show ?thesis using wake(2,3) by simp
next
  case (requeue load s f u n m u2 cmp v r s' f')
  then have si: "futex_inv (s, f)" using inv by simp
  from futex_requeue_cases [OF requeue(4)] show ?thesis
  proof (elim disjE exE conjE)
    fix slot wl moved
    assume eq: "futex_requeue_key_locked f slot u n m u2 = Some (wl, moved, f')"
      and s': "s' = (if n > 0 then futex_unblock_all s (take (min (length wl + moved) (unat n)) wl) else s)"
    note k = futex_requeue_key_effect [OF si eq]
    have "s' = futex_unblock_all s wl"
      using s' k(3,4) by (cases "n = 0") (auto simp: futex_unblock_all_def word_gt_0)
    then show ?thesis using k(1) k(2) [of c] requeue(2,3) by simp
  qed (use si requeue(2,3) in auto)
next
  case (wake_task s f t u n r s' f')
  then have si: "futex_inv (s, f)" using inv by simp
  have "s' = s \<and> f' = f \<or> (\<exists>slot wl. futex_wake_key_locked f slot u n = Some (wl, f') \<and> s' = futex_unblock_all s wl)"
    using wake_task(4) unfolding futex_wake_task_uaddr_def
    by (auto simp: Option.bind_eq_Some_conv split: if_splits)
  from futex_wake_keep [OF si this, of c] show ?thesis using wake_task(2,3) by simp
next
  case (sched s s' f)
  then have si: "futex_inv (s, f)" "sched_inv s" using inv by (auto simp: futex_inv_def)
  have "futex_inv (s', f)"
    using si sched_step_inv [OF si(2) sched(4)] sched_step_same [OF si(2) sched(4)]
    by (auto simp: futex_inv_def proc_same_def)
  moreover have "state_of s' c \<noteq> TCB_BLOCKED" if "a \<noteq> Some c" "state_of s c \<noteq> TCB_BLOCKED"
    using sched_step_no_block [OF si(2) sched(4), of c] that sched(1) by (auto split: if_splits)
  ultimately show ?thesis using sched(2,3) by (auto simp: woken_def)
qed

definition futex_any_step :: "sched \<times> futex \<Rightarrow> sched \<times> futex \<Rightarrow> bool" where
  "futex_any_step x y \<longleftrightarrow> (\<exists>a. futex_step a x y)"

interpretation futexsys: invariant_system futex_any_step futex_inv
  by unfold_locales (use futex_step_effect in \<open>auto simp: futex_any_step_def\<close>)

text \<open>For a task that waits, the steps of all the others.\<close>

definition futex_others :: "nat \<Rightarrow> sched \<times> futex \<Rightarrow> sched \<times> futex \<Rightarrow> bool" where
  "futex_others c x y \<longleftrightarrow> (\<exists>a. a \<noteq> Some c \<and> futex_step a x y)"

definition in_wait :: "nat \<Rightarrow> sched \<times> futex \<Rightarrow> bool" where
  "in_wait c x \<longleftrightarrow> futex_inv x \<and> (queued (snd x) c \<or> woken (fst x) (snd x) c)"

interpretation waitsys: invariant_system "futex_others c" "in_wait c" for c
  by unfold_locales (use futex_step_effect in \<open>unfold in_wait_def futex_others_def, blast\<close>)

lemma futex_resume_woken:
  "woken s f c \<Longrightarrow> futex_wait_resume f c = Some (Inr (), futex_waiter_reset f c)"
  by (simp add: woken_def futex_wait_resume_def futex_dequeue_def)

subsection \<open>Properties\<close>

text \<open>
  C11. The hash buckets implement one FIFO list of tasks per futex key: waking takes the first
  \<open>n\<close> tasks of the key's list, requeueing wakes \<open>n\<close> and moves the next \<open>m\<close> to the end of the
  other key's list in order (also when both keys share a bucket), joining appends, leaving
  removes; no operation disturbs the list of another key, and none fails to return.
\<close>

theorem futex_refines_spec:
  assumes "futex_rel f A"
  shows "(\<exists>f'. futex_wake_key_locked f slot u n = Some (map Some (fst (spec_wake A (slot, u) (unat n))), f')
            \<and> futex_rel f' (snd (spec_wake A (slot, u) (unat n)))) \<and>
    (\<exists>ws mv A' f'. spec_requeue A (slot, u) (slot, u2) (unat n) (unat m) = (ws, mv, A')
            \<and> futex_requeue_key_locked f slot u n m u2 = Some (map Some ws, length mv, f') \<and> futex_rel f' A') \<and>
    (w < SCHED_MAX_TASKS \<longrightarrow> (\<exists>f'. futex_enqueue f w w slot u = Some f' \<and> futex_rel f' (spec_wait A (slot, u) w))) \<and>
    (\<exists>r f'. futex_wait_resume f w = Some (r, f') \<and> futex_rel f' (spec_leave A w))"
proof (intro conjI)
  show "\<exists>f'. futex_wake_key_locked f slot u n = Some (map Some (fst (spec_wake A (slot, u) (unat n))), f')
            \<and> futex_rel f' (snd (spec_wake A (slot, u) (unat n)))"
    by (rule futex_wake_refines [OF assms, of slot u n]) (simp add: spec_wake_def)
  obtain ws mv A' where sp: "spec_requeue A (slot, u) (slot, u2) (unat n) (unat m) = (ws, mv, A')"
    by (metis prod_cases3)
  show "\<exists>ws mv A' f'. spec_requeue A (slot, u) (slot, u2) (unat n) (unat m) = (ws, mv, A')
            \<and> futex_requeue_key_locked f slot u n m u2 = Some (map Some ws, length mv, f') \<and> futex_rel f' A'"
    by (rule futex_requeue_refines [OF assms sp]) (use sp in blast)
  show "w < SCHED_MAX_TASKS \<longrightarrow> (\<exists>f'. futex_enqueue f w w slot u = Some f' \<and> futex_rel f' (spec_wait A (slot, u) w))"
    using futex_enqueue_refines [OF assms, of w slot u] by metis
  obtain f1 where f1: "futex_dequeue f w = Some f1" "futex_rel f1 (spec_leave A w)"
    "futex_waiters f1 = (futex_waiters f)(w := (futex_waiters f w)\<lparr>w_queued := False\<rparr>)"
    by (rule futex_dequeue_refines [OF assms])
  have "futex_rel (futex_waiter_reset f1 w) (spec_leave A w)"
    by (rule futex_reset_refines [OF f1(2)]) (simp add: f1(3))
  then show "\<exists>r f'. futex_wait_resume f w = Some (r, f') \<and> futex_rel f' (spec_leave A w)"
    using f1(1) by (simp add: futex_wait_resume_def)
qed

theorem futex_refines_spec_witness:
  "\<exists>f1 f2. futex_enqueue futex_init 3 3 0 0x7FC0000000 = Some f1 \<and>
     futex_wake_key_locked f1 0 0x7FC0000000 1 = Some ([Some 3], f2) \<and> futex_rel f2 (\<lambda>_. [])"
proof -
  obtain f1 where f1: "futex_enqueue futex_init 3 3 0 0x7FC0000000 = Some f1"
    "futex_rel f1 (spec_wait (\<lambda>_. []) (0, 0x7FC0000000) 3)"
    using futex_refines_spec [OF futex_init_rel, of 0 "0x7FC0000000" 0 _ 0 3] by (auto simp: SCHED_MAX_TASKS_def)
  obtain f2 where "futex_wake_key_locked f1 0 0x7FC0000000 1 = Some ([Some 3], f2)" "futex_rel f2 (\<lambda>_. [])"
    using conjunct1 [OF futex_refines_spec [OF f1(2), of 0 "0x7FC0000000" 1]]
    by (auto simp: spec_wake_def spec_wait_def spec_leave_def fun_upd_def cong: if_cong)
  with f1(1) show ?thesis by blast
qed

text \<open>
  Whatever futex calls, exits and scheduler steps happen, the futex invariant holds: the
  scheduler's invariant, every bucket a well-formed list of exactly the queued waiters of its
  keys, each of an existing task. A wake never fills more than the \<open>SCHED_MAX_TASKS\<close> entries
  of the wake list, and every bucket index is in range.
\<close>

lemma futex_reachable_inv:
  assumes "sched_inv s" "futex_any_step\<^sup>*\<^sup>* (s, futex_init) (s', f)"
  shows "futex_inv (s', f) \<and>
    (futex_wake_key_locked f slot u n = Some (wl, f') \<longrightarrow> length wl \<le> SCHED_MAX_TASKS) \<and>
    futex_hash slot u < FUTEX_BUCKET_COUNT"
proof (intro conjI)
  have "futex_inv (s, futex_init)"
    using assms(1) futex_init_rel by (auto simp: futex_inv_def futex_init_def futex_waiter_zero_def)
  then show inv: "futex_inv (s', f)" by (rule futexsys.run_inv [OF assms(2)])
  obtain A where A: "futex_rel f A" using inv by (auto simp: futex_inv_def)
  let ?ws = "take (unat n) (A (slot, u))"
  have "set ?ws \<subseteq> {..<SCHED_MAX_TASKS}" using futex_rel_queued(1) [OF A] in_set_takeD by fastforce
  then have "length ?ws \<le> SCHED_MAX_TASKS"
    using distinct_card [of ?ws] card_mono [of "{..<SCHED_MAX_TASKS}" "set ?ws"] futex_rel_mem(2) [OF A] by simp
  then show "futex_wake_key_locked f slot u n = Some (wl, f') \<longrightarrow> length wl \<le> SCHED_MAX_TASKS"
    by (rule_tac futex_wake_refines [OF A, of slot u n]) auto
  show "futex_hash slot u < FUTEX_BUCKET_COUNT" by (rule futex_hash_bound)
qed

definition futex_demo :: sched where
  "futex_demo = sched_boot\<lparr>task_ctx := (\<lambda>_. zero_ctx\<lparr>c_is_user := True\<rparr>)\<rparr>"

lemma futex_demo_inv: "sched_inv futex_demo"
proof -
  have "sched_wf futex_demo ((\<lambda>_. [])(255 := [1]))"
    by (rule sched_wf_cong [OF sched_boot_wf]) (simp_all add: futex_demo_def)
  then show ?thesis
    by (rule sched_invI [of _ _ 0]) (simp_all add: futex_demo_def zero_tcb_def IDLE_SLOT_def)
qed

lemma futex_demo_fields [simp]: "current_task futex_demo = Some 0" "task_count futex_demo = 2"
  by (simp_all add: futex_demo_def)

lemma futex_demo_wait:
  "\<exists>s1 f1. futex_wait_current (\<lambda>_ _. Some 7) futex_demo futex_init 0x7FC0000000 7 0 = Some (Inr 0, s1, f1)"
proof -
  obtain s1 where "sched_block futex_demo = Some s1"
    by (rule sched_block_state [OF futex_demo_inv]) (auto simp: IDLE_SLOT_def)
  moreover obtain f1 where "futex_enqueue futex_init 0 0 (sched_task_proc_slot futex_demo (Some 0)) 0x7FC0000000 = Some f1"
    by (rule futex_enqueue_refines [OF futex_init_rel, of 0]) (auto simp: SCHED_MAX_TASKS_def)
  moreover have "futex_load_u32_task (\<lambda>_ _. Some 7) futex_demo (Some 0) 0x7FC0000000 = Inr 7"
    by (simp add: futex_load_u32_task_def futex_validate_uaddr_def sched_task_is_user_def futex_demo_def
        MMU_USER_BASE_def MMU_USER_LIMIT_def sched_task_space_def proc_of_def zero_ctx_def zero_proc_def mmu_kernel_space_def
        split: option.splits)
  ultimately show ?thesis
    by (simp add: futex_wait_current_def futex_waiter_of_eq SCHED_MAX_TASKS_def)
qed

text \<open>
  C12. No wake-up is lost. A task whose wait has been accepted is queued at its key and BLOCKED;
  after any steps of the other tasks it is still queued, or it has been woken: then it is no
  longer BLOCKED and its wait returns 0.
\<close>

theorem futex_no_lost_wakeup:
  assumes "futex_inv (s, f)" "current_task s = Some c" "c \<noteq> IDLE_SLOT"
    and "futex_wait_current load s f u e tmo = Some (Inr w, s1, f1)"
    and "(futex_others c)\<^sup>*\<^sup>* (s1, f1) (s2, f2)"
  shows "w = c \<and> queued f1 c \<and> futex_key f1 c = (sched_task_proc_slot s (Some c), u) \<and> state_of s1 c = TCB_BLOCKED \<and>
     (queued f2 c \<or> state_of s2 c \<noteq> TCB_BLOCKED \<and> (\<exists>f3. futex_wait_resume f2 c = Some (Inr (), f3)))"
proof -
  note w = futex_wait_effect [OF assms(1-4)]
  have "in_wait c (s1, f1)" using w(1) w(3) [OF refl] by (simp add: in_wait_def)
  then have "in_wait c (s2, f2)" by (rule waitsys.run_inv [OF assms(5)])
  then have "queued f2 c \<or> woken s2 f2 c" by (simp add: in_wait_def)
  then show ?thesis using w(3) [OF refl] futex_resume_woken [of s2 f2 c] by (auto simp: woken_def)
qed

theorem futex_no_lost_wakeup_witness:
  "\<exists>s1 f1. futex_wait_current (\<lambda>_ _. Some 7) futex_demo futex_init 0x7FC0000000 7 0 = Some (Inr 0, s1, f1)
     \<and> queued f1 0 \<and> state_of s1 0 = TCB_BLOCKED"
proof -
  obtain s1 f1 where w: "futex_wait_current (\<lambda>_ _. Some 7) futex_demo futex_init 0x7FC0000000 7 0 = Some (Inr 0, s1, f1)"
    using futex_demo_wait by blast
  have "futex_inv (futex_demo, futex_init)"
    using futex_demo_inv futex_init_rel by (auto simp: futex_inv_def futex_init_def futex_waiter_zero_def)
  from futex_no_lost_wakeup [OF this _ _ w rtranclp.rtrancl_refl] w show ?thesis by (simp add: IDLE_SLOT_def)
qed

text \<open>A wake takes the longest waiting tasks of the key, in order.\<close>

lemma futex_wake_fifo:
  assumes inv: "sched_inv s" "futex_rel f A" "\<forall>w \<in> set (A k). w < task_count s"
    and cur: "current_task s = Some c" "futex_validate_uaddr s (Some c) u = Inr ()" "n \<noteq> 0"
    and k: "k = (sched_task_proc_slot s (Some c), u)" and ws: "ws = take (unat n) (A k)"
  shows "\<exists>s' f'. futex_wake_current s f u n = Some (Inr (min (unat n) (length (A k))), s', f')
     \<and> sched_inv s' \<and> futex_rel f' (A(k := drop (unat n) (A k)))
     \<and> (\<forall>t. state_of s' t = (if t \<in> set ws \<and> state_of s t = TCB_BLOCKED then TCB_READY else state_of s t))"
proof -
  obtain f' where f': "futex_wake_key_locked f (sched_task_proc_slot s (Some c)) u n = Some (map Some ws, f')"
    "futex_rel f' (A(k := drop (unat n) (A k)))"
    unfolding k ws by (rule futex_wake_refines [OF inv(2)])
  have "\<forall>w \<in> set ws. w < task_count s" using inv(3) in_set_takeD unfolding ws by metis
  then have "sched_inv (wake_all s ws)" by (rule wake_all_inv [OF inv(1)])
  moreover have "length ws = min (unat n) (length (A k))" by (simp add: ws)
  ultimately show ?thesis
    using f' cur by (simp add: futex_wake_current_def futex_unblock_all_eq wake_all_state)
qed

text \<open>
  The address check accepts exactly the word-aligned addresses whose four bytes lie in the
  user window \<open>[MMU_USER_BASE, MMU_USER_LIMIT)\<close>, and one address more: the last word of the
  64-bit space, where the sum of the range test wraps to 0.
\<close>

lemma futex_validate_bounds:
  assumes "sched_task_is_user s (Some t)"
  shows "futex_validate_uaddr s (Some t) u = Inr () \<longleftrightarrow>
     unat u mod 4 = 0 \<and> (unat MMU_USER_BASE \<le> unat u \<and> unat u + 4 \<le> unat MMU_USER_LIMIT \<or> u = 0xFFFFFFFFFFFFFFFC)"
proof -
  have al: "u AND 3 = 0 \<longleftrightarrow> unat u mod 4 = 0"
  proof -
    have "u AND 3 = u mod 4" using take_bit_eq_mask [of 2 u] by (simp add: mask_eq_exp_minus_1 take_bit_eq_mod)
    then have "unat (u AND 3) = unat u mod 4" by (simp add: unat_mod)
    then show ?thesis by (metis unat_eq_zero)
  qed
  have lim: "unat MMU_USER_LIMIT = 0x8000000000" "unat MMU_USER_BASE = 0x7FC0000000"
    by (simp_all add: MMU_USER_LIMIT_def MMU_USER_BASE_def)
  have lt: "unat u < 2 ^ 64" using unsigned_less [of u] by simp
  have s4: "unat (u + 4) = (unat u + 4) mod 2 ^ 64" by (simp add: unat_word_ariths)
  have top: "u = 0xFFFFFFFFFFFFFFFC \<longleftrightarrow> unat u = 0xFFFFFFFFFFFFFFFC"
    by (simp add: word_unat_eq_iff)
  show ?thesis
  proof (cases "unat u + 4 < 2 ^ 64")
    case True
    then have "unat (u + 4) = unat u + 4" using s4 by simp
    moreover have "unat u \<noteq> 0xFFFFFFFFFFFFFFFC" using True by simp
    ultimately show ?thesis
      using assms unfolding futex_validate_uaddr_def
      by (simp add: al word_less_nat_alt lim top not_less not_le)
  next
    case False
    then have "unat (u + 4) = unat u + 4 - 2 ^ 64"
      using s4 lt by (simp add: le_mod_geq not_less)
    then show ?thesis
      using assms False lt unfolding futex_validate_uaddr_def
      by (simp add: al word_less_nat_alt lim top) presburger
  qed
qed

end
