(* ===== verification/Ksem.thy ===== *)
theory Ksem
  imports Blocking
begin

text \<open>
  Kernel semaphores, \<^verbatim>\<open>kernel/ksem.c\<close>: a pool of semaphores, a pool of waiters queued in
  FIFO order behind their semaphore, and a table of handles. A wait polls: its first part
  (until the waiter is queued) is \<open>ksem_wait_common_current\<close>, one turn of its loop is
  \<open>ksem_wait_poll\<close>, between two turns the task yields. Every operation works on the scheduler
  state too, through the priority donations of real-time semaphores; no value (\<open>None\<close>) would be
  a list walk that does not end.
\<close>

subsection \<open>Data\<close>

definition KSEM_MAX :: nat where "KSEM_MAX = 64"

definition KSEM_MAX_WAITERS :: nat where "KSEM_MAX_WAITERS = 64"

definition KSEM_MAX_HANDLE_REFS :: nat where "KSEM_MAX_HANDLE_REFS = SCHED_MAX_TASKS * 16"

definition KSEM_NAME_MAX :: nat where "KSEM_NAME_MAX = 32"

definition KSEM_WAIT_FOREVER_NS :: u64 where "KSEM_WAIT_FOREVER_NS = 0"

definition KSEM_PRIVATE :: u32 where "KSEM_PRIVATE = 1"

definition KSEM_SHARED :: u32 where "KSEM_SHARED = 2"

definition KSEM_RT :: u32 where "KSEM_RT = 4"

definition KSEM_ONESHOT :: u32 where "KSEM_ONESHOT = 8"

record ksem_waiter =
  kw_active :: bool
  kw_granted :: bool
  kw_task :: "nat option"
  kw_sem :: "nat option"

record ksem_entry =
  k_id :: u32
  k_value :: "32 word"
  k_flags :: u32
  k_refcount :: u32
  k_active :: bool
  k_named :: bool
  k_unlinked :: bool
  k_oneshot_fired :: bool
  k_name :: string
  k_owner_hint :: "nat option"
  k_waitq :: fifo

record ksem_ref =
  r_active :: bool
  r_owner_pid :: u32
  r_handle :: u32
  r_sem :: "nat option"

text \<open>The \<^verbatim>\<open>next\<close> fields of the waiters are the map \<open>kw_next\<close>.\<close>

record ksem =
  ksem_pool :: "nat \<Rightarrow> ksem_entry"
  ksem_waiters :: "nat \<Rightarrow> ksem_waiter"
  ksem_refs :: "nat \<Rightarrow> ksem_ref"
  kw_next :: links
  ksem_next_id :: u32
  ksem_next_handle :: u32

definition zero_sem :: ksem_entry where
  "zero_sem = \<lparr>k_id = 0, k_value = 0, k_flags = 0, k_refcount = 0, k_active = False, k_named = False,
     k_unlinked = False, k_oneshot_fired = False, k_name = [], k_owner_hint = None, k_waitq = fifo_empty\<rparr>"

definition zero_waiter :: ksem_waiter where
  "zero_waiter = \<lparr>kw_active = False, kw_granted = False, kw_task = None, kw_sem = None\<rparr>"

definition zero_ref :: ksem_ref where
  "zero_ref = \<lparr>r_active = False, r_owner_pid = 0, r_handle = 0, r_sem = None\<rparr>"

definition set_sem :: "ksem \<Rightarrow> nat \<Rightarrow> ksem_entry \<Rightarrow> ksem" where
  "set_sem k i e = k\<lparr>ksem_pool := (ksem_pool k)(i := e)\<rparr>"

definition set_kwaiter :: "ksem \<Rightarrow> nat \<Rightarrow> ksem_waiter \<Rightarrow> ksem" where
  "set_kwaiter k w v = k\<lparr>ksem_waiters := (ksem_waiters k)(w := v)\<rparr>"

definition set_ref :: "ksem \<Rightarrow> nat \<Rightarrow> ksem_ref \<Rightarrow> ksem" where
  "set_ref k r v = k\<lparr>ksem_refs := (ksem_refs k)(r := v)\<rparr>"

subsection \<open>Helpers\<close>

definition ksem_owner_id_for :: "sched \<Rightarrow> nat option \<Rightarrow> u32" where
  "ksem_owner_id_for s task =
     (case task of
        None \<Rightarrow> 0
      | Some t \<Rightarrow>
          if \<not> sched_task_is_user s task then t_pid (task_pool s t)
          else (let tgid = tgid_of s task in if tgid \<noteq> 0 then tgid else t_pid (task_pool s t)))"

definition ksem_timeout_to_ms :: "u64 \<Rightarrow> u64" where
  "ksem_timeout_to_ms timeout_ns =
     (if timeout_ns = 0 then 0 else (timeout_ns + 999999) div 1000000)"

text \<open>A C string is the list of its characters before the terminator.\<close>

fun ksem_name_eq :: "nat \<Rightarrow> string \<Rightarrow> string \<Rightarrow> bool" where
  "ksem_name_eq 0 a b = True"
| "ksem_name_eq (Suc n) [] [] = True"
| "ksem_name_eq (Suc n) (x # xs) (y # ys) = (x = y \<and> ksem_name_eq n xs ys)"
| "ksem_name_eq (Suc n) [] (y # ys) = False"
| "ksem_name_eq (Suc n) (x # xs) [] = False"

definition ksem_name_equal :: "string \<Rightarrow> string \<Rightarrow> bool" where
  "ksem_name_equal a b = ksem_name_eq KSEM_NAME_MAX a b"

definition ksem_name_copy :: "string \<Rightarrow> errno + string" where
  "ksem_name_copy src =
     (if src = [] then Inl EINVAL
      else if length src \<ge> KSEM_NAME_MAX then Inl ENAMETOOLONG
      else Inr src)"

definition ksem_find_named_locked :: "ksem \<Rightarrow> string \<Rightarrow> nat option" where
  "ksem_find_named_locked k name =
     for_find (\<lambda>i. let e = ksem_pool k i
                   in k_active e \<and> k_named e \<and> \<not> k_unlinked e \<and> ksem_name_equal (k_name e) name) 0 KSEM_MAX"

definition bump :: "u32 \<Rightarrow> u32" where
  "bump n = (if n + 1 = 0 then 1 else n + 1)"

definition ksem_alloc_entry_locked :: "ksem \<Rightarrow> (nat \<times> ksem) option" where
  "ksem_alloc_entry_locked k =
     (case for_find (\<lambda>i. \<not> k_active (ksem_pool k i)) 0 KSEM_MAX of
        None \<Rightarrow> None
      | Some i \<Rightarrow>
          Some (i, (set_sem k i (zero_sem\<lparr>k_active := True, k_id := ksem_next_id k\<rparr>))
                     \<lparr>ksem_next_id := bump (ksem_next_id k)\<rparr>))"

definition ksem_alloc_ref_locked :: "sched \<Rightarrow> ksem \<Rightarrow> nat \<Rightarrow> (nat \<times> ksem) option" where
  "ksem_alloc_ref_locked s k i =
     (case current_task s of
        None \<Rightarrow> None
      | Some c \<Rightarrow>
          (case for_find (\<lambda>r. \<not> r_active (ksem_refs k r)) 0 KSEM_MAX_HANDLE_REFS of
             None \<Rightarrow> None
           | Some r \<Rightarrow>
               (let k = set_ref k r \<lparr>r_active = True, r_owner_pid = ksem_owner_id_for s (Some c),
                                      r_handle = ksem_next_handle k, r_sem = Some i\<rparr>;
                    k = k\<lparr>ksem_next_handle := bump (ksem_next_handle k)\<rparr>;
                    e = ksem_pool k i
                in Some (r, set_sem k i (e\<lparr>k_refcount := k_refcount e + 1\<rparr>)))))"

definition ksem_find_ref_locked :: "ksem \<Rightarrow> u32 \<Rightarrow> u32 \<Rightarrow> nat option" where
  "ksem_find_ref_locked k owner_pid handle =
     for_find (\<lambda>r. let v = ksem_refs k r
                   in r_active v \<and> r_owner_pid v = owner_pid \<and> r_handle v = handle) 0 KSEM_MAX_HANDLE_REFS"

definition ksem_alloc_waiter_locked :: "ksem \<Rightarrow> nat \<Rightarrow> nat \<Rightarrow> (nat \<times> ksem) option" where
  "ksem_alloc_waiter_locked k task i =
     (case for_find (\<lambda>w. \<not> kw_active (ksem_waiters k w)) 0 KSEM_MAX_WAITERS of
        None \<Rightarrow> None
      | Some w \<Rightarrow>
          Some (w, (set_kwaiter k w (zero_waiter\<lparr>kw_active := True, kw_task := Some task, kw_sem := Some i\<rparr>))
                     \<lparr>kw_next := (kw_next k)(w := None)\<rparr>))"

definition ksem_free_waiter_locked :: "ksem \<Rightarrow> nat \<Rightarrow> ksem" where
  "ksem_free_waiter_locked k w = (set_kwaiter k w zero_waiter)\<lparr>kw_next := (kw_next k)(w := None)\<rparr>"

subsection \<open>Wait queues\<close>

definition set_waitq :: "ksem \<Rightarrow> nat \<Rightarrow> links \<Rightarrow> fifo \<Rightarrow> ksem" where
  "set_waitq k i nx q = (set_sem k i ((ksem_pool k i)\<lparr>k_waitq := q\<rparr>))\<lparr>kw_next := nx\<rparr>"

definition ksem_waitq_push_locked :: "ksem \<Rightarrow> nat \<Rightarrow> nat \<Rightarrow> ksem" where
  "ksem_waitq_push_locked k i w =
     (let (nx, q) = fifo_push (kw_next k) (k_waitq (ksem_pool k i)) w in set_waitq k i nx q)"

definition ksem_waitq_remove_locked :: "ksem \<Rightarrow> nat \<Rightarrow> nat \<Rightarrow> ksem option" where
  "ksem_waitq_remove_locked k i w =
     do {
       (_, nx, q) \<leftarrow> fifo_remove (kw_next k) (k_waitq (ksem_pool k i)) w;
       Some (set_waitq k i nx q)
     }"

definition ksem_waitq_pop_locked :: "ksem \<Rightarrow> nat \<Rightarrow> nat option \<times> ksem" where
  "ksem_waitq_pop_locked k i =
     (case fifo_pop (kw_next k) (k_waitq (ksem_pool k i)) of
        (None, _, _) \<Rightarrow> (None, k)
      | (Some w, nx, q) \<Rightarrow> (Some w, set_waitq k i nx q))"

subsection \<open>Priority inheritance, one-shot semaphores, destruction\<close>

definition pi_best :: "sched \<Rightarrow> ksem \<Rightarrow> u8 \<Rightarrow> nat \<Rightarrow> u8" where
  "pi_best s k best w =
     (case kw_task (ksem_waiters k w) of
        None \<Rightarrow> best
      | Some t \<Rightarrow> if eff_prio_slot s t < best then eff_prio_slot s t else best)"

partial_function (option) pi_scan :: "sched \<times> ksem \<Rightarrow> u8 \<Rightarrow> nat option \<Rightarrow> u8 option" where
  "pi_scan sk best cur =
     (case cur of
        None \<Rightarrow> Some best
      | Some w \<Rightarrow> pi_scan sk (pi_best (fst sk) (snd sk) best w) (kw_next (snd sk) w))"

definition is_rt :: "ksem_entry \<Rightarrow> bool" where
  "is_rt e \<longleftrightarrow> k_flags e AND KSEM_RT \<noteq> 0"

text \<open>
  \<^verbatim>\<open>if ((sem->flags & KSEM_RT) && sem->owner_hint && ...) sched_task_clear_donation(sem->owner_hint)\<close>.
\<close>

definition clear_hint :: "sched \<Rightarrow> ksem_entry \<Rightarrow> bool \<Rightarrow> sched option" where
  "clear_hint s e other =
     (if is_rt e \<and> k_owner_hint e \<noteq> None \<and> other then sched_task_clear_donation s (k_owner_hint e) else Some s)"

definition ksem_update_pi_locked :: "sched \<Rightarrow> ksem \<Rightarrow> nat \<Rightarrow> sched option" where
  "ksem_update_pi_locked s k i =
     (let e = ksem_pool k i
      in if \<not> is_rt e \<or> k_owner_hint e = None then Some s
         else
           do {
             best \<leftarrow> pi_scan (s, k) 0xFF (fhead (k_waitq e));
             if best \<noteq> 0xFF
             then do { (_, s) \<leftarrow> sched_task_donate_priority s (k_owner_hint e) best; Some s }
             else sched_task_clear_donation s (k_owner_hint e)
           })"

definition ksem_mark_oneshot_locked :: "ksem \<Rightarrow> nat \<Rightarrow> ksem" where
  "ksem_mark_oneshot_locked k i =
     (let e = ksem_pool k i
      in if k_flags e AND KSEM_ONESHOT = 0 \<or> k_oneshot_fired e then k
         else set_sem k i (e\<lparr>k_oneshot_fired := True, k_unlinked := True, k_named := False, k_name := []\<rparr>))"

definition ksem_can_destroy_locked :: "ksem \<Rightarrow> nat \<Rightarrow> bool" where
  "ksem_can_destroy_locked k i \<longleftrightarrow>
     (let e = ksem_pool k i
      in k_active e \<and> fhead (k_waitq e) = None \<and> k_refcount e = 0 \<and> \<not> (k_named e \<and> \<not> k_unlinked e))"

definition ksem_destroy_locked :: "sched \<Rightarrow> ksem \<Rightarrow> nat \<Rightarrow> (sched \<times> ksem) option" where
  "ksem_destroy_locked s k i =
     (let e = ksem_pool k i
      in if \<not> k_active e then Some (s, k)
         else
           do {
             s \<leftarrow> clear_hint s e True;
             Some (s, set_sem k i zero_sem)
           })"

text \<open>The pair of calls that ends most operations.\<close>

definition ksem_reap :: "sched \<Rightarrow> ksem \<Rightarrow> nat \<Rightarrow> (sched \<times> ksem) option" where
  "ksem_reap s k i = (if ksem_can_destroy_locked k i then ksem_destroy_locked s k i else Some (s, k))"

definition ksem_drop_ref_locked :: "sched \<Rightarrow> ksem \<Rightarrow> nat \<Rightarrow> (sched \<times> ksem) option" where
  "ksem_drop_ref_locked s k r =
     (if \<not> r_active (ksem_refs k r) then Some (s, k)
      else
        (let sem = r_sem (ksem_refs k r); k = set_ref k r zero_ref
         in case sem of
              None \<Rightarrow> Some (s, k)
            | Some i \<Rightarrow>
                (let e = ksem_pool k i;
                     k = (if k_refcount e \<noteq> 0 then set_sem k i (e\<lparr>k_refcount := k_refcount e - 1\<rparr>) else k)
                 in ksem_reap s k i)))"

subsection \<open>Waiting\<close>

datatype wait_result = Failed errno | Acquired | Queued nat nat

text \<open>\<open>Queued w i\<close>: the caller goes on polling with its waiter \<open>w\<close> on semaphore \<open>i\<close>.\<close>

definition ksem_lookup :: "sched \<Rightarrow> ksem \<Rightarrow> u32 \<Rightarrow> nat option" where
  "ksem_lookup s k handle =
     (case ksem_find_ref_locked k (ksem_owner_id_for s (current_task s)) handle of
        None \<Rightarrow> None
      | Some r \<Rightarrow>
          (case r_sem (ksem_refs k r) of
             None \<Rightarrow> None
           | Some i \<Rightarrow> if k_active (ksem_pool k i) then Some i else None))"

definition ksem_take :: "sched \<Rightarrow> ksem \<Rightarrow> nat \<Rightarrow> nat \<Rightarrow> (sched \<times> ksem) option" where
  "ksem_take s k i cur =
     (let e = ksem_pool k i
      in do {
           s \<leftarrow> clear_hint s e (k_owner_hint e \<noteq> Some cur);
           let e = e\<lparr>k_value := k_value e - 1\<rparr>;
           let e = (if is_rt e then e\<lparr>k_owner_hint := Some cur\<rparr> else e);
           let k = set_sem k i e;
           s \<leftarrow> ksem_update_pi_locked s k i;
           ksem_reap s (ksem_mark_oneshot_locked k i) i
         })"

definition ksem_wait_common_current ::
  "sched \<Rightarrow> ksem \<Rightarrow> u32 \<Rightarrow> bool \<Rightarrow> (wait_result \<times> sched \<times> ksem) option" where
  "ksem_wait_common_current s k handle try_only =
     (case current_task s of
        None \<Rightarrow> Some (Failed EPERM, s, k)
      | Some cur \<Rightarrow>
          (case ksem_lookup s k handle of
             None \<Rightarrow> Some (Failed ENOENT, s, k)
           | Some i \<Rightarrow>
               if 0 <s k_value (ksem_pool k i) then do { (s, k) \<leftarrow> ksem_take s k i cur; Some (Acquired, s, k) }
               else if try_only then Some (Failed EAGAIN, s, k)
               else
                 (case ksem_alloc_waiter_locked k cur i of
                    None \<Rightarrow> Some (Failed ENOSPC, s, k)
                  | Some (w, k) \<Rightarrow>
                      (let k = ksem_waitq_push_locked k i w
                       in do { s \<leftarrow> ksem_update_pi_locked s k i; Some (Queued w i, s, k) }))))"

text \<open>
  One turn of the loop, by the task that owns waiter \<open>w\<close>. \<open>pending\<close> is
  \<^verbatim>\<open>signal_has_unblocked_pending\<close>, \<open>now\<close> and \<open>deadline\<close> the values of the timer;
  \<open>Queued\<close> means that the task yields and takes another turn.
\<close>

definition ksem_cancel :: "sched \<Rightarrow> ksem \<Rightarrow> nat \<Rightarrow> nat \<Rightarrow> (sched \<times> ksem) option" where
  "ksem_cancel s k i w =
     (if kw_active (ksem_waiters k w) \<and> \<not> kw_granted (ksem_waiters k w) then
        do {
          k \<leftarrow> ksem_waitq_remove_locked k i w;
          s \<leftarrow> ksem_update_pi_locked s k i;
          ksem_reap s (ksem_free_waiter_locked k w) i
        }
      else Some (s, k))"

definition ksem_wait_poll ::
  "sched \<Rightarrow> ksem \<Rightarrow> nat \<Rightarrow> nat \<Rightarrow> bool \<Rightarrow> u64 \<Rightarrow> u64 \<Rightarrow> u64 \<Rightarrow> (wait_result \<times> sched \<times> ksem) option" where
  "ksem_wait_poll s k i w pending timeout_ns now deadline =
     (if kw_granted (ksem_waiters k w) then
        do { (s, k) \<leftarrow> ksem_reap s (ksem_free_waiter_locked k w) i; Some (Acquired, s, k) }
      else if pending then do { (s, k) \<leftarrow> ksem_cancel s k i w; Some (Failed EINTR, s, k) }
      else if timeout_ns \<noteq> KSEM_WAIT_FOREVER_NS \<and> now \<ge> deadline
      then do { (s, k) \<leftarrow> ksem_cancel s k i w; Some (Failed ETIMEDOUT, s, k) }
      else do { s \<leftarrow> sched_yield s; Some (Queued w i, s, k) })"

definition ksem_deadline :: "u64 \<Rightarrow> u64 \<Rightarrow> u64" where
  "ksem_deadline now timeout_ns =
     (if timeout_ns \<noteq> KSEM_WAIT_FOREVER_NS then now + ksem_timeout_to_ms timeout_ns else 0)"

definition ksem_wait_current :: "sched \<Rightarrow> ksem \<Rightarrow> u32 \<Rightarrow> (wait_result \<times> sched \<times> ksem) option" where
  "ksem_wait_current s k handle = ksem_wait_common_current s k handle False"

definition ksem_trywait_current :: "sched \<Rightarrow> ksem \<Rightarrow> u32 \<Rightarrow> (wait_result \<times> sched \<times> ksem) option" where
  "ksem_trywait_current s k handle = ksem_wait_common_current s k handle True"

definition ksem_timedwait_current :: "sched \<Rightarrow> ksem \<Rightarrow> u32 \<Rightarrow> (wait_result \<times> sched \<times> ksem) option" where
  "ksem_timedwait_current s k handle = ksem_wait_common_current s k handle False"

subsection \<open>The other operations\<close>

definition ksem_init :: ksem where
  "ksem_init = \<lparr>ksem_pool = (\<lambda>_. zero_sem), ksem_waiters = (\<lambda>_. zero_waiter), ksem_refs = (\<lambda>_. zero_ref),
     kw_next = (\<lambda>_. None), ksem_next_id = 1, ksem_next_handle = 1\<rparr>"

definition ksem_cleanup_waiter :: "nat \<Rightarrow> nat \<Rightarrow> sched \<times> ksem \<Rightarrow> (sched \<times> ksem) option" where
  "ksem_cleanup_waiter task w sk =
     (let (s, k) = sk; v = ksem_waiters k w
      in case kw_sem v of
           None \<Rightarrow> Some (s, k)
         | Some i \<Rightarrow>
             if \<not> kw_active v \<or> kw_task v \<noteq> Some task then Some (s, k)
             else
               do {
                 k \<leftarrow> ksem_waitq_remove_locked k i w;
                 s \<leftarrow> ksem_update_pi_locked s k i;
                 (s, k) \<leftarrow> ksem_reap s k i;
                 Some (s, ksem_free_waiter_locked k w)
               })"

definition ksem_cleanup_owner :: "nat \<Rightarrow> nat \<Rightarrow> sched \<times> ksem \<Rightarrow> (sched \<times> ksem) option" where
  "ksem_cleanup_owner task i sk =
     (let (s, k) = sk; e = ksem_pool k i
      in if k_active e \<and> k_owner_hint e = Some task then
           do {
             s \<leftarrow> (if is_rt e then sched_task_clear_donation s (Some task) else Some s);
             let k = set_sem k i (e\<lparr>k_owner_hint := None\<rparr>);
             s \<leftarrow> ksem_update_pi_locked s k i;
             Some (s, k)
           }
         else Some (s, k))"

definition ksem_cleanup_ref :: "nat \<Rightarrow> nat \<Rightarrow> sched \<times> ksem \<Rightarrow> (sched \<times> ksem) option" where
  "ksem_cleanup_ref task r sk =
     (let (s, k) = sk
      in if r_active (ksem_refs k r) \<and> r_owner_pid (ksem_refs k r) = ksem_owner_id_for s (Some task) \<and>
            (\<not> sched_task_is_user s (Some task) \<or> sched_task_proc_refcount s (Some task) \<le> 1)
         then ksem_drop_ref_locked s k r
         else Some (s, k))"

definition ksem_task_cleanup :: "sched \<Rightarrow> ksem \<Rightarrow> nat option \<Rightarrow> (sched \<times> ksem) option" where
  "ksem_task_cleanup s k task =
     (case task of
        None \<Rightarrow> Some (s, k)
      | Some t \<Rightarrow>
          do {
            sk \<leftarrow> ofold (ksem_cleanup_waiter t) [0..<KSEM_MAX_WAITERS] (s, k);
            sk \<leftarrow> ofold (ksem_cleanup_owner t) [0..<KSEM_MAX] sk;
            ofold (ksem_cleanup_ref t) [0..<KSEM_MAX_HANDLE_REFS] sk
          })"

text \<open>A null \<^verbatim>\<open>name\<close> is \<open>None\<close>; \<open>out\<close> tells whether the result pointer is not null.\<close>

definition ksem_create_current ::
  "sched \<Rightarrow> ksem \<Rightarrow> string option \<Rightarrow> u32 \<Rightarrow> u32 \<Rightarrow> bool \<Rightarrow> (errno + u32) \<times> ksem" where
  "ksem_create_current s k name value flags out =
     (case current_task s of
        None \<Rightarrow> (Inl EPERM, k)
      | Some _ \<Rightarrow>
          (case name of
             None \<Rightarrow> (Inl EINVAL, k)
           | Some name \<Rightarrow>
               if \<not> out then (Inl EINVAL, k)
               else
                 (let flags = (if flags AND KSEM_PRIVATE \<noteq> 0 then flags AND NOT KSEM_PRIVATE else flags) OR KSEM_SHARED
                  in case ksem_find_named_locked k name of
                       Some _ \<Rightarrow> (Inl EEXIST, k)
                     | None \<Rightarrow>
                         (case ksem_alloc_entry_locked k of
                            None \<Rightarrow> (Inl ENOSPC, k)
                          | Some (i, k) \<Rightarrow>
                              (case ksem_name_copy name of
                                 Inl e \<Rightarrow> (Inl e, set_sem k i zero_sem)
                               | Inr name \<Rightarrow>
                                   (let k = set_sem k i ((ksem_pool k i)\<lparr>k_name := name, k_named := True,
                                                           k_flags := flags, k_value := value\<rparr>)
                                    in case ksem_alloc_ref_locked s k i of
                                         None \<Rightarrow> (Inl ENFILE, set_sem k i zero_sem)
                                       | Some (r, k) \<Rightarrow> (Inr (r_handle (ksem_refs k r)), k)))))))"

definition ksem_open_current ::
  "sched \<Rightarrow> ksem \<Rightarrow> string option \<Rightarrow> bool \<Rightarrow> (errno + u32) \<times> ksem" where
  "ksem_open_current s k name out =
     (case current_task s of
        None \<Rightarrow> (Inl EPERM, k)
      | Some _ \<Rightarrow>
          (case name of
             None \<Rightarrow> (Inl EINVAL, k)
           | Some name \<Rightarrow>
               if \<not> out then (Inl EINVAL, k)
               else
                 (case ksem_find_named_locked k name of
                    None \<Rightarrow> (Inl ENOENT, k)
                  | Some i \<Rightarrow>
                      (case ksem_alloc_ref_locked s k i of
                         None \<Rightarrow> (Inl ENFILE, k)
                       | Some (r, k) \<Rightarrow> (Inr (r_handle (ksem_refs k r)), k)))))"

definition ksem_close_current :: "sched \<Rightarrow> ksem \<Rightarrow> u32 \<Rightarrow> ((errno + unit) \<times> sched \<times> ksem) option" where
  "ksem_close_current s k handle =
     (case current_task s of
        None \<Rightarrow> Some (Inl EPERM, s, k)
      | Some _ \<Rightarrow>
          (case ksem_find_ref_locked k (ksem_owner_id_for s (current_task s)) handle of
             None \<Rightarrow> Some (Inl ENOENT, s, k)
           | Some r \<Rightarrow> do { (s, k) \<leftarrow> ksem_drop_ref_locked s k r; Some (Inr (), s, k) }))"

definition ksem_unlink_current :: "sched \<Rightarrow> ksem \<Rightarrow> string option \<Rightarrow> ((errno + unit) \<times> sched \<times> ksem) option" where
  "ksem_unlink_current s k name =
     (case current_task s of
        None \<Rightarrow> Some (Inl EPERM, s, k)
      | Some _ \<Rightarrow>
          (case name of
             None \<Rightarrow> Some (Inl EINVAL, s, k)
           | Some name \<Rightarrow>
               (case ksem_find_named_locked k name of
                  None \<Rightarrow> Some (Inl ENOENT, s, k)
                | Some i \<Rightarrow>
                    (let k = set_sem k i ((ksem_pool k i)\<lparr>k_unlinked := True, k_named := False, k_name := []\<rparr>)
                     in do { (s, k) \<leftarrow> ksem_reap s k i; Some (Inr (), s, k) }))))"

definition ksem_grant :: "sched \<Rightarrow> ksem \<Rightarrow> nat \<Rightarrow> nat \<Rightarrow> (sched \<times> ksem) option" where
  "ksem_grant s k i w =
     (let e = ksem_pool k i; v = ksem_waiters k w
      in do {
           s \<leftarrow> clear_hint s e (k_owner_hint e \<noteq> kw_task v);
           let k = set_kwaiter k w (v\<lparr>kw_granted := True\<rparr>);
           let k = (if is_rt e then set_sem k i (e\<lparr>k_owner_hint := kw_task v\<rparr>) else k);
           s \<leftarrow> ksem_update_pi_locked s k i;
           Some (s, k)
         })"

definition ksem_release :: "sched \<Rightarrow> ksem \<Rightarrow> nat \<Rightarrow> (sched \<times> ksem) option" where
  "ksem_release s k i =
     (let e = ksem_pool k i
      in do {
           s \<leftarrow> clear_hint s e True;
           Some (s, set_sem k i (e\<lparr>k_owner_hint := None, k_value := k_value e + 1\<rparr>))
         })"

definition ksem_post_current :: "sched \<Rightarrow> ksem \<Rightarrow> u32 \<Rightarrow> ((errno + unit) \<times> sched \<times> ksem) option" where
  "ksem_post_current s k handle =
     (case current_task s of
        None \<Rightarrow> Some (Inl EPERM, s, k)
      | Some _ \<Rightarrow>
          (case ksem_lookup s k handle of
             None \<Rightarrow> Some (Inl ENOENT, s, k)
           | Some i \<Rightarrow>
               (let (waiter, k) = ksem_waitq_pop_locked k i
                in do {
                     (s, k) \<leftarrow> (case waiter of Some w \<Rightarrow> ksem_grant s k i w | None \<Rightarrow> ksem_release s k i);
                     (s, k) \<leftarrow> ksem_reap s (ksem_mark_oneshot_locked k i) i;
                     Some (Inr (), s, k)
                   })))"

definition ksem_getvalue_current :: "sched \<Rightarrow> ksem \<Rightarrow> u32 \<Rightarrow> bool \<Rightarrow> errno + 32 word" where
  "ksem_getvalue_current s k handle out =
     (case current_task s of
        None \<Rightarrow> Inl EPERM
      | Some _ \<Rightarrow>
          if \<not> out then Inl EINVAL
          else (case ksem_lookup s k handle of None \<Rightarrow> Inl ENOENT | Some i \<Rightarrow> Inr (k_value (ksem_pool k i))))"

definition ksem_anon_current :: "sched \<Rightarrow> ksem \<Rightarrow> u32 \<Rightarrow> u32 \<Rightarrow> bool \<Rightarrow> (errno + u32) \<times> ksem" where
  "ksem_anon_current s k value flags out =
     (case current_task s of
        None \<Rightarrow> (Inl EPERM, k)
      | Some _ \<Rightarrow>
          if \<not> out then (Inl EINVAL, k)
          else
            (case ksem_alloc_entry_locked k of
               None \<Rightarrow> (Inl ENOSPC, k)
             | Some (i, k) \<Rightarrow>
                 (let k = set_sem k i ((ksem_pool k i)\<lparr>k_named := False, k_unlinked := True,
                                         k_flags := (flags OR KSEM_PRIVATE) AND NOT KSEM_SHARED, k_value := value\<rparr>)
                  in case ksem_alloc_ref_locked s k i of
                       None \<Rightarrow> (Inl ENFILE, set_sem k i zero_sem)
                     | Some (r, k) \<Rightarrow> (Inr (r_handle (ksem_refs k r)), k))))"

subsection \<open>Donations\<close>

lemma clear_hint_kept:
  assumes "sched_inv s" "\<forall>t. k_owner_hint e = Some t \<longrightarrow> t < task_count s"
  shows "\<exists>s'. clear_hint s e other = Some s' \<and> sched_kept s s'"
  using assms clear_kept [of s] sched_kept_refl [of s] by (cases "k_owner_hint e") (auto simp: clear_hint_def)

lemma pi_scan_chain:
  "chain (kw_next k) cur xs \<Longrightarrow> pi_scan (s, k) best cur = Some (foldl (pi_best s k) best xs)"
proof (induction xs arbitrary: best cur)
  case Nil then show ?case by (simp add: pi_scan.simps)
next
  case (Cons x xs) then show ?case by (subst pi_scan.simps) simp
qed

lemma update_pi_kept:
  assumes inv: "sched_inv s" and rep: "fifo_rep (kw_next k) (k_waitq (ksem_pool k i)) xs"
    and hint: "\<forall>t. k_owner_hint (ksem_pool k i) = Some t \<longrightarrow> t < task_count s"
  shows "\<exists>s'. ksem_update_pi_locked s k i = Some s' \<and> sched_kept s s'"
proof (cases "k_owner_hint (ksem_pool k i)")
  case None then show ?thesis using inv by (simp add: ksem_update_pi_locked_def Let_def sched_kept_refl)
next
  case (Some t)
  then have t: "t < task_count s" using hint by simp
  have scan: "pi_scan (s, k) b (fhead (k_waitq (ksem_pool k i))) = Some (foldl (pi_best s k) b xs)" for b
    using rep by (intro pi_scan_chain) (simp add: fifo_rep_def)
  obtain b s' where "sched_task_donate_priority s (Some t) (foldl (pi_best s k) 0xFF xs) = Some (b, s')" "sched_kept s s'"
    using donate_kept [OF inv t] by blast
  moreover obtain s'' where "sched_task_clear_donation s (Some t) = Some s''" "sched_kept s s''"
    using clear_kept [OF inv t] by blast
  ultimately show ?thesis using Some sched_kept_refl [OF inv]
    by (simp add: ksem_update_pi_locked_def Let_def scan)
qed

subsection \<open>Well-formed semaphore tables\<close>

definition refs_to :: "ksem \<Rightarrow> nat \<Rightarrow> nat set" where
  "refs_to k i = {r. r_active (ksem_refs k r) \<and> r_sem (ksem_refs k r) = Some i}"

definition linked :: "ksem_entry \<Rightarrow> bool" where
  "linked e \<longleftrightarrow> k_active e \<and> k_named e \<and> \<not> k_unlinked e"

definition kqueues :: "nat \<Rightarrow> ksem \<Rightarrow> (nat \<Rightarrow> nat list) \<Rightarrow> bool" where
  "kqueues n k qs \<longleftrightarrow>
     qarr (kw_next k) (\<lambda>i. k_waitq (ksem_pool k i)) qs \<and>
     (\<forall>i w. w \<in> set (qs i) \<longleftrightarrow>
        kw_active (ksem_waiters k w) \<and> \<not> kw_granted (ksem_waiters k w) \<and> kw_sem (ksem_waiters k w) = Some i) \<and>
     (\<forall>w. kw_active (ksem_waiters k w) \<longrightarrow> w < KSEM_MAX_WAITERS \<and>
        (\<exists>t < n. kw_task (ksem_waiters k w) = Some t) \<and> (\<exists>i < KSEM_MAX. kw_sem (ksem_waiters k w) = Some i))"

definition krefs :: "ksem \<Rightarrow> bool" where
  "krefs k \<longleftrightarrow>
     (\<forall>r. r_active (ksem_refs k r) \<longrightarrow> r < KSEM_MAX_HANDLE_REFS \<and>
        (\<exists>i. r_sem (ksem_refs k r) = Some i \<and> k_active (ksem_pool k i))) \<and>
     (\<forall>i. unat (k_refcount (ksem_pool k i)) = card (refs_to k i))"

definition knames :: "ksem \<Rightarrow> bool" where
  "knames k \<longleftrightarrow>
     (\<forall>i. linked (ksem_pool k i) \<longrightarrow> k_name (ksem_pool k i) \<noteq> [] \<and> length (k_name (ksem_pool k i)) < KSEM_NAME_MAX) \<and>
     (\<forall>i j. linked (ksem_pool k i) \<and> linked (ksem_pool k j) \<and> k_name (ksem_pool k i) = k_name (ksem_pool k j) \<longrightarrow> i = j)"

definition kentries :: "nat \<Rightarrow> ksem \<Rightarrow> (nat \<Rightarrow> nat list) \<Rightarrow> bool" where
  "kentries n k qs \<longleftrightarrow>
     (\<forall>i. if k_active (ksem_pool k i) then i < KSEM_MAX else ksem_pool k i = zero_sem) \<and>
     (\<forall>i. 0 <s k_value (ksem_pool k i) \<longrightarrow> qs i = []) \<and>
     (\<forall>i t. k_owner_hint (ksem_pool k i) = Some t \<longrightarrow> t < n)"

text \<open>In the middle of an operation the semaphores of \<open>X\<close> may be ready for destruction.\<close>

definition kwf :: "nat set \<Rightarrow> nat \<Rightarrow> ksem \<Rightarrow> (nat \<Rightarrow> nat list) \<Rightarrow> bool" where
  "kwf X n k qs \<longleftrightarrow> kqueues n k qs \<and> krefs k \<and> knames k \<and> kentries n k qs \<and>
     (\<forall>i. i \<notin> X \<longrightarrow> \<not> ksem_can_destroy_locked k i)"

lemmas kwf_defs = kwf_def kqueues_def krefs_def knames_def kentries_def

lemma set_fields [simp]:
  "ksem_pool (set_sem k i e) = (ksem_pool k)(i := e)" "ksem_waiters (set_sem k i e) = ksem_waiters k"
  "ksem_refs (set_sem k i e) = ksem_refs k" "kw_next (set_sem k i e) = kw_next k"
  "ksem_pool (set_kwaiter k w v) = ksem_pool k" "ksem_waiters (set_kwaiter k w v) = (ksem_waiters k)(w := v)"
  "ksem_refs (set_kwaiter k w v) = ksem_refs k" "kw_next (set_kwaiter k w v) = kw_next k"
  "ksem_pool (set_ref k r x) = ksem_pool k" "ksem_waiters (set_ref k r x) = ksem_waiters k"
  "ksem_refs (set_ref k r x) = (ksem_refs k)(r := x)" "kw_next (set_ref k r x) = kw_next k"
  "ksem_next_id (set_sem k i e) = ksem_next_id k" "ksem_next_handle (set_sem k i e) = ksem_next_handle k"
  "ksem_next_id (set_ref k r x) = ksem_next_id k" "ksem_next_handle (set_ref k r x) = ksem_next_handle k"
  by (simp_all add: set_sem_def set_kwaiter_def set_ref_def)

lemma zero_simps [simp]:
  "\<not> k_active zero_sem" "k_refcount zero_sem = 0" "k_value zero_sem = 0" "k_owner_hint zero_sem = None"
  "k_waitq zero_sem = fifo_empty" "\<not> linked zero_sem" "\<not> kw_active zero_waiter" "\<not> r_active zero_ref" "k_name zero_sem = []"
  "\<not> k_unlinked zero_sem"
  by (simp_all add: zero_sem_def zero_waiter_def zero_ref_def linked_def)

lemma kwfD:
  assumes "kwf X n k qs"
  shows "fifo_rep (kw_next k) (k_waitq (ksem_pool k i)) (qs i)"
    "\<forall>t. k_owner_hint (ksem_pool k i) = Some t \<longrightarrow> t < n"
    "w \<in> set (qs i) \<longleftrightarrow>
       kw_active (ksem_waiters k w) \<and> \<not> kw_granted (ksem_waiters k w) \<and> kw_sem (ksem_waiters k w) = Some i"
    "\<not> k_active (ksem_pool k i) \<Longrightarrow> ksem_pool k i = zero_sem"
    "fhead (k_waitq (ksem_pool k i)) = None \<longleftrightarrow> qs i = []"
    "0 <s k_value (ksem_pool k i) \<Longrightarrow> qs i = []"
    "i \<notin> X \<Longrightarrow> \<not> ksem_can_destroy_locked k i"
    "k_active (ksem_pool k i) \<Longrightarrow> i < KSEM_MAX"
    "r_active (ksem_refs k r) \<Longrightarrow> \<exists>j. r_sem (ksem_refs k r) = Some j \<and> k_active (ksem_pool k j)"
proof -
  show rep: "fifo_rep (kw_next k) (k_waitq (ksem_pool k i)) (qs i)" for i
    using assms qarrD(1) unfolding kwf_defs by fastforce
  show "fhead (k_waitq (ksem_pool k i)) = None \<longleftrightarrow> qs i = []" by (rule fifo_rep_head [OF rep])
qed (use assms in \<open>auto simp: kwf_defs split: if_splits\<close>)

lemma kwf_waiter:
  assumes "kwf X n k qs" "kw_active (ksem_waiters k w)"
  shows "w < KSEM_MAX_WAITERS" "\<exists>t < n. kw_task (ksem_waiters k w) = Some t"
    "\<exists>i < KSEM_MAX. kw_sem (ksem_waiters k w) = Some i"
  using assms by (auto simp: kwf_defs)

lemma kwf_weaken: "kwf X n k qs \<Longrightarrow> X \<subseteq> Y \<Longrightarrow> kwf Y n k qs"
  by (auto simp: kwf_def)

lemma kwf_settled: "kwf X n k qs \<Longrightarrow> \<forall>i \<in> X. \<not> ksem_can_destroy_locked k i \<Longrightarrow> kwf {} n k qs"
  by (auto simp: kwf_def)

lemma refs_to_set_sem [simp]: "refs_to (set_sem k i e) j = refs_to k j"
  by (simp add: refs_to_def)

lemma finite_refs: "krefs k \<Longrightarrow> finite (refs_to k i) \<and> card (refs_to k i) \<le> KSEM_MAX_HANDLE_REFS"
proof -
  assume "krefs k"
  then have "refs_to k i \<subseteq> {..<KSEM_MAX_HANDLE_REFS}" by (auto simp: refs_to_def krefs_def)
  then show ?thesis using finite_subset card_mono by (metis card_lessThan finite_lessThan)
qed

subsection \<open>Changes to one semaphore\<close>

lemma kwf_set_sem:
  assumes wf: "kwf X n k qs" and e: "k_waitq e = k_waitq (ksem_pool k i)"
    "k_refcount e = k_refcount (ksem_pool k i)" "k_active e" "k_active (ksem_pool k i)"
    and v: "0 <s k_value e \<Longrightarrow> qs i = []" and h: "\<And>t. k_owner_hint e = Some t \<Longrightarrow> t < n"
    and nm: "linked e \<Longrightarrow> linked (ksem_pool k i) \<and> k_name e = k_name (ksem_pool k i)"
  shows "kwf (insert i X) n (set_sem k i e) qs"
proof -
  have q: "(\<lambda>j. k_waitq (if j = i then e else ksem_pool k j)) = (\<lambda>j. k_waitq (ksem_pool k j))" using e(1) by auto
  have "kqueues n (set_sem k i e) qs" using wf by (simp add: kwf_def kqueues_def q)
  moreover have "krefs (set_sem k i e)" using wf e by (fastforce simp: kwf_def krefs_def)
  moreover have "kentries n (set_sem k i e) qs" using wf e v h by (auto simp: kwf_def kentries_def)
  moreover have "knames (set_sem k i e)"
  proof -
    have "knames k" using wf by (simp add: kwf_def)
    then show ?thesis using nm unfolding knames_def by (auto split: if_splits)
  qed
  moreover have "\<not> ksem_can_destroy_locked (set_sem k i e) j" if "j \<notin> insert i X" for j
    using wf that by (auto simp: kwf_def ksem_can_destroy_locked_def Let_def)
  ultimately show ?thesis by (simp add: kwf_def)
qed

lemma kwf_oneshot:
  assumes "kwf X n k qs" "k_active (ksem_pool k i)"
  shows "kwf (insert i X) n (ksem_mark_oneshot_locked k i) qs"
  using assms kwfD(2,6) [OF assms(1), of i]
  by (auto simp: ksem_mark_oneshot_locked_def Let_def linked_def intro: kwf_set_sem kwf_weaken)

lemma kwf_destroy:
  assumes wf: "kwf {i} n k qs" and d: "ksem_can_destroy_locked k i"
  shows "kwf {} n (set_sem k i zero_sem) qs"
proof -
  have a: "k_active (ksem_pool k i)" "fhead (k_waitq (ksem_pool k i)) = None" "k_refcount (ksem_pool k i) = 0"
    using d by (auto simp: ksem_can_destroy_locked_def Let_def)
  have qi: "qs i = []" using kwfD(5) [OF wf] a(2) by simp
  then have "ftail (k_waitq (ksem_pool k i)) = None" using kwfD(1) [OF wf, of i] by (simp add: fifo_rep_def)
  then have fe: "k_waitq (ksem_pool k i) = fifo_empty" using a(2) by (simp add: fifo_empty_def fifo.equality)
  have q: "(\<lambda>j. k_waitq (if j = i then zero_sem else ksem_pool k j)) = (\<lambda>j. k_waitq (ksem_pool k j))" using fe by auto
  have "kqueues n (set_sem k i zero_sem) qs" using wf by (simp add: kwf_def kqueues_def q)
  moreover have "card (refs_to k i) = 0" using wf a(3) by (metis kwf_def krefs_def unat_0)
  then have none: "refs_to k i = {}" using finite_refs wf by (auto simp: kwf_def)
  have kr: "krefs k" using wf by (simp add: kwf_def)
  have "krefs (set_sem k i zero_sem)"
    unfolding krefs_def
  proof (intro conjI allI impI)
    fix r assume r: "r_active (ksem_refs (set_sem k i zero_sem) r)"
    then obtain j where j: "r < KSEM_MAX_HANDLE_REFS" "r_sem (ksem_refs k r) = Some j" "k_active (ksem_pool k j)"
      using kr by (auto simp: krefs_def)
    then have "j \<noteq> i" using none r by (auto simp: refs_to_def)
    with j show "r < KSEM_MAX_HANDLE_REFS"
      "\<exists>j. r_sem (ksem_refs (set_sem k i zero_sem) r) = Some j \<and> k_active (ksem_pool (set_sem k i zero_sem) j)" by auto
  next
    fix j show "unat (k_refcount (ksem_pool (set_sem k i zero_sem) j)) = card (refs_to (set_sem k i zero_sem) j)"
      using kr none by (simp add: krefs_def)
  qed
  moreover have "knames (set_sem k i zero_sem)" "kentries n (set_sem k i zero_sem) qs"
    using wf qi by (auto simp: kwf_def knames_def kentries_def split: if_splits)
  moreover have "\<not> ksem_can_destroy_locked (set_sem k i zero_sem) j" for j
    using wf by (auto simp: kwf_def ksem_can_destroy_locked_def Let_def)
  ultimately show ?thesis by (simp add: kwf_def)
qed

lemma kwf_reap:
  assumes wf: "kwf {i} (task_count s) k qs" and inv: "sched_inv s"
  shows "\<exists>s' k'. ksem_reap s k i = Some (s', k') \<and> sched_kept s s' \<and> kwf {} (task_count s) k' qs \<and>
    k' = (if ksem_can_destroy_locked k i then set_sem k i zero_sem else k)"
proof (cases "ksem_can_destroy_locked k i")
  case False
  then show ?thesis using wf inv by (auto simp: ksem_reap_def sched_kept_refl intro: kwf_settled)
next
  case True
  have a: "k_active (ksem_pool k i)" using True by (simp add: ksem_can_destroy_locked_def Let_def)
  obtain s' where s': "clear_hint s (ksem_pool k i) True = Some s'" "sched_kept s s'"
    using clear_hint_kept [OF inv kwfD(2) [OF wf]] by blast
  have "ksem_reap s k i = Some (s', set_sem k i zero_sem)"
    unfolding ksem_reap_def ksem_destroy_locked_def Let_def s' using True a by simp
  then show ?thesis using True kwf_destroy [OF wf True] s'(2) by auto
qed

subsection \<open>Changes to a wait queue\<close>

lemma can_destroy_cong:
  "k_active (ksem_pool k' i) = k_active (ksem_pool k i) \<Longrightarrow>
   (fhead (k_waitq (ksem_pool k' i)) = None) = (fhead (k_waitq (ksem_pool k i)) = None) \<Longrightarrow>
   (k_refcount (ksem_pool k' i) = 0) = (k_refcount (ksem_pool k i) = 0) \<Longrightarrow>
   k_named (ksem_pool k' i) = k_named (ksem_pool k i) \<Longrightarrow> k_unlinked (ksem_pool k' i) = k_unlinked (ksem_pool k i) \<Longrightarrow>
   ksem_can_destroy_locked k' i = ksem_can_destroy_locked k i"
  by (simp add: ksem_can_destroy_locked_def Let_def)

lemma set_waitq_fields [simp]:
  "ksem_pool (set_waitq k i nx q) = (ksem_pool k)(i := (ksem_pool k i)\<lparr>k_waitq := q\<rparr>)"
  "ksem_waiters (set_waitq k i nx q) = ksem_waiters k" "ksem_refs (set_waitq k i nx q) = ksem_refs k"
  "kw_next (set_waitq k i nx q) = nx"
  by (simp_all add: set_waitq_def set_sem_def)

lemma krefs_cong:
  assumes "krefs k" "ksem_refs k' = ksem_refs k" "\<And>i. k_active (ksem_pool k i) \<Longrightarrow> k_active (ksem_pool k' i)"
    "\<And>i. k_refcount (ksem_pool k' i) = k_refcount (ksem_pool k i)"
  shows "krefs k'"
proof -
  have "refs_to k' = refs_to k" using assms(2) by (simp add: refs_to_def fun_eq_iff)
  then show ?thesis using assms unfolding krefs_def by metis
qed

lemma knames_cong:
  assumes "knames k" "\<And>i. linked (ksem_pool k' i) \<Longrightarrow> linked (ksem_pool k i) \<and> k_name (ksem_pool k' i) = k_name (ksem_pool k i)"
  shows "knames k'"
  unfolding knames_def
proof (intro conjI allI impI)
  fix i assume "linked (ksem_pool k' i)"
  then show "k_name (ksem_pool k' i) \<noteq> []" "length (k_name (ksem_pool k' i)) < KSEM_NAME_MAX"
    using assms unfolding knames_def by auto
next
  fix i j assume "linked (ksem_pool k' i) \<and> linked (ksem_pool k' j) \<and> k_name (ksem_pool k' i) = k_name (ksem_pool k' j)"
  then show "i = j" using assms unfolding knames_def by metis
qed

text \<open>
  A new list in the queue of one semaphore and new contents of one waiter leave the other parts of
  the tables alone.
\<close>

lemma kwf_set_waitq:
  assumes wf: "kwf X n k qs" and q: "kqueues n (set_waitq k' i nx q) (qs(i := xs))"
    and same: "ksem_pool k' = ksem_pool k" "ksem_refs k' = ksem_refs k"
    and a: "k_active (ksem_pool k i) \<or> q = k_waitq (ksem_pool k i)" and v: "0 <s k_value (ksem_pool k i) \<Longrightarrow> xs = []"
  shows "kwf (insert i X) n (set_waitq k' i nx q) (qs(i := xs))"
proof -
  have z: "\<not> k_active (ksem_pool k i) \<Longrightarrow> (ksem_pool k i)\<lparr>k_waitq := q\<rparr> = zero_sem"
    using a kwfD(4) [OF wf, of i] by simp
  have "krefs (set_waitq k' i nx q)" by (rule krefs_cong [of k]) (use wf same in \<open>auto simp: kwf_def\<close>)
  moreover have "knames (set_waitq k' i nx q)"
    by (rule knames_cong [of k]) (use wf same in \<open>auto simp: kwf_def linked_def split: if_splits\<close>)
  moreover have "kentries n (set_waitq k' i nx q) (qs(i := xs))" using wf same z v by (auto simp: kwf_def kentries_def)
  moreover have "\<not> ksem_can_destroy_locked (set_waitq k' i nx q) j" if "j \<notin> insert i X" for j
  proof -
    have "\<not> ksem_can_destroy_locked k j" using wf that by (auto simp: kwf_def)
    moreover have "ksem_can_destroy_locked (set_waitq k' i nx q) j = ksem_can_destroy_locked k j"
      by (rule can_destroy_cong) (use that same in auto)
    ultimately show ?thesis by simp
  qed
  ultimately show ?thesis using q by (simp add: kwf_def)
qed

lemma waitq_fun: "(\<lambda>j. k_waitq (if j = i then (f i)\<lparr>k_waitq := q\<rparr> else f j)) = (\<lambda>j. k_waitq (f j))(i := q)"
  by auto

lemma kwf_enqueue:
  assumes wf: "kwf {} n k qs" and al: "ksem_alloc_waiter_locked k t i = Some (w, k1)" and t: "t < n"
    and i: "k_active (ksem_pool k i)" "\<not> 0 <s k_value (ksem_pool k i)"
  shows "kwf {} n (ksem_waitq_push_locked k1 i w) (qs(i := qs i @ [w]))"
proof -
  have w: "\<not> kw_active (ksem_waiters k w)" "w < KSEM_MAX_WAITERS"
    and k1: "k1 = (set_kwaiter k w (zero_waiter\<lparr>kw_active := True, kw_task := Some t, kw_sem := Some i\<rparr>))
                     \<lparr>kw_next := (kw_next k)(w := None)\<rparr>"
    using al by (auto simp: ksem_alloc_waiter_locked_def loop_laws split: option.splits)
  have new: "w \<notin> set (qs j)" for j using kwfD(3) [OF wf] w(1) by blast
  have qa: "qarr (kw_next k) (\<lambda>j. k_waitq (ksem_pool k j)) qs" using wf by (simp add: kwf_defs)
  have qa1: "qarr ((kw_next k)(w := None)) (\<lambda>j. k_waitq (ksem_pool k j)) qs"
    using qa new unfolding qarr_def fifo_rep_def by auto
  obtain nx q where p: "fifo_push ((kw_next k)(w := None)) (k_waitq (ksem_pool k i)) w = (nx, q)" by fastforce
  have k2: "ksem_waitq_push_locked k1 i w = set_waitq k1 i nx q"
    using p by (simp add: ksem_waitq_push_locked_def k1)
  have "kqueues n (set_waitq k1 i nx q) (qs(i := qs i @ [w]))"
    unfolding kqueues_def
  proof (intro conjI allI impI)
    show "qarr (kw_next (set_waitq k1 i nx q)) (\<lambda>j. k_waitq (ksem_pool (set_waitq k1 i nx q) j)) (qs(i := qs i @ [w]))"
      using qarr_push [OF qa1 new p] by (simp add: k1 waitq_fun)
  next
    fix j v
    show "v \<in> set ((qs(i := qs i @ [w])) j) \<longleftrightarrow>
      kw_active (ksem_waiters (set_waitq k1 i nx q) v) \<and> \<not> kw_granted (ksem_waiters (set_waitq k1 i nx q) v) \<and>
      kw_sem (ksem_waiters (set_waitq k1 i nx q) v) = Some j"
      using new kwfD(3) [OF wf] by (auto simp: k1 zero_waiter_def)
  next
    fix v assume v: "kw_active (ksem_waiters (set_waitq k1 i nx q) v)"
    then show "v < KSEM_MAX_WAITERS"
      using kwf_waiter [OF wf] w(2) by (auto simp: k1 split: if_splits)
    show "\<exists>t. t < n \<and> kw_task (ksem_waiters (set_waitq k1 i nx q) v) = Some t"
      using kwf_waiter [OF wf] v t by (auto simp: k1 split: if_splits)
    show "\<exists>j. j < KSEM_MAX \<and> kw_sem (ksem_waiters (set_waitq k1 i nx q) v) = Some j"
      using kwf_waiter [OF wf] v kwfD(8) [OF wf i(1)] by (auto simp: k1 split: if_splits)
  qed
  then have wf2: "kwf {i} n (set_waitq k1 i nx q) (qs(i := qs i @ [w]))"
    by (rule kwf_set_waitq [OF wf]) (use i in \<open>simp_all add: k1\<close>)
  have "fhead (k_waitq (ksem_pool (set_waitq k1 i nx q) i)) \<noteq> None" using kwfD(5) [OF wf2, of i] by simp
  then show ?thesis unfolding k2 by (intro kwf_settled [OF wf2]) (simp add: ksem_can_destroy_locked_def Let_def)
qed

text \<open>Taking a waiter out of its queue, to grant it the semaphore or to free it.\<close>

lemma kwf_detach:
  assumes wf: "kwf X n k qs" and qa: "qarr nx ((\<lambda>j. k_waitq (ksem_pool k j))(i := q)) (qs(i := remove1 w (qs i)))"
    and other: "\<And>j. w \<in> set (qs j) \<Longrightarrow> j = i" and a: "w \<notin> set (qs i) \<Longrightarrow> q = k_waitq (ksem_pool k i)"
    and v: "kw_active v \<Longrightarrow> kw_granted v \<and> kw_active (ksem_waiters k w) \<and>
      kw_task v = kw_task (ksem_waiters k w) \<and> kw_sem v = kw_sem (ksem_waiters k w)"
  shows "kwf (insert i X) n (set_waitq (set_kwaiter k w v) i nx q) (qs(i := remove1 w (qs i)))"
proof (rule kwf_set_waitq [OF wf])
  have d: "distinct (qs i)" using kwfD(1) [OF wf] by (rule fifo_rep_distinct)
  have mem: "u \<in> set ((qs(i := remove1 w (qs i))) j) \<longleftrightarrow> u \<noteq> w \<and> u \<in> set (qs j)" for u j
    using d other [of j] by (auto simp: set_remove1_eq)
  show "kqueues n (set_waitq (set_kwaiter k w v) i nx q) (qs(i := remove1 w (qs i)))"
    unfolding kqueues_def
  proof (intro conjI allI impI)
    show "qarr (kw_next (set_waitq (set_kwaiter k w v) i nx q))
        (\<lambda>j. k_waitq (ksem_pool (set_waitq (set_kwaiter k w v) i nx q) j)) (qs(i := remove1 w (qs i)))"
      using qa by (simp add: waitq_fun)
  next
    fix j u
    show "u \<in> set ((qs(i := remove1 w (qs i))) j) \<longleftrightarrow>
      kw_active (ksem_waiters (set_waitq (set_kwaiter k w v) i nx q) u) \<and>
      \<not> kw_granted (ksem_waiters (set_waitq (set_kwaiter k w v) i nx q) u) \<and>
      kw_sem (ksem_waiters (set_waitq (set_kwaiter k w v) i nx q) u) = Some j"
      unfolding mem using kwfD(3) [OF wf, of u j] v by auto
  next
    fix u assume u: "kw_active (ksem_waiters (set_waitq (set_kwaiter k w v) i nx q) u)"
    then show "u < KSEM_MAX_WAITERS" using kwf_waiter(1) [OF wf] v by (auto split: if_splits)
    show "\<exists>t. t < n \<and> kw_task (ksem_waiters (set_waitq (set_kwaiter k w v) i nx q) u) = Some t"
      using u kwf_waiter(2) [OF wf] v by (auto split: if_splits)
    show "\<exists>j. j < KSEM_MAX \<and> kw_sem (ksem_waiters (set_waitq (set_kwaiter k w v) i nx q) u) = Some j"
      using u kwf_waiter(3) [OF wf] v by (auto split: if_splits)
  qed
  show "k_active (ksem_pool k i) \<or> q = k_waitq (ksem_pool k i)"
  proof (rule ccontr)
    assume n: "\<not> ?thesis"
    then have "k_waitq (ksem_pool k i) = fifo_empty" using kwfD(4) [OF wf, of i] by simp
    moreover have "w \<in> set (qs i)" using n a by auto
    ultimately show False using kwfD(5) [OF wf, of i] by (auto simp: fifo_empty_def)
  qed
  show "0 <s k_value (ksem_pool k i) \<Longrightarrow> remove1 w (qs i) = []" using kwfD(6) [OF wf, of i] by simp
qed simp_all

lemma kwf_remove_free:
  assumes wf: "kwf X n k qs" and other: "\<And>j. w \<in> set (qs j) \<Longrightarrow> j = i"
  obtains nx q where "ksem_waitq_remove_locked k i w = Some (set_waitq k i nx q)"
    "fifo_rep nx q (remove1 w (qs i))"
    "kwf (insert i X) n (ksem_free_waiter_locked (set_waitq k i nx q) w) (qs(i := remove1 w (qs i)))"
proof -
  have qa: "qarr (kw_next k) (\<lambda>j. k_waitq (ksem_pool k j)) qs" using wf by (simp add: kwf_defs)
  obtain nx q where r: "fifo_remove (kw_next k) (k_waitq (ksem_pool k i)) w = Some (w \<in> set (qs i), nx, q)"
    "qarr nx ((\<lambda>j. k_waitq (ksem_pool k j))(i := q)) (qs(i := remove1 w (qs i)))"
    by (rule qarr_remove [OF qa, of i w])
  have abs: "q = k_waitq (ksem_pool k i)" if "w \<notin> set (qs i)"
    using fifo_remove_rep [OF kwfD(1) [OF wf, of i], of w] r(1) that by auto
  have d: "distinct (qs i)" using kwfD(1) [OF wf] by (rule fifo_rep_distinct)
  have "w \<notin> set ((qs(i := remove1 w (qs i))) j)" for j using d other by (auto simp: set_remove1_eq)
  then have "qarr (nx(w := None)) ((\<lambda>j. k_waitq (ksem_pool k j))(i := q)) (qs(i := remove1 w (qs i)))"
    using r(2) unfolding qarr_def fifo_rep_def by simp
  then have "kwf (insert i X) n (set_waitq (set_kwaiter k w zero_waiter) i (nx(w := None)) q) (qs(i := remove1 w (qs i)))"
    using other abs by (intro kwf_detach [OF wf]) simp_all
  moreover have "ksem_free_waiter_locked (set_waitq k i nx q) w = set_waitq (set_kwaiter k w zero_waiter) i (nx(w := None)) q"
    by (simp add: ksem_free_waiter_locked_def set_waitq_def set_kwaiter_def set_sem_def)
  moreover have "fifo_rep nx q (remove1 w (qs i))" using qarrD(1) [OF r(2), of i] by simp
  ultimately show ?thesis using that r(1) by (simp add: ksem_waitq_remove_locked_def)
qed

lemma kwf_pop:
  assumes wf: "kwf {} n k qs" and q: "qs i = w # ws" and v: "v = (ksem_waiters k w)\<lparr>kw_granted := True\<rparr>"
  obtains nx f where "ksem_waitq_pop_locked k i = (Some w, set_waitq k i nx f)" "fifo_rep nx f ws"
    "kwf {i} n (set_kwaiter (set_waitq k i nx f) w v) (qs(i := ws))"
proof -
  have qa: "qarr (kw_next k) (\<lambda>j. k_waitq (ksem_pool k j)) qs" using wf by (simp add: kwf_defs)
  have w: "w \<in> set (qs i)" using q by simp
  have other: "w \<in> set (qs j) \<Longrightarrow> j = i" for j using qarrD(4) [OF qa _ w] .
  obtain nx f where p: "fifo_pop (kw_next k) (k_waitq (ksem_pool k i)) = (Some w, nx, f)" "fifo_rep nx f ws"
    "nx = (kw_next k)(w := None)"
    by (rule fifo_pop_rep_Cons [OF qarrD(1) [OF qa, of i, unfolded q]])
  have "qarr nx ((\<lambda>j. k_waitq (ksem_pool k j))(i := f)) (qs(i := ws))"
    using p(2,3) qarrD(3) [OF qa, of i] q by (intro qarr_update [OF qa p(2)]) auto
  then have "qarr nx ((\<lambda>j. k_waitq (ksem_pool k j))(i := f)) (qs(i := remove1 w (qs i)))" by (simp add: q)
  then have "kwf {i} n (set_waitq (set_kwaiter k w v) i nx f) (qs(i := remove1 w (qs i)))"
    by (rule kwf_detach [OF wf _ other]) (use w kwfD(3) [OF wf, of w i] in \<open>simp_all add: v\<close>)
  moreover have "set_kwaiter (set_waitq k i nx f) w v = set_waitq (set_kwaiter k w v) i nx f"
    by (simp add: set_waitq_def set_kwaiter_def set_sem_def)
  ultimately show ?thesis using that p(1,2) q by (simp add: ksem_waitq_pop_locked_def)
qed

lemma pop_empty: "kwf X n k qs \<Longrightarrow> qs i = [] \<Longrightarrow> ksem_waitq_pop_locked k i = (None, k)"
  using kwfD(1) [of X n k qs i] by (simp add: ksem_waitq_pop_locked_def fifo_pop_rep_Nil)

subsection \<open>Handles\<close>

definition with_refcount :: "ksem \<Rightarrow> nat \<Rightarrow> u32 \<Rightarrow> ksem" where
  "with_refcount k i c = set_sem k i ((ksem_pool k i)\<lparr>k_refcount := c\<rparr>)"

lemma with_refcount_parts:
  assumes wf: "kwf X n k qs" and k': "ksem_pool k' = ksem_pool k" "ksem_waiters k' = ksem_waiters k" "kw_next k' = kw_next k"
    and a: "k_active (ksem_pool k i)" and kr: "krefs (with_refcount k' i c)"
  shows "kwf (insert i X) n (with_refcount k' i c) qs"
proof -
  have q: "(\<lambda>j. k_waitq (if j = i then (ksem_pool k i)\<lparr>k_refcount := c\<rparr> else ksem_pool k j)) = (\<lambda>j. k_waitq (ksem_pool k j))"
    by auto
  have "kqueues n (with_refcount k' i c) qs" using wf k' by (simp add: kwf_def kqueues_def with_refcount_def q)
  moreover have "knames (with_refcount k' i c)"
    by (rule knames_cong [of k]) (use wf k' in \<open>auto simp: kwf_def with_refcount_def linked_def split: if_splits\<close>)
  moreover have "kentries n (with_refcount k' i c) qs" using wf k' a by (auto simp: kwf_def kentries_def with_refcount_def)
  moreover have "\<not> ksem_can_destroy_locked (with_refcount k' i c) j" if "j \<notin> insert i X" for j
    using wf that k' by (auto simp: kwf_def ksem_can_destroy_locked_def Let_def with_refcount_def)
  ultimately show ?thesis using kr by (simp add: kwf_def)
qed

lemma kwf_drop:
  assumes wf: "kwf {} n k qs" and r: "r_active (ksem_refs k r)" "r_sem (ksem_refs k r) = Some i"
  shows "k_refcount (ksem_pool k i) \<noteq> 0"
    and "kwf {i} n (with_refcount (set_ref k r zero_ref) i (k_refcount (ksem_pool k i) - 1)) qs"
proof -
  let ?k = "with_refcount (set_ref k r zero_ref) i (k_refcount (ksem_pool k i) - 1)"
  have kr: "krefs k" using wf by (simp add: kwf_def)
  have fin: "finite (refs_to k i)" and mem: "r \<in> refs_to k i" using finite_refs [OF kr] r by (auto simp: refs_to_def)
  have cnt: "unat (k_refcount (ksem_pool k j)) = card (refs_to k j)" for j using kr by (simp add: krefs_def)
  show nz: "k_refcount (ksem_pool k i) \<noteq> 0" using cnt [of i] fin mem by (metis card_gt_0_iff empty_iff less_irrefl unat_0)
  have a: "k_active (ksem_pool k i)" using kwfD(9) [OF wf r(1)] r(2) by auto
  have refs: "refs_to ?k j = (if j = i then refs_to k i - {r} else refs_to k j)" for j
    using r by (auto simp: refs_to_def with_refcount_def)
  have "unat (k_refcount (ksem_pool k i) - 1) = unat (k_refcount (ksem_pool k i)) - 1"
    using nz by (simp add: unat_minus_one)
  then have "unat (k_refcount (ksem_pool ?k j)) = card (refs_to ?k j)" for j
    using cnt fin mem by (simp add: refs) (simp add: with_refcount_def)
  moreover have "r' < KSEM_MAX_HANDLE_REFS \<and> (\<exists>j. r_sem (ksem_refs ?k r') = Some j \<and> k_active (ksem_pool ?k j))"
    if "r_active (ksem_refs ?k r')" for r'
  proof -
    have "r' \<noteq> r" "r_active (ksem_refs k r')" using that by (auto simp: with_refcount_def split: if_splits)
    moreover from this(2) obtain j where "r' < KSEM_MAX_HANDLE_REFS" "r_sem (ksem_refs k r') = Some j" "k_active (ksem_pool k j)"
      using kr by (auto simp: krefs_def)
    ultimately show ?thesis by (auto simp: with_refcount_def)
  qed
  ultimately have "krefs ?k" by (simp add: krefs_def)
  then show "kwf {i} n ?k qs" by (intro with_refcount_parts [OF wf]) (use a in simp_all)
qed

lemma kwf_alloc_ref:
  assumes wf: "kwf X n k qs" and X: "X \<subseteq> {i}" and al: "ksem_alloc_ref_locked s k i = Some (r, k')" and a: "k_active (ksem_pool k i)"
  shows "kwf {} n k' qs" and "\<not> r_active (ksem_refs k r)" and "r < KSEM_MAX_HANDLE_REFS"
    and "ksem_refs k' = (ksem_refs k)(r := \<lparr>r_active = True, r_owner_pid = ksem_owner_id_for s (current_task s),
           r_handle = ksem_next_handle k, r_sem = Some i\<rparr>)"
    and "ksem_pool k' = (ksem_pool k)(i := (ksem_pool k i)\<lparr>k_refcount := k_refcount (ksem_pool k i) + 1\<rparr>)"
proof -
  let ?v = "\<lparr>r_active = True, r_owner_pid = ksem_owner_id_for s (current_task s),
           r_handle = ksem_next_handle k, r_sem = Some i\<rparr>"
  let ?k = "(set_ref k r ?v)\<lparr>ksem_next_handle := bump (ksem_next_handle k)\<rparr>"
  have k': "k' = with_refcount ?k i (k_refcount (ksem_pool k i) + 1)"
    and free: "\<not> r_active (ksem_refs k r)" and bnd: "r < KSEM_MAX_HANDLE_REFS"
    using al by (auto simp: ksem_alloc_ref_locked_def loop_laws Let_def with_refcount_def split: option.splits)
  show "\<not> r_active (ksem_refs k r)" "r < KSEM_MAX_HANDLE_REFS" by fact+
  show rf: "ksem_refs k' = (ksem_refs k)(r := ?v)"
    "ksem_pool k' = (ksem_pool k)(i := (ksem_pool k i)\<lparr>k_refcount := k_refcount (ksem_pool k i) + 1\<rparr>)"
    by (simp_all add: k' with_refcount_def)
  have kr: "krefs k" using wf by (simp add: kwf_def)
  have fin: "finite (refs_to k i)" "card (refs_to k i) \<le> KSEM_MAX_HANDLE_REFS" using finite_refs [OF kr] by auto
  have cnt: "unat (k_refcount (ksem_pool k j)) = card (refs_to k j)" for j using kr by (simp add: krefs_def)
  have refs: "refs_to k' j = (if j = i then insert r (refs_to k i) else refs_to k j)" for j
    using free by (auto simp: refs_to_def rf)
  have new: "r \<notin> refs_to k i" using free by (simp add: refs_to_def)
  have "unat (k_refcount (ksem_pool k i)) + 1 < 2 ^ 32"
    using cnt fin(2) by (simp add: KSEM_MAX_HANDLE_REFS_def SCHED_MAX_TASKS_def)
  then have inc: "unat (k_refcount (ksem_pool k i) + 1) = unat (k_refcount (ksem_pool k i)) + 1"
    by (simp add: unat_word_ariths)
  then have "unat (k_refcount (ksem_pool k' j)) = card (refs_to k' j)" for j
    using cnt fin(1) new by (simp add: refs rf)
  moreover have "r' < KSEM_MAX_HANDLE_REFS \<and> (\<exists>j. r_sem (ksem_refs k' r') = Some j \<and> k_active (ksem_pool k' j))"
    if "r_active (ksem_refs k' r')" for r'
    using that kr a bnd by (auto simp: rf krefs_def split: if_splits)
  ultimately have "krefs k'" by (simp add: krefs_def)
  then have "kwf (insert i X) n k' qs" unfolding k' by (intro with_refcount_parts [OF wf]) (use a in simp_all)
  moreover have "k_refcount (ksem_pool k' i) \<noteq> 0" using inc by (auto simp: rf)
  then have "\<not> ksem_can_destroy_locked k' i" by (simp add: ksem_can_destroy_locked_def Let_def)
  ultimately show "kwf {} n k' qs" using X by (intro kwf_settled [of "insert i X"]) auto
qed

subsection \<open>New semaphores\<close>

lemma kwf_new:
  assumes wf: "kwf {} n k qs" and al: "ksem_alloc_entry_locked k = Some (i, k1)"
    and e: "k_active e" "k_refcount e = 0" "k_waitq e = fifo_empty" "k_owner_hint e = None"
    and nm: "linked e \<Longrightarrow> k_name e \<noteq> [] \<and> length (k_name e) < KSEM_NAME_MAX \<and>
      (\<forall>j. linked (ksem_pool k j) \<longrightarrow> k_name (ksem_pool k j) \<noteq> k_name e)"
  shows "kwf {i} n (set_sem k1 i e) qs"
proof -
  have i: "i < KSEM_MAX" "\<not> k_active (ksem_pool k i)"
    and k1: "k1 = (set_sem k i (zero_sem\<lparr>k_active := True, k_id := ksem_next_id k\<rparr>))\<lparr>ksem_next_id := bump (ksem_next_id k)\<rparr>"
    using al by (auto simp: ksem_alloc_entry_locked_def loop_laws split: option.splits)
  have z: "ksem_pool k i = zero_sem" using kwfD(4) [OF wf i(2)] .
  have qi: "qs i = []" using kwfD(5) [OF wf, of i] z by (simp add: fifo_empty_def)
  have q: "(\<lambda>j. k_waitq (if j = i then e else ksem_pool k j)) = (\<lambda>j. k_waitq (ksem_pool k j))" using e z by auto
  have "kqueues n (set_sem k1 i e) qs" using wf by (simp add: kwf_def kqueues_def q k1)
  moreover have kr: "krefs k" using wf by (simp add: kwf_def)
  have "krefs (set_sem k1 i e)" by (rule krefs_cong [OF kr]) (use e z in \<open>simp_all add: k1\<close>)
  moreover have "kentries n (set_sem k1 i e) qs" using wf e i qi by (auto simp: kwf_def kentries_def k1)
  moreover have "knames k" using wf by (simp add: kwf_def)
  then have "knames (set_sem k1 i e)" using nm unfolding knames_def by (auto simp: k1 split: if_splits)
  moreover have "\<not> ksem_can_destroy_locked (set_sem k1 i e) j" if "j \<noteq> i" for j
    using wf that by (auto simp: kwf_def ksem_can_destroy_locked_def Let_def k1)
  ultimately show ?thesis by (simp add: kwf_def)
qed

text \<open>An allocation that is given up only uses up an identifier.\<close>

lemma alloc_entry_undo:
  assumes wf: "kwf {} n k qs" and al: "ksem_alloc_entry_locked k = Some (i, k1)"
  shows "set_sem (set_sem k1 i e) i zero_sem = k\<lparr>ksem_next_id := bump (ksem_next_id k)\<rparr>"
    and "set_sem k1 i zero_sem = k\<lparr>ksem_next_id := bump (ksem_next_id k)\<rparr>"
proof -
  have i: "\<not> k_active (ksem_pool k i)"
    and k1: "k1 = (set_sem k i (zero_sem\<lparr>k_active := True, k_id := ksem_next_id k\<rparr>))\<lparr>ksem_next_id := bump (ksem_next_id k)\<rparr>"
    using al by (auto simp: ksem_alloc_entry_locked_def loop_laws split: option.splits)
  have "(ksem_pool k)(i := zero_sem) = ksem_pool k" using kwfD(4) [OF wf i] by auto
  then show "set_sem (set_sem k1 i e) i zero_sem = k\<lparr>ksem_next_id := bump (ksem_next_id k)\<rparr>"
    "set_sem k1 i zero_sem = k\<lparr>ksem_next_id := bump (ksem_next_id k)\<rparr>"
    by (simp_all add: k1 set_sem_def)
qed

lemma kwf_next_id [simp]: "kwf X n (k\<lparr>ksem_next_id := v\<rparr>) qs = kwf X n k qs"
  by (simp add: kwf_defs refs_to_def ksem_can_destroy_locked_def)

lemma ksem_name_eq_iff:
  "length a < m \<Longrightarrow> ksem_name_eq m a b \<longleftrightarrow> a = b"
proof (induction m a b rule: ksem_name_eq.induct)
  case (3 n x xs y ys) then show ?case by simp
qed auto

lemma find_named_iff:
  assumes wf: "kwf X n k qs"
  shows "ksem_find_named_locked k name = Some i \<longleftrightarrow> linked (ksem_pool k i) \<and> k_name (ksem_pool k i) = name"
    and "ksem_find_named_locked k name = None \<longleftrightarrow> (\<forall>i. linked (ksem_pool k i) \<longrightarrow> k_name (ksem_pool k i) \<noteq> name)"
proof -
  have nm: "\<And>j. linked (ksem_pool k j) \<Longrightarrow> length (k_name (ksem_pool k j)) < KSEM_NAME_MAX \<and> j < KSEM_MAX"
    and un: "\<And>i j. linked (ksem_pool k i) \<Longrightarrow> linked (ksem_pool k j) \<Longrightarrow> k_name (ksem_pool k i) = k_name (ksem_pool k j) \<Longrightarrow> i = j"
    using wf kwfD(8) [OF wf] by (auto simp: kwf_def knames_def linked_def)
  let ?P = "\<lambda>i. let e = ksem_pool k i in k_active e \<and> k_named e \<and> \<not> k_unlinked e \<and> ksem_name_equal (k_name e) name"
  have P: "?P i \<longleftrightarrow> linked (ksem_pool k i) \<and> k_name (ksem_pool k i) = name" for i
    using nm [of i] ksem_name_eq_iff by (auto simp: Let_def linked_def ksem_name_equal_def)
  show "ksem_find_named_locked k name = Some i \<longleftrightarrow> linked (ksem_pool k i) \<and> k_name (ksem_pool k i) = name"
    unfolding ksem_find_named_locked_def for_find_Some P using nm un by (metis le0 less_irrefl)
  show "ksem_find_named_locked k name = None \<longleftrightarrow> (\<forall>i. linked (ksem_pool k i) \<longrightarrow> k_name (ksem_pool k i) \<noteq> name)"
    unfolding ksem_find_named_locked_def for_find_None P using nm by auto
qed

subsection \<open>The operations on well-formed tables\<close>

text \<open>Every operation on one semaphore keeps the others, the handles and the scheduler's view.\<close>

definition sem_post :: "sched \<Rightarrow> ksem \<Rightarrow> nat \<Rightarrow> (nat \<Rightarrow> nat list) \<Rightarrow> sched \<Rightarrow> ksem \<Rightarrow> bool" where
  "sem_post s k i qs' s' k' \<longleftrightarrow>
     sched_kept s s' \<and> kwf {} (task_count s') k' qs' \<and> (\<forall>j. j \<noteq> i \<longrightarrow> ksem_pool k' j = ksem_pool k j)"

lemma lookup_sem:
  assumes wf: "kwf X n k qs" and l: "ksem_lookup s k h = Some i"
  shows "k_active (ksem_pool k i)" "k_refcount (ksem_pool k i) \<noteq> 0"
proof -
  obtain r where r: "r_active (ksem_refs k r)" "r_sem (ksem_refs k r) = Some i" and a: "k_active (ksem_pool k i)"
    using l by (auto simp: ksem_lookup_def ksem_find_ref_locked_def Let_def split: option.splits if_splits dest!: for_find_SomeD(3))
  have kr: "krefs k" using wf by (simp add: kwf_def)
  have "r \<in> refs_to k i" using r by (simp add: refs_to_def)
  then have "0 < card (refs_to k i)" using finite_refs [OF kr, of i] by (auto simp: card_gt_0_iff)
  moreover have "unat (k_refcount (ksem_pool k i)) = card (refs_to k i)" using kr by (simp add: krefs_def)
  ultimately show "k_refcount (ksem_pool k i) \<noteq> 0" by auto
  show "k_active (ksem_pool k i)" by fact
qed

lemma owner_id_same: "proc_same s s' \<Longrightarrow> ksem_owner_id_for s' t = ksem_owner_id_for s t"
proof -
  assume p: "proc_same s s'"
  then have "p_in_use (proc_core (proc_ctx s' i)) = p_in_use (proc_core (proc_ctx s i))"
    "p_tgid (proc_core (proc_ctx s' i)) = p_tgid (proc_core (proc_ctx s i))" for i
    by (simp_all add: proc_same_def)
  then have c: "p_in_use (proc_ctx s' i) = p_in_use (proc_ctx s i)" "p_tgid (proc_ctx s' i) = p_tgid (proc_ctx s i)" for i
    by (simp_all add: proc_core_def)
  with p show ?thesis
    by (auto simp: ksem_owner_id_for_def sched_task_is_user_def tgid_of_def proc_of_def proc_same_def Let_def split: option.splits)
qed

lemma lookup_same:
  assumes "sched_kept s s'" "ksem_refs k' = ksem_refs k" "\<And>i. k_active (ksem_pool k i) \<Longrightarrow> k_active (ksem_pool k' i)"
    "ksem_lookup s k h = Some i"
  shows "ksem_lookup s' k' h = Some i"
  using assms owner_id_same [OF sched_keptD(2) [OF assms(1)]] sched_keptD(4) [OF assms(1)]
  by (auto simp: ksem_lookup_def ksem_find_ref_locked_def split: option.splits if_splits)

lemma reap_referenced: "k_refcount (ksem_pool k i) \<noteq> 0 \<Longrightarrow> ksem_reap s k i = Some (s, k)"
  by (simp add: ksem_reap_def ksem_can_destroy_locked_def Let_def)

lemma oneshot_fields [simp]:
  "k_refcount (ksem_pool (ksem_mark_oneshot_locked k i) j) = k_refcount (ksem_pool k j)"
  "k_value (ksem_pool (ksem_mark_oneshot_locked k i) j) = k_value (ksem_pool k j)"
  "k_owner_hint (ksem_pool (ksem_mark_oneshot_locked k i) j) = k_owner_hint (ksem_pool k j)"
  "k_flags (ksem_pool (ksem_mark_oneshot_locked k i) j) = k_flags (ksem_pool k j)"
  "k_active (ksem_pool (ksem_mark_oneshot_locked k i) j) = k_active (ksem_pool k j)"
  "ksem_waiters (ksem_mark_oneshot_locked k i) = ksem_waiters k" "ksem_refs (ksem_mark_oneshot_locked k i) = ksem_refs k"
  "j \<noteq> i \<Longrightarrow> ksem_pool (ksem_mark_oneshot_locked k i) j = ksem_pool k j"
  by (simp_all add: ksem_mark_oneshot_locked_def Let_def)

text \<open>Taking a token that is there.\<close>

lemma take_ok:
  assumes wf: "kwf {} (task_count s) k qs" and inv: "sched_inv s" and cur: "cur < task_count s"
    and i: "k_active (ksem_pool k i)" "k_refcount (ksem_pool k i) \<noteq> 0" "0 <s k_value (ksem_pool k i)"
  shows "\<exists>s' k'. ksem_take s k i cur = Some (s', k') \<and> sem_post s k i qs s' k' \<and> ksem_waiters k' = ksem_waiters k \<and>
    ksem_refs k' = ksem_refs k \<and> k_value (ksem_pool k' i) = k_value (ksem_pool k i) - 1 \<and>
    k_flags (ksem_pool k' i) = k_flags (ksem_pool k i) \<and> k_active (ksem_pool k' i) \<and>
    (is_rt (ksem_pool k i) \<longrightarrow> k_owner_hint (ksem_pool k' i) = Some cur)"
proof -
  define e where "e = (ksem_pool k i)\<lparr>k_value := k_value (ksem_pool k i) - 1\<rparr>"
  define e2 where "e2 = (if is_rt e then e\<lparr>k_owner_hint := Some cur\<rparr> else e)"
  define k2 where "k2 = set_sem k i e2"
  have qi: "qs i = []" by (rule kwfD(6) [OF wf i(3)])
  have e2: "k_waitq e2 = k_waitq (ksem_pool k i)" "k_refcount e2 = k_refcount (ksem_pool k i)" "k_active e2"
    "linked e2 = linked (ksem_pool k i)" "k_name e2 = k_name (ksem_pool k i)"
    "k_value e2 = k_value (ksem_pool k i) - 1" "\<And>t. k_owner_hint e2 = Some t \<Longrightarrow> t < task_count s"
    "is_rt (ksem_pool k i) \<longrightarrow> k_owner_hint e2 = Some cur" "k_flags e2 = k_flags (ksem_pool k i)"
    using i kwfD(2) [OF wf, of i] cur by (auto simp: e2_def e_def linked_def is_rt_def split: if_splits)
  have wf2: "kwf {i} (task_count s) k2 qs"
    unfolding k2_def by (rule kwf_set_sem [OF wf]) (use e2 i qi in auto)
  have wf3: "kwf {i} (task_count s) (ksem_mark_oneshot_locked k2 i) qs"
    using kwf_oneshot [OF wf2, of i] e2(3) by (simp add: k2_def)
  have rc: "k_refcount (ksem_pool (ksem_mark_oneshot_locked k2 i) i) \<noteq> 0" using e2(2) i(2) by (simp add: k2_def)
  have wf4: "kwf {} (task_count s) (ksem_mark_oneshot_locked k2 i) qs"
    using rc by (intro kwf_settled [OF wf3]) (simp add: ksem_can_destroy_locked_def Let_def)
  obtain s1 where s1: "clear_hint s (ksem_pool k i) (k_owner_hint (ksem_pool k i) \<noteq> Some cur) = Some s1" "sched_kept s s1"
    using clear_hint_kept [OF inv kwfD(2) [OF wf]] by blast
  obtain s2 where s2: "ksem_update_pi_locked s1 k2 i = Some s2" "sched_kept s1 s2"
    using update_pi_kept [OF sched_keptD(1) [OF s1(2)] kwfD(1) [OF wf2, of i]] kwfD(2) [OF wf2, of i] sched_keptD(5) [OF s1(2)] by auto
  have kept: "sched_kept s s2" using s1(2) s2(2) by (rule sched_kept_trans)
  have "ksem_take s k i cur = Some (s2, ksem_mark_oneshot_locked k2 i)"
    unfolding ksem_take_def Let_def e_def [symmetric] e2_def [symmetric] k2_def [symmetric] s1(1)
    by (simp add: s2(1) reap_referenced [OF rc])
  moreover have "sem_post s k i qs s2 (ksem_mark_oneshot_locked k2 i)"
    using kept wf4 sched_keptD(5) [OF kept] by (simp add: sem_post_def k2_def)
  ultimately show ?thesis using e2(3,6,8,9) by (simp add: k2_def)
qed

definition ksem_inv :: "sched \<times> ksem \<Rightarrow> bool" where
  "ksem_inv sk \<longleftrightarrow> task_inv (fst sk) \<and> (\<exists>qs. kwf {} (task_count (fst sk)) (snd sk) qs)"

lemma ksem_invE:
  assumes "ksem_inv (s, k)"
  obtains qs c where "task_inv s" "sched_inv s" "kwf {} (task_count s) k qs" "current_task s = Some c" "c < task_count s"
  using assms by (auto simp: ksem_inv_def task_inv_def elim: sched_invE)

lemma ksem_invI: "ksem_inv (s, k) \<Longrightarrow> sem_post s k i qs' s' k' \<Longrightarrow> ksem_inv (s', k')"
  using task_inv_kept by (auto simp: ksem_inv_def sem_post_def)

lemma ksem_inv_refl: "ksem_inv (s, k) \<Longrightarrow> \<exists>qs. sem_post s k i qs s k"
  by (auto simp: ksem_inv_def task_inv_def sem_post_def sched_kept_refl)

lemma wait_common_ok:
  assumes inv: "ksem_inv (s, k)"
  shows "\<exists>r s' k'. ksem_wait_common_current s k h b = Some (r, s', k') \<and> ksem_inv (s', k') \<and> sched_kept s s'"
proof -
  obtain qs c where q: "sched_inv s" "kwf {} (task_count s) k qs" "current_task s = Some c" "c < task_count s" "task_inv s"
    by (rule ksem_invE [OF inv])
  note refl = sched_kept_refl [OF q(1)]
  show ?thesis
  proof (cases "ksem_lookup s k h")
    case None then show ?thesis using inv q(3) refl by (simp add: ksem_wait_common_current_def)
  next
    case (Some i)
    note i = lookup_sem [OF q(2) Some]
    show ?thesis
    proof (cases "0 <s k_value (ksem_pool k i)")
      case True
      obtain s' k' where t: "ksem_take s k i c = Some (s', k')" "sem_post s k i qs s' k'"
        using take_ok [OF q(2,1,4) i True] by blast
      then show ?thesis using True Some q(3) ksem_invI [OF inv t(2)] by (simp add: ksem_wait_common_current_def sem_post_def)
    next
      case v: False
      show ?thesis
      proof (cases "b \<or> ksem_alloc_waiter_locked k c i = None")
        case True then show ?thesis using v Some q(3) inv refl by (auto simp: ksem_wait_common_current_def)
      next
        case False
        then obtain w k1 where al: "ksem_alloc_waiter_locked k c i = Some (w, k1)" by auto
        have wf: "kwf {} (task_count s) (ksem_waitq_push_locked k1 i w) (qs(i := qs i @ [w]))"
          by (rule kwf_enqueue [OF q(2) al q(4) i(1) v])
        obtain s' where s': "ksem_update_pi_locked s (ksem_waitq_push_locked k1 i w) i = Some s'" "sched_kept s s'"
          using update_pi_kept [OF q(1) kwfD(1) [OF wf, of i] kwfD(2) [OF wf, of i]] by blast
        have "ksem_inv (s', ksem_waitq_push_locked k1 i w)"
          using wf task_inv_kept [OF q(5) s'(2)] sched_keptD(5) [OF s'(2)] by (auto simp: ksem_inv_def)
        then show ?thesis using False v Some q(3) al s' by (simp add: ksem_wait_common_current_def Let_def)
      qed
    qed
  qed
qed

lemma reap_free_commute:
  "(ksem_reap s k i \<bind> (\<lambda>(s, k). Some (s, ksem_free_waiter_locked k w))) = ksem_reap s (ksem_free_waiter_locked k w) i"
proof -
  have "ksem_can_destroy_locked (ksem_free_waiter_locked k w) i = ksem_can_destroy_locked k i"
    by (simp add: ksem_can_destroy_locked_def ksem_free_waiter_locked_def)
  moreover have "ksem_free_waiter_locked (set_sem k i e) w = set_sem (ksem_free_waiter_locked k w) i e" for e
    by (simp add: ksem_free_waiter_locked_def set_sem_def set_kwaiter_def)
  moreover have "ksem_pool (ksem_free_waiter_locked k w) = ksem_pool k" by (simp add: ksem_free_waiter_locked_def)
  ultimately show ?thesis
    by (cases "clear_hint s (ksem_pool k i) True") (auto simp: ksem_reap_def ksem_destroy_locked_def Let_def)
qed

text \<open>Taking a waiter away, as a timeout, a signal and the exit of its task do.\<close>

lemma leave_ok:
  assumes inv: "ksem_inv (s, k)" and w: "kw_active (ksem_waiters k w)" "kw_sem (ksem_waiters k w) = Some i"
  obtains k1 s1 s2 k2 where "ksem_waitq_remove_locked k i w = Some k1" "ksem_update_pi_locked s k1 i = Some s1"
    "ksem_reap s1 (ksem_free_waiter_locked k1 w) i = Some (s2, k2)" "ksem_inv (s2, k2)" "sched_kept s s2"
proof -
  obtain qs where q: "task_inv s" "sched_inv s" "kwf {} (task_count s) k qs" by (rule ksem_invE [OF inv])
  have other: "w \<in> set (qs j) \<Longrightarrow> j = i" for j using kwfD(3) [OF q(3)] w(2) by simp
  obtain nx f where r: "ksem_waitq_remove_locked k i w = Some (set_waitq k i nx f)" "fifo_rep nx f (remove1 w (qs i))"
    "kwf {i} (task_count s) (ksem_free_waiter_locked (set_waitq k i nx f) w) (qs(i := remove1 w (qs i)))"
    by (rule kwf_remove_free [OF q(3) other])
  obtain s1 where s1: "ksem_update_pi_locked s (set_waitq k i nx f) i = Some s1" "sched_kept s s1"
    using update_pi_kept [OF q(2), of "set_waitq k i nx f" i] r(2) kwfD(2) [OF q(3), of i] by auto
  obtain s2 k2 where s2: "ksem_reap s1 (ksem_free_waiter_locked (set_waitq k i nx f) w) i = Some (s2, k2)"
    "sched_kept s1 s2" "kwf {} (task_count s) k2 (qs(i := remove1 w (qs i)))"
    using kwf_reap [of i s1] r(3) sched_keptD(1,5) [OF s1(2)] by metis
  have kept: "sched_kept s s2" using s1(2) s2(2) by (rule sched_kept_trans)
  have "ksem_inv (s2, k2)" using s2(3) task_inv_kept [OF q(1) kept] sched_keptD(5) [OF kept] by (auto simp: ksem_inv_def)
  then show ?thesis using that r(1) s1(1) s2(1) kept by blast
qed

lemma cancel_ok:
  assumes inv: "ksem_inv (s, k)" and w: "kw_active (ksem_waiters k w)" "kw_sem (ksem_waiters k w) = Some i"
  shows "\<exists>s' k'. ksem_cancel s k i w = Some (s', k') \<and> ksem_inv (s', k') \<and> sched_kept s s'"
proof (cases "kw_granted (ksem_waiters k w)")
  case True
  then show ?thesis using inv by (auto simp: ksem_cancel_def ksem_inv_def task_inv_def intro: sched_kept_refl)
next
  case False
  show ?thesis by (rule leave_ok [OF assms]) (use False w in \<open>simp add: ksem_cancel_def\<close>)
qed

lemma kwf_free:
  assumes wf: "kwf {} n k qs" and g: "kw_granted (ksem_waiters k w)"
  shows "kwf {i} n (ksem_free_waiter_locked k w) qs"
proof -
  have nin: "w \<notin> set (qs j)" for j using kwfD(3) [OF wf] g by simp
  have rep: "fifo_rep (kw_next k) (k_waitq (ksem_pool k i)) (qs i)" by (rule kwfD(1) [OF wf])
  have "fifo_remove (kw_next k) (k_waitq (ksem_pool k i)) w = Some (False, kw_next k, k_waitq (ksem_pool k i))"
    using rep nin [of i] by (auto simp: fifo_remove_def fifo_rep_def intro: fifo_remove_loop_absent)
  moreover have "set_waitq k i (kw_next k) (k_waitq (ksem_pool k i)) = k"
    by (simp add: set_waitq_def set_sem_def)
  ultimately have rm: "ksem_waitq_remove_locked k i w = Some k" by (simp add: ksem_waitq_remove_locked_def)
  obtain nx f where "ksem_waitq_remove_locked k i w = Some (set_waitq k i nx f)"
    "kwf {i} n (ksem_free_waiter_locked (set_waitq k i nx f) w) (qs(i := remove1 w (qs i)))"
    by (rule kwf_remove_free [OF wf, of w i]) (use nin in auto)
  moreover have "qs(i := remove1 w (qs i)) = qs" using nin [of i] by (simp add: remove1_idem)
  ultimately show ?thesis using rm by simp
qed

lemma reap_inv:
  assumes t: "task_inv s" and wf: "kwf {i} (task_count s) k qs"
  shows "\<exists>s' k'. ksem_reap s k i = Some (s', k') \<and> ksem_inv (s', k') \<and> sched_kept s s' \<and>
    k' = (if ksem_can_destroy_locked k i then set_sem k i zero_sem else k)"
proof -
  have "sched_inv s" using t by (simp add: task_inv_def)
  then obtain s' k' where "ksem_reap s k i = Some (s', k')" "sched_kept s s'" "kwf {} (task_count s) k' qs"
    "k' = (if ksem_can_destroy_locked k i then set_sem k i zero_sem else k)"
    using kwf_reap [OF wf] by blast
  then show ?thesis using task_inv_kept [OF t] sched_keptD(5) by (fastforce simp: ksem_inv_def)
qed

lemma yield_inv:
  assumes inv: "ksem_inv (s, k)" shows "\<exists>s'. sched_yield s = Some s' \<and> ksem_inv (s', k)"
proof -
  obtain qs where q: "task_inv s" "sched_inv s" "kwf {} (task_count s) k qs" by (rule ksem_invE [OF inv])
  obtain s' where s': "sched_yield s = Some s'" "sched_inv s'" by (rule sched_yield_inv [OF q(2)])
  have "proc_same s s'" using s'(1) by (rule sched_yield_same)
  then show ?thesis using s' q by (auto simp: ksem_inv_def task_inv_def proc_same_def intro: proc_inv_same)
qed

lemma wait_poll_ok:
  assumes inv: "ksem_inv (s, k)" and w: "kw_active (ksem_waiters k w)" "kw_sem (ksem_waiters k w) = Some i"
  shows "\<exists>r s' k'. ksem_wait_poll s k i w pend to now dl = Some (r, s', k') \<and> ksem_inv (s', k')"
proof -
  obtain qs where q: "task_inv s" "kwf {} (task_count s) k qs" by (rule ksem_invE [OF inv])
  obtain s1 k1 where c: "ksem_cancel s k i w = Some (s1, k1)" "ksem_inv (s1, k1)" using cancel_ok [OF assms] by blast
  obtain s2 where y: "sched_yield s = Some s2" "ksem_inv (s2, k)" using yield_inv [OF inv] by blast
  show ?thesis
  proof (cases "kw_granted (ksem_waiters k w)")
    case True
    obtain s' k' where "ksem_reap s (ksem_free_waiter_locked k w) i = Some (s', k')" "ksem_inv (s', k')"
      using reap_inv [OF q(1) kwf_free [OF q(2) True]] by blast
    with True show ?thesis by (simp add: ksem_wait_poll_def)
  qed (use c y in \<open>simp add: ksem_wait_poll_def\<close>)
qed

lemma drop_ref_ok:
  assumes inv: "ksem_inv (s, k)"
  shows "\<exists>s' k'. ksem_drop_ref_locked s k r = Some (s', k') \<and> ksem_inv (s', k') \<and> sched_kept s s'"
proof (cases "r_active (ksem_refs k r)")
  case False
  then show ?thesis using inv by (auto simp: ksem_drop_ref_locked_def ksem_inv_def task_inv_def intro: sched_kept_refl)
next
  case True
  obtain qs where q: "task_inv s" "kwf {} (task_count s) k qs" by (rule ksem_invE [OF inv])
  obtain i where i: "r_sem (ksem_refs k r) = Some i" using kwfD(9) [OF q(2) True] by blast
  note d = kwf_drop [OF q(2) True i]
  obtain s' k' where "ksem_reap s (with_refcount (set_ref k r zero_ref) i (k_refcount (ksem_pool k i) - 1)) i = Some (s', k')"
    "ksem_inv (s', k')" "sched_kept s s'"
    using reap_inv [OF q(1) d(2)] by blast
  then show ?thesis using True i d(1) by (simp add: ksem_drop_ref_locked_def Let_def with_refcount_def)
qed

lemma close_ok:
  assumes inv: "ksem_inv (s, k)"
  shows "\<exists>r s' k'. ksem_close_current s k h = Some (r, s', k') \<and> ksem_inv (s', k') \<and> sched_kept s s'"
proof -
  obtain qs c where q: "sched_inv s" "current_task s = Some c" by (rule ksem_invE [OF inv])
  show ?thesis
  proof (cases "ksem_find_ref_locked k (ksem_owner_id_for s (current_task s)) h")
    case None then show ?thesis using inv q sched_kept_refl by (simp add: ksem_close_current_def)
  next
    case (Some r)
    obtain s' k' where "ksem_drop_ref_locked s k r = Some (s', k')" "ksem_inv (s', k')" "sched_kept s s'"
      using drop_ref_ok [OF inv] by blast
    with Some q show ?thesis by (simp add: ksem_close_current_def)
  qed
qed

lemma unlink_ok:
  assumes inv: "ksem_inv (s, k)"
  shows "\<exists>r s' k'. ksem_unlink_current s k name = Some (r, s', k') \<and> ksem_inv (s', k') \<and> sched_kept s s'"
proof -
  obtain qs c where q: "task_inv s" "sched_inv s" "kwf {} (task_count s) k qs" "current_task s = Some c" by (rule ksem_invE [OF inv])
  show ?thesis
  proof (cases "\<exists>nm i. name = Some nm \<and> ksem_find_named_locked k nm = Some i")
    case False
    then show ?thesis using inv q sched_kept_refl by (cases name) (auto simp: ksem_unlink_current_def)
  next
    case True
    then obtain nm i where n: "name = Some nm" "ksem_find_named_locked k nm = Some i" by blast
    let ?e = "(ksem_pool k i)\<lparr>k_unlinked := True, k_named := False, k_name := []\<rparr>"
    have l: "linked (ksem_pool k i)" using find_named_iff(1) [OF q(3)] n(2) by simp
    have "kwf {i} (task_count s) (set_sem k i ?e) qs"
      by (rule kwf_set_sem [OF q(3)]) (use l kwfD(2,6) [OF q(3), of i] in \<open>auto simp: linked_def\<close>)
    then obtain s' k' where "ksem_reap s (set_sem k i ?e) i = Some (s', k')" "ksem_inv (s', k')" "sched_kept s s'"
      using reap_inv [OF q(1)] by blast
    with n q show ?thesis by (simp add: ksem_unlink_current_def Let_def)
  qed
qed

text \<open>Posting: the token goes to the first waiter, or to the value when nobody waits.\<close>

lemma finish_post:
  assumes wf: "kwf {i} (task_count s) k qs" and a: "k_active (ksem_pool k i)" "k_refcount (ksem_pool k i) \<noteq> 0"
  shows "ksem_reap s (ksem_mark_oneshot_locked k i) i = Some (s, ksem_mark_oneshot_locked k i)"
    and "kwf {} (task_count s) (ksem_mark_oneshot_locked k i) qs"
proof -
  have rc: "k_refcount (ksem_pool (ksem_mark_oneshot_locked k i) i) \<noteq> 0" using a(2) by simp
  then show "ksem_reap s (ksem_mark_oneshot_locked k i) i = Some (s, ksem_mark_oneshot_locked k i)" by (rule reap_referenced)
  have "kwf {i} (task_count s) (ksem_mark_oneshot_locked k i) qs" using kwf_oneshot [OF wf a(1)] by simp
  then show "kwf {} (task_count s) (ksem_mark_oneshot_locked k i) qs"
    by (rule kwf_settled) (use rc in \<open>simp add: ksem_can_destroy_locked_def Let_def\<close>)
qed

lemma post_empty:
  assumes wf: "kwf {} (task_count s) k qs" and inv: "sched_inv s" and c: "current_task s = Some c"
    and l: "ksem_lookup s k h = Some i" and q: "qs i = []"
  shows "\<exists>s' k'. ksem_post_current s k h = Some (Inr (), s', k') \<and> sem_post s k i qs s' k' \<and>
    k_value (ksem_pool k' i) = k_value (ksem_pool k i) + 1 \<and> ksem_waiters k' = ksem_waiters k \<and> ksem_refs k' = ksem_refs k"
proof -
  note i = lookup_sem [OF wf l]
  define k1 where "k1 = set_sem k i ((ksem_pool k i)\<lparr>k_owner_hint := None, k_value := k_value (ksem_pool k i) + 1\<rparr>)"
  obtain s1 where s1: "clear_hint s (ksem_pool k i) True = Some s1" "sched_kept s s1"
    using clear_hint_kept [OF inv kwfD(2) [OF wf]] by blast
  have "kwf {i} (task_count s) k1 qs"
    unfolding k1_def by (rule kwf_set_sem [OF wf]) (use i q in \<open>auto simp: linked_def\<close>)
  then have wf1: "kwf {i} (task_count s1) k1 qs" using sched_keptD(5) [OF s1(2)] by simp
  have a: "k_active (ksem_pool k1 i)" "k_refcount (ksem_pool k1 i) \<noteq> 0" using i by (simp_all add: k1_def)
  note f = finish_post [OF wf1 a]
  have "ksem_post_current s k h = Some (Inr (), s1, ksem_mark_oneshot_locked k1 i)"
    unfolding ksem_post_current_def using c l
    by (simp add: pop_empty [OF wf q] ksem_release_def Let_def s1(1) k1_def [symmetric] f(1))
  moreover have "sem_post s k i qs s1 (ksem_mark_oneshot_locked k1 i)"
    using s1(2) f(2) by (simp add: sem_post_def k1_def)
  ultimately show ?thesis by (simp add: k1_def)
qed

lemma post_grant:
  assumes wf: "kwf {} (task_count s) k qs" and inv: "sched_inv s" and c: "current_task s = Some c"
    and l: "ksem_lookup s k h = Some i" and q: "qs i = w # ws"
  shows "\<exists>s' k'. ksem_post_current s k h = Some (Inr (), s', k') \<and> sem_post s k i (qs(i := ws)) s' k' \<and>
    k_value (ksem_pool k' i) = k_value (ksem_pool k i) \<and>
    ksem_waiters k' = (ksem_waiters k)(w := (ksem_waiters k w)\<lparr>kw_granted := True\<rparr>) \<and> ksem_refs k' = ksem_refs k \<and>
    (is_rt (ksem_pool k i) \<longrightarrow> k_owner_hint (ksem_pool k' i) = kw_task (ksem_waiters k w))"
proof -
  note i = lookup_sem [OF wf l]
  let ?v = "(ksem_waiters k w)\<lparr>kw_granted := True\<rparr>"
  obtain nx f where p: "ksem_waitq_pop_locked k i = (Some w, set_waitq k i nx f)" "fifo_rep nx f ws"
    "kwf {i} (task_count s) (set_kwaiter (set_waitq k i nx f) w ?v) (qs(i := ws))"
    by (rule kwf_pop [OF wf q refl])
  define e where "e = (ksem_pool k i)\<lparr>k_waitq := f\<rparr>"
  define k1 where "k1 = set_kwaiter (set_waitq k i nx f) w ?v"
  define k2 where "k2 = (if is_rt e then set_sem k1 i (e\<lparr>k_owner_hint := kw_task (ksem_waiters k w)\<rparr>) else k1)"
  have e: "ksem_pool k1 i = e" "k_active e" "k_refcount e \<noteq> 0" using i by (auto simp: k1_def e_def)
  have w: "w \<in> set (qs i)" using q by simp
  then have "\<exists>t < task_count s. kw_task (ksem_waiters k w) = Some t" using kwfD(3) [OF wf] kwf_waiter(2) [OF wf] by blast
  then have t: "kw_task (ksem_waiters k w) = Some t \<Longrightarrow> t < task_count s" for t by auto
  have wf1: "kwf {i} (task_count s) k1 (qs(i := ws))" using p(3) by (simp add: k1_def)
  have "kwf (insert i {i}) (task_count s) (set_sem k1 i (e\<lparr>k_owner_hint := kw_task (ksem_waiters k w)\<rparr>)) (qs(i := ws))"
    by (rule kwf_set_sem [OF wf1]) (use e t kwfD(6) [OF wf1, of i] in \<open>auto simp: linked_def\<close>)
  then have wf2: "kwf {i} (task_count s) k2 (qs(i := ws))" using wf1 by (simp add: k2_def)
  obtain s1 where s1: "clear_hint s e (k_owner_hint e \<noteq> kw_task (ksem_waiters k w)) = Some s1" "sched_kept s s1"
    using clear_hint_kept [OF inv, of e] kwfD(2) [OF wf, of i] by (auto simp: e_def)
  obtain s2 where s2: "ksem_update_pi_locked s1 k2 i = Some s2" "sched_kept s1 s2"
    using update_pi_kept [OF sched_keptD(1) [OF s1(2)] kwfD(1) [OF wf2, of i]] kwfD(2) [OF wf2, of i] sched_keptD(5) [OF s1(2)] by auto
  have kept: "sched_kept s s2" using s1(2) s2(2) by (rule sched_kept_trans)
  have a: "k_active (ksem_pool k2 i)" "k_refcount (ksem_pool k2 i) \<noteq> 0" using e by (simp_all add: k2_def)
  note fin = finish_post [OF wf2 [folded sched_keptD(5) [OF kept]] a]
  have pool: "ksem_pool (set_waitq k i nx f) i = e" "ksem_waiters (set_waitq k i nx f) w = ksem_waiters k w"
    by (simp_all add: e_def)
  have "ksem_grant s (set_waitq k i nx f) i w = Some (s2, k2)"
    unfolding ksem_grant_def Let_def pool k1_def [symmetric] k2_def [symmetric] by (simp add: s1(1) s2(1))
  then have "ksem_post_current s k h = Some (Inr (), s2, ksem_mark_oneshot_locked k2 i)"
    unfolding ksem_post_current_def using c l by (simp add: p(1) fin(1))
  moreover have "sem_post s k i (qs(i := ws)) s2 (ksem_mark_oneshot_locked k2 i)"
    using kept fin(2) by (simp add: sem_post_def k2_def k1_def)
  ultimately show ?thesis by (simp add: k2_def k1_def e_def is_rt_def)
qed

lemma post_ok:
  assumes inv: "ksem_inv (s, k)"
  shows "\<exists>r s' k'. ksem_post_current s k h = Some (r, s', k') \<and> ksem_inv (s', k') \<and> sched_kept s s'"
proof -
  obtain qs c where q: "sched_inv s" "kwf {} (task_count s) k qs" "current_task s = Some c" by (rule ksem_invE [OF inv])
  show ?thesis
  proof (cases "ksem_lookup s k h")
    case None then show ?thesis using inv q sched_kept_refl by (simp add: ksem_post_current_def)
  next
    case (Some i)
    have "\<exists>s' k' qs'. ksem_post_current s k h = Some (Inr (), s', k') \<and> sem_post s k i qs' s' k'"
      using post_empty [OF q(2,1,3) Some] post_grant [OF q(2,1,3) Some] by (cases "qs i") blast+
    then show ?thesis using ksem_invI [OF inv] by (fastforce simp: sem_post_def)
  qed
qed

text \<open>Creating and opening: what a caller gets back, on every path.\<close>

lemma create_cases:
  assumes inv: "ksem_inv (s, k)" and wf: "kwf {} (task_count s) k qs"
  obtains (fail) e where "ksem_create_current s k name v fl out = (Inl e, k)"
  | (late) e where "ksem_create_current s k name v fl out = (Inl e, k\<lparr>ksem_next_id := bump (ksem_next_id k)\<rparr>)"
  | (new) nm i k1 e r k' where "name = Some nm" "ksem_alloc_entry_locked k = Some (i, k1)"
      "ksem_alloc_ref_locked s (set_sem k1 i e) i = Some (r, k')" "linked e" "k_name e = nm" "k_value e = v"
      "kwf {i} (task_count s) (set_sem k1 i e) qs" "kwf {} (task_count s) k' qs" "k_active e"
      "ksem_create_current s k name v fl out = (Inr (r_handle (ksem_refs k' r)), k')"
      "\<forall>j. linked (ksem_pool k j) \<longrightarrow> k_name (ksem_pool k j) \<noteq> nm"
proof -
  obtain c where c: "current_task s = Some c" by (rule ksem_invE [OF inv])
  show thesis
  proof (cases "\<exists>nm i k1 nm'. name = Some nm \<and> out \<and> ksem_find_named_locked k nm = None \<and>
      ksem_alloc_entry_locked k = Some (i, k1) \<and> ksem_name_copy nm = Inr nm'")
    case False
    consider "name = None \<or> \<not> out"
      | nm j where "name = Some nm" "out" "ksem_find_named_locked k nm = Some j"
      | nm where "name = Some nm" "out" "ksem_find_named_locked k nm = None" "ksem_alloc_entry_locked k = None"
      | nm i k1 e where "name = Some nm" "out" "ksem_find_named_locked k nm = None"
          "ksem_alloc_entry_locked k = Some (i, k1)" "ksem_name_copy nm = Inl e"
      using False by (metis not_None_eq prod.exhaust sumE)
    then show ?thesis
    proof cases
      case 1 then show ?thesis using c by (intro fail [of EINVAL]) (auto simp: ksem_create_current_def split: option.splits)
    next
      case 2 then show ?thesis using c by (intro fail [of EEXIST]) (simp add: ksem_create_current_def)
    next
      case 3 then show ?thesis using c by (intro fail [of ENOSPC]) (simp add: ksem_create_current_def)
    next
      case (4 nm i k1 e)
      then show ?thesis using c alloc_entry_undo(2) [OF wf 4(4)] by (intro late [of e]) (simp add: ksem_create_current_def)
    qed
  next
    case True
    then obtain nm i k1 nm' where t: "name = Some nm" out "ksem_find_named_locked k nm = None"
      "ksem_alloc_entry_locked k = Some (i, k1)" "ksem_name_copy nm = Inr nm'" by blast
    have nm: "nm' = nm" "nm \<noteq> []" "length nm < KSEM_NAME_MAX" using t(5) by (auto simp: ksem_name_copy_def split: if_splits)
    define fl' where "fl' = (if fl AND KSEM_PRIVATE \<noteq> 0 then fl AND NOT KSEM_PRIVATE else fl) OR KSEM_SHARED"
    define e where "e = (ksem_pool k1 i)\<lparr>k_name := nm, k_named := True, k_flags := fl', k_value := v\<rparr>"
    have p: "ksem_pool k1 i = zero_sem\<lparr>k_active := True, k_id := ksem_next_id k\<rparr>"
      using t(4) by (auto simp: ksem_alloc_entry_locked_def split: option.splits)
    have fresh: "\<forall>j. linked (ksem_pool k j) \<longrightarrow> k_name (ksem_pool k j) \<noteq> nm" using find_named_iff(2) [OF wf] t(3) by simp
    have e: "k_active e" "k_refcount e = 0" "k_waitq e = fifo_empty" "k_owner_hint e = None" "linked e" "k_name e = nm" "k_value e = v"
      by (simp_all add: e_def p linked_def)
    have wf1: "kwf {i} (task_count s) (set_sem k1 i e) qs"
      by (rule kwf_new [OF wf t(4)]) (use e nm fresh in auto)
    have call: "ksem_create_current s k name v fl out =
      (case ksem_alloc_ref_locked s (set_sem k1 i e) i of
         None \<Rightarrow> (Inl ENFILE, set_sem (set_sem k1 i e) i zero_sem)
       | Some (r, k) \<Rightarrow> (Inr (r_handle (ksem_refs k r)), k))"
      unfolding e_def fl'_def using t c nm(1) by (simp add: ksem_create_current_def Let_def)
    show ?thesis
    proof (cases "ksem_alloc_ref_locked s (set_sem k1 i e) i")
      case None then show ?thesis using late call alloc_entry_undo(1) [OF wf t(4)] by simp
    next
      case (Some a)
      then obtain r k' where a: "ksem_alloc_ref_locked s (set_sem k1 i e) i = Some (r, k')" by (cases a) auto
      have "kwf {} (task_count s) k' qs" by (rule kwf_alloc_ref(1) [OF wf1 _ a]) (use e in simp_all)
      then show ?thesis using new [OF t(1,4) a e(5,6,7) wf1 _ e(1)] call a fresh by simp
    qed
  qed
qed

lemma create_ok:
  assumes inv: "ksem_inv (s, k)"
  shows "ksem_inv (s, snd (ksem_create_current s k name v fl out))"
proof -
  obtain qs where q: "task_inv s" "kwf {} (task_count s) k qs" by (rule ksem_invE [OF inv])
  show ?thesis
    by (rule create_cases [OF inv q(2), of name v fl out]) (use q in \<open>auto simp: ksem_inv_def\<close>)
qed

lemma open_ok:
  assumes inv: "ksem_inv (s, k)"
  shows "ksem_inv (s, snd (ksem_open_current s k name out))"
proof -
  obtain qs where q: "task_inv s" "kwf {} (task_count s) k qs" by (rule ksem_invE [OF inv])
  have "\<exists>qs. kwf {} (task_count s) k' qs" if "ksem_find_named_locked k nm = Some i" "ksem_alloc_ref_locked s k i = Some (r, k')" for nm i r k'
    using kwf_alloc_ref(1) [OF q(2) _ that(2)] find_named_iff(1) [OF q(2)] that(1) by (auto simp: linked_def)
  then show ?thesis using inv q(1) by (auto simp: ksem_open_current_def ksem_inv_def split: option.splits)
qed

lemma anon_ok:
  assumes inv: "ksem_inv (s, k)"
  shows "ksem_inv (s, snd (ksem_anon_current s k v fl out))"
proof -
  obtain qs c where q: "task_inv s" "kwf {} (task_count s) k qs" "current_task s = Some c" by (rule ksem_invE [OF inv])
  show ?thesis
  proof (cases "out \<and> ksem_alloc_entry_locked k \<noteq> None")
    case False
    then have "\<not> out \<or> ksem_alloc_entry_locked k = None" by blast
    then show ?thesis using inv q(3) by (elim disjE) (simp_all add: ksem_anon_current_def)
  next
    case True
    then obtain i k1 where al: "ksem_alloc_entry_locked k = Some (i, k1)" by auto
    define e where "e = (ksem_pool k1 i)\<lparr>k_named := False, k_unlinked := True,
      k_flags := (fl OR KSEM_PRIVATE) AND NOT KSEM_SHARED, k_value := v\<rparr>"
    have p: "ksem_pool k1 i = zero_sem\<lparr>k_active := True, k_id := ksem_next_id k\<rparr>"
      using al by (auto simp: ksem_alloc_entry_locked_def split: option.splits)
    have wf1: "kwf {i} (task_count s) (set_sem k1 i e) qs"
      by (rule kwf_new [OF q(2) al]) (simp_all add: e_def p linked_def)
    have call: "ksem_anon_current s k v fl out =
      (case ksem_alloc_ref_locked s (set_sem k1 i e) i of
         None \<Rightarrow> (Inl ENFILE, set_sem (set_sem k1 i e) i zero_sem)
       | Some (r, k) \<Rightarrow> (Inr (r_handle (ksem_refs k r)), k))"
      unfolding e_def using True q(3) al by (simp add: ksem_anon_current_def Let_def)
    show ?thesis
    proof (cases "ksem_alloc_ref_locked s (set_sem k1 i e) i")
      case None then show ?thesis using call alloc_entry_undo(1) [OF q(2) al] q by (auto simp: ksem_inv_def)
    next
      case (Some a)
      then obtain r k' where a: "ksem_alloc_ref_locked s (set_sem k1 i e) i = Some (r, k')" by (cases a) auto
      have "kwf {} (task_count s) k' qs" by (rule kwf_alloc_ref(1) [OF wf1 _ a]) (simp_all add: e_def p)
      then show ?thesis using call a q(1) by (auto simp: ksem_inv_def)
    qed
  qed
qed

text \<open>The clean-up of an exiting task: three loops, each body keeps the invariant.\<close>

lemma cleanup_waiter_ok:
  assumes inv: "ksem_inv (s, k)"
  shows "\<exists>s' k'. ksem_cleanup_waiter t w (s, k) = Some (s', k') \<and> ksem_inv (s', k') \<and> sched_kept s s'"
proof (cases "\<exists>i. kw_sem (ksem_waiters k w) = Some i \<and> kw_active (ksem_waiters k w) \<and> kw_task (ksem_waiters k w) = Some t")
  case False
  then have "ksem_cleanup_waiter t w (s, k) = Some (s, k)" by (auto simp: ksem_cleanup_waiter_def Let_def split: option.splits)
  then show ?thesis using inv by (auto simp: ksem_inv_def task_inv_def intro: sched_kept_refl)
next
  case True
  then obtain i where w: "kw_sem (ksem_waiters k w) = Some i" "kw_active (ksem_waiters k w)" "kw_task (ksem_waiters k w) = Some t" by blast
  obtain k1 s1 s2 k2 where l: "ksem_waitq_remove_locked k i w = Some k1" "ksem_update_pi_locked s k1 i = Some s1"
    "ksem_reap s1 (ksem_free_waiter_locked k1 w) i = Some (s2, k2)" "ksem_inv (s2, k2)" "sched_kept s s2"
    by (rule leave_ok [OF inv w(2,1)])
  have "ksem_cleanup_waiter t w (s, k) = ksem_reap s1 (ksem_free_waiter_locked k1 w) i"
    using w l(1,2) by (simp add: ksem_cleanup_waiter_def Let_def reap_free_commute)
  then show ?thesis using l(3-5) by simp
qed

lemma cleanup_owner_ok:
  assumes inv: "ksem_inv (s, k)"
  shows "\<exists>s' k'. ksem_cleanup_owner t i (s, k) = Some (s', k') \<and> ksem_inv (s', k') \<and> sched_kept s s'"
proof (cases "k_active (ksem_pool k i) \<and> k_owner_hint (ksem_pool k i) = Some t")
  case False
  then show ?thesis using inv by (auto simp: ksem_cleanup_owner_def ksem_inv_def task_inv_def intro: sched_kept_refl)
next
  case True
  obtain qs where q: "task_inv s" "sched_inv s" "kwf {} (task_count s) k qs" by (rule ksem_invE [OF inv])
  define k1 where "k1 = set_sem k i ((ksem_pool k i)\<lparr>k_owner_hint := None\<rparr>)"
  have "kwf {i} (task_count s) k1 qs"
    unfolding k1_def by (rule kwf_set_sem [OF q(3)]) (use True kwfD(6) [OF q(3), of i] in \<open>auto simp: linked_def\<close>)
  moreover have "\<not> ksem_can_destroy_locked k1 i"
    using kwfD(7) [OF q(3), of i] by (simp add: ksem_can_destroy_locked_def Let_def k1_def)
  ultimately have wf1: "kwf {} (task_count s) k1 qs" by (auto intro: kwf_settled)
  have "t < task_count s" using kwfD(2) [OF q(3), of i] True by simp
  then obtain s1 where s1: "(if is_rt (ksem_pool k i) then sched_task_clear_donation s (Some t) else Some s) = Some s1" "sched_kept s s1"
    using clear_kept [OF q(2)] sched_kept_refl [OF q(2)] by (metis (full_types))
  obtain s2 where s2: "ksem_update_pi_locked s1 k1 i = Some s2" "sched_kept s1 s2"
    using update_pi_kept [OF sched_keptD(1) [OF s1(2)] kwfD(1) [OF wf1, of i]] kwfD(2) [OF wf1, of i] sched_keptD(5) [OF s1(2)] by auto
  have kept: "sched_kept s s2" using s1(2) s2(2) by (rule sched_kept_trans)
  have "ksem_cleanup_owner t i (s, k) = Some (s2, k1)"
    unfolding ksem_cleanup_owner_def Let_def using True s1(1) s2(1) by (simp add: k1_def)
  then show ?thesis using kept wf1 task_inv_kept [OF q(1) kept] sched_keptD(5) [OF kept] by (auto simp: ksem_inv_def)
qed

lemma task_cleanup_ok:
  assumes inv: "ksem_inv (s, k)"
  shows "\<exists>s' k'. ksem_task_cleanup s k t = Some (s', k') \<and> ksem_inv (s', k') \<and> sched_kept s s'"
proof (cases t)
  case None then show ?thesis using inv by (auto simp: ksem_task_cleanup_def ksem_inv_def task_inv_def intro: sched_kept_refl)
next
  case (Some u)
  let ?P = "\<lambda>sk. ksem_inv sk \<and> sched_kept s (fst sk)"
  have body: "\<exists>sk'. f x sk = Some sk' \<and> ?P sk'"
    if "\<And>s k. ksem_inv (s, k) \<Longrightarrow> \<exists>s' k'. f x (s, k) = Some (s', k') \<and> ksem_inv (s', k') \<and> sched_kept s s'" "?P sk" for f :: "nat \<Rightarrow> _" and x sk
    using that(1) [of "fst sk" "snd sk"] that(2) by (auto intro: sched_kept_trans)
  have ref: "\<exists>s' k'. ksem_cleanup_ref u x (s, k) = Some (s', k') \<and> ksem_inv (s', k') \<and> sched_kept s s'" if "ksem_inv (s, k)" for x s k
    using drop_ref_ok [OF that, of x] that by (auto simp: ksem_cleanup_ref_def ksem_inv_def task_inv_def intro: sched_kept_refl)
  have 0: "?P (s, k)" using inv by (auto simp: ksem_inv_def task_inv_def intro: sched_kept_refl)
  obtain sk1 where 1: "ofold (ksem_cleanup_waiter u) [0..<KSEM_MAX_WAITERS] (s, k) = Some sk1" "?P sk1"
    using ofold_inv [of _ ?P "ksem_cleanup_waiter u", OF body [of "ksem_cleanup_waiter u", OF cleanup_waiter_ok] 0] by blast
  obtain sk2 where 2: "ofold (ksem_cleanup_owner u) [0..<KSEM_MAX] sk1 = Some sk2" "?P sk2"
    using ofold_inv [of _ ?P "ksem_cleanup_owner u", OF body [of "ksem_cleanup_owner u", OF cleanup_owner_ok] 1(2)] by blast
  obtain sk3 where 3: "ofold (ksem_cleanup_ref u) [0..<KSEM_MAX_HANDLE_REFS] sk2 = Some sk3" "?P sk3"
    using ofold_inv [of _ ?P "ksem_cleanup_ref u", OF body [of "ksem_cleanup_ref u", OF ref] 2(2)] by blast
  show ?thesis using Some 1 2 3 by (cases sk3) (simp add: ksem_task_cleanup_def)
qed

end
