(* ===== verification/Ksem_Props.thy ===== *)
theory Ksem_Props
  imports Ksem
begin

text \<open>
  What the semaphores of \<^verbatim>\<open>kernel/ksem.c\<close> promise: the tables stay well formed whatever the
  tasks do, a post hands the token to the longest waiter, names and handles lead to one semaphore,
  errors have no effect, and real-time semaphores lend the waiter's priority to the owner.
\<close>

subsection \<open>All runs\<close>

text \<open>
  The moves of the system: the calls of the running task, a turn of the loop of a waiting task,
  the clean-up of a task that exits, and whatever the scheduler and the process layer do.
\<close>

inductive ksem_step :: "sched \<times> ksem \<Rightarrow> sched \<times> ksem \<Rightarrow> bool" where
  ks_create: "ksem_create_current s k name v fl out = (r, k') \<Longrightarrow> ksem_step (s, k) (s, k')"
| ks_anon: "ksem_anon_current s k v fl out = (r, k') \<Longrightarrow> ksem_step (s, k) (s, k')"
| ks_open: "ksem_open_current s k name out = (r, k') \<Longrightarrow> ksem_step (s, k) (s, k')"
| ks_close: "ksem_close_current s k h = Some (u, s', k') \<Longrightarrow> ksem_step (s, k) (s', k')"
| ks_unlink: "ksem_unlink_current s k name = Some (u, s', k') \<Longrightarrow> ksem_step (s, k) (s', k')"
| ks_post: "ksem_post_current s k h = Some (u, s', k') \<Longrightarrow> ksem_step (s, k) (s', k')"
| ks_wait: "ksem_wait_common_current s k h try_only = Some (w, s', k') \<Longrightarrow> ksem_step (s, k) (s', k')"
| ks_poll: "current_task s = kw_task (ksem_waiters k n) \<Longrightarrow> kw_active (ksem_waiters k n) \<Longrightarrow>
    kw_sem (ksem_waiters k n) = Some i \<Longrightarrow> ksem_wait_poll s k i n pend to now dl = Some (w, s', k') \<Longrightarrow>
    ksem_step (s, k) (s', k')"
| ks_exit: "ksem_task_cleanup s k t = Some (s', k') \<Longrightarrow> ksem_step (s, k) (s', k')"
| ks_task: "task_step s s' \<Longrightarrow> ksem_step (s, k) (s', k)"

lemma kwf_mono:
  assumes wf: "kwf X n k qs" and m: "n \<le> m" shows "kwf X m k qs"
proof -
  have "\<exists>t < m. kw_task (ksem_waiters k w) = Some t" if "kw_active (ksem_waiters k w)" for w
    using kwf_waiter(2) [OF wf that] m less_le_trans by blast
  then have "kqueues m k qs" using wf by (simp add: kwf_def kqueues_def)
  moreover have "t < m" if "k_owner_hint (ksem_pool k i) = Some t" for i t
    using kwfD(2) [OF wf, of i] that m by auto
  then have "kentries m k qs" using wf by (simp add: kwf_def kentries_def)
  ultimately show ?thesis using wf by (simp add: kwf_def)
qed

lemma ksem_step_inv:
  assumes "ksem_inv a" "ksem_step a b" shows "ksem_inv b"
  using assms(2,1)
proof cases
  case (ks_create s k name v fl out r k') then show ?thesis using create_ok [of s k name v fl out] assms(1) by simp
next
  case (ks_anon s k v fl out r k') then show ?thesis using anon_ok [of s k v fl out] assms(1) by simp
next
  case (ks_open s k name out r k') then show ?thesis using open_ok [of s k name out] assms(1) by simp
next
  case (ks_close s k h) then show ?thesis using close_ok [of s k h] assms(1) by auto
next
  case (ks_unlink s k name) then show ?thesis using unlink_ok [of s k name] assms(1) by auto
next
  case (ks_post s k h) then show ?thesis using post_ok [of s k h] assms(1) by auto
next
  case (ks_wait s k h b) then show ?thesis using wait_common_ok [of s k h b] assms(1) by auto
next
  case (ks_poll s k n i pend to now dl) then show ?thesis using wait_poll_ok [of s k n i pend to now dl] assms(1) by auto
next
  case (ks_exit s k t) then show ?thesis using task_cleanup_ok [of s k t] assms(1) by auto
next
  case (ks_task s s' k)
  then show ?thesis using assms(1) task_step_inv task_step_count kwf_mono by (fastforce simp: ksem_inv_def)
qed

interpretation ksemsys: invariant_system ksem_step ksem_inv
  by unfold_locales (rule ksem_step_inv)

lemma ksem_init_fields [simp]:
  "ksem_pool ksem_init i = zero_sem" "ksem_waiters ksem_init = (\<lambda>_. zero_waiter)" "ksem_refs ksem_init r = zero_ref"
  "ksem_next_id ksem_init = 1" "ksem_next_handle ksem_init = 1"
  by (simp_all add: ksem_init_def)

lemma ksem_init_wf: "kwf {} n ksem_init (\<lambda>_. [])"
  by (auto simp: kwf_defs ksem_init_def qarr_empty refs_to_def ksem_can_destroy_locked_def)

lemma ksem_init_inv: "task_inv s \<Longrightarrow> ksem_inv (s, ksem_init)"
  using ksem_init_wf by (auto simp: ksem_inv_def)

text \<open>A semaphore just created by the running task of \<open>s\<close>, used as an example.\<close>

definition ksem_demo :: "sched \<Rightarrow> u32 \<Rightarrow> u32 \<Rightarrow> ksem" where
  "ksem_demo s v fl = snd (ksem_create_current s ksem_init (Some ''a'') v fl True)"

lemma ksem_demo_create:
  assumes "current_task s = Some c"
  shows "ksem_create_current s ksem_init (Some ''a'') v fl True = (Inr 1, ksem_demo s v fl)"
    and "ksem_lookup s (ksem_demo s v fl) 1 = Some 0" and "k_value (ksem_pool (ksem_demo s v fl) 0) = v"
    and "k_flags (ksem_pool (ksem_demo s v fl) 0) = (if fl AND KSEM_PRIVATE \<noteq> 0 then fl AND NOT KSEM_PRIVATE else fl) OR KSEM_SHARED"
    and "k_waitq (ksem_pool (ksem_demo s v fl) 0) = fifo_empty" "ksem_waiters (ksem_demo s v fl) = (\<lambda>_. zero_waiter)"
proof -
  have f: "ksem_find_named_locked ksem_init ''a'' = None"
    by (simp add: ksem_find_named_locked_def for_find_None)
  have a: "ksem_alloc_entry_locked ksem_init = Some (0, (set_sem ksem_init 0 (zero_sem\<lparr>k_active := True, k_id := 1\<rparr>))\<lparr>ksem_next_id := 2\<rparr>)"
    by (simp add: ksem_alloc_entry_locked_def for_find.simps [of _ 0] KSEM_MAX_def bump_def)
  have z: "for_find P 0 KSEM_MAX_HANDLE_REFS = Some 0" if "P 0" for P
    using that by (simp add: for_find.simps [of _ 0] KSEM_MAX_HANDLE_REFS_def SCHED_MAX_TASKS_def)
  note run = ksem_create_current_def f a ksem_name_copy_def KSEM_NAME_MAX_def ksem_alloc_ref_locked_def z assms Let_def bump_def
  show c: "ksem_create_current s ksem_init (Some ''a'') v fl True = (Inr 1, ksem_demo s v fl)"
    by (simp add: ksem_demo_def run)
  have k: "ksem_demo s v fl = snd (ksem_create_current s ksem_init (Some ''a'') v fl True)" by (simp add: ksem_demo_def)
  show "ksem_lookup s (ksem_demo s v fl) 1 = Some 0"
    unfolding k by (simp add: run ksem_lookup_def ksem_find_ref_locked_def)
  show "k_value (ksem_pool (ksem_demo s v fl) 0) = v" "k_waitq (ksem_pool (ksem_demo s v fl) 0) = fifo_empty"
    "ksem_waiters (ksem_demo s v fl) = (\<lambda>_. zero_waiter)"
    "k_flags (ksem_pool (ksem_demo s v fl) 0) = (if fl AND KSEM_PRIVATE \<noteq> 0 then fl AND NOT KSEM_PRIVATE else fl) OR KSEM_SHARED"
    unfolding k by (simp_all add: run)
qed

lemma ksem_demo_inv: "task_inv s \<Longrightarrow> ksem_inv (s, ksem_demo s v fl)"
  unfolding ksem_demo_def by (rule create_ok [OF ksem_init_inv])

lemma boot_demo:
  obtains s where "sched_init = Some s" "task_inv s" "current_task s = Some 0" "task_count s = 2"
  by (rule sched_init_inv) (auto simp: task_inv_def)

subsection \<open>Properties\<close>

text \<open>
  C16. Whatever calls, exits, yields and process operations happen, the semaphore tables stay well
  formed and every call returns: a semaphore's reference count is exactly the number of open
  handles on it, handles lead only to live semaphores, a live semaphore has a handle, a waiter or a
  linked name (nothing leaks, nothing is destroyed while in use), linked names are unique, and nobody is
  queued on a semaphore whose value is positive.
\<close>

theorem ksem_reachable_inv:
  assumes "task_inv s0" "ksem_step\<^sup>*\<^sup>* (s0, ksem_init) (s, k)"
  shows "ksem_inv (s, k) \<and>
    (\<forall>i. unat (k_refcount (ksem_pool k i)) = card {r. r_active (ksem_refs k r) \<and> r_sem (ksem_refs k r) = Some i}) \<and>
    (\<forall>r. r_active (ksem_refs k r) \<longrightarrow> (\<exists>i. r_sem (ksem_refs k r) = Some i \<and> k_active (ksem_pool k i))) \<and>
    (\<forall>i. k_active (ksem_pool k i) \<longrightarrow> k_refcount (ksem_pool k i) \<noteq> 0 \<or> fhead (k_waitq (ksem_pool k i)) \<noteq> None \<or>
       k_named (ksem_pool k i) \<and> \<not> k_unlinked (ksem_pool k i)) \<and>
    (\<forall>i j. linked (ksem_pool k i) \<and> linked (ksem_pool k j) \<and> k_name (ksem_pool k i) = k_name (ksem_pool k j) \<longrightarrow> i = j) \<and>
    (\<forall>i. 0 <s k_value (ksem_pool k i) \<longrightarrow> fhead (k_waitq (ksem_pool k i)) = None) \<and>
    (\<exists>r s' k'. ksem_wait_common_current s k h b = Some (r, s', k')) \<and>
    (\<exists>r s' k'. ksem_post_current s k h = Some (r, s', k')) \<and> (\<exists>r s' k'. ksem_close_current s k h = Some (r, s', k')) \<and>
    (\<exists>r s' k'. ksem_unlink_current s k name = Some (r, s', k')) \<and> (\<exists>s' k'. ksem_task_cleanup s k t = Some (s', k'))"
proof -
  have inv: "ksem_inv (s, k)" by (rule ksemsys.run_inv [OF assms(2) ksem_init_inv [OF assms(1)]])
  obtain qs where wf: "kwf {} (task_count s) k qs" by (rule ksem_invE [OF inv])
  have refs: "unat (k_refcount (ksem_pool k i)) = card {r. r_active (ksem_refs k r) \<and> r_sem (ksem_refs k r) = Some i}" for i
    using wf by (simp add: kwf_def krefs_def refs_to_def)
  have used: "k_refcount (ksem_pool k i) \<noteq> 0 \<or> fhead (k_waitq (ksem_pool k i)) \<noteq> None \<or>
      k_named (ksem_pool k i) \<and> \<not> k_unlinked (ksem_pool k i)" if "k_active (ksem_pool k i)" for i
    using kwfD(7) [OF wf, of i] that by (auto simp: ksem_can_destroy_locked_def Let_def)
  have names: "linked (ksem_pool k i) \<and> linked (ksem_pool k j) \<and> k_name (ksem_pool k i) = k_name (ksem_pool k j) \<Longrightarrow> i = j" for i j
    using wf unfolding kwf_def knames_def by blast
  have val: "0 <s k_value (ksem_pool k i) \<Longrightarrow> fhead (k_waitq (ksem_pool k i)) = None" for i
    using kwfD(5,6) [OF wf, of i] by simp
  show ?thesis
    using inv refs kwfD(9) [OF wf] used names val wait_common_ok [OF inv, of h b] post_ok [OF inv, of h] close_ok [OF inv, of h]
      unlink_ok [OF inv, of name] task_cleanup_ok [OF inv, of t] by (intro conjI allI impI; blast)
qed

theorem ksem_reachable_inv_witness:
  "\<exists>s. sched_init = Some s \<and> ksem_inv (s, ksem_demo s 1 0) \<and>
     (\<exists>r s' k'. ksem_wait_common_current s (ksem_demo s 1 0) 1 False = Some (r, s', k'))"
proof -
  obtain s where s: "sched_init = Some s" "task_inv s" "current_task s = Some 0" by (rule boot_demo)
  have "ksem_step (s, ksem_init) (s, ksem_demo s 1 0)" by (rule ks_create [OF ksem_demo_create(1) [OF s(3)]])
  then have "ksem_step\<^sup>*\<^sup>* (s, ksem_init) (s, ksem_demo s 1 0)" by (rule r_into_rtranclp)
  from ksem_reachable_inv [OF s(2) this, of 1 False "None" None] s(1) show ?thesis by blast
qed

text \<open>
  C17. Posting through a valid handle always succeeds. When somebody waits, the longest waiter
  receives the token: it is marked granted, leaves the queue, the order of the others and the value do not
  change, and on a real-time semaphore its task becomes the owner. When nobody waits the value grows by one.
  Handles and the other semaphores are untouched. Without a valid handle the result is \<open>ENOENT\<close>.
\<close>

theorem ksem_post_hands_off:
  assumes inv: "ksem_inv (s, k)" and q: "fifo_rep (kw_next k) (k_waitq (ksem_pool k i)) ws"
  shows "(ksem_lookup s k h = None \<longrightarrow> ksem_post_current s k h = Some (Inl ENOENT, s, k)) \<and>
    (ksem_lookup s k h = Some i \<longrightarrow>
      (\<exists>s' k'. ksem_post_current s k h = Some (Inr (), s', k') \<and> ksem_inv (s', k') \<and> ksem_refs k' = ksem_refs k \<and>
         (\<forall>j. j \<noteq> i \<longrightarrow> ksem_pool k' j = ksem_pool k j) \<and>
         fifo_rep (kw_next k') (k_waitq (ksem_pool k' i)) (tl ws) \<and>
         (case ws of
            [] \<Rightarrow> k_value (ksem_pool k' i) = k_value (ksem_pool k i) + 1 \<and> ksem_waiters k' = ksem_waiters k
          | w # _ \<Rightarrow> k_value (ksem_pool k' i) = k_value (ksem_pool k i) \<and>
              ksem_waiters k' = (ksem_waiters k)(w := (ksem_waiters k w)\<lparr>kw_granted := True\<rparr>) \<and>
              (is_rt (ksem_pool k i) \<longrightarrow> k_owner_hint (ksem_pool k' i) = kw_task (ksem_waiters k w)))))"
proof (intro conjI impI)
  obtain qs c where wf: "sched_inv s" "kwf {} (task_count s) k qs" "current_task s = Some c" by (rule ksem_invE [OF inv])
  show "ksem_lookup s k h = None \<Longrightarrow> ksem_post_current s k h = Some (Inl ENOENT, s, k)"
    using wf(3) by (simp add: ksem_post_current_def)
  assume l: "ksem_lookup s k h = Some i"
  have ws: "qs i = ws" using fifo_rep_unique [OF kwfD(1) [OF wf(2)] q] .
  show "\<exists>s' k'. ksem_post_current s k h = Some (Inr (), s', k') \<and> ksem_inv (s', k') \<and> ksem_refs k' = ksem_refs k \<and>
         (\<forall>j. j \<noteq> i \<longrightarrow> ksem_pool k' j = ksem_pool k j) \<and>
         fifo_rep (kw_next k') (k_waitq (ksem_pool k' i)) (tl ws) \<and>
         (case ws of
            [] \<Rightarrow> k_value (ksem_pool k' i) = k_value (ksem_pool k i) + 1 \<and> ksem_waiters k' = ksem_waiters k
          | w # _ \<Rightarrow> k_value (ksem_pool k' i) = k_value (ksem_pool k i) \<and>
              ksem_waiters k' = (ksem_waiters k)(w := (ksem_waiters k w)\<lparr>kw_granted := True\<rparr>) \<and>
              (is_rt (ksem_pool k i) \<longrightarrow> k_owner_hint (ksem_pool k' i) = kw_task (ksem_waiters k w)))"
  proof (cases ws)
    case Nil
    obtain s' k' where p: "ksem_post_current s k h = Some (Inr (), s', k')" "sem_post s k i qs s' k'"
      "k_value (ksem_pool k' i) = k_value (ksem_pool k i) + 1" "ksem_waiters k' = ksem_waiters k" "ksem_refs k' = ksem_refs k"
      using post_empty [OF wf(2,1,3) l] ws Nil by blast
    have "fifo_rep (kw_next k') (k_waitq (ksem_pool k' i)) []" using p(2) kwfD(1) [of "{}" _ k' qs i] ws Nil by (auto simp: sem_post_def)
    then show ?thesis using p ksem_invI [OF inv p(2)] Nil by (auto simp: sem_post_def)
  next
    case (Cons w ws')
    obtain s' k' where p: "ksem_post_current s k h = Some (Inr (), s', k')" "sem_post s k i (qs(i := ws')) s' k'"
      "k_value (ksem_pool k' i) = k_value (ksem_pool k i)"
      "ksem_waiters k' = (ksem_waiters k)(w := (ksem_waiters k w)\<lparr>kw_granted := True\<rparr>)" "ksem_refs k' = ksem_refs k"
      "is_rt (ksem_pool k i) \<longrightarrow> k_owner_hint (ksem_pool k' i) = kw_task (ksem_waiters k w)"
      using post_grant [OF wf(2,1,3) l] ws Cons by blast
    have "fifo_rep (kw_next k') (k_waitq (ksem_pool k' i)) ws'"
      using p(2) kwfD(1) [of "{}" _ k' "qs(i := ws')" i] by (auto simp: sem_post_def)
    then show ?thesis using p ksem_invI [OF inv p(2)] Cons by (auto simp: sem_post_def)
  qed
qed

theorem ksem_post_hands_off_witness:
  "\<exists>s s' k'. sched_init = Some s \<and> ksem_post_current s (ksem_demo s 5 0) 1 = Some (Inr (), s', k') \<and> k_value (ksem_pool k' 0) = 6"
proof -
  obtain s where s: "sched_init = Some s" "task_inv s" "current_task s = Some 0" by (rule boot_demo)
  note d = ksem_demo_create [OF s(3), of 5 0]
  have "fifo_rep (kw_next (ksem_demo s 5 0)) (k_waitq (ksem_pool (ksem_demo s 5 0) 0)) []" by (simp add: d(5) fifo_rep_empty)
  from ksem_post_hands_off [OF ksem_demo_inv [OF s(2)] this, of 1] d(2,3) s(1) show ?thesis by force
qed

lemma push_fields:
  "ksem_refs (ksem_waitq_push_locked k i w) = ksem_refs k" "ksem_waiters (ksem_waitq_push_locked k i w) = ksem_waiters k"
  "k_value (ksem_pool (ksem_waitq_push_locked k i w) j) = k_value (ksem_pool k j)"
  "k_flags (ksem_pool (ksem_waitq_push_locked k i w) j) = k_flags (ksem_pool k j)"
  "k_owner_hint (ksem_pool (ksem_waitq_push_locked k i w) j) = k_owner_hint (ksem_pool k j)"
  "j \<noteq> i \<Longrightarrow> ksem_pool (ksem_waitq_push_locked k i w) j = ksem_pool k j"
  by (simp_all add: ksem_waitq_push_locked_def split: prod.splits)

text \<open>
  Waiting through a valid handle: a positive value is decremented at once and the wait succeeds;
  otherwise a try-wait fails with \<open>EAGAIN\<close> and a wait appends a new waiter of the calling task to
  the queue, behind everybody already there, leaving the value alone; it fails with \<open>ENOSPC\<close> exactly when all
  \<open>KSEM_MAX_WAITERS\<close> waiters are in use. Failures change nothing.
\<close>

lemma ksem_wait_takes_or_queues:
  assumes inv: "ksem_inv (s, k)" and q: "fifo_rep (kw_next k) (k_waitq (ksem_pool k i)) ws" and c: "current_task s = Some c"
    and l: "ksem_lookup s k h = Some i"
  shows "(0 <s k_value (ksem_pool k i) \<longrightarrow>
      (\<exists>s' k'. ksem_wait_common_current s k h b = Some (Acquired, s', k') \<and> ksem_waiters k' = ksem_waiters k \<and>
         ksem_refs k' = ksem_refs k \<and> k_value (ksem_pool k' i) = k_value (ksem_pool k i) - 1 \<and>
         (is_rt (ksem_pool k i) \<longrightarrow> k_owner_hint (ksem_pool k' i) = Some c) \<and> (\<forall>j. j \<noteq> i \<longrightarrow> ksem_pool k' j = ksem_pool k j))) \<and>
    (\<not> 0 <s k_value (ksem_pool k i) \<longrightarrow> ksem_trywait_current s k h = Some (Failed EAGAIN, s, k)) \<and>
    (\<not> 0 <s k_value (ksem_pool k i) \<and> (\<forall>w < KSEM_MAX_WAITERS. kw_active (ksem_waiters k w)) \<longrightarrow>
      ksem_wait_current s k h = Some (Failed ENOSPC, s, k)) \<and>
    (\<not> 0 <s k_value (ksem_pool k i) \<and> (\<exists>w < KSEM_MAX_WAITERS. \<not> kw_active (ksem_waiters k w)) \<longrightarrow>
      (\<exists>w s' k'. ksem_wait_current s k h = Some (Queued w i, s', k') \<and> \<not> kw_active (ksem_waiters k w) \<and> ksem_refs k' = ksem_refs k \<and>
         ksem_waiters k' = (ksem_waiters k)(w := \<lparr>kw_active = True, kw_granted = False, kw_task = Some c, kw_sem = Some i\<rparr>) \<and>
         fifo_rep (kw_next k') (k_waitq (ksem_pool k' i)) (ws @ [w]) \<and> k_value (ksem_pool k' i) = k_value (ksem_pool k i) \<and>
         (\<forall>j. j \<noteq> i \<longrightarrow> ksem_pool k' j = ksem_pool k j)))"
proof (intro conjI impI; (elim conjE)?)
  obtain qs c' where "sched_inv s" "kwf {} (task_count s) k qs" "current_task s = Some c'" "c' < task_count s" by (rule ksem_invE [OF inv])
  then have wf: "sched_inv s" "kwf {} (task_count s) k qs" "c < task_count s" using c by auto
  note i = lookup_sem [OF wf(2) l]
  have ws: "qs i = ws" using fifo_rep_unique [OF kwfD(1) [OF wf(2)] q] .
  show "\<exists>s' k'. ksem_wait_common_current s k h b = Some (Acquired, s', k') \<and> ksem_waiters k' = ksem_waiters k \<and>
         ksem_refs k' = ksem_refs k \<and> k_value (ksem_pool k' i) = k_value (ksem_pool k i) - 1 \<and>
         (is_rt (ksem_pool k i) \<longrightarrow> k_owner_hint (ksem_pool k' i) = Some c) \<and> (\<forall>j. j \<noteq> i \<longrightarrow> ksem_pool k' j = ksem_pool k j)"
    if v: "0 <s k_value (ksem_pool k i)"
    using take_ok [OF wf(2,1,3) i v] c l v by (fastforce simp: ksem_wait_common_current_def sem_post_def)
  assume v: "\<not> 0 <s k_value (ksem_pool k i)"
  show "ksem_trywait_current s k h = Some (Failed EAGAIN, s, k)"
    using v c l by (simp add: ksem_trywait_current_def ksem_wait_common_current_def)
  show "ksem_wait_current s k h = Some (Failed ENOSPC, s, k)" if "\<forall>w < KSEM_MAX_WAITERS. kw_active (ksem_waiters k w)"
    using that v c l by (simp add: ksem_wait_current_def ksem_wait_common_current_def ksem_alloc_waiter_locked_def for_find_None [THEN iffD2])
  assume f: "\<exists>w < KSEM_MAX_WAITERS. \<not> kw_active (ksem_waiters k w)"
  then obtain w where w: "for_find (\<lambda>w. \<not> kw_active (ksem_waiters k w)) 0 KSEM_MAX_WAITERS = Some w"
    using for_find_exists by (metis le0)
  define k1 where "k1 = (set_kwaiter k w (zero_waiter\<lparr>kw_active := True, kw_task := Some c, kw_sem := Some i\<rparr>))
                     \<lparr>kw_next := (kw_next k)(w := None)\<rparr>"
  have al: "ksem_alloc_waiter_locked k c i = Some (w, k1)" by (simp add: ksem_alloc_waiter_locked_def w k1_def)
  note en = kwf_enqueue [OF wf(2) al wf(3) i(1) v]
  obtain s' where s': "ksem_update_pi_locked s (ksem_waitq_push_locked k1 i w) i = Some s'"
    using update_pi_kept [OF wf(1) kwfD(1) [OF en, of i] kwfD(2) [OF en, of i]] by blast
  have "ksem_wait_current s k h = Some (Queued w i, s', ksem_waitq_push_locked k1 i w)"
    using c l v al s' by (simp add: ksem_wait_current_def ksem_wait_common_current_def Let_def)
  moreover have "fifo_rep (kw_next (ksem_waitq_push_locked k1 i w)) (k_waitq (ksem_pool (ksem_waitq_push_locked k1 i w) i)) (ws @ [w])"
    using kwfD(1) [OF en, of i] ws by simp
  moreover have "\<not> kw_active (ksem_waiters k w)" using for_find_SomeD(3) [OF w] .
  moreover have "ksem_waiters (ksem_waitq_push_locked k1 i w) =
      (ksem_waiters k)(w := \<lparr>kw_active = True, kw_granted = False, kw_task = Some c, kw_sem = Some i\<rparr>)"
    "ksem_refs (ksem_waitq_push_locked k1 i w) = ksem_refs k"
    "k_value (ksem_pool (ksem_waitq_push_locked k1 i w) i) = k_value (ksem_pool k i)"
    "\<forall>j. j \<noteq> i \<longrightarrow> ksem_pool (ksem_waitq_push_locked k1 i w) j = ksem_pool k j"
    by (auto simp: push_fields k1_def zero_waiter_def)
  ultimately show "\<exists>w s' k'. ksem_wait_current s k h = Some (Queued w i, s', k') \<and> \<not> kw_active (ksem_waiters k w) \<and> ksem_refs k' = ksem_refs k \<and>
         ksem_waiters k' = (ksem_waiters k)(w := \<lparr>kw_active = True, kw_granted = False, kw_task = Some c, kw_sem = Some i\<rparr>) \<and>
         fifo_rep (kw_next k') (k_waitq (ksem_pool k' i)) (ws @ [w]) \<and> k_value (ksem_pool k' i) = k_value (ksem_pool k i) \<and>
         (\<forall>j. j \<noteq> i \<longrightarrow> ksem_pool k' j = ksem_pool k j)"
    by blast
qed

lemma pi_best_le:
  "foldl (pi_best s k) b xs \<le> b \<and> (w \<in> set xs \<longrightarrow> kw_task (ksem_waiters k w) = Some t \<longrightarrow> foldl (pi_best s k) b xs \<le> eff_prio_slot s t)"
proof (induction xs arbitrary: b)
  case (Cons x xs)
  have "pi_best s k b x \<le> b" "kw_task (ksem_waiters k x) = Some t \<Longrightarrow> pi_best s k b x \<le> eff_prio_slot s t"
    by (auto simp: pi_best_def split: option.splits)
  with Cons.IH [of "pi_best s k b x"] show ?case by (auto intro: order_trans)
qed simp

text \<open>
  Priority inheritance: when a task has to wait for a real-time semaphore that somebody owns,
  from then on the owner runs at least at the waiting task's priority (a smaller number is a higher priority),
  and so at the priority of every task queued before it.
\<close>

lemma ksem_priority_inheritance:
  assumes inv: "ksem_inv (s, k)" and wait: "ksem_wait_common_current s k h False = Some (Queued w i, s', k')"
    and rt: "is_rt (ksem_pool k i)" "k_owner_hint (ksem_pool k i) = Some ow"
    and v: "fifo_rep (kw_next k') (k_waitq (ksem_pool k' i)) ws" "v \<in> set ws" "kw_task (ksem_waiters k' v) = Some t"
  shows "eff_prio_slot s' ow \<le> eff_prio_slot s t \<and> w \<in> set ws \<and> kw_task (ksem_waiters k' w) = current_task s"
proof -
  obtain qs c where wf: "sched_inv s" "kwf {} (task_count s) k qs" "current_task s = Some c" "c < task_count s" by (rule ksem_invE [OF inv])
  obtain k1 where l: "ksem_lookup s k h = Some i" "\<not> 0 <s k_value (ksem_pool k i)" "ksem_alloc_waiter_locked k c i = Some (w, k1)"
    "k' = ksem_waitq_push_locked k1 i w" "ksem_update_pi_locked s k' i = Some s'"
    using wait wf(3) by (auto simp: ksem_wait_common_current_def Let_def Option.bind_eq_Some_conv split: option.splits if_splits prod.splits)
  note i = lookup_sem [OF wf(2) l(1)]
  have en: "kwf {} (task_count s) k' (qs(i := qs i @ [w]))" unfolding l(4) by (rule kwf_enqueue [OF wf(2) l(3) wf(4) i(1) l(2)])
  have k1: "k1 = (set_kwaiter k w (zero_waiter\<lparr>kw_active := True, kw_task := Some c, kw_sem := Some i\<rparr>))\<lparr>kw_next := (kw_next k)(w := None)\<rparr>"
    using l(3) by (auto simp: ksem_alloc_waiter_locked_def split: option.splits)
  have e: "is_rt (ksem_pool k' i)" "k_owner_hint (ksem_pool k' i) = Some ow" "kw_task (ksem_waiters k' w) = Some c"
    using rt by (simp_all add: l(4) push_fields k1 is_rt_def)
  have ws: "ws = qs i @ [w]" using fifo_rep_unique [OF v(1) kwfD(1) [OF en, of i]] by simp
  let ?b = "foldl (pi_best s k') 0xFF ws"
  have scan: "pi_scan (s, k') 0xFF (fhead (k_waitq (ksem_pool k' i))) = Some ?b"
    using v(1) by (intro pi_scan_chain) (simp add: fifo_rep_def)
  have b: "?b \<le> eff_prio_slot s t" using pi_best_le v(2,3) by blast
  have ow: "ow < task_count s" using kwfD(2) [OF en, of i] e(2) by simp
  have "eff_prio_slot s' ow \<le> eff_prio_slot s t"
  proof (cases "?b = 0xFF")
    case True
    then have "0xFF \<le> eff_prio_slot s t" using b by simp
    moreover have "eff_prio_slot s' ow \<le> 0xFF" by (rule prio_max)
    ultimately show ?thesis by (rule order_trans [rotated])
  next
    case False
    obtain s1 where d: "sched_task_donate_priority s (Some ow) ?b = Some (True, s1)"
      "donated_priority s1 = (donated_priority s)(ow := min (donated_priority s ow) ?b)"
      by (rule donate_priority_eq [OF wf(1) ow])
    have "s' = s1" using l(5) e scan False d(1) by (simp add: ksem_update_pi_locked_def Let_def)
    then have "donated_priority s' ow \<le> ?b" using d(2) by simp
    then have "eff_prio_slot s' ow \<le> ?b" by (auto simp: eff_prio_slot_def)
    then show ?thesis using b by (rule order_trans)
  qed
  then show ?thesis using ws e(3) wf(3) by simp
qed

definition handle_free :: "sched \<Rightarrow> ksem \<Rightarrow> u32 \<Rightarrow> bool" where
  "handle_free s k h \<longleftrightarrow>
     (\<forall>r. r_active (ksem_refs k r) \<and> r_owner_pid (ksem_refs k r) = ksem_owner_id_for s (current_task s) \<longrightarrow> r_handle (ksem_refs k r) \<noteq> h)"

lemma alloc_ref_lookup:
  assumes wf: "kwf X n k qs" "X \<subseteq> {i}" and a: "k_active (ksem_pool k i)" and al: "ksem_alloc_ref_locked s k i = Some (r, k')"
    and free: "handle_free s k (ksem_next_handle k)"
  shows "r_handle (ksem_refs k' r) = ksem_next_handle k" "ksem_lookup s k' (ksem_next_handle k) = Some i"
proof -
  note n = kwf_alloc_ref [OF wf(1,2) al a]
  show "r_handle (ksem_refs k' r) = ksem_next_handle k" by (simp add: n(4))
  let ?P = "\<lambda>r. let v = ksem_refs k' r in r_active v \<and> r_owner_pid v = ksem_owner_id_for s (current_task s) \<and> r_handle v = ksem_next_handle k"
  have P: "?P r' \<longleftrightarrow> r' = r" for r' using free n(2) by (auto simp: n(4) handle_free_def Let_def)
  have "for_find ?P 0 KSEM_MAX_HANDLE_REFS = Some r" unfolding for_find_Some P using n(3) by auto
  then have "ksem_find_ref_locked k' (ksem_owner_id_for s (current_task s)) (ksem_next_handle k) = Some r"
    by (simp add: ksem_find_ref_locked_def)
  then show "ksem_lookup s k' (ksem_next_handle k) = Some i" using a by (simp add: ksem_lookup_def n(4,5))
qed

text \<open>
  Names and handles: a successful create returns a handle whose value is the initial value, and
  the name is taken from then on (a second create is refused with \<open>EEXIST\<close>); opening the name gives
  another handle on the same semaphore, with the same value; unlinking frees the name (opening it
  is then \<open>ENOENT\<close>) while the first handle goes on working. (The next handle number has to be unused by the process,
  which the code does not check.)
\<close>

lemma ksem_name_roundtrip:
  assumes inv: "ksem_inv (s, k)" and create: "ksem_create_current s k (Some nm) v fl True = (Inr h, k1)"
    and free: "handle_free s k (ksem_next_handle k)"
  shows "ksem_getvalue_current s k1 h True = Inr v \<and>
    ksem_create_current s k1 (Some nm) v2 fl2 True = (Inl EEXIST, k1) \<and>
    (\<exists>i. ksem_lookup s k1 h = Some i \<and> k_name (ksem_pool k1 i) = nm \<and>
       (\<forall>h2 k2. ksem_open_current s k1 (Some nm) True = (Inr h2, k2) \<and> handle_free s k1 (ksem_next_handle k1) \<longrightarrow>
          ksem_lookup s k2 h2 = Some i \<and> ksem_getvalue_current s k2 h2 True = Inr v)) \<and>
    (\<exists>s3 k3. ksem_unlink_current s k1 (Some nm) = Some (Inr (), s3, k3) \<and>
       ksem_open_current s3 k3 (Some nm) True = (Inl ENOENT, k3) \<and> ksem_getvalue_current s3 k3 h True = Inr v)"
proof -
  obtain qs c where wf: "sched_inv s" "kwf {} (task_count s) k qs" "current_task s = Some c" "task_inv s" by (rule ksem_invE [OF inv])
  obtain i k0 e r where n: "ksem_alloc_entry_locked k = Some (i, k0)" "ksem_alloc_ref_locked s (set_sem k0 i e) i = Some (r, k1)"
    "linked e" "k_name e = nm" "k_value e = v" "kwf {i} (task_count s) (set_sem k0 i e) qs" "kwf {} (task_count s) k1 qs" "k_active e"
    "h = r_handle (ksem_refs k1 r)"
    using create by (rule_tac create_cases [OF inv wf(2), of "Some nm" v fl True]) auto
  have k0: "ksem_refs k0 = ksem_refs k" "ksem_next_handle k0 = ksem_next_handle k"
    using n(1) by (auto simp: ksem_alloc_entry_locked_def split: option.splits)
  have a0: "k_active (ksem_pool (set_sem k0 i e) i)" using n(8) by simp
  note al = kwf_alloc_ref [OF n(6) subset_refl n(2) a0]
  have "handle_free s (set_sem k0 i e) (ksem_next_handle (set_sem k0 i e))" using free by (simp add: handle_free_def k0)
  note lk = alloc_ref_lookup [OF n(6) subset_refl a0 n(2) this]
  have l: "ksem_lookup s k1 h = Some i" using lk n(9) by simp
  have e1: "linked (ksem_pool k1 i)" "k_name (ksem_pool k1 i) = nm" "k_value (ksem_pool k1 i) = v" "k_active (ksem_pool k1 i)"
    using n(3,4,5,8) by (simp_all add: al(5) linked_def)
  have fn: "ksem_find_named_locked k1 nm = Some i" using find_named_iff(1) [OF n(7)] e1 by simp
  have open_ok: "ksem_lookup s k2 h2 = Some i \<and> ksem_getvalue_current s k2 h2 True = Inr v"
    if o: "ksem_open_current s k1 (Some nm) True = (Inr h2, k2)" "handle_free s k1 (ksem_next_handle k1)" for h2 k2
  proof -
    obtain r2 where r2: "ksem_alloc_ref_locked s k1 i = Some (r2, k2)" "h2 = r_handle (ksem_refs k2 r2)"
      using o(1) wf(3) fn by (auto simp: ksem_open_current_def split: option.splits prod.splits)
    note l2 = alloc_ref_lookup [OF n(7) empty_subsetI e1(4) r2(1) o(2)]
    have "k_value (ksem_pool k2 i) = v" using kwf_alloc_ref(5) [OF n(7) empty_subsetI r2(1) e1(4)] e1(3) by simp
    then show ?thesis using l2 r2(2) wf(3) by (simp add: ksem_getvalue_current_def)
  qed
  define k3 where "k3 = set_sem k1 i ((ksem_pool k1 i)\<lparr>k_unlinked := True, k_named := False, k_name := []\<rparr>)"
  have rc: "k_refcount (ksem_pool k3 i) \<noteq> 0" using lookup_sem(2) [OF n(7) l] by (simp add: k3_def)
  have u: "ksem_unlink_current s k1 (Some nm) = Some (Inr (), s, k3)"
    using wf(3) fn reap_referenced [OF rc, of s] by (simp add: ksem_unlink_current_def Let_def k3_def)
  have inv1: "ksem_inv (s, k1)" using n(7) wf(4) by (auto simp: ksem_inv_def)
  obtain qs3 where wf3: "kwf {} (task_count s) k3 qs3"
    using unlink_ok [OF inv1, of "Some nm"] u by (auto simp: ksem_inv_def)
  have un: "j = i" if "linked (ksem_pool k1 j)" "k_name (ksem_pool k1 j) = nm" for j
    using n(7) that e1 unfolding kwf_def knames_def by blast
  have "ksem_find_named_locked k3 nm = None"
    unfolding find_named_iff(2) [OF wf3] using un by (auto simp: k3_def linked_def)
  then have "ksem_open_current s k3 (Some nm) True = (Inl ENOENT, k3)" using wf(3) by (simp add: ksem_open_current_def)
  moreover have "ksem_lookup s k3 h = Some i"
    by (rule lookup_same [OF sched_kept_refl [OF wf(1)] _ _ l]) (auto simp: k3_def)
  then have "ksem_getvalue_current s k3 h True = Inr v" using wf(3) e1(3) by (simp add: ksem_getvalue_current_def k3_def)
  moreover have "ksem_getvalue_current s k1 h True = Inr v" using wf(3) l e1(3) by (simp add: ksem_getvalue_current_def)
  moreover have "ksem_create_current s k1 (Some nm) v2 fl2 True = (Inl EEXIST, k1)" using wf(3) fn by (simp add: ksem_create_current_def)
  ultimately show ?thesis using l e1(2) open_ok u by blast
qed

text \<open>
  Errors have no effect: a call that fails leaves semaphores, waiters, handles and the
  scheduler as they were. A failed creation may use up an identifier, nothing else. (A wait that is
  interrupted or times out after it was queued is not covered here: it takes its waiter out again.)
\<close>

lemma ksem_errors_have_no_effect:
  assumes inv: "ksem_inv (s, k)"
  shows "(\<forall>e k'. ksem_create_current s k name v fl out = (Inl e, k') \<or> ksem_anon_current s k v fl out = (Inl e, k') \<longrightarrow>
       k' = k \<or> k' = k\<lparr>ksem_next_id := bump (ksem_next_id k)\<rparr>) \<and>
    (\<forall>e k'. ksem_open_current s k name out = (Inl e, k') \<longrightarrow> k' = k) \<and>
    (\<forall>e s' k'. ksem_close_current s k h = Some (Inl e, s', k') \<or> ksem_unlink_current s k name = Some (Inl e, s', k') \<or>
       ksem_post_current s k h = Some (Inl e, s', k') \<or> ksem_wait_common_current s k h b = Some (Failed e, s', k') \<longrightarrow>
       s' = s \<and> k' = k)"
proof (intro conjI allI impI)
  obtain qs c where wf: "kwf {} (task_count s) k qs" "current_task s = Some c" by (rule ksem_invE [OF inv])
  fix e k' assume "ksem_create_current s k name v fl out = (Inl e, k') \<or> ksem_anon_current s k v fl out = (Inl e, k')"
  then show "k' = k \<or> k' = k\<lparr>ksem_next_id := bump (ksem_next_id k)\<rparr>"
  proof
    assume "ksem_create_current s k name v fl out = (Inl e, k')"
    then show ?thesis by (rule_tac create_cases [OF inv wf(1), of name v fl out]) auto
  next
    assume a: "ksem_anon_current s k v fl out = (Inl e, k')"
    show ?thesis
    proof (cases "ksem_alloc_entry_locked k")
      case None then show ?thesis using a wf(2) by (auto simp: ksem_anon_current_def split: if_splits)
    next
      case (Some x)
      then obtain i k1 where "ksem_alloc_entry_locked k = Some (i, k1)" by (cases x) auto
      then show ?thesis using a wf(2) alloc_entry_undo(1) [OF wf(1)]
        by (auto simp: ksem_anon_current_def Let_def split: if_splits option.splits)
    qed
  qed
next
  fix e k' assume "ksem_open_current s k name out = (Inl e, k')"
  then show "k' = k" by (auto simp: ksem_open_current_def split: option.splits if_splits)
next
  fix e s' k'
  assume "ksem_close_current s k h = Some (Inl e, s', k') \<or> ksem_unlink_current s k name = Some (Inl e, s', k') \<or>
       ksem_post_current s k h = Some (Inl e, s', k') \<or> ksem_wait_common_current s k h b = Some (Failed e, s', k')"
  then have "s' = s \<and> k' = k"
    by (elim disjE) (auto simp: ksem_close_current_def ksem_unlink_current_def ksem_post_current_def ksem_wait_common_current_def
        Let_def Option.bind_eq_Some_conv split: option.splits if_splits prod.splits)
  then show "s' = s" "k' = k" by auto
qed

end
