(* ===== verification/Mreact.thy ===== *)
theory Mreact
  imports Blocking
begin

text \<open>
  Reactive memory subscriptions, \<^verbatim>\<open>kernel/mreact.c\<close>: a task subscribes to conditions on words of
  its memory and waits until they hold. The wait evaluates the conditions and yields in turn:
  \<open>mreact_wait_current\<close> is its part before the loop, \<open>mreact_wait_poll\<close> one turn.

  \<open>rd space addr size\<close> stands for \<^verbatim>\<open>mmu_space_resolve_ptr\<close> and the bytes there: the 8 bytes
  from \<open>addr\<close> on as a number, or \<open>None\<close> when the range is not mapped.
\<close>

subsection \<open>Data\<close>

definition MREACT_MAX_HANDLES :: nat where "MREACT_MAX_HANDLES = 64"

definition MREACT_MAX_SUBS :: u32 where "MREACT_MAX_SUBS = 8"

definition MREACT_EQ :: u32 where "MREACT_EQ = 1"

definition MREACT_NEQ :: u32 where "MREACT_NEQ = 2"

definition MREACT_GT :: u32 where "MREACT_GT = 3"

definition MREACT_LT :: u32 where "MREACT_LT = 4"

definition MREACT_BITMASK_SET :: u32 where "MREACT_BITMASK_SET = 5"

definition MREACT_BITMASK_CLEAR :: u32 where "MREACT_BITMASK_CLEAR = 6"

definition MREACT_CHANGED :: u32 where "MREACT_CHANGED = 7"

definition MREACT_RANGE_IN :: u32 where "MREACT_RANGE_IN = 8"

definition MREACT_RANGE_OUT :: u32 where "MREACT_RANGE_OUT = 9"

definition MREACT_ONE_SHOT :: u32 where "MREACT_ONE_SHOT = 1"

definition MREACT_PERSISTENT :: u32 where "MREACT_PERSISTENT = 2"

definition MREACT_LEVEL :: u32 where "MREACT_LEVEL = 8"

definition MREACT_SAMPLE_GET :: "u32 \<Rightarrow> u32" where
  "MREACT_SAMPLE_GET f = drop_bit 16 f AND 0xFF"

definition MREACT_WAIT_FOREVER_NS :: u64 where "MREACT_WAIT_FOREVER_NS = 0"

type_synonym user_mem = "nat \<Rightarrow> u64 \<Rightarrow> u64 \<Rightarrow> u64 option"

record mreact_part =
  mp_addr :: u64
  mp_size :: u64
  mp_pred :: u32
  mp_value :: u64
  mp_last_raw :: u64
  mp_initialized :: bool
  mp_last_truth :: bool
  mp_sample_every :: u8
  mp_sample_count :: u8

text \<open>The fields \<^verbatim>\<open>deadline_ms\<close> and \<^verbatim>\<open>wait_result\<close> of a handle are never read.\<close>

record mreact_handle =
  mh_handle :: u32
  mh_owner_pid :: u32
  mh_space :: "nat option"
  mh_waiter :: "nat option"
  mh_trigger_count :: u32
  mh_active :: bool
  mh_armed :: bool
  mh_persistent :: bool
  mh_level :: bool
  mh_require_all :: bool
  mh_part_count :: u8
  mh_last_truth :: bool
  mh_parts :: "nat \<Rightarrow> mreact_part"

record mreact_sub =
  sub_addr :: u64
  sub_size :: u64
  sub_pred :: u32
  sub_value :: u64
  sub_flags :: u32

record mreact =
  mreact_handles :: "nat \<Rightarrow> mreact_handle"
  mreact_next_handle :: u32

definition zero_part :: mreact_part where
  "zero_part = \<lparr>mp_addr = 0, mp_size = 0, mp_pred = 0, mp_value = 0, mp_last_raw = 0, mp_initialized = False,
     mp_last_truth = False, mp_sample_every = 0, mp_sample_count = 0\<rparr>"

definition zero_handle :: mreact_handle where
  "zero_handle = \<lparr>mh_handle = 0, mh_owner_pid = 0, mh_space = None, mh_waiter = None, mh_trigger_count = 0,
     mh_active = False, mh_armed = False, mh_persistent = False, mh_level = False, mh_require_all = False,
     mh_part_count = 0, mh_last_truth = False, mh_parts = (\<lambda>_. zero_part)\<rparr>"

definition set_handle :: "mreact \<Rightarrow> nat \<Rightarrow> mreact_handle \<Rightarrow> mreact" where
  "set_handle m i st = m\<lparr>mreact_handles := (mreact_handles m)(i := st)\<rparr>"

subsection \<open>Conditions\<close>

definition mreact_is_owner :: "sched \<Rightarrow> mreact_handle \<Rightarrow> bool" where
  "mreact_is_owner s st =
     (case current_task s of None \<Rightarrow> False | Some c \<Rightarrow> mh_owner_pid st = t_pid (task_pool s c))"

definition mreact_timeout_to_ms :: "u64 \<Rightarrow> u64" where
  "mreact_timeout_to_ms timeout_ns = (if timeout_ns = 0 then 0 else (timeout_ns + 999999) div 1000000)"

definition size_ok :: "u64 \<Rightarrow> bool" where
  "size_ok sz \<longleftrightarrow> sz = 1 \<or> sz = 2 \<or> sz = 4 \<or> sz = 8"

definition mreact_read_raw :: "user_mem \<Rightarrow> nat option \<Rightarrow> u64 \<Rightarrow> u64 \<Rightarrow> errno + u64" where
  "mreact_read_raw rd space addr sz =
     (case space of
        None \<Rightarrow> Inl EINVAL
      | Some sp \<Rightarrow>
          if \<not> size_ok sz then Inl EINVAL
          else if addr AND (sz - 1) \<noteq> 0 then Inl EINVAL
          else
            (case rd sp addr sz of
               None \<Rightarrow> Inl EFAULT
             | Some v \<Rightarrow>
                 Inr (if sz = 1 then ucast (ucast v :: u8)
                      else if sz = 2 then ucast (ucast v :: u16)
                      else if sz = 4 then ucast (ucast v :: u32)
                      else v)))"

definition mreact_pred_eval :: "mreact_part \<Rightarrow> u64 \<Rightarrow> bool \<Rightarrow> bool" where
  "mreact_pred_eval part raw changed =
     (let p = mp_pred part; value = mp_value part;
          lo = ucast (ucast (value AND 0xFFFFFFFF) :: u32);
          hi = ucast (ucast (drop_bit 32 value) :: u32)
      in if p = MREACT_EQ then raw = value
         else if p = MREACT_NEQ then raw \<noteq> value
         else if p = MREACT_GT then raw > value
         else if p = MREACT_LT then raw < value
         else if p = MREACT_BITMASK_SET then raw AND value = value
         else if p = MREACT_BITMASK_CLEAR then raw AND value = 0
         else if p = MREACT_CHANGED then changed
         else if p = MREACT_RANGE_IN then raw \<ge> lo \<and> raw \<le> hi
         else if p = MREACT_RANGE_OUT then raw < lo \<or> raw > hi
         else False)"

definition mreact_part_truth ::
  "user_mem \<Rightarrow> mreact_part \<Rightarrow> nat option \<Rightarrow> (errno + bool) \<times> mreact_part" where
  "mreact_part_truth rd part space =
     (case mreact_read_raw rd space (mp_addr part) (mp_size part) of
        Inl e \<Rightarrow> (Inl e, part)
      | Inr raw \<Rightarrow>
          if \<not> mp_initialized part then
            (let truth = mreact_pred_eval part raw False
             in (Inr truth, part\<lparr>mp_last_raw := raw, mp_initialized := True, mp_sample_count := 0, mp_last_truth := truth\<rparr>))
          else
            (let changed = (raw \<noteq> mp_last_raw part);
                 sampled = (changed \<and> mp_sample_every part > 1);
                 part = (if sampled then part\<lparr>mp_sample_count := mp_sample_count part + 1\<rparr> else part)
             in if sampled \<and> mp_sample_count part < mp_sample_every part
                then (Inr False, part\<lparr>mp_last_raw := raw\<rparr>)
                else
                  (let part = (if sampled then part\<lparr>mp_sample_count := 0\<rparr> else part);
                       truth = mreact_pred_eval part raw changed
                   in (Inr truth, part\<lparr>mp_last_raw := raw, mp_last_truth := truth\<rparr>))))"

fun mreact_truth_loop ::
  "user_mem \<Rightarrow> nat option \<Rightarrow> (nat \<Rightarrow> mreact_part) \<Rightarrow> nat list \<Rightarrow> u32 \<Rightarrow> (errno + u32) \<times> (nat \<Rightarrow> mreact_part)" where
  "mreact_truth_loop rd space parts [] true_count = (Inr true_count, parts)"
| "mreact_truth_loop rd space parts (i # is) true_count =
     (case mreact_part_truth rd (parts i) space of
        (Inl e, p) \<Rightarrow> (Inl e, parts(i := p))
      | (Inr truth, p) \<Rightarrow>
          mreact_truth_loop rd space (parts(i := p)) is (if truth then true_count + 1 else true_count))"

definition mreact_handle_truth :: "user_mem \<Rightarrow> mreact_handle \<Rightarrow> (errno + bool) \<times> mreact_handle" where
  "mreact_handle_truth rd st =
     (if mh_space st = None \<or> mh_part_count st = 0 then (Inl EINVAL, st)
      else
        (case mreact_truth_loop rd (mh_space st) (mh_parts st) [0..<unat (mh_part_count st)] 0 of
           (Inl e, parts) \<Rightarrow> (Inl e, st\<lparr>mh_parts := parts\<rparr>)
         | (Inr n, parts) \<Rightarrow>
             (Inr (if mh_require_all st then n = ucast (mh_part_count st) else n \<noteq> 0), st\<lparr>mh_parts := parts\<rparr>)))"

definition mreact_fire :: "mreact_handle \<Rightarrow> mreact_handle" where
  "mreact_fire st =
     (let st = st\<lparr>mh_trigger_count := mh_trigger_count st + 1\<rparr>
      in if \<not> mh_persistent st then st\<lparr>mh_armed := False\<rparr> else st)"

subsection \<open>Handles\<close>

definition mreact_find_handle :: "mreact \<Rightarrow> u32 \<Rightarrow> nat option" where
  "mreact_find_handle m handle =
     for_find (\<lambda>i. mh_active (mreact_handles m i) \<and> mh_handle (mreact_handles m i) = handle) 0 MREACT_MAX_HANDLES"

definition mreact_alloc_handle :: "mreact \<Rightarrow> (nat \<times> mreact) option" where
  "mreact_alloc_handle m =
     (case for_find (\<lambda>i. \<not> mh_active (mreact_handles m i)) 0 MREACT_MAX_HANDLES of
        None \<Rightarrow> None
      | Some i \<Rightarrow>
          (let h = mreact_next_handle m
           in Some (i, (set_handle m i (zero_handle\<lparr>mh_active := True, mh_armed := True, mh_handle := h\<rparr>))
                         \<lparr>mreact_next_handle := (if h + 1 = 0 then 1 else h + 1)\<rparr>)))"

definition mreact_free_handle :: "mreact \<Rightarrow> nat \<Rightarrow> mreact" where
  "mreact_free_handle m i = set_handle m i zero_handle"

definition mreact_init :: mreact where
  "mreact_init = \<lparr>mreact_handles = (\<lambda>_. zero_handle), mreact_next_handle = 1\<rparr>"

definition mreact_cleanup_one :: "u32 \<Rightarrow> sched \<times> mreact \<Rightarrow> nat \<Rightarrow> sched \<times> mreact" where
  "mreact_cleanup_one pid sm i =
     (let (s, m) = sm; st = mreact_handles m i
      in if \<not> mh_active st \<or> mh_owner_pid st \<noteq> pid then (s, m)
         else
           (let s = (case mh_waiter st of None \<Rightarrow> s | Some w \<Rightarrow> sched_unblock s (Some w))
            in (s, mreact_free_handle m i)))"

definition mreact_task_cleanup :: "sched \<Rightarrow> mreact \<Rightarrow> nat option \<Rightarrow> sched \<times> mreact" where
  "mreact_task_cleanup s m task =
     (case task of
        None \<Rightarrow> (s, m)
      | Some t \<Rightarrow> foldl (mreact_cleanup_one (t_pid (task_pool s t))) (s, m) [0..<MREACT_MAX_HANDLES])"

subsection \<open>Subscribing\<close>

definition sub_ok :: "mreact_sub \<Rightarrow> bool" where
  "sub_ok src \<longleftrightarrow> size_ok (sub_size src) \<and> sub_addr src AND (sub_size src - 1) = 0"

definition sub_part :: "u32 \<Rightarrow> mreact_sub \<Rightarrow> mreact_part" where
  "sub_part common_flags src =
     (let sample = MREACT_SAMPLE_GET (if sub_flags src \<noteq> 0 then sub_flags src else common_flags);
          sample = (if sample = 0 then 1 else sample)
      in zero_part\<lparr>mp_addr := sub_addr src, mp_size := sub_size src, mp_pred := sub_pred src,
           mp_value := sub_value src, mp_sample_every := ucast sample\<rparr>)"

text \<open>The loop that copies the subscriptions: \<open>None\<close> when one of them is rejected.\<close>

fun copy_subs :: "u32 \<Rightarrow> (nat \<Rightarrow> mreact_sub) \<Rightarrow> (nat \<Rightarrow> mreact_part) \<Rightarrow> nat list \<Rightarrow> (nat \<Rightarrow> mreact_part) option" where
  "copy_subs cf subs parts [] = Some parts"
| "copy_subs cf subs parts (i # is) =
     (if sub_ok (subs i) then copy_subs cf subs (parts(i := sub_part cf (subs i))) is else None)"

definition mreact_subscribe_current ::
  "user_mem \<Rightarrow> sched \<Rightarrow> mreact \<Rightarrow> (nat \<Rightarrow> mreact_sub) option \<Rightarrow> u32 \<Rightarrow> bool \<Rightarrow> u32 \<Rightarrow> bool \<Rightarrow> (errno + u32) \<times> mreact" where
  "mreact_subscribe_current rd s m subs count require_all cf out =
     (case current_task s of
        None \<Rightarrow> (Inl EPERM, m)
      | Some c \<Rightarrow>
          if \<not> sched_task_is_user s (Some c) then (Inl EPERM, m)
          else
            (case subs of
               None \<Rightarrow> (Inl EINVAL, m)
             | Some subs \<Rightarrow>
                 if count = 0 \<or> count > MREACT_MAX_SUBS \<or> \<not> out then (Inl EINVAL, m)
                 else
                   (case mreact_alloc_handle m of
                      None \<Rightarrow> (Inl ENOSPC, m)
                    | Some (i, m) \<Rightarrow>
                        (let st = (mreact_handles m i)\<lparr>mh_owner_pid := t_pid (task_pool s c),
                               mh_space := sched_task_space s (Some c), mh_require_all := require_all,
                               mh_part_count := ucast count, mh_persistent := cf AND MREACT_PERSISTENT \<noteq> 0,
                               mh_level := cf AND MREACT_LEVEL \<noteq> 0\<rparr>;
                             st = (if cf AND MREACT_PERSISTENT = 0 \<and> cf AND MREACT_ONE_SHOT = 0
                                   then st\<lparr>mh_persistent := False\<rparr> else st)
                         in case copy_subs cf subs (mh_parts st) [0..<unat count] of
                              None \<Rightarrow> (Inl EINVAL, mreact_free_handle m i)
                            | Some parts \<Rightarrow>
                                (case mreact_handle_truth rd (st\<lparr>mh_parts := parts\<rparr>) of
                                   (Inl _, _) \<Rightarrow> (Inl EFAULT, mreact_free_handle m i)
                                 | (Inr initial_truth, st) \<Rightarrow>
                                     (let st = st\<lparr>mh_last_truth := initial_truth\<rparr>;
                                          st = (if mh_level st \<and> initial_truth
                                                then (let st = st\<lparr>mh_trigger_count := 1\<rparr>
                                                      in if \<not> mh_persistent st then st\<lparr>mh_armed := False\<rparr> else st)
                                                else st)
                                      in (Inr (mh_handle st), set_handle m i st)))))))"

subsection \<open>Waiting\<close>

datatype mreact_turn = Returns "errno + unit" | Goes_on nat

definition mreact_consume :: "mreact \<Rightarrow> nat \<Rightarrow> mreact_handle \<Rightarrow> mreact" where
  "mreact_consume m i st =
     (let st = st\<lparr>mh_trigger_count := mh_trigger_count st - 1\<rparr>
      in if \<not> mh_persistent st \<and> \<not> mh_armed st \<and> mh_trigger_count st = 0
         then mreact_free_handle m i else set_handle m i st)"

definition mreact_wait_current :: "user_mem \<Rightarrow> sched \<Rightarrow> mreact \<Rightarrow> u32 \<Rightarrow> mreact_turn \<times> mreact" where
  "mreact_wait_current rd s m handle =
     (case mreact_find_handle m handle of
        None \<Rightarrow> (Returns (Inl ENOENT), m)
      | Some i \<Rightarrow>
          (let st = mreact_handles m i
           in if \<not> mreact_is_owner s st then (Returns (Inl EPERM), m)
              else if mh_trigger_count st \<noteq> 0 then (Returns (Inr ()), mreact_consume m i st)
              else if mh_level st \<and> mh_armed st then
                (case mreact_handle_truth rd st of
                   (Inr True, st) \<Rightarrow> (Returns (Inr ()), set_handle m i st)
                 | (_, st) \<Rightarrow> (Goes_on i, set_handle m i st))
              else (Goes_on i, m)))"

definition mreact_deadline :: "u64 \<Rightarrow> u64 \<Rightarrow> u64" where
  "mreact_deadline now timeout_ns =
     (if timeout_ns \<noteq> MREACT_WAIT_FOREVER_NS then now + mreact_timeout_to_ms timeout_ns else 0)"

text \<open>
  One turn of the loop: \<open>pending\<close> is \<^verbatim>\<open>signal_has_unblocked_pending\<close>, \<open>now\<close> and \<open>deadline\<close> values
  of the timer. \<open>Goes_on\<close> means that the task yields and takes another turn.
\<close>

definition mreact_wait_poll ::
  "user_mem \<Rightarrow> sched \<Rightarrow> mreact \<Rightarrow> nat \<Rightarrow> bool \<Rightarrow> u64 \<Rightarrow> u64 \<Rightarrow> u64 \<Rightarrow> (mreact_turn \<times> sched \<times> mreact) option" where
  "mreact_wait_poll rd s m i pending timeout_ns now deadline =
     (let st = mreact_handles m i
      in if \<not> mh_active st then Some (Returns (Inl ENOENT), s, m)
         else if pending then Some (Returns (Inl EINTR), s, m)
         else
           (let st = (if mh_armed st
                      then (case mreact_handle_truth rd st of
                              (Inr True, st) \<Rightarrow> (mreact_fire st)\<lparr>mh_last_truth := True\<rparr>
                            | (_, st) \<Rightarrow> st)
                      else st);
                m = set_handle m i st
            in if mh_trigger_count st \<noteq> 0 then Some (Returns (Inr ()), s, mreact_consume m i st)
               else if timeout_ns \<noteq> MREACT_WAIT_FOREVER_NS \<and> now \<ge> deadline then Some (Returns (Inl EAGAIN), s, m)
               else do { s \<leftarrow> sched_yield s; Some (Goes_on i, s, m) }))"

definition mreact_cancel_current :: "sched \<Rightarrow> mreact \<Rightarrow> u32 \<Rightarrow> (errno + unit) \<times> mreact" where
  "mreact_cancel_current s m handle =
     (case mreact_find_handle m handle of
        None \<Rightarrow> (Inl ENOENT, m)
      | Some i \<Rightarrow>
          if \<not> mreact_is_owner s (mreact_handles m i) then (Inl EPERM, m)
          else (Inr (), mreact_free_handle m i))"

subsection \<open>What the conditions mean\<close>

text \<open>
  The reference: whether a condition holds for the value \<open>raw\<close> read now, given what was read
  last. The first reading never counts as a change; with sampling \<open>n\<close> only every \<open>n\<close>-th change is looked at.
\<close>

definition part_skips :: "mreact_part \<Rightarrow> u64 \<Rightarrow> bool" where
  "part_skips p raw \<longleftrightarrow> mp_initialized p \<and> raw \<noteq> mp_last_raw p \<and> mp_sample_every p > 1 \<and>
     mp_sample_count p + 1 < mp_sample_every p"

definition part_holds :: "mreact_part \<Rightarrow> u64 \<Rightarrow> bool" where
  "part_holds p raw \<longleftrightarrow> \<not> part_skips p raw \<and> mreact_pred_eval p raw (mp_initialized p \<and> raw \<noteq> mp_last_raw p)"

definition mreact_cond :: "mreact_handle \<Rightarrow> (nat \<Rightarrow> u64) \<Rightarrow> bool" where
  "mreact_cond st raw \<longleftrightarrow>
     (if mh_require_all st then \<forall>i < unat (mh_part_count st). part_holds (mh_parts st i) (raw i)
      else \<exists>i < unat (mh_part_count st). part_holds (mh_parts st i) (raw i))"

lemma pred_eval_cong: "mp_pred p = mp_pred q \<Longrightarrow> mp_value p = mp_value q \<Longrightarrow> mreact_pred_eval p = mreact_pred_eval q"
  by (simp add: mreact_pred_eval_def fun_eq_iff)

lemma part_truth_holds:
  assumes "mreact_read_raw rd space (mp_addr p) (mp_size p) = Inr raw"
  shows "fst (mreact_part_truth rd p space) = Inr (part_holds p raw)"
    and "mp_last_raw (snd (mreact_part_truth rd p space)) = raw"
    and "mp_initialized (snd (mreact_part_truth rd p space))"
  using assms pred_eval_cong [of "p\<lparr>mp_sample_count := x\<rparr>" p for x]
  by (auto simp: mreact_part_truth_def part_holds_def part_skips_def Let_def)

text \<open>The loop counts the conditions that hold; it visits each part once.\<close>

lemma truth_loop_counts:
  assumes "distinct is" "\<forall>i \<in> set is. mreact_read_raw rd space (mp_addr (parts i)) (mp_size (parts i)) = Inr (raw i)"
  shows "\<exists>parts'. mreact_truth_loop rd space parts is n = (Inr (n + of_nat (length (filter (\<lambda>i. part_holds (parts i) (raw i)) is))), parts')"
  using assms
proof (induction "is" arbitrary: parts n)
  case (Cons i "is")
  obtain p where r: "mreact_part_truth rd (parts i) space = (Inr (part_holds (parts i) (raw i)), p)"
    using part_truth_holds(1) [of rd space "parts i" "raw i"] Cons.prems(2)
    by (cases "mreact_part_truth rd (parts i) space") simp
  have same: "filter (\<lambda>j. part_holds ((parts(i := p)) j) (raw j)) is = filter (\<lambda>j. part_holds (parts j) (raw j)) is"
    using Cons.prems(1) by (intro filter_cong) auto
  have d: "distinct is" using Cons.prems(1) by simp
  have read: "\<forall>j \<in> set is. mreact_read_raw rd space (mp_addr ((parts(i := p)) j)) (mp_size ((parts(i := p)) j)) = Inr (raw j)"
    using Cons.prems by auto
  obtain parts' where "mreact_truth_loop rd space (parts(i := p)) is (if part_holds (parts i) (raw i) then n + 1 else n) =
    (Inr ((if part_holds (parts i) (raw i) then n + 1 else n) + of_nat (length (filter (\<lambda>j. part_holds (parts j) (raw j)) is))), parts')"
    using Cons.IH [OF d read, of "if part_holds (parts i) (raw i) then n + 1 else n", unfolded same] by (elim exE)
  then show ?case unfolding mreact_truth_loop.simps r prod.case sum.case
    by (intro exI [of _ parts']) (simp add: add.assoc split: if_splits)
qed simp

lemma handle_truth_cond:
  assumes "mh_space st \<noteq> None" "mh_part_count st \<noteq> 0"
    and read: "\<forall>i < unat (mh_part_count st). mreact_read_raw rd (mh_space st) (mp_addr (mh_parts st i)) (mp_size (mh_parts st i)) = Inr (raw i)"
  shows "\<exists>parts. mreact_handle_truth rd st = (Inr (mreact_cond st raw), st\<lparr>mh_parts := parts\<rparr>)"
proof -
  let ?n = "unat (mh_part_count st)" and ?P = "\<lambda>i. part_holds (mh_parts st i) (raw i)"
  let ?c = "length (filter ?P [0..<?n])"
  obtain parts where l: "mreact_truth_loop rd (mh_space st) (mh_parts st) [0..<?n] 0 = (Inr (of_nat ?c), parts)"
    using truth_loop_counts [of "[0..<?n]" rd "mh_space st" "mh_parts st" raw 0] read by auto
  have n: "?n < 256" using unsigned_less [of "mh_part_count st"] by simp
  have c: "?c \<le> ?n" using length_filter_le [of ?P "[0..<?n]"] by simp
  have m: "?c mod 4294967296 = ?c" by (rule mod_less) (use n c in linarith)
  have m2: "?n mod 4294967296 = ?n" by (rule mod_less) (use n in linarith)
  have "(of_nat ?c :: u32) = ucast (mh_part_count st) \<longleftrightarrow> ?c = ?n"
    by (simp add: word_unat_eq_iff unat_of_nat unsigned_ucast_eq take_bit_eq_mod m m2)
  also have "\<dots> \<longleftrightarrow> (\<forall>i < ?n. ?P i)"
    using sum_length_filter_compl [of ?P "[0..<?n]"] filter_empty_conv [of "\<lambda>i. \<not> ?P i" "[0..<?n]"] by fastforce
  finally have all: "(of_nat ?c :: u32) = ucast (mh_part_count st) \<longleftrightarrow> (\<forall>i < ?n. ?P i)" .
  have "(of_nat ?c :: u32) \<noteq> 0 \<longleftrightarrow> ?c \<noteq> 0"
    by (simp add: word_unat_eq_iff unat_of_nat m)
  also have "\<dots> \<longleftrightarrow> (\<exists>i < ?n. ?P i)" by (auto simp: filter_empty_conv)
  finally show ?thesis using assms(1,2) l all by (intro exI [of _ parts]) (simp add: mreact_handle_truth_def mreact_cond_def)
qed


definition mreact_demo :: mreact where
  "mreact_demo = set_handle mreact_init 0 (zero_handle\<lparr>mh_handle := 1, mh_space := Some 5, mh_active := True, mh_armed := True,
     mh_part_count := 1, mh_parts := (\<lambda>_. zero_part\<lparr>mp_addr := 0x7FC0000000, mp_size := 4, mp_pred := MREACT_GT, mp_value := 80\<rparr>)\<rparr>)"


end
