(* ===== verification/Ring.thy ===== *)
theory Ring
  imports Prelude
begin

text \<open>
  The circular doubly linked list with a sentinel of \<^verbatim>\<open>kernel/pmm.c\<close>. The \<^verbatim>\<open>next\<close> and
  \<^verbatim>\<open>prev\<close> fields are two maps over an arbitrary type of nodes; \<open>ring\<close> says that the list
  behind a sentinel is a given list of nodes, in both directions.
\<close>

record 'n ring_links =
  lnext :: "'n \<Rightarrow> 'n"
  lprev :: "'n \<Rightarrow> 'n"

definition list_init :: "'n ring_links \<Rightarrow> 'n \<Rightarrow> 'n ring_links" where
  "list_init l s = l\<lparr>lnext := (lnext l)(s := s), lprev := (lprev l)(s := s)\<rparr>"

definition list_empty :: "'n ring_links \<Rightarrow> 'n \<Rightarrow> bool" where
  "list_empty l s \<longleftrightarrow> lnext l s = s"

definition list_push :: "'n ring_links \<Rightarrow> 'n \<Rightarrow> 'n \<Rightarrow> 'n ring_links" where
  "list_push l s n =
     (let l = l\<lparr>lnext := (lnext l)(n := lnext l s)\<rparr>;
          l = l\<lparr>lprev := (lprev l)(n := s)\<rparr>;
          l = l\<lparr>lprev := (lprev l)(lnext l s := n)\<rparr>
      in l\<lparr>lnext := (lnext l)(s := n)\<rparr>)"

definition list_remove :: "'n ring_links \<Rightarrow> 'n \<Rightarrow> 'n ring_links" where
  "list_remove l n =
     (let l = l\<lparr>lnext := (lnext l)(lprev l n := lnext l n)\<rparr>;
          l = l\<lparr>lprev := (lprev l)(lnext l n := lprev l n)\<rparr>
      in l\<lparr>lnext := (lnext l)(n := n), lprev := (lprev l)(n := n)\<rparr>)"

definition list_pop :: "'n ring_links \<Rightarrow> 'n \<Rightarrow> 'n option \<times> 'n ring_links" where
  "list_pop l s =
     (if list_empty l s then (None, l)
      else (let n = lnext l s in (Some n, list_remove l n)))"

subsection \<open>Segments\<close>

fun seg :: "'n ring_links \<Rightarrow> 'n \<Rightarrow> 'n list \<Rightarrow> 'n \<Rightarrow> bool" where
  "seg l a [] b \<longleftrightarrow> lnext l a = b \<and> lprev l b = a"
| "seg l a (x # xs) b \<longleftrightarrow> lnext l a = x \<and> lprev l x = a \<and> seg l x xs b"

definition ring :: "'n ring_links \<Rightarrow> 'n \<Rightarrow> 'n list \<Rightarrow> bool" where
  "ring l s xs \<longleftrightarrow> seg l s xs s \<and> distinct (s # xs)"

lemma seg_append: "seg l a (xs @ y # ys) b \<longleftrightarrow> seg l a xs y \<and> seg l y ys b"
  by (induction xs arbitrary: a) auto

lemma seg_cong:
  "(\<And>x. x \<in> set (a # xs) \<Longrightarrow> lnext l' x = lnext l x) \<Longrightarrow> (\<And>x. x \<in> set (xs @ [b]) \<Longrightarrow> lprev l' x = lprev l x)
   \<Longrightarrow> seg l' a xs b = seg l a xs b"
  by (induction xs arbitrary: a) auto

lemma seg_ends:
  "seg l a xs b \<Longrightarrow> lnext l a = hd (xs @ [b])" "seg l a xs b \<Longrightarrow> lprev l b = last (a # xs)"
  by (induction xs arbitrary: a) auto

text \<open>Closing a segment behind its first node and before its last one.\<close>

lemma seg_replace_first:
  "seg l a xs b \<Longrightarrow> a \<notin> set xs \<Longrightarrow> distinct xs \<Longrightarrow> b \<notin> set xs \<Longrightarrow>
   lnext l' c = hd (xs @ [b]) \<Longrightarrow> lprev l' (hd (xs @ [b])) = c \<Longrightarrow>
   (\<And>x. x \<in> set xs \<Longrightarrow> lnext l' x = lnext l x) \<Longrightarrow>
   (\<And>x. x \<in> set (xs @ [b]) \<Longrightarrow> x \<noteq> hd (xs @ [b]) \<Longrightarrow> lprev l' x = lprev l x) \<Longrightarrow> seg l' c xs b"
proof (cases xs)
  case (Cons y ys)
  assume h: "seg l a xs b" "distinct xs" "b \<notin> set xs" "lnext l' c = hd (xs @ [b])" "lprev l' (hd (xs @ [b])) = c"
    "\<And>x. x \<in> set xs \<Longrightarrow> lnext l' x = lnext l x"
    "\<And>x. x \<in> set (xs @ [b]) \<Longrightarrow> x \<noteq> hd (xs @ [b]) \<Longrightarrow> lprev l' x = lprev l x"
  have "seg l' y ys b = seg l y ys b"
    by (rule seg_cong) (use h(2,3,6,7) Cons in auto)
  with h Cons show ?thesis by simp
qed simp

lemma ring_empty_iff: "ring l s xs \<Longrightarrow> list_empty l s \<longleftrightarrow> xs = []"
  by (cases xs) (auto simp: ring_def list_empty_def)

lemma ring_init: "ring (list_init l s) s []"
  by (simp add: ring_def list_init_def)

lemma ring_init_other: "s \<notin> set (t # ys) \<Longrightarrow> ring l t ys \<Longrightarrow> ring (list_init l s) t ys"
proof -
  assume s: "s \<notin> set (t # ys)" and r: "ring l t ys"
  have "seg (list_init l s) t ys t = seg l t ys t" by (rule seg_cong) (use s in \<open>auto simp: list_init_def\<close>)
  with r show ?thesis by (simp add: ring_def)
qed

lemma list_push_next: "n \<noteq> s \<Longrightarrow> lnext (list_push l s n) = (lnext l)(n := lnext l s, s := n)"
  by (simp add: list_push_def Let_def)

lemma list_push_prev: "n \<noteq> s \<Longrightarrow> lprev (list_push l s n) = (lprev l)(n := s, lnext l s := n)"
  by (simp add: list_push_def Let_def)

lemma ring_push:
  assumes r: "ring l s xs" and n: "n \<noteq> s" "n \<notin> set xs"
  shows "ring (list_push l s n) s (n # xs)"
proof -
  have seg: "seg l s xs s" and d: "distinct (s # xs)" using r by (auto simp: ring_def)
  have h: "lnext l s = hd (xs @ [s])" by (rule seg_ends(1) [OF seg])
  have hn: "hd (xs @ [s]) \<noteq> n" using n by (cases xs) auto
  have "seg (list_push l s n) n xs s"
    by (rule seg_replace_first [OF seg]) (use d n h hn in \<open>auto simp: list_push_next list_push_prev\<close>)
  then show ?thesis using d n h hn by (auto simp: ring_def list_push_next list_push_prev)
qed

lemma ring_push_other:
  assumes "ring l s xs" "ring l t ys" "n \<noteq> s" "set (n # s # xs) \<inter> set (t # ys) = {}"
  shows "ring (list_push l s n) t ys"
proof -
  have "lnext l s \<in> set (s # xs)" using assms(1) by (cases xs) (auto simp: ring_def)
  then have "seg (list_push l s n) t ys t = seg l t ys t"
    by (intro seg_cong) (use assms(3,4) in \<open>auto simp: list_push_next list_push_prev\<close>)
  with assms(2) show ?thesis by (simp add: ring_def)
qed

lemma list_remove_fields:
  "lnext (list_remove l n) = (lnext l)(lprev l n := lnext l n, n := n)"
  "lprev l n \<noteq> n \<Longrightarrow> lprev (list_remove l n) = (lprev l)(lnext l n := lprev l n, n := n)"
  by (simp_all add: list_remove_def Let_def)

lemma seg_replace_last:
  "seg l a xs b \<Longrightarrow> distinct (a # xs) \<Longrightarrow> lnext l' (last (a # xs)) = c \<Longrightarrow> lprev l' c = last (a # xs) \<Longrightarrow>
   (\<And>x. x \<in> set (a # xs) \<Longrightarrow> x \<noteq> last (a # xs) \<Longrightarrow> lnext l' x = lnext l x) \<Longrightarrow>
   (\<And>x. x \<in> set xs \<Longrightarrow> lprev l' x = lprev l x) \<Longrightarrow> seg l' a xs c"
proof (induction xs arbitrary: a)
  case (Cons x xs)
  have "seg l' x xs c" by (rule Cons.IH) (use Cons.prems in auto)
  moreover have "a \<noteq> last (a # x # xs)" using Cons.prems(2) by (metis distinct.simps(2) last_ConsR last_in_set list.discI)
  ultimately show ?case using Cons.prems by auto
qed simp

lemma ring_remove:
  assumes r: "ring l s (xs @ n # ys)"
  shows "ring (list_remove l n) s (xs @ ys)"
    and "lnext l n \<in> set (s # ys)" "lprev l n \<in> set (s # xs)"
proof -
  have sg: "seg l s xs n" "seg l n ys s" and d: "distinct (s # xs @ n # ys)"
    using r by (auto simp: ring_def seg_append)
  have p: "lprev l n = last (s # xs)" and q: "lnext l n = hd (ys @ [s])"
    using seg_ends(2) [OF sg(1)] seg_ends(1) [OF sg(2)] by auto
  have pn: "last (s # xs) \<noteq> n" using d by (metis UnCI distinct.simps(2) distinct_append last_in_set list.discI set_ConsD set_append disjoint_iff list.set_intros(1))
  show "lnext l n \<in> set (s # ys)" unfolding q by (cases ys) auto
  show "lprev l n \<in> set (s # xs)" unfolding p by (rule last_in_set) simp
  let ?l = "list_remove l n"
  have nx: "lnext ?l = (lnext l)(last (s # xs) := hd (ys @ [s]), n := n)"
    and pv: "lprev ?l = (lprev l)(hd (ys @ [s]) := last (s # xs), n := n)"
    using list_remove_fields [of l n] p q pn by auto
  show "ring ?l s (xs @ ys)"
  proof (cases ys)
    case Nil
    have "seg ?l s xs s"
      by (rule seg_replace_last [OF sg(1)]) (use d pn Nil in \<open>auto simp: nx pv\<close>)
    with d Nil show ?thesis by (simp add: ring_def)
  next
    case (Cons y zs)
    have "seg ?l s xs y"
      by (rule seg_replace_last [OF sg(1)]) (use d pn Cons in \<open>auto simp: nx pv\<close>)
    moreover have "last (s # xs) \<notin> set (y # zs)"
      using d Cons last_in_set [of "s # xs"] by auto
    then have "seg ?l y zs s = seg l y zs s"
      by (intro seg_cong) (use d Cons in \<open>auto simp: nx pv\<close>)
    moreover have "seg l y zs s" using sg(2) Cons by simp
    ultimately show ?thesis using d Cons by (auto simp: ring_def seg_append)
  qed
qed

lemma ring_remove_other:
  assumes r: "ring l s (xs @ n # ys)" and t: "ring l t zs" "set (s # xs @ n # ys) \<inter> set (t # zs) = {}"
  shows "ring (list_remove l n) t zs"
proof -
  note m = ring_remove(2,3) [OF r]
  have pn: "lprev l n \<noteq> n" using m(2) r by (auto simp: ring_def)
  have "seg (list_remove l n) t zs t = seg l t zs t"
    by (rule seg_cong) (use m t(2) in \<open>auto simp: list_remove_fields(1) list_remove_fields(2) [OF pn]\<close>)
  then show ?thesis using t(1) by (simp add: ring_def)
qed

lemma ring_pop:
  assumes "ring l s (x # xs)"
  shows "list_pop l s = (Some x, list_remove l x)" "ring (list_remove l x) s xs"
  using assms ring_remove(1) [of l s "[]" x xs] by (auto simp: list_pop_def ring_def list_empty_def Let_def)

end
