(* ===== verification/Pmm.thy ===== *)
theory Pmm
  imports Ring "HOL-Library.Monad_Syntax"
begin

text \<open>
  The physical page allocator, \<^verbatim>\<open>kernel/pmm.c\<close>: a buddy allocator over 131072 pages with
  circular free lists per order, reference counts per page, and the scan that builds the free
  lists at boot. The list nodes live in the free pages themselves; their fields are the links
  of \<open>Ring\<close>, indexed by the physical address. A panic that spins in \<^verbatim>\<open>wfe\<close> is \<open>None\<close>. The
  abstraction is the set of free blocks per order.
\<close>

subsection \<open>Constants and data\<close>

definition PAGE_SIZE :: u64 where "PAGE_SIZE = 4096"

definition PAGE_SHIFT :: nat where "PAGE_SHIFT = 12"

definition PAGE_MASK :: u64 where "PAGE_MASK = NOT (PAGE_SIZE - 1)"

definition PMM_BASE :: u64 where "PMM_BASE = 0x40000000"

definition PMM_END :: u64 where "PMM_END = 0x60000000"

definition PMM_SIZE :: u64 where "PMM_SIZE = PMM_END - PMM_BASE"

definition NUM_PAGES :: nat where "NUM_PAGES = unat (PMM_SIZE div PAGE_SIZE)"

definition MAX_ORDER :: nat where "MAX_ORDER = 11"

definition PA_TO_IDX :: "u64 \<Rightarrow> u32" where
  "PA_TO_IDX pa = ucast (drop_bit PAGE_SHIFT (pa - PMM_BASE))"

definition IDX_TO_PA :: "u32 \<Rightarrow> u64" where
  "IDX_TO_PA i = PMM_BASE + push_bit PAGE_SHIFT (ucast i)"

datatype page_status = PAGE_FREE | PAGE_ALLOC | PAGE_RESERVED | PAGE_SLAB

datatype blk_node = Sent nat | Blk u64

record pmm =
  page_state :: "nat \<Rightarrow> page_status"
  page_ord :: "nat \<Rightarrow> u8"
  page_refs :: "nat \<Rightarrow> u16"
  buddy_links :: "blk_node ring_links"
  buddy_count :: "nat \<Rightarrow> u32"
  total_free_pages :: u32

definition set_page :: "pmm \<Rightarrow> nat \<Rightarrow> page_status \<Rightarrow> u8 \<Rightarrow> pmm" where
  "set_page m i st ord = m\<lparr>page_state := (page_state m)(i := st), page_ord := (page_ord m)(i := ord)\<rparr>"

definition set_refs :: "pmm \<Rightarrow> nat \<Rightarrow> u16 \<Rightarrow> pmm" where
  "set_refs m i r = m\<lparr>page_refs := (page_refs m)(i := r)\<rparr>"

subsection \<open>Blocks\<close>

definition buddy_add_block :: "pmm \<Rightarrow> u64 \<Rightarrow> nat \<Rightarrow> pmm" where
  "buddy_add_block m pa order =
     (let m = set_page m (unat (PA_TO_IDX pa)) PAGE_FREE (of_nat order)
      in m\<lparr>buddy_links := list_push (buddy_links m) (Sent order) (Blk pa),
           buddy_count := (buddy_count m)(order := buddy_count m order + 1),
           total_free_pages := total_free_pages m + push_bit order 1\<rparr>)"

definition buddy_remove_block :: "pmm \<Rightarrow> u64 \<Rightarrow> nat \<Rightarrow> pmm" where
  "buddy_remove_block m pa order =
     set_page
       (m\<lparr>buddy_links := list_remove (buddy_links m) (Blk pa),
          buddy_count := (buddy_count m)(order := buddy_count m order - 1),
          total_free_pages := total_free_pages m - push_bit order 1\<rparr>)
       (unat (PA_TO_IDX pa)) PAGE_ALLOC 0xFF"

definition buddy_addr :: "u64 \<Rightarrow> nat \<Rightarrow> u64" where
  "buddy_addr pa order = IDX_TO_PA (PA_TO_IDX pa XOR push_bit order 1)"

subsection \<open>Building the free lists\<close>

function free_range_order :: "u64 \<Rightarrow> u64 \<Rightarrow> nat \<Rightarrow> nat" where
  "free_range_order start end_pa order =
     (if order < MAX_ORDER - 1 then
        (let next_order = order + 1
         in if PA_TO_IDX start AND push_bit next_order 1 \<noteq> 0 then order
            else if start + push_bit next_order PAGE_SIZE > end_pa then order
            else free_range_order start end_pa next_order)
      else order)"
  by pat_completeness auto
termination
  by (relation "measure (\<lambda>(s, e, order). MAX_ORDER - order)") auto

declare free_range_order.simps [simp del]

partial_function (option) pmm_free_range :: "pmm \<Rightarrow> u64 \<Rightarrow> u64 \<Rightarrow> pmm option" where
  "pmm_free_range m start end_pa =
     (if start < end_pa then
        (let order = free_range_order start end_pa 0
         in pmm_free_range (buddy_add_block m start order) (start + push_bit order PAGE_SIZE) end_pa)
      else Some m)"

subsection \<open>Allocation\<close>

text \<open>The loop that returns the upper halves while the block is larger than asked for.\<close>

fun split_block :: "pmm \<Rightarrow> u64 \<Rightarrow> nat \<Rightarrow> nat \<Rightarrow> pmm" where
  "split_block m pa order 0 = m"
| "split_block m pa order (Suc n) =
     split_block (buddy_add_block m (pa + push_bit (order + n) PAGE_SIZE) (order + n)) pa order n"

definition take_block :: "pmm \<Rightarrow> nat \<Rightarrow> nat \<Rightarrow> (u64 \<times> pmm) option" where
  "take_block m order found =
     (case list_pop (buddy_links m) (Sent found) of
        (Some (Blk pa), l) \<Rightarrow>
          (let m = m\<lparr>buddy_links := l, buddy_count := (buddy_count m)(found := buddy_count m found - 1),
                      total_free_pages := total_free_pages m - push_bit found 1\<rparr>
           in Some (pa, split_block m pa order (found - order)))
      | _ \<Rightarrow> None)"

definition phys_alloc_page :: "pmm \<Rightarrow> (u64 \<times> pmm) option" where
  "phys_alloc_page m =
     (case for_find (\<lambda>k. \<not> list_empty (buddy_links m) (Sent k)) 0 MAX_ORDER of
        None \<Rightarrow> None
      | Some found \<Rightarrow>
          (case take_block m 0 found of
             None \<Rightarrow> None
           | Some (pa, m) \<Rightarrow>
               (let idx = unat (PA_TO_IDX pa)
                in Some (pa, set_refs (set_page m idx PAGE_ALLOC 0xFF) idx 1))))"

definition mark_alloc :: "nat \<Rightarrow> pmm \<Rightarrow> nat \<Rightarrow> pmm" where
  "mark_alloc idx m i = set_refs (set_page m (idx + i) PAGE_ALLOC 0xFF) (idx + i) 1"

definition phys_alloc_pages :: "pmm \<Rightarrow> nat \<Rightarrow> (u64 \<times> pmm) option" where
  "phys_alloc_pages m order =
     (if order \<ge> MAX_ORDER then None
      else
        (case for_find (\<lambda>k. \<not> list_empty (buddy_links m) (Sent k)) order MAX_ORDER of
           None \<Rightarrow> None
         | Some found \<Rightarrow>
             (case take_block m order found of
                None \<Rightarrow> None
              | Some (pa, m) \<Rightarrow>
                  (let idx = unat (PA_TO_IDX pa);
                       m = set_refs (set_page m idx PAGE_ALLOC 0xFF) idx 1
                   in Some (pa, foldl (mark_alloc idx) m [1..<2 ^ order])))))"

subsection \<open>Reference counts and release\<close>

definition in_ram :: "u64 \<Rightarrow> bool" where
  "in_ram pa \<longleftrightarrow> \<not> (pa < PMM_BASE \<or> pa \<ge> PMM_END)"

definition phys_retain_page :: "pmm \<Rightarrow> u64 \<Rightarrow> pmm" where
  "phys_retain_page m pa =
     (if \<not> in_ram pa then m
      else
        (let idx = unat (PA_TO_IDX (pa AND PAGE_MASK))
         in if page_state m idx = PAGE_RESERVED \<or> page_state m idx = PAGE_FREE then m
            else if page_refs m idx = 0 then set_refs m idx 1
            else set_refs m idx (page_refs m idx + 1)))"

definition phys_page_refcount :: "pmm \<Rightarrow> u64 \<Rightarrow> u16" where
  "phys_page_refcount m pa = (if \<not> in_ram pa then 0 else page_refs m (unat (PA_TO_IDX (pa AND PAGE_MASK))))"

text \<open>The coalescing loop: the memory, the address and the order it stops with.\<close>

function coalesce :: "pmm \<Rightarrow> u64 \<Rightarrow> nat \<Rightarrow> pmm \<times> u64 \<times> nat" where
  "coalesce m pa order =
     (if order < MAX_ORDER - 1 then
        (let b_pa = buddy_addr pa order; b_idx = unat (PA_TO_IDX b_pa)
         in if b_pa < PMM_BASE \<or> b_pa \<ge> PMM_END then (m, pa, order)
            else if page_state m b_idx \<noteq> PAGE_FREE then (m, pa, order)
            else if page_ord m b_idx \<noteq> of_nat order then (m, pa, order)
            else if page_refs m b_idx \<noteq> 0 then (m, pa, order)
            else if b_pa < PMM_BASE then (m, pa, order)
            else coalesce (buddy_remove_block m b_pa order) (if b_pa < pa then b_pa else pa) (order + 1))
      else (m, pa, order))"
  by pat_completeness auto
termination
  by (relation "measure (\<lambda>(m, pa, order). MAX_ORDER - order)") auto

declare coalesce.simps [simp del]

definition phys_free_page :: "pmm \<Rightarrow> u64 \<Rightarrow> pmm" where
  "phys_free_page m pa =
     (if \<not> in_ram pa then m
      else
        (let pa = pa AND PAGE_MASK; idx = unat (PA_TO_IDX pa)
         in if page_state m idx = PAGE_RESERVED \<or> page_state m idx = PAGE_FREE then m
            else if page_refs m idx > 1 then set_refs m idx (page_refs m idx - 1)
            else (case coalesce (set_refs m idx 0) pa 0 of
                    (m, pa, order) \<Rightarrow> buddy_add_block m pa order)))"

definition phys_free_pages :: "pmm \<Rightarrow> u64 \<Rightarrow> nat \<Rightarrow> pmm" where
  "phys_free_pages m pa order = foldl (\<lambda>m i. phys_free_page m (pa + of_nat i * PAGE_SIZE)) m [0..<2 ^ order]"

subsection \<open>Boot\<close>

text \<open>
  The first three steps of \<^verbatim>\<open>pmm_init\<close>: empty lists, the pages of the kernel image reserved,
  the rest of the memory given to the lists. \<open>kernel_end\<close> is the address of the linker's
  \<^verbatim>\<open>__heap_start\<close>; \<open>pmm_bss\<close> is the zeroed memory the boot code leaves.
\<close>

definition pmm_bss :: pmm where
  "pmm_bss = \<lparr>page_state = (\<lambda>_. PAGE_FREE), page_ord = (\<lambda>_. 0), page_refs = (\<lambda>_. 0),
     buddy_links = \<lparr>lnext = (\<lambda>_. Blk 0), lprev = (\<lambda>_. Blk 0)\<rparr>, buddy_count = (\<lambda>_. 0), total_free_pages = 0\<rparr>"

definition pmm_init_lists :: "pmm \<Rightarrow> pmm" where
  "pmm_init_lists m = m\<lparr>buddy_links := foldl (\<lambda>l k. list_init l (Sent k)) (buddy_links m) [0..<MAX_ORDER]\<rparr>"

definition pmm_reserve :: "pmm \<Rightarrow> nat \<Rightarrow> pmm" where
  "pmm_reserve m reserved = foldl (\<lambda>m i. m\<lparr>page_state := (page_state m)(i := PAGE_RESERVED)\<rparr>) m [0..<reserved]"

definition pmm_init_buddy :: "pmm \<Rightarrow> u64 \<Rightarrow> pmm option" where
  "pmm_init_buddy m kernel_end =
     pmm_free_range (pmm_reserve (pmm_init_lists m) (unat (PA_TO_IDX kernel_end))) kernel_end PMM_END"

subsection \<open>Page indices\<close>

lemma NUM_PAGES_eq [simp]: "NUM_PAGES = 131072"
  by (simp add: NUM_PAGES_def PMM_SIZE_def PMM_END_def PMM_BASE_def PAGE_SIZE_def)

definition page_pa :: "nat \<Rightarrow> u64" where
  "page_pa i = IDX_TO_PA (of_nat i)"


lemma page_pa_eq: "i < 2 ^ 32 \<Longrightarrow> page_pa i = of_nat (0x40000000 + 4096 * i)"
proof -
  assume i: "i < 2 ^ 32"
  have "unat (ucast (of_nat i :: u32) :: u64) = unat (of_nat i :: u64)"
    using i by (simp add: unsigned_ucast_eq unat_of_nat take_bit_eq_mod)
  then have "(ucast (of_nat i :: u32) :: u64) = of_nat i" by (simp only: word_unat_eq_iff)
  then show ?thesis
    by (simp add: page_pa_def IDX_TO_PA_def PMM_BASE_def PAGE_SHIFT_def push_bit_eq_mult)
qed

lemma unat_page_pa: "i < 262144 \<Longrightarrow> unat (page_pa i) = 0x40000000 + 4096 * i"
proof -
  assume i: "i < 262144"
  then have e: "page_pa i = of_nat (0x40000000 + 4096 * i)" by (intro page_pa_eq) simp
  show ?thesis unfolding e using i by (simp only: unat_of_nat) simp
qed

lemma page_pa_idx: "i < 262144 \<Longrightarrow> PA_TO_IDX (page_pa i) = of_nat i"
proof -
  assume i: "i < 262144"
  have "unat (page_pa i - PMM_BASE) = 4096 * i"
    using i unat_page_pa [OF i] by (simp add: unat_sub PMM_BASE_def word_le_nat_alt)
  then have "unat (drop_bit 12 (page_pa i - PMM_BASE)) = i"
    using i by (simp add: drop_bit_eq_div unat_div)
  then have "unat (PA_TO_IDX (page_pa i)) = i"
    using i by (simp add: PA_TO_IDX_def PAGE_SHIFT_def unsigned_ucast_eq take_bit_eq_mod)
  then show ?thesis using i by (simp add: word_unat_eq_iff unat_of_nat)
qed

lemma page_pa_unat_idx [simp]: "i < 262144 \<Longrightarrow> unat (PA_TO_IDX (page_pa i)) = i"
  by (simp add: page_pa_idx unat_of_nat)

lemma page_pa_inj: "i < 262144 \<Longrightarrow> j < 262144 \<Longrightarrow> page_pa i = page_pa j \<longleftrightarrow> i = j"
  using page_pa_unat_idx by metis

lemma page_pa_less: "i < 262144 \<Longrightarrow> j < 262144 \<Longrightarrow> page_pa i < page_pa j \<longleftrightarrow> i < j"
  by (simp add: word_less_nat_alt unat_page_pa)

lemma page_pa_add:
  "i + 2 ^ k < 262144 \<Longrightarrow> page_pa i + push_bit k PAGE_SIZE = page_pa (i + 2 ^ k)"
proof -
  assume h: "i + 2 ^ k < 262144"
  then have "i < 2 ^ 32" "i + 2 ^ k < 2 ^ 32" by simp_all
  then show ?thesis by (simp add: page_pa_eq PAGE_SIZE_def push_bit_eq_mult algebra_simps)
qed

lemma page_pa_in_ram: "i < NUM_PAGES \<Longrightarrow> in_ram (page_pa i)"
  by (simp add: in_ram_def word_less_nat_alt word_le_nat_alt unat_page_pa PMM_BASE_def PMM_END_def)

lemma page_pa_mask: "i < NUM_PAGES \<Longrightarrow> page_pa i AND PAGE_MASK = page_pa i"
proof -
  assume i: "i < NUM_PAGES"
  have m: "PAGE_MASK = NOT (mask 12)" by (simp add: PAGE_MASK_def PAGE_SIZE_def mask_eq_exp_minus_1)
  have "unat (page_pa i) mod 4096 = 0" using i by (simp add: unat_page_pa)
  then have "unat (take_bit 12 (page_pa i)) = 0" by (simp add: take_bit_eq_mod unat_mod)
  then have "take_bit 12 (page_pa i) = 0" by (simp only: unat_eq_zero)
  then have low: "\<not> bit (page_pa i) n" if "n < 12" for n
    using that bit_take_bit_iff [of 12 "page_pa i" n] by simp
  show ?thesis unfolding m by (rule bit_eqI) (use low in \<open>auto simp: bit_simps\<close>)
qed

text \<open>The buddy of an aligned block is the other half of the aligned block of the next order.\<close>

definition buddy_of :: "nat \<Rightarrow> nat \<Rightarrow> nat" where
  "buddy_of i k = (if even (i div 2 ^ k) then i + 2 ^ k else i - 2 ^ k)"

lemma buddy_of_xor:
  assumes "2 ^ k dvd i" shows "i XOR 2 ^ k = buddy_of i k"
proof -
  obtain j where j: "i = 2 ^ k * j" using assms by auto
  have x: "j XOR 1 = (if even j then j + 1 else j - 1)"
    using xor_one_eq [of j] by auto
  have "i XOR 2 ^ k = push_bit k j XOR push_bit k 1" by (simp add: j push_bit_eq_mult mult.commute)
  also have "\<dots> = push_bit k (j XOR 1)" by (simp add: push_bit_xor)
  also have "\<dots> = 2 ^ k * (if even j then j + 1 else j - 1)" by (simp only: x push_bit_eq_mult mult.commute)
  finally show ?thesis by (simp add: buddy_of_def j algebra_simps)
qed

lemma buddy_addr_page:
  assumes "i < NUM_PAGES" "2 ^ k dvd i" "k < 11"
  shows "buddy_addr (page_pa i) k = page_pa (buddy_of i k)" "buddy_of i k < NUM_PAGES"
proof -
  have "i XOR 2 ^ k < 2 ^ 17"
  proof -
    have "i < 2 ^ 17" using assms(1) by simp
    moreover have "(2 :: nat) ^ k < 2 ^ 17" using assms(3) by (intro power_strict_increasing) auto
    ultimately have "take_bit 17 i = i" "take_bit 17 (2 ^ k) = (2 ^ k :: nat)"
      by (simp_all only: take_bit_nat_eq_self_iff)
    then have "take_bit 17 (i XOR 2 ^ k) = i XOR 2 ^ k" by (simp only: take_bit_xor)
    then show ?thesis by (simp only: take_bit_nat_eq_self_iff)
  qed
  then show lt: "buddy_of i k < NUM_PAGES" by (simp add: buddy_of_xor [OF assms(2)])
  have "(of_nat i :: u32) XOR push_bit k 1 = of_nat (i XOR 2 ^ k)"
    by (simp add: of_nat_xor_eq push_bit_eq_mult)
  then show "buddy_addr (page_pa i) k = page_pa (buddy_of i k)"
    using assms(1) by (simp add: buddy_addr_def page_pa_idx buddy_of_xor [OF assms(2)] page_pa_def [of "buddy_of i k"])
qed

subsection \<open>Aligned blocks\<close>

definition blk :: "nat \<Rightarrow> nat \<Rightarrow> nat set" where
  "blk i k = {i..<i + 2 ^ k}"

lemma blk_card [simp]: "card (blk i k) = 2 ^ k" and blk_finite [simp]: "finite (blk i k)"
  and blk_head [simp]: "i \<in> blk i k" and blk_0 [simp]: "blk i 0 = {i}"
  by (auto simp: blk_def)

lemma blk_split: "blk i (Suc k) = blk i k \<union> blk (i + 2 ^ k) k" "blk i k \<inter> blk (i + 2 ^ k) k = {}"
  by (auto simp: blk_def)

lemma blk_mem_div: "2 ^ k dvd i \<Longrightarrow> p \<in> blk i k \<longleftrightarrow> p div 2 ^ k = i div 2 ^ k"
proof -
  assume "2 ^ k dvd i"
  then obtain j where j: "i = 2 ^ k * j" by auto
  have "p \<in> blk i k \<longleftrightarrow> p div 2 ^ k = j"
    by (auto simp: blk_def j div_nat_eqI dividend_less_times_div) (metis dividend_less_times_div mult_Suc_right add.commute mult.commute zero_less_numeral zero_less_power div_times_less_eq_dividend)+
  then show ?thesis by (simp add: j)
qed

lemma buddy_cases:
  assumes "2 ^ k dvd i"
  obtains (low) "buddy_of i k = i + 2 ^ k" "2 ^ Suc k dvd i"
    | (high) "i = buddy_of i k + 2 ^ k" "2 ^ Suc k dvd buddy_of i k"
proof -
  obtain j where j: "i = 2 ^ k * j" using assms by auto
  show ?thesis
  proof (cases "even j")
    case True
    then obtain h where "j = 2 * h" by auto
    then show ?thesis using low by (simp add: buddy_of_def j)
  next
    case False
    then obtain h where "j = 2 * h + 1" using oddE by blast
    then show ?thesis using high by (simp add: buddy_of_def j algebra_simps)
  qed
qed

lemma buddy_merge:
  assumes "2 ^ k dvd i"
  shows "blk (min i (buddy_of i k)) (Suc k) = blk i k \<union> blk (buddy_of i k) k"
    "blk i k \<inter> blk (buddy_of i k) k = {}" "2 ^ Suc k dvd min i (buddy_of i k)"
    "2 ^ k dvd buddy_of i k" "buddy_of i k \<noteq> i"
proof -
  let ?b = "buddy_of i k"
  have "blk (min i ?b) (Suc k) = blk i k \<union> blk ?b k \<and> blk i k \<inter> blk ?b k = {} \<and>
      2 ^ Suc k dvd min i ?b \<and> 2 ^ k dvd ?b \<and> ?b \<noteq> i"
  proof (cases rule: buddy_cases [OF assms])
    case 1
    then have "min i ?b = i" by simp
    then show ?thesis unfolding 1(1) using 1(2) blk_split [of i k] assms by (simp add: dvd_add)
  next
    case 2
    then have m: "min i ?b = ?b" by (simp add: min_def)
    have "?b \<noteq> i" using 2(1) by (metis add_cancel_right_right power_not_zero zero_neq_numeral)
    moreover have "blk ?b (Suc k) = blk i k \<union> blk ?b k" "blk i k \<inter> blk ?b k = {}"
      using blk_split [of ?b k] unfolding 2(1) [symmetric] by auto
    moreover have "2 ^ k dvd ?b" using 2(2) by (metis dvd_mult_right power_Suc)
    ultimately show ?thesis unfolding m using 2(2) by blast
  qed
  then show "blk (min i ?b) (Suc k) = blk i k \<union> blk ?b k" "blk i k \<inter> blk ?b k = {}"
    "2 ^ Suc k dvd min i ?b" "2 ^ k dvd ?b" "?b \<noteq> i" by blast+
qed

text \<open>A larger aligned block that holds the buddy holds the block too.\<close>

lemma buddy_same_block:
  assumes "2 ^ k dvd i" "2 ^ m dvd j" "k < m" "buddy_of i k \<in> blk j m"
  shows "i \<in> blk j m"
proof -
  let ?b = "buddy_of i k" let ?h = "min i ?b"
  have h: "2 ^ Suc k dvd ?h" "i \<in> blk ?h (Suc k)" "?b \<in> blk ?h (Suc k)"
    using buddy_merge [OF assms(1)] by auto
  have e: "i div 2 ^ Suc k = ?b div 2 ^ Suc k" using h blk_mem_div [OF h(1)] by metis
  have d: "x div 2 ^ m = x div 2 ^ Suc k div 2 ^ (m - Suc k)" for x :: nat
    using assms(3) by (simp add: div_mult2_eq [symmetric] power_add [symmetric] del: power_Suc)
  then have "i div 2 ^ m = ?b div 2 ^ m" using e by metis
  then show ?thesis using assms(2,4) blk_mem_div by metis
qed

subsection \<open>The free lists\<close>

type_synonym free_lists = "nat \<Rightarrow> nat list"

definition nodes :: "nat list \<Rightarrow> blk_node list" where
  "nodes is = map (\<lambda>i. Blk (page_pa i)) is"

definition rings :: "blk_node ring_links \<Rightarrow> free_lists \<Rightarrow> bool" where
  "rings l F \<longleftrightarrow> (\<forall>k < MAX_ORDER. ring l (Sent k) (nodes (F k)) \<and> set (F k) \<subseteq> {..<NUM_PAGES}) \<and>
     (\<forall>j < MAX_ORDER. \<forall>k < MAX_ORDER. j \<noteq> k \<longrightarrow> set (F j) \<inter> set (F k) = {})"

lemma nodes_set: "set is \<subseteq> {..<NUM_PAGES} \<Longrightarrow> i < NUM_PAGES \<Longrightarrow> Blk (page_pa i) \<in> set (nodes is) \<longleftrightarrow> i \<in> set is"
proof -
  assume h: "set is \<subseteq> {..<NUM_PAGES}" "i < NUM_PAGES"
  have "page_pa i = page_pa x \<longleftrightarrow> i = x" if "x \<in> set is" for x
    using h that by (intro page_pa_inj) auto
  then show ?thesis by (auto simp: nodes_def)
qed

lemma nodes_disjoint:
  "set is \<subseteq> {..<NUM_PAGES} \<Longrightarrow> set js \<subseteq> {..<NUM_PAGES} \<Longrightarrow> set is \<inter> set js = {} \<Longrightarrow> set (nodes is) \<inter> set (nodes js) = {}"
proof -
  assume h: "set is \<subseteq> {..<NUM_PAGES}" "set js \<subseteq> {..<NUM_PAGES}" "set is \<inter> set js = {}"
  have "Blk (page_pa x) \<notin> set (nodes is)" if "x \<in> set js" for x
    using nodes_set [OF h(1), of x] h(2,3) that by blast
  then have "n \<notin> set (nodes is)" if "n \<in> set (nodes js)" for n using that by (auto simp: nodes_def [of js])
  then show ?thesis by blast
qed

lemma nodes_sent [simp]: "Sent k \<notin> set (nodes is)"
  by (auto simp: nodes_def)

lemma ringsD:
  assumes "rings l F" "k < MAX_ORDER"
  shows "ring l (Sent k) (nodes (F k))" "set (F k) \<subseteq> {..<NUM_PAGES}" "distinct (F k)"
    "j < MAX_ORDER \<Longrightarrow> j \<noteq> k \<Longrightarrow> set (F j) \<inter> set (F k) = {}"
  using assms by (auto simp: rings_def ring_def nodes_def distinct_map)

lemma rings_push:
  assumes r: "rings l F" and k: "k < MAX_ORDER" and i: "i < NUM_PAGES" "\<And>j. j < MAX_ORDER \<Longrightarrow> i \<notin> set (F j)"
  shows "rings (list_push l (Sent k) (Blk (page_pa i))) (F(k := i # F k))"
proof -
  have "ring (list_push l (Sent k) (Blk (page_pa i))) (Sent j) (nodes ((F(k := i # F k)) j))" if j: "j < MAX_ORDER" for j
  proof (cases "j = k")
    case True
    then show ?thesis
      using ring_push [OF ringsD(1) [OF r k], of "Blk (page_pa i)"] nodes_set [OF ringsD(2) [OF r k] i(1)] i(2) [OF k]
      by (simp add: nodes_def)
  next
    case False
    have "set (nodes (F k)) \<inter> set (nodes (F j)) = {}"
      using nodes_disjoint [OF ringsD(2) [OF r k] ringsD(2) [OF r j]] ringsD(4) [OF r j k] False by auto
    then show ?thesis
      using ring_push_other [OF ringsD(1) [OF r k] ringsD(1) [OF r j]] False
        nodes_set [OF ringsD(2) [OF r j] i(1)] i(2) [OF j] by auto
  qed
  then show ?thesis using r i k unfolding rings_def by auto
qed

lemma rings_remove:
  assumes r: "rings l F" and k: "k < MAX_ORDER" and b: "b \<in> set (F k)"
  shows "rings (list_remove l (Blk (page_pa b))) (F(k := remove1 b (F k)))"
proof -
  obtain xs ys where F: "F k = xs @ b # ys" and nb: "b \<notin> set xs" using b by (meson split_list_first)
  have rk: "ring l (Sent k) (nodes xs @ Blk (page_pa b) # nodes ys)"
    using ringsD(1) [OF r k] F by (simp add: nodes_def)
  have rm: "remove1 b (F k) = xs @ ys" using F nb by (simp add: remove1_append)
  have "ring (list_remove l (Blk (page_pa b))) (Sent j) (nodes ((F(k := xs @ ys)) j))" if j: "j < MAX_ORDER" for j
  proof (cases "j = k")
    case True
    then show ?thesis using ring_remove(1) [OF rk] by (simp add: nodes_def)
  next
    case False
    have d: "set (nodes (F k)) \<inter> set (nodes (F j)) = {}"
      using nodes_disjoint [OF ringsD(2) [OF r k] ringsD(2) [OF r j]] ringsD(4) [OF r j k] False by auto
    have "set (Sent k # nodes xs @ Blk (page_pa b) # nodes ys) \<inter> set (Sent j # nodes (F j)) = {}"
      using d False by (auto simp: F nodes_def)
    then show ?thesis using ring_remove_other [OF rk ringsD(1) [OF r j]] False by simp
  qed
  moreover have "set (xs @ ys) \<subseteq> set (F k)" using F by auto
  ultimately show ?thesis using r unfolding rings_def rm by (auto; blast)
qed

subsection \<open>The invariant\<close>

definition free_set :: "free_lists \<Rightarrow> nat set" where
  "free_set F = (\<Union>k \<in> {..<MAX_ORDER}. \<Union>i \<in> set (F k). blk i k)"

text \<open>
  \<open>H\<close> is a block in transit, taken from the free lists and not yet handed out or returned, and
  \<open>h\<close> its first page; \<open>H = {}\<close> between two operations. Free blocks are aligned, in range and
  disjoint; the descriptor of the first page of a free block says so, that of any other page
  may read FREE only with order 0 (it was never the first of a block).
\<close>

definition bwf :: "pmm \<Rightarrow> free_lists \<Rightarrow> nat set \<Rightarrow> nat \<Rightarrow> bool" where
  "bwf m F H h \<longleftrightarrow> rings (buddy_links m) F \<and>
     (\<forall>k < MAX_ORDER. \<forall>i \<in> set (F k). 2 ^ k dvd i \<and> blk i k \<subseteq> {..<NUM_PAGES} \<and>
        page_state m i = PAGE_FREE \<and> page_ord m i = of_nat k) \<and>
     (\<forall>j < MAX_ORDER. \<forall>k < MAX_ORDER. \<forall>a \<in> set (F j). \<forall>b \<in> set (F k). (j, a) \<noteq> (k, b) \<longrightarrow> blk a j \<inter> blk b k = {}) \<and>
     H \<inter> free_set F = {} \<and> H \<subseteq> {..<NUM_PAGES} \<and>
     (\<forall>p < NUM_PAGES. page_state m p = PAGE_FREE \<longrightarrow> p \<in> H \<union> free_set F \<and>
        (page_ord m p = 0 \<or> p \<in> H \<and> p = h \<or> (\<exists>k < MAX_ORDER. p \<in> set (F k)))) \<and>
     (\<forall>p \<in> H \<union> free_set F. page_refs m p = 0 \<and> page_state m p \<noteq> PAGE_RESERVED) \<and>
     (\<forall>k < MAX_ORDER. buddy_count m k = of_nat (length (F k))) \<and>
     total_free_pages m = of_nat (card (free_set F))"

abbreviation buddy_wf :: "pmm \<Rightarrow> free_lists \<Rightarrow> bool" where
  "buddy_wf m F \<equiv> bwf m F {} 0"

lemma free_set_iff: "p \<in> free_set F \<longleftrightarrow> (\<exists>k i. k < MAX_ORDER \<and> i \<in> set (F k) \<and> p \<in> blk i k)"
  by (auto simp: free_set_def)

lemma bwf_rings: "bwf m F H h \<Longrightarrow> rings (buddy_links m) F"
  by (simp add: bwf_def)

lemma bwf_block:
  assumes "bwf m F H h" "k < MAX_ORDER" "i \<in> set (F k)"
  shows "2 ^ k dvd i" "blk i k \<subseteq> {..<NUM_PAGES}" "page_state m i = PAGE_FREE" "page_ord m i = of_nat k"
    "i < NUM_PAGES" "blk i k \<subseteq> free_set F" "page_refs m i = 0"
proof -
  show b: "2 ^ k dvd i" "blk i k \<subseteq> {..<NUM_PAGES}" "page_state m i = PAGE_FREE" "page_ord m i = of_nat k"
    using assms unfolding bwf_def by blast+
  show "i < NUM_PAGES" using b(2) blk_head [of i k] by blast
  show f: "blk i k \<subseteq> free_set F" using assms(2,3) by (auto simp: free_set_def)
  then show "page_refs m i = 0" using assms(1) blk_head [of i k] unfolding bwf_def by blast
qed

lemma bwf_disjoint:
  "bwf m F H h \<Longrightarrow> j < MAX_ORDER \<Longrightarrow> k < MAX_ORDER \<Longrightarrow> a \<in> set (F j) \<Longrightarrow> b \<in> set (F k) \<Longrightarrow> (j, a) \<noteq> (k, b) \<Longrightarrow>
   blk a j \<inter> blk b k = {}"
  unfolding bwf_def by blast

lemma bwf_hole:
  assumes "bwf m F H h"
  shows "H \<inter> free_set F = {}" "H \<subseteq> {..<NUM_PAGES}" "p \<in> H \<Longrightarrow> page_refs m p = 0" "p \<in> H \<Longrightarrow> page_state m p \<noteq> PAGE_RESERVED"
    "p \<in> free_set F \<Longrightarrow> page_refs m p = 0" "p \<in> free_set F \<Longrightarrow> page_state m p \<noteq> PAGE_RESERVED"
  using assms unfolding bwf_def by blast+

lemma bwf_free_page:
  assumes "bwf m F H h" "p < NUM_PAGES" "page_state m p = PAGE_FREE"
  shows "p \<in> H \<union> free_set F" "page_ord m p = 0 \<or> p \<in> H \<and> p = h \<or> (\<exists>k < MAX_ORDER. p \<in> set (F k))"
  using assms unfolding bwf_def by blast+

lemma bwf_counts:
  assumes "bwf m F H h"
  shows "k < MAX_ORDER \<Longrightarrow> buddy_count m k = of_nat (length (F k))" "total_free_pages m = of_nat (card (free_set F))"
  using assms unfolding bwf_def by blast+

lemma free_set_bound: "bwf m F H h \<Longrightarrow> free_set F \<subseteq> {..<NUM_PAGES}"
proof
  fix p
  assume wf: "bwf m F H h" and "p \<in> free_set F"
  then obtain k i where "k < MAX_ORDER" "i \<in> set (F k)" "p \<in> blk i k" unfolding free_set_iff by blast
  then show "p \<in> {..<NUM_PAGES}" using bwf_block(2) [OF wf] by blast
qed

lemma free_set_finite: "bwf m F H h \<Longrightarrow> finite (free_set F)"
  by (erule finite_subset [OF free_set_bound finite_lessThan])

lemma free_set_push: "k < MAX_ORDER \<Longrightarrow> free_set (F(k := i # F k)) = blk i k \<union> free_set F"
proof (rule set_eqI)
  fix p
  assume k: "k < MAX_ORDER"
  have mem: "i' \<in> set ((F(k := i # F k)) j) \<longleftrightarrow> (j, i') = (k, i) \<or> i' \<in> set (F j)" for j i' by auto
  show "p \<in> free_set (F(k := i # F k)) \<longleftrightarrow> p \<in> blk i k \<union> free_set F"
    unfolding free_set_iff Un_iff mem using k by blast
qed

lemma free_set_remove:
  assumes wf: "bwf m F H h" and k: "k < MAX_ORDER" "i \<in> set (F k)"
  shows "free_set (F(k := remove1 i (F k))) = free_set F - blk i k"
proof -
  have d: "distinct (F k)" using ringsD(3) [OF bwf_rings [OF wf] k(1)] .
  have "x \<notin> blk i k" if "x \<in> blk a j" "j < MAX_ORDER" "a \<in> set (F j)" "(j, a) \<noteq> (k, i)" for x a j
    using bwf_disjoint [OF wf that(2) k(1) that(3) k(2) that(4)] that(1) by blast
  then have out: "x \<in> blk a j \<Longrightarrow> j < MAX_ORDER \<Longrightarrow> a \<in> set (F j) \<Longrightarrow> x \<in> blk i k \<longleftrightarrow> (j, a) = (k, i)" for x a j
    by blast
  have mem: "a \<in> set ((F(k := remove1 i (F k))) j) \<longleftrightarrow> a \<in> set (F j) \<and> (j, a) \<noteq> (k, i)" for a j using d by auto
  show ?thesis
  proof (rule set_eqI)
    fix x
    show "x \<in> free_set (F(k := remove1 i (F k))) \<longleftrightarrow> x \<in> free_set F - blk i k"
      unfolding free_set_iff Diff_iff mem using out by meson
  qed
qed

subsection \<open>Adding and removing blocks\<close>

lemma set_page_fields [simp]:
  "page_state (set_page m i st ord) = (page_state m)(i := st)" "page_ord (set_page m i st ord) = (page_ord m)(i := ord)"
  "page_refs (set_page m i st ord) = page_refs m" "buddy_links (set_page m i st ord) = buddy_links m"
  "buddy_count (set_page m i st ord) = buddy_count m" "total_free_pages (set_page m i st ord) = total_free_pages m"
  by (simp_all add: set_page_def)

lemma set_refs_fields [simp]:
  "page_state (set_refs m i r) = page_state m" "page_ord (set_refs m i r) = page_ord m"
  "page_refs (set_refs m i r) = (page_refs m)(i := r)" "buddy_links (set_refs m i r) = buddy_links m"
  "buddy_count (set_refs m i r) = buddy_count m" "total_free_pages (set_refs m i r) = total_free_pages m"
  by (simp_all add: set_refs_def)

lemma buddy_add_fields:
  assumes "i < NUM_PAGES"
  shows "page_state (buddy_add_block m (page_pa i) k) = (page_state m)(i := PAGE_FREE)"
    "page_ord (buddy_add_block m (page_pa i) k) = (page_ord m)(i := of_nat k)"
    "page_refs (buddy_add_block m (page_pa i) k) = page_refs m"
    "buddy_links (buddy_add_block m (page_pa i) k) = list_push (buddy_links m) (Sent k) (Blk (page_pa i))"
    "buddy_count (buddy_add_block m (page_pa i) k) = (buddy_count m)(k := buddy_count m k + 1)"
    "total_free_pages (buddy_add_block m (page_pa i) k) = total_free_pages m + of_nat (2 ^ k)"
  using assms by (simp_all add: buddy_add_block_def Let_def push_bit_eq_mult)

lemma buddy_remove_fields:
  assumes "i < NUM_PAGES"
  shows "page_state (buddy_remove_block m (page_pa i) k) = (page_state m)(i := PAGE_ALLOC)"
    "page_ord (buddy_remove_block m (page_pa i) k) = (page_ord m)(i := 0xFF)"
    "page_refs (buddy_remove_block m (page_pa i) k) = page_refs m"
    "buddy_links (buddy_remove_block m (page_pa i) k) = list_remove (buddy_links m) (Blk (page_pa i))"
    "buddy_count (buddy_remove_block m (page_pa i) k) = (buddy_count m)(k := buddy_count m k - 1)"
    "total_free_pages (buddy_remove_block m (page_pa i) k) = total_free_pages m - of_nat (2 ^ k)"
  using assms by (simp_all add: buddy_remove_block_def Let_def push_bit_eq_mult)

lemma buddy_add_wf:
  assumes wf: "bwf m F H h" and k: "k < MAX_ORDER" and al: "2 ^ k dvd i" and sub: "blk i k \<subseteq> H"
    and h: "h \<in> blk i k \<Longrightarrow> i = h"
  shows "bwf (buddy_add_block m (page_pa i) k) (F(k := i # F k)) (H - blk i k) h"
proof -
  have iH: "i \<in> H" using sub by auto
  then have i: "i < NUM_PAGES" using bwf_hole(2) [OF wf] by blast
  note fld = buddy_add_fields [OF i, of m k]
  have nfree: "blk i k \<inter> free_set F = {}" using sub bwf_hole(1) [OF wf] by blast
  have nin: "i \<notin> set (F j)" if "j < MAX_ORDER" for j
    using bwf_block(6) [OF wf that, of i] nfree blk_head [of i k] blk_head [of i j] by blast
  let ?F = "F(k := i # F k)"
  have mem: "a \<in> set (?F j) \<longleftrightarrow> (j, a) = (k, i) \<or> a \<in> set (F j)" for a j by auto
  have fs: "free_set ?F = blk i k \<union> free_set F" by (rule free_set_push [OF k])
  have disj: "blk i k \<inter> blk b j = {}" if "j < MAX_ORDER" "b \<in> set (F j)" for j b
    using bwf_block(6) [OF wf that] nfree by blast
  have card: "card (blk i k \<union> free_set F) = card (free_set F) + 2 ^ k"
    using nfree free_set_finite [OF wf] by (simp add: card_Un_disjoint)
  show ?thesis
    unfolding bwf_def fld fs card
  proof (intro conjI allI impI ballI)
    show "rings (list_push (buddy_links m) (Sent k) (Blk (page_pa i))) ?F"
      by (rule rings_push [OF bwf_rings [OF wf] k i nin])
  next
    fix j a assume j: "j < MAX_ORDER" and a: "a \<in> set (?F j)"
    then consider "j = k" "a = i" | "a \<in> set (F j)" "a \<noteq> i" using mem nin by blast
    then have "2 ^ j dvd a \<and> blk a j \<subseteq> {..<NUM_PAGES} \<and> ((page_state m)(i := PAGE_FREE)) a = PAGE_FREE \<and>
        ((page_ord m)(i := of_nat k)) a = of_nat j"
      using al sub bwf_hole(2) [OF wf] bwf_block(1-4) [OF wf j] by cases auto
    then show "2 ^ j dvd a" "blk a j \<subseteq> {..<NUM_PAGES}" "((page_state m)(i := PAGE_FREE)) a = PAGE_FREE"
      "((page_ord m)(i := of_nat k)) a = of_nat j" by blast+
  next
    fix j j' a b assume j: "j < MAX_ORDER" "j' < MAX_ORDER" "a \<in> set (?F j)" "b \<in> set (?F j')" "(j, a) \<noteq> (j', b)"
    then show "blk a j \<inter> blk b j' = {}"
      unfolding mem using disj bwf_disjoint [OF wf j(1,2)] by blast
  next
    show "(H - blk i k) \<inter> (blk i k \<union> free_set F) = {}" using bwf_hole(1) [OF wf] by blast
    show "H - blk i k \<subseteq> {..<NUM_PAGES}" using bwf_hole(2) [OF wf] by blast
  next
    fix p assume p: "p < NUM_PAGES" "((page_state m)(i := PAGE_FREE)) p = PAGE_FREE"
    show "p \<in> H - blk i k \<union> (blk i k \<union> free_set F)"
      using p bwf_free_page(1) [OF wf] iH by (cases "p = i") auto
    show "((page_ord m)(i := of_nat k)) p = 0 \<or> p \<in> H - blk i k \<and> p = h \<or> (\<exists>k' < MAX_ORDER. p \<in> set (?F k'))"
    proof (cases "p = i")
      case True
      then show ?thesis using k mem by blast
    next
      case False
      then show ?thesis using p bwf_free_page(2) [OF wf, of p] mem h by auto
    qed
  next
    fix p assume "p \<in> H - blk i k \<union> (blk i k \<union> free_set F)"
    then have p: "p \<in> H \<union> free_set F" using sub by blast
    then show "page_refs m p = 0" using bwf_hole(3,5) [OF wf] by blast
    show "((page_state m)(i := PAGE_FREE)) p \<noteq> PAGE_RESERVED" using p bwf_hole(4,6) [OF wf] by auto
  next
    fix j assume "j < MAX_ORDER"
    then show "((buddy_count m)(k := buddy_count m k + 1)) j = of_nat (length (?F j))"
      using bwf_counts(1) [OF wf] by simp
  next
    show "total_free_pages m + of_nat (2 ^ k) = of_nat (card (free_set F) + 2 ^ k)"
      using bwf_counts(2) [OF wf] by simp
  qed
qed

text \<open>Taking a block out of its list: its pages join the block in transit.\<close>

lemma buddy_take_wf:
  assumes wf: "bwf m F H h" and k: "k < MAX_ORDER" and i: "i \<in> set (F k)"
    and fld: "page_state m' = (page_state m)(i := st)" "page_ord m' = (page_ord m)(i := ord)" "page_refs m' = page_refs m"
      "buddy_links m' = list_remove (buddy_links m) (Blk (page_pa i))"
      "buddy_count m' = (buddy_count m)(k := buddy_count m k - 1)"
      "total_free_pages m' = total_free_pages m - of_nat (2 ^ k)"
    and st: "st \<noteq> PAGE_RESERVED" "st = PAGE_FREE \<Longrightarrow> h' = i" "H = {} \<or> h' = h"
  shows "bwf m' (F(k := remove1 i (F k))) (H \<union> blk i k) h'"
proof -
  let ?F = "F(k := remove1 i (F k))"
  note r = bwf_rings [OF wf]
  have d: "distinct (F k)" using ringsD(3) [OF r k] .
  have mem: "a \<in> set (?F j) \<longleftrightarrow> a \<in> set (F j) \<and> (j, a) \<noteq> (k, i)" for a j using d by auto
  have fs: "free_set ?F = free_set F - blk i k" by (rule free_set_remove [OF wf k i])
  note b = bwf_block [OF wf k i]
  have uniq: "a \<noteq> i" if "j < MAX_ORDER" "a \<in> set (F j)" "(j, a) \<noteq> (k, i)" for j a
    using bwf_disjoint [OF wf that(1) k that(2) i that(3)] blk_head [of a j] blk_head [of i k] by blast
  have c2: "2 ^ k \<le> card (free_set F)"
    using card_mono [OF free_set_finite [OF wf] b(6)] by simp
  have card: "card (free_set F - blk i k) = card (free_set F) - 2 ^ k"
    using b(6) free_set_finite [OF wf] by (simp add: card_Diff_subset)
  show ?thesis
    unfolding bwf_def fld fs card
  proof (intro conjI allI impI ballI)
    show "rings (list_remove (buddy_links m) (Blk (page_pa i))) ?F" by (rule rings_remove [OF r k i])
  next
    fix j a assume j: "j < MAX_ORDER" and a: "a \<in> set (?F j)"
    then have a': "a \<in> set (F j)" "a \<noteq> i" using mem uniq by blast+
    then show "2 ^ j dvd a" "blk a j \<subseteq> {..<NUM_PAGES}" "((page_state m)(i := st)) a = PAGE_FREE"
      "((page_ord m)(i := ord)) a = of_nat j"
      using bwf_block(1-4) [OF wf j a'(1)] by auto
  next
    fix j j' a c assume "j < MAX_ORDER" "j' < MAX_ORDER" "a \<in> set (?F j)" "c \<in> set (?F j')" "(j, a) \<noteq> (j', c)"
    then show "blk a j \<inter> blk c j' = {}" unfolding mem using bwf_disjoint [OF wf] by blast
  next
    show "(H \<union> blk i k) \<inter> (free_set F - blk i k) = {}" using bwf_hole(1) [OF wf] by blast
    show "H \<union> blk i k \<subseteq> {..<NUM_PAGES}" using bwf_hole(2) [OF wf] b(2) by blast
  next
    fix p assume p: "p < NUM_PAGES" "((page_state m)(i := st)) p = PAGE_FREE"
    show "p \<in> H \<union> blk i k \<union> (free_set F - blk i k)"
      using p bwf_free_page(1) [OF wf, of p] blk_head [of i k] by (cases "p = i") auto
    show "((page_ord m)(i := ord)) p = 0 \<or> p \<in> H \<union> blk i k \<and> p = h' \<or> (\<exists>j < MAX_ORDER. p \<in> set (?F j))"
    proof (cases "p = i")
      case True
      then show ?thesis using p st(2) by simp
    next
      case False
      then show ?thesis using p st(3) bwf_free_page(2) [OF wf, of p] mem by auto
    qed
  next
    fix p assume "p \<in> H \<union> blk i k \<union> (free_set F - blk i k)"
    then have p: "p \<in> H \<union> free_set F" using b(6) by blast
    then show "page_refs m p = 0" using bwf_hole(3,5) [OF wf] by blast
    show "((page_state m)(i := st)) p \<noteq> PAGE_RESERVED" using p bwf_hole(4,6) [OF wf] st(1) by auto
  next
    fix j assume j: "j < MAX_ORDER"
    have "Suc (length (remove1 i (F k))) = length (F k)" using i by (simp add: length_remove1) (cases "F k", auto)
    then have "(of_nat (length (F k)) :: u32) = of_nat (length (remove1 i (F k))) + 1" by (metis of_nat_Suc add.commute)
    then show "((buddy_count m)(k := buddy_count m k - 1)) j = of_nat (length (?F j))"
      using bwf_counts(1) [OF wf j] by auto
  next
    show "total_free_pages m - of_nat (2 ^ k) = of_nat (card (free_set F) - 2 ^ k)"
      using bwf_counts(2) [OF wf] c2 by (simp add: of_nat_diff)
  qed
qed

lemma buddy_remove_wf:
  assumes wf: "bwf m F H h" and k: "k < MAX_ORDER" "b \<in> set (F k)"
  shows "bwf (buddy_remove_block m (page_pa b) k) (F(k := remove1 b (F k))) (H \<union> blk b k) h"
  by (rule buddy_take_wf [OF wf k buddy_remove_fields [OF bwf_block(5) [OF wf k]]]) simp_all

subsection \<open>Coalesced free lists\<close>

text \<open>No two buddies of the same order are both free: nothing is left to merge.\<close>

definition coalesced :: "free_lists \<Rightarrow> bool" where
  "coalesced F \<longleftrightarrow> (\<forall>k < MAX_ORDER - 1. \<forall>i \<in> set (F k). buddy_of i k \<notin> set (F k))"

lemma buddy_of_pair:
  assumes "2 ^ Suc k dvd i"
  shows "buddy_of i k = i + 2 ^ k" "buddy_of (i + 2 ^ k) k = i"
proof -
  obtain j where j: "i = 2 ^ k * (2 * j)" using assms by auto
  have d: "i div 2 ^ k = 2 * j" by (simp add: j)
  then have "(i + 2 ^ k) div 2 ^ k = Suc (2 * j)" by (simp only: div_add_self2 power_not_zero zero_neq_numeral not_False_eq_True)
  with d show "buddy_of i k = i + 2 ^ k" "buddy_of (i + 2 ^ k) k = i"
    by (simp_all add: buddy_of_def)
qed

lemma buddy_of_invol: "2 ^ k dvd i \<Longrightarrow> buddy_of (buddy_of i k) k = i"
proof -
  assume "2 ^ k dvd i"
  then show ?thesis
  proof (cases rule: buddy_cases)
    case low
    then show ?thesis using buddy_of_pair [of k i] by metis
  next
    case high
    then show ?thesis using buddy_of_pair [of k "buddy_of i k"] by metis
  qed
qed

lemma coalesced_remove: "coalesced F \<Longrightarrow> coalesced (F(k := remove1 i (F k)))"
  unfolding coalesced_def by (auto dest: notin_set_remove1 in_set_remove1 [THEN iffD1, rotated] set_remove1_subset [THEN subsetD])

lemma coalesced_push:
  assumes c: "coalesced F" and al: "2 ^ k dvd x" "\<And>i. i \<in> set (F k) \<Longrightarrow> 2 ^ k dvd i"
    and b: "k < MAX_ORDER - 1 \<Longrightarrow> buddy_of x k \<notin> set (F k)"
  shows "coalesced (F(k := x # F k))"
  unfolding coalesced_def
proof (intro allI impI ballI)
  fix j i assume j: "j < MAX_ORDER - 1" "i \<in> set ((F(k := x # F k)) j)"
  show "buddy_of i j \<notin> set ((F(k := x # F k)) j)"
  proof (cases "j = k")
    case True
    have "buddy_of i k \<noteq> x" if "i \<in> set (F k)" using that al(2) buddy_of_invol [of k i] b True j(1) by metis
    moreover have "buddy_of x k \<noteq> x" by (rule buddy_merge(5) [OF al(1)])
    ultimately show ?thesis using True j b c unfolding coalesced_def by auto
  next
    case False
    with j c show ?thesis unfolding coalesced_def by auto
  qed
qed

text \<open>
  The free lists after boot need not be coalesced; the facts below carry the property where it
  is given.
\<close>

definition coal :: "bool \<Rightarrow> free_lists \<Rightarrow> bool" where
  "coal C F \<longleftrightarrow> (C \<longrightarrow> coalesced F)"

lemma coal_remove: "coal C F \<Longrightarrow> coal C (F(k := remove1 i (F k)))"
  by (simp add: coal_def coalesced_remove)

lemma coal_push:
  "coal C F \<Longrightarrow> 2 ^ k dvd x \<Longrightarrow> (\<And>i. i \<in> set (F k) \<Longrightarrow> 2 ^ k dvd i) \<Longrightarrow>
   (k < MAX_ORDER - 1 \<Longrightarrow> buddy_of x k \<notin> set (F k)) \<Longrightarrow> coal C (F(k := x # F k))"
  unfolding coal_def using coalesced_push by blast

subsection \<open>Allocation\<close>

lemma blk_bound: "blk i k \<subseteq> {..<NUM_PAGES} \<longleftrightarrow> i + 2 ^ k \<le> NUM_PAGES"
proof
  assume "blk i k \<subseteq> {..<NUM_PAGES}"
  moreover have "(0 :: nat) < 2 ^ k" by simp
  then have "i + 2 ^ k - 1 \<in> blk i k" unfolding blk_def atLeastLessThan_iff by linarith
  ultimately have "i + 2 ^ k - 1 < NUM_PAGES" by blast
  then show "i + 2 ^ k \<le> NUM_PAGES" by linarith
qed (auto simp: blk_def)

lemma split_block_wf:
  assumes "bwf m F (blk i (order + n)) i" "2 ^ (order + n) dvd i" "order + n < MAX_ORDER" "coal C F"
  shows "\<exists>F'. bwf (split_block m (page_pa i) order n) F' (blk i order) i \<and> coal C F' \<and>
     free_set F' = free_set F \<union> (blk i (order + n) - blk i order)"
  using assms
proof (induction n arbitrary: m F)
  case 0
  then show ?case by auto
next
  case (Suc n)
  let ?k = "order + n" let ?x = "i + 2 ^ ?k"
  have al: "2 ^ ?k dvd i" "2 ^ ?k dvd ?x" using Suc.prems(2) dvd_mult_right by auto
  have sp: "blk i (Suc ?k) = blk i ?k \<union> blk ?x ?k" "blk i ?k \<inter> blk ?x ?k = {}" by (rule blk_split)+
  have k: "?k < MAX_ORDER" using Suc.prems(3) by simp
  have bd: "?x + 2 ^ ?k \<le> NUM_PAGES"
    using bwf_hole(2) [OF Suc.prems(1)] blk_bound [of i "Suc ?k"] by simp
  have pa: "page_pa i + push_bit ?k PAGE_SIZE = page_pa ?x" using bd by (intro page_pa_add) simp
  have wf1: "bwf (buddy_add_block m (page_pa ?x) ?k) (F(?k := ?x # F ?k)) (blk i (Suc ?k) - blk ?x ?k) i"
  proof (rule buddy_add_wf [OF _ k al(2)])
    show "i \<in> blk ?x ?k \<Longrightarrow> ?x = i" using sp(2) blk_head [of i ?k] by blast
  qed (use Suc.prems(1) sp(1) in auto)
  have e: "blk i (Suc ?k) - blk ?x ?k = blk i ?k" using sp by blast
  have "buddy_of ?x ?k = i" using Suc.prems(2) by (intro buddy_of_pair(2)) simp
  moreover have "i \<notin> set (F ?k)"
    using bwf_block(6) [OF Suc.prems(1) k, of i] bwf_hole(1) [OF Suc.prems(1)] blk_head [of i ?k] blk_head [of i "order + Suc n"] by blast
  ultimately have c1: "coal C (F(?k := ?x # F ?k))"
    using coal_push [OF Suc.prems(4) al(2)] bwf_block(1) [OF Suc.prems(1) k] by metis
  obtain F' where F': "bwf (split_block (buddy_add_block m (page_pa ?x) ?k) (page_pa i) order n) F' (blk i order) i"
    "coal C F'" "free_set F' = free_set (F(?k := ?x # F ?k)) \<union> (blk i ?k - blk i order)"
    using Suc.IH [OF wf1 [unfolded e] al(1) k c1] by blast
  have "blk i order \<subseteq> blk i ?k" by (auto simp: blk_def power_add intro: order_less_le_trans)
  then have "free_set F' = free_set F \<union> (blk i (order + Suc n) - blk i order)"
    unfolding F'(3) free_set_push [OF k] using sp by auto
  with F'(1,2) show ?case unfolding split_block.simps pa by blast
qed

lemma take_block_wf:
  assumes wf: "buddy_wf m F" "coal C F" and k: "order \<le> found" "found < MAX_ORDER" and i: "F found = i # is"
  obtains m' F' where "take_block m order found = Some (page_pa i, m')" "bwf m' F' (blk i order) i" "coal C F'"
    "free_set F' = free_set F - blk i order" "2 ^ order dvd i" "blk i order \<subseteq> free_set F"
proof -
  have iF: "i \<in> set (F found)" using i by simp
  note b = bwf_block [OF wf(1) k(2) iF]
  have r: "ring (buddy_links m) (Sent found) (Blk (page_pa i) # nodes is)"
    using ringsD(1) [OF bwf_rings [OF wf(1)] k(2)] i by (simp add: nodes_def)
  define m1 where "m1 = m\<lparr>buddy_links := list_remove (buddy_links m) (Blk (page_pa i)),
      buddy_count := (buddy_count m)(found := buddy_count m found - 1),
      total_free_pages := total_free_pages m - push_bit found 1\<rparr>"
  have "bwf m1 (F(found := remove1 i (F found))) ({} \<union> blk i found) i"
    by (rule buddy_take_wf [OF wf(1) k(2) iF, of _ "page_state m i" "page_ord m i"])
      (use b in \<open>simp_all add: m1_def push_bit_eq_mult fun_upd_idem\<close>)
  then have wf1: "bwf m1 (F(found := remove1 i (F found))) (blk i (order + (found - order))) i" using k by simp
  obtain F' where F': "bwf (split_block m1 (page_pa i) order (found - order)) F' (blk i order) i" "coal C F'"
    "free_set F' = free_set (F(found := remove1 i (F found))) \<union> (blk i (order + (found - order)) - blk i order)"
    using split_block_wf [OF wf1 _ _ coal_remove [OF wf(2)]] b(1) k by auto
  have sub: "blk i order \<subseteq> blk i found" using k(1) by (auto simp: blk_def intro: order_less_le_trans power_increasing)
  have "free_set F' = free_set F - blk i order"
    unfolding F'(3) free_set_remove [OF wf(1) k(2) iF] using b(6) sub k(1) by auto
  moreover have "take_block m order found = Some (page_pa i, split_block m1 (page_pa i) order (found - order))"
    using ring_pop(1) [OF r] by (simp add: take_block_def m1_def)
  moreover have "2 ^ order dvd i" using b(1) k(1) by (meson dvd_trans le_imp_power_dvd)
  ultimately show ?thesis using that F'(1,2) sub b(6) by blast
qed

text \<open>Handing out the block in transit: its pages are marked and leave the allocator.\<close>

lemma close_hole:
  assumes wf: "bwf m F H h"
    and out: "\<And>p. p \<notin> H \<Longrightarrow> page_state m' p = page_state m p \<and> page_ord m' p = page_ord m p \<and> page_refs m' p = page_refs m p"
    and inH: "\<And>p. p \<in> H \<Longrightarrow> page_state m' p \<noteq> PAGE_FREE"
    and same: "buddy_links m' = buddy_links m" "buddy_count m' = buddy_count m" "total_free_pages m' = total_free_pages m"
  shows "bwf m' F {} h'"
proof -
  have o: "p \<notin> H" if "p \<in> free_set F" for p using that bwf_hole(1) [OF wf] by blast
  have hd: "i \<in> free_set F" if "k < MAX_ORDER" "i \<in> set (F k)" for k i
    using bwf_block(6) [OF wf that] blk_head by blast
  show ?thesis
    unfolding bwf_def same
  proof (intro conjI allI impI ballI)
    show "rings (buddy_links m) F" by (rule bwf_rings [OF wf])
  next
    fix k i assume ki: "k < MAX_ORDER" "i \<in> set (F k)"
    note b = bwf_block [OF wf ki] and u = out [OF o [OF hd [OF ki]]]
    show "2 ^ k dvd i" "blk i k \<subseteq> {..<NUM_PAGES}" using b by blast+
    show "page_state m' i = PAGE_FREE" "page_ord m' i = of_nat k" using b u by simp_all
  next
    fix j k a b assume "j < MAX_ORDER" "k < MAX_ORDER" "a \<in> set (F j)" "b \<in> set (F k)" "(j, a) \<noteq> (k, b)"
    then show "blk a j \<inter> blk b k = {}" by (rule bwf_disjoint [OF wf])
  next
    fix p assume p: "p < NUM_PAGES" "page_state m' p = PAGE_FREE"
    then have "p \<notin> H" using inH by blast
    then show "p \<in> {} \<union> free_set F" "page_ord m' p = 0 \<or> p \<in> {} \<and> p = h' \<or> (\<exists>k < MAX_ORDER. p \<in> set (F k))"
      using p bwf_free_page [OF wf, of p] out [of p] by auto
  next
    fix p assume p: "p \<in> {} \<union> free_set F"
    then have "p \<notin> H" using o by blast
    then show "page_refs m' p = 0" "page_state m' p \<noteq> PAGE_RESERVED" using p out [of p] bwf_hole(5,6) [OF wf] by auto
  qed (use bwf_counts [OF wf] in auto)
qed

lemma find_order:
  assumes wf: "buddy_wf m F" and o: "order < MAX_ORDER"
  shows "for_find (\<lambda>k. \<not> list_empty (buddy_links m) (Sent k)) order MAX_ORDER
       = for_find (\<lambda>k. F k \<noteq> []) order MAX_ORDER"
proof -
  have e: "\<not> list_empty (buddy_links m) (Sent k) \<longleftrightarrow> F k \<noteq> []" if "k < MAX_ORDER" for k
    using ring_empty_iff [OF ringsD(1) [OF bwf_rings [OF wf] that]] by (simp add: nodes_def)
  show ?thesis
  proof (cases "for_find (\<lambda>k. F k \<noteq> []) order MAX_ORDER")
    case None
    then have "for_find (\<lambda>k. \<not> list_empty (buddy_links m) (Sent k)) order MAX_ORDER = None"
      using e unfolding for_find_None by blast
    with None show ?thesis by simp
  next
    case (Some k)
    then have "for_find (\<lambda>k. \<not> list_empty (buddy_links m) (Sent k)) order MAX_ORDER = Some k"
      using e unfolding for_find_Some by (meson less_trans)
    with Some show ?thesis by simp
  qed
qed

lemma mark_alloc_fold:
  "page_state (foldl (mark_alloc idx) m is) p = (if \<exists>i \<in> set is. p = idx + i then PAGE_ALLOC else page_state m p)"
  "page_ord (foldl (mark_alloc idx) m is) p = (if \<exists>i \<in> set is. p = idx + i then 0xFF else page_ord m p)"
  "page_refs (foldl (mark_alloc idx) m is) p = (if \<exists>i \<in> set is. p = idx + i then 1 else page_refs m p)"
  "buddy_links (foldl (mark_alloc idx) m is) = buddy_links m"
  "buddy_count (foldl (mark_alloc idx) m is) = buddy_count m"
  "total_free_pages (foldl (mark_alloc idx) m is) = total_free_pages m"
  by (induction "is" arbitrary: m) (auto simp: mark_alloc_def)

lemma split_block_frame:
  assumes "i + 2 ^ (order + n) \<le> NUM_PAGES"
  shows "page_refs (split_block m (page_pa i) order n) = page_refs m"
    "p \<notin> blk i (order + n) \<Longrightarrow> page_state (split_block m (page_pa i) order n) p = page_state m p"
proof -
  have "page_refs (split_block m (page_pa i) order n) = page_refs m \<and>
    (p \<notin> blk i (order + n) \<longrightarrow> page_state (split_block m (page_pa i) order n) p = page_state m p)"
    using assms
  proof (induction n arbitrary: m)
    case (Suc n)
    have pa: "page_pa i + push_bit (order + n) PAGE_SIZE = page_pa (i + 2 ^ (order + n))"
      using Suc.prems by (intro page_pa_add) simp
    have "(0 :: nat) < 2 ^ (order + n)" by simp
    then have x: "i + 2 ^ (order + n) < NUM_PAGES" using Suc.prems unfolding add_Suc_right power_Suc by linarith
    have IH: "i + 2 ^ (order + n) \<le> NUM_PAGES" using Suc.prems by simp
    show ?case
      unfolding split_block.simps pa using Suc.IH [OF IH, of "buddy_add_block m (page_pa (i + 2 ^ (order + n))) (order + n)"]
        buddy_add_fields(1,3) [OF x, of m "order + n"] blk_split [of i "order + n"] blk_head [of "i + 2 ^ (order + n)" "order + n"] by auto
  qed simp
  then show "page_refs (split_block m (page_pa i) order n) = page_refs m"
    "p \<notin> blk i (order + n) \<Longrightarrow> page_state (split_block m (page_pa i) order n) p = page_state m p" by auto
qed

lemma take_block_frame:
  assumes wf: "buddy_wf m F" and k: "order \<le> found" "found < MAX_ORDER" and i: "F found = i # is"
    and t: "take_block m order found = Some (pa, m')"
  shows "page_refs m' = page_refs m" "p \<notin> free_set F \<Longrightarrow> page_state m' p = page_state m p"
proof -
  have iF: "i \<in> set (F found)" using i by simp
  note b = bwf_block [OF wf k(2) iF]
  have r: "ring (buddy_links m) (Sent found) (Blk (page_pa i) # nodes is)"
    using ringsD(1) [OF bwf_rings [OF wf] k(2)] i by (simp add: nodes_def)
  have bd: "i + 2 ^ (order + (found - order)) \<le> NUM_PAGES" using b(2) k(1) blk_bound by simp
  define m1 where "m1 = m\<lparr>buddy_links := list_remove (buddy_links m) (Blk (page_pa i)),
      buddy_count := (buddy_count m)(found := buddy_count m found - 1),
      total_free_pages := total_free_pages m - push_bit found 1\<rparr>"
  note fr = split_block_frame [OF bd, where m = m1]
  have m': "m' = split_block m1 (page_pa i) order (found - order)"
    using t ring_pop(1) [OF r] unfolding take_block_def by (auto simp: Let_def m1_def)
  show "page_refs m' = page_refs m" using fr(1) by (simp add: m' m1_def)
  show "page_state m' p = page_state m p" if "p \<notin> free_set F"
  proof -
    have "p \<notin> blk i (order + (found - order))" using that b(6) k(1) by auto
    from fr(2) [OF this] show ?thesis by (simp add: m' m1_def)
  qed
qed

lemma alloc_page_eq: "phys_alloc_page m = phys_alloc_pages m 0"
  by (simp add: phys_alloc_page_def phys_alloc_pages_def MAX_ORDER_def Let_def split: option.splits)

lemma phys_alloc_pages_wf:
  assumes wf: "buddy_wf m F" "coal C F" and o: "order < MAX_ORDER"
    and ex: "order \<le> k" "k < MAX_ORDER" "F k \<noteq> []"
  obtains i m' F' where "phys_alloc_pages m order = Some (page_pa i, m')" "buddy_wf m' F'" "coal C F'"
    "2 ^ order dvd i" "blk i order \<subseteq> free_set F" "free_set F' = free_set F - blk i order"
    "\<forall>p \<in> blk i order. page_state m' p = PAGE_ALLOC \<and> page_refs m' p = 1"
    "\<forall>p. p \<notin> free_set F \<longrightarrow> page_state m' p = page_state m p \<and> page_refs m' p = page_refs m p"
proof -
  obtain found where f: "for_find (\<lambda>k. F k \<noteq> []) order MAX_ORDER = Some found"
    using for_find_exists [of "\<lambda>k. F k \<noteq> []" order MAX_ORDER] ex by blast
  have f': "order \<le> found" "found < MAX_ORDER" "F found \<noteq> []" using for_find_SomeD(1-3) [OF f] by blast+
  then obtain i "is" where i: "F found = i # is" by (cases "F found") auto
  obtain m1 F' where t: "take_block m order found = Some (page_pa i, m1)" "bwf m1 F' (blk i order) i" "coal C F'"
    "free_set F' = free_set F - blk i order" "2 ^ order dvd i" "blk i order \<subseteq> free_set F"
    by (rule take_block_wf [OF wf f'(1,2) i])
  note fr = take_block_frame [OF wf(1) f'(1,2) i t(1)]
  have idx: "i < NUM_PAGES" using t(6) blk_head free_set_bound [OF wf(1)] by blast
  define m2 where "m2 = foldl (mark_alloc i) (set_refs (set_page m1 i PAGE_ALLOC 0xFF) i 1) [1..<2 ^ order]"
  have blk: "p = i \<or> (\<exists>j \<in> set [1..<2 ^ order]. p = i + j) \<longleftrightarrow> p \<in> blk i order" for p
  proof -
    have "p \<in> blk i order \<longleftrightarrow> (\<exists>j < 2 ^ order. p = i + j)" by (auto simp: blk_def le_iff_add)
    also have "\<dots> \<longleftrightarrow> p = i \<or> (\<exists>j. 1 \<le> j \<and> j < 2 ^ order \<and> p = i + j)"
      by (metis One_nat_def Suc_leI add.right_neutral not_gr_zero zero_less_numeral zero_less_power)
    finally show ?thesis by auto
  qed
  have st: "page_state m2 p = (if p \<in> blk i order then PAGE_ALLOC else page_state m1 p)"
    "page_ord m2 p = (if p \<in> blk i order then 0xFF else page_ord m1 p)"
    "page_refs m2 p = (if p \<in> blk i order then 1 else page_refs m1 p)" for p
    using blk [of p] by (auto simp: m2_def mark_alloc_fold)
  have sm: "buddy_links m2 = buddy_links m1" "buddy_count m2 = buddy_count m1" "total_free_pages m2 = total_free_pages m1"
    by (simp_all add: m2_def mark_alloc_fold)
  have wf2: "buddy_wf m2 F'" by (rule close_hole [OF t(2) _ _ sm]) (simp_all add: st)
  have eq: "phys_alloc_pages m order = Some (page_pa i, m2)"
    using o idx unfolding phys_alloc_pages_def find_order [OF wf(1) o] f
    by (simp add: t(1) m2_def Let_def)
  show ?thesis
    by (rule that [OF eq wf2 t(3,5,6,4)]) (use st fr t(6) in auto)
qed

lemma phys_alloc_pages_oom:
  assumes wf: "buddy_wf m F" and o: "order < MAX_ORDER" and none: "\<And>k. order \<le> k \<Longrightarrow> k < MAX_ORDER \<Longrightarrow> F k = []"
  shows "phys_alloc_pages m order = None"
proof -
  have "for_find (\<lambda>k. F k \<noteq> []) order MAX_ORDER = None" using none by (simp add: for_find_None)
  then show ?thesis using o by (simp add: phys_alloc_pages_def find_order [OF wf o])
qed

subsection \<open>Release\<close>

lemma open_hole:
  assumes wf: "buddy_wf m F" and p: "p < NUM_PAGES" "p \<notin> free_set F" "page_state m p \<noteq> PAGE_RESERVED" "page_state m p \<noteq> PAGE_FREE"
  shows "bwf (set_refs m p 0) F {p} NUM_PAGES"
proof -
  have ne: "i \<noteq> p" if "k < MAX_ORDER" "i \<in> set (F k)" for k i
    using bwf_block(6) [OF wf that] blk_head [of i k] p(2) by blast
  show ?thesis
    unfolding bwf_def
  proof (intro conjI allI impI ballI)
    fix k i assume ki: "k < MAX_ORDER" "i \<in> set (F k)"
    show "2 ^ k dvd i" "blk i k \<subseteq> {..<NUM_PAGES}" "page_state (set_refs m p 0) i = PAGE_FREE"
      "page_ord (set_refs m p 0) i = of_nat k" using bwf_block(1-4) [OF wf ki] by simp_all
  next
    fix j k a b assume "j < MAX_ORDER" "k < MAX_ORDER" "a \<in> set (F j)" "b \<in> set (F k)" "(j, a) \<noteq> (k, b)"
    then show "blk a j \<inter> blk b k = {}" by (rule bwf_disjoint [OF wf])
  next
    fix q assume q: "q < NUM_PAGES" "page_state (set_refs m p 0) q = PAGE_FREE"
    show "q \<in> {p} \<union> free_set F" "page_ord (set_refs m p 0) q = 0 \<or> q \<in> {p} \<and> q = NUM_PAGES \<or> (\<exists>k < MAX_ORDER. q \<in> set (F k))"
      using q bwf_free_page [OF wf q(1)] by auto
  next
    fix q assume "q \<in> {p} \<union> free_set F"
    then show "page_refs (set_refs m p 0) q = 0" "page_state (set_refs m p 0) q \<noteq> PAGE_RESERVED"
      using p bwf_hole(5,6) [OF wf] by auto
  qed (use p bwf_counts [OF wf] bwf_rings [OF wf] in auto)
qed

text \<open>What the test of the coalescing loop means: the buddy is a free block of the same order.\<close>

lemma buddy_test:
  assumes wf: "bwf m F (blk i k) NUM_PAGES" and al: "2 ^ k dvd i" and k: "k < MAX_ORDER" and b: "b = buddy_of i k" "b < NUM_PAGES"
  shows "page_state m b = PAGE_FREE \<and> page_ord m b = of_nat k \<and> page_refs m b = 0 \<longleftrightarrow> b \<in> set (F k)"
proof
  assume "b \<in> set (F k)"
  then show "page_state m b = PAGE_FREE \<and> page_ord m b = of_nat k \<and> page_refs m b = 0"
    using bwf_block [OF wf k] by blast
next
  assume h: "page_state m b = PAGE_FREE \<and> page_ord m b = of_nat k \<and> page_refs m b = 0"
  have bH: "b \<notin> blk i k" using buddy_merge(2) [OF al] b(1) blk_head [of b k] by blast
  have inj: "(of_nat x :: u8) = of_nat y \<longleftrightarrow> x = y" if "x < MAX_ORDER" "y < MAX_ORDER" for x y
    using that by (simp add: word_unat_eq_iff unat_of_nat MAX_ORDER_def)
  from bwf_free_page(2) [OF wf b(2)] h bH consider (head) k' where "k' < MAX_ORDER" "b \<in> set (F k')" | (zero) "page_ord m b = 0" by blast
  then show "b \<in> set (F k)"
  proof cases
    case (head k')
    then have "(of_nat k' :: u8) = of_nat k" using bwf_block(4) [OF wf head] h by simp
    then show ?thesis using inj [OF head(1) k] head(2) by simp
  next
    case zero
    have "b \<in> free_set F" using bwf_free_page(1) [OF wf b(2)] h bH by blast
    then obtain j a where a: "j < MAX_ORDER" "a \<in> set (F j)" "b \<in> blk a j" unfolding free_set_iff by blast
    have "(of_nat k :: u8) = of_nat 0" using zero h by simp
    then have k0: "k = 0" using inj [OF k, of 0] by (simp add: MAX_ORDER_def)
    show ?thesis
    proof (cases "j = 0")
      case True
      then show ?thesis using a(2,3) k0 by simp
    next
      case False
      then have "i \<in> blk a j" using buddy_same_block [OF al bwf_block(1) [OF wf a(1,2)]] a(3) k0 b(1) by simp
      then have "i \<in> free_set F" using bwf_block(6) [OF wf a(1,2)] by blast
      then show ?thesis using bwf_hole(1) [OF wf] blk_head [of i k] by blast
    qed
  qed
qed

lemma coalesce_wf:
  assumes "bwf m F (blk i k) NUM_PAGES" "2 ^ k dvd i" "k < MAX_ORDER" "coal C F"
  shows "\<exists>m' i' k' F'. coalesce m (page_pa i) k = (m', page_pa i', k') \<and> bwf m' F' (blk i' k') NUM_PAGES \<and>
     2 ^ k' dvd i' \<and> k' < MAX_ORDER \<and> blk i' k' \<union> free_set F' = blk i k \<union> free_set F \<and> coal C F' \<and>
     (k' < MAX_ORDER - 1 \<longrightarrow> buddy_of i' k' \<notin> set (F' k')) \<and> page_refs m' = page_refs m \<and>
     (\<forall>q. q \<notin> blk i k \<union> free_set F \<longrightarrow> page_state m' q = page_state m q)"
  using assms
proof (induction "MAX_ORDER - k" arbitrary: m F i k)
  case 0
  then show ?case by simp
next
  case (Suc n)
  have iN: "i < NUM_PAGES" using bwf_hole(2) [OF Suc.prems(1)] blk_head [of i k] by blast
  show ?case
  proof (cases "k < MAX_ORDER - 1")
    case False
    then show ?thesis using Suc.prems by (subst coalesce.simps) auto
  next
    case True
    let ?b = "buddy_of i k"
    have k11: "k < 11" using Suc.prems(3) by (simp add: MAX_ORDER_def)
    note ba = buddy_addr_page [OF iN Suc.prems(2) k11]
    note test = buddy_test [OF Suc.prems(1-3) refl ba(2)]
    have inr: "\<not> (page_pa ?b < PMM_BASE \<or> page_pa ?b \<ge> PMM_END)" "\<not> page_pa ?b < PMM_BASE"
      using page_pa_in_ram [OF ba(2)] by (auto simp: in_ram_def)
    have bidx: "unat (PA_TO_IDX (page_pa ?b)) = ?b" using ba(2) by simp
    show ?thesis
    proof (cases "?b \<in> set (F k)")
      case False
      then have "coalesce m (page_pa i) k = (m, page_pa i, k)"
        using True test inr bidx by (subst coalesce.simps) (auto simp: ba(1) Let_def)
      then show ?thesis using Suc.prems False by blast
    next
      case b: True
      let ?m = "buddy_remove_block m (page_pa ?b) k" let ?i = "min i ?b" let ?F = "F(k := remove1 ?b (F k))"
      have mn: "(if page_pa ?b < page_pa i then page_pa ?b else page_pa i) = page_pa ?i"
        using page_pa_less [of ?b i] ba(2) iN by (auto simp: min_def)
      have step: "coalesce m (page_pa i) k = coalesce ?m (page_pa ?i) (Suc k)"
        using True test b inr bidx mn by (subst coalesce.simps) (auto simp: ba(1) Let_def)
      note mg = buddy_merge [OF Suc.prems(2)]
      have wf1: "bwf ?m ?F (blk ?i (Suc k)) NUM_PAGES"
        unfolding mg(1) by (rule buddy_remove_wf [OF Suc.prems(1,3) b])
      have fs: "blk ?i (Suc k) \<union> free_set ?F = blk i k \<union> free_set F"
        unfolding mg(1) free_set_remove [OF Suc.prems(1,3) b] using bwf_block(6) [OF Suc.prems(1,3) b] by blast
      have rf: "page_refs ?m = page_refs m" by (rule buddy_remove_fields(3) [OF ba(2)])
      have "n = MAX_ORDER - Suc k" "Suc k < MAX_ORDER" using Suc.hyps(2) True by auto
      note IH = Suc.hyps(1) [OF this(1) wf1 mg(3) this(2) coal_remove [OF Suc.prems(4)]]
      have "?b \<in> free_set F" using bwf_block(6) [OF Suc.prems(1,3) b] blk_head [of ?b k] by blast
      then have "page_state ?m q = page_state m q" if "q \<notin> blk i k \<union> free_set F" for q
        using that buddy_remove_fields(1) [OF ba(2), of m k] by auto
      then have fr: "(\<forall>q. q \<notin> blk i k \<union> free_set F \<longrightarrow> page_state m' q = page_state ?m q) \<longleftrightarrow>
          (\<forall>q. q \<notin> blk i k \<union> free_set F \<longrightarrow> page_state m' q = page_state m q)" for m' by auto
      show ?thesis using IH unfolding step fs rf fr .
    qed
  qed
qed

lemma phys_free_page_wf:
  assumes wf: "buddy_wf m F" "coal C F"
    and p: "p < NUM_PAGES" "p \<notin> free_set F" "page_state m p \<noteq> PAGE_RESERVED" "page_state m p \<noteq> PAGE_FREE"
    and r: "\<not> page_refs m p > 1"
  obtains F' where "buddy_wf (phys_free_page m (page_pa p)) F'" "coal C F'" "free_set F' = insert p (free_set F)"
    "page_refs (phys_free_page m (page_pa p)) = (page_refs m)(p := 0)"
    "\<forall>q. q \<notin> insert p (free_set F) \<longrightarrow> page_state (phys_free_page m (page_pa p)) q = page_state m q"
proof -
  obtain m' i k F' where c: "coalesce (set_refs m p 0) (page_pa p) 0 = (m', page_pa i, k)" "bwf m' F' (blk i k) NUM_PAGES"
    "2 ^ k dvd i" "k < MAX_ORDER" "blk i k \<union> free_set F' = blk p 0 \<union> free_set F" "coal C F'"
    "k < MAX_ORDER - 1 \<longrightarrow> buddy_of i k \<notin> set (F' k)" "page_refs m' = page_refs (set_refs m p 0)"
    "\<forall>q. q \<notin> blk p 0 \<union> free_set F \<longrightarrow> page_state m' q = page_state (set_refs m p 0) q"
    using coalesce_wf [where m = "set_refs m p 0" and F = F and i = p and k = 0 and C = C] open_hole [OF wf(1) p] wf(2) by (auto simp: MAX_ORDER_def)
  have iN: "i < NUM_PAGES" using bwf_hole(2) [OF c(2)] blk_head [of i k] by blast
  have eq: "phys_free_page m (page_pa p) = buddy_add_block m' (page_pa i) k"
    using p r page_pa_in_ram [OF p(1)] page_pa_mask [OF p(1)] c(1) by (simp add: phys_free_page_def Let_def)
  have "NUM_PAGES \<notin> blk i k" using bwf_hole(2) [OF c(2)] by blast
  then have "bwf (buddy_add_block m' (page_pa i) k) (F'(k := i # F' k)) (blk i k - blk i k) NUM_PAGES"
    by (intro buddy_add_wf [OF c(2) c(4) c(3)]) auto
  then have "buddy_wf (phys_free_page m (page_pa p)) (F'(k := i # F' k))"
    unfolding eq bwf_def by simp
  moreover have "coal C (F'(k := i # F' k))"
    using coal_push [OF c(6,3) bwf_block(1) [OF c(2,4)]] c(7) by blast
  moreover have "free_set (F'(k := i # F' k)) = insert p (free_set F)"
    unfolding free_set_push [OF c(4)] c(5) by simp
  moreover have "page_refs (phys_free_page m (page_pa p)) = (page_refs m)(p := 0)"
    unfolding eq buddy_add_fields(3) [OF iN] c(8) by simp
  moreover have "\<forall>q. q \<notin> insert p (free_set F) \<longrightarrow> page_state (phys_free_page m (page_pa p)) q = page_state m q"
    unfolding eq buddy_add_fields(1) [OF iN] using c(5,9) blk_head [of i k] by auto
  ultimately show ?thesis by (rule that)
qed

subsection \<open>The free lists at boot\<close>

lemma PMM_END_page: "PMM_END = page_pa NUM_PAGES"
  by (simp add: page_pa_eq PMM_END_def)

lemma idx_bit:
  assumes "s < NUM_PAGES" "k < 12"
  shows "PA_TO_IDX (page_pa s) AND push_bit k 1 = 0 \<longleftrightarrow> \<not> bit s k"
proof -
  have "(of_nat s :: u32) AND push_bit k 1 = 0 \<longleftrightarrow> \<not> bit (of_nat s :: u32) k"
    using assms(2) by (simp add: and_exp_eq_0_iff_not_bit)
  moreover have "bit (of_nat s :: u32) k \<longleftrightarrow> bit s k" using assms(2) by (simp add: bit_of_nat_iff)
  ultimately show ?thesis using assms(1) by (simp add: page_pa_idx)
qed

lemma free_range_order_spec:
  assumes s: "s < NUM_PAGES" and "order < MAX_ORDER" "\<forall>j. 1 \<le> j \<and> j \<le> order \<longrightarrow> \<not> bit s j" "s + 2 ^ order \<le> NUM_PAGES"
    and k: "k = free_range_order (page_pa s) PMM_END order"
  shows "order \<le> k" "k < MAX_ORDER" "\<forall>j. 1 \<le> j \<and> j \<le> k \<longrightarrow> \<not> bit s j" "s + 2 ^ k \<le> NUM_PAGES"
    "k < MAX_ORDER - 1 \<Longrightarrow> bit s (Suc k) \<or> s + 2 ^ Suc k > NUM_PAGES"
proof -
  have "order \<le> k \<and> k < MAX_ORDER \<and> (\<forall>j. 1 \<le> j \<and> j \<le> k \<longrightarrow> \<not> bit s j) \<and> s + 2 ^ k \<le> NUM_PAGES \<and>
    (k < MAX_ORDER - 1 \<longrightarrow> bit s (Suc k) \<or> s + 2 ^ Suc k > NUM_PAGES)"
    using assms(2-5)
  proof (induction "MAX_ORDER - order" arbitrary: order)
    case 0
    then show ?case by simp
  next
    case (Suc n)
    have k11: "Suc order < 12" using Suc.prems(1) by (simp add: MAX_ORDER_def)
    have p2: "(2 :: nat) ^ Suc order \<le> 2 ^ 11" using k11 by (intro power_increasing) auto
    have "s + 2 ^ Suc order < 262144" using s p2 by simp
    then have e: "page_pa s + push_bit (Suc order) PAGE_SIZE > PMM_END \<longleftrightarrow> s + 2 ^ Suc order > NUM_PAGES"
      using page_pa_add [of s "Suc order"] page_pa_less [of NUM_PAGES "s + 2 ^ Suc order"] by (simp add: PMM_END_page)
    note b = idx_bit [OF s k11]
    show ?case
    proof (cases "order < MAX_ORDER - 1 \<and> \<not> bit s (Suc order) \<and> s + 2 ^ Suc order \<le> NUM_PAGES")
      case True
      then have k': "k = free_range_order (page_pa s) PMM_END (Suc order)"
        using Suc.prems(4) b e by (subst (asm) free_range_order.simps) (simp add: Let_def)
      have "n = MAX_ORDER - Suc order" "Suc order < MAX_ORDER" using Suc.hyps(2) True by auto
      moreover have "\<forall>j. 1 \<le> j \<and> j \<le> Suc order \<longrightarrow> \<not> bit s j" using Suc.prems(2) True by (auto simp: le_Suc_eq)
      ultimately show ?thesis using Suc.hyps(1) [of "Suc order"] True k' by (auto simp: Suc_leD)
    next
      case False
      then have "k = order"
        using Suc.prems(4) b e by (subst (asm) free_range_order.simps) (auto simp: Let_def)
      then show ?thesis using Suc.prems False by auto
    qed
  qed
  then show "order \<le> k" "k < MAX_ORDER" "\<forall>j. 1 \<le> j \<and> j \<le> k \<longrightarrow> \<not> bit s j" "s + 2 ^ k \<le> NUM_PAGES"
    "k < MAX_ORDER - 1 \<Longrightarrow> bit s (Suc k) \<or> s + 2 ^ Suc k > NUM_PAGES" by blast+
qed

lemma low_bits_dvd: "(\<forall>j < k. \<not> bit s j) \<longleftrightarrow> 2 ^ k dvd s" for s :: nat
proof -
  have "(\<forall>j < k. \<not> bit s j) \<longleftrightarrow> take_bit k s = 0" by (auto simp: bit_eq_iff bit_simps)
  then show ?thesis by (simp add: take_bit_eq_0_iff)
qed

text \<open>
  The alignment test looks at bit \<open>k + 1\<close> where it should look at bit \<open>k\<close>, so bit 0 is never
  looked at: the choice is right exactly for the page indices that are not 1 modulo 4.
\<close>

lemma free_range_step:
  assumes s: "s < NUM_PAGES" "s mod 4 \<noteq> 1" and k: "k = free_range_order (page_pa s) PMM_END 0"
  shows "k < MAX_ORDER" "2 ^ k dvd s" "s + 2 ^ k \<le> NUM_PAGES" "(s + 2 ^ k) mod 4 \<noteq> 1"
proof -
  have z: "s + 2 ^ 0 \<le> NUM_PAGES" using s(1) by simp
  note sp = free_range_order_spec [OF s(1) _ _ z k]
  have m: "0 < MAX_ORDER" by (simp add: MAX_ORDER_def)
  have "\<forall>j. 1 \<le> j \<and> j \<le> 0 \<longrightarrow> \<not> bit s j" by simp
  note sp = sp(2-4) [OF m this] sp(5) [OF m this]
  show "k < MAX_ORDER" "s + 2 ^ k \<le> NUM_PAGES" using sp by auto
  have b01: "bit s 0 \<longleftrightarrow> s mod 2 = 1" "bit s 1 \<longleftrightarrow> s div 2 mod 2 = 1"
    by (simp_all add: bit_iff_odd odd_iff_mod_2_eq_one)
  have "2 ^ k dvd s \<and> (s + 2 ^ k) mod 4 \<noteq> 1"
  proof (cases k)
    case 0
    have "s mod 4 \<noteq> 0"
    proof
      assume "s mod 4 = 0"
      then have "s + 2 \<le> NUM_PAGES" "\<not> bit s 1" using s(1) b01(2) by (simp_all, presburger+)
      then show False using sp(4) 0 by (simp add: MAX_ORDER_def)
    qed
    then show ?thesis using 0 by simp presburger
  next
    case (Suc n)
    then have "\<not> bit s 1" using sp(2) by simp
    then have m4: "s mod 4 = 0" using s(2) b01(2) by presburger
    then have "\<not> bit s 0" using b01(1) by presburger
    then have all: "\<forall>j < Suc k. \<not> bit s j" using sp(2) by (metis One_nat_def Suc_leI less_Suc_eq_le not_gr_zero)
    then have d: "2 ^ k dvd s" using low_bits_dvd [of k s] by simp
    have "(s + 2 ^ k) mod 4 \<noteq> 1"
    proof -
      have "even (2 ^ k :: nat)" using Suc by simp
      then have "even (s + 2 ^ k)" using m4 by (metis dvd_add even_even_mod_4_iff even_zero)
      then show ?thesis by presburger
    qed
    with d show ?thesis by blast
  qed
  then show "2 ^ k dvd s" "(s + 2 ^ k) mod 4 \<noteq> 1" by blast+
qed

lemma free_range_wf:
  assumes "bwf m F {s..<NUM_PAGES} NUM_PAGES" "s mod 4 \<noteq> 1" "s \<le> NUM_PAGES"
  shows "\<exists>m' F'. pmm_free_range m (page_pa s) PMM_END = Some m' \<and> bwf m' F' {} NUM_PAGES
     \<and> free_set F' = free_set F \<union> {s..<NUM_PAGES}"
  using assms
proof (induction "NUM_PAGES - s" arbitrary: m F s rule: less_induct)
  case less
  show ?case
  proof (cases "s < NUM_PAGES")
    case False
    then have e: "s = NUM_PAGES" using less.prems(3) by simp
    have "pmm_free_range m (page_pa s) PMM_END = Some m"
      by (subst pmm_free_range.simps) (simp add: e PMM_END_page)
    then show ?thesis using less.prems(1) e by auto
  next
    case True
    define k where "k = free_range_order (page_pa s) PMM_END 0"
    note st = free_range_step [OF True less.prems(2) k_def]
    have sub: "blk s k \<subseteq> {s..<NUM_PAGES}" using st(3) by (auto simp: blk_def)
    have wf1: "bwf (buddy_add_block m (page_pa s) k) (F(k := s # F k)) ({s..<NUM_PAGES} - blk s k) NUM_PAGES"
      using sub by (intro buddy_add_wf [OF less.prems(1) st(1,2)]) auto
    have H: "{s..<NUM_PAGES} - blk s k = {s + 2 ^ k..<NUM_PAGES}" using st(3) by (auto simp: blk_def)
    have p2: "(2 :: nat) ^ k \<le> 2 ^ 10" using st(1) by (intro power_increasing) (auto simp: MAX_ORDER_def)
    have "page_pa s < PMM_END" using page_pa_less [of s NUM_PAGES] True by (simp add: PMM_END_page)
    then have eq: "pmm_free_range m (page_pa s) PMM_END =
        pmm_free_range (buddy_add_block m (page_pa s) k) (page_pa (s + 2 ^ k)) PMM_END"
      using page_pa_add [of s k] st(3) by (subst pmm_free_range.simps) (simp add: k_def Let_def)
    have "(0 :: nat) < 2 ^ k" by simp
    then have "NUM_PAGES - (s + 2 ^ k) < NUM_PAGES - s" using True by linarith
    from less.hyps [OF this wf1 [unfolded H] st(4) st(3)] obtain m' F' where
      "pmm_free_range (buddy_add_block m (page_pa s) k) (page_pa (s + 2 ^ k)) PMM_END = Some m'" "bwf m' F' {} NUM_PAGES"
      "free_set F' = free_set (F(k := s # F k)) \<union> {s + 2 ^ k..<NUM_PAGES}" by blast
    moreover have "blk s k \<union> {s + 2 ^ k..<NUM_PAGES} = {s..<NUM_PAGES}" using H sub by blast
    ultimately show ?thesis unfolding eq free_set_push [OF st(1)] by (metis sup_assoc sup_commute)
  qed
qed

lemma init_lists_ring:
  "k \<in> set ks \<Longrightarrow> distinct ks \<Longrightarrow> ring (foldl (\<lambda>l k. list_init l (Sent k)) l ks) (Sent k) []"
proof (induction ks rule: rev_induct)
  case (snoc j ks)
  show ?case
  proof (cases "k = j")
    case True
    then show ?thesis by (simp add: ring_init)
  next
    case False
    with snoc show ?thesis by (simp add: ring_init_other)
  qed
qed simp

lemma reserve_fields:
  "page_state (pmm_reserve m r) p = (if p < r then PAGE_RESERVED else page_state m p)"
  "page_ord (pmm_reserve m r) = page_ord m" "page_refs (pmm_reserve m r) = page_refs m"
  "buddy_links (pmm_reserve m r) = buddy_links m" "buddy_count (pmm_reserve m r) = buddy_count m"
  "total_free_pages (pmm_reserve m r) = total_free_pages m"
  by (induction r) (auto simp: pmm_reserve_def)

lemma boot_hole:
  assumes "r \<le> NUM_PAGES"
  shows "bwf (pmm_reserve (pmm_init_lists pmm_bss) r) (\<lambda>_. []) {r..<NUM_PAGES} NUM_PAGES"
proof -
  have "rings (buddy_links (pmm_reserve (pmm_init_lists pmm_bss) r)) (\<lambda>_. [])"
    unfolding rings_def reserve_fields
    by (auto simp: pmm_init_lists_def nodes_def intro!: init_lists_ring)
  then show ?thesis
    unfolding bwf_def by (auto simp: reserve_fields free_set_def pmm_init_lists_def pmm_bss_def)
qed

lemma bwf_no_hole: "bwf m F {} h \<Longrightarrow> bwf m F {} h'"
  unfolding bwf_def by simp

subsection \<open>The allocator as a set of free pages\<close>

definition pmm_rel :: "pmm \<Rightarrow> nat set \<Rightarrow> bool" where
  "pmm_rel m S \<longleftrightarrow> (\<exists>F. buddy_wf m F \<and> free_set F = S)"

lemma pmm_rel_total: "pmm_rel m S \<Longrightarrow> total_free_pages m = of_nat (card S)"
  using bwf_counts(2) by (auto simp: pmm_rel_def)

lemma pmm_rel_bound: "pmm_rel m S \<Longrightarrow> S \<subseteq> {..<NUM_PAGES}"
  unfolding pmm_rel_def using free_set_bound by blast

lemma pmm_alloc_some:
  assumes rel: "pmm_rel m S" and eq: "phys_alloc_pages m order = Some (pa, m')"
  obtains i where "pa = page_pa i" "2 ^ order dvd i" "blk i order \<subseteq> S" "pmm_rel m' (S - blk i order)"
    "\<forall>p \<in> blk i order. page_state m' p = PAGE_ALLOC \<and> page_refs m' p = 1"
    "\<forall>p. p \<notin> S \<longrightarrow> page_state m' p = page_state m p \<and> page_refs m' p = page_refs m p" "order < MAX_ORDER"
proof -
  obtain F where F: "buddy_wf m F" "free_set F = S" using rel by (auto simp: pmm_rel_def)
  have o: "order < MAX_ORDER" using eq by (auto simp: phys_alloc_pages_def split: if_splits)
  obtain k where k: "order \<le> k" "k < MAX_ORDER" "F k \<noteq> []" using phys_alloc_pages_oom [OF F(1) o] eq by fastforce
  have "coal False F" by (simp add: coal_def)
  from phys_alloc_pages_wf [OF F(1) this o k] obtain i m2 F' where
    "phys_alloc_pages m order = Some (page_pa i, m2)" "buddy_wf m2 F'" "2 ^ order dvd i" "blk i order \<subseteq> free_set F"
    "free_set F' = free_set F - blk i order" "\<forall>p \<in> blk i order. page_state m2 p = PAGE_ALLOC \<and> page_refs m2 p = 1"
    "\<forall>p. p \<notin> free_set F \<longrightarrow> page_state m2 p = page_state m p \<and> page_refs m2 p = page_refs m p" by metis
  then show ?thesis using that [of i] eq F(2) o unfolding pmm_rel_def by auto
qed

lemma pmm_free_some:
  assumes rel: "pmm_rel m S" and p: "p < NUM_PAGES" "p \<notin> S" "page_state m p \<noteq> PAGE_RESERVED" and r: "\<not> page_refs m p > 1"
  shows "pmm_rel (phys_free_page m (page_pa p)) (insert p S)"
    "page_refs (phys_free_page m (page_pa p)) = (page_refs m)(p := 0)"
    "q \<notin> insert p S \<Longrightarrow> page_state (phys_free_page m (page_pa p)) q = page_state m q"
proof -
  obtain F where F: "buddy_wf m F" "free_set F = S" using rel by (auto simp: pmm_rel_def)
  have nf: "page_state m p \<noteq> PAGE_FREE" using bwf_free_page(1) [OF F(1) p(1)] p(2) F(2) by blast
  have "coal False F" by (simp add: coal_def)
  then obtain F' where F': "buddy_wf (phys_free_page m (page_pa p)) F'" "free_set F' = insert p (free_set F)"
    "page_refs (phys_free_page m (page_pa p)) = (page_refs m)(p := 0)"
    "\<forall>q. q \<notin> insert p (free_set F) \<longrightarrow> page_state (phys_free_page m (page_pa p)) q = page_state m q"
    using phys_free_page_wf [OF F(1) _ p(1) _ p(3) nf r] p(2) F(2) by metis
  then show "pmm_rel (phys_free_page m (page_pa p)) (insert p S)"
    "page_refs (phys_free_page m (page_pa p)) = (page_refs m)(p := 0)"
    "q \<notin> insert p S \<Longrightarrow> page_state (phys_free_page m (page_pa p)) q = page_state m q"
    using F(2) by (auto simp: pmm_rel_def)
qed

text \<open>Releasing an allocated block page by page.\<close>

lemma pmm_free_fold:
  assumes "pmm_rel m S" "i + n \<le> NUM_PAGES"
    and "\<forall>p \<in> {i..<i + n}. p \<notin> S \<and> page_state m p = PAGE_ALLOC \<and> page_refs m p = 1"
  shows "pmm_rel (foldl (\<lambda>m j. phys_free_page m (page_pa i + of_nat j * PAGE_SIZE)) m [0..<n]) (S \<union> {i..<i + n})
     \<and> (\<forall>q. q \<notin> S \<union> {i..<i + n} \<longrightarrow>
          page_state (foldl (\<lambda>m j. phys_free_page m (page_pa i + of_nat j * PAGE_SIZE)) m [0..<n]) q = page_state m q \<and>
          page_refs (foldl (\<lambda>m j. phys_free_page m (page_pa i + of_nat j * PAGE_SIZE)) m [0..<n]) q = page_refs m q)"
  using assms
proof (induction n)
  case 0
  then show ?case by simp
next
  case (Suc n)
  define m1 where "m1 = foldl (\<lambda>m j. phys_free_page m (page_pa i + of_nat j * PAGE_SIZE)) m [0..<n]"
  have IH: "pmm_rel m1 (S \<union> {i..<i + n})"
    "\<forall>q. q \<notin> S \<union> {i..<i + n} \<longrightarrow> page_state m1 q = page_state m q \<and> page_refs m1 q = page_refs m q"
    using Suc by (auto simp: m1_def)
  have p: "i + n < NUM_PAGES" "i + n \<notin> S \<union> {i..<i + n}" using Suc.prems(2,3) by auto
  have st: "page_state m1 (i + n) = PAGE_ALLOC" "page_refs m1 (i + n) = 1" using IH(2) p(2) Suc.prems(3) by auto
  have "page_pa i + of_nat n * PAGE_SIZE = page_pa (i + n)"
    using p(1) by (simp add: page_pa_eq PAGE_SIZE_def algebra_simps)
  then have e: "foldl (\<lambda>m j. phys_free_page m (page_pa i + of_nat j * PAGE_SIZE)) m [0..<Suc n] = phys_free_page m1 (page_pa (i + n))"
    by (simp add: m1_def)
  note f = pmm_free_some [OF IH(1) p]
  have iv: "insert (i + n) (S \<union> {i..<i + n}) = S \<union> {i..<i + Suc n}" by auto
  show ?case
    unfolding e using f(1,2) f(3) st IH(2) iv by auto
qed

lemma pmm_free_refs:
  assumes "p < NUM_PAGES" "page_state m p \<noteq> PAGE_RESERVED" "page_state m p \<noteq> PAGE_FREE" "page_refs m p > 1"
  shows "phys_free_page m (page_pa p) = set_refs m p (page_refs m p - 1)"
  using assms page_pa_in_ram [OF assms(1)] page_pa_mask [OF assms(1)] by (simp add: phys_free_page_def Let_def)

lemma pmm_refs_rel: "pmm_rel m S \<Longrightarrow> p \<notin> S \<Longrightarrow> pmm_rel (set_refs m p r) S"
proof -
  assume "pmm_rel m S" and p: "p \<notin> S"
  then obtain F where F: "buddy_wf m F" "free_set F = S" by (auto simp: pmm_rel_def)
  have "buddy_wf (set_refs m p r) F" using F p unfolding bwf_def by auto
  with F(2) show ?thesis by (auto simp: pmm_rel_def)
qed

text \<open>
  The steps of the allocator with the set of free pages: allocation, and retain and release of
  a page that is in use.
\<close>

inductive pmm_step :: "pmm \<times> nat set \<Rightarrow> pmm \<times> nat set \<Rightarrow> bool" where
  alloc: "phys_alloc_pages m order = Some (pa, m') \<Longrightarrow>
    pmm_step (m, S) (m', S - blk (unat (PA_TO_IDX pa)) order)"
| retain: "p < NUM_PAGES \<Longrightarrow> p \<notin> S \<Longrightarrow> pmm_step (m, S) (phys_retain_page m (page_pa p), S)"
| release: "p < NUM_PAGES \<Longrightarrow> p \<notin> S \<Longrightarrow>
    pmm_step (m, S) (phys_free_page m (page_pa p),
      if page_state m p = PAGE_RESERVED \<or> page_refs m p > 1 then S else insert p S)"

definition pmm_inv :: "pmm \<times> nat set \<Rightarrow> bool" where
  "pmm_inv x \<longleftrightarrow> pmm_rel (fst x) (snd x)"

lemma pmm_step_inv:
  assumes "pmm_inv x" "pmm_step x y" shows "pmm_inv y"
  using assms(2)
proof cases
  case (alloc m order pa m' S)
  then have rel: "pmm_rel m S" using assms(1) by (simp add: pmm_inv_def)
  obtain i where i: "pa = page_pa i" "blk i order \<subseteq> S" "pmm_rel m' (S - blk i order)"
    by (rule pmm_alloc_some [OF rel alloc(3)])
  have "i < NUM_PAGES" using i(2) pmm_rel_bound [OF rel] blk_head by blast
  with i alloc show ?thesis by (simp add: pmm_inv_def)
next
  case (retain p S m)
  then have rel: "pmm_rel m S" using assms(1) by (simp add: pmm_inv_def)
  have "phys_retain_page m (page_pa p) = m \<or> (\<exists>r. phys_retain_page m (page_pa p) = set_refs m p r)"
    using retain(3) page_pa_in_ram [OF retain(3)] page_pa_mask [OF retain(3)]
    by (auto simp: phys_retain_page_def Let_def)
  then show ?thesis using rel pmm_refs_rel [OF rel retain(4)] retain(2) by (auto simp: pmm_inv_def)
next
  case (release p S m)
  then have rel: "pmm_rel m S" using assms(1) by (simp add: pmm_inv_def)
  have "page_state m p \<noteq> PAGE_FREE"
    using rel bwf_free_page(1) [OF _ release(3)] release(4) unfolding pmm_rel_def by blast
  moreover have "phys_free_page m (page_pa p) = m" if "page_state m p = PAGE_RESERVED"
    using that page_pa_in_ram [OF release(3)] page_pa_mask [OF release(3)] release(3) by (simp add: phys_free_page_def Let_def)
  ultimately show ?thesis
    using pmm_free_refs [OF release(3)] pmm_free_some(1) [OF rel release(3,4)] pmm_refs_rel [OF rel release(4)] rel release(2)
    by (cases "page_state m p = PAGE_RESERVED"; cases "page_refs m p > 1") (auto simp: pmm_inv_def)
qed

interpretation pmmsys: invariant_system pmm_step pmm_inv
  by unfold_locales (rule pmm_step_inv)

text \<open>In coalesced lists a free aligned block lies inside one block of the lists.\<close>

lemma coalesced_cover:
  assumes wf: "buddy_wf m F" and c: "coalesced F"
  shows "2 ^ k dvd i \<Longrightarrow> blk i k \<subseteq> free_set F \<Longrightarrow> k < MAX_ORDER \<Longrightarrow>
     \<exists>j a. k \<le> j \<and> j < MAX_ORDER \<and> a \<in> set (F j) \<and> blk i k \<subseteq> blk a j"
proof (induction k arbitrary: i)
  case 0
  then show ?case unfolding blk_0 by (simp add: free_set_iff)
next
  case (Suc k)
  let ?x = "i + 2 ^ k"
  have al: "2 ^ k dvd i" "2 ^ k dvd ?x" using Suc.prems(1) dvd_mult_right by auto
  note sp = blk_split [of i k]
  obtain j a where a: "k \<le> j" "j < MAX_ORDER" "a \<in> set (F j)" "blk i k \<subseteq> blk a j"
    using Suc.IH [OF al(1)] sp Suc.prems by auto
  obtain j' a' where a': "k \<le> j'" "j' < MAX_ORDER" "a' \<in> set (F j')" "blk ?x k \<subseteq> blk a' j'"
    using Suc.IH [OF al(2)] sp Suc.prems by auto
  have bd: "buddy_of i k = ?x" "buddy_of ?x k = i" using buddy_of_pair [OF Suc.prems(1)] by auto
  have big: "blk i (Suc k) \<subseteq> blk b l" if "k < l" "2 ^ l dvd b" "i \<in> blk b l" for b l
  proof
    fix p assume "p \<in> blk i (Suc k)"
    then have "p div 2 ^ Suc k = i div 2 ^ Suc k" using blk_mem_div [OF Suc.prems(1)] by blast
    moreover have "x div 2 ^ l = x div 2 ^ Suc k div 2 ^ (l - Suc k)" for x :: nat
      using that(1) by (simp add: div_mult2_eq [symmetric] power_add [symmetric] del: power_Suc)
    ultimately have "p div 2 ^ l = i div 2 ^ l" by metis
    then show "p \<in> blk b l" using that(2,3) blk_mem_div by metis
  qed
  consider "k < j" | "k < j'" | "j = k" "j' = k" using a(1) a'(1) by linarith
  then show ?case
  proof cases
    case 1
    have "blk i (Suc k) \<subseteq> blk a j"
      by (rule big [OF 1 bwf_block(1) [OF wf a(2,3)]]) (use a(4) blk_head [of i k] in blast)
    then show ?thesis using 1 a(2,3) by (metis Suc_leI)
  next
    case 2
    have "?x \<in> blk a' j'" using a'(4) blk_head [of ?x k] by blast
    then have "i \<in> blk a' j'" using buddy_same_block [OF al(1) bwf_block(1) [OF wf a'(2,3)] 2] bd(1) by simp
    then have "blk i (Suc k) \<subseteq> blk a' j'" by (rule big [OF 2 bwf_block(1) [OF wf a'(2,3)]])
    then show ?thesis using 2 a'(2,3) by (metis Suc_leI)
  next
    case 3
    have eq: "b = y" if "blk y k \<subseteq> blk b k" for b y
    proof -
      have "blk y k = blk b k" using that by (intro card_subset_eq) auto
      then show ?thesis using blk_head [of y k] blk_head [of b k] by (auto simp: blk_def)
    qed
    have "i \<in> set (F k)" "?x \<in> set (F k)" using a a' 3 eq by metis+
    then show ?thesis using c bd(1) Suc.prems(3) unfolding coalesced_def by (metis Suc_less_eq2 diff_Suc_1 less_diff_conv plus_1_eq_Suc add.commute)
  qed
qed

subsection \<open>Properties\<close>

lemma pmm_boot_rel:
  assumes "r \<le> NUM_PAGES" "r mod 4 \<noteq> 1"
  obtains m where "pmm_init_buddy pmm_bss (page_pa r) = Some m" "pmm_rel m {r..<NUM_PAGES}"
proof -
  have idx: "unat (PA_TO_IDX (page_pa r)) = r" using assms(1) by simp
  from free_range_wf [OF boot_hole [OF assms(1)] assms(2,1)] obtain m F where
    m: "pmm_free_range (pmm_reserve (pmm_init_lists pmm_bss) r) (page_pa r) PMM_END = Some m" "bwf m F {} NUM_PAGES"
    "free_set F = free_set (\<lambda>_. []) \<union> {r..<NUM_PAGES}" by blast
  then have "pmm_rel m {r..<NUM_PAGES}"
    using bwf_no_hole [OF m(2), of 0] by (auto simp: pmm_rel_def free_set_def)
  with m(1) that show ?thesis by (simp add: pmm_init_buddy_def idx)
qed

text \<open>
  If the index of the first page is 1 modulo 4 (and two pages are left), the first block put
  on the lists has order at least 1 and does not start at a multiple of its size: the alignment
  test looks at the wrong bit.
\<close>

lemma pmm_boot_misaligned:
  assumes "r + 2 \<le> NUM_PAGES" "r mod 4 = 1" "k = free_range_order (page_pa r) PMM_END 0"
  shows "1 \<le> k \<and> \<not> 2 ^ k dvd r"
proof -
  have r: "r < NUM_PAGES" "r + 2 ^ 0 \<le> NUM_PAGES" using assms(1) by simp_all
  have m: "0 < MAX_ORDER" by (simp add: MAX_ORDER_def)
  have "\<forall>j. 1 \<le> j \<and> j \<le> 0 \<longrightarrow> \<not> bit r j" by simp
  from free_range_order_spec(5) [OF r(1) m this r(2) assms(3)] have
    s: "k < MAX_ORDER - 1 \<Longrightarrow> bit r (Suc k) \<or> r + 2 ^ Suc k > NUM_PAGES" .
  have "bit r 1 \<longleftrightarrow> r div 2 mod 2 = 1" by (simp add: bit_iff_odd odd_iff_mod_2_eq_one)
  then have nb: "\<not> bit r 1" using assms(2) by presburger
  have k: "1 \<le> k"
  proof (rule ccontr)
    assume "\<not> 1 \<le> k"
    then have "k = 0" by simp
    then show False using s nb assms(1) by (simp add: MAX_ORDER_def)
  qed
  have "odd r" using assms(2) by presburger
  then have "\<not> 2 ^ k dvd r" using k by (metis dvd_power dvd_trans less_le_trans zero_less_one)
  with k show ?thesis by blast
qed

text \<open>
  C13. Allocation of \<open>2 ^ order\<close> pages returns an aligned block of free pages, marks its pages
  allocated with one reference, takes exactly those pages from the free set and leaves the
  descriptors of the pages in use alone. It panics only if no list of that order or above has a
  block; with coalesced lists, only if no aligned free block of that size exists. Coalesced
  lists stay coalesced.
\<close>

theorem pmm_alloc_correct:
  assumes wf: "buddy_wf m F" and o: "order < MAX_ORDER"
  shows "case phys_alloc_pages m order of
      None \<Rightarrow> (\<forall>k. order \<le> k \<and> k < MAX_ORDER \<longrightarrow> F k = []) \<and>
        (coalesced F \<longrightarrow> \<not> (\<exists>i. 2 ^ order dvd i \<and> blk i order \<subseteq> free_set F))
    | Some (pa, m') \<Rightarrow> \<exists>i F'. pa = page_pa i \<and> 2 ^ order dvd i \<and> blk i order \<subseteq> free_set F \<and>
        buddy_wf m' F' \<and> free_set F' = free_set F - blk i order \<and> (coalesced F \<longrightarrow> coalesced F') \<and>
        (\<forall>p \<in> blk i order. page_state m' p = PAGE_ALLOC \<and> page_refs m' p = 1) \<and>
        (\<forall>p. p \<notin> free_set F \<longrightarrow> page_state m' p = page_state m p \<and> page_refs m' p = page_refs m p)"
proof (cases "\<exists>k. order \<le> k \<and> k < MAX_ORDER \<and> F k \<noteq> []")
  case True
  then obtain k where k: "order \<le> k" "k < MAX_ORDER" "F k \<noteq> []" by blast
  have c: "coal (coalesced F) F" by (simp add: coal_def)
  obtain i m' F' where "phys_alloc_pages m order = Some (page_pa i, m')" "buddy_wf m' F'" "coal (coalesced F) F'"
    "2 ^ order dvd i" "blk i order \<subseteq> free_set F" "free_set F' = free_set F - blk i order"
    "\<forall>p \<in> blk i order. page_state m' p = PAGE_ALLOC \<and> page_refs m' p = 1"
    "\<forall>p. p \<notin> free_set F \<longrightarrow> page_state m' p = page_state m p \<and> page_refs m' p = page_refs m p"
    by (rule phys_alloc_pages_wf [OF wf c o k])
  then show ?thesis unfolding coal_def by auto
next
  case False
  then have e: "F k = []" if "order \<le> k" "k < MAX_ORDER" for k using that by blast
  have "\<not> (\<exists>i. 2 ^ order dvd i \<and> blk i order \<subseteq> free_set F)" if c: "coalesced F"
  proof
    assume "\<exists>i. 2 ^ order dvd i \<and> blk i order \<subseteq> free_set F"
    then obtain j a where "order \<le> j" "j < MAX_ORDER" "a \<in> set (F j)" using coalesced_cover [OF wf c] o by blast
    then show False using e [of j] by simp
  qed
  then show ?thesis using phys_alloc_pages_oom [OF wf o e] e by simp
qed

theorem pmm_alloc_correct_witness:
  "\<exists>m F. buddy_wf m F \<and> (\<exists>i m'. phys_alloc_pages m 0 = Some (page_pa i, m') \<and> page_refs m' i = 1)"
proof -
  obtain m where "pmm_rel m {0..<NUM_PAGES}" by (rule pmm_boot_rel [of 0]) auto
  then obtain F where F: "buddy_wf m F" "free_set F = {0..<NUM_PAGES}" by (auto simp: pmm_rel_def)
  have o: "(0 :: nat) < MAX_ORDER" by (simp add: MAX_ORDER_def)
  have "0 \<in> free_set F" using F(2) by simp
  then obtain k a where "k < MAX_ORDER" "a \<in> set (F k)" unfolding free_set_iff by blast
  with pmm_alloc_correct [OF F(1) o] obtain x where x: "phys_alloc_pages m 0 = Some x"
    by (cases "phys_alloc_pages m 0") auto
  then obtain i m' where "x = (page_pa i, m')" "\<forall>p \<in> blk i 0. page_refs m' p = 1"
    using pmm_alloc_correct [OF F(1) o] by (cases x) auto
  with F(1) x show ?thesis by auto
qed

text \<open>
  C14. Releasing a page in use: with more than one reference only the count drops; with the last
  one the page joins the free set, the total grows by one, no other reference count and no
  descriptor of another page in use changes, and coalesced lists stay coalesced (the page is
  merged with its buddy as far as possible).
\<close>

theorem pmm_free_correct:
  assumes wf: "buddy_wf m F"
    and p: "p < NUM_PAGES" "p \<notin> free_set F" "page_state m p \<noteq> PAGE_RESERVED"
  shows "(page_refs m p > 1 \<longrightarrow> phys_free_page m (page_pa p) = set_refs m p (page_refs m p - 1)) \<and>
    (page_refs m p \<le> 1 \<longrightarrow>
      (\<exists>F'. buddy_wf (phys_free_page m (page_pa p)) F' \<and> free_set F' = insert p (free_set F) \<and>
         (coalesced F \<longrightarrow> coalesced F') \<and>
         total_free_pages (phys_free_page m (page_pa p)) = total_free_pages m + 1 \<and>
         page_refs (phys_free_page m (page_pa p)) = (page_refs m)(p := 0) \<and>
         (\<forall>q. q \<notin> insert p (free_set F) \<longrightarrow> page_state (phys_free_page m (page_pa p)) q = page_state m q)))"
proof (intro conjI impI)
  have nf: "page_state m p \<noteq> PAGE_FREE" using bwf_free_page(1) [OF wf p(1)] p(2) by blast
  show "page_refs m p > 1 \<Longrightarrow> phys_free_page m (page_pa p) = set_refs m p (page_refs m p - 1)"
    by (rule pmm_free_refs [OF p(1,3) nf])
  assume r: "page_refs m p \<le> 1"
  have c: "coal (coalesced F) F" by (simp add: coal_def)
  obtain F' where F': "buddy_wf (phys_free_page m (page_pa p)) F'" "coal (coalesced F) F'"
    "free_set F' = insert p (free_set F)" "page_refs (phys_free_page m (page_pa p)) = (page_refs m)(p := 0)"
    "\<forall>q. q \<notin> insert p (free_set F) \<longrightarrow> page_state (phys_free_page m (page_pa p)) q = page_state m q"
    by (rule phys_free_page_wf [OF wf c p(1,2,3) nf]) (use r in auto)
  have "total_free_pages (phys_free_page m (page_pa p)) = total_free_pages m + 1"
    using bwf_counts(2) [OF F'(1)] bwf_counts(2) [OF wf] F'(3) p(2) free_set_finite [OF wf] by simp
  with F' show "\<exists>F'. buddy_wf (phys_free_page m (page_pa p)) F' \<and> free_set F' = insert p (free_set F) \<and>
         (coalesced F \<longrightarrow> coalesced F') \<and>
         total_free_pages (phys_free_page m (page_pa p)) = total_free_pages m + 1 \<and>
         page_refs (phys_free_page m (page_pa p)) = (page_refs m)(p := 0) \<and>
         (\<forall>q. q \<notin> insert p (free_set F) \<longrightarrow> page_state (phys_free_page m (page_pa p)) q = page_state m q)"
    unfolding coal_def by blast
qed

definition pmm_full :: pmm where
  "pmm_full = (pmm_init_lists pmm_bss)\<lparr>page_state := (\<lambda>_. PAGE_ALLOC), page_refs := (\<lambda>_. 1)\<rparr>"

lemma pmm_full_wf: "buddy_wf pmm_full (\<lambda>_. [])"
proof -
  have "rings (buddy_links pmm_full) (\<lambda>_. [])"
    unfolding rings_def by (auto simp: pmm_full_def pmm_init_lists_def nodes_def intro!: init_lists_ring)
  then show ?thesis
    unfolding bwf_def by (auto simp: pmm_full_def free_set_def pmm_init_lists_def pmm_bss_def)
qed

theorem pmm_free_correct_witness: "total_free_pages (phys_free_page pmm_full (page_pa 7)) = 1"
  using pmm_free_correct [OF pmm_full_wf, of 7]
  by (auto simp: free_set_def pmm_full_def pmm_init_lists_def pmm_bss_def)

text \<open>A block that is allocated and then released leaves the free set and the pages in use as they were.\<close>

lemma pmm_alloc_free_roundtrip:
  assumes "pmm_rel m S" "phys_alloc_pages m order = Some (pa, m')"
  shows "pmm_rel (phys_free_pages m' pa order) S \<and>
     (\<forall>p. p \<notin> S \<longrightarrow> page_state (phys_free_pages m' pa order) p = page_state m p \<and>
        page_refs (phys_free_pages m' pa order) p = page_refs m p)"
proof -
  obtain i where i: "pa = page_pa i" "2 ^ order dvd i" "blk i order \<subseteq> S" "pmm_rel m' (S - blk i order)"
    "\<forall>p \<in> blk i order. page_state m' p = PAGE_ALLOC \<and> page_refs m' p = 1"
    "\<forall>p. p \<notin> S \<longrightarrow> page_state m' p = page_state m p \<and> page_refs m' p = page_refs m p"
    by (rule pmm_alloc_some [OF assms])
  have "i + 2 ^ order \<le> NUM_PAGES" using i(3) pmm_rel_bound [OF assms(1)] blk_bound by blast
  from pmm_free_fold [OF i(4) this] i(5) have
    "pmm_rel (phys_free_pages m' pa order) (S - blk i order \<union> blk i order) \<and>
     (\<forall>q. q \<notin> S - blk i order \<union> blk i order \<longrightarrow>
        page_state (phys_free_pages m' pa order) q = page_state m' q \<and> page_refs (phys_free_pages m' pa order) q = page_refs m' q)"
    unfolding phys_free_pages_def i(1) blk_def by auto
  moreover have "S - blk i order \<union> blk i order = S" using i(3) by blast
  ultimately show ?thesis using i(6) by metis
qed


definition pmm_kernel_safe :: "nat \<Rightarrow> pmm \<times> nat set \<Rightarrow> bool" where
  "pmm_kernel_safe r x \<longleftrightarrow> pmm_inv x \<and> (\<forall>p < r. p \<notin> snd x \<and> page_state (fst x) p = PAGE_RESERVED)"

lemma pmm_kernel_step:
  assumes "pmm_kernel_safe r x" "pmm_step x y" "r \<le> NUM_PAGES" shows "pmm_kernel_safe r y"
proof -
  have inv: "pmm_inv x" "\<forall>p < r. p \<notin> snd x \<and> page_state (fst x) p = PAGE_RESERVED"
    using assms(1) by (auto simp: pmm_kernel_safe_def)
  have "\<forall>p < r. p \<notin> snd y \<and> page_state (fst y) p = PAGE_RESERVED"
    using assms(2)
  proof cases
    case (alloc m order pa m' S)
    then have "pmm_rel m S" using inv(1) by (simp add: pmm_inv_def)
    from pmm_alloc_some [OF this alloc(3)] have "\<forall>p. p \<notin> S \<longrightarrow> page_state m' p = page_state m p" by metis
    then show ?thesis using inv(2) alloc(1,2) by auto
  next
    case (retain p S m)
    have "page_state (phys_retain_page m (page_pa p)) = page_state m" by (simp add: phys_retain_page_def Let_def)
    then show ?thesis using inv(2) retain(1,2) by simp
  next
    case (release p S m)
    then have rel: "pmm_rel m S" using inv(1) by (simp add: pmm_inv_def)
    have nf: "page_state m p \<noteq> PAGE_FREE" using rel bwf_free_page(1) [OF _ release(3)] release(4) unfolding pmm_rel_def by blast
    consider (res) "page_state m p = PAGE_RESERVED" | (cnt) "page_state m p \<noteq> PAGE_RESERVED" "page_refs m p > 1"
      | (free) "page_state m p \<noteq> PAGE_RESERVED" "\<not> page_refs m p > 1" by blast
    then show ?thesis
    proof cases
      case res
      then have "phys_free_page m (page_pa p) = m"
        using page_pa_in_ram [OF release(3)] page_pa_mask [OF release(3)] release(3) by (simp add: phys_free_page_def Let_def)
      then show ?thesis using inv(2) release(1,2) res by simp
    next
      case cnt
      then show ?thesis using inv(2) release(1,2) pmm_free_refs [OF release(3) cnt(1) nf cnt(2)] by simp
    next
      case free
      have ne: "q \<noteq> p" "q \<notin> S" if "q < r" for q using inv(2) release(1) free(1) that by auto
      have "page_state (phys_free_page m (page_pa p)) q = PAGE_RESERVED" if "q < r" for q
        using pmm_free_some(3) [OF rel release(3,4) free, of q] ne [OF that] inv(2) release(1) that by simp
      then show ?thesis using release(2) free ne by auto
    qed
  qed
  then show ?thesis using pmm_step_inv [OF inv(1) assms(2)] by (simp add: pmm_kernel_safe_def)
qed

lemma boot_reserved:
  assumes "pmm_free_range m (page_pa s) PMM_END = Some m'" "s \<le> NUM_PAGES" "s mod 4 \<noteq> 1" "p < s"
  shows "page_state m' p = page_state m p"
  using assms
proof (induction "NUM_PAGES - s" arbitrary: m s rule: less_induct)
  case less
  show ?case
  proof (cases "s < NUM_PAGES")
    case False
    then have "s = NUM_PAGES" using less.prems(2) by simp
    then have "pmm_free_range m (page_pa s) PMM_END = Some m"
      by (subst pmm_free_range.simps) (simp add: PMM_END_page)
    then show ?thesis using less.prems(1) by simp
  next
    case True
    define k where "k = free_range_order (page_pa s) PMM_END 0"
    note st = free_range_step [OF True less.prems(3) k_def]
    have "page_pa s < PMM_END" using page_pa_less [of s NUM_PAGES] True by (simp add: PMM_END_page)
    then have eq: "pmm_free_range (buddy_add_block m (page_pa s) k) (page_pa (s + 2 ^ k)) PMM_END = Some m'"
      using page_pa_add [of s k] st(3) less.prems(1) by (subst (asm) pmm_free_range.simps) (simp add: k_def Let_def)
    have "(0 :: nat) < 2 ^ k" by simp
    then have lt: "NUM_PAGES - (s + 2 ^ k) < NUM_PAGES - s" using True by linarith
    have "page_state m' p = page_state (buddy_add_block m (page_pa s) k) p"
      by (rule less.hyps [OF lt eq st(3,4)]) (use less.prems(4) in simp)
    then show ?thesis using buddy_add_fields(1) [OF True, of m k] less.prems(4) by simp
  qed
qed

interpretation kernelsys: invariant_system pmm_step "pmm_kernel_safe (min r NUM_PAGES)" for r
  by unfold_locales (rule pmm_kernel_step, auto)



end
