(* ===== verification/Vmm.thy ===== *)
theory Vmm
  imports Pmm Sched
begin

text \<open>
  File-backed mappings, \<^verbatim>\<open>kernel/vmm.c\<close>: a table of areas per task and the write-back of their
  pages. The file handles of the VFS are values of a type parameter; \<^verbatim>\<open>vfs_write\<close> of a page is an
  entry of the list of writes an operation returns (handle, position in the file, user address of the page), and
  \<open>res va\<close> tells whether \<^verbatim>\<open>mmu_space_resolve_ptr\<close> finds the page.
\<close>

subsection \<open>Areas\<close>

definition VMA_MAX_PER_TASK :: nat where "VMA_MAX_PER_TASK = 16"

definition VMA_FLAG_SHARED :: u32 where "VMA_FLAG_SHARED = 1"

definition VMA_FLAG_WRITE :: u32 where "VMA_FLAG_WRITE = 2"

record 'f vm_area =
  v_start :: u64
  v_size :: u64
  v_flags :: u32
  v_file_offset :: u64
  v_file :: 'f
  v_active :: bool

type_synonym 'f vma_pool = "nat \<Rightarrow> nat \<Rightarrow> 'f vm_area"

definition set_vma :: "'f vma_pool \<Rightarrow> nat \<Rightarrow> nat \<Rightarrow> 'f vm_area \<Rightarrow> 'f vma_pool" where
  "set_vma p i j v = p(i := (p i)(j := v))"

definition pid_to_idx :: "u32 \<Rightarrow> nat" where
  "pid_to_idx pid = unat pid mod SCHED_MAX_TASKS"

definition vma_zero :: "'f vm_area \<Rightarrow> 'f vm_area" where
  "vma_zero v = v\<lparr>v_active := False, v_start := 0, v_size := 0, v_flags := 0, v_file_offset := 0\<rparr>"

definition vmm_init :: "'f vma_pool \<Rightarrow> 'f vma_pool" where
  "vmm_init p = (\<lambda>i j. if i < SCHED_MAX_TASKS \<and> j < VMA_MAX_PER_TASK then vma_zero (p i j) else p i j)"

definition vmm_map_file ::
  "'f vma_pool \<Rightarrow> u32 \<Rightarrow> u64 \<Rightarrow> u64 \<Rightarrow> u32 \<Rightarrow> u64 \<Rightarrow> 'f option \<Rightarrow> (errno + unit) \<times> 'f vma_pool" where
  "vmm_map_file p pid va sz flags file_offset file =
     (let idx = pid_to_idx pid
      in case file of
           None \<Rightarrow> (Inl EINVAL, p)
         | Some f \<Rightarrow>
             if sz = 0 then (Inl EINVAL, p)
             else
               (case for_find (\<lambda>j. \<not> v_active (p idx j)) 0 VMA_MAX_PER_TASK of
                  None \<Rightarrow> (Inl ENOMEM, p)
                | Some j \<Rightarrow>
                    (Inr (), set_vma p idx j \<lparr>v_start = va, v_size = sz, v_flags = flags,
                       v_file_offset = file_offset, v_file = f, v_active = True\<rparr>)))"

definition vma_covers :: "'f vm_area \<Rightarrow> u64 \<Rightarrow> bool" where
  "vma_covers v va \<longleftrightarrow> v_active v \<and> va \<ge> v_start v \<and> va < v_start v + v_size v"

definition vmm_find :: "'f vma_pool \<Rightarrow> u32 \<Rightarrow> u64 \<Rightarrow> nat option" where
  "vmm_find p pid va = for_find (\<lambda>j. vma_covers (p (pid_to_idx pid) j) va) 0 VMA_MAX_PER_TASK"

subsection \<open>Write-back\<close>

type_synonym 'f page_write = "'f \<times> u64 \<times> u64"

partial_function (option) vmm_sync_loop ::
  "'f vm_area \<Rightarrow> (u64 \<Rightarrow> bool) \<Rightarrow> u64 \<times> u64 \<Rightarrow> 'f page_write list option" where
  "vmm_sync_loop v res ce =
     (if fst ce < snd ce then
        do {
          ws \<leftarrow> vmm_sync_loop v res (fst ce + PAGE_SIZE, snd ce);
          Some (if res (fst ce) then (v_file v, v_file_offset v + (fst ce - v_start v), fst ce) # ws else ws)
        }
      else Some [])"

definition vmm_msync ::
  "'f vma_pool \<Rightarrow> u32 \<Rightarrow> (u64 \<Rightarrow> bool) option \<Rightarrow> u64 \<Rightarrow> u64 \<Rightarrow> ((errno + unit) \<times> 'f page_write list) option" where
  "vmm_msync p pid space va sz =
     (case space of
        None \<Rightarrow> Some (Inl EINVAL, [])
      | Some res \<Rightarrow>
          if sz = 0 then Some (Inl EINVAL, [])
          else
            (case vmm_find p pid va of
               None \<Rightarrow> Some (Inl EINVAL, [])
             | Some j \<Rightarrow>
                 (let v = p (pid_to_idx pid) j
                  in if v_flags v AND VMA_FLAG_SHARED = 0 \<or> v_flags v AND VMA_FLAG_WRITE = 0 then Some (Inr (), [])
                     else
                       (let sync_start = (if va > v_start v then va else v_start v);
                            sync_end = (if va + sz < v_start v + v_size v then va + sz else v_start v + v_size v)
                        in do { ws \<leftarrow> vmm_sync_loop v res (sync_start, sync_end); Some (Inr (), ws) }))))"

definition vmm_unmap_range ::
  "'f vma_pool \<Rightarrow> u32 \<Rightarrow> (u64 \<Rightarrow> bool) option \<Rightarrow> u64 \<Rightarrow> u64 \<Rightarrow> ((errno + unit) \<times> 'f page_write list \<times> 'f vma_pool) option" where
  "vmm_unmap_range p pid space va sz =
     (let idx = pid_to_idx pid
      in case for_find (\<lambda>j. vma_covers (p idx j) va) 0 VMA_MAX_PER_TASK of
           None \<Rightarrow> Some (Inl EINVAL, [], p)
         | Some j \<Rightarrow>
             do {
               (_, ws) \<leftarrow> vmm_msync p pid space (v_start (p idx j)) (v_size (p idx j));
               Some (Inr (), ws, set_vma p idx j (vma_zero (p idx j)))
             })"

definition vmm_cleanup_task :: "'f vma_pool \<Rightarrow> u32 \<Rightarrow> 'f vma_pool" where
  "vmm_cleanup_task p pid =
     p(pid_to_idx pid := (\<lambda>j. if j < VMA_MAX_PER_TASK then vma_zero (p (pid_to_idx pid) j) else p (pid_to_idx pid) j))"

subsection \<open>The pages of a range\<close>

text \<open>The reference: the addresses \<open>a, a + PAGE_SIZE, \<dots>\<close> below \<open>e\<close>.\<close>

definition range_pages :: "u64 \<Rightarrow> u64 \<Rightarrow> u64 list" where
  "range_pages a e = map (\<lambda>k. a + of_nat k * PAGE_SIZE) [0..<(unat e - unat a + 4095) div 4096]"

lemma page_size_unat [simp]: "unat PAGE_SIZE = 4096"
  by (simp add: PAGE_SIZE_def)

lemma range_pages_empty: "e \<le> a \<Longrightarrow> range_pages a e = []"
  by (simp add: range_pages_def word_le_nat_alt)

lemma unat_page_step: "unat a < 2 ^ 63 \<Longrightarrow> unat (a + PAGE_SIZE) = unat a + 4096" for a :: u64
  by (simp add: unat_word_ariths)

lemma range_pages_step:
  assumes "a < e" "unat e < 2 ^ 63"
  shows "range_pages a e = a # range_pages (a + PAGE_SIZE) e"
proof -
  let ?n = "(unat e - unat a + 4095) div 4096"
  have a: "unat a < unat e" "unat a < 2 ^ 63" using assms by (auto simp: word_less_nat_alt)
  have step: "unat (a + PAGE_SIZE) = unat a + 4096" by (rule unat_page_step [OF a(2)])
  have "(d + 4095) div 4096 = Suc ((d - 4096 + 4095) div 4096)" if d: "0 < d" for d :: nat
  proof -
    obtain k where k: "d = Suc k" using d not0_implies_Suc by blast
    have "(d - 4096 + 4095) div 4096 = k div 4096" by (cases "d < 4096") (simp_all add: k)
    moreover have "(d + 4095) div 4096 = (k + 4096) div 4096" by (simp add: k)
    ultimately show ?thesis by simp
  qed
  from this [of "unat e - unat a"] have n: "?n = Suc ((unat e - unat (a + PAGE_SIZE) + 4095) div 4096)"
    using a(1) by (simp add: step)
  have "range_pages a e = map (\<lambda>k. a + of_nat k * PAGE_SIZE) (0 # map Suc [0..<(unat e - unat (a + PAGE_SIZE) + 4095) div 4096])"
    unfolding range_pages_def n by (simp add: upt_conv_Cons map_Suc_upt del: upt_Suc)
  then show ?thesis by (simp add: range_pages_def algebra_simps)
qed

lemma sync_loop_pages:
  assumes "unat e < 2 ^ 63"
  shows "vmm_sync_loop v res (a, e) =
    Some (map (\<lambda>c. (v_file v, v_file_offset v + (c - v_start v), c)) (filter res (range_pages a e)))"
proof (induction "unat e - unat a" arbitrary: a rule: less_induct)
  case less
  show ?case
  proof (cases "a < e")
    case False then show ?thesis by (subst vmm_sync_loop.simps) (simp add: range_pages_empty)
  next
    case True
    have u: "unat a < unat e" using True by (simp add: word_less_nat_alt)
    then have "unat (a + PAGE_SIZE) = unat a + 4096" using assms by (intro unat_page_step) simp
    then have "vmm_sync_loop v res (a + PAGE_SIZE, e) =
      Some (map (\<lambda>c. (v_file v, v_file_offset v + (c - v_start v), c)) (filter res (range_pages (a + PAGE_SIZE) e)))"
      using u by (intro less.hyps) simp
    then show ?thesis using True by (subst vmm_sync_loop.simps) (simp add: range_pages_step [OF True assms])
  qed
qed

lemma covers_range:
  assumes "unat va + unat sz < 2 ^ 63" "v_active v" "v_start v = va" "v_size v = sz"
  shows "vma_covers v a \<longleftrightarrow> unat va \<le> unat a \<and> unat a < unat va + unat sz"
proof -
  have "unat (va + sz) = unat va + unat sz" using assms(1) by (simp add: unat_word_ariths)
  then show ?thesis using assms by (simp add: vma_covers_def word_le_nat_alt word_less_nat_alt)
qed

text \<open>
  C19. Mapping, finding, writing back and unmapping fit together. After a file was mapped on a range that
  no other area of the task covers, every address of the range, and only those, is found to be
  in the new area; other tasks are not affected. Unmapping at any address of the range returns,
  writes back each resolvable page of a shared writable area once, in order, at the
  file position that belongs to it (and nothing for a private or read-only area), and the range
  is unmapped again. Mapping fails with \<open>ENOMEM\<close> exactly when all slots are in use.
\<close>

theorem vmm_map_unmap_roundtrip:
  assumes nowrap: "unat va + unat sz < 2 ^ 63" and sz: "sz \<noteq> 0"
    and fresh: "\<forall>j < VMA_MAX_PER_TASK. \<forall>a. unat va \<le> unat a \<and> unat a < unat va + unat sz \<longrightarrow> \<not> vma_covers (p (pid_to_idx pid) j) a"
  shows "(\<forall>j < VMA_MAX_PER_TASK. v_active (p (pid_to_idx pid) j)) \<and> vmm_map_file p pid va sz fl off (Some f) = (Inl ENOMEM, p) \<or>
    (\<exists>j p'. j < VMA_MAX_PER_TASK \<and> \<not> v_active (p (pid_to_idx pid) j) \<and> vmm_map_file p pid va sz fl off (Some f) = (Inr (), p') \<and>
       (\<forall>a. vmm_find p' pid a = Some j \<longleftrightarrow> unat va \<le> unat a \<and> unat a < unat va + unat sz) \<and>
       (\<forall>q. pid_to_idx q \<noteq> pid_to_idx pid \<longrightarrow> vmm_find p' q = vmm_find p q) \<and>
       (\<forall>a. unat va \<le> unat a \<and> unat a < unat va + unat sz \<longrightarrow>
          (\<exists>p''. vmm_unmap_range p' pid (Some res) a n =
             Some (Inr (),
               (if fl AND VMA_FLAG_SHARED \<noteq> 0 \<and> fl AND VMA_FLAG_WRITE \<noteq> 0
                then map (\<lambda>c. (f, off + (c - va), c)) (filter res (range_pages va (va + sz))) else []), p'') \<and>
             (\<forall>q b. vmm_find p'' q b = vmm_find p q b))))"
proof (cases "for_find (\<lambda>j. \<not> v_active (p (pid_to_idx pid) j)) 0 VMA_MAX_PER_TASK")
  case None
  then have "\<forall>j < VMA_MAX_PER_TASK. v_active (p (pid_to_idx pid) j)" by (simp add: for_find_None)
  then show ?thesis using None sz by (simp add: vmm_map_file_def)
next
  case (Some j)
  let ?i = "pid_to_idx pid"
  let ?v = "\<lparr>v_start = va, v_size = sz, v_flags = fl, v_file_offset = off, v_file = f, v_active = True\<rparr>"
  let ?p = "set_vma p ?i j ?v"
  have j: "j < VMA_MAX_PER_TASK" "\<not> v_active (p ?i j)" using for_find_SomeD(2,3) [OF Some] by auto
  have m: "vmm_map_file p pid va sz fl off (Some f) = (Inr (), ?p)" using Some sz by (simp add: vmm_map_file_def)
  have in_new: "vma_covers ?v a \<longleftrightarrow> unat va \<le> unat a \<and> unat a < unat va + unat sz" for a
    by (rule covers_range [OF nowrap]) simp_all
  have find: "vmm_find ?p pid a = Some j \<longleftrightarrow> unat va \<le> unat a \<and> unat a < unat va + unat sz" for a
    unfolding vmm_find_def for_find_Some set_vma_def
    using j(1) fresh in_new [of a] by (auto simp: order.strict_trans)
  have other: "vmm_find ?p q = vmm_find p q" if "pid_to_idx q \<noteq> ?i" for q
    using that by (simp add: vmm_find_def set_vma_def fun_eq_iff)
  have un: "\<exists>p''. vmm_unmap_range ?p pid (Some res) a n =
      Some (Inr (), (if fl AND VMA_FLAG_SHARED \<noteq> 0 \<and> fl AND VMA_FLAG_WRITE \<noteq> 0
                then map (\<lambda>c. (f, off + (c - va), c)) (filter res (range_pages va (va + sz))) else []), p'') \<and>
      (\<forall>q b. vmm_find p'' q b = vmm_find p q b)"
    if a: "unat va \<le> unat a" "unat a < unat va + unat sz" for a
  proof -
    have "vmm_find ?p pid va = Some j" using find [of va] sz by (simp add: unat_gt_0)
    moreover have e: "unat (va + sz) < 2 ^ 63" using nowrap by (simp add: unat_word_ariths)
    ultimately have s: "vmm_msync ?p pid (Some res) va sz = Some (Inr (),
        if fl AND VMA_FLAG_SHARED \<noteq> 0 \<and> fl AND VMA_FLAG_WRITE \<noteq> 0
        then map (\<lambda>c. (f, off + (c - va), c)) (filter res (range_pages va (va + sz))) else [])"
      using sz sync_loop_pages [OF e, of ?v res va] by (simp add: vmm_msync_def set_vma_def)
    have z: "vma_covers (vma_zero ?v) b = vma_covers (p ?i j) b" for b using j(2) by (simp add: vma_covers_def vma_zero_def)
    have "vmm_find (set_vma ?p ?i j (vma_zero ?v)) q b = vmm_find p q b" for q b
    proof -
      have "vma_covers (set_vma ?p ?i j (vma_zero ?v) (pid_to_idx q) l) b = vma_covers (p (pid_to_idx q) l) b" for l
        using z by (simp add: set_vma_def)
      then show ?thesis by (simp add: vmm_find_def)
    qed
    moreover have "for_find (\<lambda>l. vma_covers (?p ?i l) a) 0 VMA_MAX_PER_TASK = Some j"
      using find [of a] a by (simp add: vmm_find_def)
    then have "vmm_unmap_range ?p pid (Some res) a n = Some (Inr (),
        (if fl AND VMA_FLAG_SHARED \<noteq> 0 \<and> fl AND VMA_FLAG_WRITE \<noteq> 0
         then map (\<lambda>c. (f, off + (c - va), c)) (filter res (range_pages va (va + sz))) else []), set_vma ?p ?i j (vma_zero ?v))"
      using s by (simp add: vmm_unmap_range_def Let_def set_vma_def)
    ultimately show ?thesis by blast
  qed
  show ?thesis using j m find other un by (intro disjI2) blast
qed

definition vmm_demo :: "string vma_pool" where
  "vmm_demo = (\<lambda>_ _. \<lparr>v_start = 0, v_size = 0, v_flags = 0, v_file_offset = 0, v_file = [], v_active = False\<rparr>)"

theorem vmm_map_unmap_roundtrip_witness:
  "\<exists>j p' p''. vmm_map_file vmm_demo 7 0x7FC0000000 0x2000 3 0 (Some ''f'') = (Inr (), p') \<and>
     vmm_find p' 7 0x7FC0001000 = Some j \<and>
     vmm_unmap_range p' 7 (Some (\<lambda>_. True)) 0x7FC0001000 0 =
       Some (Inr (), [(''f'', 0, 0x7FC0000000), (''f'', 0x1000, 0x7FC0001000)], p'')"
proof -
  have n: "\<not> v_active (vmm_demo i j)" for i j by (simp add: vmm_demo_def)
  then have full: "\<not> (\<forall>j < VMA_MAX_PER_TASK. v_active (vmm_demo (pid_to_idx 7) j))"
    by (auto simp: VMA_MAX_PER_TASK_def intro: exI [of _ 0])
  have pages: "range_pages 0x7FC0000000 (0x7FC0000000 + 0x2000) = [0x7FC0000000, 0x7FC0001000]"
    by (simp add: range_pages_def PAGE_SIZE_def upt_rec)
  have nw: "unat (0x7FC0000000 :: u64) + unat (0x2000 :: u64) < 2 ^ 63" by simp
  have fr: "\<forall>j < VMA_MAX_PER_TASK. \<forall>a. unat (0x7FC0000000 :: u64) \<le> unat a \<and>
      unat a < unat (0x7FC0000000 :: u64) + unat (0x2000 :: u64) \<longrightarrow> \<not> vma_covers (vmm_demo (pid_to_idx 7) j) a"
    using n by (simp add: vma_covers_def)
  have nz: "(0x2000 :: u64) \<noteq> 0" by simp
  obtain j p' where m: "vmm_map_file vmm_demo 7 0x7FC0000000 0x2000 3 0 (Some ''f'') = (Inr (), p')"
    and f: "\<forall>a. vmm_find p' 7 a = Some j \<longleftrightarrow> unat (0x7FC0000000 :: u64) \<le> unat a \<and> unat a < unat (0x7FC0000000 :: u64) + unat (0x2000 :: u64)"
    and u: "\<forall>a. unat (0x7FC0000000 :: u64) \<le> unat a \<and> unat a < unat (0x7FC0000000 :: u64) + unat (0x2000 :: u64) \<longrightarrow>
          (\<exists>p''. vmm_unmap_range p' 7 (Some (\<lambda>_. True)) a 0 =
             Some (Inr (),
               (if 3 AND VMA_FLAG_SHARED \<noteq> 0 \<and> 3 AND VMA_FLAG_WRITE \<noteq> 0
                then map (\<lambda>c. (''f'', 0 + (c - 0x7FC0000000), c)) (filter (\<lambda>_. True) (range_pages 0x7FC0000000 (0x7FC0000000 + 0x2000))) else []), p'') \<and>
             (\<forall>q b. vmm_find p'' q b = vmm_find vmm_demo q b))"
    using vmm_map_unmap_roundtrip [of "0x7FC0000000" "0x2000" vmm_demo 7 3 0 "''f''" "\<lambda>_. True" 0, OF nw nz fr] full by blast
  have "vmm_find p' 7 0x7FC0001000 = Some j" using f by simp
  moreover have "\<exists>p''. vmm_unmap_range p' 7 (Some (\<lambda>_. True)) 0x7FC0001000 0 =
       Some (Inr (), [(''f'', 0, 0x7FC0000000), (''f'', 0x1000, 0x7FC0001000)], p'')"
    using u [unfolded pages, rule_format, of "0x7FC0001000"] by (auto simp: VMA_FLAG_SHARED_def VMA_FLAG_WRITE_def)
  ultimately show ?thesis using m by blast
qed

end
