(* ===== verification/Slab.thy ===== *)
theory Slab
  imports Pmm
begin

text \<open>
  The slab layer of \<^verbatim>\<open>kernel/pmm.c\<close>: \<^verbatim>\<open>kmalloc\<close>, \<^verbatim>\<open>kfree\<close> and \<^verbatim>\<open>slab_warm\<close>
  over the page allocator. Heap memory is a map from addresses to 32-bit words, so that the two
  guard words of an object and the list pointer written into a free object (which overlaps the first guard) are
  seen as the code sees them; the 8-byte header of a page is a record stored under the address of the page.
  The list node that the page allocator keeps at the start of a free block lies over that header in the code; the
  model keeps them apart, so the header of a page says something only while the page is in use, and no
  theorem reads the header of a free one. No value (\<open>None\<close>) is a kernel panic.
\<close>

subsection \<open>Data\<close>

definition SLAB_MAGIC_LIVE :: u16 where "SLAB_MAGIC_LIVE = 0xBA5E"

definition SLAB_MAGIC_FREE :: u16 where "SLAB_MAGIC_FREE = 0xDEAD"

definition SLAB_CLASS_LARGE :: u8 where "SLAB_CLASS_LARGE = 0xFF"

definition SLAB_CANARY_WORD :: u32 where "SLAB_CANARY_WORD = 0xDEADC0DE"

definition SLAB_REDZONE_SZ :: u32 where "SLAB_REDZONE_SZ = 4"

definition SLAB_NUM_CLASSES :: nat where "SLAB_NUM_CLASSES = 7"

record slab_hdr =
  class_idx :: u8
  aux :: u8
  magic :: u16
  hdr_reserved :: u32

definition slab_sizes :: "nat \<Rightarrow> u32" where
  "slab_sizes ci = (if ci = 0 then 32 else if ci = 1 then 64 else if ci = 2 then 128 else if ci = 3 then 256
     else if ci = 4 then 512 else if ci = 5 then 1024 else 2048)"

record slab_cache =
  free_head :: u64
  obj_size :: u32
  free_count :: u32
  total_count :: u32

record slab =
  sl_pmm :: pmm
  sl_hdr :: "u64 \<Rightarrow> slab_hdr"
  sl_mem :: "u64 \<Rightarrow> u32"
  slab_caches :: "nat \<Rightarrow> slab_cache"

definition slab_usable_size :: "nat \<Rightarrow> u32" where
  "slab_usable_size ci = slab_sizes ci - 2 * SLAB_REDZONE_SZ"

definition slab_raw_from_user_ptr :: "u64 \<Rightarrow> u64" where
  "slab_raw_from_user_ptr ptr = ptr - ucast SLAB_REDZONE_SZ"

definition slab_user_from_raw :: "u64 \<Rightarrow> u64" where
  "slab_user_from_raw raw = raw + ucast SLAB_REDZONE_SZ"

text \<open>A pointer takes two words, the low half first.\<close>

definition load_ptr :: "(u64 \<Rightarrow> u32) \<Rightarrow> u64 \<Rightarrow> u64" where
  "load_ptr mem a = ucast (mem a) OR push_bit 32 (ucast (mem (a + 4)))"

definition store_ptr :: "(u64 \<Rightarrow> u32) \<Rightarrow> u64 \<Rightarrow> u64 \<Rightarrow> u64 \<Rightarrow> u32" where
  "store_ptr mem a v = mem(a := ucast v, a + 4 := ucast (drop_bit 32 v))"

definition tail_word :: "slab \<Rightarrow> nat \<Rightarrow> u64 \<Rightarrow> u64" where
  "tail_word st ci raw = raw + ucast (obj_size (slab_caches st ci)) - ucast SLAB_REDZONE_SZ"

definition slab_write_canaries :: "slab \<Rightarrow> nat \<Rightarrow> u64 \<Rightarrow> slab" where
  "slab_write_canaries st ci raw =
     st\<lparr>sl_mem := (sl_mem st)(raw := SLAB_CANARY_WORD, tail_word st ci raw := SLAB_CANARY_WORD)\<rparr>"

definition slab_validate_canaries :: "slab \<Rightarrow> u64 \<Rightarrow> nat \<Rightarrow> bool" where
  "slab_validate_canaries st ptr ci \<longleftrightarrow>
     (let slot = slab_raw_from_user_ptr ptr
      in sl_mem st slot = SLAB_CANARY_WORD \<and> sl_mem st (tail_word st ci slot) = SLAB_CANARY_WORD)"

definition set_cache :: "slab \<Rightarrow> nat \<Rightarrow> slab_cache \<Rightarrow> slab" where
  "set_cache st ci c = st\<lparr>slab_caches := (slab_caches st)(ci := c)\<rparr>"

subsection \<open>Filling a class\<close>

definition slab_class_for :: "u32 \<Rightarrow> nat option" where
  "slab_class_for sz = for_find (\<lambda>i. sz \<le> slab_usable_size i) 0 SLAB_NUM_CLASSES"

definition slab_push :: "slab \<Rightarrow> nat \<Rightarrow> u64 \<Rightarrow> slab" where
  "slab_push st ci obj =
     (let c = slab_caches st ci
      in (set_cache st ci (c\<lparr>free_head := obj, free_count := free_count c + 1\<rparr>))
           \<lparr>sl_mem := store_ptr (sl_mem st) obj (free_head c)\<rparr>)"

definition slab_add :: "slab \<Rightarrow> nat \<Rightarrow> u64 \<Rightarrow> slab" where
  "slab_add st ci obj =
     (let st = slab_push st ci obj; c = slab_caches st ci
      in set_cache st ci (c\<lparr>total_count := total_count c + 1\<rparr>))"

text \<open>The loop of the refill: page address and object size, then the running offset and the heap.\<close>

partial_function (option) slab_fill :: "nat \<Rightarrow> u64 \<times> u32 \<Rightarrow> u64 \<times> slab \<Rightarrow> slab option" where
  "slab_fill ci ps ost =
     (if fst ps + fst ost + ucast (snd ps) \<le> fst ps + PAGE_SIZE
      then slab_fill ci ps (fst ost + ucast (snd ps), slab_add (snd ost) ci (fst ps + fst ost))
      else Some (snd ost))"

definition slab_refill :: "slab \<Rightarrow> nat \<Rightarrow> slab option" where
  "slab_refill st ci =
     (case phys_alloc_page (sl_pmm st) of
        None \<Rightarrow> None
      | Some (pa, m) \<Rightarrow>
          if pa = 0 then Some (st\<lparr>sl_pmm := m\<rparr>)
          else
            (let m = m\<lparr>page_state := (page_state m)(unat (PA_TO_IDX pa) := PAGE_SLAB)\<rparr>;
                 h = (sl_hdr st pa)\<lparr>class_idx := of_nat ci, aux := 0, magic := SLAB_MAGIC_LIVE\<rparr>;
                 st = st\<lparr>sl_pmm := m, sl_hdr := (sl_hdr st)(pa := h)\<rparr>;
                 sz = obj_size (slab_caches st ci);
                 offset = (8 + ucast sz - 1) div ucast sz * ucast sz
             in slab_fill ci (pa, sz) (offset, st)))"

subsection \<open>Allocation and release\<close>

partial_function (option) large_order :: "u32 \<Rightarrow> nat \<Rightarrow> nat option" where
  "large_order pages order = (if push_bit order 1 < pages then large_order pages (order + 1) else Some order)"

definition kmalloc_large :: "slab \<Rightarrow> u32 \<Rightarrow> (u64 \<times> slab) option" where
  "kmalloc_large st sz =
     (let need = sz + 8; pages = drop_bit PAGE_SHIFT (need + ucast PAGE_SIZE - 1)
      in do {
           order \<leftarrow> large_order pages 0;
           if order \<ge> MAX_ORDER then None
           else do {
             (pa, m) \<leftarrow> phys_alloc_pages (sl_pmm st) order;
             Some (pa + 8, st\<lparr>sl_pmm := m, sl_hdr := (sl_hdr st)(pa := \<lparr>class_idx = SLAB_CLASS_LARGE, aux = of_nat order,
               magic = SLAB_MAGIC_LIVE, hdr_reserved = 0\<rparr>)\<rparr>)
           }
         })"

definition kmalloc_pop :: "slab \<Rightarrow> nat \<Rightarrow> (u64 \<times> slab) option" where
  "kmalloc_pop st ci =
     (let c = slab_caches st ci; raw = free_head c
      in if raw = 0 then None
         else
           (let st = set_cache st ci (c\<lparr>free_head := load_ptr (sl_mem st) raw, free_count := free_count c - 1\<rparr>)
            in Some (slab_user_from_raw raw, slab_write_canaries st ci raw)))"

text \<open>A result of 0 is the null pointer.\<close>

definition kmalloc :: "slab \<Rightarrow> u32 \<Rightarrow> (u64 \<times> slab) option" where
  "kmalloc st sz =
     (if sz = 0 then Some (0, st)
      else
        (case slab_class_for sz of
           None \<Rightarrow> kmalloc_large st sz
         | Some ci \<Rightarrow>
             do {
               st \<leftarrow> (if free_head (slab_caches st ci) = 0 then slab_refill st ci else Some st);
               kmalloc_pop st ci
             }))"

definition kfree :: "slab \<Rightarrow> u64 \<Rightarrow> slab option" where
  "kfree st ptr =
     (if ptr = 0 then Some st
      else
        (let pa = ptr AND PAGE_MASK; hdr = sl_hdr st pa
         in if magic hdr = SLAB_MAGIC_FREE then None
            else if magic hdr \<noteq> SLAB_MAGIC_LIVE then None
            else if class_idx hdr = SLAB_CLASS_LARGE then
              Some (st\<lparr>sl_hdr := (sl_hdr st)(pa := hdr\<lparr>magic := SLAB_MAGIC_FREE\<rparr>),
                       sl_pmm := phys_free_pages (sl_pmm st) pa (unat (aux hdr))\<rparr>)
            else if unat (class_idx hdr) \<ge> SLAB_NUM_CLASSES then None
            else
              (let ci = unat (class_idx hdr)
               in if \<not> slab_validate_canaries st ptr ci then None
                  else Some (slab_push st ci (slab_raw_from_user_ptr ptr)))))"

definition pmm_debug_check_ptr :: "slab \<Rightarrow> u64 \<Rightarrow> bool" where
  "pmm_debug_check_ptr st ptr =
     (if ptr = 0 then False
      else
        (let hdr = sl_hdr st (ptr AND PAGE_MASK)
         in if magic hdr \<noteq> SLAB_MAGIC_LIVE then False
            else if class_idx hdr = SLAB_CLASS_LARGE then True
            else if unat (class_idx hdr) \<ge> SLAB_NUM_CLASSES then False
            else slab_validate_canaries st ptr (unat (class_idx hdr))))"

partial_function (option) slab_warm_loop :: "nat \<Rightarrow> u32 \<Rightarrow> slab \<Rightarrow> slab option" where
  "slab_warm_loop ci n st =
     (if free_count (slab_caches st ci) < n then slab_refill st ci \<bind> slab_warm_loop ci n else Some st)"

definition slab_warm :: "slab \<Rightarrow> u32 \<Rightarrow> u32 \<Rightarrow> slab option" where
  "slab_warm st sz n = (case slab_class_for sz of None \<Rightarrow> Some st | Some ci \<Rightarrow> slab_warm_loop ci n st)"

definition slab_init :: "slab \<Rightarrow> slab" where
  "slab_init st =
     st\<lparr>slab_caches := (\<lambda>ci. if ci < SLAB_NUM_CLASSES
                           then \<lparr>free_head = 0, obj_size = slab_sizes ci, free_count = 0, total_count = 0\<rparr>
                           else slab_caches st ci)\<rparr>"

definition pmm_init :: "slab \<Rightarrow> u64 \<Rightarrow> slab option" where
  "pmm_init st kernel_end =
     do {
       m \<leftarrow> pmm_init_buddy (sl_pmm st) kernel_end;
       st \<leftarrow> slab_warm (slab_init (st\<lparr>sl_pmm := m\<rparr>)) 64 256;
       st \<leftarrow> slab_warm st 512 128;
       slab_warm st 128 64
     }"

subsection \<open>Addresses of objects\<close>

definition csize :: "nat \<Rightarrow> nat" where
  "csize ci = unat (slab_sizes ci)"

definition slot_pa :: "nat \<Rightarrow> nat \<Rightarrow> nat \<Rightarrow> u64" where
  "slot_pa ci i j = page_pa i + of_nat (j * csize ci)"

lemma csize_bounds: "ci < 7 \<Longrightarrow> 32 \<le> csize ci \<and> csize ci \<le> 2048 \<and> csize ci mod 32 = 0 \<and> 4096 mod csize ci = 0"
proof -
  assume "ci < 7"
  then have "ci \<in> {0, 1, 2, 3, 4, 5, 6}" by auto
  then show ?thesis by (auto simp: csize_def slab_sizes_def)
qed

lemma unat_in_page: "i < NUM_PAGES \<Longrightarrow> x < 8192 \<Longrightarrow> unat (page_pa i + of_nat x) = 0x40000000 + 4096 * i + x"
proof -
  assume h: "i < NUM_PAGES" "x < 8192"
  have "unat (page_pa i) = 0x40000000 + 4096 * i" using h by (intro unat_page_pa) simp
  moreover have "unat (of_nat x :: u64) = x" using h by (simp add: unat_of_nat)
  ultimately show ?thesis using h by (simp add: unat_word_ariths)
qed

lemma in_page_mask:
  assumes "i < NUM_PAGES" "x < 4096"
  shows "(page_pa i + of_nat x) AND PAGE_MASK = page_pa i"
proof -
  let ?a = "page_pa i + of_nat x :: u64"
  have m: "PAGE_MASK = NOT (mask 12)" by (simp add: PAGE_MASK_def PAGE_SIZE_def mask_eq_exp_minus_1)
  have "?a AND PAGE_MASK = push_bit 12 (drop_bit 12 ?a)"
    unfolding m by (rule bit_eqI) (auto simp: bit_simps)
  then have "unat (?a AND PAGE_MASK) = unat ?a div 4096 * 4096"
    by (simp add: push_bit_eq_mult drop_bit_eq_div unat_word_ariths unat_div)
  also have "unat ?a div 4096 = 262144 + i" by (rule div_nat_eqI) (use assms in \<open>simp_all add: unat_in_page\<close>)
  also have "(262144 + i) * 4096 = 0x40000000 + 4096 * i" by simp
  also have "\<dots> = unat (page_pa i)" using assms by (simp add: unat_page_pa)
  finally show ?thesis by (simp only: word_unat_eq_iff)
qed

lemma load_store [simp]: "load_ptr (store_ptr mem a v) a = v"
proof -
  have "a + 4 \<noteq> a" by simp
  then show ?thesis
    unfolding load_ptr_def store_ptr_def by (intro bit_eqI) (auto simp: bit_simps)
qed

lemma store_other [simp]: "b \<noteq> a \<Longrightarrow> b \<noteq> a + 4 \<Longrightarrow> store_ptr mem a v b = mem b"
  by (simp add: store_ptr_def)

lemma load_cong: "mem' a = mem a \<Longrightarrow> mem' (a + 4) = mem (a + 4) \<Longrightarrow> load_ptr mem' a = load_ptr mem a"
  by (simp add: load_ptr_def)

text \<open>The free list of a class.\<close>

fun fchain :: "(u64 \<Rightarrow> u32) \<Rightarrow> u64 \<Rightarrow> u64 list \<Rightarrow> bool" where
  "fchain mem h [] \<longleftrightarrow> h = 0"
| "fchain mem h (x # xs) \<longleftrightarrow> h = x \<and> x \<noteq> 0 \<and> fchain mem (load_ptr mem x) xs"

lemma fchain_cong:
  "(\<And>x. x \<in> set xs \<Longrightarrow> mem' x = mem x \<and> mem' (x + 4) = mem (x + 4)) \<Longrightarrow> fchain mem' h xs = fchain mem h xs"
proof (induction xs arbitrary: h)
  case (Cons x xs)
  then show ?case using load_cong [of mem' x mem] by simp
qed simp

text \<open>The bytes of an object.\<close>

definition extent :: "nat \<Rightarrow> u64 \<Rightarrow> u64 set" where
  "extent ci x = {a. unat x \<le> unat a \<and> unat a < unat x + csize ci}"

definition is_slot :: "nat \<Rightarrow> nat \<Rightarrow> u64 \<Rightarrow> bool" where
  "is_slot ci i x \<longleftrightarrow> i < NUM_PAGES \<and> (\<exists>j. 1 \<le> j \<and> (j + 1) * csize ci \<le> 4096 \<and> x = slot_pa ci i j)"

lemma slot_unat:
  assumes "ci < 7" "i < NUM_PAGES" "(j + 1) * csize ci \<le> 4096"
  shows "unat (slot_pa ci i j) = 0x40000000 + 4096 * i + j * csize ci" "j * csize ci + csize ci \<le> 4096"
proof -
  show le: "j * csize ci + csize ci \<le> 4096" using assms(3) by (simp add: algebra_simps)
  show "unat (slot_pa ci i j) = 0x40000000 + 4096 * i + j * csize ci"
    unfolding slot_pa_def by (rule unat_in_page) (use assms(2) le in auto)
qed

lemma is_slotD:
  assumes "is_slot ci i x" "ci < 7"
  obtains j where "i < NUM_PAGES" "1 \<le> j" "x = slot_pa ci i j" "unat x = 0x40000000 + 4096 * i + j * csize ci"
    "j * csize ci + csize ci \<le> 4096"
proof -
  obtain j where j: "i < NUM_PAGES" "1 \<le> j" "(j + 1) * csize ci \<le> 4096" "x = slot_pa ci i j"
    using assms(1) by (auto simp: is_slot_def)
  show ?thesis using that [OF j(1,2,4)] slot_unat [OF assms(2) j(1,3)] j(4) by simp
qed

lemma slot_aligned: "is_slot ci i x \<Longrightarrow> ci < 7 \<Longrightarrow> unat x mod 32 = 0 \<and> unat x < 2 ^ 32 \<and> x \<noteq> 0"
proof -
  assume h: "is_slot ci i x" "ci < 7"
  obtain j where j: "i < NUM_PAGES" "unat x = 0x40000000 + 4096 * i + j * csize ci" "j * csize ci + csize ci \<le> 4096"
    by (rule is_slotD [OF h])
  obtain q where "csize ci = 32 * q" using csize_bounds [OF h(2)] by (metis mod_0_imp_dvd dvd_def)
  then have "unat x = 32 * (0x2000000 + 128 * i + j * q)" using j(2) by simp
  moreover have "unat x < 2 ^ 32" using j by simp
  moreover have "x \<noteq> 0" using j(2) by auto
  ultimately show ?thesis by simp
qed

lemma slot_words:
  assumes "is_slot ci i x" "ci < 7"
  shows "unat (x + 4) = unat x + 4" "unat (x + of_nat (csize ci) - 4) = unat x + csize ci - 4"
    "x \<in> extent ci x" "x + 4 \<in> extent ci x" "x + of_nat (csize ci) - 4 \<in> extent ci x"
    "x + of_nat (csize ci) - 4 \<noteq> x" "x + of_nat (csize ci) - 4 \<noteq> x + 4"
proof -
  have x: "unat x < 2 ^ 32" using slot_aligned [OF assms] by simp
  have c: "32 \<le> csize ci" "csize ci \<le> 2048" using csize_bounds [OF assms(2)] by auto
  show 4: "unat (x + 4) = unat x + 4" using x by (simp add: unat_word_ariths)
  have "unat (x + of_nat (csize ci)) = unat x + csize ci"
    using x c by (simp add: unat_word_ariths unat_of_nat)
  moreover from this have "(4 :: u64) \<le> x + of_nat (csize ci)" using c by (simp add: word_le_nat_alt)
  ultimately show t: "unat (x + of_nat (csize ci) - 4) = unat x + csize ci - 4" by (simp add: unat_sub)
  show "x \<in> extent ci x" "x + 4 \<in> extent ci x" "x + of_nat (csize ci) - 4 \<in> extent ci x"
    using c by (simp_all add: extent_def 4 t)
  have "unat (x + of_nat (csize ci) - 4) \<noteq> unat x" "unat (x + of_nat (csize ci) - 4) \<noteq> unat (x + 4)"
    unfolding t 4 using c by linarith+
  then show "x + of_nat (csize ci) - 4 \<noteq> x" "x + of_nat (csize ci) - 4 \<noteq> x + 4" by metis+
qed

lemma slots_disjoint:
  assumes "is_slot c i x" "is_slot d k y" "c < 7" "d < 7" "i = k \<Longrightarrow> c = d" "i \<noteq> k \<or> x \<noteq> y"
  shows "extent c x \<inter> extent d y = {}"
proof -
  obtain j where j: "x = slot_pa c i j" "unat x = 0x40000000 + 4096 * i + j * csize c" "j * csize c + csize c \<le> 4096"
    by (rule is_slotD [OF assms(1,3)])
  obtain l where l: "y = slot_pa d k l" "unat y = 0x40000000 + 4096 * k + l * csize d" "l * csize d + csize d \<le> 4096"
    by (rule is_slotD [OF assms(2,4)])
  have "unat x + csize c \<le> unat y \<or> unat y + csize d \<le> unat x"
  proof (cases "i = k")
    case True
    then have cd: "c = d" using assms(5) by simp
    then have "j \<noteq> l" using True assms(6) j(1) l(1) by auto
    then have "Suc j * csize c \<le> l * csize c \<or> Suc l * csize c \<le> j * csize c"
      using nat_neq_iff [of j l] by (auto intro: mult_le_mono1 simp del: mult_Suc)
    then show ?thesis using True cd j(2) l(2) by auto
  next
    case False
    then have "4096 * i + 4096 \<le> 4096 * k \<or> 4096 * k + 4096 \<le> 4096 * i" by linarith
    then show ?thesis using j l by linarith
  qed
  then show ?thesis by (auto simp: extent_def)
qed

subsection \<open>Well-formed heaps\<close>

text \<open>
  An object of a class: a slot of a page that is in use as a slab page of that class. \<open>S\<close> is the
  set of free pages, \<open>fl\<close> the free objects per class, \<open>live\<close> the objects handed out.
\<close>

definition slab_page :: "slab \<Rightarrow> nat set \<Rightarrow> nat \<Rightarrow> nat \<Rightarrow> bool" where
  "slab_page st S ci i \<longleftrightarrow> i < NUM_PAGES \<and> i \<notin> S \<and> page_state (sl_pmm st) i = PAGE_SLAB \<and>
     class_idx (sl_hdr st (page_pa i)) = of_nat ci \<and> magic (sl_hdr st (page_pa i)) = SLAB_MAGIC_LIVE"

definition is_obj :: "slab \<Rightarrow> nat set \<Rightarrow> nat \<Rightarrow> u64 \<Rightarrow> bool" where
  "is_obj st S ci x \<longleftrightarrow> ci < 7 \<and> (\<exists>i. slab_page st S ci i \<and> is_slot ci i x)"

definition swf :: "slab \<Rightarrow> nat set \<Rightarrow> (nat \<Rightarrow> u64 list) \<Rightarrow> (nat \<times> u64) set \<Rightarrow> bool" where
  "swf st S fl live \<longleftrightarrow> pmm_rel (sl_pmm st) S \<and>
     (\<forall>ci < 7. obj_size (slab_caches st ci) = slab_sizes ci \<and> fchain (sl_mem st) (free_head (slab_caches st ci)) (fl ci) \<and>
        distinct (fl ci) \<and> (\<forall>x \<in> set (fl ci). is_obj st S ci x \<and> (ci, x) \<notin> live)) \<and>
     (\<forall>(ci, x) \<in> live. is_obj st S ci x)"

lemma swfD:
  assumes "swf st S fl live"
  shows "pmm_rel (sl_pmm st) S" "ci < 7 \<Longrightarrow> obj_size (slab_caches st ci) = slab_sizes ci"
    "ci < 7 \<Longrightarrow> fchain (sl_mem st) (free_head (slab_caches st ci)) (fl ci)" "ci < 7 \<Longrightarrow> distinct (fl ci)"
    "ci < 7 \<Longrightarrow> x \<in> set (fl ci) \<Longrightarrow> is_obj st S ci x" "ci < 7 \<Longrightarrow> x \<in> set (fl ci) \<Longrightarrow> (ci, x) \<notin> live"
    "(ci, x) \<in> live \<Longrightarrow> is_obj st S ci x" "(ci, x) \<in> live \<Longrightarrow> ci < 7"
  using assms unfolding swf_def is_obj_def by fastforce+

lemma is_objD:
  assumes "is_obj st S ci x"
  obtains i where "ci < 7" "slab_page st S ci i" "is_slot ci i x"
  using assms by (auto simp: is_obj_def)

lemma class_inj: "c < 7 \<Longrightarrow> d < 7 \<Longrightarrow> (of_nat c :: u8) = of_nat d \<Longrightarrow> c = d"
  by (simp add: word_unat_eq_iff unat_of_nat)

lemma objs_disjoint:
  assumes "is_obj st S c x" "is_obj st S d y" "(c, x) \<noteq> (d, y)"
  shows "extent c x \<inter> extent d y = {}"
proof -
  obtain i where i: "c < 7" "slab_page st S c i" "is_slot c i x" by (rule is_objD [OF assms(1)])
  obtain k where k: "d < 7" "slab_page st S d k" "is_slot d k y" by (rule is_objD [OF assms(2)])
  have same: "c = d" if "i = k" using that i(1,2) k(1,2) class_inj by (auto simp: slab_page_def)
  show ?thesis
  proof (rule slots_disjoint [OF i(3) k(3) i(1) k(1) same])
    show "i \<noteq> k \<or> x \<noteq> y" using assms(3) same by auto
  qed
qed

lemma obj_words:
  assumes "is_obj st S ci x"
  shows "x \<in> extent ci x" "x + 4 \<in> extent ci x" "x + of_nat (csize ci) - 4 \<in> extent ci x"
    "x + of_nat (csize ci) - 4 \<noteq> x" "x + of_nat (csize ci) - 4 \<noteq> x + 4" "x \<noteq> 0" "unat (x + 4) = unat x + 4"
    "(x + 4) AND PAGE_MASK = (x AND PAGE_MASK)"
proof -
  obtain i where i: "ci < 7" "slab_page st S ci i" "is_slot ci i x" by (rule is_objD [OF assms])
  show "x \<in> extent ci x" "x + 4 \<in> extent ci x" "x + of_nat (csize ci) - 4 \<in> extent ci x"
    "x + of_nat (csize ci) - 4 \<noteq> x" "x + of_nat (csize ci) - 4 \<noteq> x + 4" "unat (x + 4) = unat x + 4"
    using slot_words [OF i(3,1)] by auto
  show "x \<noteq> 0" using slot_aligned [OF i(3,1)] by simp
  obtain j where j: "i < NUM_PAGES" "x = page_pa i + of_nat (j * csize ci)" "j * csize ci + csize ci \<le> 4096"
    using is_slotD [OF i(3,1)] unfolding slot_pa_def by metis
  have c: "32 \<le> csize ci" using csize_bounds [OF i(1)] by simp
  have "x + 4 = page_pa i + of_nat (j * csize ci + 4)" using j(2) by (simp add: algebra_simps)
  moreover have "j * csize ci + 4 < 4096" "j * csize ci < 4096" using j(3) c by linarith+
  ultimately show "(x + 4) AND PAGE_MASK = (x AND PAGE_MASK)" using in_page_mask [OF j(1)] j(2) by metis
qed

lemma obj_hdr:
  assumes "is_obj st S ci x"
  shows "class_idx (sl_hdr st ((x + 4) AND PAGE_MASK)) = of_nat ci" "magic (sl_hdr st ((x + 4) AND PAGE_MASK)) = SLAB_MAGIC_LIVE"
proof -
  obtain i where i: "ci < 7" "slab_page st S ci i" "is_slot ci i x" by (rule is_objD [OF assms])
  obtain j where j: "i < NUM_PAGES" "x = page_pa i + of_nat (j * csize ci)" "j * csize ci + csize ci \<le> 4096"
    using is_slotD [OF i(3,1)] unfolding slot_pa_def by metis
  have "32 \<le> csize ci" using csize_bounds [OF i(1)] by simp
  then have "x AND PAGE_MASK = page_pa i" unfolding j(2) by (intro in_page_mask [OF j(1)]) (use j(3) in linarith)
  then have "(x + 4) AND PAGE_MASK = page_pa i" using obj_words(8) [OF assms] by metis
  then show "class_idx (sl_hdr st ((x + 4) AND PAGE_MASK)) = of_nat ci" "magic (sl_hdr st ((x + 4) AND PAGE_MASK)) = SLAB_MAGIC_LIVE"
    using i(2) by (simp_all add: slab_page_def)
qed

text \<open>A change of memory inside one object does not disturb the free lists without it.\<close>

lemma fchain_frame:
  assumes wf: "swf st S fl live" and o: "is_obj st S ci x" and c: "c < 7" and sub: "set ys \<subseteq> set (fl c)" "(c, x) \<noteq> (ci, x) \<or> x \<notin> set ys"
    and same: "\<And>a. a \<notin> extent ci x \<Longrightarrow> mem' a = sl_mem st a"
  shows "fchain mem' h ys = fchain (sl_mem st) h ys"
proof (rule fchain_cong)
  fix y assume y: "y \<in> set ys"
  then have oy: "is_obj st S c y" using swfD(5) [OF wf c] sub(1) by blast
  have "(c, y) \<noteq> (ci, x)" using y sub(2) by auto
  then have "extent c y \<inter> extent ci x = {}" by (rule objs_disjoint [OF oy o])
  then show "mem' y = sl_mem st y \<and> mem' (y + 4) = sl_mem st (y + 4)" using obj_words(1,2) [OF oy] same by blast
qed

lemma obj_cong:
  "sl_pmm st' = sl_pmm st \<Longrightarrow> sl_hdr st' = sl_hdr st \<Longrightarrow> is_obj st' S ci x = is_obj st S ci x"
  by (simp add: is_obj_def slab_page_def)


text \<open>The common shape of a step on one class: one object changes hands, the rest stays.\<close>

lemma swf_change:
  assumes wf: "swf st S fl live" and obj: "is_obj st S ci x"
    and frame: "sl_pmm st' = sl_pmm st" "sl_hdr st' = sl_hdr st" "\<And>c. c \<noteq> ci \<Longrightarrow> slab_caches st' c = slab_caches st c"
      "obj_size (slab_caches st' ci) = slab_sizes ci"
    and mem: "\<And>a. a \<notin> extent ci x \<Longrightarrow> sl_mem st' a = sl_mem st a"
    and new: "fchain (sl_mem st') (free_head (slab_caches st' ci)) ys" "distinct ys" "set ys \<subseteq> insert x (set (fl ci))"
      "\<And>y. y \<in> set ys \<Longrightarrow> (ci, y) \<notin> live'" "live' \<subseteq> insert (ci, x) live"
  shows "swf st' S (fl(ci := ys)) live'"
proof -
  have ci: "ci < 7" using obj by (simp add: is_obj_def)
  have cong: "is_obj st' S c y = is_obj st S c y" for c y by (rule obj_cong [OF frame(1,2)])
  have "is_obj st' S c y" if "(c, y) \<in> live'" for c y using that new(5) obj swfD(7) [OF wf] by (auto simp: cong)
  moreover have "is_obj st' S ci y" if "y \<in> set ys" for y using that new(3) obj swfD(5) [OF wf ci] by (auto simp: cong)
  moreover have "fchain (sl_mem st') h (fl c) = fchain (sl_mem st) h (fl c)" if "c < 7" "c \<noteq> ci" for c h
    by (rule fchain_frame [OF wf obj that(1)]) (use that(2) mem in auto)
  moreover have "(c, y) \<notin> live'" if "c < 7" "c \<noteq> ci" "y \<in> set (fl c)" for c y
    using that new(5) swfD(6) [OF wf that(1,3)] by blast
  ultimately show ?thesis
    using swfD(1-5) [OF wf] frame(1,3,4) new(1,2,4) unfolding swf_def by (auto simp: cong)
qed

lemma slab_push_fields [simp]:
  "sl_pmm (slab_push st ci x) = sl_pmm st" "sl_hdr (slab_push st ci x) = sl_hdr st"
  "c \<noteq> ci \<Longrightarrow> slab_caches (slab_push st ci x) c = slab_caches st c"
  "slab_caches (slab_push st ci x) ci = (slab_caches st ci)\<lparr>free_head := x, free_count := free_count (slab_caches st ci) + 1\<rparr>"
  "sl_mem (slab_push st ci x) = store_ptr (sl_mem st) x (free_head (slab_caches st ci))"
  by (simp_all add: slab_push_def set_cache_def Let_def)

lemma store_extent: "is_obj st S ci x \<Longrightarrow> a \<notin> extent ci x \<Longrightarrow> store_ptr mem x v a = mem a"
  using obj_words(1,2) by (metis store_other)

lemma slab_push_wf:
  assumes wf: "swf st S fl live" and obj: "is_obj st S ci x" and nin: "x \<notin> set (fl ci)"
  shows "swf (slab_push st ci x) S (fl(ci := x # fl ci)) (live - {(ci, x)})"
proof -
  have ci: "ci < 7" using obj by (simp add: is_obj_def)
  have "fchain (store_ptr (sl_mem st) x v) h (fl ci) = fchain (sl_mem st) h (fl ci)" for v h
    by (rule fchain_frame [OF wf obj ci]) (use nin store_extent [OF obj] in auto)
  then have "fchain (sl_mem (slab_push st ci x)) x (x # fl ci)" using obj_words(6) [OF obj] swfD(3) [OF wf ci] by simp
  then show ?thesis
    by (intro swf_change [OF wf obj]) (use swfD(2,4,6) [OF wf ci] nin store_extent [OF obj] in auto)
qed

lemma slab_pop_wf:
  assumes wf: "swf st S fl live" and ci: "ci < 7" and fl: "fl ci = x # xs"
  obtains st' where "kmalloc_pop st ci = Some (x + 4, st')" "swf st' S (fl(ci := xs)) (insert (ci, x) live)"
    "sl_mem st' = (sl_mem st)(x := SLAB_CANARY_WORD, x + of_nat (csize ci) - 4 := SLAB_CANARY_WORD)"
    "sl_pmm st' = sl_pmm st" "sl_hdr st' = sl_hdr st" "free_count (slab_caches st' ci) = free_count (slab_caches st ci) - 1"
proof -
  have obj: "is_obj st S ci x" using swfD(5) [OF wf ci] fl by simp
  have hd: "free_head (slab_caches st ci) = x" "x \<noteq> 0" "fchain (sl_mem st) (load_ptr (sl_mem st) x) xs"
    using swfD(3) [OF wf ci] fl by auto
  have tl: "ucast (obj_size (slab_caches st ci)) = (of_nat (csize ci) :: u64)"
    using swfD(2) [OF wf ci] by (simp add: csize_def)
  define st' where "st' = slab_write_canaries (set_cache st ci ((slab_caches st ci)\<lparr>free_head := load_ptr (sl_mem st) x,
    free_count := free_count (slab_caches st ci) - 1\<rparr>)) ci x"
  have mem: "sl_mem st' = (sl_mem st)(x := SLAB_CANARY_WORD, x + of_nat (csize ci) - 4 := SLAB_CANARY_WORD)"
    by (simp add: st'_def slab_write_canaries_def set_cache_def tail_word_def tl SLAB_REDZONE_SZ_def)
  have same: "sl_mem st' a = sl_mem st a" if "a \<notin> extent ci x" for a
    using that obj_words(1,3) [OF obj] unfolding mem by auto
  have f: "sl_pmm st' = sl_pmm st" "sl_hdr st' = sl_hdr st" "c \<noteq> ci \<Longrightarrow> slab_caches st' c = slab_caches st c"
    "obj_size (slab_caches st' ci) = slab_sizes ci" "free_head (slab_caches st' ci) = load_ptr (sl_mem st) x"
    "free_count (slab_caches st' ci) = free_count (slab_caches st ci) - 1" for c
    using swfD(2) [OF wf ci] by (simp_all add: st'_def slab_write_canaries_def set_cache_def)
  have d: "x \<notin> set xs" "distinct xs" using swfD(4) [OF wf ci] fl by auto
  have "fchain (sl_mem st') (free_head (slab_caches st' ci)) xs"
    unfolding f(5) using fchain_frame [OF wf obj ci _ _ same] d(1) fl hd(3) by (metis set_subset_Cons)
  then have "swf st' S (fl(ci := xs)) (insert (ci, x) live)"
    by (intro swf_change [OF wf obj f(1,2,3,4) same]) (use d fl swfD(6) [OF wf ci] in auto)
  moreover have "kmalloc_pop st ci = Some (x + 4, st')"
    using hd(1,2) by (simp add: kmalloc_pop_def st'_def Let_def slab_user_from_raw_def SLAB_REDZONE_SZ_def)
  ultimately show ?thesis using that mem f(1,2,6) by blast
qed


lemma unat_ucast_mod_32: "unat (ucast (v :: u64) :: u32) mod 32 = unat v mod 32"
proof -
  have "(32 :: nat) dvd 2 ^ 32" by simp
  then show ?thesis by (simp add: unsigned_ucast_eq take_bit_eq_mod mod_mod_cancel)
qed

lemma kfree_obj:
  assumes wf: "swf st S fl live" and obj: "is_obj st S ci x"
  shows "kfree st (x + 4) = (if sl_mem st x = SLAB_CANARY_WORD \<and> sl_mem st (x + of_nat (csize ci) - 4) = SLAB_CANARY_WORD
     then Some (slab_push st ci x) else None)"
proof -
  have ci: "ci < 7" using obj by (simp add: is_obj_def)
  have nz: "x + 4 \<noteq> 0" using obj_words(7) [OF obj] by auto
  have cu: "unat (of_nat ci :: u8) = ci" using ci by (simp add: unat_of_nat)
  then have "(of_nat ci :: u8) \<noteq> SLAB_CLASS_LARGE" using ci by (auto simp: SLAB_CLASS_LARGE_def)
  moreover have "ucast (obj_size (slab_caches st ci)) = (of_nat (csize ci) :: u64)"
    using swfD(2) [OF wf ci] by (simp add: csize_def)
  ultimately show ?thesis
    using nz ci cu by (simp add: kfree_def Let_def obj_hdr [OF obj] slab_validate_canaries_def slab_raw_from_user_ptr_def
      tail_word_def SLAB_REDZONE_SZ_def SLAB_NUM_CLASSES_def SLAB_MAGIC_LIVE_def SLAB_MAGIC_FREE_def)
qed

lemma fchain_next: "fchain mem h xs \<Longrightarrow> x \<in> set xs \<Longrightarrow> load_ptr mem x = 0 \<or> load_ptr mem x \<in> set xs"
proof (induction xs arbitrary: h)
  case (Cons y ys)
  then show ?case by (cases ys) auto
qed simp

text \<open>The first word of a free object is half a pointer, never a guard word.\<close>

lemma free_no_canary:
  assumes wf: "swf st S fl live" and ci: "ci < 7" and x: "x \<in> set (fl ci)"
  shows "sl_mem st x \<noteq> SLAB_CANARY_WORD"
proof -
  let ?n = "load_ptr (sl_mem st) x"
  have "?n = 0 \<or> is_obj st S ci ?n" using fchain_next [OF swfD(3) [OF wf ci] x] swfD(5) [OF wf ci] by blast
  then have "unat ?n mod 32 = 0" by (auto elim!: is_objD dest: slot_aligned)
  moreover have "ucast ?n = sl_mem st x" unfolding load_ptr_def by (rule bit_eqI) (auto simp: bit_simps)
  ultimately have "unat (sl_mem st x) mod 32 = 0" by (metis unat_ucast_mod_32)
  then show ?thesis by (auto simp: SLAB_CANARY_WORD_def)
qed

lemma kfree_free_obj:
  assumes "swf st S fl live" "ci < 7" "x \<in> set (fl ci)" shows "kfree st (x + 4) = None"
  using kfree_obj [OF assms(1) swfD(5) [OF assms]] free_no_canary [OF assms] by simp


subsection \<open>Refilling a class\<close>

lemma pmm_slab_rel: "pmm_rel m S \<Longrightarrow> p \<notin> S \<Longrightarrow> pmm_rel (m\<lparr>page_state := (page_state m)(p := PAGE_SLAB)\<rparr>) S"
proof -
  assume "pmm_rel m S" and p: "p \<notin> S"
  then obtain F where F: "buddy_wf m F" "free_set F = S" by (auto simp: pmm_rel_def)
  have "i \<noteq> p" if "k < MAX_ORDER" "i \<in> set (F k)" for i k using that p F(2) free_set_iff blk_head by blast
  then have "buddy_wf (m\<lparr>page_state := (page_state m)(p := PAGE_SLAB)\<rparr>) F" using F p unfolding bwf_def by auto
  with F(2) show ?thesis by (auto simp: pmm_rel_def)
qed

lemma pmm_alloc_page_ok:
  assumes "pmm_rel m S"
  shows "S \<noteq> {} \<longleftrightarrow> (\<exists>pa m'. phys_alloc_page m = Some (pa, m'))"
proof -
  obtain F where F: "buddy_wf m F" "free_set F = S" using assms by (auto simp: pmm_rel_def)
  have o: "0 < MAX_ORDER" by (simp add: MAX_ORDER_def)
  have "coal False F" by (simp add: coal_def)
  note ok = phys_alloc_pages_wf [OF F(1) this o]
  have "\<exists>pa m'. phys_alloc_page m = Some (pa, m')" if ne: "S \<noteq> {}"
  proof -
    obtain p where "p \<in> free_set F" using ne F(2) by blast
    then obtain k i where "k < MAX_ORDER" "i \<in> set (F k)" unfolding free_set_iff by blast
    then show ?thesis unfolding alloc_page_eq using ok [of k] by (metis empty_iff empty_set le0)
  qed
  moreover have "phys_alloc_page m = None" if "S = {}"
    unfolding alloc_page_eq by (rule phys_alloc_pages_oom [OF F(1) o]) (use that F(2) free_set_iff blk_head in \<open>metis empty_iff hd_in_set\<close>)
  ultimately show ?thesis by auto
qed

definition per_page :: "nat \<Rightarrow> nat" where
  "per_page ci = 4096 div csize ci"

lemma per_page: "ci < 7 \<Longrightarrow> per_page ci * csize ci = 4096" "ci < 7 \<Longrightarrow> 2 \<le> per_page ci" "ci < 7 \<Longrightarrow> per_page ci \<le> 128"
proof -
  assume ci: "ci < 7"
  have c: "4096 mod csize ci = 0" "csize ci \<le> 2048" "32 \<le> csize ci" using csize_bounds [OF ci] by auto
  then show e: "per_page ci * csize ci = 4096" unfolding per_page_def by (metis add.right_neutral div_mult_mod_eq)
  show "2 \<le> per_page ci" "per_page ci \<le> 128"
    using c div_le_mono2 [of "csize ci" 2048 4096] div_le_mono2 [of 32 "csize ci" 4096] by (simp_all add: per_page_def)
qed

lemma slot_is_slot: "ci < 7 \<Longrightarrow> i < NUM_PAGES \<Longrightarrow> 1 \<le> j \<Longrightarrow> j < per_page ci \<Longrightarrow> is_slot ci i (slot_pa ci i j)"
  unfolding is_slot_def using mult_le_mono1 [of "j + 1" "per_page ci" "csize ci"] per_page(1) by auto

lemma slot_inj:
  assumes "ci < 7" "i < NUM_PAGES" "j < per_page ci" "k < per_page ci"
  shows "slot_pa ci i j = slot_pa ci i k \<longleftrightarrow> j = k"
proof
  have le: "(l + 1) * csize ci \<le> 4096" if "l < per_page ci" for l
    using that mult_le_mono1 [of "l + 1" "per_page ci" "csize ci"] per_page(1) [OF assms(1)] by simp
  assume "slot_pa ci i j = slot_pa ci i k"
  then have "j * csize ci = k * csize ci"
    using slot_unat(1) [OF assms(1,2) le] assms(3,4) by (metis add_left_cancel)
  then show "j = k" using csize_bounds [OF assms(1)] by simp
qed simp

definition slots :: "nat \<Rightarrow> nat \<Rightarrow> nat \<Rightarrow> u64 list" where
  "slots ci i j = map (slot_pa ci i) (rev [j..<per_page ci])"

lemma slab_fill_step:
  assumes "ci < 7" "i < NUM_PAGES" "j \<le> per_page ci"
  shows "slab_fill ci (page_pa i, slab_sizes ci) (of_nat (j * csize ci), st) =
    (if j < per_page ci
     then slab_fill ci (page_pa i, slab_sizes ci) (of_nat (Suc j * csize ci), slab_add st ci (slot_pa ci i j)) else Some st)"
proof -
  have c: "csize ci \<le> 2048" "32 \<le> csize ci" using csize_bounds [OF assms(1)] by auto
  have s: "ucast (slab_sizes ci) = (of_nat (csize ci) :: u64)" by (simp add: csize_def)
  have j: "j * csize ci \<le> 4096" using mult_le_mono1 [OF assms(3)] per_page(1) [OF assms(1)] by metis
  have "Suc j * csize ci < 8192" using j c by simp
  then have "unat (page_pa i + of_nat (Suc j * csize ci)) = 0x40000000 + 4096 * i + Suc j * csize ci"
    by (rule unat_in_page [OF assms(2)])
  moreover have "page_pa i + of_nat (j * csize ci) + of_nat (csize ci) = page_pa i + of_nat (Suc j * csize ci)" by (simp add: algebra_simps)
  moreover have "unat (page_pa i + PAGE_SIZE) = 0x40000000 + 4096 * i + 4096"
    using unat_in_page [OF assms(2), of 4096] by (simp add: PAGE_SIZE_def)
  ultimately have "page_pa i + of_nat (j * csize ci) + of_nat (csize ci) \<le> page_pa i + PAGE_SIZE \<longleftrightarrow> Suc j * csize ci \<le> 4096"
    unfolding word_le_nat_alt by (metis nat_add_left_cancel_le)
  moreover have "Suc j * csize ci \<le> 4096 \<longleftrightarrow> j < per_page ci"
    using c unfolding per_page(1) [OF assms(1), symmetric] by (subst mult_le_cancel2) (simp add: Suc_le_eq)
  moreover have "of_nat (j * csize ci) + of_nat (csize ci) = (of_nat (Suc j * csize ci) :: u64)" by (simp add: algebra_simps)
  ultimately show ?thesis by (subst slab_fill.simps) (simp add: s slot_pa_def del: of_nat_mult of_nat_add mult_Suc)
qed


lemma swf_cong:
  assumes "sl_pmm st' = sl_pmm st" "sl_hdr st' = sl_hdr st" "sl_mem st' = sl_mem st"
    "\<And>c. free_head (slab_caches st' c) = free_head (slab_caches st c) \<and> obj_size (slab_caches st' c) = obj_size (slab_caches st c)"
  shows "swf st' S fl live = swf st S fl live"
  using obj_cong [OF assms(1,2)] assms by (simp add: swf_def)

lemma slab_add_wf:
  assumes "swf st S fl live" "is_obj st S ci x" "x \<notin> set (fl ci)" "(ci, x) \<notin> live"
  shows "swf (slab_add st ci x) S (fl(ci := x # fl ci)) live"
    "sl_pmm (slab_add st ci x) = sl_pmm st" "sl_hdr (slab_add st ci x) = sl_hdr st"
    "c \<noteq> ci \<Longrightarrow> slab_caches (slab_add st ci x) c = slab_caches st c"
    "free_count (slab_caches (slab_add st ci x) ci) = free_count (slab_caches st ci) + 1"
    "a \<notin> extent ci x \<Longrightarrow> sl_mem (slab_add st ci x) a = sl_mem st a"
proof -
  let ?p = "slab_push st ci x"
  have w: "swf ?p S (fl(ci := x # fl ci)) live" using slab_push_wf [OF assms(1-3)] assms(4) by simp
  have e: "slab_add st ci x = ?p\<lparr>slab_caches := (slab_caches ?p)(ci := (slab_caches ?p ci)\<lparr>total_count := total_count (slab_caches ?p ci) + 1\<rparr>)\<rparr>"
    by (simp add: slab_add_def set_cache_def Let_def)
  have "swf (slab_add st ci x) S (fl(ci := x # fl ci)) live = swf ?p S (fl(ci := x # fl ci)) live"
    by (rule swf_cong) (simp_all add: e)
  then show "swf (slab_add st ci x) S (fl(ci := x # fl ci)) live" using w by simp
  show "sl_pmm (slab_add st ci x) = sl_pmm st" "sl_hdr (slab_add st ci x) = sl_hdr st"
    "c \<noteq> ci \<Longrightarrow> slab_caches (slab_add st ci x) c = slab_caches st c"
    "free_count (slab_caches (slab_add st ci x) ci) = free_count (slab_caches st ci) + 1"
    "a \<notin> extent ci x \<Longrightarrow> sl_mem (slab_add st ci x) a = sl_mem st a"
    by (simp_all add: e store_extent [OF assms(2)])
qed

lemma slots_step: "j < per_page ci \<Longrightarrow> slots ci i j = slots ci i (Suc j) @ [slot_pa ci i j]" "slots ci i (per_page ci) = []"
  by (simp_all add: slots_def upt_conv_Cons)

text \<open>The loop of the refill puts the slots from the \<open>j\<close>-th on in front of the list and leaves the live objects alone.\<close>

lemma slab_fill_wf:
  assumes "swf st S fl live" "slab_page st S ci i" "ci < 7" "1 \<le> j" "j \<le> per_page ci"
    "\<forall>k \<in> {j..<per_page ci}. slot_pa ci i k \<notin> set (fl ci) \<and> (ci, slot_pa ci i k) \<notin> live"
  shows "\<exists>st'. slab_fill ci (page_pa i, slab_sizes ci) (of_nat (j * csize ci), st) = Some st' \<and>
     swf st' S (fl(ci := slots ci i j @ fl ci)) live \<and> sl_pmm st' = sl_pmm st \<and> sl_hdr st' = sl_hdr st \<and>
     (\<forall>c. c \<noteq> ci \<longrightarrow> slab_caches st' c = slab_caches st c) \<and>
     free_count (slab_caches st' ci) = free_count (slab_caches st ci) + of_nat (per_page ci - j) \<and>
     (\<forall>(c, y) \<in> live. \<forall>a \<in> extent c y. sl_mem st' a = sl_mem st a)"
  using assms
proof (induction "per_page ci - j" arbitrary: j st fl)
  case 0
  have i: "i < NUM_PAGES" using "0.prems"(2) by (simp add: slab_page_def)
  have "j = per_page ci" using 0 by simp
  then show ?case using "0.prems" slab_fill_step [OF "0.prems"(3) i, of j st] by (simp add: slots_step)
next
  case (Suc n)
  let ?x = "slot_pa ci i j" and ?fl = "fl(ci := slot_pa ci i j # fl ci)"
  define s1 where "s1 = slab_add st ci ?x"
  have j: "j < per_page ci" using Suc(2) by simp
  have i: "i < NUM_PAGES" using Suc.prems(2) by (simp add: slab_page_def)
  have obj: "is_obj st S ci ?x"
    using slot_is_slot [OF Suc.prems(3) i Suc.prems(4) j] Suc.prems(2,3) by (auto simp: is_obj_def)
  have new: "?x \<notin> set (fl ci)" "(ci, ?x) \<notin> live" using Suc.prems(6) j by auto
  note a = slab_add_wf [OF Suc.prems(1) obj new, folded s1_def]
  have pg: "slab_page s1 S ci i" using Suc.prems(2) by (simp add: slab_page_def a(2,3))
  have rest: "\<forall>k \<in> {Suc j..<per_page ci}. slot_pa ci i k \<notin> set (?fl ci) \<and> (ci, slot_pa ci i k) \<notin> live"
    using Suc.prems(6) slot_inj [OF Suc.prems(3) i _ j] by auto
  have n: "n = per_page ci - Suc j" and sj: "1 \<le> Suc j" "Suc j \<le> per_page ci" using Suc(2) j by simp_all
  obtain st' where st': "slab_fill ci (page_pa i, slab_sizes ci) (of_nat (Suc j * csize ci), s1) = Some st'"
    "swf st' S (?fl(ci := slots ci i (Suc j) @ ?fl ci)) live" "sl_pmm st' = sl_pmm s1" "sl_hdr st' = sl_hdr s1"
    "\<forall>c. c \<noteq> ci \<longrightarrow> slab_caches st' c = slab_caches s1 c"
    "free_count (slab_caches st' ci) = free_count (slab_caches s1 ci) + of_nat (per_page ci - Suc j)"
    "\<forall>(c, y) \<in> live. \<forall>a \<in> extent c y. sl_mem st' a = sl_mem s1 a"
    using Suc(1) [OF n a(1) pg Suc.prems(3) sj rest] by (elim exE conjE) (rule that)
  have "sl_mem s1 b = sl_mem st b" if "(c, y) \<in> live" "b \<in> extent c y" for c y b
    using a(6) objs_disjoint [OF obj swfD(7) [OF Suc.prems(1) that(1)]] that new(2) by blast
  moreover have "of_nat (per_page ci - j) = (1 + of_nat (per_page ci - Suc j) :: u32)"
    using j by (simp add: Suc_diff_Suc [symmetric])
  ultimately show ?case
    using st' a(2-5) slab_fill_step [OF Suc.prems(3) i, of j st] j
    by (intro exI [of _ st']) (auto simp: slots_step(1) s1_def [symmetric])
qed


lemma refill_offset: "ci < 7 \<Longrightarrow> (8 + ucast (slab_sizes ci) - 1) div ucast (slab_sizes ci) * ucast (slab_sizes ci) = (of_nat (1 * csize ci) :: u64)"
proof -
  assume "ci < 7"
  then have "ci \<in> {0, 1, 2, 3, 4, 5, 6}" by auto
  then show ?thesis by (auto simp: csize_def slab_sizes_def)
qed

text \<open>What pages in use rely on: their descriptors and headers do not change.\<close>

definition pages_kept :: "slab \<Rightarrow> nat set \<Rightarrow> slab \<Rightarrow> bool" where
  "pages_kept st S st' \<longleftrightarrow> (\<forall>p < NUM_PAGES. p \<notin> S \<longrightarrow> page_state (sl_pmm st') p = page_state (sl_pmm st) p \<and>
     page_refs (sl_pmm st') p = page_refs (sl_pmm st) p \<and> sl_hdr st' (page_pa p) = sl_hdr st (page_pa p))"

lemma swf_pages:
  assumes wf: "swf st S fl live" and pg: "\<And>ci i. slab_page st S ci i \<Longrightarrow> slab_page st' S' ci i"
    and rel: "pmm_rel (sl_pmm st') S'" and same: "sl_mem st' = sl_mem st" "slab_caches st' = slab_caches st"
  shows "swf st' S' fl live"
proof -
  have obj: "is_obj st' S' c y" if "is_obj st S c y" for c y using that pg unfolding is_obj_def by blast
  then show ?thesis using wf rel unfolding swf_def same by fastforce
qed

lemma slab_page_kept: "pages_kept st S st' \<Longrightarrow> S' \<subseteq> S \<Longrightarrow> slab_page st S ci i \<Longrightarrow> slab_page st' S' ci i"
  by (auto simp: pages_kept_def slab_page_def)

lemma pages_kept_trans: "pages_kept a S b \<Longrightarrow> sl_pmm c = sl_pmm b \<Longrightarrow> sl_hdr c = sl_hdr b \<Longrightarrow> pages_kept a S c"
  by (simp add: pages_kept_def)

text \<open>Pages taken from the free set and a header written into the first of them.\<close>

lemma pages_taken:
  assumes rel: "pmm_rel (sl_pmm st) S" and al: "phys_alloc_pages (sl_pmm st) k = Some (pa, m)"
  obtains i where "pa = page_pa i" "2 ^ k dvd i" "blk i k \<subseteq> S" "i < NUM_PAGES" "pmm_rel m (S - blk i k)" "k < MAX_ORDER"
    "\<forall>p \<in> blk i k. page_state m p = PAGE_ALLOC \<and> page_refs m p = 1"
    "\<forall>h. pages_kept st S (st\<lparr>sl_pmm := m, sl_hdr := (sl_hdr st)(pa := h)\<rparr>)"
proof -
  obtain i where i: "pa = page_pa i" "2 ^ k dvd i" "blk i k \<subseteq> S" "pmm_rel m (S - blk i k)"
    "\<forall>p \<in> blk i k. page_state m p = PAGE_ALLOC \<and> page_refs m p = 1"
    "\<forall>p. p \<notin> S \<longrightarrow> page_state m p = page_state (sl_pmm st) p \<and> page_refs m p = page_refs (sl_pmm st) p" "k < MAX_ORDER"
    by (rule pmm_alloc_some [OF rel al])
  have iS: "i \<in> S" using i(3) blk_head by blast
  then have iN: "i < NUM_PAGES" using pmm_rel_bound [OF rel] by blast
  have "page_pa p \<noteq> pa" if "p < NUM_PAGES" "p \<notin> S" for p using that iS iN page_pa_inj [of p i] by (auto simp: i(1))
  then have "\<forall>h. pages_kept st S (st\<lparr>sl_pmm := m, sl_hdr := (sl_hdr st)(pa := h)\<rparr>)" using i(6) by (simp add: pages_kept_def)
  from that [OF i(1-3) iN i(4,7,5) this] show ?thesis .
qed

text \<open>A page taken from the free set becomes a slab page; every object of the heap stays what it was.\<close>

lemma slab_page_taken:
  assumes wf: "swf st S fl live" and ci: "ci < 7" and al: "phys_alloc_page (sl_pmm st) = Some (pa, m)"
    and st1: "st1 = st\<lparr>sl_pmm := m\<lparr>page_state := (page_state m)(unat (PA_TO_IDX pa) := PAGE_SLAB)\<rparr>,
      sl_hdr := (sl_hdr st)(pa := (sl_hdr st pa)\<lparr>class_idx := of_nat ci, aux := 0, magic := SLAB_MAGIC_LIVE\<rparr>)\<rparr>"
  obtains i where "pa = page_pa i" "i \<in> S" "i < NUM_PAGES" "swf st1 (S - {i}) fl live" "slab_page st1 (S - {i}) ci i"
    "\<forall>k \<in> {1..<per_page ci}. slot_pa ci i k \<notin> set (fl ci) \<and> (ci, slot_pa ci i k) \<notin> live" "pages_kept st S st1"
proof -
  obtain i where i: "pa = page_pa i" "blk i 0 \<subseteq> S" "i < NUM_PAGES" "pmm_rel m (S - blk i 0)"
    "\<forall>h. pages_kept st S (st\<lparr>sl_pmm := m, sl_hdr := (sl_hdr st)(pa := h)\<rparr>)"
    by (rule pages_taken [OF swfD(1) [OF wf] al [unfolded alloc_page_eq]])
  have b: "blk i 0 = {i}" by (auto simp: blk_def)
  have iS: "i \<in> S" using i(2) b by simp
  have ix: "unat (PA_TO_IDX pa) = i" using i(1,3) by simp
  have kept: "pages_kept st S st1" using i(5) iS unfolding pages_kept_def st1 ix by auto
  note page = slab_page_kept [OF kept]
  have "pmm_rel (sl_pmm st1) (S - {i})" using pmm_slab_rel [OF i(4), of i] b by (simp add: st1 ix)
  then have w: "swf st1 (S - {i}) fl live" by (intro swf_pages [OF wf]) (auto simp: st1 intro: page [unfolded st1])
  have pg: "slab_page st1 (S - {i}) ci i" using i(3) by (simp add: slab_page_def st1 i(1))
  have fresh: "\<not> is_obj st S ci (slot_pa ci i k)" if "1 \<le> k" "k < per_page ci" for k
  proof
    assume "is_obj st S ci (slot_pa ci i k)"
    then obtain l where l: "slab_page st S ci l" "is_slot ci l (slot_pa ci i k)" by (auto simp: is_obj_def)
    have "l \<noteq> i" using l(1) iS by (auto simp: slab_page_def)
    from slots_disjoint [OF l(2) slot_is_slot [OF ci i(3) that] ci ci] this
    show False using slot_words(3) [OF l(2) ci] by blast
  qed
  then have "\<forall>k \<in> {1..<per_page ci}. slot_pa ci i k \<notin> set (fl ci) \<and> (ci, slot_pa ci i k) \<notin> live"
    using swfD(5) [OF wf ci] swfD(7) [OF wf] by (metis atLeastLessThan_iff)
  from that [OF i(1) iS i(3) w pg this kept] show ?thesis .
qed

lemma slab_refill_none: "swf st {} fl live \<Longrightarrow> slab_refill st ci = None"
  using pmm_alloc_page_ok [of "sl_pmm st" "{}"] swfD(1) by (fastforce simp: slab_refill_def split: option.splits)

lemma slab_refill_wf:
  assumes wf: "swf st S fl live" and ci: "ci < 7" and ne: "S \<noteq> {}"
  obtains st' i where "slab_refill st ci = Some st'" "i \<in> S" "swf st' (S - {i}) (fl(ci := slots ci i 1 @ fl ci)) live"
    "\<forall>c. c \<noteq> ci \<longrightarrow> slab_caches st' c = slab_caches st c"
    "free_count (slab_caches st' ci) = free_count (slab_caches st ci) + of_nat (per_page ci - 1)"
    "\<forall>(c, y) \<in> live. \<forall>a \<in> extent c y. sl_mem st' a = sl_mem st a" "pages_kept st S st'"
proof -
  obtain pa m where al: "phys_alloc_page (sl_pmm st) = Some (pa, m)" using pmm_alloc_page_ok [OF swfD(1) [OF wf]] ne by blast
  define st1 where "st1 = st\<lparr>sl_pmm := m\<lparr>page_state := (page_state m)(unat (PA_TO_IDX pa) := PAGE_SLAB)\<rparr>,
    sl_hdr := (sl_hdr st)(pa := (sl_hdr st pa)\<lparr>class_idx := of_nat ci, aux := 0, magic := SLAB_MAGIC_LIVE\<rparr>)\<rparr>"
  obtain i where i: "pa = page_pa i" "i \<in> S" "i < NUM_PAGES" "swf st1 (S - {i}) fl live" "slab_page st1 (S - {i}) ci i"
    "\<forall>k \<in> {1..<per_page ci}. slot_pa ci i k \<notin> set (fl ci) \<and> (ci, slot_pa ci i k) \<notin> live" "pages_kept st S st1"
    by (rule slab_page_taken [OF wf ci al st1_def])
  have "pa \<noteq> 0" using unat_page_pa [of i] i(1,3) by auto
  then have e: "slab_refill st ci = slab_fill ci (page_pa i, slab_sizes ci) (of_nat (1 * csize ci), st1)"
    using swfD(2) [OF i(4) ci] refill_offset [OF ci]
    by (simp add: slab_refill_def al st1_def Let_def i(1) del: of_nat_mult mult_1)
  have "1 \<le> per_page ci" using per_page(2) [OF ci] by simp
  from slab_fill_wf [OF i(4,5) ci _ this i(6)] obtain st' where
    "slab_fill ci (page_pa i, slab_sizes ci) (of_nat (1 * csize ci), st1) = Some st'"
    "swf st' (S - {i}) (fl(ci := slots ci i 1 @ fl ci)) live" "\<forall>c. c \<noteq> ci \<longrightarrow> slab_caches st' c = slab_caches st1 c"
    "free_count (slab_caches st' ci) = free_count (slab_caches st1 ci) + of_nat (per_page ci - 1)"
    "\<forall>(c, y) \<in> live. \<forall>a \<in> extent c y. sl_mem st' a = sl_mem st1 a" "sl_pmm st' = sl_pmm st1" "sl_hdr st' = sl_hdr st1" by auto
  moreover have "slab_caches st1 = slab_caches st" "sl_mem st1 = sl_mem st" by (simp_all add: st1_def)
  ultimately show ?thesis using that [OF _ i(2), of st'] e pages_kept_trans [OF i(7)] by auto
qed


subsection \<open>kmalloc on a class\<close>

lemma class_for:
  assumes "slab_class_for sz = Some ci" shows "ci < 7" "unat sz + 8 \<le> csize ci"
proof -
  have h: "ci < 7" "sz \<le> slab_usable_size ci"
    using assms by (simp_all add: slab_class_for_def for_find_Some SLAB_NUM_CLASSES_def)
  then show "ci < 7" by simp
  then have "ci \<in> {0, 1, 2, 3, 4, 5, 6}" by auto
  then show "unat sz + 8 \<le> csize ci"
    using h(2) by (auto simp: slab_usable_size_def csize_def slab_sizes_def SLAB_REDZONE_SZ_def word_le_nat_alt)
qed

definition guarded :: "slab \<Rightarrow> (nat \<times> u64) set \<Rightarrow> bool" where
  "guarded st live \<longleftrightarrow> (\<forall>(ci, x) \<in> live. sl_mem st x = SLAB_CANARY_WORD \<and> sl_mem st (x + of_nat (csize ci) - 4) = SLAB_CANARY_WORD)"

lemma live_cases:
  assumes "swf st S fl live" "(ci, x) \<notin> live" "is_obj st S ci x"
  shows "\<forall>(c, y) \<in> live. extent c y \<inter> extent ci x = {}"
  using objs_disjoint [OF swfD(7) [OF assms(1)] assms(3)] assms(2) by blast

text \<open>What the caller of an allocation gets: a new object with its guards, apart from all others, whose contents are kept.\<close>

definition handed_out :: "slab \<Rightarrow> (nat \<times> u64) set \<Rightarrow> nat \<Rightarrow> u64 \<Rightarrow> slab \<Rightarrow> bool" where
  "handed_out st live ci x st' \<longleftrightarrow> (ci, x) \<notin> live \<and> guarded st' {(ci, x)} \<and>
     (\<forall>(c, y) \<in> live. extent c y \<inter> extent ci x = {} \<and> (\<forall>a \<in> extent c y. sl_mem st' a = sl_mem st a))"

lemma pop_handed_out:
  assumes w: "swf st S fl live" and ci: "ci < 7" and ne: "fl ci \<noteq> []"
  obtains st' where "kmalloc_pop st ci = Some (hd (fl ci) + 4, st')" "swf st' S (fl(ci := tl (fl ci))) (insert (ci, hd (fl ci)) live)"
    "handed_out st live ci (hd (fl ci)) st'" "sl_pmm st' = sl_pmm st" "sl_hdr st' = sl_hdr st"
proof -
  obtain x xs where fl: "fl ci = x # xs" using ne by (cases "fl ci") auto
  have obj: "is_obj st S ci x" "(ci, x) \<notin> live" using swfD(5,6) [OF w ci] fl by auto
  obtain st' where st': "kmalloc_pop st ci = Some (x + 4, st')" "swf st' S (fl(ci := xs)) (insert (ci, x) live)"
    "sl_mem st' = (sl_mem st)(x := SLAB_CANARY_WORD, x + of_nat (csize ci) - 4 := SLAB_CANARY_WORD)"
    "sl_pmm st' = sl_pmm st" "sl_hdr st' = sl_hdr st" by (rule slab_pop_wf [OF w ci fl])
  have d: "\<forall>(c, y) \<in> live. extent c y \<inter> extent ci x = {}" by (rule live_cases [OF w obj(2,1)])
  have "sl_mem st' a = sl_mem st a" if "a \<notin> extent ci x" for a using that obj_words(1,3) [OF obj(1)] unfolding st'(3) by auto
  moreover have "guarded st' {(ci, x)}" by (simp add: guarded_def st'(3))
  ultimately have "handed_out st live ci x st'" using d obj(2) unfolding handed_out_def by blast
  with that [of st'] st' fl show ?thesis by simp
qed

lemma kmalloc_eq:
  assumes "swf st S fl live" "slab_class_for sz = Some ci" "sz \<noteq> 0"
  shows "kmalloc st sz = (if fl ci = [] then slab_refill st ci else Some st) \<bind> (\<lambda>st. kmalloc_pop st ci)"
proof -
  have "free_head (slab_caches st ci) = 0 \<longleftrightarrow> fl ci = []"
    using swfD(3) [OF assms(1) class_for(1) [OF assms(2)]] by (cases "fl ci") auto
  then show ?thesis using assms(2,3) by (simp add: kmalloc_def)
qed

lemma kmalloc_hot:
  assumes wf: "swf st S fl live" and cl: "slab_class_for sz = Some ci" "sz \<noteq> 0" and ne: "fl ci \<noteq> []"
  obtains st' where "kmalloc st sz = Some (hd (fl ci) + 4, st')" "swf st' S (fl(ci := tl (fl ci))) (insert (ci, hd (fl ci)) live)"
    "handed_out st live ci (hd (fl ci)) st'" "pages_kept st S st'"
proof -
  obtain st' where st': "kmalloc_pop st ci = Some (hd (fl ci) + 4, st')" "swf st' S (fl(ci := tl (fl ci))) (insert (ci, hd (fl ci)) live)"
    "handed_out st live ci (hd (fl ci)) st'" "sl_pmm st' = sl_pmm st" "sl_hdr st' = sl_hdr st"
    by (rule pop_handed_out [where fl = fl, OF wf class_for(1) [OF cl(1)] ne])
  then have "pages_kept st S st'" by (simp add: pages_kept_def)
  with that [of st'] st' ne show ?thesis by (simp add: kmalloc_eq [OF wf cl])
qed

lemma kmalloc_class:
  assumes wf: "swf st S fl live" and cl: "slab_class_for sz = Some ci" "sz \<noteq> 0" and mem: "fl ci \<noteq> [] \<or> S \<noteq> {}"
  obtains x st' S' fl' where "kmalloc st sz = Some (x + 4, st')" "swf st' S' fl' (insert (ci, x) live)"
    "handed_out st live ci x st'" "S' \<subseteq> S" "pages_kept st S st'" "card S \<le> Suc (card S')"
proof (cases "fl ci = []")
  case False
  obtain st' where "kmalloc st sz = Some (hd (fl ci) + 4, st')" "swf st' S (fl(ci := tl (fl ci))) (insert (ci, hd (fl ci)) live)"
    "handed_out st live ci (hd (fl ci)) st'" "pages_kept st S st'" by (rule kmalloc_hot [OF wf cl False])
  from that [OF this(1-3) _ this(4)] show ?thesis by simp
next
  case True
  note ci = class_for(1) [OF cl(1)]
  have "S \<noteq> {}" using mem True by simp
  then obtain st1 i where r: "slab_refill st ci = Some st1" "i \<in> S" "swf st1 (S - {i}) (fl(ci := slots ci i 1 @ fl ci)) live"
    "\<forall>(c, y) \<in> live. \<forall>a \<in> extent c y. sl_mem st1 a = sl_mem st a" "pages_kept st S st1"
    by (rule slab_refill_wf [OF wf ci])
  have "(fl(ci := slots ci i 1 @ fl ci)) ci \<noteq> []" using per_page(2) [OF ci] by (simp add: slots_def)
  from pop_handed_out [OF r(3) ci this] obtain x st' fl' where p: "kmalloc_pop st1 ci = Some (x + 4, st')"
    "swf st' (S - {i}) fl' (insert (ci, x) live)" "handed_out st1 live ci x st'" "sl_pmm st' = sl_pmm st1" "sl_hdr st' = sl_hdr st1"
    by metis
  have "handed_out st live ci x st'" using p(3) r(4) by (fastforce simp: handed_out_def)
  moreover have "kmalloc st sz = Some (x + 4, st')" using p(1) r(1) True by (simp add: kmalloc_eq [OF wf cl])
  moreover have "card S \<le> Suc (card (S - {i}))" by (auto simp: card_Diff_singleton_if)
  ultimately show ?thesis using that p(2) pages_kept_trans [OF r(5) p(4,5)] by blast
qed

lemma kmalloc_oom:
  "swf st {} fl live \<Longrightarrow> slab_class_for sz = Some ci \<Longrightarrow> sz \<noteq> 0 \<Longrightarrow> fl ci = [] \<Longrightarrow> kmalloc st sz = None"
  by (simp add: kmalloc_eq slab_refill_none)


subsection \<open>Large objects\<close>

text \<open>The blocks handed out by the large path, with the index of the first page and the order.\<close>

definition large_ok :: "slab \<Rightarrow> nat set \<Rightarrow> (nat \<times> nat) set \<Rightarrow> bool" where
  "large_ok st S L \<longleftrightarrow> (\<forall>(i, k) \<in> L. k < MAX_ORDER \<and> blk i k \<subseteq> {..<NUM_PAGES} - S \<and>
       (\<forall>p \<in> blk i k. page_state (sl_pmm st) p = PAGE_ALLOC \<and> page_refs (sl_pmm st) p = 1) \<and>
       class_idx (sl_hdr st (page_pa i)) = SLAB_CLASS_LARGE \<and> unat (aux (sl_hdr st (page_pa i))) = k \<and>
       magic (sl_hdr st (page_pa i)) = SLAB_MAGIC_LIVE) \<and>
     (\<forall>(i, k) \<in> L. \<forall>(j, l) \<in> L. (i, k) \<noteq> (j, l) \<longrightarrow> blk i k \<inter> blk j l = {})"

lemma large_okD:
  assumes "large_ok st S L" "(i, k) \<in> L"
  shows "k < MAX_ORDER" "blk i k \<subseteq> {..<NUM_PAGES} - S" "i < NUM_PAGES" "i \<notin> S"
    "\<forall>p \<in> blk i k. page_state (sl_pmm st) p = PAGE_ALLOC \<and> page_refs (sl_pmm st) p = 1"
    "class_idx (sl_hdr st (page_pa i)) = SLAB_CLASS_LARGE" "unat (aux (sl_hdr st (page_pa i))) = k"
    "magic (sl_hdr st (page_pa i)) = SLAB_MAGIC_LIVE"
    "(j, l) \<in> L \<Longrightarrow> (i, k) \<noteq> (j, l) \<Longrightarrow> blk i k \<inter> blk j l = {}"
proof -
  note c = bspec [OF conjunct1 [OF assms(1) [unfolded large_ok_def]] assms(2), simplified]
  then show "k < MAX_ORDER" "blk i k \<subseteq> {..<NUM_PAGES} - S" "class_idx (sl_hdr st (page_pa i)) = SLAB_CLASS_LARGE"
    "\<forall>p \<in> blk i k. page_state (sl_pmm st) p = PAGE_ALLOC \<and> page_refs (sl_pmm st) p = 1"
    "unat (aux (sl_hdr st (page_pa i))) = k" "magic (sl_hdr st (page_pa i)) = SLAB_MAGIC_LIVE" by simp_all
  show "i < NUM_PAGES" "i \<notin> S" using c subsetD [OF _ blk_head [of i k]] by auto
  show "(j, l) \<in> L \<Longrightarrow> (i, k) \<noteq> (j, l) \<Longrightarrow> blk i k \<inter> blk j l = {}"
    using bspec [OF bspec [OF conjunct2 [OF assms(1) [unfolded large_ok_def]] assms(2), simplified]] by fastforce
qed

lemma large_mono:
  assumes "large_ok st S L" "L' \<subseteq> L"
    and "\<And>i k p. (i, k) \<in> L' \<Longrightarrow> p \<in> blk i k \<Longrightarrow> p \<notin> S' \<and> page_state (sl_pmm st') p = page_state (sl_pmm st) p \<and>
      page_refs (sl_pmm st') p = page_refs (sl_pmm st) p"
    and "\<And>i k. (i, k) \<in> L' \<Longrightarrow> sl_hdr st' (page_pa i) = sl_hdr st (page_pa i)"
  shows "large_ok st' S' L'"
proof -
  have "k < MAX_ORDER \<and> blk i k \<subseteq> {..<NUM_PAGES} - S' \<and>
      (\<forall>p \<in> blk i k. page_state (sl_pmm st') p = PAGE_ALLOC \<and> page_refs (sl_pmm st') p = 1) \<and>
      class_idx (sl_hdr st' (page_pa i)) = SLAB_CLASS_LARGE \<and> unat (aux (sl_hdr st' (page_pa i))) = k \<and>
      magic (sl_hdr st' (page_pa i)) = SLAB_MAGIC_LIVE" if "(i, k) \<in> L'" for i k
    using large_okD [OF assms(1) subsetD [OF assms(2) that]] assms(3,4) [OF that] by auto
  moreover have "blk i k \<inter> blk j l = {}" if "(i, k) \<in> L'" "(j, l) \<in> L'" "(i, k) \<noteq> (j, l)" for i k j l
    using large_okD(9) [OF assms(1)] that assms(2) by blast
  ultimately show ?thesis unfolding large_ok_def by blast
qed

lemma large_kept:
  assumes "large_ok st S L" "pages_kept st S st'" "S' \<subseteq> S" shows "large_ok st' S' L"
proof (rule large_mono [OF assms(1) subset_refl])
  fix i k assume ik: "(i, k) \<in> L"
  show "sl_hdr st' (page_pa i) = sl_hdr st (page_pa i)" using assms(2) large_okD(3,4) [OF assms(1) ik] by (simp add: pages_kept_def)
  show "p \<notin> S' \<and> page_state (sl_pmm st') p = page_state (sl_pmm st) p \<and> page_refs (sl_pmm st') p = page_refs (sl_pmm st) p"
    if "p \<in> blk i k" for p using that assms(2,3) large_okD(2) [OF assms(1) ik] by (auto simp: pages_kept_def)
qed

lemma large_insert:
  assumes "large_ok st S L" "large_ok st S {(i, k)}" "\<And>j l. (j, l) \<in> L \<Longrightarrow> blk i k \<inter> blk j l = {}"
  shows "large_ok st S (insert (i, k) L)"
proof -
  have "blk a b \<inter> blk j l = {}" if "(a, b) \<in> insert (i, k) L" "(j, l) \<in> insert (i, k) L" "(a, b) \<noteq> (j, l)" for a b j l
  proof (cases "(a, b) = (i, k)")
    case True
    then show ?thesis using that assms(3) by auto
  next
    case False
    then have "(a, b) \<in> L" using that(1) by blast
    then show ?thesis using that(2,3) large_okD(9) [OF assms(1), of a b j l] assms(3) [of a b] by auto
  qed
  moreover note assms(1) [unfolded large_ok_def, THEN conjunct1] assms(2) [unfolded large_ok_def, THEN conjunct1]
  ultimately show ?thesis unfolding large_ok_def by (intro conjI) (simp, blast)
qed

lemma large_order_covers: "large_order pages n = Some k \<Longrightarrow> pages \<le> push_bit k 1"
  by (erule large_order.raw_induct [of "\<lambda>pages n k. pages \<le> push_bit k 1", rotated]) (auto split: if_splits)

lemma large_order_returns: "unat pages \<le> 2 ^ 20 \<Longrightarrow> n \<le> 20 \<Longrightarrow> \<exists>k. large_order pages n = Some k"
proof (induction "20 - n" arbitrary: n)
  case 0
  then have "unat pages \<le> unat (push_bit n 1 :: u32)" by (simp add: push_bit_eq_mult)
  then have "\<not> push_bit n 1 < pages" by (simp add: word_less_nat_alt)
  then show ?case by (simp add: large_order.simps)
next
  case (Suc m)
  then have "\<exists>k. large_order pages (n + 1) = Some k" by auto
  then show ?case by (subst large_order.simps) auto
qed

lemma kmalloc_large_wf:
  assumes wf: "swf st S fl live" and L: "large_ok st S L" and km: "kmalloc_large st sz = Some (p, st')"
  obtains i k where "p = page_pa i + 8" "k < MAX_ORDER" "2 ^ k dvd i" "blk i k \<subseteq> S"
    "large_order (drop_bit PAGE_SHIFT (sz + 8 + ucast PAGE_SIZE - 1)) 0 = Some k"
    "swf st' (S - blk i k) fl live" "large_ok st' (S - blk i k) (insert (i, k) L)" "sl_mem st' = sl_mem st" "i < NUM_PAGES"
    "unat (aux (sl_hdr st' (page_pa i))) = k"
proof -
  obtain k pa m where k: "large_order (drop_bit PAGE_SHIFT (sz + 8 + ucast PAGE_SIZE - 1)) 0 = Some k" "k < MAX_ORDER"
    "phys_alloc_pages (sl_pmm st) k = Some (pa, m)" "p = pa + 8"
    and st': "st' = st\<lparr>sl_pmm := m, sl_hdr := (sl_hdr st)(pa := \<lparr>class_idx = SLAB_CLASS_LARGE, aux = of_nat k,
      magic = SLAB_MAGIC_LIVE, hdr_reserved = 0\<rparr>)\<rparr>"
    using km by (auto simp: kmalloc_large_def Let_def bind_eq_Some_conv split: if_splits)
  obtain i where i: "pa = page_pa i" "2 ^ k dvd i" "blk i k \<subseteq> S" "i < NUM_PAGES" "pmm_rel m (S - blk i k)"
    "\<forall>p \<in> blk i k. page_state m p = PAGE_ALLOC \<and> page_refs m p = 1"
    "\<forall>h. pages_kept st S (st\<lparr>sl_pmm := m, sl_hdr := (sl_hdr st)(pa := h)\<rparr>)"
    by (rule pages_taken [OF swfD(1) [OF wf] k(3)])
  have kept: "pages_kept st S st'" unfolding st' using i(7) by blast
  have w: "swf st' (S - blk i k) fl live"
    by (rule swf_pages [OF wf]) (auto simp: st' i(5) intro: slab_page_kept [OF kept, unfolded st'])
  have u: "unat (of_nat k :: u8) = k" using k(2) by (simp add: unat_of_nat MAX_ORDER_def)
  have "large_ok st' (S - blk i k) {(i, k)}"
    using k(2) i(3,6) u pmm_rel_bound [OF swfD(1) [OF wf]] by (auto simp: large_ok_def st' i(1))
  then have "large_ok st' (S - blk i k) (insert (i, k) L)"
    by (rule large_insert [OF large_kept [OF L kept Diff_subset]]) (use large_okD(2) [OF L] i(3) in blast)
  with that [of i k] k i(1-4) w u show ?thesis by (simp add: st')
qed


lemma kmalloc_large_fits:
  assumes "large_order (drop_bit PAGE_SHIFT (sz + 8 + ucast PAGE_SIZE - 1)) 0 = Some k" "k < MAX_ORDER" "unat sz + 8 + 4095 < 2 ^ 32"
  shows "unat sz + 8 \<le> 4096 * 2 ^ k"
proof -
  have "sz + 8 + ucast PAGE_SIZE - 1 = sz + of_nat 4103" by (simp add: PAGE_SIZE_def)
  then have "unat (sz + 8 + ucast PAGE_SIZE - 1) = unat sz + 4103" using assms(3) by (simp add: unat_word_ariths)
  then have d: "unat (drop_bit PAGE_SHIFT (sz + 8 + ucast PAGE_SIZE - 1)) = (unat sz + 4103) div 4096"
    by (simp add: PAGE_SHIFT_def drop_bit_eq_div unat_div)
  have "(2 :: nat) ^ k < 2 ^ 32" using assms(2) by (intro power_strict_increasing) (auto simp: MAX_ORDER_def)
  moreover have "push_bit k 1 = (of_nat (2 ^ k) :: u32)" by (simp add: push_bit_eq_mult)
  ultimately have "unat (push_bit k 1 :: u32) = 2 ^ k" by (simp only: unat_of_nat) simp
  then have "(unat sz + 4103) div 4096 \<le> 2 ^ k" using large_order_covers [OF assms(1)] d by (simp add: word_le_nat_alt)
  then show ?thesis by linarith
qed

lemma kfree_large:
  assumes wf: "swf st S fl live" and L: "large_ok st S L" and ik: "(i, k) \<in> L"
  obtains st' where "kfree st (page_pa i + 8) = Some st'" "swf st' (S \<union> blk i k) fl live" "large_ok st' (S \<union> blk i k) (L - {(i, k)})"
    "sl_mem st' = sl_mem st" "magic (sl_hdr st' (page_pa i)) = SLAB_MAGIC_FREE"
proof -
  note l = large_okD [OF L ik]
  define st' where "st' = st\<lparr>sl_hdr := (sl_hdr st)(page_pa i := (sl_hdr st (page_pa i))\<lparr>magic := SLAB_MAGIC_FREE\<rparr>),
    sl_pmm := phys_free_pages (sl_pmm st) (page_pa i) k\<rparr>"
  have m: "(page_pa i + 8) AND PAGE_MASK = page_pa i" using in_page_mask [OF l(3), of 8] by simp
  have nz: "page_pa i + 8 \<noteq> 0" using unat_in_page [OF l(3), of 8] by auto
  have kf: "kfree st (page_pa i + 8) = Some st'"
    using nz by (simp add: kfree_def Let_def m l st'_def SLAB_MAGIC_LIVE_def SLAB_MAGIC_FREE_def)
  have b: "{i..<i + 2 ^ k} = blk i k" by (auto simp: blk_def)
  have "i + 2 ^ k \<le> NUM_PAGES" using l(2) blk_bound [of i k] by blast
  from pmm_free_fold [OF swfD(1) [OF wf] this] l(2,5) have
    fr: "pmm_rel (sl_pmm st') (S \<union> blk i k)" and
    kept: "\<And>q. q \<notin> S \<union> blk i k \<Longrightarrow> page_state (sl_pmm st') q = page_state (sl_pmm st) q \<and> page_refs (sl_pmm st') q = page_refs (sl_pmm st) q"
    unfolding b st'_def phys_free_pages_def by auto
  have hdr: "sl_hdr st' (page_pa q) = sl_hdr st (page_pa q)" if "q < NUM_PAGES" "q \<noteq> i" for q
    using that l(3) page_pa_inj [of q i] by (simp add: st'_def)
  have slab: "slab_page st' (S \<union> blk i k) c q" if pg: "slab_page st S c q" for c q
  proof -
    have q: "q \<notin> blk i k" using pg l(5) by (auto simp: slab_page_def)
    then have "q \<noteq> i" using blk_head by blast
    with q pg kept hdr show ?thesis by (auto simp: slab_page_def)
  qed
  have "swf st' (S \<union> blk i k) fl live" by (rule swf_pages [OF wf slab fr]) (simp_all add: st'_def)
  moreover have "large_ok st' (S \<union> blk i k) (L - {(i, k)})"
  proof (rule large_mono [OF L Diff_subset])
    fix j n assume jn: "(j, n) \<in> L - {(i, k)}"
    note d = large_okD(2,3,9) [OF L, of j n]
    have dis: "blk i k \<inter> blk j n = {}" using large_okD(9) [OF L ik] jn by blast
    show "p \<notin> S \<union> blk i k \<and> page_state (sl_pmm st') p = page_state (sl_pmm st) p \<and> page_refs (sl_pmm st') p = page_refs (sl_pmm st) p"
      if "p \<in> blk j n" for p using that dis d(1) jn kept by blast
    have "j \<noteq> i" using dis blk_head by blast
    then show "sl_hdr st' (page_pa j) = sl_hdr st (page_pa j)" using hdr d(2) jn by blast
  qed
  ultimately show ?thesis using that [OF kf] by (simp add: st'_def)
qed


subsection \<open>Warming and boot\<close>

text \<open>With enough free pages the loop ends, and the class then has the number of free objects asked for.\<close>

lemma slab_warm_loop_ok:
  assumes "swf st S fl live" "ci < 7" "k \<le> card S" "unat n \<le> unat (free_count (slab_caches st ci)) + k * (per_page ci - 1)" "unat n < 2 ^ 31"
  shows "\<exists>st' S' fl'. slab_warm_loop ci n st = Some st' \<and> swf st' S' fl' live \<and> card S \<le> card S' + k \<and>
     n \<le> free_count (slab_caches st' ci) \<and> (\<forall>c. c \<noteq> ci \<longrightarrow> slab_caches st' c = slab_caches st c)"
  using assms
proof (induction k arbitrary: st S fl)
  case 0
  then have "n \<le> free_count (slab_caches st ci)" by (simp add: word_le_nat_alt)
  then show ?case using 0 by (auto simp: slab_warm_loop.simps not_less)
next
  case (Suc k)
  show ?case
  proof (cases "n \<le> free_count (slab_caches st ci)")
    case True
    then show ?thesis using Suc.prems by (intro exI [of _ st] exI [of _ S] exI [of _ fl]) (auto simp: slab_warm_loop.simps not_less)
  next
    case False
    have fin: "finite S" using pmm_rel_bound [OF swfD(1) [OF Suc.prems(1)]] finite_subset by blast
    have "S \<noteq> {}" using Suc.prems(3) by auto
    then obtain st1 i where r: "slab_refill st ci = Some st1" "i \<in> S" "swf st1 (S - {i}) (fl(ci := slots ci i 1 @ fl ci)) live"
      "\<forall>c. c \<noteq> ci \<longrightarrow> slab_caches st1 c = slab_caches st c"
      "free_count (slab_caches st1 ci) = free_count (slab_caches st ci) + of_nat (per_page ci - 1)"
      by (rule slab_refill_wf [OF Suc.prems(1,2)])
    have "unat (free_count (slab_caches st ci)) < 2 ^ 31" using False Suc.prems(5) by (simp add: word_le_nat_alt)
    then have u: "unat (free_count (slab_caches st1 ci)) = unat (free_count (slab_caches st ci)) + (per_page ci - 1)"
      using per_page(3) [OF Suc.prems(2)] unfolding r(5) by (simp add: unat_word_ariths unat_of_nat)
    have c: "card S = Suc (card (S - {i}))" using fin r(2) by (rule card.remove)
    then have "k \<le> card (S - {i})" "unat n \<le> unat (free_count (slab_caches st1 ci)) + k * (per_page ci - 1)"
      using Suc.prems(3,4) u by (simp_all add: algebra_simps)
    from Suc.IH [OF r(3) Suc.prems(2) this Suc.prems(5)] obtain st' S' fl' where
      "slab_warm_loop ci n st1 = Some st'" "swf st' S' fl' live" "card (S - {i}) \<le> card S' + k"
      "n \<le> free_count (slab_caches st' ci)" "\<forall>c. c \<noteq> ci \<longrightarrow> slab_caches st' c = slab_caches st1 c" by blast
    with False r(1,4) c show ?thesis
      by (intro exI [of _ st'] exI [of _ S'] exI [of _ fl']) (simp add: slab_warm_loop.simps [of ci n st])
  qed
qed

lemma slab_warm_ok:
  assumes "slab_class_for sz = Some ci" "swf st S fl live" "k \<le> card S"
    "unat n \<le> unat (free_count (slab_caches st ci)) + k * (per_page ci - 1)" "unat n < 2 ^ 31"
  obtains st' S' fl' where "slab_warm st sz n = Some st'" "swf st' S' fl' live" "card S \<le> card S' + k"
     "n \<le> free_count (slab_caches st' ci)" "\<forall>c. c \<noteq> ci \<longrightarrow> slab_caches st' c = slab_caches st c"
  using slab_warm_loop_ok [OF assms(2) class_for(1) [OF assms(1)] assms(3-5)] assms(1) that by (auto simp: slab_warm_def)

text \<open>The memory the boot code leaves: the heap is whatever the RAM holds, the caches are zero.\<close>

definition heap_bss :: "(u64 \<Rightarrow> slab_hdr) \<Rightarrow> (u64 \<Rightarrow> u32) \<Rightarrow> slab" where
  "heap_bss hdrs mem = \<lparr>sl_pmm = pmm_bss, sl_hdr = hdrs, sl_mem = mem,
     slab_caches = (\<lambda>_. \<lparr>free_head = 0, obj_size = 0, free_count = 0, total_count = 0\<rparr>)\<rparr>"

lemma warm_classes: "slab_class_for 64 = Some 2" "slab_class_for 512 = Some 5" "slab_class_for 128 = Some 3"
  by (simp_all add: slab_class_for_def SLAB_NUM_CLASSES_def for_find.simps slab_usable_size_def slab_sizes_def SLAB_REDZONE_SZ_def)

lemma slab_init_wf: "pmm_rel (sl_pmm st) S \<Longrightarrow> swf (slab_init st) S (\<lambda>_. []) {}"
  by (simp add: swf_def slab_init_def SLAB_NUM_CLASSES_def)

lemma heap_boot:
  assumes "r + 57 \<le> NUM_PAGES" "r mod 4 \<noteq> 1"
  obtains st S fl where "pmm_init (heap_bss hdrs mem) (page_pa r) = Some st" "swf st S fl {}"
    "256 \<le> free_count (slab_caches st 2)" "128 \<le> free_count (slab_caches st 5)" "64 \<le> free_count (slab_caches st 3)"
    "NUM_PAGES - r \<le> card S + 57"
proof -
  have "r \<le> NUM_PAGES" using assms(1) by simp
  then obtain m where m: "pmm_init_buddy pmm_bss (page_pa r) = Some m" "pmm_rel m {r..<NUM_PAGES}" by (rule pmm_boot_rel [OF _ assms(2)])
  define s0 where "s0 = slab_init ((heap_bss hdrs mem)\<lparr>sl_pmm := m\<rparr>)"
  have w0: "swf s0 {r..<NUM_PAGES} (\<lambda>_. []) {}" unfolding s0_def by (rule slab_init_wf) (use m(2) in simp)
  have pp: "per_page 2 = 32" "per_page 5 = 4" "per_page 3 = 16" by (simp_all add: per_page_def csize_def slab_sizes_def)
  have f0: "free_count (slab_caches s0 c) = 0" for c by (simp add: s0_def slab_init_def heap_bss_def)
  have c0: "57 \<le> card {r..<NUM_PAGES}" using assms(1) by simp
  obtain s1 S1 fl1 where s1: "slab_warm s0 64 256 = Some s1" "swf s1 S1 fl1 {}" "card {r..<NUM_PAGES} \<le> card S1 + 9"
    "256 \<le> free_count (slab_caches s1 2)" "\<forall>c. c \<noteq> 2 \<longrightarrow> slab_caches s1 c = slab_caches s0 c"
    by (rule slab_warm_ok [OF warm_classes(1) w0, of 9 256]) (use c0 pp f0 in auto)
  have f1: "free_count (slab_caches s1 c) = 0" if "c \<noteq> 2" for c using s1(5) f0 that by simp
  have c1: "48 \<le> card S1" using s1(3) c0 by linarith
  obtain s2 S2 fl2 where s2: "slab_warm s1 512 128 = Some s2" "swf s2 S2 fl2 {}" "card S1 \<le> card S2 + 43"
    "128 \<le> free_count (slab_caches s2 5)" "\<forall>c. c \<noteq> 5 \<longrightarrow> slab_caches s2 c = slab_caches s1 c"
    by (rule slab_warm_ok [OF warm_classes(2) s1(2), of 43 128]) (use c1 pp f1 in auto)
  have c2: "5 \<le> card S2" using s2(3) c1 by linarith
  obtain s3 S3 fl3 where s3: "slab_warm s2 128 64 = Some s3" "swf s3 S3 fl3 {}" "64 \<le> free_count (slab_caches s3 3)" "card S2 \<le> card S3 + 5"
    "\<forall>c. c \<noteq> 3 \<longrightarrow> slab_caches s3 c = slab_caches s2 c"
    by (rule slab_warm_ok [OF warm_classes(3) s2(2), of 5 64]) (use c2 pp f1 s2(5) in auto)
  have "pmm_init (heap_bss hdrs mem) (page_pa r) = Some s3"
    using m(1) s1(1) s2(1) s3(1) by (simp add: pmm_init_def s0_def heap_bss_def)
  moreover have "NUM_PAGES - r \<le> card S3 + 57" using s1(3) s2(3) s3(4) by simp
  ultimately show ?thesis by (intro that [OF _ s3(2)]) (use s1(4,5) s2(4,5) s3(3,5) in auto)
qed


subsection \<open>The heap as a system\<close>

text \<open>
  The heap with the objects handed out: from a class (class and address) and from the large path
  (first page and order). Steps: allocation, release of an object that is live, a client that writes
  a word of the payload of its object, warming a class, and other clients of the page allocator.
\<close>

inductive heap_step :: "slab \<times> (nat \<times> u64) set \<times> (nat \<times> nat) set \<Rightarrow> slab \<times> (nat \<times> u64) set \<times> (nat \<times> nat) set \<Rightarrow> bool" where
  small: "kmalloc st sz = Some (p, st') \<Longrightarrow> sz \<noteq> 0 \<Longrightarrow> slab_class_for sz = Some ci \<Longrightarrow>
    heap_step (st, live, L) (st', insert (ci, slab_raw_from_user_ptr p) live, L)"
| large: "kmalloc st sz = Some (p, st') \<Longrightarrow> slab_class_for sz = None \<Longrightarrow>
    heap_step (st, live, L) (st', live, insert (unat (PA_TO_IDX (p - 8)), unat (aux (sl_hdr st' (p - 8)))) L)"
| free_small: "kfree st (slab_user_from_raw x) = Some st' \<Longrightarrow> (ci, x) \<in> live \<Longrightarrow> heap_step (st, live, L) (st', live - {(ci, x)}, L)"
| free_large: "kfree st (page_pa i + 8) = Some st' \<Longrightarrow> (i, k) \<in> L \<Longrightarrow> heap_step (st, live, L) (st', live, L - {(i, k)})"
| client: "(ci, x) \<in> live \<Longrightarrow> a \<in> extent ci x \<Longrightarrow> a \<noteq> x \<Longrightarrow> a \<noteq> x + of_nat (csize ci) - 4 \<Longrightarrow>
    heap_step (st, live, L) (st\<lparr>sl_mem := (sl_mem st)(a := v)\<rparr>, live, L)"
| warm: "slab_warm st sz n = Some st' \<Longrightarrow> heap_step (st, live, L) (st', live, L)"
| page_alloc: "phys_alloc_pages (sl_pmm st) k = Some (pa, m) \<Longrightarrow> heap_step (st, live, L) (st\<lparr>sl_pmm := m\<rparr>, live, L)"
| page_free: "p < NUM_PAGES \<Longrightarrow> page_state (sl_pmm st) p = PAGE_ALLOC \<Longrightarrow> page_refs (sl_pmm st) p \<noteq> 0 \<Longrightarrow> (\<And>i k. (i, k) \<in> L \<Longrightarrow> p \<notin> blk i k) \<Longrightarrow>
    heap_step (st, live, L) (st\<lparr>sl_pmm := phys_free_page (sl_pmm st) (page_pa p)\<rparr>, live, L)"

definition heap_wf :: "slab \<Rightarrow> nat set \<Rightarrow> (nat \<Rightarrow> u64 list) \<Rightarrow> (nat \<times> u64) set \<Rightarrow> (nat \<times> nat) set \<Rightarrow> bool" where
  "heap_wf st S fl live L \<longleftrightarrow> swf st S fl live \<and> guarded st live \<and> large_ok st S L"

fun heap_inv :: "slab \<times> (nat \<times> u64) set \<times> (nat \<times> nat) set \<Rightarrow> bool" where
  "heap_inv (st, live, L) \<longleftrightarrow> (\<exists>S fl. heap_wf st S fl live L)"

lemma guarded_kept:
  assumes "swf st S fl live" "guarded st live" "\<forall>(c, y) \<in> live. \<forall>a \<in> extent c y. sl_mem st' a = sl_mem st a"
  shows "guarded st' live"
  using assms(2,3) obj_words(1,3) [OF swfD(7) [OF assms(1)]] unfolding guarded_def by fastforce

lemma refill_inv:
  assumes "heap_inv (st, live, L)" "slab_refill st ci = Some st'" "ci < 7" shows "heap_inv (st', live, L)"
proof -
  obtain S fl where w: "swf st S fl live" "guarded st live" "large_ok st S L" using assms(1) by (auto simp: heap_wf_def)
  have "S \<noteq> {}" using slab_refill_none w(1) assms(2) by fastforce
  then obtain st1 i where "slab_refill st ci = Some st1" "swf st1 (S - {i}) (fl(ci := slots ci i 1 @ fl ci)) live"
    "\<forall>(c, y) \<in> live. \<forall>a \<in> extent c y. sl_mem st1 a = sl_mem st a" "pages_kept st S st1"
    by (rule slab_refill_wf [OF w(1) assms(3)])
  then show ?thesis
    using assms(2) guarded_kept [OF w(1,2)] large_kept [OF w(3) _ Diff_subset] by (auto simp: heap_wf_def)
qed

lemma warm_inv:
  assumes "heap_inv (st, live, L)" "slab_warm_loop ci n st = Some st'" "ci < 7" shows "heap_inv (st', live, L)"
proof -
  have "slab_warm_loop ci n st = Some st' \<Longrightarrow> ci < 7 \<longrightarrow> heap_inv (st, live, L) \<longrightarrow> heap_inv (st', live, L)"
    by (erule slab_warm_loop.raw_induct [of "\<lambda>ci n st st'. ci < 7 \<longrightarrow> heap_inv (st, live, L) \<longrightarrow> heap_inv (st', live, L)", rotated])
      (auto simp: bind_eq_Some_conv simp del: heap_inv.simps split: if_splits dest: refill_inv)
  with assms show ?thesis by blast
qed


lemma handed_out_guarded:
  assumes "swf st S fl live" "guarded st live" "handed_out st live ci x st'" shows "guarded st' (insert (ci, x) live)"
proof -
  have h: "guarded st' {(ci, x)}" "\<forall>(c, y) \<in> live. \<forall>a \<in> extent c y. sl_mem st' a = sl_mem st a"
    using assms(3) unfolding handed_out_def by blast+
  from guarded_kept [OF assms(1,2) h(2)] h(1) show ?thesis by (simp add: guarded_def)
qed

lemma small_inv:
  assumes "heap_inv (st, live, L)" "kmalloc st sz = Some (p, st')" "sz \<noteq> 0" "slab_class_for sz = Some ci"
  shows "heap_inv (st', insert (ci, slab_raw_from_user_ptr p) live, L)"
proof -
  obtain S fl where w: "swf st S fl live" "guarded st live" "large_ok st S L" using assms(1) by (auto simp: heap_wf_def)
  have "fl ci \<noteq> [] \<or> S \<noteq> {}" using kmalloc_oom [OF _ assms(4,3)] w(1) assms(2) by fastforce
  then obtain x st1 S' fl' where k: "kmalloc st sz = Some (x + 4, st1)" "swf st1 S' fl' (insert (ci, x) live)"
    "handed_out st live ci x st1" "S' \<subseteq> S" "pages_kept st S st1" by (rule kmalloc_class [OF w(1) assms(4,3)])
  have e: "st1 = st'" "p = x + 4" using k(1) assms(2) by auto
  have "guarded st' (insert (ci, x) live)" using handed_out_guarded [OF w(1,2) k(3)] e by simp
  moreover have "slab_raw_from_user_ptr p = x" by (simp add: e slab_raw_from_user_ptr_def SLAB_REDZONE_SZ_def)
  ultimately show ?thesis using k(2) large_kept [OF w(3) k(5,4)] e by (auto simp: heap_wf_def)
qed

lemma large_inv:
  assumes "heap_inv (st, live, L)" "kmalloc st sz = Some (p, st')" "slab_class_for sz = None"
  shows "heap_inv (st', live, insert (unat (PA_TO_IDX (p - 8)), unat (aux (sl_hdr st' (p - 8)))) L)"
proof -
  obtain S fl where w: "swf st S fl live" "guarded st live" "large_ok st S L" using assms(1) by (auto simp: heap_wf_def)
  have "slab_class_for 0 = Some 0"
    by (simp add: slab_class_for_def SLAB_NUM_CLASSES_def for_find.simps slab_usable_size_def slab_sizes_def SLAB_REDZONE_SZ_def)
  then have "sz \<noteq> 0" using assms(3) by auto
  then have km: "kmalloc_large st sz = Some (p, st')" using assms(2,3) by (simp add: kmalloc_def)
  obtain i k where k: "p = page_pa i + 8" "swf st' (S - blk i k) fl live" "large_ok st' (S - blk i k) (insert (i, k) L)" "sl_mem st' = sl_mem st"
    "i < NUM_PAGES" "unat (aux (sl_hdr st' (page_pa i))) = k" by (rule kmalloc_large_wf [OF w(1,3) km])
  have "guarded st' live" using w(2) k(4) by (simp add: guarded_def)
  with k show ?thesis by (auto simp: heap_wf_def)
qed

lemma free_small_inv:
  assumes "heap_wf st S fl live L" "(ci, x) \<in> live"
  obtains st' where "kfree st (x + 4) = Some st'" "heap_wf st' S (fl(ci := x # fl ci)) (live - {(ci, x)}) L"
    "\<forall>(c, y) \<in> live - {(ci, x)}. \<forall>a \<in> extent c y. sl_mem st' a = sl_mem st a"
proof -
  have w: "swf st S fl live" "guarded st live" "large_ok st S L" using assms(1) by (auto simp: heap_wf_def)
  note obj = swfD(7) [OF w(1) assms(2)] and ci = swfD(8) [OF w(1) assms(2)]
  have nin: "x \<notin> set (fl ci)" using swfD(6) [OF w(1) ci] assms(2) by blast
  have kf: "kfree st (x + 4) = Some (slab_push st ci x)"
    using kfree_obj [OF w(1) obj] w(2) assms(2) by (auto simp: guarded_def)
  note pw = slab_push_wf [OF w(1) obj nin]
  have same: "\<forall>(c, y) \<in> live - {(ci, x)}. \<forall>a \<in> extent c y. sl_mem (slab_push st ci x) a = sl_mem st a"
  proof (intro ballI, clarify)
    fix c y a assume h: "(c, y) \<in> live" "\<not> (c = ci \<and> y = x)" "a \<in> extent c y"
    have "extent c y \<inter> extent ci x = {}" by (rule objs_disjoint [OF swfD(7) [OF w(1) h(1)] obj]) (use h(2) in simp)
    then show "sl_mem (slab_push st ci x) a = sl_mem st a" using h(3) store_extent [OF obj] by auto
  qed
  have "swf st S fl (live - {(ci, x)})" "guarded st (live - {(ci, x)})" using w(1,2) by (auto simp: swf_def guarded_def)
  from guarded_kept [OF this same] have "guarded (slab_push st ci x) (live - {(ci, x)})" .
  moreover have "large_ok (slab_push st ci x) S L" by (rule large_kept [OF w(3) _ subset_refl]) (simp add: pages_kept_def)
  ultimately show ?thesis using that [OF kf _ same] pw by (simp add: heap_wf_def)
qed

lemma client_inv:
  assumes "heap_inv (st, live, L)" "(ci, x) \<in> live" "a \<in> extent ci x" "a \<noteq> x" "a \<noteq> x + of_nat (csize ci) - 4"
  shows "heap_inv (st\<lparr>sl_mem := (sl_mem st)(a := v)\<rparr>, live, L)"
proof -
  let ?st = "st\<lparr>sl_mem := (sl_mem st)(a := v)\<rparr>"
  obtain S fl where w: "swf st S fl live" "guarded st live" "large_ok st S L" using assms(1) by (auto simp: heap_wf_def)
  note obj = swfD(7) [OF w(1) assms(2)] and ci = swfD(8) [OF w(1) assms(2)]
  have same: "sl_mem ?st b = sl_mem st b" if "b \<notin> extent ci x" for b using that assms(3) by auto
  have nin: "x \<notin> set (fl ci)" using swfD(6) [OF w(1) ci] assms(2) by blast
  have "fchain (sl_mem ?st) h (fl ci) = fchain (sl_mem st) h (fl ci)" for h
    by (rule fchain_frame [OF w(1) obj ci]) (use nin same in auto)
  then have "swf ?st S (fl(ci := fl ci)) live"
    by (intro swf_change [OF w(1) obj _ _ _ _ same]) (use swfD(2-6) [OF w(1) ci] in auto)
  moreover have "sl_mem ?st b = sl_mem st b" if "(c, y) \<in> live" "b = y \<or> b = y + of_nat (csize c) - 4" for c y b
  proof (cases "(c, y) = (ci, x)")
    case False
    then show ?thesis using objs_disjoint [OF swfD(7) [OF w(1) that(1)] obj] obj_words(1,3) [OF swfD(7) [OF w(1) that(1)]] that(2) same by blast
  qed (use that(2) assms(4,5) in auto)
  then have "guarded ?st live" using w(2) unfolding guarded_def by fastforce
  moreover have "large_ok ?st S L" by (rule large_kept [OF w(3) _ subset_refl]) (simp add: pages_kept_def)
  ultimately show ?thesis by (auto simp: heap_wf_def)
qed


lemma page_alloc_inv:
  assumes "heap_inv (st, live, L)" "phys_alloc_pages (sl_pmm st) k = Some (pa, m)" shows "heap_inv (st\<lparr>sl_pmm := m\<rparr>, live, L)"
proof -
  obtain S fl where w: "swf st S fl live" "guarded st live" "large_ok st S L" using assms(1) by (auto simp: heap_wf_def)
  obtain i where i: "pmm_rel m (S - blk i k)" "\<forall>h. pages_kept st S (st\<lparr>sl_pmm := m, sl_hdr := (sl_hdr st)(pa := h)\<rparr>)"
    by (rule pages_taken [OF swfD(1) [OF w(1)] assms(2)])
  have kept: "pages_kept st S (st\<lparr>sl_pmm := m\<rparr>)" using spec [OF i(2), of "sl_hdr st pa"] by (simp add: pages_kept_def)
  have "swf (st\<lparr>sl_pmm := m\<rparr>) (S - blk i k) fl live"
    by (rule swf_pages [OF w(1) slab_page_kept [OF kept]]) (use i(1) in auto)
  then show ?thesis using w(2) large_kept [OF w(3) kept Diff_subset] by (auto simp: heap_wf_def guarded_def)
qed

lemma page_free_inv:
  assumes "heap_inv (st, live, L)" "p < NUM_PAGES" "page_state (sl_pmm st) p = PAGE_ALLOC" "page_refs (sl_pmm st) p \<noteq> 0"
    "\<And>i k. (i, k) \<in> L \<Longrightarrow> p \<notin> blk i k"
  shows "heap_inv (st\<lparr>sl_pmm := phys_free_page (sl_pmm st) (page_pa p)\<rparr>, live, L)"
proof -
  let ?m = "phys_free_page (sl_pmm st) (page_pa p)"
  obtain S fl where w: "swf st S fl live" "guarded st live" "large_ok st S L" using assms(1) by (auto simp: heap_wf_def)
  note rel = swfD(1) [OF w(1)]
  have p: "p \<notin> S" using rel assms(4) unfolding pmm_rel_def bwf_def by auto
  have "\<exists>S'. pmm_rel ?m S' \<and> S' \<subseteq> insert p S \<and>
    (\<forall>q. q \<notin> insert p S \<longrightarrow> page_state ?m q = page_state (sl_pmm st) q \<and> page_refs ?m q = page_refs (sl_pmm st) q)"
  proof (cases "page_refs (sl_pmm st) p > 1")
    case True
    then have "?m = set_refs (sl_pmm st) p (page_refs (sl_pmm st) p - 1)" by (intro pmm_free_refs) (use assms(2,3) in auto)
    then show ?thesis using pmm_refs_rel [OF rel p] by (intro exI [of _ S]) auto
  next
    case False
    have "page_state (sl_pmm st) p \<noteq> PAGE_RESERVED" using assms(3) by simp
    note f = pmm_free_some [OF rel assms(2) p this False]
    show ?thesis by (intro exI [of _ "insert p S"]) (use f in auto)
  qed
  then obtain S' where S': "pmm_rel ?m S'" "S' \<subseteq> insert p S"
    "\<And>q. q \<notin> insert p S \<Longrightarrow> page_state ?m q = page_state (sl_pmm st) q \<and> page_refs ?m q = page_refs (sl_pmm st) q" by blast
  have "slab_page (st\<lparr>sl_pmm := ?m\<rparr>) S' c q" if "slab_page st S c q" for c q
  proof -
    have "q \<notin> insert p S" using that assms(3) by (auto simp: slab_page_def)
    with that S'(2,3) show ?thesis by (auto simp: slab_page_def)
  qed
  then have "swf (st\<lparr>sl_pmm := ?m\<rparr>) S' fl live" by (rule swf_pages [OF w(1)]) (simp_all add: S'(1))
  moreover have "large_ok (st\<lparr>sl_pmm := ?m\<rparr>) S' L"
  proof (rule large_mono [OF w(3) subset_refl])
    fix i k q assume ik: "(i, k) \<in> L" "q \<in> blk i k"
    have "q \<notin> insert p S" using large_okD(2) [OF w(3) ik(1)] ik(2) assms(5) [OF ik(1)] by auto
    with S'(2,3) show "q \<notin> S' \<and> page_state (sl_pmm (st\<lparr>sl_pmm := ?m\<rparr>)) q = page_state (sl_pmm st) q \<and>
      page_refs (sl_pmm (st\<lparr>sl_pmm := ?m\<rparr>)) q = page_refs (sl_pmm st) q" by auto
  qed simp
  ultimately show ?thesis using w(2) by (auto simp: heap_wf_def guarded_def)
qed

lemma heap_step_inv:
  assumes "heap_inv s" "heap_step s t" shows "heap_inv t"
  using assms(2)
proof cases
  case (small st sz p st' ci live L)
  then show ?thesis using small_inv assms(1) by simp
next
  case (large st sz p st' live L)
  then show ?thesis using large_inv assms(1) by simp
next
  case (free_small st x st' ci live L)
  then obtain S fl where "heap_wf st S fl live L" using assms(1) by auto
  from free_small_inv [OF this free_small(4)] free_small show ?thesis
    by (auto simp: slab_user_from_raw_def SLAB_REDZONE_SZ_def)
next
  case (free_large st i st' k L live)
  then obtain S fl where w: "swf st S fl live" "guarded st live" "large_ok st S L" using assms(1) by (auto simp: heap_wf_def)
  obtain st1 where st1: "kfree st (page_pa i + 8) = Some st1" "swf st1 (S \<union> blk i k) fl live"
    "large_ok st1 (S \<union> blk i k) (L - {(i, k)})" "sl_mem st1 = sl_mem st" by (rule kfree_large [OF w(1,3) free_large(4)])
  moreover have "guarded st1 live" using w(2) st1(4) by (simp add: guarded_def)
  ultimately show ?thesis using free_large by (auto simp: heap_wf_def)
next
  case (client ci x live a st L v)
  show ?thesis unfolding client(2) by (rule client_inv [OF assms(1) [unfolded client(1)] client(3-6)])
next
  case (warm st sz n st' live L)
  show ?thesis
  proof (cases "slab_class_for sz")
    case None
    then show ?thesis using warm assms(1) by (simp add: slab_warm_def)
  next
    case (Some ci)
    then show ?thesis using warm assms(1) warm_inv class_for(1) [OF Some] by (simp add: slab_warm_def)
  qed
next
  case (page_alloc st k pa m live L)
  show ?thesis unfolding page_alloc(2) by (rule page_alloc_inv [OF assms(1) [unfolded page_alloc(1)] page_alloc(3)])
next
  case (page_free p st L live)
  show ?thesis unfolding page_free(2) by (rule page_free_inv [OF assms(1) [unfolded page_free(1)] page_free(3-6)])
qed

interpretation heapsys: invariant_system heap_step heap_inv
  by unfold_locales (rule heap_step_inv)


lemma heap_wfD:
  assumes "heap_wf st S fl live L"
  shows "swf st S fl live" "guarded st live" "large_ok st S L"
  using assms by (simp_all add: heap_wf_def)

lemma heap_inv_uses:
  assumes "heap_inv (st, live, L)"
  shows "\<forall>(c, x) \<in> live. \<forall>(d, y) \<in> live. (c, x) \<noteq> (d, y) \<longrightarrow> extent c x \<inter> extent d y = {}"
    "\<forall>(c, x) \<in> live. kfree st (x + 4) \<noteq> None" "\<forall>(i, k) \<in> L. kfree st (page_pa i + 8) \<noteq> None"
proof -
  obtain S fl where w: "heap_wf st S fl live L" using assms by auto
  note d = heap_wfD [OF w]
  show "\<forall>(c, x) \<in> live. \<forall>(d, y) \<in> live. (c, x) \<noteq> (d, y) \<longrightarrow> extent c x \<inter> extent d y = {}"
    using objs_disjoint swfD(7) [OF d(1)] by blast
  show "\<forall>(c, x) \<in> live. kfree st (x + 4) \<noteq> None" by (auto elim: free_small_inv [OF w])
  show "\<forall>(i, k) \<in> L. kfree st (page_pa i + 8) \<noteq> None" by (auto elim: kfree_large [OF d(1,3)])
qed



text \<open>
  C21. kmalloc of a size that has a class panics exactly when the class is empty and no page is free. Otherwise it
  returns 4 bytes into an object that is not live, is apart from every live object, is large enough for the
  request and both guard words, has both guards written, and leaves the contents of all live objects and
  the well-formedness of the heap as they were.
\<close>

theorem kmalloc_correct:
  assumes "heap_wf st S fl live L" "slab_class_for sz = Some ci" "sz \<noteq> 0"
  shows "if fl ci = [] \<and> S = {} then kmalloc st sz = None
     else \<exists>x st' S' fl'. kmalloc st sz = Some (x + 4, st') \<and> heap_wf st' S' fl' (insert (ci, x) live) L \<and> S' \<subseteq> S \<and>
       unat sz + 8 \<le> csize ci \<and> handed_out st live ci x st'"
proof (cases "fl ci = [] \<and> S = {}")
  case True
  then show ?thesis using kmalloc_oom [OF _ assms(2,3)] heap_wfD(1) [OF assms(1)] by auto
next
  case False
  note w = heap_wfD [OF assms(1)]
  have "fl ci \<noteq> [] \<or> S \<noteq> {}" using False by blast
  then obtain x st' S' fl' where k: "kmalloc st sz = Some (x + 4, st')" "swf st' S' fl' (insert (ci, x) live)"
    "handed_out st live ci x st'" "S' \<subseteq> S" "pages_kept st S st'" by (rule kmalloc_class [OF w(1) assms(2,3)])
  from handed_out_guarded [OF w(1,2) k(3)] have "heap_wf st' S' fl' (insert (ci, x) live) L" using k(2) large_kept [OF w(3) k(5,4)] by (simp add: heap_wf_def)
  with False k class_for(2) [OF assms(2)] show ?thesis by auto
qed

text \<open>A heap that exists: freshly initialised, no class warmed.\<close>

lemma cold_heap:
  obtains st where "heap_wf st {512..<NUM_PAGES} (\<lambda>_. []) {} {}"
proof -
  obtain m where "pmm_rel m {512..<NUM_PAGES}" using pmm_boot_rel [of 512] by auto
  then have "swf (slab_init ((heap_bss (\<lambda>_. \<lparr>class_idx = 0, aux = 0, magic = 0, hdr_reserved = 0\<rparr>) (\<lambda>_. 0))\<lparr>sl_pmm := m\<rparr>)) {512..<NUM_PAGES} (\<lambda>_. []) {}"
    by (intro slab_init_wf) simp
  then show ?thesis using that by (auto simp: heap_wf_def guarded_def large_ok_def)
qed

lemma class_24: "slab_class_for 24 = Some 0"
  by (simp add: slab_class_for_def SLAB_NUM_CLASSES_def for_find.simps slab_usable_size_def slab_sizes_def SLAB_REDZONE_SZ_def)

theorem kmalloc_correct_witness:
  "\<exists>st x st' S fl. kmalloc st 24 = Some (x + 4, st') \<and> heap_wf st' S fl {(0, x)} {} \<and> handed_out st {} 0 x st'"
proof -
  obtain st where "heap_wf st {512..<NUM_PAGES} (\<lambda>_. []) {} {}" by (rule cold_heap)
  from kmalloc_correct [OF this class_24] show ?thesis by simp blast
qed


text \<open>
  C22. kfree of a live object succeeds, keeps the heap well formed and the contents of every other live
  object; the next kmalloc of the class returns the same pointer; and a second kfree of the
  pointer, with no allocation of the class in between, panics.
\<close>

theorem kfree_roundtrip:
  assumes "heap_wf st S fl live L" "(ci, x) \<in> live" "slab_class_for sz = Some ci" "sz \<noteq> 0"
  shows "\<exists>st'. kfree st (x + 4) = Some st' \<and> heap_wf st' S (fl(ci := x # fl ci)) (live - {(ci, x)}) L \<and>
     (\<forall>(c, y) \<in> live - {(ci, x)}. \<forall>a \<in> extent c y. sl_mem st' a = sl_mem st a) \<and>
     kfree st' (x + 4) = None \<and> (\<exists>st''. kmalloc st' sz = Some (x + 4, st'') \<and> heap_wf st'' S fl live L)"
proof -
  obtain st' where st': "kfree st (x + 4) = Some st'" "heap_wf st' S (fl(ci := x # fl ci)) (live - {(ci, x)}) L"
    "\<forall>(c, y) \<in> live - {(ci, x)}. \<forall>a \<in> extent c y. sl_mem st' a = sl_mem st a"
    by (rule free_small_inv [OF assms(1,2)])
  note w = heap_wfD [OF st'(2)] and ci = class_for(1) [OF assms(3)]
  have again: "kfree st' (x + 4) = None" by (rule kfree_free_obj [OF w(1) ci]) simp
  let ?f = "fl(ci := x # fl ci)"
  have "?f ci \<noteq> []" by simp
  then obtain st'' where k0: "kmalloc st' sz = Some (hd (?f ci) + 4, st'')"
    "swf st'' S (?f(ci := tl (?f ci))) (insert (ci, hd (?f ci)) (live - {(ci, x)}))"
    "handed_out st' (live - {(ci, x)}) ci (hd (?f ci)) st''" "pages_kept st' S st''" by (rule kmalloc_hot [OF w(1) assms(3,4)])
  then have k: "kmalloc st' sz = Some (x + 4, st'')" "swf st'' S fl live" "handed_out st' (live - {(ci, x)}) ci x st''" "pages_kept st' S st''"
    using assms(2) by (simp_all add: insert_absorb)
  have "guarded st'' live" using handed_out_guarded [OF w(1,2) k(3)] assms(2) by (simp add: insert_absorb)
  then have "heap_wf st'' S fl live L" using k(2) large_kept [OF w(3) k(4) subset_refl] by (simp add: heap_wf_def)
  with st' again k(1) show ?thesis by blast
qed

theorem kfree_roundtrip_witness:
  "\<exists>st x st' st''. kfree st (x + 4) = Some st' \<and> kfree st' (x + 4) = None \<and> kmalloc st' 20 = Some (x + 4, st'')"
proof -
  obtain st where w: "heap_wf st {512..<NUM_PAGES} (\<lambda>_. []) {} {}" by (rule cold_heap)
  have z: "(24 :: u32) \<noteq> 0" "(\<lambda>_ :: nat. [] :: u64 list) 0 \<noteq> [] \<or> {512..<NUM_PAGES} \<noteq> {}" by auto
  obtain x st1 S fl where "kmalloc st 24 = Some (x + 4, st1)" "swf st1 S fl {(0, x)}" "handed_out st {} 0 x st1"
    "pages_kept st {512..<NUM_PAGES} st1"
    by (rule kmalloc_class [OF heap_wfD(1) [OF w] class_24 z])
  then have w1: "heap_wf st1 S fl {(0, x)} {}" by (simp add: heap_wf_def handed_out_def large_ok_def)
  have c: "slab_class_for 20 = Some 0"
    by (simp add: slab_class_for_def SLAB_NUM_CLASSES_def for_find.simps slab_usable_size_def slab_sizes_def SLAB_REDZONE_SZ_def)
  have "(20 :: u32) \<noteq> 0" by simp
  from kfree_roundtrip [OF w1 singletonI c this] show ?thesis by blast
qed

lemma large_order_min: "pages \<le> 1 \<Longrightarrow> large_order pages 0 = Some 0"
  by (subst large_order.simps) (simp add: leD)

text \<open>
  C23. The large path: the size of the block is computed in 32 bits. Below 2 ^ 32 - 4103 bytes the block holds the header
  and the request; from there on the sum wraps and kmalloc returns a single page.
\<close>

theorem kmalloc_large_bounds:
  assumes "heap_wf st S fl live L" "slab_class_for sz = None" "kmalloc st sz = Some (p, st')"
  shows "\<exists>i k. p = page_pa i + 8 \<and> blk i k \<subseteq> S \<and> heap_wf st' (S - blk i k) fl live (insert (i, k) L) \<and> sl_mem st' = sl_mem st \<and>
     (if unat sz + 4103 < 2 ^ 32 then unat sz + 8 \<le> 4096 * 2 ^ k else k = 0)"
proof -
  note w = heap_wfD [OF assms(1)]
  have "slab_class_for 0 = Some 0"
    by (simp add: slab_class_for_def SLAB_NUM_CLASSES_def for_find.simps slab_usable_size_def slab_sizes_def SLAB_REDZONE_SZ_def)
  then have km: "kmalloc_large st sz = Some (p, st')" using assms(2,3) by (auto simp: kmalloc_def split: if_splits)
  obtain i k where k: "p = page_pa i + 8" "k < MAX_ORDER" "blk i k \<subseteq> S"
    "large_order (drop_bit PAGE_SHIFT (sz + 8 + ucast PAGE_SIZE - 1)) 0 = Some k"
    "swf st' (S - blk i k) fl live" "large_ok st' (S - blk i k) (insert (i, k) L)" "sl_mem st' = sl_mem st"
    by (rule kmalloc_large_wf [OF w(1,3) km])
  have "guarded st' live" using w(2) k(7) by (simp add: guarded_def)
  moreover have "if unat sz + 4103 < 2 ^ 32 then unat sz + 8 \<le> 4096 * 2 ^ k else k = 0"
  proof (cases "unat sz + 4103 < 2 ^ 32")
    case True
    then show ?thesis using kmalloc_large_fits [OF k(4,2)] by simp
  next
    case False
    have e: "sz + 8 + ucast PAGE_SIZE - 1 = sz + 4103" by (simp add: PAGE_SIZE_def)
    have "unat (sz + 8 + ucast PAGE_SIZE - 1) = (unat sz + 4103) mod 2 ^ 32" unfolding e by (simp add: unat_word_ariths)
    also have "\<dots> = (unat sz + 4103 - 2 ^ 32) mod 2 ^ 32" by (rule le_mod_geq) (use False in linarith)
    also have "\<dots> < 8192" using unsigned_less [of sz, where ?'a = nat] by simp
    finally have "drop_bit PAGE_SHIFT (sz + 8 + ucast PAGE_SIZE - 1) \<le> (1 :: u32)"
      by (simp add: PAGE_SHIFT_def drop_bit_eq_div word_le_nat_alt unat_div)
    then show ?thesis using False large_order_min k(4) by simp
  qed
  ultimately show ?thesis using k unfolding heap_wf_def by blast
qed

theorem kmalloc_large_bounds_witness:
  "\<exists>st p st' i. kmalloc st 0xFFFFFFFF = Some (p, st') \<and> p = page_pa i + 8 \<and> heap_wf st' ({512..<NUM_PAGES} - blk i 0) (\<lambda>_. []) {} {(i, 0)}"
proof -
  obtain st where w: "heap_wf st {512..<NUM_PAGES} (\<lambda>_. []) {} {}" by (rule cold_heap)
  obtain pa m where "phys_alloc_pages (sl_pmm st) 0 = Some (pa, m)"
    using pmm_alloc_page_ok [OF swfD(1) [OF heap_wfD(1) [OF w]]] unfolding alloc_page_eq by auto
  moreover have none: "slab_class_for 0xFFFFFFFF = None"
    by (simp add: slab_class_for_def SLAB_NUM_CLASSES_def for_find.simps slab_usable_size_def slab_sizes_def SLAB_REDZONE_SZ_def)
  moreover have "large_order (drop_bit PAGE_SHIFT (0xFFFFFFFF + 8 + ucast PAGE_SIZE - 1)) 0 = Some 0"
    by (rule large_order_min) (simp add: PAGE_SHIFT_def PAGE_SIZE_def)
  ultimately obtain p st' where "kmalloc st 0xFFFFFFFF = Some (p, st')"
    by (auto simp: kmalloc_def kmalloc_large_def Let_def MAX_ORDER_def)
  from kmalloc_large_bounds [OF w none this] this show ?thesis by auto
qed

end
