(* ===== verification/Kheap.thy ===== *)
theory Kheap
  imports Slab
begin

text \<open>
  The named object caches of \<^verbatim>\<open>kernel/kheap.c\<close> over the slab allocator: the registry of caches,
  their intrusive free lists (the link lies in the first 8 bytes of the payload), \<^verbatim>\<open>kmem_cache_create\<close>,
  \<^verbatim>\<open>kmem_cache_alloc\<close>, \<^verbatim>\<open>kmem_cache_free\<close>, \<^verbatim>\<open>kmem_cache_warm\<close> and \<^verbatim>\<open>kheap_init\<close>. What a cache needs of the
  heap is the locale \<open>object_heap\<close>; the slab allocator is an instance. A pointer to a cache is its index;
  \<open>None\<close> is a kernel panic or a failed \<^verbatim>\<open>KASSERT\<close>.
\<close>

subsection \<open>Data\<close>

definition KMEM_MAX_CACHES :: u32 where "KMEM_MAX_CACHES = 16"

record kmem_cache =
  kc_name :: string
  kc_obj_size :: u32
  kc_max_objects :: u32
  kc_free_head :: u64
  kc_free_count :: u32
  kc_total_count :: u32
  kc_alloc_count :: u32

record kheap =
  kh_slab :: slab
  named_caches :: "nat \<Rightarrow> kmem_cache"
  num_caches :: u32
  task_cache :: "nat option"
  port_cache :: "nat option"
  ipc_cache :: "nat option"

definition set_named :: "kheap \<Rightarrow> nat \<Rightarrow> kmem_cache \<Rightarrow> kheap" where
  "set_named kh i c = kh\<lparr>named_caches := (named_caches kh)(i := c)\<rparr>"

text \<open>The write through a \<^verbatim>\<open>void **\<close>.\<close>

definition heap_store :: "slab \<Rightarrow> u64 \<Rightarrow> u64 \<Rightarrow> slab" where
  "heap_store st p v = st\<lparr>sl_mem := store_ptr (sl_mem st) p v\<rparr>"

subsection \<open>Operations\<close>

definition kmem_push :: "kheap \<Rightarrow> nat \<Rightarrow> u64 \<Rightarrow> kheap" where
  "kmem_push kh i p =
     (let c = named_caches kh i
      in set_named (kh\<lparr>kh_slab := heap_store (kh_slab kh) p (kc_free_head c)\<rparr>) i
           (c\<lparr>kc_free_head := p, kc_free_count := kc_free_count c + 1\<rparr>))"

partial_function (option) kmem_cache_warm :: "nat \<Rightarrow> u32 \<Rightarrow> kheap \<Rightarrow> kheap option" where
  "kmem_cache_warm i n kh =
     (if kc_free_count (named_caches kh i) < n
      then kmalloc (kh_slab kh) (kc_obj_size (named_caches kh i)) \<bind>
        (\<lambda>r. kmem_cache_warm i n (kmem_push (kh\<lparr>kh_slab := snd r\<rparr>) i (fst r)))
      else Some kh)"

definition kmem_cache_create :: "kheap \<Rightarrow> string \<Rightarrow> u32 \<Rightarrow> u32 \<Rightarrow> (nat \<times> kheap) option" where
  "kmem_cache_create kh nm sz prealloc =
     (if num_caches kh \<ge> KMEM_MAX_CACHES then None
      else
        (let i = unat (num_caches kh);
             c = \<lparr>kc_name = nm, kc_obj_size = sz, kc_max_objects = 0, kc_free_head = 0, kc_free_count = 0,
                  kc_total_count = 0, kc_alloc_count = 0\<rparr>;
             kh = set_named (kh\<lparr>num_caches := num_caches kh + 1\<rparr>) i c
         in do {
              kh \<leftarrow> (if prealloc > 0 then kmem_cache_warm i prealloc kh else Some kh);
              Some (i, kh)
            }))"

definition kmem_cache_alloc :: "kheap \<Rightarrow> nat \<Rightarrow> (u64 \<times> kheap) option" where
  "kmem_cache_alloc kh i =
     (let c = named_caches kh i
      in if kc_max_objects c > 0 \<and> kc_total_count c \<ge> kc_max_objects c then None
         else do {
           (obj, kh) \<leftarrow>
             (if kc_free_head c \<noteq> 0 then
                (let obj = kc_free_head c;
                     kh = set_named kh i (c\<lparr>kc_free_head := load_ptr (sl_mem (kh_slab kh)) obj, kc_free_count := kc_free_count c - 1\<rparr>)
                 in if pmm_debug_check_ptr (kh_slab kh) obj then Some (obj, kh) else None)
              else do {
                (obj, st) \<leftarrow> kmalloc (kh_slab kh) (kc_obj_size c);
                if obj \<noteq> 0 then Some (obj, kh\<lparr>kh_slab := st\<rparr>) else None
              });
           let c = named_caches kh i;
           Some (obj, set_named kh i (c\<lparr>kc_total_count := kc_total_count c + 1, kc_alloc_count := kc_alloc_count c + 1\<rparr>))
         })"

definition kmem_cache_free :: "kheap \<Rightarrow> nat \<Rightarrow> u64 \<Rightarrow> kheap option" where
  "kmem_cache_free kh i p =
     (if p = 0 then Some kh
      else if \<not> pmm_debug_check_ptr (kh_slab kh) p then None
      else
        (let kh = kmem_push kh i p; c = named_caches kh i
         in Some (set_named kh i (c\<lparr>kc_total_count := kc_total_count c - 1\<rparr>))))"

definition kheap_init :: "kheap \<Rightarrow> kheap option" where
  "kheap_init kh =
     do {
       (t, kh) \<leftarrow> kmem_cache_create kh ''task_cache'' 64 64;
       (p, kh) \<leftarrow> kmem_cache_create (kh\<lparr>task_cache := Some t\<rparr>) ''port_cache'' 64 128;
       (c, kh) \<leftarrow> kmem_cache_create (kh\<lparr>port_cache := Some p\<rparr>) ''ipc_cache'' 512 128;
       Some (kh\<lparr>ipc_cache := Some c\<rparr>)
     }"

subsection \<open>What a cache needs of the heap\<close>

text \<open>
  The free lists of \<open>n\<close> caches: \<open>cls\<close> the size class, \<open>head\<close> the first pointer and \<open>ls\<close> the objects of each;
  no object is in two lists.
\<close>

definition lists_ok :: "(u64 \<Rightarrow> u32) \<Rightarrow> (nat \<times> u64) set \<Rightarrow> nat \<Rightarrow> (nat \<Rightarrow> nat) \<Rightarrow> (nat \<Rightarrow> u64) \<Rightarrow> (nat \<Rightarrow> u64 list) \<Rightarrow> bool" where
  "lists_ok m live n cls head ls \<longleftrightarrow>
     (\<forall>i < n. fchain m (head i) (map (\<lambda>x. x + 4) (ls i)) \<and> distinct (ls i) \<and> (\<forall>x \<in> set (ls i). (cls i, x) \<in> live)) \<and>
     (\<forall>i < n. \<forall>j < n. i \<noteq> j \<longrightarrow> (\<forall>x \<in> set (ls i). \<not> (cls i = cls j \<and> x \<in> set (ls j))))"

lemma lists_okD:
  assumes "lists_ok m live n cls head ls" "i < n"
  shows "fchain m (head i) (map (\<lambda>x. x + 4) (ls i))" "distinct (ls i)" "x \<in> set (ls i) \<Longrightarrow> (cls i, x) \<in> live"
    "j < n \<Longrightarrow> i \<noteq> j \<Longrightarrow> x \<in> set (ls i) \<Longrightarrow> cls i = cls j \<Longrightarrow> x \<notin> set (ls j)"
  using assms unfolding lists_ok_def by blast+

lemma lists_okI:
  assumes "\<And>i. i < n \<Longrightarrow> fchain m (head i) (map (\<lambda>x. x + 4) (ls i)) \<and> distinct (ls i)"
    "\<And>i x. i < n \<Longrightarrow> x \<in> set (ls i) \<Longrightarrow> (cls i, x) \<in> live"
    "\<And>i j x. i < n \<Longrightarrow> j < n \<Longrightarrow> i \<noteq> j \<Longrightarrow> x \<in> set (ls i) \<Longrightarrow> cls i = cls j \<Longrightarrow> x \<notin> set (ls j)"
  shows "lists_ok m live n cls head ls"
  unfolding lists_ok_def using assms by blast

lemma fchain_load_cong: "(\<And>x. x \<in> set xs \<Longrightarrow> load_ptr m' x = load_ptr m x) \<Longrightarrow> fchain m' h xs = fchain m h xs"
  by (induction xs arbitrary: h) auto

locale object_heap =
  fixes wf :: "'h \<Rightarrow> (nat \<times> u64) set \<Rightarrow> bool"
    and mem :: "'h \<Rightarrow> u64 \<Rightarrow> u32"
    and class_of :: "u32 \<Rightarrow> nat option"
    and alloc :: "'h \<Rightarrow> u32 \<Rightarrow> (u64 \<times> 'h) option"
    and store :: "'h \<Rightarrow> u64 \<Rightarrow> u64 \<Rightarrow> 'h"
    and check :: "'h \<Rightarrow> u64 \<Rightarrow> bool"
  assumes alloc_fresh: "wf h live \<Longrightarrow> class_of sz = Some ci \<Longrightarrow> sz \<noteq> 0 \<Longrightarrow> alloc h sz = Some (p, h') \<Longrightarrow>
      \<exists>x. p = x + 4 \<and> (ci, x) \<notin> live \<and> wf h' (insert (ci, x) live) \<and>
        (\<forall>(c, y) \<in> live. load_ptr (mem h') (y + 4) = load_ptr (mem h) (y + 4))"
    and check_live: "wf h live \<Longrightarrow> (ci, x) \<in> live \<Longrightarrow> check h (x + 4) \<and> x + 4 \<noteq> 0"
    and store_live: "wf h live \<Longrightarrow> (ci, x) \<in> live \<Longrightarrow> wf (store h (x + 4) v) live"
    and load_stored: "wf h live \<Longrightarrow> (ci, x) \<in> live \<Longrightarrow> load_ptr (mem (store h (x + 4) v)) (x + 4) = v"
    and store_frame: "wf h live \<Longrightarrow> (ci, x) \<in> live \<Longrightarrow> (c, y) \<in> live \<Longrightarrow> (c, y) \<noteq> (ci, x) \<Longrightarrow>
      load_ptr (mem (store h (x + 4) v)) (y + 4) = load_ptr (mem h) (y + 4)"
begin

lemma lists_push:
  assumes wf: "wf h live" and ok: "lists_ok (mem h) live n cls head ls" and i: "i < n" and x: "(cls i, x) \<in> live"
    and nin: "\<And>j. j < n \<Longrightarrow> cls j = cls i \<Longrightarrow> x \<notin> set (ls j)"
  shows "lists_ok (mem (store h (x + 4) (head i))) live n cls (head(i := x + 4)) (ls(i := x # ls i))"
proof -
  let ?m = "mem (store h (x + 4) (head i))"
  have same: "fchain ?m a (map (\<lambda>x. x + 4) (ls j)) = fchain (mem h) a (map (\<lambda>x. x + 4) (ls j))" if j: "j < n" for j a
  proof (rule fchain_load_cong)
    fix p assume "p \<in> set (map (\<lambda>x. x + 4) (ls j))"
    then obtain y where y: "p = y + 4" "y \<in> set (ls j)" by auto
    have "(cls j, y) \<noteq> (cls i, x)" using nin [OF j] y(2) by auto
    from store_frame [OF wf x lists_okD(3) [OF ok j y(2)] this] show "load_ptr ?m p = load_ptr (mem h) p" by (simp add: y(1))
  qed
  have "fchain ?m (x + 4) (map (\<lambda>x. x + 4) (x # ls i))"
    using same [OF i] load_stored [OF wf x] check_live [OF wf x] lists_okD(1) [OF ok i] by simp
  moreover have "distinct (x # ls i)" using nin [OF i] lists_okD(2) [OF ok i] by simp
  ultimately have "fchain ?m ((head(i := x + 4)) j) (map (\<lambda>x. x + 4) ((ls(i := x # ls i)) j)) \<and> distinct ((ls(i := x # ls i)) j)" if "j < n" for j
    using that same lists_okD(1,2) [OF ok] by simp
  moreover have "(cls j, y) \<in> live" if "j < n" "y \<in> set ((ls(i := x # ls i)) j)" for j y
    using that x lists_okD(3) [OF ok] by (auto split: if_splits)
  moreover have "y \<notin> set ((ls(i := x # ls i)) k)"
    if "j < n" "k < n" "j \<noteq> k" "y \<in> set ((ls(i := x # ls i)) j)" "cls j = cls k" for j k y
    using that nin [of j] nin [of k] lists_okD(4) [OF ok that(1), of k y] by (auto split: if_splits)
  ultimately show ?thesis by (intro lists_okI)
qed

lemma lists_alloc:
  assumes wf: "wf h live" and ok: "lists_ok (mem h) live n cls head ls" and cl: "class_of sz = Some ci" "sz \<noteq> 0"
    and al: "alloc h sz = Some (p, h')"
  obtains x where "p = x + 4" "(ci, x) \<notin> live" "wf h' (insert (ci, x) live)" "lists_ok (mem h') (insert (ci, x) live) n cls head ls"
    "\<And>j. j < n \<Longrightarrow> cls j = ci \<Longrightarrow> x \<notin> set (ls j)"
proof -
  obtain x where x: "p = x + 4" "(ci, x) \<notin> live" "wf h' (insert (ci, x) live)"
    "\<forall>(c, y) \<in> live. load_ptr (mem h') (y + 4) = load_ptr (mem h) (y + 4)" using alloc_fresh [OF wf cl al] by blast
  have "fchain (mem h') a (map (\<lambda>x. x + 4) (ls j)) = fchain (mem h) a (map (\<lambda>x. x + 4) (ls j))" if "j < n" for j a
    by (rule fchain_load_cong) (use lists_okD(3) [OF ok that] x(4) in fastforce)
  then have "lists_ok (mem h') (insert (ci, x) live) n cls head ls" using ok unfolding lists_ok_def by auto
  moreover have "x \<notin> set (ls j)" if "j < n" "cls j = ci" for j using that lists_okD(3) [OF ok] x(2) by metis
  ultimately show ?thesis using that x(1-3) by blast
qed

end


subsection \<open>The slab allocator provides it\<close>

definition slab_ok :: "slab \<Rightarrow> (nat \<times> u64) set \<Rightarrow> bool" where
  "slab_ok st live \<longleftrightarrow> (\<exists>L. heap_inv (st, live, L))"

lemma obj_offset:
  assumes "is_obj st S ci x" "k < csize ci"
  shows "unat (x + of_nat k) = unat x + k" "x + of_nat k \<in> extent ci x"
proof -
  obtain i where i: "ci < 7" "is_slot ci i x" by (rule is_objD [OF assms(1)])
  have "unat x < 2 ^ 32" "csize ci \<le> 2048" using slot_aligned [OF i(2,1)] csize_bounds [OF i(1)] by auto
  then show "unat (x + of_nat k) = unat x + k" using assms(2) by (simp add: unat_word_ariths unat_of_nat)
  then show "x + of_nat k \<in> extent ci x" using assms(2) by (simp add: extent_def)
qed

lemma link_words:
  assumes "is_obj st S ci x"
  shows "x + 4 \<in> extent ci x" "x + 4 + 4 \<in> extent ci x" "x + 4 \<noteq> x" "x + 4 + 4 \<noteq> x" "x + 4 \<noteq> 0"
    "x + 4 \<noteq> x + of_nat (csize ci) - 4" "x + 4 + 4 \<noteq> x + of_nat (csize ci) - 4"
proof -
  have c: "32 \<le> csize ci" using csize_bounds assms by (auto simp: is_obj_def)
  have e: "x + 4 + 4 = x + of_nat 8" "x + 4 = x + of_nat 4" by simp_all
  have u: "unat (x + 4) = unat x + 4" "unat (x + 4 + 4) = unat x + 8"
    using obj_offset(1) [OF assms, of 8, folded e(1)] obj_offset(1) [OF assms, of 4, folded e(2)] c by simp_all
  show "x + 4 \<in> extent ci x" "x + 4 + 4 \<in> extent ci x" using u c by (simp_all add: extent_def)
  show "x + 4 \<noteq> x" "x + 4 + 4 \<noteq> x" "x + 4 \<noteq> 0" using u by auto
  have "x + of_nat (csize ci) - 4 = x + of_nat (csize ci - 4)" using c by (simp add: of_nat_diff)
  then have t: "unat (x + of_nat (csize ci) - 4) = unat x + (csize ci - 4)" using obj_offset(1) [OF assms, of "csize ci - 4"] c by (simp add: add_diff_eq)
  have "unat (x + 4) \<noteq> unat (x + of_nat (csize ci) - 4)" "unat (x + 4 + 4) \<noteq> unat (x + of_nat (csize ci) - 4)"
    unfolding t u using c by linarith+
  then show "x + 4 \<noteq> x + of_nat (csize ci) - 4" "x + 4 + 4 \<noteq> x + of_nat (csize ci) - 4" by metis+
qed

lemma slab_ok_obj:
  assumes "slab_ok st live"
  obtains S fl L where "heap_wf st S fl live L" "swf st S fl live"
  using assms unfolding slab_ok_def heap_inv.simps heap_wf_def by blast

lemma store_two: "heap_store st p v = st\<lparr>sl_mem := (sl_mem st)(p := ucast v)\<rparr>\<lparr>sl_mem := ((sl_mem st)(p := ucast v))(p + 4 := ucast (drop_bit 32 v))\<rparr>"
  by (simp add: heap_store_def store_ptr_def)

lemma slab_store_ok:
  assumes "slab_ok st live" "(ci, x) \<in> live" shows "slab_ok (heap_store st (x + 4) v) live"
proof -
  obtain S fl L where w: "heap_wf st S fl live L" "swf st S fl live" by (rule slab_ok_obj [OF assms(1)])
  note l = link_words [OF swfD(7) [OF w(2) assms(2)]]
  have "heap_inv (st, live, L)" using w(1) by auto
  from client_inv [OF this assms(2) l(1,3,6)] have "heap_inv (st\<lparr>sl_mem := (sl_mem st)(x + 4 := ucast v)\<rparr>, live, L)" .
  from client_inv [OF this assms(2) l(2,4,7), of "ucast (drop_bit 32 v)"] show ?thesis unfolding slab_ok_def store_two by auto
qed

lemma slab_store_frame:
  assumes "slab_ok st live" "(ci, x) \<in> live" "(c, y) \<in> live" "(c, y) \<noteq> (ci, x)" "a \<in> extent c y"
  shows "sl_mem (heap_store st (x + 4) v) a = sl_mem st a"
proof -
  obtain S fl where "swf st S fl live" by (rule slab_ok_obj [OF assms(1)])
  note w = swfD(7) [OF this]
  have "extent c y \<inter> extent ci x = {}" by (rule objs_disjoint [OF w [OF assms(3)] w [OF assms(2)] assms(4)])
  then show ?thesis using link_words(1,2) [OF w [OF assms(2)]] assms(5) by (auto simp: heap_store_def store_ptr_def)
qed

lemma slab_check_live:
  assumes "slab_ok st live" "(ci, x) \<in> live" shows "pmm_debug_check_ptr st (x + 4) \<and> x + 4 \<noteq> 0"
proof -
  obtain S fl L where w: "heap_wf st S fl live L" "swf st S fl live" by (rule slab_ok_obj [OF assms(1)])
  note obj = swfD(7) [OF w(2) assms(2)] and ci = swfD(8) [OF w(2) assms(2)]
  have nz: "x + 4 \<noteq> 0" using link_words(5) [OF obj] .
  have cu: "unat (of_nat ci :: u8) = ci" using ci by (simp add: unat_of_nat)
  moreover from this have "(of_nat ci :: u8) \<noteq> SLAB_CLASS_LARGE" using ci by (auto simp: SLAB_CLASS_LARGE_def)
  moreover have "ucast (obj_size (slab_caches st ci)) = (of_nat (csize ci) :: u64)" using swfD(2) [OF w(2) ci] by (simp add: csize_def)
  moreover have "sl_mem st x = SLAB_CANARY_WORD" "sl_mem st (x + of_nat (csize ci) - 4) = SLAB_CANARY_WORD"
    using heap_wfD(2) [OF w(1)] assms(2) by (auto simp: guarded_def)
  ultimately have "pmm_debug_check_ptr st (x + 4)"
    using nz ci by (simp add: pmm_debug_check_ptr_def Let_def obj_hdr [OF obj] slab_validate_canaries_def slab_raw_from_user_ptr_def
      tail_word_def SLAB_REDZONE_SZ_def SLAB_NUM_CLASSES_def)
  with nz show ?thesis by simp
qed

text \<open>An allocation from a class, with the number of free pages it takes.\<close>

lemma slab_alloc_fresh:
  assumes "slab_ok st live" "slab_class_for sz = Some ci" "sz \<noteq> 0" "kmalloc st sz = Some (p, st')"
  shows "\<exists>x. p = x + 4 \<and> (ci, x) \<notin> live \<and> slab_ok st' (insert (ci, x) live) \<and>
    (\<forall>(c, y) \<in> live. \<forall>a \<in> extent c y. sl_mem st' a = sl_mem st a)"
proof -
  obtain S fl L where w: "heap_wf st S fl live L" "swf st S fl live" by (rule slab_ok_obj [OF assms(1)])
  have "fl ci \<noteq> [] \<or> S \<noteq> {}" using kmalloc_oom [OF _ assms(2,3)] w(2) assms(4) by fastforce
  then obtain x st1 S' fl' where k: "kmalloc st sz = Some (x + 4, st1)" "handed_out st live ci x st1"
    by (rule kmalloc_class [OF w(2) assms(2,3)])
  have "heap_inv (st, live, L)" using w(1) by auto
  from small_inv [OF this assms(4,3,2)] have "slab_ok st' (insert (ci, slab_raw_from_user_ptr p) live)" unfolding slab_ok_def by blast
  moreover have "slab_raw_from_user_ptr p = x" using k(1) assms(4) by (simp add: slab_raw_from_user_ptr_def SLAB_REDZONE_SZ_def)
  ultimately show ?thesis using k assms(4) unfolding handed_out_def by auto
qed

interpretation sheap: object_heap slab_ok sl_mem slab_class_for kmalloc heap_store pmm_debug_check_ptr
proof
  fix h live sz ci p h'
  assume h: "slab_ok h live" "slab_class_for sz = Some ci" "sz \<noteq> 0" "kmalloc h sz = Some (p, h')"
  obtain S fl where "swf h S fl live" by (rule slab_ok_obj [OF h(1)])
  note o = swfD(7) [OF this]
  obtain x where x: "p = x + 4" "(ci, x) \<notin> live" "slab_ok h' (insert (ci, x) live)"
    "\<forall>(c, y) \<in> live. \<forall>a \<in> extent c y. sl_mem h' a = sl_mem h a" using slab_alloc_fresh [OF h] by blast
  have "\<forall>(c, y) \<in> live. load_ptr (sl_mem h') (y + 4) = load_ptr (sl_mem h) (y + 4)"
    using x(4) link_words(1,2) [OF o] by (auto intro!: load_cong)
  with x show "\<exists>x. p = x + 4 \<and> (ci, x) \<notin> live \<and> slab_ok h' (insert (ci, x) live) \<and>
    (\<forall>(c, y) \<in> live. load_ptr (sl_mem h') (y + 4) = load_ptr (sl_mem h) (y + 4))" by blast
next
  fix h live ci x c y v
  assume h: "slab_ok h live" "(ci, x) \<in> live" "(c, y) \<in> live" "(c, y) \<noteq> (ci, x)"
  obtain S fl where "swf h S fl live" by (rule slab_ok_obj [OF h(1)])
  note o = swfD(7) [OF this]
  show "load_ptr (sl_mem (heap_store h (x + 4) v)) (y + 4) = load_ptr (sl_mem h) (y + 4)"
    by (rule load_cong) (use slab_store_frame [OF h] link_words(1,2) [OF o [OF h(3)]] in auto)
qed (simp_all add: slab_check_live slab_store_ok heap_store_def [symmetric], simp add: heap_store_def)


subsection \<open>Well-formed caches\<close>

definition kcls :: "kheap \<Rightarrow> nat \<Rightarrow> nat" where
  "kcls kh i = the (slab_class_for (kc_obj_size (named_caches kh i)))"

text \<open>
  \<open>live\<close> are the objects the caches and their clients hold of the heap, \<open>ls i\<close> the free objects of
  the \<open>i\<close>-th cache. An object in use is live and in no list.
\<close>

definition kheap_wf :: "kheap \<Rightarrow> (nat \<times> u64) set \<Rightarrow> (nat \<Rightarrow> u64 list) \<Rightarrow> bool" where
  "kheap_wf kh live ls \<longleftrightarrow> slab_ok (kh_slab kh) live \<and> num_caches kh \<le> KMEM_MAX_CACHES \<and>
     (\<forall>i < unat (num_caches kh). slab_class_for (kc_obj_size (named_caches kh i)) = Some (kcls kh i) \<and> kc_obj_size (named_caches kh i) \<noteq> 0 \<and>
        kc_free_count (named_caches kh i) = of_nat (length (ls i))) \<and>
     lists_ok (sl_mem (kh_slab kh)) live (unat (num_caches kh)) (kcls kh) (\<lambda>i. kc_free_head (named_caches kh i)) ls"

definition in_cache :: "kheap \<Rightarrow> (nat \<Rightarrow> u64 list) \<Rightarrow> nat \<Rightarrow> u64 \<Rightarrow> bool" where
  "in_cache kh ls ci x \<longleftrightarrow> (\<exists>j < unat (num_caches kh). kcls kh j = ci \<and> x \<in> set (ls j))"

lemma kheap_wfD:
  assumes "kheap_wf kh live ls"
  shows "slab_ok (kh_slab kh) live" "num_caches kh \<le> KMEM_MAX_CACHES"
    "i < unat (num_caches kh) \<Longrightarrow> slab_class_for (kc_obj_size (named_caches kh i)) = Some (kcls kh i)"
    "i < unat (num_caches kh) \<Longrightarrow> kc_obj_size (named_caches kh i) \<noteq> 0"
    "i < unat (num_caches kh) \<Longrightarrow> kc_free_count (named_caches kh i) = of_nat (length (ls i))"
    "lists_ok (sl_mem (kh_slab kh)) live (unat (num_caches kh)) (kcls kh) (\<lambda>i. kc_free_head (named_caches kh i)) ls"
  using assms by (auto simp: kheap_wf_def)

lemma kmem_push_fields:
  "kh_slab (kmem_push kh i p) = heap_store (kh_slab kh) p (kc_free_head (named_caches kh i))" "num_caches (kmem_push kh i p) = num_caches kh"
  "named_caches (kmem_push kh i p) = (named_caches kh)(i := (named_caches kh i)\<lparr>kc_free_head := p, kc_free_count := kc_free_count (named_caches kh i) + 1\<rparr>)"
  by (simp_all add: kmem_push_def set_named_def Let_def)

lemma kcls_cong: "(\<And>j. kc_obj_size (named_caches kh' j) = kc_obj_size (named_caches kh j)) \<Longrightarrow> kcls kh' = kcls kh"
  by (simp add: kcls_def fun_eq_iff)

lemma kmem_push_wf:
  assumes wf: "kheap_wf kh live ls" and i: "i < unat (num_caches kh)" and x: "(kcls kh i, x) \<in> live" and nin: "\<not> in_cache kh ls (kcls kh i) x"
  shows "kheap_wf (kmem_push kh i (x + 4)) live (ls(i := x # ls i))"
proof -
  note w = kheap_wfD [OF wf] and f = kmem_push_fields
  have k: "kcls (kmem_push kh i (x + 4)) = kcls kh" by (rule kcls_cong) (simp add: f)
  have "lists_ok (sl_mem (heap_store (kh_slab kh) (x + 4) (kc_free_head (named_caches kh i)))) live (unat (num_caches kh)) (kcls kh)
      ((\<lambda>i. kc_free_head (named_caches kh i))(i := x + 4)) (ls(i := x # ls i))"
    by (rule sheap.lists_push [OF w(1,6) i x]) (use nin in \<open>auto simp: in_cache_def\<close>)
  moreover have "(\<lambda>i. kc_free_head (named_caches kh i))(i := x + 4) = (\<lambda>j. kc_free_head (named_caches (kmem_push kh i (x + 4)) j))"
    by (auto simp: f)
  moreover have "slab_ok (heap_store (kh_slab kh) (x + 4) (kc_free_head (named_caches kh i))) live" by (rule slab_store_ok [OF w(1) x])
  ultimately show ?thesis using w(2-5) unfolding kheap_wf_def k by (auto simp: f)
qed

lemma kmalloc_cache_wf:
  assumes wf: "kheap_wf kh live ls" and i: "i < unat (num_caches kh)"
    and km: "kmalloc (kh_slab kh) (kc_obj_size (named_caches kh i)) = Some (p, st)"
  obtains x where "p = x + 4" "(kcls kh i, x) \<notin> live" "kheap_wf (kh\<lparr>kh_slab := st\<rparr>) (insert (kcls kh i, x) live) ls"
    "\<not> in_cache kh ls (kcls kh i) x" "x + 4 \<noteq> 0"
proof -
  note w = kheap_wfD [OF wf]
  have k: "kcls (kh\<lparr>kh_slab := st\<rparr>) = kcls kh" by (rule kcls_cong) simp
  obtain x where x: "p = x + 4" "(kcls kh i, x) \<notin> live" "slab_ok st (insert (kcls kh i, x) live)"
    "lists_ok (sl_mem st) (insert (kcls kh i, x) live) (unat (num_caches kh)) (kcls kh) (\<lambda>i. kc_free_head (named_caches kh i)) ls"
    by (rule sheap.lists_alloc [OF w(1,6) w(3) [OF i] w(4) [OF i] km])
  have "\<not> in_cache kh ls (kcls kh i) x" using lists_okD(3) [OF w(6)] x(2) by (fastforce simp: in_cache_def)
  moreover have "kheap_wf (kh\<lparr>kh_slab := st\<rparr>) (insert (kcls kh i, x) live) ls" using w(2-5) x(3,4) unfolding kheap_wf_def k by simp
  ultimately show ?thesis using that x(1,2) slab_check_live [OF x(3)] by blast
qed


lemma kheap_wf_cong:
  assumes "kh_slab kh' = kh_slab kh" "num_caches kh' = num_caches kh"
    "\<And>j. kc_obj_size (named_caches kh' j) = kc_obj_size (named_caches kh j) \<and> kc_free_head (named_caches kh' j) = kc_free_head (named_caches kh j) \<and>
      kc_free_count (named_caches kh' j) = kc_free_count (named_caches kh j)"
  shows "kheap_wf kh' live ls = kheap_wf kh live ls" "in_cache kh' ls ci x = in_cache kh ls ci x"
proof -
  have "kcls kh' = kcls kh" by (rule kcls_cong) (simp add: assms(3))
  then show "kheap_wf kh' live ls = kheap_wf kh live ls" "in_cache kh' ls ci x = in_cache kh ls ci x"
    by (simp_all add: kheap_wf_def in_cache_def assms)
qed

lemma kheap_wf_named:
  assumes "kheap_wf kh live ls" "c\<lparr>kc_total_count := 0, kc_alloc_count := 0\<rparr> = (named_caches kh i)\<lparr>kc_total_count := 0, kc_alloc_count := 0\<rparr>"
  shows "kheap_wf (set_named kh i c) live ls" "in_cache (set_named kh i c) l ci x = in_cache kh l ci x"
proof -
  have e: "kc_obj_size c = kc_obj_size (named_caches kh i)" "kc_free_head c = kc_free_head (named_caches kh i)"
    "kc_free_count c = kc_free_count (named_caches kh i)"
    using arg_cong [OF assms(2), of kc_obj_size] arg_cong [OF assms(2), of kc_free_head] arg_cong [OF assms(2), of kc_free_count] by simp_all
  show "kheap_wf (set_named kh i c) live ls" using assms(1) by (subst kheap_wf_cong(1)) (auto simp: set_named_def e)
  show "in_cache (set_named kh i c) l ci x = in_cache kh l ci x" by (rule kheap_wf_cong(2)) (auto simp: set_named_def e)
qed

lemma kmem_pop_wf:
  assumes wf: "kheap_wf kh live ls" and i: "i < unat (num_caches kh)" and ne: "ls i = x # xs"
  defines "kh' \<equiv> set_named kh i ((named_caches kh i)\<lparr>kc_free_head := load_ptr (sl_mem (kh_slab kh)) (x + 4), kc_free_count := kc_free_count (named_caches kh i) - 1\<rparr>)"
  shows "kc_free_head (named_caches kh i) = x + 4" "x + 4 \<noteq> 0" "(kcls kh i, x) \<in> live" "pmm_debug_check_ptr (kh_slab kh) (x + 4)"
    "kheap_wf kh' live (ls(i := xs))" "\<not> in_cache kh' (ls(i := xs)) (kcls kh i) x" "kcls kh' = kcls kh"
proof -
  note w = kheap_wfD [OF wf]
  note l = lists_okD [OF w(6)]
  show h: "kc_free_head (named_caches kh i) = x + 4" "x + 4 \<noteq> 0" using l(1) [OF i] ne by auto
  show x: "(kcls kh i, x) \<in> live" using l(3) [OF i] ne by simp
  show "pmm_debug_check_ptr (kh_slab kh) (x + 4)" using slab_check_live [OF w(1) x] by simp
  show k: "kcls kh' = kcls kh" by (rule kcls_cong) (simp add: kh'_def set_named_def)
  have "lists_ok (sl_mem (kh_slab kh)) live (unat (num_caches kh)) (kcls kh) (\<lambda>i. kc_free_head (named_caches kh' i)) (ls(i := xs))"
  proof (rule lists_okI)
    fix j assume j: "j < unat (num_caches kh)"
    show "fchain (sl_mem (kh_slab kh)) (kc_free_head (named_caches kh' j)) (map (\<lambda>x. x + 4) ((ls(i := xs)) j)) \<and> distinct ((ls(i := xs)) j)"
      using l(1,2) [OF j] ne by (auto simp: kh'_def set_named_def)
    have sub: "set ((ls(i := xs)) j) \<subseteq> set (ls j)" for j using ne by auto
    show "(kcls kh j, y) \<in> live" if "y \<in> set ((ls(i := xs)) j)" for y using that sub l(3) [OF j] by blast
    show "y \<notin> set ((ls(i := xs)) m)" if "m < unat (num_caches kh)" "j \<noteq> m" "y \<in> set ((ls(i := xs)) j)" "kcls kh j = kcls kh m" for m y
      using that sub l(4) [OF j] by blast
  qed
  then show "kheap_wf kh' live (ls(i := xs))" using w(1-5) ne unfolding kheap_wf_def k by (auto simp: kh'_def set_named_def)
  show "\<not> in_cache kh' (ls(i := xs)) (kcls kh i) x"
    using l(2) [OF i] l(4) [OF i, of _ x] ne unfolding in_cache_def k by (auto simp: kh'_def set_named_def)
qed

text \<open>What an allocation from a cache gives: an object that was not in use, that is in no list now, and untouched objects in use.\<close>

definition cache_gives :: "kheap \<Rightarrow> (nat \<times> u64) set \<Rightarrow> (nat \<Rightarrow> u64 list) \<Rightarrow> nat \<Rightarrow> u64 \<Rightarrow> kheap \<Rightarrow> bool" where
  "cache_gives kh live ls ci x kh' \<longleftrightarrow> ((ci, x) \<in> live \<longrightarrow> in_cache kh ls ci x) \<and>
     (\<forall>(c, y) \<in> live. \<not> in_cache kh ls c y \<longrightarrow> extent c y \<inter> extent ci x = {} \<and> (\<forall>a \<in> extent c y. sl_mem (kh_slab kh') a = sl_mem (kh_slab kh) a))"

lemma live_apart:
  "slab_ok st live \<Longrightarrow> (c, y) \<in> live \<Longrightarrow> (ci, x) \<in> live \<Longrightarrow> (c, y) \<noteq> (ci, x) \<Longrightarrow> extent c y \<inter> extent ci x = {}"
  by (metis slab_ok_obj swfD(7) objs_disjoint)

lemma kmem_alloc_hot:
  assumes wf: "kheap_wf kh live ls" and i: "i < unat (num_caches kh)" and ne: "ls i = x # xs"
    and lim: "kc_max_objects (named_caches kh i) = 0 \<or> kc_total_count (named_caches kh i) < kc_max_objects (named_caches kh i)"
  obtains kh' where "kmem_cache_alloc kh i = Some (x + 4, kh')" "kheap_wf kh' live (ls(i := xs))" "(kcls kh i, x) \<in> live"
    "\<not> in_cache kh' (ls(i := xs)) (kcls kh i) x" "cache_gives kh live ls (kcls kh i) x kh'"
proof -
  note p = kmem_pop_wf [OF wf i ne]
  define k1 where "k1 = set_named kh i ((named_caches kh i)\<lparr>kc_free_head := load_ptr (sl_mem (kh_slab kh)) (x + 4), kc_free_count := kc_free_count (named_caches kh i) - 1\<rparr>)"
  define kh' where "kh' = set_named k1 i ((named_caches k1 i)\<lparr>kc_total_count := kc_total_count (named_caches k1 i) + 1, kc_alloc_count := kc_alloc_count (named_caches k1 i) + 1\<rparr>)"
  have m: "kh_slab kh' = kh_slab kh" "kh_slab k1 = kh_slab kh" by (simp_all add: kh'_def k1_def set_named_def)
  have "\<not> (kc_max_objects (named_caches kh i) > 0 \<and> kc_total_count (named_caches kh i) \<ge> kc_max_objects (named_caches kh i))"
    using lim by auto
  then have "kmem_cache_alloc kh i = Some (x + 4, kh')"
    using p(1,2,4) m(2) unfolding kmem_cache_alloc_def by (simp add: Let_def k1_def [symmetric] kh'_def [symmetric])
  moreover have w1: "kheap_wf k1 live (ls(i := xs))" "\<not> in_cache k1 (ls(i := xs)) (kcls kh i) x" using p(5,6) by (simp_all add: k1_def)
  have "kheap_wf kh' live (ls(i := xs))" "\<not> in_cache kh' (ls(i := xs)) (kcls kh i) x"
    using kheap_wf_named [OF w1(1), of "(named_caches k1 i)\<lparr>kc_total_count := kc_total_count (named_caches k1 i) + 1, kc_alloc_count := kc_alloc_count (named_caches k1 i) + 1\<rparr>"] w1(2)
    by (simp_all add: kh'_def)
  moreover have ic: "in_cache kh ls (kcls kh i) x" using i ne by (auto simp: in_cache_def)
  then have "cache_gives kh live ls (kcls kh i) x kh'"
    using live_apart [OF kheap_wfD(1) [OF wf] _ p(3)] unfolding cache_gives_def m by auto
  ultimately show ?thesis using that p(3) by blast
qed


lemma kmem_alloc_cold:
  assumes wf: "kheap_wf kh live ls" and i: "i < unat (num_caches kh)" and ne: "ls i = []"
    and lim: "kc_max_objects (named_caches kh i) = 0 \<or> kc_total_count (named_caches kh i) < kc_max_objects (named_caches kh i)"
    and km: "kmalloc (kh_slab kh) (kc_obj_size (named_caches kh i)) = Some (p, st)"
  obtains x kh' where "kmem_cache_alloc kh i = Some (x + 4, kh')" "kheap_wf kh' (insert (kcls kh i, x) live) ls"
    "\<not> in_cache kh' ls (kcls kh i) x" "cache_gives kh live ls (kcls kh i) x kh'"
proof -
  note w = kheap_wfD [OF wf]
  obtain x where x: "p = x + 4" "(kcls kh i, x) \<notin> live" "kheap_wf (kh\<lparr>kh_slab := st\<rparr>) (insert (kcls kh i, x) live) ls"
    "\<not> in_cache kh ls (kcls kh i) x" "x + 4 \<noteq> 0" by (rule kmalloc_cache_wf [OF wf i km])
  define k1 where "k1 = kh\<lparr>kh_slab := st\<rparr>"
  define c where "c = (named_caches k1 i)\<lparr>kc_total_count := kc_total_count (named_caches k1 i) + 1, kc_alloc_count := kc_alloc_count (named_caches k1 i) + 1\<rparr>"
  have h: "kc_free_head (named_caches kh i) = 0" using lists_okD(1) [OF w(6) i] ne by simp
  have "\<not> (kc_max_objects (named_caches kh i) > 0 \<and> kc_total_count (named_caches kh i) \<ge> kc_max_objects (named_caches kh i))"
    using lim by auto
  then have "kmem_cache_alloc kh i = Some (x + 4, set_named k1 i c)"
    using h km x(1,5) unfolding kmem_cache_alloc_def by (simp add: Let_def k1_def c_def)
  moreover have "kheap_wf (set_named k1 i c) (insert (kcls kh i, x) live) ls" "in_cache (set_named k1 i c) ls (kcls kh i) x = in_cache k1 ls (kcls kh i) x"
    using kheap_wf_named [OF x(3) [folded k1_def], of c] by (simp_all add: c_def)
  moreover have "in_cache k1 ls (kcls kh i) x = in_cache kh ls (kcls kh i) x" by (simp add: in_cache_def kcls_def k1_def)
  moreover obtain y where y: "p = y + 4" "\<forall>(c, z) \<in> live. \<forall>a \<in> extent c z. sl_mem st a = sl_mem (kh_slab kh) a"
    using slab_alloc_fresh [OF w(1) w(3) [OF i] w(4) [OF i] km] by blast
  have "extent c y \<inter> extent (kcls kh i) x = {}" if "(c, y) \<in> live" for c y
    by (rule live_apart [OF kheap_wfD(1) [OF x(3)]]) (use that x(2) in auto)
  then have "cache_gives kh live ls (kcls kh i) x (set_named k1 i c)"
    using x(2) y(2) unfolding cache_gives_def by (auto simp: k1_def set_named_def)
  ultimately show ?thesis using that x(4) by blast
qed

lemma kmem_alloc_none:
  assumes wf: "kheap_wf kh live ls" and i: "i < unat (num_caches kh)" and ne: "ls i = []"
    and km: "kmalloc (kh_slab kh) (kc_obj_size (named_caches kh i)) = None"
  shows "kmem_cache_alloc kh i = None"
proof -
  have "kc_free_head (named_caches kh i) = 0" using lists_okD(1) [OF kheap_wfD(6) [OF wf] i] ne by simp
  then show ?thesis using km by (simp add: kmem_cache_alloc_def Let_def)
qed

lemma kmem_free_wf:
  assumes wf: "kheap_wf kh live ls" and i: "i < unat (num_caches kh)" and x: "(kcls kh i, x) \<in> live" "\<not> in_cache kh ls (kcls kh i) x"
  obtains kh' where "kmem_cache_free kh i (x + 4) = Some kh'" "kheap_wf kh' live (ls(i := x # ls i))" "num_caches kh' = num_caches kh" "kcls kh' = kcls kh"
    "kc_max_objects (named_caches kh' i) = kc_max_objects (named_caches kh i)" "kc_total_count (named_caches kh' i) = kc_total_count (named_caches kh i) - 1"
    "\<forall>(c, y) \<in> live. (c, y) \<noteq> (kcls kh i, x) \<longrightarrow> (\<forall>a \<in> extent c y. sl_mem (kh_slab kh') a = sl_mem (kh_slab kh) a)"
proof -
  note w = kheap_wfD [OF wf] and f = kmem_push_fields
  define k1 where "k1 = kmem_push kh i (x + 4)"
  define c where "c = (named_caches k1 i)\<lparr>kc_total_count := kc_total_count (named_caches k1 i) - 1\<rparr>"
  have "kmem_cache_free kh i (x + 4) = Some (set_named k1 i c)"
    using slab_check_live [OF w(1) x(1)] by (simp add: kmem_cache_free_def Let_def k1_def c_def)
  moreover have "kheap_wf (set_named k1 i c) live (ls(i := x # ls i))"
    by (rule kheap_wf_named(1)) (use kmem_push_wf [OF wf i x] in \<open>simp_all add: c_def k1_def\<close>)
  moreover have "kcls (set_named k1 i c) = kcls kh" by (rule kcls_cong) (simp add: set_named_def c_def k1_def f)
  moreover have "\<forall>(c, y) \<in> live. (c, y) \<noteq> (kcls kh i, x) \<longrightarrow> (\<forall>a \<in> extent c y. sl_mem (kh_slab k1) a = sl_mem (kh_slab kh) a)"
    using slab_store_frame [OF w(1) x(1)] unfolding k1_def f by blast
  ultimately show ?thesis using that by (simp add: set_named_def c_def k1_def f)
qed

text \<open>
  C24. An allocation from a cache below its limit fails only when the cache is empty and kmalloc fails. Otherwise it
  gives an object of the cache's class that was not in use and overlaps no object in use, whose contents
  it leaves alone, and the caches stay well formed. Returned to the cache, the object is accepted and is the next one handed out.
\<close>

theorem kmem_cache_correct:
  assumes "kheap_wf kh live ls" "i < unat (num_caches kh)"
    "kc_max_objects (named_caches kh i) = 0 \<or> kc_total_count (named_caches kh i) < kc_max_objects (named_caches kh i)"
  shows "if ls i = [] \<and> kmalloc (kh_slab kh) (kc_obj_size (named_caches kh i)) = None then kmem_cache_alloc kh i = None
     else \<exists>x kh' live' ls'. kmem_cache_alloc kh i = Some (x + 4, kh') \<and> kheap_wf kh' live' ls' \<and> live' = insert (kcls kh i, x) live \<and>
       \<not> in_cache kh' ls' (kcls kh i) x \<and> unat (kc_obj_size (named_caches kh i)) + 8 \<le> csize (kcls kh i) \<and> cache_gives kh live ls (kcls kh i) x kh' \<and>
       (\<exists>kh'' kh3. kmem_cache_free kh' i (x + 4) = Some kh'' \<and> kheap_wf kh'' live' (ls'(i := x # ls' i)) \<and>
          kmem_cache_alloc kh'' i = Some (x + 4, kh3))"
proof -
  note w = kheap_wfD [OF assms(1)]
  note fits = class_for(2) [OF w(3) [OF assms(2)]]
  have fin: "\<exists>x kh' live' ls'. kmem_cache_alloc kh i = Some (x + 4, kh') \<and> kheap_wf kh' live' ls' \<and> live' = insert (kcls kh i, x) live \<and>
       \<not> in_cache kh' ls' (kcls kh i) x \<and> unat (kc_obj_size (named_caches kh i)) + 8 \<le> csize (kcls kh i) \<and> cache_gives kh live ls (kcls kh i) x kh' \<and>
       (\<exists>kh'' kh3. kmem_cache_free kh' i (x + 4) = Some kh'' \<and> kheap_wf kh'' live' (ls'(i := x # ls' i)) \<and>
          kmem_cache_alloc kh'' i = Some (x + 4, kh3))"
    if k: "kmem_cache_alloc kh i = Some (x + 4, kh')" "kheap_wf kh' (insert (kcls kh i, x) live) ls'"
      "\<not> in_cache kh' ls' (kcls kh i) x" "cache_gives kh live ls (kcls kh i) x kh'" for x kh' ls'
  proof -
    have e: "num_caches kh' = num_caches kh" "kcls kh' i = kcls kh i" "kc_max_objects (named_caches kh' i) = kc_max_objects (named_caches kh i)"
      "kc_total_count (named_caches kh' i) = kc_total_count (named_caches kh i) + 1"
      using k(1) by (auto simp: kmem_cache_alloc_def Let_def set_named_def kcls_def bind_eq_Some_conv split: if_splits)
    have i': "i < unat (num_caches kh')" "(kcls kh' i, x) \<in> insert (kcls kh i, x) live" "\<not> in_cache kh' ls' (kcls kh' i) x"
      using assms(2) k(3) by (simp_all add: e)
    obtain kh'' where f: "kmem_cache_free kh' i (x + 4) = Some kh''" "kheap_wf kh'' (insert (kcls kh i, x) live) (ls'(i := x # ls' i))"
      "num_caches kh'' = num_caches kh'" "kc_max_objects (named_caches kh'' i) = kc_max_objects (named_caches kh' i)"
      "kc_total_count (named_caches kh'' i) = kc_total_count (named_caches kh' i) - 1"
      by (rule kmem_free_wf [OF k(2) i'])
    have "i < unat (num_caches kh'')" "(ls'(i := x # ls' i)) i = x # ls' i"
      "kc_max_objects (named_caches kh'' i) = 0 \<or> kc_total_count (named_caches kh'' i) < kc_max_objects (named_caches kh'' i)"
      using assms(2,3) by (simp_all add: f e)
    then obtain kh3 where "kmem_cache_alloc kh'' i = Some (x + 4, kh3)" by (rule kmem_alloc_hot [OF f(2)])
    with k f(1,2) fits show ?thesis by blast
  qed
  show ?thesis
  proof (cases "ls i")
    case (Cons x xs)
    obtain kh' where "kmem_cache_alloc kh i = Some (x + 4, kh')" "kheap_wf kh' live (ls(i := xs))" "(kcls kh i, x) \<in> live"
      "\<not> in_cache kh' (ls(i := xs)) (kcls kh i) x" "cache_gives kh live ls (kcls kh i) x kh'"
      by (rule kmem_alloc_hot [OF assms(1,2) Cons assms(3)])
    with fin [of x kh' "ls(i := xs)"] Cons show ?thesis by (simp add: insert_absorb)
  next
    case Nil
    show ?thesis
    proof (cases "kmalloc (kh_slab kh) (kc_obj_size (named_caches kh i))")
      case None
      then show ?thesis using kmem_alloc_none [OF assms(1,2) Nil] Nil by simp
    next
      case (Some r)
      then obtain p st where km: "kmalloc (kh_slab kh) (kc_obj_size (named_caches kh i)) = Some (p, st)" by (cases r) auto
      obtain x kh' where "kmem_cache_alloc kh i = Some (x + 4, kh')" "kheap_wf kh' (insert (kcls kh i, x) live) ls"
        "\<not> in_cache kh' ls (kcls kh i) x" "cache_gives kh live ls (kcls kh i) x kh'"
        by (rule kmem_alloc_cold [OF assms(1,2) Nil assms(3) km])
      from fin [OF this] km show ?thesis by simp
    qed
  qed
qed


subsection \<open>Boot\<close>

abbreviation free_pages :: "slab \<Rightarrow> nat" where
  "free_pages st \<equiv> unat (total_free_pages (sl_pmm st))"

lemma free_pages_card: "swf st S fl live \<Longrightarrow> free_pages st = card S"
proof -
  assume w: "swf st S fl live"
  have "S \<subseteq> {..<NUM_PAGES}" by (rule pmm_rel_bound [OF swfD(1) [OF w]])
  then have "card S \<le> NUM_PAGES" using card_mono [of "{..<NUM_PAGES}" S] by simp
  then show ?thesis by (simp add: pmm_rel_total [OF swfD(1) [OF w]] unat_of_nat)
qed

lemma kmalloc_pages:
  assumes "slab_ok st live" "slab_class_for sz = Some ci" "sz \<noteq> 0" "0 < free_pages st"
  obtains p st' where "kmalloc st sz = Some (p, st')" "free_pages st \<le> Suc (free_pages st')"
proof -
  obtain S fl L where w: "swf st S fl live" by (rule slab_ok_obj [OF assms(1)])
  have "S \<noteq> {}" using assms(4) free_pages_card [OF w] by auto
  then obtain x st' S' fl' where "kmalloc st sz = Some (x + 4, st')" "swf st' S' fl' (insert (ci, x) live)" "card S \<le> Suc (card S')"
    using kmalloc_class [OF w assms(2,3)] by metis
  then show ?thesis using that free_pages_card [OF w] free_pages_card by metis
qed

text \<open>Filling a cache: with a free page per object the loop ends with exactly the number asked for.\<close>

lemma kmem_warm_ok:
  assumes "kheap_wf kh live ls" "i < unat (num_caches kh)" "unat n = unat (kc_free_count (named_caches kh i)) + d" "d \<le> free_pages (kh_slab kh)"
  shows "\<exists>kh' live' ls'. kmem_cache_warm i n kh = Some kh' \<and> kheap_wf kh' live' ls' \<and> kc_free_count (named_caches kh' i) = n \<and>
     num_caches kh' = num_caches kh \<and> (\<forall>j. j \<noteq> i \<longrightarrow> named_caches kh' j = named_caches kh j) \<and> free_pages (kh_slab kh) \<le> free_pages (kh_slab kh') + d \<and>
     task_cache kh' = task_cache kh \<and> port_cache kh' = port_cache kh"
  using assms
proof (induction d arbitrary: kh live ls)
  case 0
  then have "kc_free_count (named_caches kh i) = n" by (simp add: word_unat_eq_iff)
  then show ?case using 0 by (subst kmem_cache_warm.simps) auto
next
  case (Suc d)
  note w = kheap_wfD [OF Suc.prems(1)]
  have less: "kc_free_count (named_caches kh i) < n" using Suc.prems(3) by (simp add: word_less_nat_alt)
  obtain p st where km: "kmalloc (kh_slab kh) (kc_obj_size (named_caches kh i)) = Some (p, st)" "free_pages (kh_slab kh) \<le> Suc (free_pages st)"
    by (rule kmalloc_pages [OF w(1) w(3,4) [OF Suc.prems(2)]]) (use Suc.prems(4) in auto)
  obtain x where x: "p = x + 4" "kheap_wf (kh\<lparr>kh_slab := st\<rparr>) (insert (kcls kh i, x) live) ls" "\<not> in_cache kh ls (kcls kh i) x"
    by (rule kmalloc_cache_wf [OF Suc.prems(1,2) km(1)])
  let ?k = "kmem_push (kh\<lparr>kh_slab := st\<rparr>) i p"
  have c: "kcls (kh\<lparr>kh_slab := st\<rparr>) = kcls kh" by (rule kcls_cong) simp
  have "kheap_wf ?k (insert (kcls kh i, x) live) (ls(i := x # ls i))"
    unfolding x(1) by (rule kmem_push_wf [OF x(2)]) (use Suc.prems(2) x(3) in \<open>auto simp: c in_cache_def\<close>)
  moreover have "i < unat (num_caches ?k)" using Suc.prems(2) by (simp add: kmem_push_fields)
  moreover have "unat n = unat (kc_free_count (named_caches ?k i)) + d"
  proof -
    have "unat (kc_free_count (named_caches kh i)) + 1 < 2 ^ 32" using Suc.prems(3) unsigned_less [of n, where ?'a = nat] by simp
    then show ?thesis using Suc.prems(3) by (simp add: kmem_push_fields unat_word_ariths)
  qed
  moreover have "d \<le> free_pages (kh_slab ?k)" using Suc.prems(4) km(2) by (simp add: kmem_push_fields heap_store_def)
  ultimately obtain kh' live' ls' where k: "kmem_cache_warm i n ?k = Some kh'" "kheap_wf kh' live' ls'" "kc_free_count (named_caches kh' i) = n"
    "num_caches kh' = num_caches ?k" "\<forall>j. j \<noteq> i \<longrightarrow> named_caches kh' j = named_caches ?k j" "free_pages (kh_slab ?k) \<le> free_pages (kh_slab kh') + d"
    "task_cache kh' = task_cache ?k" "port_cache kh' = port_cache ?k"
    using Suc.IH by blast
  have "kmem_cache_warm i n kh = Some kh'" using less km(1) k(1) by (simp add: kmem_cache_warm.simps [of i n kh])
  with k km(2) show ?case
    by (intro exI [of _ kh'] exI [of _ live'] exI [of _ ls']) (auto simp: kmem_push_def set_named_def Let_def heap_store_def)
qed

lemma kmem_create_ok:
  assumes wf: "kheap_wf kh live ls" and room: "num_caches kh < KMEM_MAX_CACHES" and cl: "slab_class_for sz = Some ci" "sz \<noteq> 0"
    and pages: "unat n \<le> free_pages (kh_slab kh)"
  obtains kh' live' ls' where "kmem_cache_create kh nm sz n = Some (unat (num_caches kh), kh')" "kheap_wf kh' live' ls'"
    "num_caches kh' = num_caches kh + 1" "kc_free_count (named_caches kh' (unat (num_caches kh))) = n"
    "\<forall>j. j \<noteq> unat (num_caches kh) \<longrightarrow> named_caches kh' j = named_caches kh j" "free_pages (kh_slab kh) \<le> free_pages (kh_slab kh') + unat n"
    "task_cache kh' = task_cache kh" "port_cache kh' = port_cache kh"
proof -
  note w = kheap_wfD [OF wf]
  let ?i = "unat (num_caches kh)"
  define k1 where "k1 = set_named (kh\<lparr>num_caches := num_caches kh + 1\<rparr>) ?i \<lparr>kc_name = nm, kc_obj_size = sz, kc_max_objects = 0, kc_free_head = 0,
    kc_free_count = 0, kc_total_count = 0, kc_alloc_count = 0\<rparr>"
  have u: "unat (num_caches kh + 1) = Suc ?i" using room by (simp add: KMEM_MAX_CACHES_def word_less_nat_alt unat_word_ariths)
  have n1: "num_caches k1 = num_caches kh + 1" "kh_slab k1 = kh_slab kh" "named_caches k1 ?i = \<lparr>kc_name = nm, kc_obj_size = sz, kc_max_objects = 0,
    kc_free_head = 0, kc_free_count = 0, kc_total_count = 0, kc_alloc_count = 0\<rparr>" "\<And>j. j \<noteq> ?i \<Longrightarrow> named_caches k1 j = named_caches kh j"
    by (simp_all add: k1_def set_named_def)
  have kc: "kcls k1 j = (if j = ?i then ci else kcls kh j)" for j using cl by (simp add: kcls_def k1_def set_named_def)
  have "lists_ok (sl_mem (kh_slab k1)) live (unat (num_caches k1)) (kcls k1) (\<lambda>i. kc_free_head (named_caches k1 i)) (ls(?i := []))"
    unfolding n1(1,2) u
  proof (rule lists_okI)
    note l = lists_okD [OF w(6)]
    fix j assume j: "j < Suc ?i"
    show "fchain (sl_mem (kh_slab kh)) (kc_free_head (named_caches k1 j)) (map (\<lambda>x. x + 4) ((ls(?i := [])) j)) \<and> distinct ((ls(?i := [])) j)"
      using j l(1,2) [of j] by (cases "j = ?i") (simp_all add: n1(3,4))
    show "(kcls k1 j, x) \<in> live" if "x \<in> set ((ls(?i := [])) j)" for x using that j l(3) [of j x] by (cases "j = ?i") (simp_all add: kc)
    show "x \<notin> set ((ls(?i := [])) m)" if "m < Suc ?i" "j \<noteq> m" "x \<in> set ((ls(?i := [])) j)" "kcls k1 j = kcls k1 m" for m x
      using that j l(4) [of j m x] by (cases "j = ?i"; cases "m = ?i") (simp_all add: kc)
  qed
  moreover have "num_caches k1 \<le> KMEM_MAX_CACHES" using room u by (simp add: n1(1) KMEM_MAX_CACHES_def word_le_nat_alt word_less_nat_alt)
  ultimately have w1: "kheap_wf k1 live (ls(?i := []))"
    using w(1,3-5) cl unfolding kheap_wf_def n1(1,2) u by (auto simp: less_Suc_eq kc n1(3,4))
  have i: "?i < unat (num_caches k1)" by (simp add: n1 u)
  have d: "unat n = unat (kc_free_count (named_caches k1 ?i)) + unat n" by (simp add: n1)
  have p: "unat n \<le> free_pages (kh_slab k1)" using pages by (simp add: n1)
  have wn: "kmem_cache_warm ?i 0 k1 = Some k1" by (subst kmem_cache_warm.simps) simp
  then have "kmem_cache_create kh nm sz n = kmem_cache_warm ?i n k1 \<bind> (\<lambda>kh. Some (?i, kh))"
    using room by (cases "n = 0") (auto simp: kmem_cache_create_def Let_def k1_def [symmetric] word_gt_0 not_le)
  moreover have "task_cache k1 = task_cache kh" "port_cache k1 = port_cache kh" by (simp_all add: k1_def set_named_def)
  moreover obtain kh' live' ls' where k: "kmem_cache_warm ?i n k1 = Some kh'" "kheap_wf kh' live' ls'" "kc_free_count (named_caches kh' ?i) = n"
    "num_caches kh' = num_caches k1" "\<forall>j. j \<noteq> ?i \<longrightarrow> named_caches kh' j = named_caches k1 j" "free_pages (kh_slab k1) \<le> free_pages (kh_slab kh') + unat n"
    "task_cache kh' = task_cache k1" "port_cache kh' = port_cache k1" using kmem_warm_ok [OF w1 i d p] by blast
  ultimately show ?thesis using that [OF _ k(2) _ k(3)] n1(1,2,4) by simp
qed


text \<open>The registry before \<^verbatim>\<open>kheap_init\<close> (zeroed memory) on a heap.\<close>

definition kheap_bss :: "slab \<Rightarrow> kheap" where
  "kheap_bss st = \<lparr>kh_slab = st, named_caches = (\<lambda>_. \<lparr>kc_name = [], kc_obj_size = 0, kc_max_objects = 0, kc_free_head = 0,
     kc_free_count = 0, kc_total_count = 0, kc_alloc_count = 0\<rparr>), num_caches = 0, task_cache = None, port_cache = None, ipc_cache = None\<rparr>"

lemma kheap_bss_wf: "slab_ok st live \<Longrightarrow> kheap_wf (kheap_bss st) live (\<lambda>_. [])"
  by (simp add: kheap_wf_def kheap_bss_def lists_ok_def KMEM_MAX_CACHES_def)

lemma kheap_wf_tags: "kheap_wf (kh\<lparr>task_cache := t\<rparr>) live ls = kheap_wf kh live ls" "kheap_wf (kh\<lparr>port_cache := t\<rparr>) live ls = kheap_wf kh live ls"
  "kheap_wf (kh\<lparr>ipc_cache := t\<rparr>) live ls = kheap_wf kh live ls"
  by (rule kheap_wf_cong(1); simp)+

lemma kheap_init_ok:
  assumes "slab_ok st live" "320 \<le> free_pages st"
  obtains kh live' ls where "kheap_init (kheap_bss st) = Some kh" "kheap_wf kh live' ls" "task_cache kh = Some 0" "port_cache kh = Some 1"
    "ipc_cache kh = Some 2" "num_caches kh = 3" "kc_free_count (named_caches kh 0) = 64" "kc_free_count (named_caches kh 1) = 128"
    "kc_free_count (named_caches kh 2) = 128"
proof -
  note cr = kmem_create_ok
  let ?k0 = "kheap_bss st"
  have f0: "num_caches ?k0 = 0" "kh_slab ?k0 = st" by (simp_all add: kheap_bss_def)
  have z: "(64 :: u32) \<noteq> 0" "(512 :: u32) \<noteq> 0" by simp_all
  obtain k1 l1 s1 where k1: "kmem_cache_create ?k0 ''task_cache'' 64 64 = Some (unat (num_caches ?k0), k1)" "kheap_wf k1 l1 s1"
    "num_caches k1 = num_caches ?k0 + 1" "kc_free_count (named_caches k1 (unat (num_caches ?k0))) = 64"
    "free_pages (kh_slab ?k0) \<le> free_pages (kh_slab k1) + unat (64 :: u32)"
    by (rule cr [OF kheap_bss_wf [OF assms(1)] _ warm_classes(1) z(1), of 64]) (use assms(2) f0 in \<open>auto simp: KMEM_MAX_CACHES_def\<close>)
  let ?k1 = "k1\<lparr>task_cache := Some 0\<rparr>"
  have w1: "kheap_wf ?k1 l1 s1" by (simp add: kheap_wf_tags k1(2))
  obtain k2 l2 s2 where k2: "kmem_cache_create ?k1 ''port_cache'' 64 128 = Some (unat (num_caches ?k1), k2)" "kheap_wf k2 l2 s2"
    "num_caches k2 = num_caches ?k1 + 1" "kc_free_count (named_caches k2 (unat (num_caches ?k1))) = 128"
    "\<forall>j. j \<noteq> unat (num_caches ?k1) \<longrightarrow> named_caches k2 j = named_caches ?k1 j"
    "free_pages (kh_slab ?k1) \<le> free_pages (kh_slab k2) + unat (128 :: u32)" "task_cache k2 = task_cache ?k1"
    by (rule cr [OF w1 _ warm_classes(1) z(1), of 128])
      (use assms(2) f0 k1(3,5) in \<open>auto simp: KMEM_MAX_CACHES_def\<close>)
  let ?k2 = "k2\<lparr>port_cache := Some 1\<rparr>"
  have w2: "kheap_wf ?k2 l2 s2" by (simp add: kheap_wf_tags k2(2))
  obtain k3 l3 s3 where k3: "kmem_cache_create ?k2 ''ipc_cache'' 512 128 = Some (unat (num_caches ?k2), k3)" "kheap_wf k3 l3 s3"
    "num_caches k3 = num_caches ?k2 + 1" "kc_free_count (named_caches k3 (unat (num_caches ?k2))) = 128"
    "\<forall>j. j \<noteq> unat (num_caches ?k2) \<longrightarrow> named_caches k3 j = named_caches ?k2 j"
    "task_cache k3 = task_cache ?k2" "port_cache k3 = port_cache ?k2"
    by (rule cr [OF w2 _ warm_classes(2) z(2), of 128])
      (use assms(2) f0 k1(3,5) k2(3,6) in \<open>auto simp: KMEM_MAX_CACHES_def\<close>)
  have "kheap_init ?k0 = Some (k3\<lparr>ipc_cache := Some 2\<rparr>)"
    using k1(1,3) k2(1,3) k3(1) f0 by (simp add: kheap_init_def)
  moreover have "kheap_wf (k3\<lparr>ipc_cache := Some 2\<rparr>) l3 s3" by (simp add: kheap_wf_tags k3(2))
  ultimately show ?thesis by (rule that) (use f0 k1(3,4) k2(3,4,5,7) k3(3-7) in auto)
qed



theorem kmem_cache_correct_witness:
  "\<exists>kh x kh' kh'' kh3. kmem_cache_alloc kh 0 = Some (x + 4, kh') \<and> kmem_cache_free kh' 0 (x + 4) = Some kh'' \<and>
     kmem_cache_alloc kh'' 0 = Some (x + 4, kh3)"
proof -
  obtain st where h: "heap_wf st {512..<NUM_PAGES} (\<lambda>_. []) {} {}" by (rule cold_heap)
  then have ok: "slab_ok st {}" "free_pages st = card {512..<NUM_PAGES}" using free_pages_card [OF heap_wfD(1) [OF h]] unfolding slab_ok_def by auto
  define kh where "kh = (kheap_bss st)\<lparr>num_caches := 1, named_caches := (\<lambda>_. \<lparr>kc_name = ''demo'', kc_obj_size = 24, kc_max_objects = 0,
    kc_free_head = 0, kc_free_count = 0, kc_total_count = 0, kc_alloc_count = 0\<rparr>)\<rparr>"
  have f: "kh_slab kh = st" "num_caches kh = 1" "kc_obj_size (named_caches kh i) = 24" "kc_max_objects (named_caches kh i) = 0"
    "kc_free_head (named_caches kh i) = 0" "kc_free_count (named_caches kh i) = 0" "kcls kh i = 0" for i
    by (simp_all add: kh_def kheap_bss_def kcls_def class_24)
  have "kheap_wf kh {} (\<lambda>_. [])" using ok(1) by (simp add: kheap_wf_def f class_24 lists_ok_def KMEM_MAX_CACHES_def)
  moreover obtain r where "kmalloc st 24 = Some r" by (rule kmalloc_pages [OF ok(1) class_24]) (use ok(2) in auto)
  ultimately show ?thesis using kmem_cache_correct [of kh "{}" "\<lambda>_. []" 0] by (simp add: f) blast
qed

end
