(* ===== verification/Ipc.thy ===== *)
theory Ipc
  imports Blocking
begin

text \<open>
  The microkernel's message passing, \<^verbatim>\<open>kernel/microkernel.c\<close>: logical tasks with one-message mailboxes, and ports with
  synchronous request and reply, priority donation to the owner and latency statistics. A call and a wait give up
  the processor once; each is split there into the part up to and including \<^verbatim>\<open>sched_block\<close> and the part after it. The calls come
  from system calls, where interrupts are masked, so each part is one step. Times (\<open>now\<close>, \<open>freq\<close>) are
  arguments; \<open>junk\<close> is what the stack holds where the C code declares a message without initialising it.
  A null data pointer is \<open>None\<close>, a null output pointer a false flag.
\<close>

subsection \<open>Data\<close>

definition MAX_TASKS :: nat where "MAX_TASKS = 64"

definition TASK_NAME_LEN :: nat where "TASK_NAME_LEN = 32"

definition IPC_MSG_MAX_SIZE :: u32 where "IPC_MSG_MAX_SIZE = 256"

definition IPC_SMALL_MSG_MAX :: u32 where "IPC_SMALL_MSG_MAX = 64"

definition IPC_MSG_FLAG_INLINE :: u32 where "IPC_MSG_FLAG_INLINE = 1"

definition MAX_PORTS :: nat where "MAX_PORTS = 128"

datatype task_state = TASK_STATE_FREE | TASK_STATE_READY | TASK_STATE_RUNNING | TASK_STATE_BLOCKED | TASK_STATE_DEAD

datatype task_type = TASK_TYPE_KERNEL | TASK_TYPE_SERVER | TASK_TYPE_USER

record mk_task =
  mt_tid :: u32
  mt_name :: string
  mt_state :: task_state
  mt_type :: task_type
  mt_stack_ptr :: u64
  mt_entry_point :: u64

text \<open>\<^verbatim>\<open>payload\<close> and \<^verbatim>\<open>mr\<close> are two views of the same 256 bytes.\<close>

record ipc_message =
  sender_tid :: u32
  receiver_tid :: u32
  msg_type :: u32
  msg_len :: u32
  msg_flags :: u32
  msg_reserved :: u32
  payload :: "nat \<Rightarrow> u8"

record port_stats =
  ps_budget_cycles :: u64
  ps_last_call_cycles :: u64
  ps_worst_call_cycles :: u64
  ps_total_calls :: u32
  ps_budget_misses :: u32
  ps_inline_calls :: u32

record port =
  port_id :: u32
  owner_tid :: u32
  po_active :: bool
  po_name :: string
  latency_budget_cycles :: u64
  last_call_cycles :: u64
  worst_call_cycles :: u64
  total_calls :: u32
  budget_misses :: u32
  inline_calls :: u32
  waiting_tid :: u32
  active_client_tid :: u32
  active_start_cycles :: u64
  pending_valid :: bool
  reply_valid :: bool
  pending_msg :: ipc_message
  reply_msg :: ipc_message

record mk =
  mk_tasks :: "nat \<Rightarrow> mk_task"
  next_tid :: u32
  ports :: "nat \<Rightarrow> port"
  next_port_id :: u32
  compat_mailbox :: "nat \<Rightarrow> ipc_message"
  compat_mailbox_valid :: "nat \<Rightarrow> bool"

definition set_port :: "mk \<Rightarrow> nat \<Rightarrow> port \<Rightarrow> mk" where
  "set_port m i p = m\<lparr>ports := (ports m)(i := p)\<rparr>"

subsection \<open>Helpers\<close>

text \<open>Strings are C strings without their terminator.\<close>

fun mk_strcpy :: "nat \<Rightarrow> string \<Rightarrow> string" where
  "mk_strcpy 0 src = []"
| "mk_strcpy (Suc n) [] = []"
| "mk_strcpy (Suc n) (c # src) = (if n = 0 then [] else c # mk_strcpy n src)"

fun mk_strcmp :: "string \<Rightarrow> string \<Rightarrow> int" where
  "mk_strcmp [] [] = 0"
| "mk_strcmp [] (b # bs) = - of_char b"
| "mk_strcmp (a # as) [] = of_char a"
| "mk_strcmp (a # as) (b # bs) = (if a = b then mk_strcmp as bs else of_char a - of_char b)"

definition mk_memcpy :: "(nat \<Rightarrow> u8) \<Rightarrow> (nat \<Rightarrow> u8) \<Rightarrow> nat \<Rightarrow> nat \<Rightarrow> u8" where
  "mk_memcpy dst src n = (\<lambda>i. if i < n then src i else dst i)"

definition mk_port_by_id :: "mk \<Rightarrow> u32 \<Rightarrow> nat option" where
  "mk_port_by_id m pid = for_find (\<lambda>i. po_active (ports m i) \<and> port_id (ports m i) = pid) 0 MAX_PORTS"

definition mk_task_slot :: "mk \<Rightarrow> u32 \<Rightarrow> nat option" where
  "mk_task_slot m tid = for_find (\<lambda>i. mt_state (mk_tasks m i) \<noteq> TASK_STATE_FREE \<and> mt_tid (mk_tasks m i) = tid) 0 MAX_TASKS"

definition mk_current_tid :: "sched \<Rightarrow> u32" where
  "mk_current_tid s = (case current_task s of None \<Rightarrow> 0 | Some c \<Rightarrow> t_pid (task_pool s c))"

definition mk_ipc_build_msg :: "ipc_message \<Rightarrow> u32 \<Rightarrow> u32 \<Rightarrow> u32 \<Rightarrow> (nat \<Rightarrow> u8) option \<Rightarrow> u32 \<Rightarrow> ipc_message" where
  "mk_ipc_build_msg msg sender receiver ty data len =
     (let copy_len = (if len > IPC_MSG_MAX_SIZE then IPC_MSG_MAX_SIZE else len);
          msg = msg\<lparr>sender_tid := sender, receiver_tid := receiver, msg_type := ty, msg_len := copy_len,
                    msg_flags := (if copy_len \<le> IPC_SMALL_MSG_MAX then IPC_MSG_FLAG_INLINE else 0), msg_reserved := 0\<rparr>
      in case data of
           None \<Rightarrow> msg
         | Some d \<Rightarrow> if copy_len = 0 then msg else msg\<lparr>payload := mk_memcpy (payload msg) d (unat copy_len)\<rparr>)"

definition mk_ipc_reset_active :: "port \<Rightarrow> port" where
  "mk_ipc_reset_active p = p\<lparr>active_client_tid := 0, active_start_cycles := 0, reply_valid := False\<rparr>"

subsection \<open>Tasks and mailboxes\<close>

definition mk_task_create :: "mk \<Rightarrow> string \<Rightarrow> task_type \<Rightarrow> u64 \<Rightarrow> nat option \<times> mk" where
  "mk_task_create m nm ty entry =
     (case for_find (\<lambda>i. mt_state (mk_tasks m i) = TASK_STATE_FREE) 0 MAX_TASKS of
        None \<Rightarrow> (None, m)
      | Some i \<Rightarrow>
          (Some i, m\<lparr>next_tid := next_tid m + 1,
             mk_tasks := (mk_tasks m)(i := \<lparr>mt_tid = next_tid m, mt_name = mk_strcpy TASK_NAME_LEN nm, mt_state = TASK_STATE_READY,
               mt_type = ty, mt_stack_ptr = 0, mt_entry_point = entry\<rparr>)\<rparr>))"

definition mk_task_destroy :: "mk \<Rightarrow> u32 \<Rightarrow> mk" where
  "mk_task_destroy m tid =
     (case mk_task_slot m tid of
        None \<Rightarrow> m
      | Some i \<Rightarrow> m\<lparr>mk_tasks := (mk_tasks m)(i := (mk_tasks m i)\<lparr>mt_state := TASK_STATE_DEAD\<rparr>)\<rparr>)"

definition mk_task_get :: "mk \<Rightarrow> u32 \<Rightarrow> nat option" where
  "mk_task_get m tid = for_find (\<lambda>i. mt_tid (mk_tasks m i) = tid \<and> mt_state (mk_tasks m i) \<noteq> TASK_STATE_FREE) 0 MAX_TASKS"

definition mk_ipc_send :: "mk \<Rightarrow> u32 \<Rightarrow> u32 \<Rightarrow> u32 \<Rightarrow> (nat \<Rightarrow> u8) option \<Rightarrow> u32 \<Rightarrow> bool \<times> mk" where
  "mk_ipc_send m sender receiver ty data len =
     (case mk_task_slot m receiver of
        None \<Rightarrow> (False, m)
      | Some i \<Rightarrow>
          if compat_mailbox_valid m i then (False, m)
          else (True, m\<lparr>compat_mailbox := (compat_mailbox m)(i := mk_ipc_build_msg (compat_mailbox m i) sender receiver ty data len),
                        compat_mailbox_valid := (compat_mailbox_valid m)(i := True)\<rparr>))"

definition mk_ipc_receive :: "mk \<Rightarrow> u32 \<Rightarrow> bool \<Rightarrow> ipc_message option \<times> mk" where
  "mk_ipc_receive m tid out =
     (if \<not> out then (None, m)
      else
        (case mk_task_slot m tid of
           None \<Rightarrow> (None, m)
         | Some i \<Rightarrow>
             if \<not> compat_mailbox_valid m i then (None, m)
             else (Some (compat_mailbox m i), m\<lparr>compat_mailbox_valid := (compat_mailbox_valid m)(i := False)\<rparr>)))"

subsection \<open>Requests and replies\<close>

text \<open>\<open>Inr (i, tid)\<close>: the request is in port \<open>i\<close> and the caller has given up the processor.\<close>

definition mk_ipc_call :: "ipc_message \<Rightarrow> u64 \<Rightarrow> mk \<Rightarrow> sched \<Rightarrow> bool \<Rightarrow> u32 \<Rightarrow> u32 \<Rightarrow> (nat \<Rightarrow> u8) option \<Rightarrow> u32 \<Rightarrow>
    ((errno + nat \<times> u32) \<times> mk \<times> sched) option" where
  "mk_ipc_call junk now m s out pid ty data len =
     (let sender = mk_current_tid s
      in if \<not> out \<or> current_task s = None then Some (Inl EFAULT, m, s)
         else
           (case mk_port_by_id m pid of
              None \<Rightarrow> Some (Inl ENOENT, m, s)
            | Some i \<Rightarrow>
                (let p = ports m i
                 in if sender = 0 \<or> sender = owner_tid p then Some (Inl EINVAL, m, s)
                    else
                      (case sched_task_find s (owner_tid p) of
                         None \<Rightarrow> Some (Inl ENOENT, m, s)
                       | Some owner \<Rightarrow>
                           (let msg = mk_ipc_build_msg junk sender (owner_tid p) ty data len
                            in if active_client_tid p \<noteq> 0 \<or> pending_valid p \<or> reply_valid p then Some (Inl EBUSY, m, s)
                               else do {
                                 let waiter_tid = waiting_tid p;
                                 let p = p\<lparr>active_client_tid := sender, active_start_cycles := now,
                                           inline_calls := (if msg_flags msg AND IPC_MSG_FLAG_INLINE \<noteq> 0 then inline_calls p + 1 else inline_calls p),
                                           pending_msg := msg, pending_valid := True, waiting_tid := 0\<rparr>;
                                 (b, s) \<leftarrow> sched_task_donate_priority s (Some owner) (eff_prio_of s (current_task s));
                                 let s = (if waiter_tid \<noteq> 0 then sched_unblock s (Some owner) else s);
                                 s \<leftarrow> sched_block s;
                                 Some (Inr (i, sender), set_port m i p, s)
                               })))))"

definition mk_ipc_call_finish :: "mk \<Rightarrow> nat \<Rightarrow> u32 \<Rightarrow> (errno + ipc_message) \<times> mk" where
  "mk_ipc_call_finish m i sender =
     (let p = ports m i
      in if active_client_tid p \<noteq> sender \<or> \<not> reply_valid p then (Inl EAGAIN, m)
         else (Inr (reply_msg p), set_port m i (mk_ipc_reset_active p)))"

datatype ipc_wait = Ready ipc_message | Waiting nat

definition mk_ipc_wait :: "mk \<Rightarrow> sched \<Rightarrow> bool \<Rightarrow> u32 \<Rightarrow> ((errno + ipc_wait) \<times> mk \<times> sched) option" where
  "mk_ipc_wait m s out pid =
     (if \<not> out \<or> current_task s = None then Some (Inl EFAULT, m, s)
      else
        (case mk_port_by_id m pid of
           None \<Rightarrow> Some (Inl ENOENT, m, s)
         | Some i \<Rightarrow>
             (let p = ports m i
              in if mk_current_tid s \<noteq> owner_tid p then Some (Inl EPERM, m, s)
                 else if active_client_tid p \<noteq> 0 \<and> \<not> pending_valid p then Some (Inl EBUSY, m, s)
                 else if pending_valid p then Some (Inr (Ready (pending_msg p)), set_port m i (p\<lparr>pending_valid := False\<rparr>), s)
                 else do {
                   s' \<leftarrow> sched_block s;
                   Some (Inr (Waiting i), set_port m i (p\<lparr>waiting_tid := mk_current_tid s\<rparr>), s')
                 })))"

definition mk_ipc_wait_finish :: "mk \<Rightarrow> nat \<Rightarrow> (errno + ipc_message) \<times> mk" where
  "mk_ipc_wait_finish m i =
     (let p = ports m i
      in if \<not> pending_valid p then (Inl EAGAIN, m)
         else (Inr (pending_msg p), set_port m i (p\<lparr>pending_valid := False\<rparr>)))"

definition mk_ipc_poll :: "mk \<Rightarrow> sched \<Rightarrow> bool \<Rightarrow> u32 \<Rightarrow> (errno + ipc_message) \<times> mk" where
  "mk_ipc_poll m s out pid =
     (if \<not> out \<or> current_task s = None then (Inl EFAULT, m)
      else
        (case mk_port_by_id m pid of
           None \<Rightarrow> (Inl ENOENT, m)
         | Some i \<Rightarrow>
             (let p = ports m i
              in if mk_current_tid s \<noteq> owner_tid p then (Inl EPERM, m)
                 else if active_client_tid p \<noteq> 0 \<and> \<not> pending_valid p then (Inl EBUSY, m)
                 else if \<not> pending_valid p then (Inl EAGAIN, m)
                 else (Inr (pending_msg p), set_port m i (p\<lparr>pending_valid := False\<rparr>)))))"

text \<open>The statistics of a finished call.\<close>

definition account_call :: "u64 \<Rightarrow> port \<Rightarrow> port" where
  "account_call now p =
     (let elapsed = now - active_start_cycles p
      in p\<lparr>last_call_cycles := elapsed,
           worst_call_cycles := (if elapsed > worst_call_cycles p then elapsed else worst_call_cycles p),
           total_calls := total_calls p + 1,
           budget_misses := (if latency_budget_cycles p \<noteq> 0 \<and> elapsed > latency_budget_cycles p
                             then budget_misses p + 1 else budget_misses p)\<rparr>)"

definition mk_ipc_reply :: "ipc_message \<Rightarrow> u64 \<Rightarrow> mk \<Rightarrow> sched \<Rightarrow> u32 \<Rightarrow> u32 \<Rightarrow> (nat \<Rightarrow> u8) option \<Rightarrow> u32 \<Rightarrow>
    ((errno + unit) \<times> mk \<times> sched) option" where
  "mk_ipc_reply junk now m s pid ty data len =
     (if current_task s = None then Some (Inl EFAULT, m, s)
      else
        (case mk_port_by_id m pid of
           None \<Rightarrow> Some (Inl ENOENT, m, s)
         | Some i \<Rightarrow>
             (let p = ports m i; server = mk_current_tid s
              in if server \<noteq> owner_tid p then Some (Inl EPERM, m, s)
                 else if active_client_tid p = 0 \<or> reply_valid p then Some (Inl EAGAIN, m, s)
                 else do {
                   let client = active_client_tid p;
                   let p = account_call now (p\<lparr>reply_msg := mk_ipc_build_msg junk server client ty data len, reply_valid := True\<rparr>);
                   s \<leftarrow> (case sched_task_find s (owner_tid p) of None \<Rightarrow> Some s | Some owner \<Rightarrow> sched_task_clear_donation s (Some owner));
                   let s = (case sched_task_find s client of None \<Rightarrow> s | Some c \<Rightarrow> sched_unblock s (Some c));
                   Some (Inr (), set_port m i p, s)
                 })))"

subsection \<open>Ports\<close>

definition mk_port_create :: "u64 \<Rightarrow> mk \<Rightarrow> u32 \<Rightarrow> string \<Rightarrow> u32 \<times> mk" where
  "mk_port_create freq m owner nm =
     (case for_find (\<lambda>i. \<not> po_active (ports m i)) 0 MAX_PORTS of
        None \<Rightarrow> (0, m)
      | Some i \<Rightarrow>
          (let p = (ports m i)\<lparr>port_id := next_port_id m, owner_tid := owner, po_active := True, po_name := mk_strcpy TASK_NAME_LEN nm,
                 latency_budget_cycles := freq div 100, last_call_cycles := 0, worst_call_cycles := 0, total_calls := 0,
                 budget_misses := 0, inline_calls := 0, waiting_tid := 0, active_client_tid := 0, active_start_cycles := 0,
                 pending_valid := False, reply_valid := False\<rparr>
           in (port_id p, (set_port m i p)\<lparr>next_port_id := next_port_id m + 1\<rparr>)))"

definition port_busy :: "port \<Rightarrow> bool" where
  "port_busy p \<longleftrightarrow> active_client_tid p \<noteq> 0 \<or> pending_valid p \<or> reply_valid p \<or> waiting_tid p \<noteq> 0"

definition mk_port_destroy :: "mk \<Rightarrow> u32 \<Rightarrow> (errno + unit) \<times> mk" where
  "mk_port_destroy m pid =
     (case mk_port_by_id m pid of
        None \<Rightarrow> (Inl ENOENT, m)
      | Some i \<Rightarrow> if port_busy (ports m i) then (Inl EBUSY, m) else (Inr (), set_port m i ((ports m i)\<lparr>po_active := False\<rparr>)))"

definition mk_port_rebind :: "mk \<Rightarrow> u32 \<Rightarrow> u32 \<Rightarrow> (errno + unit) \<times> mk" where
  "mk_port_rebind m pid owner =
     (case mk_port_by_id m pid of
        None \<Rightarrow> (Inl ENOENT, m)
      | Some i \<Rightarrow> if port_busy (ports m i) then (Inl EBUSY, m) else (Inr (), set_port m i ((ports m i)\<lparr>owner_tid := owner\<rparr>)))"

definition mk_port_lookup :: "mk \<Rightarrow> string \<Rightarrow> nat option" where
  "mk_port_lookup m nm = for_find (\<lambda>i. po_active (ports m i) \<and> mk_strcmp (po_name (ports m i)) nm = 0) 0 MAX_PORTS"

definition mk_port_set_budget :: "mk \<Rightarrow> u32 \<Rightarrow> u64 \<Rightarrow> (errno + unit) \<times> mk" where
  "mk_port_set_budget m pid budget =
     (case mk_port_by_id m pid of
        None \<Rightarrow> (Inl ENOENT, m)
      | Some i \<Rightarrow> (Inr (), set_port m i ((ports m i)\<lparr>latency_budget_cycles := budget\<rparr>)))"

definition mk_port_get_stats :: "mk \<Rightarrow> u32 \<Rightarrow> bool \<Rightarrow> errno + port_stats" where
  "mk_port_get_stats m pid out =
     (case mk_port_by_id m pid of
        None \<Rightarrow> Inl ENOENT
      | Some i \<Rightarrow>
          if \<not> out then Inl ENOENT
          else (let p = ports m i
                in Inr \<lparr>ps_budget_cycles = latency_budget_cycles p, ps_last_call_cycles = last_call_cycles p,
                     ps_worst_call_cycles = worst_call_cycles p, ps_total_calls = total_calls p,
                     ps_budget_misses = budget_misses p, ps_inline_calls = inline_calls p\<rparr>))"

definition mk_init :: "u64 \<Rightarrow> mk \<Rightarrow> mk" where
  "mk_init freq m =
     (let m = m\<lparr>mk_tasks := (\<lambda>i. if i < MAX_TASKS then (mk_tasks m i)\<lparr>mt_state := TASK_STATE_FREE, mt_tid := 0\<rparr> else mk_tasks m i),
                compat_mailbox_valid := (\<lambda>i. if i < MAX_TASKS then False else compat_mailbox_valid m i),
                ports := (\<lambda>i. if i < MAX_PORTS then (ports m i)\<lparr>po_active := False\<rparr> else ports m i)\<rparr>;
          m = snd (mk_task_create m ''kernel'' TASK_TYPE_KERNEL 0)
      in foldl (\<lambda>m nm. snd (mk_port_create freq m 0 nm)) m [''console'', ''framebuffer'', ''memory'', ''block'', ''net'', ''vfs''])"


subsection \<open>Lookups and messages\<close>

lemma port_by_idD:
  assumes "mk_port_by_id m pid = Some i"
  shows "i < MAX_PORTS" "po_active (ports m i)" "port_id (ports m i) = pid"
  using assms by (simp_all add: mk_port_by_id_def for_find_Some)

lemma port_by_id_cong:
  "(\<And>i. po_active (ports m' i) = po_active (ports m i) \<and> port_id (ports m' i) = port_id (ports m i)) \<Longrightarrow> mk_port_by_id m' pid = mk_port_by_id m pid"
  by (simp add: mk_port_by_id_def)

lemma set_port_simps [simp]:
  "ports (set_port m i p) = (ports m)(i := p)" "set_port (set_port m i p) i q = set_port m i q" "set_port m i (ports m i) = m"
  "compat_mailbox (set_port m i p) = compat_mailbox m" "compat_mailbox_valid (set_port m i p) = compat_mailbox_valid m"
  by (simp_all add: set_port_def)

lemma set_port_by_id:
  "po_active p = po_active (ports m i) \<Longrightarrow> port_id p = port_id (ports m i) \<Longrightarrow> mk_port_by_id (set_port m i p) pid = mk_port_by_id m pid"
  by (rule port_by_id_cong) simp

lemma task_findD: "sched_task_find s pid = Some t \<Longrightarrow> t < task_count s \<and> t_pid (task_pool s t) = pid"
  by (simp add: sched_task_find_def for_find_Some)

lemma build_msg_fields [simp]:
  "sender_tid (mk_ipc_build_msg junk a b ty data len) = a" "receiver_tid (mk_ipc_build_msg junk a b ty data len) = b"
  "msg_type (mk_ipc_build_msg junk a b ty data len) = ty"
  by (simp_all add: mk_ipc_build_msg_def Let_def split: option.splits)

lemma build_msg_len: "msg_len (mk_ipc_build_msg junk a b ty data len) = min len IPC_MSG_MAX_SIZE"
  by (auto simp: mk_ipc_build_msg_def Let_def min_def IPC_MSG_MAX_SIZE_def split: option.splits)

lemma build_msg_payload:
  "payload (mk_ipc_build_msg junk a b ty (Some d) len) i = (if i < unat (min len IPC_MSG_MAX_SIZE) then d i else payload junk i)"
  by (auto simp: mk_ipc_build_msg_def Let_def mk_memcpy_def min_def word_unat_eq_iff)

subsection \<open>The protocol of a port\<close>

text \<open>
  A port is idle, or has a client with a request not yet received, being served, or answered. What a valid
  message says about its sender and receiver is part of the invariant: a reply is for the client that is active.
\<close>

definition port_ok :: "port \<Rightarrow> bool" where
  "port_ok p \<longleftrightarrow>
     (reply_valid p \<longrightarrow> active_client_tid p \<noteq> 0 \<and> receiver_tid (reply_msg p) = active_client_tid p \<and>
        sender_tid (reply_msg p) = owner_tid p \<and> msg_len (reply_msg p) \<le> IPC_MSG_MAX_SIZE) \<and>
     (pending_valid p \<longrightarrow> receiver_tid (pending_msg p) = owner_tid p \<and> msg_len (pending_msg p) \<le> IPC_MSG_MAX_SIZE \<and>
        (active_client_tid p \<noteq> 0 \<longrightarrow> sender_tid (pending_msg p) = active_client_tid p)) \<and>
     (waiting_tid p \<noteq> 0 \<longrightarrow> \<not> pending_valid p \<and> waiting_tid p = owner_tid p)"

text \<open>Where a task stands that has given up the processor inside a call or a wait.\<close>

datatype in_ipc = InCall nat u32 | InWait nat

definition mk_wf :: "mk \<Rightarrow> (nat \<Rightarrow> in_ipc option) \<Rightarrow> bool" where
  "mk_wf m fl \<longleftrightarrow> (\<forall>i. po_active (ports m i) \<longrightarrow> port_ok (ports m i)) \<and>
     (\<forall>c i t. fl c = Some (InCall i t) \<longrightarrow> po_active (ports m i) \<and> t \<noteq> 0 \<and> active_client_tid (ports m i) = t) \<and>
     (\<forall>c d i t u. fl c = Some (InCall i t) \<longrightarrow> fl d = Some (InCall i u) \<longrightarrow> c = d)"

lemma mk_wfD:
  assumes "mk_wf m fl"
  shows "po_active (ports m i) \<Longrightarrow> port_ok (ports m i)"
    "fl c = Some (InCall i t) \<Longrightarrow> po_active (ports m i)" "fl c = Some (InCall i t) \<Longrightarrow> t \<noteq> 0"
    "fl c = Some (InCall i t) \<Longrightarrow> active_client_tid (ports m i) = t"
    "fl c = Some (InCall i t) \<Longrightarrow> fl d = Some (InCall i u) \<Longrightarrow> c = d"
  using assms unfolding mk_wf_def by blast+

lemma mk_wf_set_port:
  assumes "mk_wf m fl" "po_active p \<Longrightarrow> port_ok p"
    "\<And>c t. fl c = Some (InCall i t) \<Longrightarrow> po_active p \<and> active_client_tid p = t"
  shows "mk_wf (set_port m i p) fl"
proof -
  have "po_active (ports (set_port m i p) j) \<Longrightarrow> port_ok (ports (set_port m i p) j)" for j
    using assms(2) mk_wfD(1) [OF assms(1)] by (cases "j = i") auto
  moreover have "po_active (ports (set_port m i p) j) \<and> t \<noteq> 0 \<and> active_client_tid (ports (set_port m i p) j) = t"
    if "fl c = Some (InCall j t)" for c j t
    using that assms(3) [of c t] mk_wfD(2-4) [OF assms(1) that] by simp
  ultimately show ?thesis using mk_wfD(5) [OF assms(1)] unfolding mk_wf_def by blast
qed

lemma mk_wf_fewer: "mk_wf m fl \<Longrightarrow> mk_wf m (fl(c := None))"
  by (auto simp: mk_wf_def)

lemma mk_wf_ports: "mk_wf m fl \<Longrightarrow> ports m' = ports m \<Longrightarrow> mk_wf m' fl"
  by (simp add: mk_wf_def)

lemma no_call_idle: "mk_wf m fl \<Longrightarrow> active_client_tid (ports m i) = 0 \<Longrightarrow> fl c \<noteq> Some (InCall i t)"
  using mk_wfD(3,4) by blast


subsection \<open>The scheduler under a call\<close>

lemma call_sched:
  assumes inv: "task_inv s" and c: "current_task s = Some c" "c \<noteq> IDLE_SLOT" and t: "t < task_count s" "t \<noteq> c"
  obtains s1 s' where "sched_task_donate_priority s (Some t) (eff_prio_slot s c) = Some (True, s1)"
    "sched_block (if w then sched_unblock s1 (Some t) else s1) = Some s'" "task_inv s'" "state_of s' c = TCB_BLOCKED"
    "eff_prio_slot s' t \<le> eff_prio_slot s c" "w \<longrightarrow> state_of s' t \<noteq> TCB_BLOCKED"
proof -
  obtain s1 where s1: "sched_task_donate_priority s (Some t) (eff_prio_slot s c) = Some (True, s1)"
    "task_pool s1 = task_pool s" "current_task s1 = current_task s" "task_count s1 = task_count s"
    "donated_priority s1 = (donated_priority s)(t := min (donated_priority s t) (eff_prio_slot s c))"
    by (rule donate_priority_eq [OF task_invD(1) [OF inv] t(1)])
  have i1: "task_inv s1" by (rule task_inv_sched [OF inv step_donate [OF t(1) s1(1)]])
  define s2 where "s2 = (if w then sched_unblock s1 (Some t) else s1)"
  have "sched_step s1 (sched_unblock s1 (Some t))" using t(1) by (intro step_unblock) (simp add: s1(4))
  then have i2: "task_inv s2" using i1 task_inv_sched unfolding s2_def by auto
  have c2: "current_task s2 = Some c" using s1(3) c(1) by (simp add: s2_def)
  obtain s' where s': "sched_block s2 = Some s'" "\<forall>x. state_of s' x = TCB_BLOCKED \<longleftrightarrow> x = c \<or> state_of s2 x = TCB_BLOCKED"
    "eff_prio_slot s' = eff_prio_slot s2" by (rule sched_block_state [OF task_invD(1) [OF i2] c2 c(2)])
  have i': "task_inv s'" by (rule task_inv_sched [OF i2 step_block [OF _ s'(1)]]) (use c2 c(2) in simp)
  have "eff_prio_slot (sched_unblock s1 (Some t)) = eff_prio_slot s1"
    by (simp add: fun_eq_iff eff_prio_slot_def sched_unblock_def resched_if_higher_def set_state_def set_ticks_def)
  then have "eff_prio_slot s' t = eff_prio_slot s1 t" unfolding s'(3) s2_def by simp
  also have "\<dots> \<le> eff_prio_slot s c" by (simp add: eff_prio_slot_def [of s1] s1(5) not_less)
  finally have "eff_prio_slot s' t \<le> eff_prio_slot s c" .
  moreover have "w \<longrightarrow> state_of s' t \<noteq> TCB_BLOCKED" using s'(2) t(2) by (simp add: s2_def)
  ultimately show ?thesis using that s1(1) s'(1,2) i' unfolding s2_def by blast
qed

text \<open>After the checks, a call on an idle port stores the request and blocks the caller.\<close>

lemma ipc_call_ok:
  assumes inv: "task_inv s" and c: "current_task s = Some c" "c \<noteq> IDLE_SLOT" "mk_current_tid s \<noteq> 0"
    and i: "mk_port_by_id m pid = Some i" "mk_current_tid s \<noteq> owner_tid (ports m i)" and t: "sched_task_find s (owner_tid (ports m i)) = Some t"
    and idle: "active_client_tid (ports m i) = 0" "\<not> pending_valid (ports m i)" "\<not> reply_valid (ports m i)"
  obtains n s' where "mk_ipc_call junk now m s True pid ty data len = Some (Inr (i, mk_current_tid s),
      set_port m i ((ports m i)\<lparr>active_client_tid := mk_current_tid s, active_start_cycles := now, inline_calls := n,
        pending_msg := mk_ipc_build_msg junk (mk_current_tid s) (owner_tid (ports m i)) ty data len, pending_valid := True, waiting_tid := 0\<rparr>), s')"
    "task_inv s'" "state_of s' c = TCB_BLOCKED" "eff_prio_slot s' t \<le> eff_prio_slot s c" "waiting_tid (ports m i) \<noteq> 0 \<longrightarrow> state_of s' t \<noteq> TCB_BLOCKED"
proof -
  have tt: "t < task_count s" "t_pid (task_pool s t) = owner_tid (ports m i)" using task_findD [OF t] by auto
  then have "t \<noteq> c" using i(2) c(1) by (auto simp: mk_current_tid_def)
  then obtain s1 s' where s: "sched_task_donate_priority s (Some t) (eff_prio_slot s c) = Some (True, s1)"
    "sched_block (if waiting_tid (ports m i) \<noteq> 0 then sched_unblock s1 (Some t) else s1) = Some s'" "task_inv s'" "state_of s' c = TCB_BLOCKED"
    "eff_prio_slot s' t \<le> eff_prio_slot s c" "waiting_tid (ports m i) \<noteq> 0 \<longrightarrow> state_of s' t \<noteq> TCB_BLOCKED"
    by (rule call_sched [OF inv c(1,2) tt(1)])
  show ?thesis
    by (rule that [of "if msg_flags (mk_ipc_build_msg junk (mk_current_tid s) (owner_tid (ports m i)) ty data len) AND IPC_MSG_FLAG_INLINE \<noteq> 0
        then inline_calls (ports m i) + 1 else inline_calls (ports m i)" s'])
      (use s c i(2) t idle in \<open>simp_all add: mk_ipc_call_def Let_def i(1) eff_prio_of_def\<close>)
qed


lemma ipc_call_cases:
  assumes "mk_ipc_call junk now m s out pid ty data len = Some (r, m', s')"
  obtains (error) e where "r = Inl e" "m' = m" "s' = s"
  | (blocked) i t n where "r = Inr (i, mk_current_tid s)" "out" "current_task s \<noteq> None" "mk_port_by_id m pid = Some i" "mk_current_tid s \<noteq> 0"
      "mk_current_tid s \<noteq> owner_tid (ports m i)" "sched_task_find s (owner_tid (ports m i)) = Some t"
      "active_client_tid (ports m i) = 0" "\<not> pending_valid (ports m i)" "\<not> reply_valid (ports m i)"
      "m' = set_port m i ((ports m i)\<lparr>active_client_tid := mk_current_tid s, active_start_cycles := now, inline_calls := n,
        pending_msg := mk_ipc_build_msg junk (mk_current_tid s) (owner_tid (ports m i)) ty data len, pending_valid := True, waiting_tid := 0\<rparr>)"
proof -
  define go where "go i t \<longleftrightarrow> out \<and> current_task s \<noteq> None \<and> mk_port_by_id m pid = Some i \<and> mk_current_tid s \<noteq> 0 \<and>
      mk_current_tid s \<noteq> owner_tid (ports m i) \<and> sched_task_find s (owner_tid (ports m i)) = Some t \<and>
      active_client_tid (ports m i) = 0 \<and> \<not> pending_valid (ports m i) \<and> \<not> reply_valid (ports m i)" for i t
  show ?thesis
  proof (cases "\<exists>i t. go i t")
    case True
    then obtain i t where g: "go i t" by blast
    have "r = Inr (i, mk_current_tid s)" "\<exists>n. m' = set_port m i ((ports m i)\<lparr>active_client_tid := mk_current_tid s, active_start_cycles := now, inline_calls := n,
        pending_msg := mk_ipc_build_msg junk (mk_current_tid s) (owner_tid (ports m i)) ty data len, pending_valid := True, waiting_tid := 0\<rparr>)"
      using assms g by (auto simp: go_def mk_ipc_call_def Let_def bind_eq_Some_conv)
    then show ?thesis using blocked g unfolding go_def by blast
  next
    case False
    have "\<exists>e. r = Inl e \<and> m' = m \<and> s' = s"
    proof (cases "mk_port_by_id m pid")
      case None
      then show ?thesis using assms by (auto simp: mk_ipc_call_def Let_def split: if_splits)
    next
      case (Some i)
      then show ?thesis
        using assms False by (cases "sched_task_find s (owner_tid (ports m i))") (auto simp: go_def mk_ipc_call_def Let_def split: if_splits)
    qed
    then show ?thesis using error by blast
  qed
qed


subsection \<open>Operations keep the protocol\<close>

lemma mk_wf_enter:
  assumes "mk_wf m fl" "po_active (ports m i)" "active_client_tid (ports m i) = t" "t \<noteq> 0" "\<And>d u. fl d \<noteq> Some (InCall i u)"
  shows "mk_wf m (fl(c \<mapsto> InCall i t))"
  using assms unfolding mk_wf_def by (auto split: if_splits)

lemma mk_wf_wait: "mk_wf m fl \<Longrightarrow> mk_wf m (fl(c \<mapsto> InWait i))"
  by (auto simp: mk_wf_def)

lemma ipc_call_wf:
  assumes "mk_wf m fl" "mk_ipc_call junk now m s out pid ty data len = Some (Inr (i, t), m', s')"
  shows "mk_wf m' (fl(c \<mapsto> InCall i t))"
  using assms(2)
proof (cases rule: ipc_call_cases)
  case (blocked j u n)
  then have e: "j = i" "t = mk_current_tid s" by auto
  note b = blocked(4-11) [unfolded e]
  have none: "fl d \<noteq> Some (InCall i u)" for d u by (rule no_call_idle [OF assms(1) b(5)])
  have "mk_wf m' fl" unfolding b(8)
    by (rule mk_wf_set_port [OF assms(1)]) (use none b(6,7) in \<open>auto simp: port_ok_def build_msg_len\<close>)
  then show ?thesis
    by (rule mk_wf_enter) (use none port_by_idD(2) [OF b(1)] b(2) in \<open>auto simp: b(8) e\<close>)
qed simp

lemma ipc_finish_wf:
  assumes "mk_wf m fl" "fl c = Some (InCall i t)" "mk_ipc_call_finish m i t = (r, m')"
  shows "mk_wf m' (fl(c := None))"
proof (cases "active_client_tid (ports m i) \<noteq> t \<or> \<not> reply_valid (ports m i)")
  case True
  then show ?thesis using assms(1,3) mk_wf_fewer by (auto simp: mk_ipc_call_finish_def Let_def)
next
  case False
  then have m': "m' = set_port m i (mk_ipc_reset_active (ports m i))" using assms(3) by (auto simp: mk_ipc_call_finish_def Let_def)
  have ok: "port_ok (ports m i)" using mk_wfD(1,2) [OF assms(1)] assms(2) by blast
  show ?thesis unfolding m'
  proof (rule mk_wf_set_port [OF mk_wf_fewer [OF assms(1)]])
    show "port_ok (mk_ipc_reset_active (ports m i))" using ok by (auto simp: port_ok_def mk_ipc_reset_active_def)
    show "po_active (mk_ipc_reset_active (ports m i)) \<and> active_client_tid (mk_ipc_reset_active (ports m i)) = u"
      if "(fl(c := None)) d = Some (InCall i u)" for d u
      using that mk_wfD(5) [OF assms(1,2), of d u] by (auto split: if_splits)
  qed
qed

lemma take_pending_wf: "mk_wf m fl \<Longrightarrow> mk_wf (set_port m i ((ports m i)\<lparr>pending_valid := False\<rparr>)) fl"
proof (rule mk_wf_set_port)
  assume wf: "mk_wf m fl"
  show "port_ok ((ports m i)\<lparr>pending_valid := False\<rparr>)" if "po_active ((ports m i)\<lparr>pending_valid := False\<rparr>)"
    using that mk_wfD(1) [OF wf, of i] by (simp add: port_ok_def)
  show "po_active ((ports m i)\<lparr>pending_valid := False\<rparr>) \<and> active_client_tid ((ports m i)\<lparr>pending_valid := False\<rparr>) = t"
    if "fl c = Some (InCall i t)" for c t using mk_wfD(2,4) [OF wf that] by simp
qed

lemma ipc_wait_cases:
  assumes "mk_ipc_wait m s out pid = Some (r, m', s')"
  obtains (error) e where "r = Inl e" "m' = m" "s' = s"
  | (ready) i where "r = Inr (Ready (pending_msg (ports m i)))" "pending_valid (ports m i)" "m' = set_port m i ((ports m i)\<lparr>pending_valid := False\<rparr>)" "s' = s"
  | (waits) i where "r = Inr (Waiting i)" "\<not> pending_valid (ports m i)" "mk_current_tid s = owner_tid (ports m i)" "active_client_tid (ports m i) = 0"
      "m' = set_port m i ((ports m i)\<lparr>waiting_tid := mk_current_tid s\<rparr>)" "sched_block s = Some s'"
proof (cases "mk_port_by_id m pid")
  case None
  then show ?thesis using assms error by (auto simp: mk_ipc_wait_def split: if_splits)
next
  case (Some i)
  let ?p = "ports m i"
  note d = assms [unfolded mk_ipc_wait_def Some option.case Let_def]
  show ?thesis
  proof (cases "\<not> out \<or> current_task s = None \<or> mk_current_tid s \<noteq> owner_tid ?p \<or> active_client_tid ?p \<noteq> 0 \<and> \<not> pending_valid ?p")
    case True
    then have "\<exists>e. r = Inl e \<and> m' = m \<and> s' = s" using d by (auto split: if_splits)
    then show ?thesis using error by blast
  next
    case ok: False
    then obtain y where y: "current_task s = Some y" by auto
    show ?thesis
    proof (cases "pending_valid ?p")
      case True
      then have "r = Inr (Ready (pending_msg ?p))" "m' = set_port m i (?p\<lparr>pending_valid := False\<rparr>)" "s' = s" using ok d y by simp_all
      then show ?thesis using ready True by blast
    next
      case False
      then have "r = Inr (Waiting i)" "m' = set_port m i (?p\<lparr>waiting_tid := mk_current_tid s\<rparr>)" "sched_block s = Some s'"
        using ok d y by (simp_all add: bind_eq_Some_conv)
      then show ?thesis using waits False ok by blast
    qed
  qed
qed

lemma set_waiting_wf:
  assumes wf: "mk_wf m fl" and p: "\<not> pending_valid (ports m i)" and t: "t = owner_tid (ports m i)"
  shows "mk_wf (set_port m i ((ports m i)\<lparr>waiting_tid := t\<rparr>)) fl"
proof (rule mk_wf_set_port [OF wf])
  show "port_ok ((ports m i)\<lparr>waiting_tid := t\<rparr>)" if "po_active ((ports m i)\<lparr>waiting_tid := t\<rparr>)"
    using that p t mk_wfD(1) [OF wf, of i] by (simp add: port_ok_def)
  show "po_active ((ports m i)\<lparr>waiting_tid := t\<rparr>) \<and> active_client_tid ((ports m i)\<lparr>waiting_tid := t\<rparr>) = u"
    if "fl c = Some (InCall i u)" for c u using mk_wfD(2,4) [OF wf that] by simp
qed

lemma account_call_fields [simp]:
  "po_active (account_call now p) = po_active p" "active_client_tid (account_call now p) = active_client_tid p"
  "port_id (account_call now p) = port_id p" "owner_tid (account_call now p) = owner_tid p" "reply_valid (account_call now p) = reply_valid p"
  "reply_msg (account_call now p) = reply_msg p" "pending_valid (account_call now p) = pending_valid p" "pending_msg (account_call now p) = pending_msg p"
  "waiting_tid (account_call now p) = waiting_tid p" "port_ok (account_call now p) = port_ok p"
  by (simp_all add: account_call_def Let_def port_ok_def)

lemma ipc_reply_cases:
  assumes "mk_ipc_reply junk now m s pid ty data len = Some (r, m', s')"
  obtains (error) e where "r = Inl e" "m' = m" "s' = s"
  | (sent) i s1 where "r = Inr ()" "mk_port_by_id m pid = Some i" "mk_current_tid s = owner_tid (ports m i)" "active_client_tid (ports m i) \<noteq> 0" "\<not> reply_valid (ports m i)"
      "m' = set_port m i (account_call now ((ports m i)\<lparr>reply_msg := mk_ipc_build_msg junk (mk_current_tid s) (active_client_tid (ports m i)) ty data len, reply_valid := True\<rparr>))"
      "(case sched_task_find s (owner_tid (ports m i)) of None \<Rightarrow> Some s | Some owner \<Rightarrow> sched_task_clear_donation s (Some owner)) = Some s1"
      "s' = (case sched_task_find s1 (active_client_tid (ports m i)) of None \<Rightarrow> s1 | Some c \<Rightarrow> sched_unblock s1 (Some c))"
proof (cases "mk_port_by_id m pid")
  case None
  then show ?thesis using assms error by (auto simp: mk_ipc_reply_def split: if_splits)
next
  case (Some i)
  let ?p = "ports m i"
  note d = assms [unfolded mk_ipc_reply_def Some option.case Let_def]
  show ?thesis
  proof (cases "current_task s = None \<or> mk_current_tid s \<noteq> owner_tid ?p \<or> active_client_tid ?p = 0 \<or> reply_valid ?p")
    case True
    then have "\<exists>e. r = Inl e \<and> m' = m \<and> s' = s" using d by (auto split: if_splits)
    then show ?thesis using error by blast
  next
    case False
    then obtain y where "current_task s = Some y" by auto
    then have "\<exists>s1. (case sched_task_find s (owner_tid ?p) of None \<Rightarrow> Some s | Some owner \<Rightarrow> sched_task_clear_donation s (Some owner)) = Some s1 \<and>
      r = Inr () \<and> m' = set_port m i (account_call now (?p\<lparr>reply_msg := mk_ipc_build_msg junk (mk_current_tid s) (active_client_tid ?p) ty data len, reply_valid := True\<rparr>)) \<and>
      s' = (case sched_task_find s1 (active_client_tid ?p) of None \<Rightarrow> s1 | Some c \<Rightarrow> sched_unblock s1 (Some c))"
      using d False by (auto simp: bind_eq_Some_conv)
    then show ?thesis using sent [OF _ Some] False by blast
  qed
qed

lemma ipc_reply_wf:
  assumes wf: "mk_wf m fl" and r: "mk_ipc_reply junk now m s pid ty data len = Some (r, m', s')"
  shows "mk_wf m' fl"
  using r
proof (cases rule: ipc_reply_cases)
  case (sent i s1)
  have ok: "port_ok (ports m i)" by (rule mk_wfD(1) [OF wf port_by_idD(2) [OF sent(2)]])
  show ?thesis unfolding sent(6)
    by (rule mk_wf_set_port [OF wf]) (use ok sent(3,4) mk_wfD(2,4) [OF wf] in \<open>auto simp: port_ok_def build_msg_len\<close>)
qed (use wf in simp)


lemma port_create_wf:
  assumes wf: "mk_wf m fl" and cr: "mk_port_create freq m owner nm = (r, m')" shows "mk_wf m' fl"
proof (cases "for_find (\<lambda>i. \<not> po_active (ports m i)) 0 MAX_PORTS")
  case None
  then show ?thesis using wf cr by (simp add: mk_port_create_def)
next
  case (Some i)
  then have na: "\<not> po_active (ports m i)" by (simp add: for_find_Some)
  define p where "p = (ports m i)\<lparr>port_id := next_port_id m, owner_tid := owner, po_active := True, po_name := mk_strcpy TASK_NAME_LEN nm,
     latency_budget_cycles := freq div 100, last_call_cycles := 0, worst_call_cycles := 0, total_calls := 0,
     budget_misses := 0, inline_calls := 0, waiting_tid := 0, active_client_tid := 0, active_start_cycles := 0,
     pending_valid := False, reply_valid := False\<rparr>"
  have "mk_wf (set_port m i p) fl"
    by (rule mk_wf_set_port [OF wf]) (use na mk_wfD(2) [OF wf, of _ i] in \<open>auto simp: p_def port_ok_def\<close>)
  moreover have "m' = (set_port m i p)\<lparr>next_port_id := next_port_id m + 1\<rparr>" using cr Some by (auto simp: mk_port_create_def Let_def p_def)
  ultimately show ?thesis using mk_wf_ports [of "set_port m i p" fl m'] by simp
qed

lemma idle_port_wf:
  assumes wf: "mk_wf m fl" and idle: "\<not> port_busy (ports m i)"
    and p: "active_client_tid p = 0" "\<not> pending_valid p" "\<not> reply_valid p" "waiting_tid p = 0"
  shows "mk_wf (set_port m i p) fl"
proof (rule mk_wf_set_port [OF wf])
  show "port_ok p" using p by (simp add: port_ok_def)
  show "po_active p \<and> active_client_tid p = t" if "fl c = Some (InCall i t)" for c t
    using that idle no_call_idle [OF wf] by (simp add: port_busy_def)
qed

lemma port_destroy_wf: "mk_wf m fl \<Longrightarrow> mk_port_destroy m pid = (r, m') \<Longrightarrow> mk_wf m' fl"
  by (auto simp: mk_port_destroy_def port_busy_def split: option.splits if_splits intro!: idle_port_wf)

lemma port_rebind_wf: "mk_wf m fl \<Longrightarrow> mk_port_rebind m pid owner = (r, m') \<Longrightarrow> mk_wf m' fl"
  by (auto simp: mk_port_rebind_def port_busy_def split: option.splits if_splits intro!: idle_port_wf)

lemma port_budget_wf:
  assumes wf: "mk_wf m fl" and b: "mk_port_set_budget m pid budget = (r, m')" shows "mk_wf m' fl"
proof (cases "mk_port_by_id m pid")
  case (Some i)
  then have m': "m' = set_port m i ((ports m i)\<lparr>latency_budget_cycles := budget\<rparr>)" using b by (simp add: mk_port_set_budget_def)
  show ?thesis unfolding m'
    by (rule mk_wf_set_port [OF wf]) (use mk_wfD(1) [OF wf, of i] mk_wfD(2,4) [OF wf, of _ i] in \<open>auto simp: port_ok_def\<close>)
qed (use wf b in \<open>simp add: mk_port_set_budget_def\<close>)

lemma mailbox_ports:
  "mk_ipc_send m a b ty data len = (r, m') \<Longrightarrow> ports m' = ports m" "mk_ipc_receive m tid out = (r', m') \<Longrightarrow> ports m' = ports m"
  "mk_task_create m nm tt entry = (r'', m') \<Longrightarrow> ports m' = ports m" "ports (mk_task_destroy m tid) = ports m"
  by (auto simp: mk_ipc_send_def mk_ipc_receive_def mk_task_create_def mk_task_destroy_def split: option.splits if_splits)

subsection \<open>The system\<close>

text \<open>
  All interleavings: message operations of the running task, the second half of a call or wait when its task runs again (for whatever
  reason it was woken), a client that dies inside its call, port management, mailboxes, and every step of the scheduler and of the
  process layer.
\<close>

inductive ipc_step :: "mk \<times> sched \<times> (nat \<Rightarrow> in_ipc option) \<Rightarrow> mk \<times> sched \<times> (nat \<Rightarrow> in_ipc option) \<Rightarrow> bool" where
  call: "current_task s = Some c \<Longrightarrow> c \<noteq> IDLE_SLOT \<Longrightarrow> fl c = None \<Longrightarrow> mk_ipc_call junk now m s out pid ty data len = Some (Inr (i, t), m', s') \<Longrightarrow>
    ipc_step (m, s, fl) (m', s', fl(c \<mapsto> InCall i t))"
| call_error: "mk_ipc_call junk now m s out pid ty data len = Some (Inl e, m', s') \<Longrightarrow> ipc_step (m, s, fl) (m', s', fl)"
| call_finish: "current_task s = Some c \<Longrightarrow> fl c = Some (InCall i t) \<Longrightarrow> mk_ipc_call_finish m i t = (r, m') \<Longrightarrow>
    ipc_step (m, s, fl) (m', s, fl(c := None))"
| killed: "state_of s c = TCB_ZOMBIE \<Longrightarrow> ipc_step (m, s, fl) (m, s, fl(c := None))"
| wait: "current_task s = Some c \<Longrightarrow> c \<noteq> IDLE_SLOT \<Longrightarrow> fl c = None \<Longrightarrow> mk_ipc_wait m s out pid = Some (r, m', s') \<Longrightarrow>
    ipc_step (m, s, fl) (m', s', case r of Inr (Waiting i) \<Rightarrow> fl(c \<mapsto> InWait i) | _ \<Rightarrow> fl)"
| wait_finish: "current_task s = Some c \<Longrightarrow> fl c = Some (InWait i) \<Longrightarrow> mk_ipc_wait_finish m i = (q, m') \<Longrightarrow> ipc_step (m, s, fl) (m', s, fl(c := None))"
| poll: "mk_ipc_poll m s out pid = (q, m') \<Longrightarrow> ipc_step (m, s, fl) (m', s, fl)"
| reply: "mk_ipc_reply junk now m s pid ty data len = Some (r', m', s') \<Longrightarrow> ipc_step (m, s, fl) (m', s', fl)"
| create: "mk_port_create freq m owner nm = (id', m') \<Longrightarrow> ipc_step (m, s, fl) (m', s, fl)"
| destroy: "mk_port_destroy m pid = (r', m') \<Longrightarrow> ipc_step (m, s, fl) (m', s, fl)"
| rebind: "mk_port_rebind m pid owner = (r', m') \<Longrightarrow> ipc_step (m, s, fl) (m', s, fl)"
| budget: "mk_port_set_budget m pid cycles = (r', m') \<Longrightarrow> ipc_step (m, s, fl) (m', s, fl)"
| send: "mk_ipc_send m from to ty data len = (b, m') \<Longrightarrow> ipc_step (m, s, fl) (m', s, fl)"
| receive: "mk_ipc_receive m tid out = (msg, m') \<Longrightarrow> ipc_step (m, s, fl) (m', s, fl)"
| task_new: "mk_task_create m nm tt entry = (slot, m') \<Longrightarrow> ipc_step (m, s, fl) (m', s, fl)"
| task_end: "ipc_step (m, s, fl) (mk_task_destroy m tid, s, fl)"
| process: "task_step s s' \<Longrightarrow> ipc_step (m, s, fl) (m, s', fl)"

definition ipc_inv :: "mk \<times> sched \<times> (nat \<Rightarrow> in_ipc option) \<Rightarrow> bool" where
  "ipc_inv x = (case x of (m, s, fl) \<Rightarrow> task_inv s \<and> mk_wf m fl)"

lemma ipc_reply_sched:
  assumes "task_inv s" "mk_ipc_reply junk now m s pid ty data len = Some (r, m', s')" shows "task_inv s'"
  using assms(2)
proof (cases rule: ipc_reply_cases)
  case (sent i s1)
  have i1: "task_inv s1"
  proof (cases "sched_task_find s (owner_tid (ports m i))")
    case None
    then show ?thesis using sent(7) assms(1) by simp
  next
    case (Some t)
    then have "sched_step s s1" using sent(7) task_findD [OF Some] by (intro step_clear) auto
    then show ?thesis by (rule task_inv_sched [OF assms(1)])
  qed
  show ?thesis
  proof (cases "sched_task_find s1 (active_client_tid (ports m i))")
    case None
    then show ?thesis using sent(8) i1 by simp
  next
    case (Some t)
    then have "sched_step s1 s'" unfolding sent(8) using task_findD [OF Some] by (auto intro: step_unblock)
    then show ?thesis by (rule task_inv_sched [OF i1])
  qed
qed (use assms(1) in simp)


lemma poll_cases: "mk_ipc_poll m s out pid = (q, m') \<Longrightarrow> m' = m \<or> (\<exists>i. m' = set_port m i ((ports m i)\<lparr>pending_valid := False\<rparr>))"
  by (auto simp: mk_ipc_poll_def Let_def split: option.splits if_splits)

lemma wait_finish_cases: "mk_ipc_wait_finish m i = (q, m') \<Longrightarrow> m' = m \<or> m' = set_port m i ((ports m i)\<lparr>pending_valid := False\<rparr>)"
  by (auto simp: mk_ipc_wait_finish_def Let_def split: if_splits)

lemma ipc_wait_wf:
  assumes wf: "mk_wf m fl" and w: "mk_ipc_wait m s out pid = Some (r, m', s')"
  shows "mk_wf m' (case r of Inr (Waiting i) \<Rightarrow> fl(c \<mapsto> InWait i) | _ \<Rightarrow> fl)"
  using w
proof (cases rule: ipc_wait_cases)
  case (ready i)
  then show ?thesis using take_pending_wf [OF wf, of i] by simp
next
  case (waits i)
  then show ?thesis using mk_wf_wait [OF set_waiting_wf [OF wf waits(2) refl]] by simp
qed (use wf in simp)

lemma ipc_wait_sched:
  assumes "task_inv s" "current_task s = Some c" "c \<noteq> IDLE_SLOT" "mk_ipc_wait m s out pid = Some (r, m', s')" shows "task_inv s'"
  using assms(4)
proof (cases rule: ipc_wait_cases)
  case (waits i)
  show ?thesis by (rule task_inv_sched [OF assms(1) step_block [OF _ waits(6)]]) (use assms(2,3) in simp)
qed (use assms(1) in simp_all)

lemma ipc_call_sched:
  assumes "task_inv s" "current_task s = Some c" "c \<noteq> IDLE_SLOT" "mk_ipc_call junk now m s out pid ty data len = Some (Inr (i, t), m', s')"
  shows "task_inv s'"
  using assms(4)
proof (cases rule: ipc_call_cases)
  case (blocked j u n)
  obtain n' s'' where "mk_ipc_call junk now m s True pid ty data len = Some (Inr (j, mk_current_tid s),
      set_port m j ((ports m j)\<lparr>active_client_tid := mk_current_tid s, active_start_cycles := now, inline_calls := n',
        pending_msg := mk_ipc_build_msg junk (mk_current_tid s) (owner_tid (ports m j)) ty data len, pending_valid := True, waiting_tid := 0\<rparr>), s'')"
    "task_inv s''" by (rule ipc_call_ok [OF assms(1-3) blocked(5,4,6,7,8,9,10)])
  then show ?thesis using assms(4) blocked(2) by simp
qed simp

lemma ipc_step_inv:
  assumes "ipc_inv x" "ipc_step x y" shows "ipc_inv y"
  using assms(2)
proof cases
  case (call s c fl junk now m out pid ty data len i t m' s')
  then have "task_inv s" "mk_wf m fl" using assms(1) by (simp_all add: ipc_inv_def)
  then show ?thesis using ipc_call_sched [OF _ call(3,4,6)] ipc_call_wf [OF _ call(6)] call(2) by (simp add: ipc_inv_def)
next
  case (call_error junk now m s out pid ty data len e m' s' fl)
  then have "m' = m" "s' = s" by (auto elim: ipc_call_cases)
  then show ?thesis using assms(1) call_error by simp
next
  case (call_finish s c fl i t m r m')
  then show ?thesis using assms(1) ipc_finish_wf [of m fl c i t r m'] by (simp add: ipc_inv_def)
next
  case (wait s c fl m out pid r m' s')
  then have "task_inv s" "mk_wf m fl" using assms(1) by (simp_all add: ipc_inv_def)
  then show ?thesis using ipc_wait_sched [OF _ wait(3,4,6)] ipc_wait_wf [OF _ wait(6)] wait(2) by (simp add: ipc_inv_def)
next
  case (wait_finish s c fl i m q m')
  have "mk_wf m fl" "task_inv s" using assms(1) wait_finish(1) by (simp_all add: ipc_inv_def)
  then show ?thesis using wait_finish_cases [OF wait_finish(5)] take_pending_wf mk_wf_fewer wait_finish(2) by (auto simp: ipc_inv_def)
next
  case (poll m s out pid q m' fl)
  have "mk_wf m fl" "task_inv s" using assms(1) poll(1) by (simp_all add: ipc_inv_def)
  then show ?thesis using poll_cases [OF poll(3)] take_pending_wf poll(2) by (auto simp: ipc_inv_def)
next
  case (reply junk now m s pid ty data len r' m' s' fl)
  then show ?thesis using assms(1) ipc_reply_sched [OF _ reply(3)] ipc_reply_wf [OF _ reply(3)] by (simp add: ipc_inv_def)
next
  case (create freq m owner nm id' m' s fl)
  then show ?thesis using assms(1) port_create_wf [OF _ create(3)] by (simp add: ipc_inv_def)
next
  case (destroy m pid r' m' s fl)
  then show ?thesis using assms(1) port_destroy_wf [OF _ destroy(3)] by (simp add: ipc_inv_def)
next
  case (rebind m pid owner r' m' s fl)
  then show ?thesis using assms(1) port_rebind_wf [OF _ rebind(3)] by (simp add: ipc_inv_def)
next
  case (budget m pid cycles r' m' s fl)
  then show ?thesis using assms(1) port_budget_wf [OF _ budget(3)] by (simp add: ipc_inv_def)
next
  case (process s s' m fl)
  then show ?thesis using assms(1) task_step_inv [OF _ process(3)] by (simp add: ipc_inv_def)
qed (use assms(1) in \<open>auto simp: ipc_inv_def mk_wf_fewer mailbox_ports(4) intro: mk_wf_ports dest: mailbox_ports(1-3)\<close>)

interpretation ipcsys: invariant_system ipc_step ipc_inv
  by unfold_locales (rule ipc_step_inv)

text \<open>The reply gives the donated priority back.\<close>

lemma clear_owner_donation:
  assumes "task_inv s"
  shows "\<exists>s'. (case sched_task_find s o' of None \<Rightarrow> Some s | Some owner \<Rightarrow> sched_task_clear_donation s (Some owner)) = Some s' \<and>
    (\<forall>tid. sched_task_find s' tid = sched_task_find s tid)"
proof (cases "sched_task_find s o'")
  case (Some t)
  then obtain s' where "sched_task_clear_donation s (Some t) = Some s'" "task_pool s' = task_pool s" "task_count s' = task_count s"
    using clear_donation_eq [OF task_invD(1) [OF assms]] task_findD by metis
  then show ?thesis using Some by (simp add: sched_task_find_def)
qed simp

text \<open>The owner's reply, and the client that comes back for it.\<close>

lemma reply_finish:
  assumes s: "task_inv s" and own: "mk_current_tid s = owner_tid (ports m i)" and id: "mk_port_by_id m pid = Some i"
    and p: "active_client_tid (ports m i) = tid" "tid \<noteq> 0" "\<not> reply_valid (ports m i)" "\<not> pending_valid (ports m i)" "waiting_tid (ports m i) = 0"
  shows "\<exists>m3 s4 rep m4. mk_ipc_reply junk now m s pid ty (Some d) len = Some (Inr (), m3, s4) \<and>
    (\<forall>x. sched_task_find s tid = Some x \<longrightarrow> state_of s4 x \<noteq> TCB_BLOCKED) \<and> mk_ipc_call_finish m3 i tid = (Inr rep, m4) \<and>
    sender_tid rep = owner_tid (ports m i) \<and> msg_type rep = ty \<and> msg_len rep = min len 256 \<and> (\<forall>k < unat (min len 256). payload rep k = d k) \<and>
    \<not> port_busy (ports m4 i) \<and> owner_tid (ports m4 i) = owner_tid (ports m i) \<and> total_calls (ports m4 i) = total_calls (ports m i) + 1"
proof -
  define rep where "rep = mk_ipc_build_msg junk (owner_tid (ports m i)) tid ty (Some d) len"
  define p3 where "p3 = account_call now ((ports m i)\<lparr>reply_msg := rep, reply_valid := True\<rparr>)"
  obtain c where c: "current_task s = Some c" using task_invD(1) [OF s] by (auto simp: sched_inv_def)
  obtain s5 where s5: "(case sched_task_find s (owner_tid (ports m i)) of None \<Rightarrow> Some s | Some owner \<Rightarrow> sched_task_clear_donation s (Some owner)) = Some s5"
    "sched_task_find s5 tid = sched_task_find s tid" using clear_owner_donation [OF s] by blast
  define s4 where "s4 = (case sched_task_find s5 tid of None \<Rightarrow> s5 | Some c \<Rightarrow> sched_unblock s5 (Some c))"
  have "mk_ipc_reply junk now m s pid ty (Some d) len = Some (Inr (), set_port m i p3, s4)"
    using s5(1) by (simp add: mk_ipc_reply_def Let_def id c own p p3_def rep_def s4_def)
  moreover have "\<forall>x. sched_task_find s tid = Some x \<longrightarrow> state_of s4 x \<noteq> TCB_BLOCKED" using s5(2) by (simp add: s4_def)
  moreover have "mk_ipc_call_finish (set_port m i p3) i tid = (Inr rep, set_port m i (mk_ipc_reset_active p3))"
    by (simp add: mk_ipc_call_finish_def Let_def p3_def p)
  moreover have "\<not> port_busy (mk_ipc_reset_active p3)" "owner_tid (mk_ipc_reset_active p3) = owner_tid (ports m i)"
    "total_calls (mk_ipc_reset_active p3) = total_calls (ports m i) + 1"
    using p by (simp_all add: port_busy_def mk_ipc_reset_active_def p3_def account_call_def Let_def)
  moreover have "sender_tid rep = owner_tid (ports m i)" "msg_type rep = ty" "msg_len rep = min len 256" "\<forall>k < unat (min len 256). payload rep k = d k"
    by (simp_all add: rep_def build_msg_len build_msg_payload IPC_MSG_MAX_SIZE_def)
  moreover have "ports (set_port m i (mk_ipc_reset_active p3)) i = mk_ipc_reset_active p3" by simp
  ultimately show ?thesis by metis
qed

subsection \<open>Boot\<close>

definition mk_bss :: mk where
  "mk_bss =
     (let msg = \<lparr>sender_tid = 0, receiver_tid = 0, msg_type = 0, msg_len = 0, msg_flags = 0, msg_reserved = 0, payload = (\<lambda>_. 0)\<rparr>
      in \<lparr>mk_tasks = (\<lambda>_. \<lparr>mt_tid = 0, mt_name = [], mt_state = TASK_STATE_FREE, mt_type = TASK_TYPE_KERNEL, mt_stack_ptr = 0, mt_entry_point = 0\<rparr>),
          next_tid = 1,
          ports = (\<lambda>_. \<lparr>port_id = 0, owner_tid = 0, po_active = False, po_name = [], latency_budget_cycles = 0, last_call_cycles = 0,
                        worst_call_cycles = 0, total_calls = 0, budget_misses = 0, inline_calls = 0, waiting_tid = 0,
                        active_client_tid = 0, active_start_cycles = 0, pending_valid = False, reply_valid = False,
                        pending_msg = msg, reply_msg = msg\<rparr>),
          next_port_id = 1,
          compat_mailbox = (\<lambda>_. msg),
          compat_mailbox_valid = (\<lambda>_. False)\<rparr>)"

lemma mk_init_wf: "mk_wf (mk_init freq mk_bss) (\<lambda>_. None)"
proof -
  have creates: "mk_wf (foldl (\<lambda>m nm. snd (mk_port_create freq m 0 nm)) m ns) fl" if "mk_wf m fl" for m ns fl
    using that
  proof (induction ns arbitrary: m)
    case (Cons n ns)
    then show ?case using port_create_wf [OF Cons.prems, of freq 0 n] by (simp add: prod_eq_iff)
  qed simp
  have "mk_wf (snd (mk_task_create m nm ty e)) (\<lambda>_. None)" if "\<forall>i. \<not> po_active (ports m i)" for m nm ty e
    using that mailbox_ports(3) [of m nm ty e] by (simp add: mk_wf_def prod_eq_iff)
  then show ?thesis unfolding mk_init_def Let_def by (intro creates) (simp add: mk_bss_def Let_def)
qed

text \<open>One port with number 1, owned by the boot task.\<close>

definition mk_demo :: mk where
  "mk_demo = snd (mk_port_create 0 mk_bss 0 ''a'')"

lemma mk_demo_port:
  "mk_port_by_id mk_demo 1 = Some 0" "owner_tid (ports mk_demo 0) = 0" "active_client_tid (ports mk_demo 0) = 0"
  "\<not> pending_valid (ports mk_demo 0)" "\<not> reply_valid (ports mk_demo 0)" "po_active (ports mk_demo i) = (i = 0)"
  "waiting_tid (ports mk_demo 0) = 0"
proof -
  have "for_find (\<lambda>i. \<not> po_active (ports mk_bss i)) 0 MAX_PORTS = Some 0" by (simp add: for_find_Some mk_bss_def Let_def MAX_PORTS_def)
  then have m: "mk_demo = snd (case Some 0 of None \<Rightarrow> (0, mk_bss) | Some i \<Rightarrow> (let p = (ports mk_bss i)\<lparr>port_id := next_port_id mk_bss, owner_tid := 0, po_active := True, po_name := mk_strcpy TASK_NAME_LEN ''a'',
                 latency_budget_cycles := 0 div 100, last_call_cycles := 0, worst_call_cycles := 0, total_calls := 0,
                 budget_misses := 0, inline_calls := 0, waiting_tid := 0, active_client_tid := 0, active_start_cycles := 0,
                 pending_valid := False, reply_valid := False\<rparr>
           in (port_id p, (set_port mk_bss i p)\<lparr>next_port_id := next_port_id mk_bss + 1\<rparr>)))" by (simp add: mk_demo_def mk_port_create_def)
  show "mk_port_by_id mk_demo 1 = Some 0" by (simp add: m Let_def mk_port_by_id_def for_find_Some MAX_PORTS_def) (simp add: mk_bss_def Let_def)
  show "owner_tid (ports mk_demo 0) = 0" "active_client_tid (ports mk_demo 0) = 0"
    "\<not> pending_valid (ports mk_demo 0)" "\<not> reply_valid (ports mk_demo 0)" "waiting_tid (ports mk_demo 0) = 0" by (simp_all add: m Let_def)
  show "po_active (ports mk_demo i) = (i = 0)" by (simp add: m Let_def) (simp add: mk_bss_def Let_def)
qed

text \<open>A user task with pid 2, forked from the boot task, that has the processor.\<close>

lemma client_demo:
  obtains s where "task_inv s" "current_task s = Some 2" "mk_current_tid s = 2" "sched_task_find s 0 = Some 0"
proof -
  obtain s0 where s0: "task_inv s0" "task_count s0 = 2" "current_task s0 = Some 0" "\<exists>j < SCHED_MAX_TASKS. \<not> p_in_use (proc_ctx s0 j)"
    by (rule sched_init_inv) (auto simp: task_inv_def)
  obtain t s1 where f: "sched_task_fork_user s0 0 ''sh'' (Some 5) (Some zero_frame) 128 = Some (t, s1)"
    using fork_total [of s0 _ 0 "''sh''" 5 zero_frame 128] s0(2,4) unfolding SCHED_MAX_TASKS_def by fastforce
  obtain a where a: "spawned s0 t a" "s1 = resched_if_higher (rq_push a t) t" using fork_user_spawned [OF f] by blast
  have s1: "task_count s1 = 3" "current_task s1 = Some 0" "state_of s1 2 = TCB_READY" "task_inv s1"
    using a s0(2,3) task_step_inv [OF s0(1) task_step.fork [OF f]] by (auto simp: spawned_def allocated_def)
  obtain s2 where s2: "sched_block s1 = Some s2" "sched_inv s2" "proc_same s1 s2" "current_task s2 \<noteq> Some 0"
    "\<forall>t. state_of s2 t = TCB_BLOCKED \<longleftrightarrow> t = 0 \<or> state_of s1 t = TCB_BLOCKED"
    by (rule sched_block_state [OF task_invD(1) [OF s1(4)] s1(2)]) (auto simp: IDLE_SLOT_def)
  have i2: "task_inv s2" by (rule task_inv_sched [OF s1(4) step_block [OF _ s2(1)]]) (use s1(2) in \<open>simp add: IDLE_SLOT_def\<close>)
  note result = that
  have ok: thesis if "task_inv s" "current_task s = Some 2" for s
  proof (rule result [OF that])
    have t: "2 < task_count s" by (rule sched_inv_current(1) [OF task_invD(1) [OF that(1)] that(2)])
    then have pid: "t_pid (task_pool s t) = word_of_nat t" if "t \<le> 2" for t
      using that task_invD(2) [OF \<open>task_inv s\<close>] by (simp add: proc_inv_def)
    show "mk_current_tid s = 2" using pid [of 2] that(2) by (simp add: mk_current_tid_def)
    show "sched_task_find s 0 = Some 0" using pid [of 0] t by (simp add: sched_task_find_def for_find_Some)
  qed
  obtain qs n where w: "sched_wf s2 qs" "current_task s2 = Some n" "n < task_count s2" "state_of s2 n = TCB_RUNNING" by (rule sched_invE [OF s2(2)])
  then consider "n = 2" | "n = 1" using s2(3,4) s1(1) by (fastforce simp: proc_same_def)
  then show thesis
  proof cases
    case 1
    then show ?thesis using ok [OF i2] w(2) by simp
  next
    case 2
    have "2 < task_count s2" using s2(3) s1(1) by (simp add: proc_same_def)
    then have "state_of s2 2 \<noteq> TCB_RUNNING" using w(2) 2 by (metis one_eq_numeral_iff num.distinct(1) option.inject sched_wf_current [OF w(1)])
    then have r: "state_of s2 2 = TCB_READY"
      using s2(3,5) s1(3) by (cases "state_of s2 2") (auto simp: proc_same_def)
    then have "qs (unat (eff_prio_slot s2 2)) \<noteq> []" using sched_wfD(3) [OF w(1), of 2] s2(3) s1(1) by (auto simp: proc_same_def)
    then obtain p where p: "top_queue qs p" using top_queue_exists prio_bound by blast
    then obtain k ts where q: "qs p = k # ts" "p < 256" by (auto simp: top_queue_def neq_Nil_conv)
    have k: "state_of s2 k = TCB_READY" "k < task_count s2" using sched_wfD(2) [OF w(1) q(2), of k] q(1) by auto
    moreover have "state_of s2 0 = TCB_BLOCKED" "task_count s2 = 3" using s2(3,5) s1(1) by (simp_all add: proc_same_def)
    ultimately have "k < 3" "k \<noteq> 1" "k \<noteq> 0" using w(4) 2 by (auto intro: ccontr)
    then have "k = 2" by simp
    obtain s3 where "schedule s2 = Some s3" "current_task s3 = Some k" using schedule_top [OF w(1,2) p q(1)] by (metis schedule_def)
    then show ?thesis using ok task_inv_sched [OF i2 step_schedule] \<open>k = 2\<close> by blast
  qed
qed

subsection \<open>A port without its client\<close>

text \<open>Port \<open>i\<close> has an active client, but no task is inside a call on it any more.\<close>

definition wedged :: "nat \<Rightarrow> u32 \<Rightarrow> u32 \<Rightarrow> mk \<times> sched \<times> (nat \<Rightarrow> in_ipc option) \<Rightarrow> bool" where
  "wedged i pid t x = (case x of (m, s, fl) \<Rightarrow>
     po_active (ports m i) \<and> port_id (ports m i) = pid \<and> active_client_tid (ports m i) = t \<and> t \<noteq> 0 \<and> (\<forall>c u. fl c \<noteq> Some (InCall i u)))"

lemma wedged_set_port:
  assumes "wedged i pid t (m, s, fl)" "j = i \<Longrightarrow> po_active p \<and> port_id p = port_id (ports m i) \<and> active_client_tid p = active_client_tid (ports m i)"
  shows "wedged i pid t (set_port m j p, s', fl)"
  using assms by (auto simp: wedged_def)

lemma wedged_frame: "wedged i pid t (m, s, fl) \<Longrightarrow> ports m' = ports m \<Longrightarrow> wedged i pid t (m', s', fl)"
  by (simp add: wedged_def)

lemma wedged_flight:
  "wedged i pid t (m, s, fl) \<Longrightarrow> (\<And>u. q \<noteq> Some (InCall i u)) \<Longrightarrow> wedged i pid t (m, s', fl(c := q))"
  by (simp add: wedged_def)

lemma wedged_take: "wedged i pid t (m, s, fl) \<Longrightarrow> wedged i pid t (set_port m j ((ports m j)\<lparr>pending_valid := False\<rparr>), s', fl)"
  by (rule wedged_set_port) (auto simp: wedged_def)

lemma wedged_idle: "wedged i pid t (m, s, fl) \<Longrightarrow> \<not> port_busy (ports m j) \<Longrightarrow> wedged i pid t (set_port m j p, s', fl)"
  by (rule wedged_set_port) (auto simp: wedged_def port_busy_def)

lemma wedged_create: "wedged i pid t (m, s, fl) \<Longrightarrow> mk_port_create freq m owner nm = (r, m') \<Longrightarrow> wedged i pid t (m', s', fl)"
  by (auto simp: mk_port_create_def Let_def wedged_def for_find_Some split: option.splits)

lemma wedged_wait:
  assumes "wedged i pid t (m, s, fl)" "mk_ipc_wait m s out p = Some (r, m', s')"
  shows "wedged i pid t (m', s', case r of Inr (Waiting j) \<Rightarrow> fl(c \<mapsto> InWait j) | _ \<Rightarrow> fl)"
  using assms(2)
proof (cases rule: ipc_wait_cases)
  case (error e)
  then show ?thesis using wedged_frame [OF assms(1)] by simp
next
  case (ready j)
  then show ?thesis using wedged_take [OF assms(1), of j] by simp
next
  case (waits j)
  then have "wedged i pid t (m', s', fl)" using wedged_set_port [OF assms(1)] assms(1) by (simp add: wedged_def)
  then show ?thesis using wedged_flight [of i pid t m' s' fl] waits(1) by simp
qed

lemma wedged_step:
  assumes w: "wedged i pid t x" and st: "ipc_step x y" shows "wedged i pid t y"
  using st
proof cases
  case (call s c fl junk now m out p ty data len j u m' s')
  from call(6) show ?thesis
  proof (cases rule: ipc_call_cases)
    case (blocked k v n)
    then have "k \<noteq> i" using w call(1) by (auto simp: wedged_def)
    then show ?thesis using wedged_flight [OF wedged_set_port [of i pid t m s fl k]] w call(1,2) blocked(1,11) by simp
  qed simp
next
  case (call_error junk now m s out p ty data len e m' s' fl)
  then show ?thesis using w by (auto elim: ipc_call_cases)
next
  case (call_finish s c fl j u m r m')
  then have "j \<noteq> i" using w by (auto simp: wedged_def)
  moreover have "m' = m \<or> m' = set_port m j (mk_ipc_reset_active (ports m j))" using call_finish(5) by (auto simp: mk_ipc_call_finish_def Let_def split: if_splits)
  ultimately have "wedged i pid t (m', s, fl)" using w call_finish(1) wedged_set_port [of i pid t m s fl j] by auto
  then show ?thesis using wedged_flight call_finish(2) by simp
next
  case (wait s c fl m out p r m' s')
  then show ?thesis using w wedged_wait [of i pid t m s fl out p r m' s' c] by simp
next
  case (wait_finish s c fl j m q m')
  then have "wedged i pid t (m', s, fl)" using wait_finish_cases [OF wait_finish(5)] w wedged_take by auto
  then show ?thesis using wedged_flight wait_finish(2) by simp
next
  case (poll m s out p q m' fl)
  then show ?thesis using poll_cases [OF poll(3)] w wedged_take by auto
next
  case (reply junk now m s p ty data len r' m' s' fl)
  from reply(3) show ?thesis
  proof (cases rule: ipc_reply_cases)
    case (sent j s1)
    then show ?thesis using w reply(1,2) wedged_set_port [of i pid t m s fl j] by (simp add: wedged_def)
  qed (use w reply in simp)
next
  case (create freq m owner nm id' m' s fl)
  then show ?thesis using w wedged_create by simp
next
  case (destroy m p r' m' s fl)
  then show ?thesis using w wedged_idle by (auto simp: mk_port_destroy_def split: option.splits if_splits)
next
  case (rebind m p owner r' m' s fl)
  then show ?thesis using w wedged_idle by (auto simp: mk_port_rebind_def split: option.splits if_splits)
next
  case (budget m p cycles r' m' s fl)
  then show ?thesis using w wedged_set_port [of i pid t m s fl] by (auto simp: mk_port_set_budget_def wedged_def split: option.splits)
next
  case (killed s c m fl)
  then show ?thesis using w wedged_flight by simp
next
  case (process s s' m fl)
  then show ?thesis using w wedged_frame by blast
next
  case (send m from' to ty data len b m' s fl)
  then show ?thesis using w wedged_frame [OF _ mailbox_ports(1)] by blast
next
  case (receive m tid out msg m' s fl)
  then show ?thesis using w wedged_frame [OF _ mailbox_ports(2)] by blast
next
  case (task_new m nm tt entry slot m' s fl)
  then show ?thesis using w wedged_frame [OF _ mailbox_ports(3)] by blast
next
  case (task_end m s fl tid)
  then show ?thesis using w wedged_frame [OF _ mailbox_ports(4)] by blast
qed

interpretation wedge: invariant_system ipc_step "wedged i pid t" for i pid t
  by unfold_locales (rule wedged_step)

lemma wedged_calls_fail:
  assumes "wedged i pid t (m, s, fl)" "mk_port_by_id m pid = Some i"
  shows "\<exists>e. mk_ipc_call junk now m s' out pid ty data len = Some (Inl e, m, s')"
proof -
  have "active_client_tid (ports m i) \<noteq> 0" using assms(1) by (simp add: wedged_def)
  then show ?thesis
    by (simp add: mk_ipc_call_def Let_def assms(2) split: option.split)
qed

subsection \<open>Properties\<close>

text \<open>
  C26. From boot on, whatever calls, waits, replies, wake-ups, exits and port operations happen, in any order: the
  scheduler and the processes stay well formed, a task that is inside a call is the one
  active client of its port (two tasks are never inside a call on the same port), a reply that is there is for that client and comes from the owner of the port, a
  request that is there is for the owner, and neither claims more than 256 bytes.
\<close>

theorem ipc_reachable_inv:
  "\<exists>s0. sched_init = Some s0 \<and>
     (\<forall>m s fl. ipc_step\<^sup>*\<^sup>* (mk_init freq mk_bss, s0, \<lambda>_. None) (m, s, fl) \<longrightarrow> task_inv s \<and>
        (\<forall>c i t. fl c = Some (InCall i t) \<longrightarrow> po_active (ports m i) \<and> active_client_tid (ports m i) = t \<and> t \<noteq> 0 \<and>
           (\<forall>d u. fl d = Some (InCall i u) \<longrightarrow> d = c)) \<and>
        (\<forall>i. po_active (ports m i) \<longrightarrow>
           (reply_valid (ports m i) \<longrightarrow> active_client_tid (ports m i) \<noteq> 0 \<and> receiver_tid (reply_msg (ports m i)) = active_client_tid (ports m i) \<and>
              sender_tid (reply_msg (ports m i)) = owner_tid (ports m i) \<and> msg_len (reply_msg (ports m i)) \<le> 256) \<and>
           (pending_valid (ports m i) \<longrightarrow> receiver_tid (pending_msg (ports m i)) = owner_tid (ports m i) \<and> msg_len (pending_msg (ports m i)) \<le> 256) \<and>
           (waiting_tid (ports m i) \<noteq> 0 \<longrightarrow> waiting_tid (ports m i) = owner_tid (ports m i) \<and> \<not> pending_valid (ports m i))))"
  (is "\<exists>s0. _ \<and> (\<forall>m s fl. _ \<longrightarrow> ?I m s fl)")
proof -
  obtain s0 where s0: "sched_init = Some s0" "task_inv s0" by (rule sched_init_inv) (simp add: task_inv_def)
  then have "ipc_inv (mk_init freq mk_bss, s0, \<lambda>_. None)" using mk_init_wf by (simp add: ipc_inv_def)
  note inv = ipcsys.run_inv [OF _ this]
  show ?thesis
  proof (rule exI [of _ s0], rule conjI [OF s0(1)], intro allI impI)
    fix m s fl assume "ipc_step\<^sup>*\<^sup>* (mk_init freq mk_bss, s0, \<lambda>_. None) (m, s, fl)"
    from inv [OF this] have "task_inv s" and wf: "mk_wf m fl" by (simp_all add: ipc_inv_def)
    moreover have "\<forall>i. po_active (ports m i) \<longrightarrow> port_ok (ports m i)" using mk_wfD(1) [OF wf] by blast
    ultimately show "?I m s fl"
      using mk_wfD(2-5) [OF wf] unfolding port_ok_def IPC_MSG_MAX_SIZE_def by (intro conjI; blast)
  qed
qed

theorem ipc_reachable_inv_witness:
  "\<exists>s0. sched_init = Some s0 \<and> task_inv s0"
  using ipc_reachable_inv [of 0] by blast

text \<open>
  C27. A call and its answer. On an idle port whose owner exists a call stores the request and blocks the
  caller, the owner then runs at least at the caller's priority and is not left waiting. The owner, whenever it runs next, gets
  exactly that request by waiting or polling (sender, type, the first 256 bytes at most), its reply
  succeeds, wakes the caller and counts as one call, and the caller returns with exactly that reply; the port is
  idle again under the same owner.
\<close>

theorem ipc_call_reply_roundtrip:
  assumes inv: "task_inv s" and c: "current_task s = Some c" "c \<noteq> IDLE_SLOT" "mk_current_tid s \<noteq> 0"
    and i: "mk_port_by_id m pid = Some i" "mk_current_tid s \<noteq> owner_tid (ports m i)" "sched_task_find s (owner_tid (ports m i)) = Some t"
    and idle: "active_client_tid (ports m i) = 0" "\<not> pending_valid (ports m i)" "\<not> reply_valid (ports m i)"
  shows "\<exists>m1 s1. mk_ipc_call junk now m s True pid ty (Some d) len = Some (Inr (i, mk_current_tid s), m1, s1) \<and>
    state_of s1 c = TCB_BLOCKED \<and> eff_prio_slot s1 t \<le> eff_prio_slot s c \<and> (waiting_tid (ports m i) \<noteq> 0 \<longrightarrow> state_of s1 t \<noteq> TCB_BLOCKED) \<and>
    (\<forall>s2. current_task s2 \<noteq> None \<and> mk_current_tid s2 = owner_tid (ports m i) \<longrightarrow>
      (\<exists>req m2. mk_ipc_wait m1 s2 True pid = Some (Inr (Ready req), m2, s2) \<and> mk_ipc_poll m1 s2 True pid = (Inr req, m2) \<and>
        mk_ipc_wait_finish m1 i = (Inr req, m2) \<and>
        sender_tid req = mk_current_tid s \<and> msg_type req = ty \<and> msg_len req = min len 256 \<and> (\<forall>k < unat (min len 256). payload req k = d k) \<and>
        (\<forall>s3. task_inv s3 \<and> mk_current_tid s3 = owner_tid (ports m i) \<longrightarrow>
          (\<exists>m3 s4 rep m4. mk_ipc_reply junk' now' m2 s3 pid ty' (Some d') len' = Some (Inr (), m3, s4) \<and>
            (\<forall>x. sched_task_find s3 (mk_current_tid s) = Some x \<longrightarrow> state_of s4 x \<noteq> TCB_BLOCKED) \<and>
            mk_ipc_call_finish m3 i (mk_current_tid s) = (Inr rep, m4) \<and>
            sender_tid rep = owner_tid (ports m i) \<and> msg_type rep = ty' \<and> msg_len rep = min len' 256 \<and> (\<forall>k < unat (min len' 256). payload rep k = d' k) \<and>
            \<not> port_busy (ports m4 i) \<and> owner_tid (ports m4 i) = owner_tid (ports m i) \<and> total_calls (ports m4 i) = total_calls (ports m i) + 1))))"
  (is "\<exists>m1 s1. _ \<and> _ \<and> _ \<and> _ \<and> (\<forall>s2. _ \<longrightarrow> (\<exists>req m2. _ \<and> _ \<and> _ \<and> _ \<and> _ \<and> _ \<and> _ \<and> (\<forall>s3. _ \<longrightarrow> ?reply m2 s3)))")
proof -
  define tid where "tid = mk_current_tid s"
  define req where "req = mk_ipc_build_msg junk tid (owner_tid (ports m i)) ty (Some d) len"
  obtain n s1 where call: "mk_ipc_call junk now m s True pid ty (Some d) len = Some (Inr (i, tid),
      set_port m i ((ports m i)\<lparr>active_client_tid := tid, active_start_cycles := now, inline_calls := n,
        pending_msg := req, pending_valid := True, waiting_tid := 0\<rparr>), s1)" and s1: "state_of s1 c = TCB_BLOCKED" "eff_prio_slot s1 t \<le> eff_prio_slot s c"
      "waiting_tid (ports m i) \<noteq> 0 \<longrightarrow> state_of s1 t \<noteq> TCB_BLOCKED"
    unfolding tid_def req_def by (rule ipc_call_ok [OF inv c i idle])
  define p1 where "p1 = (ports m i)\<lparr>active_client_tid := tid, active_start_cycles := now, inline_calls := n,
        pending_msg := req, pending_valid := True, waiting_tid := 0\<rparr>"
  define p2 where "p2 = p1\<lparr>pending_valid := False\<rparr>"
  have id: "mk_port_by_id (set_port m i p1) pid = Some i" "mk_port_by_id (set_port m i p2) pid = Some i"
    unfolding i(1) [symmetric] by (rule set_port_by_id; simp add: p1_def p2_def)+
  have f2: "active_client_tid p2 = tid" "tid \<noteq> 0" "\<not> reply_valid p2" "owner_tid p2 = owner_tid (ports m i)"
    using c(3) idle(3) by (simp_all add: p2_def p1_def tid_def)
  have f1: "pending_valid p1" "owner_tid p1 = owner_tid (ports m i)" "pending_msg p1 = req" by (simp_all add: p1_def)
  have server: "?reply (set_port m i p2) s3" if "task_inv s3" "mk_current_tid s3 = owner_tid (ports m i)" for s3
    using reply_finish [OF that(1) _ id(2), where junk = junk' and now = now' and ty = ty' and d = d' and len = len'] that(2) f2
    by (simp add: p1_def p2_def tid_def)
  have recv: "mk_ipc_wait (set_port m i p1) s2 True pid = Some (Inr (Ready req), set_port m i p2, s2)" "mk_ipc_poll (set_port m i p1) s2 True pid = (Inr req, set_port m i p2)"
    if "current_task s2 \<noteq> None" "mk_current_tid s2 = owner_tid (ports m i)" for s2
    using that by (auto simp: mk_ipc_wait_def mk_ipc_poll_def Let_def id(1) f1 p2_def)
  have fin: "mk_ipc_wait_finish (set_port m i p1) i = (Inr req, set_port m i p2)" by (simp add: mk_ipc_wait_finish_def Let_def p1_def p2_def)
  have req: "sender_tid req = tid" "msg_type req = ty" "msg_len req = min len 256" "\<forall>k < unat (min len 256). payload req k = d k"
    by (simp_all add: req_def build_msg_len build_msg_payload IPC_MSG_MAX_SIZE_def)
  let ?m1 = "set_port m i p1" and ?m2 = "set_port m i p2"
  have "\<exists>req m2. mk_ipc_wait ?m1 s2 True pid = Some (Inr (Ready req), m2, s2) \<and> mk_ipc_poll ?m1 s2 True pid = (Inr req, m2) \<and>
      mk_ipc_wait_finish ?m1 i = (Inr req, m2) \<and> sender_tid req = tid \<and> msg_type req = ty \<and> msg_len req = min len 256 \<and>
      (\<forall>k < unat (min len 256). payload req k = d k) \<and> (\<forall>s3. task_inv s3 \<and> mk_current_tid s3 = owner_tid (ports m i) \<longrightarrow> ?reply m2 s3)"
    if "current_task s2 \<noteq> None \<and> mk_current_tid s2 = owner_tid (ports m i)" for s2
    by (rule exI [of _ req], rule exI [of _ ?m2], intro conjI allI impI) (use that recv [of s2] fin req server in auto)
  then show ?thesis using call s1 unfolding p1_def [symmetric] tid_def [symmetric] by blast
qed

theorem ipc_call_reply_roundtrip_witness:
  "\<exists>s m1 s1. mk_ipc_call (pending_msg (ports mk_bss 0)) 0 mk_demo s True 1 7 (Some (\<lambda>_. 42)) 300 = Some (Inr (0, 2), m1, s1) \<and>
     state_of s1 2 = TCB_BLOCKED"
proof -
  obtain s where s: "task_inv s" "current_task s = Some 2" "mk_current_tid s = 2" "sched_task_find s 0 = Some 0" by (rule client_demo)
  have c: "2 \<noteq> IDLE_SLOT" "mk_current_tid s \<noteq> 0" "mk_current_tid s \<noteq> owner_tid (ports mk_demo 0)"
    "sched_task_find s (owner_tid (ports mk_demo 0)) = Some 0" using s(3,4) mk_demo_port(2) by (simp_all add: IDLE_SLOT_def)
  from ipc_call_reply_roundtrip [OF s(1,2) c(1,2) mk_demo_port(1) c(3,4) mk_demo_port(3-5),
      where junk = "pending_msg (ports mk_bss 0)" and now = 0 and ty = 7 and d = "\<lambda>_. 42" and len = 300
      and junk' = "pending_msg (ports mk_bss 0)" and now' = 9 and ty' = 8 and d' = "\<lambda>_. 43" and len' = 4, unfolded s(3)]
  show ?thesis by blast
qed

text \<open>
  A client that comes back from its call before the reply is there, as when a signal has woken it, gets
  \<open>EAGAIN\<close> and leaves the port as it is, with itself as active client. From then on the port stays taken, whatever
  happens: every call on it fails, and it can be neither destroyed nor given to another owner.
\<close>

lemma early_wakeup_wedges:
  assumes inv: "ipc_inv (m, s, fl)" and c: "current_task s = Some c" "fl c = Some (InCall i t)" and early: "\<not> reply_valid (ports m i)"
  shows "mk_ipc_call_finish m i t = (Inl EAGAIN, m) \<and> ipc_step (m, s, fl) (m, s, fl(c := None)) \<and>
    (\<forall>m' s' fl'. ipc_step\<^sup>*\<^sup>* (m, s, fl(c := None)) (m', s', fl') \<longrightarrow>
       po_active (ports m' i) \<and> port_id (ports m' i) = port_id (ports m i) \<and> active_client_tid (ports m' i) = t \<and> t \<noteq> 0 \<and>
       (mk_port_by_id m' (port_id (ports m i)) = Some i \<longrightarrow>
          (\<exists>e. mk_ipc_call junk now m' s'' out (port_id (ports m i)) ty data len = Some (Inl e, m', s'')) \<and>
          mk_port_destroy m' (port_id (ports m i)) = (Inl EBUSY, m') \<and>
          mk_port_rebind m' (port_id (ports m i)) owner = (Inl EBUSY, m')))"
proof -
  have wf: "mk_wf m fl" using inv by (simp add: ipc_inv_def)
  have fin: "mk_ipc_call_finish m i t = (Inl EAGAIN, m)" using early by (simp add: mk_ipc_call_finish_def Let_def)
  have "wedged i (port_id (ports m i)) t (m, s, fl(c := None))"
    using mk_wfD(2-5) [OF wf] c(2) by (auto simp: wedged_def)
  note w = wedge.run_inv [OF _ this]
  have busy: "po_active (ports m' i) \<and> port_id (ports m' i) = port_id (ports m i) \<and> active_client_tid (ports m' i) = t \<and> t \<noteq> 0 \<and> port_busy (ports m' i)"
    if "ipc_step\<^sup>*\<^sup>* (m, s, fl(c := None)) (m', s', fl')" for m' s' fl'
    using w [OF that] by (simp add: wedged_def port_busy_def)
  show ?thesis
    using fin ipc_step.call_finish [of s c fl i t m, OF c fin] busy wedged_calls_fail [OF w]
    by (intro conjI allI impI) (auto simp: mk_port_destroy_def mk_port_rebind_def)
qed

end
