(* ===== verification/Kmon.thy ===== *)
theory Kmon
  imports Blocking
begin

text \<open>
  Kernel monitors, \<^verbatim>\<open>kernel/kmon.c\<close>: a pool of monitors, each with an owner, a queue of tasks that want to
  enter, an urgent queue and eight condition queues, over one pool of waiters. Entering and waiting poll: the part up to the
  queue is one definition, one turn of the loop another; between two turns the task yields or blocks. Interrupts are masked in a
  system call, so each part is one step. No value (\<open>None\<close>) is a list walk that does not end or the panic on a recursive
  enter.
\<close>

subsection \<open>Data\<close>

definition KMON_MAX :: nat where "KMON_MAX = 64"

definition KMON_MAX_WAITERS :: nat where "KMON_MAX_WAITERS = 96"

definition KMON_MAX_COND :: nat where "KMON_MAX_COND = 8"

definition KMON_WAIT_FOREVER_NS :: u64 where "KMON_WAIT_FOREVER_NS = 0"

definition KMON_Q_NONE :: u8 where "KMON_Q_NONE = 0"

definition KMON_Q_ENTER :: u8 where "KMON_Q_ENTER = 1"

definition KMON_Q_COND :: u8 where "KMON_Q_COND = 2"

definition KMON_Q_URGENT :: u8 where "KMON_Q_URGENT = 3"

definition KMON_WAKE_NONE :: u8 where "KMON_WAKE_NONE = 0"

definition KMON_WAKE_LOCK :: u8 where "KMON_WAKE_LOCK = 1"

definition KMON_HOARE :: u32 where "KMON_HOARE = 1"

definition KMON_MESA :: u32 where "KMON_MESA = 2"

definition KMON_RT :: u32 where "KMON_RT = 4"

record kmon_queue =
  q_fifo :: fifo
  n_waiters :: u32

record kmon_entry =
  m_active :: bool
  m_handle :: u32
  m_owner :: "nat option"
  prio_ceiling :: u32
  entry_count :: u32
  m_flags :: u32
  enter_q :: kmon_queue
  urgent_q :: kmon_queue
  m_cond :: "nat \<Rightarrow> kmon_queue"

record kmon_waiter =
  mw_active :: bool
  queue_kind :: u8
  cond_idx :: u8
  wake_reason :: u8
  mw_task :: "nat option"
  mw_mon :: "nat option"

text \<open>The \<^verbatim>\<open>next\<close> fields of the waiters are the map \<open>mw_next\<close>.\<close>

record kmon =
  kmon_pool :: "nat \<Rightarrow> kmon_entry"
  kmon_waiters :: "nat \<Rightarrow> kmon_waiter"
  mw_next :: links
  kmon_next_handle :: u32

text \<open>A pointer to a queue of the monitor in slot \<open>i\<close>.\<close>

datatype queue_ptr = EnterQ nat | UrgentQ nat | CondQ nat nat

definition zero_queue :: kmon_queue where
  "zero_queue = \<lparr>q_fifo = fifo_empty, n_waiters = 0\<rparr>"

definition zero_mon :: kmon_entry where
  "zero_mon = \<lparr>m_active = False, m_handle = 0, m_owner = None, prio_ceiling = 0, entry_count = 0, m_flags = 0,
     enter_q = zero_queue, urgent_q = zero_queue, m_cond = (\<lambda>_. zero_queue)\<rparr>"

definition zero_mwaiter :: kmon_waiter where
  "zero_mwaiter = \<lparr>mw_active = False, queue_kind = 0, cond_idx = 0, wake_reason = 0, mw_task = None, mw_mon = None\<rparr>"

definition set_mon :: "kmon \<Rightarrow> nat \<Rightarrow> kmon_entry \<Rightarrow> kmon" where
  "set_mon k i e = k\<lparr>kmon_pool := (kmon_pool k)(i := e)\<rparr>"

definition set_mwaiter :: "kmon \<Rightarrow> nat \<Rightarrow> kmon_waiter \<Rightarrow> kmon" where
  "set_mwaiter k w v = k\<lparr>kmon_waiters := (kmon_waiters k)(w := v)\<rparr>"

fun queue_at :: "kmon \<Rightarrow> queue_ptr \<Rightarrow> kmon_queue" where
  "queue_at k (EnterQ i) = enter_q (kmon_pool k i)"
| "queue_at k (UrgentQ i) = urgent_q (kmon_pool k i)"
| "queue_at k (CondQ i c) = m_cond (kmon_pool k i) c"

fun set_queue :: "kmon \<Rightarrow> queue_ptr \<Rightarrow> kmon_queue \<Rightarrow> kmon" where
  "set_queue k (EnterQ i) q = set_mon k i ((kmon_pool k i)\<lparr>enter_q := q\<rparr>)"
| "set_queue k (UrgentQ i) q = set_mon k i ((kmon_pool k i)\<lparr>urgent_q := q\<rparr>)"
| "set_queue k (CondQ i c) q = set_mon k i ((kmon_pool k i)\<lparr>m_cond := (m_cond (kmon_pool k i))(c := q)\<rparr>)"

subsection \<open>Tables and queues\<close>

definition kmon_timeout_to_ms :: "u64 \<Rightarrow> u64" where
  "kmon_timeout_to_ms timeout_ns = (if timeout_ns = 0 then 0 else (timeout_ns + 999999) div 1000000)"

definition kmon_find_locked :: "kmon \<Rightarrow> u32 \<Rightarrow> nat option" where
  "kmon_find_locked k handle = for_find (\<lambda>i. m_active (kmon_pool k i) \<and> m_handle (kmon_pool k i) = handle) 0 KMON_MAX"

definition kmon_alloc_locked :: "kmon \<Rightarrow> (nat \<times> kmon) option" where
  "kmon_alloc_locked k =
     (case for_find (\<lambda>i. \<not> m_active (kmon_pool k i)) 0 KMON_MAX of
        None \<Rightarrow> None
      | Some i \<Rightarrow>
          (let h = kmon_next_handle k; k = set_mon k i (zero_mon\<lparr>m_active := True, m_handle := h\<rparr>)
           in Some (i, k\<lparr>kmon_next_handle := (if h + 1 = 0 then 1 else h + 1)\<rparr>)))"

definition kmon_waiter_alloc_locked :: "kmon \<Rightarrow> nat \<Rightarrow> nat \<Rightarrow> u8 \<Rightarrow> u8 \<Rightarrow> (nat \<times> kmon) option" where
  "kmon_waiter_alloc_locked k i task kind cond =
     (case for_find (\<lambda>w. \<not> mw_active (kmon_waiters k w)) 0 KMON_MAX_WAITERS of
        None \<Rightarrow> None
      | Some w \<Rightarrow>
          Some (w, (set_mwaiter k w (zero_mwaiter\<lparr>mw_active := True, mw_mon := Some i, mw_task := Some task,
                                       queue_kind := kind, cond_idx := cond\<rparr>))\<lparr>mw_next := (mw_next k)(w := None)\<rparr>))"

definition kmon_waiter_free_locked :: "kmon \<Rightarrow> nat \<Rightarrow> kmon" where
  "kmon_waiter_free_locked k w = (set_mwaiter k w zero_mwaiter)\<lparr>mw_next := (mw_next k)(w := None)\<rparr>"

definition kmon_waiter_queue :: "nat \<Rightarrow> kmon_waiter \<Rightarrow> queue_ptr option" where
  "kmon_waiter_queue i v =
     (if queue_kind v = KMON_Q_ENTER then Some (EnterQ i)
      else if queue_kind v = KMON_Q_URGENT then Some (UrgentQ i)
      else if queue_kind v = KMON_Q_COND \<and> unat (cond_idx v) < KMON_MAX_COND then Some (CondQ i (unat (cond_idx v)))
      else None)"

definition kmon_queue_push_tail_locked :: "kmon \<Rightarrow> queue_ptr \<Rightarrow> nat \<Rightarrow> kmon" where
  "kmon_queue_push_tail_locked k p w =
     (let q = queue_at k p; (nx, f) = fifo_push (mw_next k) (q_fifo q) w
      in (set_queue k p \<lparr>q_fifo = f, n_waiters = n_waiters q + 1\<rparr>)\<lparr>mw_next := nx\<rparr>)"

definition dec_waiters :: "u32 \<Rightarrow> u32" where
  "dec_waiters n = (if n \<noteq> 0 then n - 1 else n)"

definition kmon_queue_pop_head_locked :: "kmon \<Rightarrow> queue_ptr \<Rightarrow> nat option \<times> kmon" where
  "kmon_queue_pop_head_locked k p =
     (let q = queue_at k p
      in case fifo_pop (mw_next k) (q_fifo q) of
           (None, _, _) \<Rightarrow> (None, k)
         | (Some w, nx, f) \<Rightarrow> (Some w, (set_queue k p \<lparr>q_fifo = f, n_waiters = dec_waiters (n_waiters q)\<rparr>)\<lparr>mw_next := nx\<rparr>))"

definition kmon_queue_remove_locked :: "kmon \<Rightarrow> queue_ptr option \<Rightarrow> nat \<Rightarrow> kmon option" where
  "kmon_queue_remove_locked k ptr w =
     (case ptr of
        None \<Rightarrow> Some k
      | Some p \<Rightarrow>
          (let q = queue_at k p
           in do {
                (found, nx, f) \<leftarrow> fifo_remove (mw_next k) (q_fifo q) w;
                Some (if found then (set_queue k p \<lparr>q_fifo = f, n_waiters = dec_waiters (n_waiters q)\<rparr>)\<lparr>mw_next := nx\<rparr> else k)
              }))"

subsection \<open>Ownership\<close>

definition mon_best :: "sched \<Rightarrow> kmon \<Rightarrow> u8 \<Rightarrow> nat \<Rightarrow> u8" where
  "mon_best s k best w =
     (let prio = eff_prio_of s (mw_task (kmon_waiters k w)) in if prio < best then prio else best)"

partial_function (option) mon_scan :: "sched \<times> kmon \<Rightarrow> u8 \<Rightarrow> nat option \<Rightarrow> u8 option" where
  "mon_scan sk best cur =
     (case cur of
        None \<Rightarrow> Some best
      | Some w \<Rightarrow> mon_scan sk (mon_best (fst sk) (snd sk) best w) (mw_next (snd sk) w))"

definition mon_rt :: "kmon_entry \<Rightarrow> bool" where
  "mon_rt e \<longleftrightarrow> m_flags e AND KMON_RT \<noteq> 0"

definition kmon_refresh_owner_locked :: "sched \<Rightarrow> kmon \<Rightarrow> nat \<Rightarrow> sched option" where
  "kmon_refresh_owner_locked s k i =
     (let e = kmon_pool k i
      in if m_owner e = None \<or> \<not> mon_rt e then Some s
         else
           do {
             let best = (if prio_ceiling e \<noteq> 0 then ucast (prio_ceiling e) else 0xFF);
             best \<leftarrow> mon_scan (s, k) best (fhead (q_fifo (enter_q e)));
             best \<leftarrow> mon_scan (s, k) best (fhead (q_fifo (urgent_q e)));
             if best \<noteq> 0xFF
             then do { (_, s) \<leftarrow> sched_task_donate_priority s (m_owner e) best; Some s }
             else sched_task_clear_donation s (m_owner e)
           })"

definition kmon_assign_owner_locked :: "sched \<Rightarrow> kmon \<Rightarrow> nat \<Rightarrow> nat option \<Rightarrow> (sched \<times> kmon) option" where
  "kmon_assign_owner_locked s k i owner =
     (let k = set_mon k i ((kmon_pool k i)\<lparr>m_owner := owner, entry_count := (if owner \<noteq> None then 1 else 0)\<rparr>)
      in if owner \<noteq> None then do { s \<leftarrow> kmon_refresh_owner_locked s k i; Some (s, k) } else Some (s, k))"

text \<open>\<^verbatim>\<open>if (wake_task && wake_task->state == TCB_STATE_BLOCKED) sched_unblock(wake_task)\<close>.\<close>

definition kmon_wake :: "sched \<Rightarrow> nat option \<Rightarrow> sched" where
  "kmon_wake s task =
     (case task of None \<Rightarrow> s | Some t \<Rightarrow> if state_of s t = TCB_BLOCKED then sched_unblock s (Some t) else s)"

definition kmon_next_owner :: "kmon \<Rightarrow> nat \<Rightarrow> nat option \<times> kmon" where
  "kmon_next_owner k i =
     (if fhead (q_fifo (urgent_q (kmon_pool k i))) \<noteq> None then kmon_queue_pop_head_locked k (UrgentQ i)
      else if fhead (q_fifo (enter_q (kmon_pool k i))) \<noteq> None then kmon_queue_pop_head_locked k (EnterQ i)
      else (None, k))"

definition kmon_release_locked :: "sched \<Rightarrow> kmon \<Rightarrow> nat \<Rightarrow> nat option \<Rightarrow> (sched \<times> kmon) option" where
  "kmon_release_locked s k i old_owner =
     do {
       s \<leftarrow> (if mon_rt (kmon_pool k i) \<and> old_owner \<noteq> None then sched_task_clear_donation s old_owner else Some s);
       case kmon_next_owner k i of
         (Some w, k) \<Rightarrow>
           (let v = kmon_waiters k w; k = set_mwaiter k w (v\<lparr>queue_kind := KMON_Q_NONE, wake_reason := KMON_WAKE_LOCK\<rparr>)
            in do {
                 (s, k) \<leftarrow> kmon_assign_owner_locked s k i (mw_task v);
                 Some (kmon_wake s (mw_task v), k)
               })
       | (None, k) \<Rightarrow> Some (s, set_mon k i ((kmon_pool k i)\<lparr>m_owner := None, entry_count := 0\<rparr>))
     }"

subsection \<open>Entering and waiting\<close>

datatype enter_result = EnterFailed errno | Entered | EnterQueued nat nat

text \<open>\<open>EnterQueued w i\<close>: the caller polls with its waiter \<open>w\<close> on monitor \<open>i\<close>.\<close>

definition kmon_enter_common :: "sched \<Rightarrow> kmon \<Rightarrow> u32 \<Rightarrow> (enter_result \<times> sched \<times> kmon) option" where
  "kmon_enter_common s k handle =
     (case current_task s of
        None \<Rightarrow> Some (EnterFailed EPERM, s, k)
      | Some cur \<Rightarrow>
          (case kmon_find_locked k handle of
             None \<Rightarrow> Some (EnterFailed ENOENT, s, k)
           | Some i \<Rightarrow>
               if m_owner (kmon_pool k i) = None then
                 do { (s, k) \<leftarrow> kmon_assign_owner_locked s k i (Some cur); Some (Entered, s, k) }
               else if m_owner (kmon_pool k i) = Some cur then None
               else
                 (case kmon_waiter_alloc_locked k i cur KMON_Q_ENTER 0 of
                    None \<Rightarrow> Some (EnterFailed ENOSPC, s, k)
                  | Some (w, k) \<Rightarrow>
                      (let k = kmon_queue_push_tail_locked k (EnterQ i) w
                       in do { s \<leftarrow> kmon_refresh_owner_locked s k i; Some (EnterQueued w i, s, k) }))))"

text \<open>One turn of the loop; \<open>pending\<close> is \<^verbatim>\<open>signal_has_unblocked_pending\<close>.\<close>

definition kmon_enter_poll ::
  "sched \<Rightarrow> kmon \<Rightarrow> nat \<Rightarrow> nat \<Rightarrow> bool \<Rightarrow> bool \<Rightarrow> (enter_result \<times> sched \<times> kmon) option" where
  "kmon_enter_poll s k i w allow_interrupt pending =
     (if wake_reason (kmon_waiters k w) = KMON_WAKE_LOCK then Some (Entered, s, kmon_waiter_free_locked k w)
      else if \<not> allow_interrupt \<or> \<not> sched_task_is_user s (current_task s) then
        do { s \<leftarrow> sched_block s; Some (EnterQueued w i, s, k) }
      else if pending then
        (if mw_active (kmon_waiters k w) \<and> wake_reason (kmon_waiters k w) = KMON_WAKE_NONE then
           do {
             k \<leftarrow> kmon_queue_remove_locked k (Some (EnterQ i)) w;
             let k = kmon_waiter_free_locked k w;
             s \<leftarrow> (if m_owner (kmon_pool k i) \<noteq> None then kmon_refresh_owner_locked s k i else Some s);
             Some (EnterFailed EINTR, s, k)
           }
         else Some (EnterFailed EINTR, s, k))
      else do { s \<leftarrow> sched_yield s; Some (EnterQueued w i, s, k) })"

definition kmon_enter_current :: "sched \<Rightarrow> kmon \<Rightarrow> u32 \<Rightarrow> (enter_result \<times> sched \<times> kmon) option" where
  "kmon_enter_current s k handle = kmon_enter_common s k handle"

definition kmon_owned :: "sched \<Rightarrow> kmon \<Rightarrow> nat \<Rightarrow> bool" where
  "kmon_owned s k i \<longleftrightarrow> m_owner (kmon_pool k i) = current_task s \<and> entry_count (kmon_pool k i) \<noteq> 0"

definition clear_count :: "kmon \<Rightarrow> nat \<Rightarrow> kmon" where
  "clear_count k i = set_mon k i ((kmon_pool k i)\<lparr>entry_count := 0\<rparr>)"

definition kmon_exit_current :: "sched \<Rightarrow> kmon \<Rightarrow> u32 \<Rightarrow> ((errno + unit) \<times> sched \<times> kmon) option" where
  "kmon_exit_current s k handle =
     (case current_task s of
        None \<Rightarrow> Some (Inl EPERM, s, k)
      | Some cur \<Rightarrow>
          (case kmon_find_locked k handle of
             None \<Rightarrow> Some (Inl ENOENT, s, k)
           | Some i \<Rightarrow>
               if \<not> kmon_owned s k i then Some (Inl EPERM, s, k)
               else do { (s, k) \<leftarrow> kmon_release_locked s (clear_count k i) i (Some cur); Some (Inr (), s, k) }))"

text \<open>The part of a wait before its loop; \<open>Inr (w, i)\<close>: the monitor is released and waiter \<open>w\<close> queued.\<close>

definition kmon_wait_current :: "sched \<Rightarrow> kmon \<Rightarrow> u32 \<Rightarrow> u8 \<Rightarrow> ((errno + nat \<times> nat) \<times> sched \<times> kmon) option" where
  "kmon_wait_current s k handle cond =
     (case current_task s of
        None \<Rightarrow> Some (Inl EPERM, s, k)
      | Some cur \<Rightarrow>
          if unat cond \<ge> KMON_MAX_COND then Some (Inl EINVAL, s, k)
          else
            (case kmon_find_locked k handle of
               None \<Rightarrow> Some (Inl ENOENT, s, k)
             | Some i \<Rightarrow>
                 if \<not> kmon_owned s k i then Some (Inl EPERM, s, k)
                 else
                   (case kmon_waiter_alloc_locked k i cur KMON_Q_COND cond of
                      None \<Rightarrow> Some (Inl ENOSPC, s, k)
                    | Some (w, k) \<Rightarrow>
                        (let k = kmon_queue_push_tail_locked k (CondQ i (unat cond)) w
                         in do { (s, k) \<leftarrow> kmon_release_locked s (clear_count k i) i (Some cur); Some (Inr (w, i), s, k) }))))"

definition kmon_deadline :: "u64 \<Rightarrow> u64 \<Rightarrow> u64" where
  "kmon_deadline now timeout_ns = (if timeout_ns \<noteq> KMON_WAIT_FOREVER_NS then now + kmon_timeout_to_ms timeout_ns else 0)"

text \<open>
  One turn: \<open>Woken\<close> is the result 0, \<open>Reenter e w\<close> means that the task now waits, not interruptibly, with waiter \<open>w\<close> to
  enter again and will then return \<open>e\<close>.
\<close>

datatype wait_turn = Woken | WaitFailed errno | Reenter errno nat nat | StillWaiting

definition kmon_leave :: "sched \<Rightarrow> kmon \<Rightarrow> u32 \<Rightarrow> nat \<Rightarrow> nat \<Rightarrow> errno \<Rightarrow> (wait_turn \<times> sched \<times> kmon) option" where
  "kmon_leave s k handle i w e =
     do {
       k \<leftarrow> (if mw_active (kmon_waiters k w) \<and> wake_reason (kmon_waiters k w) = KMON_WAKE_NONE then
               do {
                 k \<leftarrow> kmon_queue_remove_locked k (kmon_waiter_queue i (kmon_waiters k w)) w;
                 Some (kmon_waiter_free_locked k w)
               }
             else Some k);
       (r, s, k) \<leftarrow> kmon_enter_common s k handle;
       Some (case r of EnterFailed e' \<Rightarrow> WaitFailed e' | Entered \<Rightarrow> WaitFailed e | EnterQueued w' i' \<Rightarrow> Reenter e w' i', s, k)
     }"

definition kmon_wait_poll ::
  "sched \<Rightarrow> kmon \<Rightarrow> u32 \<Rightarrow> nat \<Rightarrow> nat \<Rightarrow> bool \<Rightarrow> u64 \<Rightarrow> u64 \<Rightarrow> u64 \<Rightarrow> (wait_turn \<times> sched \<times> kmon) option" where
  "kmon_wait_poll s k handle i w pending timeout_ns now deadline =
     (if wake_reason (kmon_waiters k w) = KMON_WAKE_LOCK then Some (Woken, s, kmon_waiter_free_locked k w)
      else if pending then kmon_leave s k handle i w EINTR
      else if timeout_ns \<noteq> KMON_WAIT_FOREVER_NS \<and> now \<ge> deadline then kmon_leave s k handle i w ETIMEDOUT
      else do { s \<leftarrow> sched_yield s; Some (StillWaiting, s, k) })"

subsection \<open>Signals, creation, destruction, clean-up\<close>

text \<open>A waiter taken off a condition goes to the end of the enter queue.\<close>

definition kmon_requeue :: "kmon \<Rightarrow> nat \<Rightarrow> nat \<Rightarrow> kmon" where
  "kmon_requeue k i w =
     kmon_queue_push_tail_locked
       (set_mwaiter k w ((kmon_waiters k w)\<lparr>queue_kind := KMON_Q_ENTER, wake_reason := KMON_WAKE_NONE\<rparr>)) (EnterQ i) w"

definition kmon_signal_current :: "sched \<Rightarrow> kmon \<Rightarrow> u32 \<Rightarrow> u8 \<Rightarrow> ((errno + unit) \<times> sched \<times> kmon) option" where
  "kmon_signal_current s k handle cond =
     (if current_task s = None then Some (Inl EPERM, s, k)
      else if unat cond \<ge> KMON_MAX_COND then Some (Inl EINVAL, s, k)
      else
        (case kmon_find_locked k handle of
           None \<Rightarrow> Some (Inl ENOENT, s, k)
         | Some i \<Rightarrow>
             if \<not> kmon_owned s k i then Some (Inl EPERM, s, k)
             else
               (case kmon_queue_pop_head_locked k (CondQ i (unat cond)) of
                  (None, k) \<Rightarrow> Some (Inr (), s, k)
                | (Some target, k) \<Rightarrow>
                    (let k = kmon_requeue k i target
                     in do {
                          s \<leftarrow> (if m_owner (kmon_pool k i) \<noteq> None then kmon_refresh_owner_locked s k i else Some s);
                          Some (Inr (), s, k)
                        }))))"

partial_function (option) kmon_broadcast_loop :: "kmon \<Rightarrow> nat \<Rightarrow> nat \<Rightarrow> kmon option" where
  "kmon_broadcast_loop k i c =
     (case kmon_queue_pop_head_locked k (CondQ i c) of
        (None, k') \<Rightarrow> Some k'
      | (Some extra, k') \<Rightarrow> kmon_broadcast_loop (kmon_requeue k' i extra) i c)"

definition kmon_broadcast_current :: "sched \<Rightarrow> kmon \<Rightarrow> u32 \<Rightarrow> u8 \<Rightarrow> ((errno + unit) \<times> sched \<times> kmon) option" where
  "kmon_broadcast_current s k handle cond =
     (if current_task s = None then Some (Inl EPERM, s, k)
      else if unat cond \<ge> KMON_MAX_COND then Some (Inl EINVAL, s, k)
      else
        (case kmon_find_locked k handle of
           None \<Rightarrow> Some (Inl ENOENT, s, k)
         | Some i \<Rightarrow>
             if \<not> kmon_owned s k i then Some (Inl EPERM, s, k)
             else
               (case kmon_queue_pop_head_locked k (CondQ i (unat cond)) of
                  (None, k) \<Rightarrow> Some (Inr (), s, k)
                | (Some first, k) \<Rightarrow>
                    do {
                      k \<leftarrow> kmon_broadcast_loop k i (unat cond);
                      let k = kmon_requeue k i first;
                      s \<leftarrow> (if m_owner (kmon_pool k i) \<noteq> None then kmon_refresh_owner_locked s k i else Some s);
                      Some (Inr (), s, k)
                    })))"

definition kmon_create_current :: "sched \<Rightarrow> kmon \<Rightarrow> u32 \<Rightarrow> u32 \<Rightarrow> bool \<Rightarrow> (errno + u32) \<times> kmon" where
  "kmon_create_current s k ceiling flags out =
     (if current_task s = None then (Inl EPERM, k)
      else if \<not> out then (Inl EINVAL, k)
      else if ceiling > 255 then (Inl EINVAL, k)
      else
        (case kmon_alloc_locked k of
           None \<Rightarrow> (Inl ENOSPC, k)
         | Some (i, k) \<Rightarrow>
             (let fl = (if flags \<noteq> 0 then flags else KMON_HOARE);
                  fl = (if fl AND (KMON_HOARE OR KMON_MESA) = 0 then fl OR KMON_HOARE else fl);
                  k = set_mon k i ((kmon_pool k i)\<lparr>prio_ceiling := ceiling, m_flags := fl\<rparr>)
              in (Inr (m_handle (kmon_pool k i)), k))))"

definition kmon_destroy_current :: "sched \<Rightarrow> kmon \<Rightarrow> u32 \<Rightarrow> (errno + unit) \<times> kmon" where
  "kmon_destroy_current s k handle =
     (if current_task s = None then (Inl EPERM, k)
      else
        (case kmon_find_locked k handle of
           None \<Rightarrow> (Inl ENOENT, k)
         | Some i \<Rightarrow>
             (let e = kmon_pool k i
              in if m_owner e \<noteq> None \<or> n_waiters (enter_q e) \<noteq> 0 \<or> n_waiters (urgent_q e) \<noteq> 0 then (Inl EBUSY, k)
                 else if for_find (\<lambda>c. n_waiters (m_cond e c) \<noteq> 0) 0 KMON_MAX_COND \<noteq> None then (Inl EBUSY, k)
                 else (Inr (), set_mon k i zero_mon))))"

definition kmon_init :: kmon where
  "kmon_init = \<lparr>kmon_pool = (\<lambda>_. zero_mon), kmon_waiters = (\<lambda>_. zero_mwaiter), mw_next = (\<lambda>_. None), kmon_next_handle = 1\<rparr>"

definition kmon_cleanup_waiter :: "nat \<Rightarrow> nat \<Rightarrow> sched \<times> kmon \<Rightarrow> (sched \<times> kmon) option" where
  "kmon_cleanup_waiter task w sk =
     (let (s, k) = sk; v = kmon_waiters k w
      in case mw_mon v of
           None \<Rightarrow> Some (s, k)
         | Some i \<Rightarrow>
             if \<not> mw_active v \<or> mw_task v \<noteq> Some task then Some (s, k)
             else
               do {
                 k \<leftarrow> kmon_queue_remove_locked k (kmon_waiter_queue i v) w;
                 s \<leftarrow> (if m_owner (kmon_pool k i) \<noteq> None then kmon_refresh_owner_locked s k i else Some s);
                 Some (s, kmon_waiter_free_locked k w)
               })"

definition kmon_cleanup_owner :: "nat \<Rightarrow> nat \<Rightarrow> sched \<times> kmon \<Rightarrow> (sched \<times> kmon) option" where
  "kmon_cleanup_owner task i sk =
     (let (s, k) = sk
      in if m_active (kmon_pool k i) \<and> m_owner (kmon_pool k i) = Some task
         then kmon_release_locked s (clear_count k i) i (Some task)
         else Some (s, k))"

definition kmon_task_cleanup :: "sched \<Rightarrow> kmon \<Rightarrow> nat option \<Rightarrow> (sched \<times> kmon) option" where
  "kmon_task_cleanup s k task =
     (case task of
        None \<Rightarrow> Some (s, k)
      | Some t \<Rightarrow>
          do {
            sk \<leftarrow> ofold (kmon_cleanup_waiter t) [0..<KMON_MAX_WAITERS] (s, k);
            ofold (kmon_cleanup_owner t) [0..<KMON_MAX] sk
          })"

subsection \<open>Well-formed tables\<close>

text \<open>The queue a waiter belongs to.\<close>

definition place :: "kmon_waiter \<Rightarrow> queue_ptr option" where
  "place v = (case mw_mon v of None \<Rightarrow> None | Some i \<Rightarrow> kmon_waiter_queue i v)"

text \<open>
  Inside an operation a waiter may be in use but in no queue (\<open>L\<close>), and what ties the owner of a monitor
  to its waiters may be broken (\<open>X\<close>); between operations both sets are empty.
\<close>

definition mqueues :: "nat set \<Rightarrow> kmon \<Rightarrow> (queue_ptr \<Rightarrow> nat list) \<Rightarrow> bool" where
  "mqueues L k qs \<longleftrightarrow> qarr (mw_next k) (\<lambda>p. q_fifo (queue_at k p)) qs \<and> (\<forall>p. unat (n_waiters (queue_at k p)) = length (qs p)) \<and>
     (\<forall>p w. w \<in> set (qs p) \<longleftrightarrow> mw_active (kmon_waiters k w) \<and> place (kmon_waiters k w) = Some p \<and> w \<notin> L)"

definition mwaiters :: "nat \<Rightarrow> kmon \<Rightarrow> bool" where
  "mwaiters n k \<longleftrightarrow>
     (\<forall>w. mw_active (kmon_waiters k w) \<longrightarrow> w < KMON_MAX_WAITERS \<and> (\<exists>i < KMON_MAX. mw_mon (kmon_waiters k w) = Some i \<and> m_active (kmon_pool k i)) \<and>
        (\<exists>t < n. mw_task (kmon_waiters k w) = Some t) \<and>
        (if wake_reason (kmon_waiters k w) = KMON_WAKE_LOCK then place (kmon_waiters k w) = None
         else wake_reason (kmon_waiters k w) = KMON_WAKE_NONE \<and> place (kmon_waiters k w) \<noteq> None)) \<and>
     (\<forall>v w. mw_active (kmon_waiters k v) \<and> mw_active (kmon_waiters k w) \<and> mw_task (kmon_waiters k v) = mw_task (kmon_waiters k w) \<longrightarrow> v = w)"

definition mowner :: "kmon \<Rightarrow> (queue_ptr \<Rightarrow> nat list) \<Rightarrow> nat \<Rightarrow> bool" where
  "mowner k qs i \<longleftrightarrow>
     (\<forall>w. mw_active (kmon_waiters k w) \<and> mw_mon (kmon_waiters k w) = Some i \<longrightarrow>
        (wake_reason (kmon_waiters k w) = KMON_WAKE_LOCK \<longleftrightarrow> m_owner (kmon_pool k i) = mw_task (kmon_waiters k w))) \<and>
     entry_count (kmon_pool k i) = (if m_owner (kmon_pool k i) = None then 0 else 1) \<and>
     (m_owner (kmon_pool k i) = None \<longrightarrow> qs (EnterQ i) = [])"

definition mwf :: "nat set \<Rightarrow> nat set \<Rightarrow> nat \<Rightarrow> kmon \<Rightarrow> (queue_ptr \<Rightarrow> nat list) \<Rightarrow> bool" where
  "mwf X L n k qs \<longleftrightarrow> mqueues L k qs \<and> mwaiters n k \<and> (\<forall>i. i \<notin> X \<longrightarrow> mowner k qs i) \<and>
     (\<forall>i t. m_owner (kmon_pool k i) = Some t \<longrightarrow> t < n \<and> m_active (kmon_pool k i)) \<and> (\<forall>i. qs (UrgentQ i) = [])"

lemmas mon_consts = KMON_Q_NONE_def KMON_Q_ENTER_def KMON_Q_COND_def KMON_Q_URGENT_def KMON_WAKE_NONE_def KMON_WAKE_LOCK_def

lemma set_mon_fields [simp]:
  "kmon_pool (set_mon k i e) = (kmon_pool k)(i := e)" "kmon_waiters (set_mon k i e) = kmon_waiters k"
  "mw_next (set_mon k i e) = mw_next k" "kmon_pool (set_mwaiter k w v) = kmon_pool k"
  "kmon_waiters (set_mwaiter k w v) = (kmon_waiters k)(w := v)" "mw_next (set_mwaiter k w v) = mw_next k"
  "kmon_next_handle (set_mon k i e) = kmon_next_handle k" "kmon_next_handle (set_mwaiter k w v) = kmon_next_handle k"
  by (simp_all add: set_mon_def set_mwaiter_def)

lemma queue_at_cong: "kmon_pool k' = kmon_pool k \<Longrightarrow> queue_at k' = queue_at k"
proof (rule ext)
  fix p assume "kmon_pool k' = kmon_pool k"
  then show "queue_at k' p = queue_at k p" by (cases p) simp_all
qed

lemma set_queue_fields [simp]:
  "kmon_waiters (set_queue k p q) = kmon_waiters k" "mw_next (set_queue k p q) = mw_next k"
  "m_active (kmon_pool (set_queue k p q) i) = m_active (kmon_pool k i)" "m_owner (kmon_pool (set_queue k p q) i) = m_owner (kmon_pool k i)"
  "entry_count (kmon_pool (set_queue k p q) i) = entry_count (kmon_pool k i)" "m_flags (kmon_pool (set_queue k p q) i) = m_flags (kmon_pool k i)"
  "m_handle (kmon_pool (set_queue k p q) i) = m_handle (kmon_pool k i)" "prio_ceiling (kmon_pool (set_queue k p q) i) = prio_ceiling (kmon_pool k i)"
  by (cases p; simp)+

lemma queue_at_set [simp]: "queue_at (set_queue k p q) = (queue_at k)(p := q)"
proof (rule ext)
  fix r show "queue_at (set_queue k p q) r = ((queue_at k)(p := q)) r" by (cases p; cases r) auto
qed

lemma queue_at_pool [simp]:
  "queue_at (k\<lparr>mw_next := nx\<rparr>) = queue_at k" "queue_at (set_mwaiter k w v) = queue_at k" "queue_at (k\<lparr>kmon_next_handle := h\<rparr>) = queue_at k"
  by (rule queue_at_cong; simp add: set_mwaiter_def)+

lemma zero_mwaiter_fields [simp]:
  "\<not> mw_active zero_mwaiter" "place zero_mwaiter = None" "wake_reason zero_mwaiter = KMON_WAKE_NONE" "mw_mon zero_mwaiter = None"
  by (simp_all add: zero_mwaiter_def place_def KMON_WAKE_NONE_def)

lemma wake_distinct [simp]: "KMON_WAKE_LOCK \<noteq> KMON_WAKE_NONE" "KMON_WAKE_NONE \<noteq> KMON_WAKE_LOCK"
  by (simp_all add: mon_consts)

lemma mwfD:
  assumes "mwf X L n k qs"
  shows "qarr (mw_next k) (\<lambda>p. q_fifo (queue_at k p)) qs" "unat (n_waiters (queue_at k p)) = length (qs p)"
    "w \<in> set (qs p) \<longleftrightarrow> mw_active (kmon_waiters k w) \<and> place (kmon_waiters k w) = Some p \<and> w \<notin> L"
    "mw_active (kmon_waiters k w) \<Longrightarrow> w < KMON_MAX_WAITERS"
    "i \<notin> X \<Longrightarrow> mowner k qs i" "m_owner (kmon_pool k i) = Some t \<Longrightarrow> t < n" "m_owner (kmon_pool k i) = Some t \<Longrightarrow> m_active (kmon_pool k i)"
    "qs (UrgentQ i) = []" "mwaiters n k" "mqueues L k qs"
  using assms unfolding mwf_def mqueues_def mwaiters_def by blast+

lemma mwf_waiter:
  assumes "mwf X L n k qs" "mw_active (kmon_waiters k w)"
  obtains i t where "i < KMON_MAX" "mw_mon (kmon_waiters k w) = Some i" "m_active (kmon_pool k i)" "t < n" "mw_task (kmon_waiters k w) = Some t"
  using assms unfolding mwf_def mwaiters_def by blast

lemma mwf_wake:
  assumes "mwf X L n k qs" "mw_active (kmon_waiters k w)"
  shows "wake_reason (kmon_waiters k w) = KMON_WAKE_LOCK \<Longrightarrow> place (kmon_waiters k w) = None"
    "wake_reason (kmon_waiters k w) \<noteq> KMON_WAKE_LOCK \<Longrightarrow> wake_reason (kmon_waiters k w) = KMON_WAKE_NONE"
    "wake_reason (kmon_waiters k w) \<noteq> KMON_WAKE_LOCK \<Longrightarrow> place (kmon_waiters k w) \<noteq> None"
  using assms unfolding mwf_def mwaiters_def by metis+

lemma mwf_same_task:
  "mwf X L n k qs \<Longrightarrow> mw_active (kmon_waiters k v) \<Longrightarrow> mw_active (kmon_waiters k w) \<Longrightarrow>
   mw_task (kmon_waiters k v) = mw_task (kmon_waiters k w) \<Longrightarrow> v = w"
  unfolding mwf_def mwaiters_def by blast

lemma mwf_weaken: "mwf X L n k qs \<Longrightarrow> X \<subseteq> Y \<Longrightarrow> mwf Y L n k qs"
  unfolding mwf_def by blast

lemma mwf_settle: "mwf X L n k qs \<Longrightarrow> \<forall>i \<in> X. mowner k qs i \<Longrightarrow> mwf {} L n k qs"
  unfolding mwf_def by blast

lemma mwf_length: "mwf X L n k qs \<Longrightarrow> length (qs p) \<le> KMON_MAX_WAITERS"
proof -
  assume wf: "mwf X L n k qs"
  have "set (qs p) \<subseteq> {..<KMON_MAX_WAITERS}" using mwfD(3,4) [OF wf] by blast
  then have "card (set (qs p)) \<le> KMON_MAX_WAITERS" using card_mono [OF finite_lessThan] by fastforce
  then show ?thesis using distinct_card [OF qarrD(2) [OF mwfD(1) [OF wf]]] by simp
qed

lemma mwf_init: "mwf {} {} n kmon_init (\<lambda>_. [])"
proof -
  have "queue_at kmon_init p = zero_queue" for p by (cases p) (simp_all add: kmon_init_def zero_mon_def)
  then show ?thesis
    by (auto simp: mwf_def mqueues_def mwaiters_def mowner_def qarr_empty zero_queue_def) (auto simp: kmon_init_def zero_mon_def)
qed

text \<open>Changes of the waiter table, of the entries and of one queue at a time.\<close>

lemma mowner_cong:
  assumes "mowner k qs i" "m_owner (kmon_pool k' i) = m_owner (kmon_pool k i)" "entry_count (kmon_pool k' i) = entry_count (kmon_pool k i)"
    "\<And>w. mw_active (kmon_waiters k' w) \<Longrightarrow> mw_mon (kmon_waiters k' w) = Some i \<Longrightarrow> mw_active (kmon_waiters k w) \<and> mw_mon (kmon_waiters k w) = Some i \<and>
       mw_task (kmon_waiters k' w) = mw_task (kmon_waiters k w) \<and> (wake_reason (kmon_waiters k' w) = KMON_WAKE_LOCK \<longleftrightarrow> wake_reason (kmon_waiters k w) = KMON_WAKE_LOCK)"
    "m_owner (kmon_pool k i) = None \<Longrightarrow> qs (EnterQ i) = [] \<Longrightarrow> qs' (EnterQ i) = []"
  shows "mowner k' qs' i"
  using assms unfolding mowner_def by metis

lemma mwf_set_waiter:
  assumes wf: "mwf X L n k qs" and out: "\<And>p. w \<notin> set (qs p)"
    and v: "mw_active v \<Longrightarrow> w < KMON_MAX_WAITERS \<and> (\<exists>i < KMON_MAX. mw_mon v = Some i \<and> m_active (kmon_pool k i)) \<and> (\<exists>t < n. mw_task v = Some t) \<and>
        (if wake_reason v = KMON_WAKE_LOCK then place v = None else wake_reason v = KMON_WAKE_NONE \<and> place v \<noteq> None)"
    and task: "\<And>u. mw_active v \<Longrightarrow> u \<noteq> w \<Longrightarrow> mw_active (kmon_waiters k u) \<Longrightarrow> mw_task (kmon_waiters k u) \<noteq> mw_task v"
    and limbo: "mw_active v \<and> place v \<noteq> None \<Longrightarrow> w \<in> L'" "L' - {w} = L - {w}"
    and own: "\<And>i. mw_active v \<Longrightarrow> mw_mon v = Some i \<Longrightarrow> i \<notin> X \<Longrightarrow> wake_reason v = KMON_WAKE_LOCK \<longleftrightarrow> m_owner (kmon_pool k i) = mw_task v"
    and nx: "\<And>y. y \<noteq> w \<Longrightarrow> nx y = mw_next k y"
  shows "mwf X L' n ((set_mwaiter k w v)\<lparr>mw_next := nx\<rparr>) qs"
proof -
  have "fifo_rep nx (q_fifo (queue_at k p)) (qs p)" for p
    by (rule fifo_rep_frame [OF qarrD(1) [OF mwfD(1) [OF wf]]]) (use nx out in metis)
  then have "qarr nx (\<lambda>p. q_fifo (queue_at k p)) qs" using mwfD(1) [OF wf] by (simp add: qarr_def)
  moreover have "u \<in> set (qs p) \<longleftrightarrow> (if u = w then mw_active v \<and> place v = Some p \<and> w \<notin> L'
      else mw_active (kmon_waiters k u) \<and> place (kmon_waiters k u) = Some p \<and> u \<notin> L')" for u p
    using out [of p] limbo mwfD(3) [OF wf, of u p] by auto
  ultimately have 1: "mqueues L' ((set_mwaiter k w v)\<lparr>mw_next := nx\<rparr>) qs"
    using mwfD(2) [OF wf] by (simp add: mqueues_def)
  have 2: "mwaiters n ((set_mwaiter k w v)\<lparr>mw_next := nx\<rparr>)"
    using mwfD(9) [OF wf] v task unfolding mwaiters_def by simp metis
  have "mowner ((set_mwaiter k w v)\<lparr>mw_next := nx\<rparr>) qs i" if "i \<notin> X" for i
    using mwfD(5) [OF wf that] own that unfolding mowner_def by simp
  then show ?thesis using 1 2 wf unfolding mwf_def by simp
qed

lemma mwf_set_queue:
  assumes wf: "mwf X L n k qs" and q: "qarr nx ((\<lambda>p. q_fifo (queue_at k p))(p := f)) (qs(p := xs))" and m: "unat m = length xs"
    and xs: "\<And>w. w \<in> set xs \<longleftrightarrow> mw_active (kmon_waiters k w) \<and> place (kmon_waiters k w) = Some p \<and> w \<notin> L'"
    and other: "\<And>w. place (kmon_waiters k w) \<noteq> Some p \<Longrightarrow> w \<in> L' \<longleftrightarrow> w \<in> L"
    and e: "\<And>i. p = EnterQ i \<Longrightarrow> i \<notin> X \<Longrightarrow> m_owner (kmon_pool k i) = None \<Longrightarrow> xs = []" "\<And>i. p \<noteq> UrgentQ i"
  shows "mwf X L' n ((set_queue k p \<lparr>q_fifo = f, n_waiters = m\<rparr>)\<lparr>mw_next := nx\<rparr>) (qs(p := xs))"
proof -
  have f: "(\<lambda>r. q_fifo (((queue_at k)(p := \<lparr>q_fifo = f, n_waiters = m\<rparr>)) r)) = (\<lambda>p. q_fifo (queue_at k p))(p := f)" by (simp add: fun_eq_iff)
  have mem: "w \<in> set ((qs(p := xs)) r) \<longleftrightarrow> mw_active (kmon_waiters k w) \<and> place (kmon_waiters k w) = Some r \<and> w \<notin> L'" for w r
    using xs [of w] other [of w] mwfD(3) [OF wf, of w r] by (cases "r = p") auto
  have 1: "mqueues L' ((set_queue k p \<lparr>q_fifo = f, n_waiters = m\<rparr>)\<lparr>mw_next := nx\<rparr>) (qs(p := xs))"
    unfolding mqueues_def using q m mwfD(2) [OF wf] mem by (simp add: f del: fun_upd_apply) (simp)
  have 2: "mwaiters n ((set_queue k p \<lparr>q_fifo = f, n_waiters = m\<rparr>)\<lparr>mw_next := nx\<rparr>)"
    using mwfD(9) [OF wf] unfolding mwaiters_def by simp
  have "mowner ((set_queue k p \<lparr>q_fifo = f, n_waiters = m\<rparr>)\<lparr>mw_next := nx\<rparr>) (qs(p := xs)) i" if "i \<notin> X" for i
    by (rule mowner_cong [OF mwfD(5) [OF wf that]]) (use e(1) that in auto)
  then show ?thesis using 1 2 mwfD(6-8) [OF wf] not_sym [OF e(2)] unfolding mwf_def by simp
qed

lemma mwf_set_owner:
  assumes wf: "mwf X L n k qs" and i: "i \<in> X" "\<And>t. ow = Some t \<Longrightarrow> t < n \<and> m_active (kmon_pool k i)"
  shows "mwf X L n (set_mon k i ((kmon_pool k i)\<lparr>m_owner := ow, entry_count := c\<rparr>)) qs"
proof -
  let ?k = "set_mon k i ((kmon_pool k i)\<lparr>m_owner := ow, entry_count := c\<rparr>)"
  have q: "queue_at ?k p = queue_at k p" for p by (cases p) simp_all
  have "mqueues L ?k qs" using mwfD(10) [OF wf] by (simp add: mqueues_def q)
  moreover have "mwaiters n ?k" using mwfD(9) [OF wf] unfolding mwaiters_def by auto
  moreover have "mowner ?k qs j" if "j \<notin> X" for j
    by (rule mowner_cong [OF mwfD(5) [OF wf that]]) (use that i(1) in auto)
  ultimately show ?thesis using mwfD(6-8) [OF wf] i(2) unfolding mwf_def by auto
qed

lemma mwf_alloc:
  assumes wf: "mwf X L n k qs" and al: "kmon_waiter_alloc_locked k i t kind c = Some (w, k')" and i: "i < KMON_MAX" "m_active (kmon_pool k i)"
    and t: "t < n" "\<And>u. mw_active (kmon_waiters k u) \<Longrightarrow> mw_task (kmon_waiters k u) \<noteq> Some t" "i \<in> X \<or> m_owner (kmon_pool k i) \<noteq> Some t"
    and kind: "kind = KMON_Q_ENTER \<or> kind = KMON_Q_COND \<and> unat c < KMON_MAX_COND"
  shows "mwf X (insert w L) n k' qs" "\<not> mw_active (kmon_waiters k w)"
    "kmon_waiters k' = (kmon_waiters k)(w := zero_mwaiter\<lparr>mw_active := True, mw_mon := Some i, mw_task := Some t, queue_kind := kind, cond_idx := c\<rparr>)"
    "kmon_pool k' = kmon_pool k"
proof -
  let ?v = "zero_mwaiter\<lparr>mw_active := True, mw_mon := Some i, mw_task := Some t, queue_kind := kind, cond_idx := c\<rparr>"
  have w: "w < KMON_MAX_WAITERS" "\<not> mw_active (kmon_waiters k w)" and k': "k' = (set_mwaiter k w ?v)\<lparr>mw_next := (mw_next k)(w := None)\<rparr>"
    using al by (auto simp: kmon_waiter_alloc_locked_def for_find_Some split: option.splits)
  have pl: "place ?v \<noteq> None" using kind by (auto simp: place_def kmon_waiter_queue_def)
  have wk: "wake_reason ?v = KMON_WAKE_NONE" by simp
  show "mwf X (insert w L) n k' qs" unfolding k'
  proof (rule mwf_set_waiter [OF wf])
    show "w \<notin> set (qs p)" for p using mwfD(3) [OF wf] w(2) by blast
  qed (use w i t pl wk in auto)
qed (use al in \<open>auto simp: kmon_waiter_alloc_locked_def for_find_Some split: option.splits\<close>)

lemma mwf_push:
  assumes wf: "mwf X L n k qs" and w: "w \<in> L" "mw_active (kmon_waiters k w)" "place (kmon_waiters k w) = Some p"
    and p: "\<And>i. p = EnterQ i \<Longrightarrow> i \<in> X \<or> m_owner (kmon_pool k i) \<noteq> None" "\<And>i. p \<noteq> UrgentQ i"
  shows "mwf X (L - {w}) n (kmon_queue_push_tail_locked k p w) (qs(p := qs p @ [w]))"
proof -
  obtain nx f where f: "fifo_push (mw_next k) (q_fifo (queue_at k p)) w = (nx, f)" by fastforce
  have out: "w \<notin> set (qs r)" for r using mwfD(3) [OF wf] w(1) by blast
  have len: "unat (n_waiters (queue_at k p) + 1) = length (qs p @ [w])"
    using mwfD(2) [OF wf, of p] mwf_length [OF wf, of p] by (simp add: KMON_MAX_WAITERS_def unat_word_ariths(1))
  have "mwf X (L - {w}) n ((set_queue k p \<lparr>q_fifo = f, n_waiters = n_waiters (queue_at k p) + 1\<rparr>)\<lparr>mw_next := nx\<rparr>) (qs(p := qs p @ [w]))"
    by (rule mwf_set_queue [OF wf qarr_push [OF mwfD(1) [OF wf] out f] len])
      (use mwfD(3) [OF wf, of _ p] w p in auto)
  then show ?thesis by (simp add: kmon_queue_push_tail_locked_def Let_def f)
qed

lemma mon_push_fields [simp]:
  "kmon_waiters (kmon_queue_push_tail_locked k p w) = kmon_waiters k"
  "m_owner (kmon_pool (kmon_queue_push_tail_locked k p w) i) = m_owner (kmon_pool k i)"
  "m_active (kmon_pool (kmon_queue_push_tail_locked k p w) i) = m_active (kmon_pool k i)"
  "entry_count (kmon_pool (kmon_queue_push_tail_locked k p w) i) = entry_count (kmon_pool k i)"
  "m_flags (kmon_pool (kmon_queue_push_tail_locked k p w) i) = m_flags (kmon_pool k i)"
  "m_handle (kmon_pool (kmon_queue_push_tail_locked k p w) i) = m_handle (kmon_pool k i)"
  by (simp_all add: kmon_queue_push_tail_locked_def Let_def split_beta)

lemma dec_waiters_unat: "unat m = length (w # ws) \<Longrightarrow> unat (dec_waiters m) = length ws"
proof -
  assume m: "unat m = length (w # ws)"
  then have "m \<noteq> 0" by auto
  then show ?thesis using m by (simp add: dec_waiters_def unat_minus_one)
qed

text \<open>Everything about the monitors but their queues.\<close>

definition mon_same :: "kmon \<Rightarrow> kmon \<Rightarrow> bool" where
  "mon_same k k' \<longleftrightarrow> (\<forall>i. m_owner (kmon_pool k' i) = m_owner (kmon_pool k i) \<and> m_active (kmon_pool k' i) = m_active (kmon_pool k i) \<and>
     entry_count (kmon_pool k' i) = entry_count (kmon_pool k i) \<and> m_flags (kmon_pool k' i) = m_flags (kmon_pool k i) \<and>
     m_handle (kmon_pool k' i) = m_handle (kmon_pool k i))"

lemma mwf_pop:
  assumes wf: "mwf X L n k qs" and q: "qs p = w # ws"
  obtains k' where "kmon_queue_pop_head_locked k p = (Some w, k')" "mwf X (insert w L) n k' (qs(p := ws))" "kmon_waiters k' = kmon_waiters k" "mon_same k k'"
    "mw_active (kmon_waiters k w)" "place (kmon_waiters k w) = Some p" "w \<notin> L"
proof -
  have rep: "fifo_rep (mw_next k) (q_fifo (queue_at k p)) (w # ws)" using qarrD(1) [OF mwfD(1) [OF wf], of p] q by simp
  obtain nx f where f: "fifo_pop (mw_next k) (q_fifo (queue_at k p)) = (Some w, nx, f)" "fifo_rep nx f ws" "nx = (mw_next k)(w := None)"
    by (rule fifo_pop_rep_Cons [OF rep])
  have w: "mw_active (kmon_waiters k w)" "place (kmon_waiters k w) = Some p" "w \<notin> L" using mwfD(3) [OF wf, of w p] q by auto
  have d: "distinct (w # ws)" using qarrD(2) [OF mwfD(1) [OF wf], of p] q by simp
  have ur: "\<And>i. p \<noteq> UrgentQ i" using mwfD(8) [OF wf] q by auto
  have "qarr nx ((\<lambda>p. q_fifo (queue_at k p))(p := f)) (qs(p := ws))"
    by (rule qarr_update [OF mwfD(1) [OF wf] f(2)]) (use f(3) q qarrD(3) [OF mwfD(1) [OF wf]] in \<open>auto, fastforce\<close>)
  then have "mwf X (insert w L) n ((set_queue k p \<lparr>q_fifo = f, n_waiters = dec_waiters (n_waiters (queue_at k p))\<rparr>)\<lparr>mw_next := nx\<rparr>) (qs(p := ws))"
    by (rule mwf_set_queue [OF wf _ dec_waiters_unat [of _ w]])
      (use mwfD(2) [OF wf, of p] mwfD(3) [OF wf, of _ p] mwfD(5) [OF wf] q w d ur in \<open>auto simp: mowner_def\<close>)
  then show ?thesis using that w by (simp add: kmon_queue_pop_head_locked_def Let_def f(1) mon_same_def)
qed

lemma mwf_pop_empty: "mwf X L n k qs \<Longrightarrow> qs p = [] \<Longrightarrow> kmon_queue_pop_head_locked k p = (None, k)"
  using qarrD(1) [OF mwfD(1), of X L n k qs p] by (simp add: kmon_queue_pop_head_locked_def Let_def fifo_pop_rep_Nil)

lemma mwf_remove:
  assumes wf: "mwf X L n k qs" and w: "mw_active (kmon_waiters k w)" "place (kmon_waiters k w) = Some p" "w \<notin> L"
  obtains k' where "kmon_queue_remove_locked k (Some p) w = Some k'" "mwf X (insert w L) n k' (qs(p := remove1 w (qs p)))"
    "kmon_waiters k' = kmon_waiters k" "mon_same k k'"
proof -
  have mem: "w \<in> set (qs p)" using mwfD(3) [OF wf, of w p] w by blast
  obtain nx f where f: "fifo_remove (mw_next k) (q_fifo (queue_at k p)) w = Some (w \<in> set (qs p), nx, f)"
    "qarr nx ((\<lambda>p. q_fifo (queue_at k p))(p := f)) (qs(p := remove1 w (qs p)))"
    by (rule qarr_remove [OF mwfD(1) [OF wf], of p w])
  have d: "distinct (qs p)" by (rule qarrD(2) [OF mwfD(1) [OF wf]])
  have ur: "\<And>i. p \<noteq> UrgentQ i" using mwfD(8) [OF wf] mem by auto
  have len: "unat (dec_waiters (n_waiters (queue_at k p))) = length (remove1 w (qs p))"
    by (rule dec_waiters_unat [of _ w]) (use mwfD(2) [OF wf, of p] mem length_pos_if_in_set [OF mem] in \<open>simp add: length_remove1\<close>)
  have "mwf X (insert w L) n ((set_queue k p \<lparr>q_fifo = f, n_waiters = dec_waiters (n_waiters (queue_at k p))\<rparr>)\<lparr>mw_next := nx\<rparr>) (qs(p := remove1 w (qs p)))"
    by (rule mwf_set_queue [OF wf f(2) len])
      (use mwfD(3) [OF wf, of _ p] mwfD(5) [OF wf] w d ur in \<open>auto simp: mowner_def\<close>)
  then show ?thesis using that f(1) mem by (simp add: kmon_queue_remove_locked_def Let_def mon_same_def)
qed

lemma mwf_free:
  assumes wf: "mwf X L n k qs" and w: "w \<in> L \<or> place (kmon_waiters k w) = None"
  shows "mwf X (L - {w}) n (kmon_waiter_free_locked k w) qs"
  unfolding kmon_waiter_free_locked_def
proof (rule mwf_set_waiter [OF wf])
  show "w \<notin> set (qs p)" for p using mwfD(3) [OF wf] w by auto
qed auto

lemma free_fields [simp]:
  "kmon_waiters (kmon_waiter_free_locked k w) = (kmon_waiters k)(w := zero_mwaiter)" "kmon_pool (kmon_waiter_free_locked k w) = kmon_pool k"
  by (simp_all add: kmon_waiter_free_locked_def)

lemma mwf_requeue:
  assumes wf: "mwf X L n k qs" and w: "w \<in> L" "mw_active (kmon_waiters k w)" "mw_mon (kmon_waiters k w) = Some i" "wake_reason (kmon_waiters k w) \<noteq> KMON_WAKE_LOCK"
    and o': "i \<in> X \<or> m_owner (kmon_pool k i) \<noteq> None"
  shows "mwf X (L - {w}) n (kmon_requeue k i w) (qs(EnterQ i := qs (EnterQ i) @ [w]))"
    "kmon_waiters (kmon_requeue k i w) = (kmon_waiters k)(w := (kmon_waiters k w)\<lparr>queue_kind := KMON_Q_ENTER, wake_reason := KMON_WAKE_NONE\<rparr>)"
    "mon_same k (kmon_requeue k i w)"
proof -
  let ?v = "(kmon_waiters k w)\<lparr>queue_kind := KMON_Q_ENTER, wake_reason := KMON_WAKE_NONE\<rparr>"
  have pl: "place ?v = Some (EnterQ i)" using w(3) by (simp add: place_def kmon_waiter_queue_def)
  obtain j t where j: "j < KMON_MAX" "mw_mon (kmon_waiters k w) = Some j" "m_active (kmon_pool k j)" "t < n" "mw_task (kmon_waiters k w) = Some t"
    by (rule mwf_waiter [OF wf w(2)])
  have "mwf X L n ((set_mwaiter k w ?v)\<lparr>mw_next := mw_next k\<rparr>) qs"
  proof (rule mwf_set_waiter [OF wf])
    show "w \<notin> set (qs p)" for p using mwfD(3) [OF wf] w(1) by blast
    show "mw_task (kmon_waiters k u) \<noteq> mw_task ?v" if "u \<noteq> w" "mw_active (kmon_waiters k u)" for u
      using mwf_same_task [OF wf that(2) w(2)] that(1) by auto
    show "wake_reason ?v = KMON_WAKE_LOCK \<longleftrightarrow> m_owner (kmon_pool k l) = mw_task ?v" if "mw_mon ?v = Some l" "l \<notin> X" for l
      using mwfD(5) [OF wf that(2)] that(1) w(2,4) unfolding mowner_def by auto
  qed (use j pl w(1) mwfD(4) [OF wf w(2)] in auto)
  then have wf': "mwf X L n (set_mwaiter k w ?v) qs" by (simp add: set_mwaiter_def)
  show "mwf X (L - {w}) n (kmon_requeue k i w) (qs(EnterQ i := qs (EnterQ i) @ [w]))"
    unfolding kmon_requeue_def by (rule mwf_push [OF wf' w(1)]) (use w(2) pl o' in auto)
qed (simp_all add: kmon_requeue_def mon_same_def)

lemma mwf_grant:
  assumes wf: "mwf X L n k qs" and w: "w \<in> L" "mw_active (kmon_waiters k w)" "mw_mon (kmon_waiters k w) = Some i" "i \<in> X"
  shows "mwf X (L - {w}) n (set_mwaiter k w ((kmon_waiters k w)\<lparr>queue_kind := KMON_Q_NONE, wake_reason := KMON_WAKE_LOCK\<rparr>)) qs"
proof -
  let ?v = "(kmon_waiters k w)\<lparr>queue_kind := KMON_Q_NONE, wake_reason := KMON_WAKE_LOCK\<rparr>"
  have pl: "place ?v = None" using w(3) by (simp add: place_def kmon_waiter_queue_def mon_consts)
  obtain j t where j: "j < KMON_MAX" "mw_mon (kmon_waiters k w) = Some j" "m_active (kmon_pool k j)" "t < n" "mw_task (kmon_waiters k w) = Some t"
    by (rule mwf_waiter [OF wf w(2)])
  have "mwf X (L - {w}) n ((set_mwaiter k w ?v)\<lparr>mw_next := mw_next k\<rparr>) qs"
  proof (rule mwf_set_waiter [OF wf])
    show "w \<notin> set (qs p)" for p using mwfD(3) [OF wf] w(1) by blast
    show "mw_task (kmon_waiters k u) \<noteq> mw_task ?v" if "u \<noteq> w" "mw_active (kmon_waiters k u)" for u
      using mwf_same_task [OF wf that(2) w(2)] that(1) by auto
  qed (use j pl w mwfD(4) [OF wf w(2)] in auto)
  then show ?thesis by (simp add: set_mwaiter_def)
qed

subsection \<open>Ownership changes\<close>

lemma mon_scan_chain:
  "chain (mw_next k) cur xs \<Longrightarrow> mon_scan (s, k) best cur = Some (foldl (mon_best s k) best xs)"
proof (induction xs arbitrary: best cur)
  case Nil then show ?case by (simp add: mon_scan.simps)
next
  case (Cons x xs) then show ?case by (subst mon_scan.simps) simp
qed

lemma refresh_kept:
  assumes inv: "sched_inv s" and wf: "mwf X L (task_count s) k qs"
  shows "\<exists>s'. kmon_refresh_owner_locked s k i = Some s' \<and> sched_kept s s'"
proof (cases "m_owner (kmon_pool k i)")
  case None then show ?thesis using inv by (simp add: kmon_refresh_owner_locked_def Let_def sched_kept_refl)
next
  case (Some t)
  then have t: "t < task_count s" by (rule mwfD(6) [OF wf])
  have "chain (mw_next k) (fhead (q_fifo (queue_at k p))) (qs p)" for p using qarrD(1) [OF mwfD(1) [OF wf]] by (simp add: fifo_rep_def)
  from mon_scan_chain [OF this [of "EnterQ i"]] mon_scan_chain [OF this [of "UrgentQ i"]]
  have scan: "mon_scan (s, k) b (fhead (q_fifo (enter_q (kmon_pool k i)))) = Some (foldl (mon_best s k) b (qs (EnterQ i)))"
    "mon_scan (s, k) b (fhead (q_fifo (urgent_q (kmon_pool k i)))) = Some (foldl (mon_best s k) b (qs (UrgentQ i)))" for b by simp_all
  obtain b s' where "sched_task_donate_priority s (Some t) (foldl (mon_best s k) (foldl (mon_best s k)
      (if prio_ceiling (kmon_pool k i) \<noteq> 0 then ucast (prio_ceiling (kmon_pool k i)) else 0xFF) (qs (EnterQ i))) (qs (UrgentQ i))) = Some (b, s')" "sched_kept s s'"
    using donate_kept [OF inv t] by blast
  moreover obtain s'' where "sched_task_clear_donation s (Some t) = Some s''" "sched_kept s s''" using clear_kept [OF inv t] by blast
  ultimately show ?thesis using Some sched_kept_refl [OF inv] by (simp add: kmon_refresh_owner_locked_def Let_def scan)
qed

text \<open>Operations change the scheduler only by donations and by waking tasks.\<close>

definition sched_soft :: "sched \<Rightarrow> sched \<Rightarrow> bool" where
  "sched_soft s s' \<longleftrightarrow> task_inv s' \<and> task_count s' = task_count s \<and> current_task s' = current_task s \<and>
     (\<forall>x. state_of s' x = TCB_BLOCKED \<longrightarrow> state_of s x = TCB_BLOCKED)"

lemma sched_softD:
  assumes "sched_soft s s'"
  shows "task_inv s'" "task_count s' = task_count s" "current_task s' = current_task s" "state_of s' x = TCB_BLOCKED \<Longrightarrow> state_of s x = TCB_BLOCKED"
  using assms by (auto simp: sched_soft_def)

lemma sched_soft_refl: "task_inv s \<Longrightarrow> sched_soft s s"
  by (simp add: sched_soft_def)

lemma sched_soft_kept: "task_inv s \<Longrightarrow> sched_kept s s' \<Longrightarrow> sched_soft s s'"
  using task_inv_kept sched_keptD by (fastforce simp: sched_soft_def)

lemma sched_soft_trans: "sched_soft a b \<Longrightarrow> sched_soft b c \<Longrightarrow> sched_soft a c"
  by (auto simp: sched_soft_def)

lemma wake_soft:
  assumes "task_inv s" "t < task_count s" shows "sched_soft s (kmon_wake s (Some t))" "state_of (kmon_wake s (Some t)) t \<noteq> TCB_BLOCKED"
  using assms task_inv_sched [OF assms(1) step_unblock [OF assms(2)]] by (auto simp: kmon_wake_def sched_soft_def)

lemma refresh_soft:
  assumes "task_inv s" "mwf X L (task_count s) k qs"
  obtains s' where "kmon_refresh_owner_locked s k i = Some s'" "sched_soft s s'"
  using refresh_kept [OF task_invD(1) [OF assms(1)] assms(2)] sched_soft_kept [OF assms(1)] by blast

lemma assign_ok:
  assumes inv: "task_inv s" and wf: "mwf X L (task_count s) k qs" and i: "i \<in> X" "m_active (kmon_pool k i)" and t: "t < task_count s"
  obtains s' where "kmon_assign_owner_locked s k i (Some t) = Some (s', set_mon k i ((kmon_pool k i)\<lparr>m_owner := Some t, entry_count := 1\<rparr>))" "sched_soft s s'"
    "mwf X L (task_count s) (set_mon k i ((kmon_pool k i)\<lparr>m_owner := Some t, entry_count := 1\<rparr>)) qs"
proof -
  have wf': "mwf X L (task_count s) (set_mon k i ((kmon_pool k i)\<lparr>m_owner := Some t, entry_count := 1\<rparr>)) qs"
    by (rule mwf_set_owner [OF wf i(1)]) (use i(2) t in auto)
  obtain s' where "kmon_refresh_owner_locked s (set_mon k i ((kmon_pool k i)\<lparr>m_owner := Some t, entry_count := 1\<rparr>)) i = Some s'" "sched_soft s s'"
    by (rule refresh_soft [OF inv wf'])
  then show ?thesis using that wf' by (simp add: kmon_assign_owner_locked_def Let_def)
qed

text \<open>
  A release with nobody in the enter queue leaves the monitor free; otherwise the first of the queue owns it, is told so and is not
  blocked any more.
\<close>

definition handed_over :: "sched \<Rightarrow> kmon \<Rightarrow> nat \<Rightarrow> (queue_ptr \<Rightarrow> nat list) \<Rightarrow> sched \<Rightarrow> kmon \<Rightarrow> bool" where
  "handed_over s k i qs s' k' \<longleftrightarrow> sched_soft s s' \<and>
     (\<forall>j. m_active (kmon_pool k' j) = m_active (kmon_pool k j) \<and> m_handle (kmon_pool k' j) = m_handle (kmon_pool k j) \<and>
       (j \<noteq> i \<longrightarrow> m_owner (kmon_pool k' j) = m_owner (kmon_pool k j))) \<and>
     (case qs (EnterQ i) of [] \<Rightarrow> mwf {} {} (task_count s) k' qs \<and> m_owner (kmon_pool k' i) = None \<and> kmon_waiters k' = kmon_waiters k
      | w # ws \<Rightarrow> mwf {} {} (task_count s) k' (qs(EnterQ i := ws)) \<and> m_owner (kmon_pool k' i) = mw_task (kmon_waiters k w) \<and> m_owner (kmon_pool k' i) \<noteq> None \<and>
         kmon_waiters k' = (kmon_waiters k)(w := (kmon_waiters k w)\<lparr>queue_kind := KMON_Q_NONE, wake_reason := KMON_WAKE_LOCK\<rparr>) \<and>
         (\<forall>u. mw_task (kmon_waiters k w) = Some u \<longrightarrow> state_of s' u \<noteq> TCB_BLOCKED))"

lemma next_owner:
  assumes wf: "mwf X L n k qs"
  shows "kmon_next_owner k i = (case qs (EnterQ i) of [] \<Rightarrow> (None, k) | _ \<Rightarrow> kmon_queue_pop_head_locked k (EnterQ i))"
proof -
  have "fhead (q_fifo (queue_at k p)) = None \<longleftrightarrow> qs p = []" for p by (rule fifo_rep_head [OF qarrD(1) [OF mwfD(1) [OF wf]]])
  from this [of "EnterQ i"] this [of "UrgentQ i"] show ?thesis using mwfD(8) [OF wf, of i] by (simp add: kmon_next_owner_def split: list.split)
qed

lemma mowner_grant:
  assumes wf: "mwf X L n k qs" and w: "mw_active (kmon_waiters k w)" "wake_reason (kmon_waiters k w) = KMON_WAKE_LOCK" "mw_task (kmon_waiters k w) = Some t"
    and others: "\<And>v. mw_active (kmon_waiters k v) \<Longrightarrow> mw_mon (kmon_waiters k v) = Some i \<Longrightarrow> v \<noteq> w \<Longrightarrow> wake_reason (kmon_waiters k v) \<noteq> KMON_WAKE_LOCK"
    and o': "m_owner (kmon_pool k i) = Some t" "entry_count (kmon_pool k i) = 1"
  shows "mowner k qs i"
proof -
  have "wake_reason (kmon_waiters k v) = KMON_WAKE_LOCK \<longleftrightarrow> Some t = mw_task (kmon_waiters k v)"
    if "mw_active (kmon_waiters k v)" "mw_mon (kmon_waiters k v) = Some i" for v
    using others [OF that] w mwf_same_task [OF wf that(1) w(1)] by (cases "v = w") auto
  then show ?thesis using o' by (simp add: mowner_def)
qed

lemma release_ok:
  assumes inv: "task_inv s" and wf: "mwf {i} {} (task_count s) k qs" and i: "m_active (kmon_pool k i)" and old: "t < task_count s"
    and nolock: "\<And>v. mw_active (kmon_waiters k v) \<Longrightarrow> mw_mon (kmon_waiters k v) = Some i \<Longrightarrow> wake_reason (kmon_waiters k v) \<noteq> KMON_WAKE_LOCK"
  shows "\<exists>s' k'. kmon_release_locked s k i (Some t) = Some (s', k') \<and> handed_over s k i qs s' k'"
proof -
  obtain s1 where s1: "(if mon_rt (kmon_pool k i) \<and> Some t \<noteq> None then sched_task_clear_donation s (Some t) else Some s) = Some s1" "sched_soft s s1"
    using clear_kept [OF task_invD(1) [OF inv] old] sched_soft_kept [OF inv] sched_soft_refl [OF inv] by (cases "mon_rt (kmon_pool k i)") auto
  note n1 = sched_softD(1,2) [OF s1(2)]
  show ?thesis
  proof (cases "qs (EnterQ i)")
    case Nil
    let ?k = "set_mon k i ((kmon_pool k i)\<lparr>m_owner := None, entry_count := 0\<rparr>)"
    have "mwf {i} {} (task_count s) ?k qs" by (rule mwf_set_owner [OF wf]) auto
    then have "mwf {} {} (task_count s) ?k qs"
      by (rule mwf_settle) (use Nil nolock mwf_waiter [OF wf] in \<open>auto simp: mowner_def, metis option.distinct(1)\<close>)
    then show ?thesis using s1 Nil by (simp add: kmon_release_locked_def next_owner [OF wf] handed_over_def)
  next
    case (Cons w ws)
    obtain k1 where k1: "kmon_queue_pop_head_locked k (EnterQ i) = (Some w, k1)" "mwf {i} (insert w {}) (task_count s) k1 (qs(EnterQ i := ws))"
      "kmon_waiters k1 = kmon_waiters k" "mon_same k k1" "mw_active (kmon_waiters k w)" "place (kmon_waiters k w) = Some (EnterQ i)"
      by (rule mwf_pop [OF wf Cons])
    have mon: "mw_mon (kmon_waiters k w) = Some i"
      using k1(6) by (auto simp: place_def kmon_waiter_queue_def split: option.splits if_splits)
    obtain u where u: "u < task_count s" "mw_task (kmon_waiters k w) = Some u" by (rule mwf_waiter [OF wf k1(5)])
    let ?v = "(kmon_waiters k w)\<lparr>queue_kind := KMON_Q_NONE, wake_reason := KMON_WAKE_LOCK\<rparr>"
    define k2 where "k2 = set_mwaiter k1 w ?v"
    have wf2: "mwf {i} {} (task_count s1) k2 (qs(EnterQ i := ws))"
      using mwf_grant [OF k1(2), of w i] k1(3,5) mon n1(2) by (simp add: k2_def)
    have i2: "m_active (kmon_pool k2 i)" using i k1(4) by (simp add: k2_def mon_same_def)
    define k3 where "k3 = set_mon k2 i ((kmon_pool k2 i)\<lparr>m_owner := Some u, entry_count := 1\<rparr>)"
    obtain s2 where s2: "kmon_assign_owner_locked s1 k2 i (Some u) = Some (s2, k3)" "sched_soft s1 s2" "mwf {i} {} (task_count s1) k3 (qs(EnterQ i := ws))"
      using assign_ok [OF n1(1) wf2 _ i2, of u] u(1) n1(2) unfolding k3_def by auto
    have u2: "u < task_count s2" using u(1) n1(2) sched_softD(2) [OF s2(2)] by simp
    note wk = wake_soft [OF sched_softD(1) [OF s2(2)] u2]
    have w3: "kmon_waiters k3 = (kmon_waiters k)(w := ?v)" by (simp add: k3_def k2_def k1(3))
    have "mowner k3 (qs(EnterQ i := ws)) i"
    proof (rule mowner_grant [OF s2(3), of w u])
      show "m_owner (kmon_pool k3 i) = Some u" "entry_count (kmon_pool k3 i) = 1" by (simp_all add: k3_def)
    qed (use k1(5) u(2) nolock in \<open>auto simp: w3\<close>)
    then have "mwf {} {} (task_count s) k3 (qs(EnterQ i := ws))" using mwf_settle [OF s2(3)] n1(2) by simp
    moreover have "kmon_release_locked s k i (Some t) = Some (kmon_wake s2 (Some u), k3)"
      using s1(1) s2(1) by (simp add: kmon_release_locked_def next_owner [OF wf] Cons k1(1) k1(3) u(2) k2_def [symmetric] Let_def)
    moreover have "sched_soft s (kmon_wake s2 (Some u))" using sched_soft_trans s1(2) s2(2) wk(1) by blast
    ultimately show ?thesis
      using Cons wk(2) u(2) w3 k1(4) by (simp add: handed_over_def k3_def k2_def mon_same_def)
  qed
qed

subsection \<open>Operations keep the tables well formed\<close>

text \<open>The last clause: nobody who has been given a monitor is left blocked.\<close>

definition kmon_inv :: "sched \<times> kmon \<Rightarrow> bool" where
  "kmon_inv sk \<longleftrightarrow> (case sk of (s, k) \<Rightarrow> task_inv s \<and> (\<exists>qs. mwf {} {} (task_count s) k qs) \<and>
     (\<forall>w t. mw_active (kmon_waiters k w) \<and> wake_reason (kmon_waiters k w) = KMON_WAKE_LOCK \<and> mw_task (kmon_waiters k w) = Some t \<longrightarrow>
        state_of s t \<noteq> TCB_BLOCKED))"

text \<open>Task \<open>c\<close> is not inside a call that waits.\<close>

definition outside :: "kmon \<Rightarrow> nat \<Rightarrow> bool" where
  "outside k c \<longleftrightarrow> (\<forall>w. mw_active (kmon_waiters k w) \<longrightarrow> mw_task (kmon_waiters k w) \<noteq> Some c)"

lemma kmon_invE:
  assumes "kmon_inv (s, k)"
  obtains qs where "task_inv s" "mwf {} {} (task_count s) k qs"
    "\<forall>w t. mw_active (kmon_waiters k w) \<and> wake_reason (kmon_waiters k w) = KMON_WAKE_LOCK \<and> mw_task (kmon_waiters k w) = Some t \<longrightarrow> state_of s t \<noteq> TCB_BLOCKED"
  using assms by (auto simp: kmon_inv_def)

lemma kmon_invI:
  assumes "kmon_inv (s, k)" "sched_soft s s'" "mwf {} {} (task_count s) k' qs'"
    "\<And>w t. mw_active (kmon_waiters k' w) \<Longrightarrow> wake_reason (kmon_waiters k' w) = KMON_WAKE_LOCK \<Longrightarrow> mw_task (kmon_waiters k' w) = Some t \<Longrightarrow>
       kmon_waiters k' w = kmon_waiters k w \<or> state_of s' t \<noteq> TCB_BLOCKED"
  shows "kmon_inv (s', k')"
  using assms sched_softD [OF assms(2)] unfolding kmon_inv_def by simp metis

lemma find_mon:
  assumes "kmon_find_locked k h = Some i" shows "i < KMON_MAX" "m_active (kmon_pool k i)" "m_handle (kmon_pool k i) = h"
  using assms by (auto simp: kmon_find_locked_def for_find_Some)

lemma current_slot: "task_inv s \<Longrightarrow> current_task s = Some c \<Longrightarrow> c < task_count s"
  by (rule sched_inv_current(1) [OF task_invD(1)])

lemma enter_free:
  assumes inv: "kmon_inv (s, k)" and c: "current_task s = Some c" "outside k c" and i: "kmon_find_locked k h = Some i" "m_owner (kmon_pool k i) = None"
  obtains s' where "kmon_enter_common s k h = Some (Entered, s', set_mon k i ((kmon_pool k i)\<lparr>m_owner := Some c, entry_count := 1\<rparr>))"
    "kmon_inv (s', set_mon k i ((kmon_pool k i)\<lparr>m_owner := Some c, entry_count := 1\<rparr>))" "sched_soft s s'"
proof -
  obtain qs where q: "task_inv s" "mwf {} {} (task_count s) k qs" by (rule kmon_invE [OF inv])
  let ?k = "set_mon k i ((kmon_pool k i)\<lparr>m_owner := Some c, entry_count := 1\<rparr>)"
  obtain s' where s': "kmon_assign_owner_locked s k i (Some c) = Some (s', ?k)" "sched_soft s s'" "mwf {i} {} (task_count s) ?k qs"
    by (rule assign_ok [OF q(1) mwf_weaken [OF q(2)] _ find_mon(2) [OF i(1)] current_slot [OF q(1) c(1)]]) auto
  have lock: "wake_reason (kmon_waiters k w) \<noteq> KMON_WAKE_LOCK" if a: "mw_active (kmon_waiters k w)" "mw_mon (kmon_waiters k w) = Some i" for w
  proof -
    obtain t where "mw_task (kmon_waiters k w) = Some t" by (rule mwf_waiter [OF q(2) a(1)])
    then show ?thesis using mwfD(5) [OF q(2), of i] a i(2) unfolding mowner_def by force
  qed
  have "mwf {} {} (task_count s) ?k qs"
    by (rule mwf_settle [OF s'(3)]) (use lock c(2) in \<open>auto simp: mowner_def outside_def\<close>)
  then have "kmon_inv (s', ?k)" by (rule kmon_invI [OF inv s'(2)]) simp
  then show ?thesis using that s'(1,2) c(1) i by (simp add: kmon_enter_common_def)
qed

lemma enter_queue:
  assumes inv: "kmon_inv (s, k)" and c: "current_task s = Some c" "outside k c"
    and i: "kmon_find_locked k h = Some i" "m_owner (kmon_pool k i) \<noteq> None" "m_owner (kmon_pool k i) \<noteq> Some c"
  shows "kmon_enter_common s k h = Some (EnterFailed ENOSPC, s, k) \<or>
    (\<exists>w s' k'. kmon_enter_common s k h = Some (EnterQueued w i, s', k') \<and> kmon_inv (s', k') \<and> sched_soft s s' \<and> mon_same k k' \<and>
       mw_active (kmon_waiters k' w) \<and> mw_task (kmon_waiters k' w) = Some c \<and> mw_mon (kmon_waiters k' w) = Some i \<and> place (kmon_waiters k' w) = Some (EnterQ i) \<and>
       (\<forall>qs. mwf {} {} (task_count s) k qs \<longrightarrow> mwf {} {} (task_count s) k' (qs(EnterQ i := qs (EnterQ i) @ [w]))))"
proof (cases "kmon_waiter_alloc_locked k i c KMON_Q_ENTER 0")
  case None
  then have "kmon_enter_common s k h = Some (EnterFailed ENOSPC, s, k)" using c(1) i by (auto simp: kmon_enter_common_def)
  then show ?thesis ..
next
  case (Some y)
  obtain w k1 where al: "kmon_waiter_alloc_locked k i c KMON_Q_ENTER 0 = Some (w, k1)" using Some by (cases y) auto
  obtain qs0 where q: "task_inv s" "mwf {} {} (task_count s) k qs0" by (rule kmon_invE [OF inv])
  let ?k = "kmon_queue_push_tail_locked k1 (EnterQ i) w"
  let ?v = "zero_mwaiter\<lparr>mw_active := True, mw_mon := Some i, mw_task := Some c, queue_kind := KMON_Q_ENTER, cond_idx := 0\<rparr>"
  have pl: "place ?v = Some (EnterQ i)" by (simp add: place_def kmon_waiter_queue_def)
  have tasks: "mw_task (kmon_waiters k u) \<noteq> Some c" if "mw_active (kmon_waiters k u)" for u using c(2) that by (simp add: outside_def)
  have wf: "mwf {} {} (task_count s) ?k (qs(EnterQ i := qs (EnterQ i) @ [w]))" and k1: "kmon_waiters k1 = (kmon_waiters k)(w := ?v)" "kmon_pool k1 = kmon_pool k"
    if "mwf {} {} (task_count s) k qs" for qs
  proof -
    note a = mwf_alloc [OF that al find_mon(1,2) [OF i(1)] current_slot [OF q(1) c(1)] tasks, simplified i(3)]
    show k1: "kmon_waiters k1 = (kmon_waiters k)(w := ?v)" "kmon_pool k1 = kmon_pool k" using a(3,4) i(3) by simp_all
    show "mwf {} {} (task_count s) ?k (qs(EnterQ i := qs (EnterQ i) @ [w]))"
      using mwf_push [OF a(1), of w "EnterQ i"] i k1 pl by simp
  qed
  note k1 = k1 [OF q(2)]
  obtain s' where s': "kmon_refresh_owner_locked s ?k i = Some s'" "sched_soft s s'" by (rule refresh_soft [OF q(1) wf [OF q(2)]])
  have "kmon_inv (s', ?k)" by (rule kmon_invI [OF inv s'(2) wf [OF q(2)]]) (auto simp: k1 split: if_splits)
  moreover have "kmon_enter_common s k h = Some (EnterQueued w i, s', ?k)" using c(1) i al s'(1) by (auto simp: kmon_enter_common_def Let_def)
  ultimately show ?thesis using s'(2) wf pl by (intro disjI2 exI [of _ w] exI [of _ s'] exI [of _ ?k]) (simp add: k1 mon_same_def)
qed

text \<open>An enter returns unless the caller already owns the monitor.\<close>

lemma enter_ok:
  assumes inv: "kmon_inv (s, k)" and c: "current_task s = Some c" "outside k c"
    and rec: "\<And>i. kmon_find_locked k h = Some i \<Longrightarrow> m_owner (kmon_pool k i) \<noteq> Some c"
  shows "\<exists>r s' k'. kmon_enter_common s k h = Some (r, s', k') \<and> kmon_inv (s', k')"
proof (cases "kmon_find_locked k h")
  case None
  then show ?thesis using inv c(1) by (simp add: kmon_enter_common_def)
next
  case (Some i)
  show ?thesis
  proof (cases "m_owner (kmon_pool k i) = None")
    case True
    then show ?thesis using enter_free [OF inv c Some] by metis
  next
    case False
    then show ?thesis using enter_queue [OF inv c Some False rec [OF Some]] inv by metis
  qed
qed

lemma enter_recursive: "current_task s = Some c \<Longrightarrow> kmon_find_locked k h = Some i \<Longrightarrow> m_owner (kmon_pool k i) = Some c \<Longrightarrow> kmon_enter_common s k h = None"
  by (simp add: kmon_enter_common_def)

lemma clear_count_alt: "clear_count k i = set_mon k i ((kmon_pool k i)\<lparr>m_owner := m_owner (kmon_pool k i), entry_count := 0\<rparr>)"
  by (simp add: clear_count_def)

lemma clear_count_fields [simp]:
  "kmon_waiters (clear_count k i) = kmon_waiters k" "m_owner (kmon_pool (clear_count k i) j) = m_owner (kmon_pool k j)"
  "m_active (kmon_pool (clear_count k i) j) = m_active (kmon_pool k j)" "m_handle (kmon_pool (clear_count k i) j) = m_handle (kmon_pool k j)"
  by (simp_all add: clear_count_def)

lemma mwf_clear_count: "mwf X L n k qs \<Longrightarrow> i \<in> X \<Longrightarrow> mwf X L n (clear_count k i) qs"
  unfolding clear_count_alt by (rule mwf_set_owner) (auto dest: mwfD(6,7))

lemma owner_no_lock:
  assumes wf: "mwf {} {} n k qs" and o': "m_owner (kmon_pool k i) = Some t" "outside k t" and w: "mw_active (kmon_waiters k w)" "mw_mon (kmon_waiters k w) = Some i"
  shows "wake_reason (kmon_waiters k w) \<noteq> KMON_WAKE_LOCK"
  using mwfD(5) [OF wf, of i] o' w unfolding mowner_def outside_def by auto

lemma release_hands_over:
  assumes inv: "task_inv s" and wf: "mwf {i} {} (task_count s) k qs" and i: "m_active (kmon_pool k i)" and old: "t < task_count s"
    and nolock: "\<And>v. mw_active (kmon_waiters k v) \<Longrightarrow> mw_mon (kmon_waiters k v) = Some i \<Longrightarrow> wake_reason (kmon_waiters k v) \<noteq> KMON_WAKE_LOCK"
  shows "\<exists>s' k'. kmon_release_locked s (clear_count k i) i (Some t) = Some (s', k') \<and> handed_over s k i qs s' k'"
proof -
  have "\<exists>s' k'. kmon_release_locked s (clear_count k i) i (Some t) = Some (s', k') \<and> handed_over s (clear_count k i) i qs s' k'"
    by (rule release_ok [OF inv mwf_clear_count [OF wf] _ old]) (use i nolock in auto)
  moreover have "handed_over s (clear_count k i) i qs s' k' = handed_over s k i qs s' k'" for s' k'
    by (simp add: handed_over_def split: list.split)
  ultimately show ?thesis by simp
qed

lemma handed_over_wf: "handed_over s k i qs s' k' \<Longrightarrow> \<exists>qs'. mwf {} {} (task_count s) k' qs'"
  by (auto simp: handed_over_def split: list.splits)

lemma handed_over_inv:
  assumes inv: "kmon_inv (s, k)" and h: "handed_over s k1 i qs s' k'"
    and k1: "\<And>w. wake_reason (kmon_waiters k1 w) = KMON_WAKE_LOCK \<Longrightarrow> kmon_waiters k1 w = kmon_waiters k w"
  shows "kmon_inv (s', k')"
proof -
  obtain qs' where "mwf {} {} (task_count s) k' qs'" using handed_over_wf [OF h] by blast
  moreover have "sched_soft s s'" using h by (simp add: handed_over_def)
  ultimately show ?thesis
    by (intro kmon_invI [OF inv]) (use h k1 in \<open>auto simp: handed_over_def split: list.splits if_splits\<close>)
qed

lemma release_owned:
  assumes inv: "kmon_inv (s, k)" and o': "m_owner (kmon_pool k i) = Some t" "outside k t" and wf: "mwf {} {} (task_count s) k qs"
  shows "\<exists>s' k'. kmon_release_locked s (clear_count k i) i (Some t) = Some (s', k') \<and> handed_over s k i qs s' k' \<and> kmon_inv (s', k')"
proof -
  have "task_inv s" by (rule kmon_invE [OF inv])
  then obtain s' k' where r: "kmon_release_locked s (clear_count k i) i (Some t) = Some (s', k')" "handed_over s k i qs s' k'"
    using release_hands_over [OF _ mwf_weaken [OF wf] mwfD(7) [OF wf o'(1)] mwfD(6) [OF wf o'(1)] owner_no_lock [OF wf o']] by blast
  then show ?thesis using handed_over_inv [OF inv r(2)] by blast
qed

lemma exit_ok:
  assumes inv: "kmon_inv (s, k)" and c: "current_task s = Some c" "outside k c"
  shows "\<exists>r s' k'. kmon_exit_current s k h = Some (r, s', k') \<and> kmon_inv (s', k')"
proof (cases "\<exists>i. kmon_find_locked k h = Some i \<and> kmon_owned s k i")
  case False
  then show ?thesis using inv c(1) by (auto simp: kmon_exit_current_def split: option.splits)
next
  case True
  then obtain i where i: "kmon_find_locked k h = Some i" "kmon_owned s k i" by blast
  obtain qs where "mwf {} {} (task_count s) k qs" by (rule kmon_invE [OF inv])
  from release_owned [OF inv _ c(2) this, of i] i c(1) show ?thesis by (auto simp: kmon_exit_current_def kmon_owned_def)
qed

text \<open>A wait queues the caller on the condition and hands the monitor over.\<close>

lemma wait_queue:
  assumes inv: "kmon_inv (s, k)" and c: "current_task s = Some c" "outside k c" and i: "kmon_find_locked k h = Some i" "kmon_owned s k i"
    and cd: "unat cond < KMON_MAX_COND"
  shows "kmon_wait_current s k h cond = Some (Inl ENOSPC, s, k) \<or>
    (\<exists>w s' k' v. kmon_wait_current s k h cond = Some (Inr (w, i), s', k') \<and> kmon_inv (s', k') \<and>
       mw_active v \<and> mw_task v = Some c \<and> mw_mon v = Some i \<and> place v = Some (CondQ i (unat cond)) \<and> kmon_waiters k' w = v \<and>
       (\<forall>qs. mwf {} {} (task_count s) k qs \<longrightarrow> (\<exists>k1. kmon_waiters k1 = (kmon_waiters k)(w := v) \<and> mon_same k k1 \<and>
          handed_over s k1 i (qs(CondQ i (unat cond) := qs (CondQ i (unat cond)) @ [w])) s' k')))"
proof (cases "kmon_waiter_alloc_locked k i c KMON_Q_COND cond")
  case None
  then have "kmon_wait_current s k h cond = Some (Inl ENOSPC, s, k)" using c(1) i cd by (simp add: kmon_wait_current_def)
  then show ?thesis ..
next
  case (Some y)
  obtain w k1 where al: "kmon_waiter_alloc_locked k i c KMON_Q_COND cond = Some (w, k1)" using Some by (cases y) auto
  obtain qs0 where q: "task_inv s" "mwf {} {} (task_count s) k qs0" by (rule kmon_invE [OF inv])
  let ?p = "CondQ i (unat cond)"
  let ?k = "kmon_queue_push_tail_locked k1 ?p w"
  let ?v = "zero_mwaiter\<lparr>mw_active := True, mw_mon := Some i, mw_task := Some c, queue_kind := KMON_Q_COND, cond_idx := cond\<rparr>"
  have pl: "place ?v = Some ?p" using cd by (simp add: place_def kmon_waiter_queue_def mon_consts)
  have ow: "m_owner (kmon_pool k i) = Some c" using i(2) c(1) by (simp add: kmon_owned_def)
  have tasks: "mw_task (kmon_waiters k u) \<noteq> Some c" if "mw_active (kmon_waiters k u)" for u using c(2) that by (simp add: outside_def)
  have wf: "mwf {i} {} (task_count s) ?k (qs(?p := qs ?p @ [w]))" and k1: "kmon_waiters k1 = (kmon_waiters k)(w := ?v)" "kmon_pool k1 = kmon_pool k" "\<not> mw_active (kmon_waiters k w)"
    if "mwf {} {} (task_count s) k qs" for qs
  proof -
    have "mwf {i} {} (task_count s) k qs" by (rule mwf_weaken [OF that]) simp
    note a = mwf_alloc [OF this al find_mon(1,2) [OF i(1)] current_slot [OF q(1) c(1)] tasks]
    show k1: "kmon_waiters k1 = (kmon_waiters k)(w := ?v)" "kmon_pool k1 = kmon_pool k" "\<not> mw_active (kmon_waiters k w)" using a(2-4) cd by simp_all
    show "mwf {i} {} (task_count s) ?k (qs(?p := qs ?p @ [w]))"
      using mwf_push [OF a(1), of w ?p] cd k1 pl by simp
  qed
  note k1 = k1 [OF q(2)]
  have nolock: "wake_reason (kmon_waiters ?k v) \<noteq> KMON_WAKE_LOCK" if "mw_active (kmon_waiters ?k v)" "mw_mon (kmon_waiters ?k v) = Some i" for v
    using that owner_no_lock [OF q(2) ow c(2)] by (auto simp: k1 split: if_splits)
  have act: "m_active (kmon_pool ?k i)" using find_mon(2) [OF i(1)] k1(2) by simp
  note rel = release_hands_over [OF q(1) wf act current_slot [OF q(1) c(1)] nolock]
  obtain s' k' where r: "kmon_release_locked s (clear_count ?k i) i (Some c) = Some (s', k')" "handed_over s ?k i (qs0(?p := qs0 ?p @ [w])) s' k'"
    using rel [OF q(2)] by blast
  have "kmon_wait_current s k h cond = Some (Inr (w, i), s', k')" using c(1) i cd al r(1) by (simp add: kmon_wait_current_def Let_def)
  moreover have "kmon_inv (s', k')" by (rule handed_over_inv [OF inv r(2)]) (auto simp: k1(1) split: if_splits)
  moreover have "kmon_waiters k' w = ?v"
  proof -
    have "w \<notin> set (qs0 (EnterQ i))" using mwfD(3) [OF q(2)] k1(3) by blast
    then show ?thesis using r(2) by (auto simp: handed_over_def k1(1) split: list.splits)
  qed
  moreover have "handed_over s ?k i (qs(?p := qs ?p @ [w])) s' k'" if "mwf {} {} (task_count s) k qs" for qs
    using rel [OF that] r(1) by auto
  ultimately show ?thesis
    using pl by (intro disjI2 exI [of _ w] exI [of _ s'] exI [of _ k'] exI [of _ ?v] conjI allI impI exI [of _ ?k]) (auto simp: k1 mon_same_def)
qed

lemma wait_ok:
  assumes inv: "kmon_inv (s, k)" and c: "current_task s = Some c" "outside k c"
  shows "\<exists>r s' k'. kmon_wait_current s k h cond = Some (r, s', k') \<and> kmon_inv (s', k')"
proof (cases "unat cond < KMON_MAX_COND \<and> (\<exists>i. kmon_find_locked k h = Some i \<and> kmon_owned s k i)")
  case False
  then show ?thesis using inv c(1) by (auto simp: kmon_wait_current_def not_le split: option.splits)
next
  case True
  then show ?thesis using wait_queue [OF inv c] inv by metis
qed

text \<open>Signals move waiters of a condition to the enter queue; the owner stays the same.\<close>

definition entering :: "kmon_waiter \<Rightarrow> kmon_waiter" where
  "entering v = v\<lparr>queue_kind := KMON_Q_ENTER, wake_reason := KMON_WAKE_NONE\<rparr>"

lemma entering_fields [simp]:
  "mw_active (entering v) = mw_active v" "mw_task (entering v) = mw_task v" "mw_mon (entering v) = mw_mon v" "wake_reason (entering v) = KMON_WAKE_NONE"
  by (simp_all add: entering_def)

lemma mon_same_trans: "mon_same a b \<Longrightarrow> mon_same b c \<Longrightarrow> mon_same a c"
  by (simp add: mon_same_def)

lemma place_mon: "place v = Some (CondQ i c) \<Longrightarrow> mw_mon v = Some i" "place v = Some (EnterQ i) \<Longrightarrow> mw_mon v = Some i"
  by (auto simp: place_def kmon_waiter_queue_def split: option.splits if_splits)

lemma pop_requeue:
  assumes wf: "mwf {} L n k qs" and q: "qs (CondQ i c) = w # ws" and o': "m_owner (kmon_pool k i) \<noteq> None"
  obtains k1 where "kmon_queue_pop_head_locked k (CondQ i c) = (Some w, k1)"
    "mwf {} (insert w L) n k1 (qs(CondQ i c := ws))" "kmon_waiters k1 = kmon_waiters k" "mon_same k k1" "w \<notin> L"
    "mwf {} L n (kmon_requeue k1 i w) (qs(CondQ i c := ws, EnterQ i := qs (EnterQ i) @ [w]))"
    "kmon_waiters (kmon_requeue k1 i w) = (kmon_waiters k)(w := entering (kmon_waiters k w))" "mon_same k (kmon_requeue k1 i w)"
proof -
  obtain k1 where k1: "kmon_queue_pop_head_locked k (CondQ i c) = (Some w, k1)" "mwf {} (insert w L) n k1 (qs(CondQ i c := ws))"
    "kmon_waiters k1 = kmon_waiters k" "mon_same k k1" "mw_active (kmon_waiters k w)" "place (kmon_waiters k w) = Some (CondQ i c)" "w \<notin> L"
    by (rule mwf_pop [OF wf q])
  have wk: "wake_reason (kmon_waiters k w) \<noteq> KMON_WAKE_LOCK" using mwf_wake(1) [OF wf k1(5)] k1(6) by auto
  note r = mwf_requeue [OF k1(2), of w i, unfolded k1(3)]
  have o1: "m_owner (kmon_pool k1 i) \<noteq> None" using o' k1(4) by (simp add: mon_same_def)
  show ?thesis
    using that [OF k1(1-4,7)] r k1(4,5,7) place_mon(1) [OF k1(6)] wk o1 mon_same_trans by (simp add: entering_def)
qed

lemma broadcast_loop:
  assumes "mwf {} L n k qs" "qs (CondQ i c) = ws" "m_owner (kmon_pool k i) \<noteq> None"
  shows "\<exists>k'. kmon_broadcast_loop k i c = Some k' \<and> mwf {} L n k' (qs(CondQ i c := [], EnterQ i := qs (EnterQ i) @ ws)) \<and>
    (\<forall>w. kmon_waiters k' w = (if w \<in> set ws then entering (kmon_waiters k w) else kmon_waiters k w)) \<and> mon_same k k'"
  using assms
proof (induction ws arbitrary: k qs)
  case Nil
  then have "qs(CondQ i c := [], EnterQ i := qs (EnterQ i) @ []) = qs" by auto
  then show ?case using Nil mwf_pop_empty [OF Nil(1,2)] by (subst kmon_broadcast_loop.simps) (simp add: mon_same_def)
next
  case (Cons w ws)
  obtain k1 where k1: "kmon_queue_pop_head_locked k (CondQ i c) = (Some w, k1)"
    "mwf {} L n (kmon_requeue k1 i w) (qs(CondQ i c := ws, EnterQ i := qs (EnterQ i) @ [w]))"
    "kmon_waiters (kmon_requeue k1 i w) = (kmon_waiters k)(w := entering (kmon_waiters k w))" "mon_same k (kmon_requeue k1 i w)"
    by (rule pop_requeue [OF Cons.prems])
  have "\<exists>k'. kmon_broadcast_loop (kmon_requeue k1 i w) i c = Some k' \<and>
      mwf {} L n k' ((qs(CondQ i c := ws, EnterQ i := qs (EnterQ i) @ [w]))(CondQ i c := [], EnterQ i := (qs(CondQ i c := ws, EnterQ i := qs (EnterQ i) @ [w])) (EnterQ i) @ ws)) \<and>
      (\<forall>v. kmon_waiters k' v = (if v \<in> set ws then entering (kmon_waiters (kmon_requeue k1 i w) v) else kmon_waiters (kmon_requeue k1 i w) v)) \<and>
      mon_same (kmon_requeue k1 i w) k'"
    by (rule Cons.IH [OF k1(2)]) (use Cons.prems(3) k1(4) in \<open>auto simp: mon_same_def\<close>)
  then obtain k' where k': "kmon_broadcast_loop (kmon_requeue k1 i w) i c = Some k'"
      "mwf {} L n k' ((qs(CondQ i c := ws, EnterQ i := qs (EnterQ i) @ [w]))(CondQ i c := [], EnterQ i := (qs(CondQ i c := ws, EnterQ i := qs (EnterQ i) @ [w])) (EnterQ i) @ ws))"
      "\<forall>v. kmon_waiters k' v = (if v \<in> set ws then entering (kmon_waiters (kmon_requeue k1 i w) v) else kmon_waiters (kmon_requeue k1 i w) v)"
      "mon_same (kmon_requeue k1 i w) k'" by blast
  have "distinct (w # ws)" using qarrD(2) [OF mwfD(1) [OF Cons.prems(1)], of "CondQ i c"] Cons.prems(2) by simp
  then have "\<forall>v. kmon_waiters k' v = (if v \<in> set (w # ws) then entering (kmon_waiters k v) else kmon_waiters k v)"
    using k'(3) by (auto simp: k1(3))
  moreover have "mwf {} L n k' (qs(CondQ i c := [], EnterQ i := qs (EnterQ i) @ w # ws))" using k'(2) by (simp add: fun_upd_twist)
  moreover have "kmon_broadcast_loop k i c = Some k'" using k'(1) k1(1) by (subst kmon_broadcast_loop.simps) simp
  ultimately show ?case using mon_same_trans [OF k1(4) k'(4)] by blast
qed

text \<open>What signal and broadcast share: the waiters \<open>ws\<close> of the condition are now at the end of the enter queue.\<close>

definition moved :: "sched \<Rightarrow> kmon \<Rightarrow> nat \<Rightarrow> nat \<Rightarrow> nat list \<Rightarrow> nat list \<Rightarrow> sched \<Rightarrow> kmon \<Rightarrow> bool" where
  "moved s k i c ws left s' k' \<longleftrightarrow> sched_soft s s' \<and> mon_same k k' \<and>
     (\<forall>w. kmon_waiters k' w = (if w \<in> set ws then entering (kmon_waiters k w) else kmon_waiters k w)) \<and>
     (\<forall>qs. mwf {} {} (task_count s) k qs \<longrightarrow> mwf {} {} (task_count s) k' (qs(CondQ i c := left, EnterQ i := qs (EnterQ i) @ ws)))"

lemma moved_inv:
  assumes inv: "kmon_inv (s, k)" and m: "moved s k i c ws left s' k'" shows "kmon_inv (s', k')"
proof -
  obtain qs where "mwf {} {} (task_count s) k qs" by (rule kmon_invE [OF inv])
  then have wf: "mwf {} {} (task_count s) k' (qs(CondQ i c := left, EnterQ i := qs (EnterQ i) @ ws))" using m by (simp add: moved_def)
  show ?thesis by (rule kmon_invI [OF inv _ wf]) (use m in \<open>auto simp: moved_def split: if_splits\<close>)
qed

lemma mwf_unique: "mwf X L n k qs \<Longrightarrow> mwf X' L' n' k qs' \<Longrightarrow> qs = qs'"
  using fifo_rep_unique [OF qarrD(1) [OF mwfD(1)] qarrD(1) [OF mwfD(1)]] by blast

lemma signal_moves:
  assumes inv: "kmon_inv (s, k)" and wf: "mwf {} {} (task_count s) k qs" and i: "kmon_find_locked k h = Some i" "kmon_owned s k i" "current_task s = Some t"
    and c: "unat cond < KMON_MAX_COND"
  shows "case qs (CondQ i (unat cond)) of [] \<Rightarrow> kmon_signal_current s k h cond = Some (Inr (), s, k)
    | w # ws \<Rightarrow> \<exists>s' k'. kmon_signal_current s k h cond = Some (Inr (), s', k') \<and> moved s k i (unat cond) [w] ws s' k'"
proof (cases "qs (CondQ i (unat cond))")
  case Nil
  then show ?thesis using i c mwf_pop_empty [OF wf Nil] by (simp add: kmon_signal_current_def)
next
  case (Cons w ws)
  have o': "m_owner (kmon_pool k i) \<noteq> None" using i(2,3) by (simp add: kmon_owned_def)
  have t: "task_inv s" by (rule kmon_invE [OF inv])
  obtain k1 where k1: "kmon_queue_pop_head_locked k (CondQ i (unat cond)) = (Some w, k1)"
    "mwf {} {} (task_count s) (kmon_requeue k1 i w) (qs(CondQ i (unat cond) := ws, EnterQ i := qs (EnterQ i) @ [w]))"
    "kmon_waiters (kmon_requeue k1 i w) = (kmon_waiters k)(w := entering (kmon_waiters k w))" "mon_same k (kmon_requeue k1 i w)"
    by (rule pop_requeue [OF wf Cons o'])
  obtain s' where s': "kmon_refresh_owner_locked s (kmon_requeue k1 i w) i = Some s'" "sched_soft s s'" by (rule refresh_soft [OF t k1(2)])
  have "m_owner (kmon_pool (kmon_requeue k1 i w) i) \<noteq> None" using o' k1(4) by (simp add: mon_same_def)
  then have "kmon_signal_current s k h cond = Some (Inr (), s', kmon_requeue k1 i w)"
    using i c k1(1) s'(1) by (simp add: kmon_signal_current_def Let_def)
  moreover have "moved s k i (unat cond) [w] ws s' (kmon_requeue k1 i w)"
    using s'(2) k1(2-4) mwf_unique [OF wf] by (auto simp: moved_def)
  ultimately show ?thesis using Cons by simp
qed

lemma broadcast_moves:
  assumes inv: "kmon_inv (s, k)" and wf: "mwf {} {} (task_count s) k qs" and i: "kmon_find_locked k h = Some i" "kmon_owned s k i" "current_task s = Some t"
    and c: "unat cond < KMON_MAX_COND"
  shows "case qs (CondQ i (unat cond)) of [] \<Rightarrow> kmon_broadcast_current s k h cond = Some (Inr (), s, k)
    | w # ws \<Rightarrow> \<exists>s' k'. kmon_broadcast_current s k h cond = Some (Inr (), s', k') \<and> moved s k i (unat cond) (ws @ [w]) [] s' k'"
proof (cases "qs (CondQ i (unat cond))")
  case Nil
  then show ?thesis using i c mwf_pop_empty [OF wf Nil] by (simp add: kmon_broadcast_current_def)
next
  case (Cons w ws)
  let ?c = "CondQ i (unat cond)"
  have o': "m_owner (kmon_pool k i) \<noteq> None" using i(2,3) by (simp add: kmon_owned_def)
  have t: "task_inv s" by (rule kmon_invE [OF inv])
  obtain k1 where k1: "kmon_queue_pop_head_locked k ?c = (Some w, k1)" "mwf {} {w} (task_count s) k1 (qs(?c := ws))" "kmon_waiters k1 = kmon_waiters k" "mon_same k k1"
    "mw_active (kmon_waiters k w)" "place (kmon_waiters k w) = Some ?c"
    by (rule mwf_pop [OF wf Cons])
  have o1: "m_owner (kmon_pool k1 i) \<noteq> None" using o' k1(4) by (simp add: mon_same_def)
  obtain k2 where k2: "kmon_broadcast_loop k1 i (unat cond) = Some k2" "mwf {} {w} (task_count s) k2 (qs(?c := [], EnterQ i := qs (EnterQ i) @ ws))"
    "\<forall>v. kmon_waiters k2 v = (if v \<in> set ws then entering (kmon_waiters k v) else kmon_waiters k v)" "mon_same k1 k2"
    using broadcast_loop [OF k1(2) _ o1, of "unat cond" ws] k1(3) by auto
  have w: "w \<notin> set ws" using qarrD(2) [OF mwfD(1) [OF wf], of ?c] Cons by simp
  have wk: "wake_reason (kmon_waiters k w) \<noteq> KMON_WAKE_LOCK" using mwf_wake(1) [OF wf k1(5)] k1(6) by auto
  have w2: "kmon_waiters k2 w = kmon_waiters k w" using k2(3) w by simp
  have o2: "m_owner (kmon_pool k2 i) \<noteq> None" using o1 k2(4) by (simp add: mon_same_def)
  note r = mwf_requeue [OF k2(2), of w i, unfolded w2]
  have wf3: "mwf {} {} (task_count s) (kmon_requeue k2 i w) (qs(?c := [], EnterQ i := qs (EnterQ i) @ ws @ [w]))"
    and w3: "kmon_waiters (kmon_requeue k2 i w) = (kmon_waiters k2)(w := entering (kmon_waiters k w))" and m3: "mon_same k2 (kmon_requeue k2 i w)"
    using r k1(5) place_mon(1) [OF k1(6)] wk o2 by (simp_all add: entering_def)
  obtain s' where s': "kmon_refresh_owner_locked s (kmon_requeue k2 i w) i = Some s'" "sched_soft s s'" by (rule refresh_soft [OF t wf3])
  have "m_owner (kmon_pool (kmon_requeue k2 i w) i) \<noteq> None" using o2 m3 by (simp add: mon_same_def)
  then have "kmon_broadcast_current s k h cond = Some (Inr (), s', kmon_requeue k2 i w)"
    using i c k1(1) k2(1) s'(1) by (simp add: kmon_broadcast_current_def Let_def)
  moreover have "moved s k i (unat cond) (ws @ [w]) [] s' (kmon_requeue k2 i w)"
    using s'(2) wf3 w3 k2(3) mwf_unique [OF wf] mon_same_trans [OF k1(4) mon_same_trans [OF k2(4) m3]] by (auto simp: moved_def)
  ultimately show ?thesis using Cons by simp
qed

lemma signal_ok:
  assumes inv: "kmon_inv (s, k)" shows "\<exists>r s' k'. kmon_signal_current s k h cond = Some (r, s', k') \<and> kmon_inv (s', k')"
proof (cases "unat cond < KMON_MAX_COND \<and> (\<exists>i t. kmon_find_locked k h = Some i \<and> kmon_owned s k i \<and> current_task s = Some t)")
  case False
  then show ?thesis using inv by (auto simp: kmon_signal_current_def not_le split: option.splits)
next
  case True
  then obtain i t where i: "kmon_find_locked k h = Some i" "kmon_owned s k i" "current_task s = Some t" "unat cond < KMON_MAX_COND" by blast
  obtain qs where "mwf {} {} (task_count s) k qs" by (rule kmon_invE [OF inv])
  from signal_moves [OF inv this i] show ?thesis using inv moved_inv [OF inv] by (auto split: list.splits)
qed

lemma broadcast_ok:
  assumes inv: "kmon_inv (s, k)" shows "\<exists>r s' k'. kmon_broadcast_current s k h cond = Some (r, s', k') \<and> kmon_inv (s', k')"
proof (cases "unat cond < KMON_MAX_COND \<and> (\<exists>i t. kmon_find_locked k h = Some i \<and> kmon_owned s k i \<and> current_task s = Some t)")
  case False
  then show ?thesis using inv by (auto simp: kmon_broadcast_current_def not_le split: option.splits)
next
  case True
  then obtain i t where i: "kmon_find_locked k h = Some i" "kmon_owned s k i" "current_task s = Some t" "unat cond < KMON_MAX_COND" by blast
  obtain qs where "mwf {} {} (task_count s) k qs" by (rule kmon_invE [OF inv])
  from broadcast_moves [OF inv this i] show ?thesis using inv moved_inv [OF inv] by (auto split: list.splits)
qed

text \<open>Entries nobody uses may be rewritten.\<close>

definition unused :: "kmon \<Rightarrow> (queue_ptr \<Rightarrow> nat list) \<Rightarrow> nat \<Rightarrow> bool" where
  "unused k qs i \<longleftrightarrow> m_owner (kmon_pool k i) = None \<and> qs (EnterQ i) = [] \<and> (\<forall>c. qs (CondQ i c) = [])"

lemma unused_waiters:
  assumes wf: "mwf {} {} n k qs" and u: "unused k qs i" and w: "mw_active (kmon_waiters k w)" shows "mw_mon (kmon_waiters k w) \<noteq> Some i"
proof
  assume m: "mw_mon (kmon_waiters k w) = Some i"
  obtain t where "mw_task (kmon_waiters k w) = Some t" by (rule mwf_waiter [OF wf w])
  then have "wake_reason (kmon_waiters k w) \<noteq> KMON_WAKE_LOCK" using mwfD(5) [OF wf, of i] w m u unfolding mowner_def unused_def by force
  then obtain p where "place (kmon_waiters k w) = Some p" using mwf_wake(3) [OF wf w] by blast
  then have "w \<in> set (qs p)" "p = EnterQ i \<or> p = UrgentQ i \<or> (\<exists>c. p = CondQ i c)"
    using mwfD(3) [OF wf, of w p] w m by (auto simp: place_def kmon_waiter_queue_def split: if_splits)
  then show False using u mwfD(8) [OF wf, of i] by (auto simp: unused_def)
qed

lemma mwf_rewrite:
  assumes wf: "mwf {} {} n k qs" and u: "unused k qs i"
    and e: "m_owner e = None" "entry_count e = 0" "enter_q e = zero_queue" "urgent_q e = zero_queue" "m_cond e = (\<lambda>_. zero_queue)"
  shows "mwf {} {} n (set_mon k i e) qs"
proof -
  have q: "queue_at (set_mon k i e) p = (if p \<in> {EnterQ i, UrgentQ i} \<or> (\<exists>c. p = CondQ i c) then zero_queue else queue_at k p)" for p
    using e by (cases p) auto
  have emp: "qs p = []" if "p \<in> {EnterQ i, UrgentQ i} \<or> (\<exists>c. p = CondQ i c)" for p using that u mwfD(8) [OF wf] by (auto simp: unused_def)
  have "fifo_rep (mw_next k) (q_fifo (queue_at (set_mon k i e) p)) (qs p)" for p
    using qarrD(1) [OF mwfD(1) [OF wf], of p] emp [of p] fifo_rep_empty by (simp add: q zero_queue_def)
  then have "mqueues {} (set_mon k i e) qs"
    using mwfD(1,10) [OF wf] emp by (simp add: mqueues_def qarr_def q zero_queue_def)
  moreover have "\<exists>j < KMON_MAX. mw_mon (kmon_waiters k w) = Some j \<and> m_active (((kmon_pool k)(i := e)) j)" if a: "mw_active (kmon_waiters k w)" for w
    by (rule mwf_waiter [OF wf a]) (use unused_waiters [OF wf u a] in auto)
  then have "mwaiters n (set_mon k i e)" using mwfD(9) [OF wf] unfolding mwaiters_def set_mon_fields by blast
  moreover have "mowner (set_mon k i e) qs j" for j
    using mwfD(5) [OF wf, of j] unused_waiters [OF wf u] u e by (cases "j = i") (auto simp: mowner_def unused_def)
  ultimately show ?thesis using mwfD(6-8) [OF wf] e(1) unfolding mwf_def by simp
qed

lemma inactive_unused:
  assumes wf: "mwf {} {} n k qs" and i: "\<not> m_active (kmon_pool k i)" shows "unused k qs i"
proof -
  have "w \<notin> set (qs p)" if p: "p = EnterQ i \<or> (\<exists>c. p = CondQ i c)" for w p
  proof
    assume "w \<in> set (qs p)"
    then have w: "mw_active (kmon_waiters k w)" "place (kmon_waiters k w) = Some p" using mwfD(3) [OF wf] by blast+
    then have "mw_mon (kmon_waiters k w) = Some i" using p place_mon by blast
    then show False using i mwf_waiter [OF wf w(1)] by (metis option.inject)
  qed
  then have "qs p = []" if "p = EnterQ i \<or> (\<exists>c. p = CondQ i c)" for p using that by (metis ex_in_conv set_empty)
  moreover have "m_owner (kmon_pool k i) = None" using mwfD(7) [OF wf, of i] i by (cases "m_owner (kmon_pool k i)") auto
  ultimately show ?thesis by (simp add: unused_def)
qed

lemma mwf_next_handle [simp]: "mwf X L n (k\<lparr>kmon_next_handle := h\<rparr>) qs = mwf X L n k qs"
  by (simp add: mwf_def mqueues_def mwaiters_def mowner_def)

lemma mon_create_ok:
  assumes inv: "kmon_inv (s, k)" shows "kmon_inv (s, snd (kmon_create_current s k ceiling fl out))"
proof (cases "current_task s \<noteq> None \<and> out \<and> ceiling \<le> 255")
  case False
  then show ?thesis using inv by (auto simp: kmon_create_current_def not_less)
next
  case ok: True
  show ?thesis
  proof (cases "for_find (\<lambda>i. \<not> m_active (kmon_pool k i)) 0 KMON_MAX")
    case None
    then show ?thesis using inv ok by (simp add: kmon_create_current_def kmon_alloc_locked_def)
  next
    case (Some i)
    obtain qs where q: "task_inv s" "mwf {} {} (task_count s) k qs" by (rule kmon_invE [OF inv])
    have u: "unused k qs i" using inactive_unused [OF q(2)] Some by (simp add: for_find_Some)
    have le: "\<not> 255 < ceiling" using ok by (simp add: not_less)
    obtain fl' where k': "snd (kmon_create_current s k ceiling fl out) =
        set_mon (k\<lparr>kmon_next_handle := (if kmon_next_handle k + 1 = 0 then 1 else kmon_next_handle k + 1)\<rparr>) i
          (zero_mon\<lparr>m_active := True, m_handle := kmon_next_handle k, prio_ceiling := ceiling, m_flags := fl'\<rparr>)"
      using ok Some le by (simp add: kmon_create_current_def kmon_alloc_locked_def Let_def set_mon_def)
    have "mwf {} {} (task_count s) (snd (kmon_create_current s k ceiling fl out)) qs"
      unfolding k' by (rule mwf_rewrite) (use q(2) u in \<open>simp_all add: zero_mon_def unused_def\<close>)
    then show ?thesis by (rule kmon_invI [OF inv sched_soft_refl [OF q(1)]]) (simp add: k')
  qed
qed

text \<open>Destroying checks every queue, so no waiter is left pointing to the monitor.\<close>

lemma destroy_ok:
  assumes inv: "kmon_inv (s, k)" shows "kmon_inv (s, snd (kmon_destroy_current s k h))"
proof (cases "\<exists>i. kmon_destroy_current s k h = (Inr (), set_mon k i zero_mon) \<and> kmon_find_locked k h = Some i \<and> m_owner (kmon_pool k i) = None \<and>
    n_waiters (enter_q (kmon_pool k i)) = 0 \<and> for_find (\<lambda>c. n_waiters (m_cond (kmon_pool k i) c) \<noteq> 0) 0 KMON_MAX_COND = None")
  case False
  then have "snd (kmon_destroy_current s k h) = k" by (auto simp: kmon_destroy_current_def Let_def split: option.splits if_splits)
  then show ?thesis using inv by simp
next
  case True
  then obtain i where d: "kmon_destroy_current s k h = (Inr (), set_mon k i zero_mon)" and i: "m_owner (kmon_pool k i) = None"
    "n_waiters (enter_q (kmon_pool k i)) = 0" "for_find (\<lambda>c. n_waiters (m_cond (kmon_pool k i) c) \<noteq> 0) 0 KMON_MAX_COND = None" by blast
  obtain qs where q: "task_inv s" "mwf {} {} (task_count s) k qs" by (rule kmon_invE [OF inv])
  have "qs (CondQ i c) = []" for c
  proof (cases "c < KMON_MAX_COND")
    case True
    then show ?thesis using i(3) mwfD(2) [OF q(2), of "CondQ i c"] by (simp add: for_find_None)
  next
    case False
    have "w \<notin> set (qs (CondQ i c))" for w
      using mwfD(3) [OF q(2), of w "CondQ i c"] False by (auto simp: place_def kmon_waiter_queue_def split: option.splits if_splits)
    then show ?thesis by (metis ex_in_conv set_empty)
  qed
  then have "unused k qs i" using i(1,2) mwfD(2) [OF q(2), of "EnterQ i"] by (simp add: unused_def)
  then have "mwf {} {} (task_count s) (set_mon k i zero_mon) qs" by (rule mwf_rewrite [OF q(2)]) (simp_all add: zero_mon_def)
  then have "kmon_inv (s, set_mon k i zero_mon)" by (rule kmon_invI [OF inv sched_soft_refl [OF q(1)]]) simp
  then show ?thesis by (simp add: d)
qed

text \<open>Taking a waiter off its queue, if it is in one, and giving it back.\<close>

lemma leave_queue:
  assumes wf: "mwf {} {} n k qs" and w: "mw_active (kmon_waiters k w)" "mw_mon (kmon_waiters k w) = Some i"
  obtains L k1 qs' where "kmon_queue_remove_locked k (kmon_waiter_queue i (kmon_waiters k w)) w = Some k1" "mwf {} L n k1 qs'"
    "mwf {} {} n (kmon_waiter_free_locked k1 w) qs'" "kmon_waiters k1 = kmon_waiters k" "mon_same k k1"
proof (cases "place (kmon_waiters k w)")
  case None
  then have "kmon_queue_remove_locked k (kmon_waiter_queue i (kmon_waiters k w)) w = Some k" using w(2) by (simp add: place_def kmon_queue_remove_locked_def)
  moreover have "mwf {} {} n (kmon_waiter_free_locked k w) qs" using mwf_free [OF wf, of w] None by simp
  ultimately show ?thesis using that wf by (simp add: mon_same_def)
next
  case (Some p)
  obtain k1 where k1: "kmon_queue_remove_locked k (Some p) w = Some k1" "mwf {} {w} n k1 (qs(p := remove1 w (qs p)))" "kmon_waiters k1 = kmon_waiters k" "mon_same k k1"
    by (rule mwf_remove [OF wf w(1) Some]) auto
  moreover have "mwf {} {} n (kmon_waiter_free_locked k1 w) (qs(p := remove1 w (qs p)))" using mwf_free [OF k1(2), of w] by simp
  ultimately show ?thesis using that Some w(2) by (simp add: place_def)
qed

lemma free_outside:
  assumes wf: "mwf X L n k qs" and w: "mw_active (kmon_waiters k w)" "mw_task (kmon_waiters k w) = Some c" and k': "kmon_waiters k' = (kmon_waiters k)(w := zero_mwaiter)"
  shows "outside k' c"
  using mwf_same_task [OF wf _ w(1)] w(2) by (auto simp: outside_def k')

lemma yield_soft_blocked: "sched_yield s = Some s' \<Longrightarrow> state_of s' t = TCB_BLOCKED \<Longrightarrow> state_of s t = TCB_BLOCKED"
  using schedule_no_block [of "case current_task s of None \<Rightarrow> s | Some c \<Rightarrow> set_ticks s c 0" s' t]
  by (simp add: sched_yield_def split: option.splits if_splits)

lemma sched_change_inv:
  assumes inv: "kmon_inv (s, k)" and s': "task_inv s'" "task_count s' = task_count s"
    and b: "\<And>t. state_of s' t = TCB_BLOCKED \<Longrightarrow> state_of s t = TCB_BLOCKED \<or>
      (\<forall>w. mw_active (kmon_waiters k w) \<longrightarrow> mw_task (kmon_waiters k w) = Some t \<longrightarrow> wake_reason (kmon_waiters k w) \<noteq> KMON_WAKE_LOCK)"
  shows "kmon_inv (s', k)"
  using inv s' b unfolding kmon_inv_def by simp blast

lemma yield_ok:
  assumes inv: "kmon_inv (s, k)" shows "\<exists>s'. sched_yield s = Some s' \<and> kmon_inv (s', k)"
proof -
  have t: "task_inv s" by (rule kmon_invE [OF inv])
  obtain s' where s': "sched_yield s = Some s'" by (rule sched_yield_inv [OF task_invD(1) [OF t]])
  have "task_inv s'" "task_count s' = task_count s" using task_inv_sched [OF t step_yield [OF s']] sched_yield_same [OF s'] by (auto simp: proc_same_def)
  then show ?thesis using sched_change_inv [OF inv] yield_soft_blocked [OF s'] s' by blast
qed

lemma lock_free_ok:
  assumes inv: "kmon_inv (s, k)" and w: "wake_reason (kmon_waiters k w) = KMON_WAKE_LOCK" "mw_active (kmon_waiters k w)"
  shows "kmon_inv (s, kmon_waiter_free_locked k w)"
proof -
  obtain qs where q: "task_inv s" "mwf {} {} (task_count s) k qs" by (rule kmon_invE [OF inv])
  have "mwf {} {} (task_count s) (kmon_waiter_free_locked k w) qs" using mwf_free [OF q(2), of w] mwf_wake(1) [OF q(2) w(2,1)] by simp
  then show ?thesis by (rule kmon_invI [OF inv sched_soft_refl [OF q(1)]]) (auto split: if_splits)
qed

lemma enter_poll_ok:
  assumes inv: "kmon_inv (s, k)" and c: "current_task s = Some c" "c \<noteq> IDLE_SLOT"
    and w: "mw_active (kmon_waiters k w)" "mw_task (kmon_waiters k w) = Some c" "mw_mon (kmon_waiters k w) = Some i" "queue_kind (kmon_waiters k w) \<noteq> KMON_Q_COND"
  shows "\<exists>r s' k'. kmon_enter_poll s k i w allow pend = Some (r, s', k') \<and> kmon_inv (s', k')"
proof -
  obtain qs where q: "task_inv s" "mwf {} {} (task_count s) k qs" by (rule kmon_invE [OF inv])
  consider "wake_reason (kmon_waiters k w) = KMON_WAKE_LOCK"
    | (block) "wake_reason (kmon_waiters k w) \<noteq> KMON_WAKE_LOCK" "\<not> allow \<or> \<not> sched_task_is_user s (current_task s)"
    | (signal) "wake_reason (kmon_waiters k w) \<noteq> KMON_WAKE_LOCK" "allow" "sched_task_is_user s (current_task s)" "pend"
    | (yield) "wake_reason (kmon_waiters k w) \<noteq> KMON_WAKE_LOCK" "allow" "sched_task_is_user s (current_task s)" "\<not> pend" by blast
  then show ?thesis
  proof cases
    case 1
    then show ?thesis using lock_free_ok [OF inv 1 w(1)] by (simp add: kmon_enter_poll_def)
  next
    case block
    obtain s' where s': "sched_block s = Some s'" "proc_same s s'" "\<forall>t. state_of s' t = TCB_BLOCKED \<longleftrightarrow> t = c \<or> state_of s t = TCB_BLOCKED"
      by (rule sched_block_state [OF task_invD(1) [OF q(1)] c])
    have "task_inv s'" by (rule task_inv_sched [OF q(1) step_block [OF _ s'(1)]]) (use c in simp)
    moreover have "wake_reason (kmon_waiters k v) \<noteq> KMON_WAKE_LOCK" if "mw_active (kmon_waiters k v)" "mw_task (kmon_waiters k v) = Some c" for v
      using mwf_same_task [OF q(2) that(1) w(1)] that(2) w(2) block(1) by simp
    ultimately have "kmon_inv (s', k)" using s'(2,3) by (intro sched_change_inv [OF inv]) (auto simp: proc_same_def)
    then show ?thesis using block s'(1) by (auto simp: kmon_enter_poll_def)
  next
    case signal
    have wn: "wake_reason (kmon_waiters k w) = KMON_WAKE_NONE" by (rule mwf_wake(2) [OF q(2) w(1) signal(1)])
    obtain p where "place (kmon_waiters k w) = Some p" using mwf_wake(3) [OF q(2) w(1) signal(1)] by blast
    moreover have "p \<noteq> UrgentQ j" for j using mwfD(3) [OF q(2), of w p] mwfD(8) [OF q(2), of j] w(1) calculation by auto
    ultimately have eq: "kmon_waiter_queue i (kmon_waiters k w) = Some (EnterQ i)"
      using w(3,4) by (auto simp: place_def kmon_waiter_queue_def split: if_splits)
    obtain L k1 qs' where k1: "kmon_queue_remove_locked k (Some (EnterQ i)) w = Some k1" "mwf {} {} (task_count s) (kmon_waiter_free_locked k1 w) qs'"
      "kmon_waiters k1 = kmon_waiters k" using leave_queue [OF q(2) w(1,3), unfolded eq] by metis
    obtain s1 where s1: "kmon_refresh_owner_locked s (kmon_waiter_free_locked k1 w) i = Some s1" "sched_soft s s1" by (rule refresh_soft [OF q(1) k1(2)])
    have "kmon_inv (s', kmon_waiter_free_locked k1 w)" if "sched_soft s s'" for s'
      by (rule kmon_invI [OF inv that k1(2)]) (auto simp: k1(3) split: if_splits)
    then show ?thesis using signal w(1) wn k1(1) s1 sched_soft_refl [OF q(1)] by (simp add: kmon_enter_poll_def Let_def)
  next
    case yield
    then show ?thesis using yield_ok [OF inv] by (auto simp: kmon_enter_poll_def)
  qed
qed

lemma find_same: "mon_same k k' \<Longrightarrow> kmon_find_locked k' h = kmon_find_locked k h"
  by (simp add: mon_same_def kmon_find_locked_def)

text \<open>An interrupted or late waiter gives up its place and enters again.\<close>

lemma mon_leave_ok:
  assumes inv: "kmon_inv (s, k)" and c: "current_task s = Some c"
    and w: "mw_active (kmon_waiters k w)" "mw_task (kmon_waiters k w) = Some c" "mw_mon (kmon_waiters k w) = Some i" "wake_reason (kmon_waiters k w) \<noteq> KMON_WAKE_LOCK"
  shows "(\<exists>r s' k'. kmon_leave s k h i w e = Some (r, s', k') \<and> kmon_inv (s', k')) \<or>
    kmon_leave s k h i w e = None \<and> (\<exists>j. kmon_find_locked k h = Some j \<and> m_owner (kmon_pool k j) = Some c)"
proof -
  obtain qs where q: "task_inv s" "mwf {} {} (task_count s) k qs" by (rule kmon_invE [OF inv])
  obtain L k1 qs' where k1: "kmon_queue_remove_locked k (kmon_waiter_queue i (kmon_waiters k w)) w = Some k1"
    "mwf {} {} (task_count s) (kmon_waiter_free_locked k1 w) qs'" "kmon_waiters k1 = kmon_waiters k" "mon_same k k1"
    by (rule leave_queue [OF q(2) w(1,3)])
  let ?k = "kmon_waiter_free_locked k1 w"
  have wn: "wake_reason (kmon_waiters k w) = KMON_WAKE_NONE" by (rule mwf_wake(2) [OF q(2) w(1,4)])
  have inv': "kmon_inv (s, ?k)" by (rule kmon_invI [OF inv sched_soft_refl [OF q(1)] k1(2)]) (auto simp: k1(3) split: if_splits)
  have out: "outside ?k c" by (rule free_outside [OF q(2) w(1,2)]) (simp add: k1(3))
  have same: "mon_same k ?k" using k1(4) by (simp add: mon_same_def)
  have eq: "kmon_leave s k h i w e = (case kmon_enter_common s ?k h of None \<Rightarrow> None | Some (r, s, k) \<Rightarrow>
      Some (case r of EnterFailed e' \<Rightarrow> WaitFailed e' | Entered \<Rightarrow> WaitFailed e | EnterQueued w' i' \<Rightarrow> Reenter e w' i', s, k))"
    using w(1) wn k1(1) by (simp add: kmon_leave_def Let_def split: option.split)
  show ?thesis
  proof (cases "\<exists>j. kmon_find_locked k h = Some j \<and> m_owner (kmon_pool k j) = Some c")
    case True
    then have "kmon_enter_common s ?k h = None" using enter_recursive [OF c] same find_same [OF same] by (auto simp: mon_same_def)
    then show ?thesis using True eq by simp
  next
    case False
    then have "\<exists>r s' k'. kmon_enter_common s ?k h = Some (r, s', k') \<and> kmon_inv (s', k')"
      using same find_same [OF same] by (intro enter_ok [OF inv' c out]) (auto simp: mon_same_def)
    then show ?thesis using eq by auto
  qed
qed

lemma waiter_not_owner:
  assumes "mwf {} {} n k qs" "mw_active (kmon_waiters k w)" "mw_mon (kmon_waiters k w) = Some i" "wake_reason (kmon_waiters k w) \<noteq> KMON_WAKE_LOCK"
  shows "m_owner (kmon_pool k i) \<noteq> mw_task (kmon_waiters k w)"
  using mwfD(5) [OF assms(1), of i] assms(2-4) by (auto simp: mowner_def)

lemma mon_wait_poll_ok:
  assumes inv: "kmon_inv (s, k)" and c: "current_task s = Some c"
    and w: "mw_active (kmon_waiters k w)" "mw_task (kmon_waiters k w) = Some c" "mw_mon (kmon_waiters k w) = Some i"
  shows "(\<exists>r s' k'. kmon_wait_poll s k h i w pend to now dl = Some (r, s', k') \<and> kmon_inv (s', k')) \<or>
    kmon_wait_poll s k h i w pend to now dl = None \<and> kmon_find_locked k h \<noteq> Some i"
proof (cases "wake_reason (kmon_waiters k w) = KMON_WAKE_LOCK")
  case True
  then show ?thesis using lock_free_ok [OF inv True w(1)] by (simp add: kmon_wait_poll_def)
next
  case False
  obtain qs where "mwf {} {} (task_count s) k qs" by (rule kmon_invE [OF inv])
  from waiter_not_owner [OF this w(1,3) False] w(2) have "m_owner (kmon_pool k i) \<noteq> Some c" by simp
  then have "(\<exists>r s' k'. kmon_leave s k h i w e = Some (r, s', k') \<and> kmon_inv (s', k')) \<or> kmon_leave s k h i w e = None \<and> kmon_find_locked k h \<noteq> Some i" for e
    using mon_leave_ok [OF inv c w False, of h e] by auto
  note leave = this
  obtain s' where y: "sched_yield s = Some s'" "kmon_inv (s', k)" using yield_ok [OF inv] by blast
  consider "kmon_wait_poll s k h i w pend to now dl = kmon_leave s k h i w EINTR" | "kmon_wait_poll s k h i w pend to now dl = kmon_leave s k h i w ETIMEDOUT"
    | "kmon_wait_poll s k h i w pend to now dl = Some (StillWaiting, s', k)"
    using False y(1) by (cases pend; cases "to \<noteq> KMON_WAIT_FOREVER_NS \<and> now \<ge> dl") (simp_all add: kmon_wait_poll_def)
  then show ?thesis using leave [of EINTR] leave [of ETIMEDOUT] y(2) by cases simp_all
qed

text \<open>The clean-up of an exiting task.\<close>

lemma ofold_each:
  assumes "\<And>x sk. P sk \<Longrightarrow> \<exists>sk'. f x sk = Some sk' \<and> P sk' \<and> R x sk' \<and> (\<forall>y. R y sk \<longrightarrow> R y sk')" "P sk"
  shows "\<exists>sk'. ofold f xs sk = Some sk' \<and> P sk' \<and> (\<forall>y. R y sk \<or> y \<in> set xs \<longrightarrow> R y sk')"
  using assms(2)
proof (induction xs arbitrary: sk)
  case (Cons x xs)
  obtain sk1 where "f x sk = Some sk1" "P sk1" "R x sk1" "\<forall>y. R y sk \<longrightarrow> R y sk1" using assms(1) [OF Cons.prems] by blast
  moreover obtain sk' where "ofold f xs sk1 = Some sk'" "P sk'" "\<forall>y. R y sk1 \<or> y \<in> set xs \<longrightarrow> R y sk'" using Cons.IH [OF \<open>P sk1\<close>] by blast
  ultimately show ?case by auto
qed simp

definition not_of :: "nat \<Rightarrow> nat \<Rightarrow> sched \<times> kmon \<Rightarrow> bool" where
  "not_of t w sk \<longleftrightarrow> (mw_active (kmon_waiters (snd sk) w) \<longrightarrow> mw_task (kmon_waiters (snd sk) w) \<noteq> Some t)"

lemma mon_cleanup_waiter_ok:
  assumes inv: "kmon_inv (s, k)"
  shows "\<exists>s' k'. kmon_cleanup_waiter t w (s, k) = Some (s', k') \<and> kmon_inv (s', k') \<and> sched_soft s s' \<and> not_of t w (s', k') \<and> (\<forall>v. not_of t v (s, k) \<longrightarrow> not_of t v (s', k'))"
proof -
  obtain qs where q: "task_inv s" "mwf {} {} (task_count s) k qs" by (rule kmon_invE [OF inv])
  show ?thesis
  proof (cases "mw_active (kmon_waiters k w) \<and> mw_task (kmon_waiters k w) = Some t")
    case False
    then have "kmon_cleanup_waiter t w (s, k) = Some (s, k)" by (auto simp: kmon_cleanup_waiter_def Let_def split: option.split)
    then show ?thesis using inv sched_soft_refl [OF q(1)] False by (simp add: not_of_def)
  next
    case w: True
    obtain i where i: "mw_mon (kmon_waiters k w) = Some i" by (rule mwf_waiter [OF q(2)]) (use w in auto)
    obtain L k1 qs' where k1: "kmon_queue_remove_locked k (kmon_waiter_queue i (kmon_waiters k w)) w = Some k1" "mwf {} L (task_count s) k1 qs'"
      "mwf {} {} (task_count s) (kmon_waiter_free_locked k1 w) qs'" "kmon_waiters k1 = kmon_waiters k"
      by (rule leave_queue [OF q(2) _ i]) (use w in auto)
    obtain s1 where s1: "kmon_refresh_owner_locked s k1 i = Some s1" "sched_soft s s1" by (rule refresh_soft [OF q(1) k1(2)])
    obtain s' where s': "(if m_owner (kmon_pool k1 i) \<noteq> None then kmon_refresh_owner_locked s k1 i else Some s) = Some s'" "sched_soft s s'"
      using s1 sched_soft_refl [OF q(1)] by (cases "m_owner (kmon_pool k1 i)") auto
    have "kmon_inv (s', kmon_waiter_free_locked k1 w)" by (rule kmon_invI [OF inv s'(2) k1(3)]) (auto simp: k1(4) split: if_splits)
    moreover have "kmon_cleanup_waiter t w (s, k) = Some (s', kmon_waiter_free_locked k1 w)"
      using w i k1(1) s'(1) by (simp add: kmon_cleanup_waiter_def)
    ultimately show ?thesis using s'(2) by (auto simp: not_of_def k1(4))
  qed
qed

lemma mon_cleanup_ok:
  assumes inv: "kmon_inv (s, k)"
  shows "\<exists>s' k'. kmon_task_cleanup s k (Some t) = Some (s', k') \<and> kmon_inv (s', k') \<and> outside k' t \<and> (\<forall>i < KMON_MAX. m_owner (kmon_pool k' i) \<noteq> Some t)"
proof -
  have "\<exists>sk. ofold (kmon_cleanup_waiter t) [0..<KMON_MAX_WAITERS] (s, k) = Some sk \<and> kmon_inv sk \<and> (\<forall>w. not_of t w (s, k) \<or> w \<in> set [0..<KMON_MAX_WAITERS] \<longrightarrow> not_of t w sk)"
  proof (rule ofold_each [of kmon_inv _ "not_of t"])
    fix w and sk :: "sched \<times> kmon" assume "kmon_inv sk"
    then show "\<exists>sk'. kmon_cleanup_waiter t w sk = Some sk' \<and> kmon_inv sk' \<and> not_of t w sk' \<and> (\<forall>v. not_of t v sk \<longrightarrow> not_of t v sk')"
      using mon_cleanup_waiter_ok [of "fst sk" "snd sk" t w] by (cases sk) auto
  qed (rule inv)
  then obtain s1 k1 where 1: "ofold (kmon_cleanup_waiter t) [0..<KMON_MAX_WAITERS] (s, k) = Some (s1, k1)" "kmon_inv (s1, k1)" "\<forall>w < KMON_MAX_WAITERS. not_of t w (s1, k1)" by auto
  have out: "outside k1 t"
    unfolding outside_def by (rule kmon_invE [OF 1(2)]) (use 1(3) mwfD(4) in \<open>auto simp: not_of_def\<close>)
  let ?P = "\<lambda>sk. kmon_inv sk \<and> outside (snd sk) t" and ?R = "\<lambda>i sk. m_owner (kmon_pool (snd sk) i) \<noteq> Some t"
  have "\<exists>sk. ofold (kmon_cleanup_owner t) [0..<KMON_MAX] (s1, k1) = Some sk \<and> ?P sk \<and> (\<forall>i. ?R i (s1, k1) \<or> i \<in> set [0..<KMON_MAX] \<longrightarrow> ?R i sk)"
  proof (rule ofold_each [of ?P _ ?R])
    fix i and sk :: "sched \<times> kmon" assume P: "?P sk"
    obtain u l where sk: "sk = (u, l)" by (cases sk)
    obtain qs where wf: "mwf {} {} (task_count u) l qs" using P kmon_invE sk by metis
    show "\<exists>sk'. kmon_cleanup_owner t i sk = Some sk' \<and> ?P sk' \<and> ?R i sk' \<and> (\<forall>j. ?R j sk \<longrightarrow> ?R j sk')"
    proof (cases "m_owner (kmon_pool l i) = Some t")
      case False
      then show ?thesis using P by (simp add: kmon_cleanup_owner_def sk)
    next
      case True
      obtain u' l' where r: "kmon_release_locked u (clear_count l i) i (Some t) = Some (u', l')" "handed_over u l i qs u' l'" "kmon_inv (u', l')"
        using release_owned [OF _ True _ wf] P sk by auto
      have "outside l' t \<and> m_owner (kmon_pool l' i) \<noteq> Some t"
      proof (cases "qs (EnterQ i)")
        case Nil
        then show ?thesis using r(2) P sk by (simp add: handed_over_def outside_def)
      next
        case (Cons w ws)
        then have "mw_active (kmon_waiters l w)" using mwfD(3) [OF wf, of w "EnterQ i"] by simp
        then have "mw_task (kmon_waiters l w) \<noteq> Some t" using P sk by (simp add: outside_def)
        then show ?thesis using r(2) P sk Cons by (simp add: handed_over_def outside_def)
      qed
      then show ?thesis using r mwfD(7) [OF wf True] True by (auto simp: kmon_cleanup_owner_def sk handed_over_def)
    qed
  qed (use 1(2) out in simp)
  then obtain s2 k2 where 2: "ofold (kmon_cleanup_owner t) [0..<KMON_MAX] (s1, k1) = Some (s2, k2)" "kmon_inv (s2, k2)" "outside k2 t"
    "\<forall>i < KMON_MAX. m_owner (kmon_pool k2 i) \<noteq> Some t" by auto
  then show ?thesis using 1(1) by (simp add: kmon_task_cleanup_def)
qed

subsection \<open>All runs\<close>

text \<open>
  The moves of the system: calls of the running task, which is not inside another monitor call, turns of the loop of a
  waiting task, the clean-up of a task that exits, and whatever the scheduler and the process layer do, where a
  task that is inside a monitor call does not block anywhere else.
\<close>

inductive kmon_step :: "sched \<times> kmon \<Rightarrow> sched \<times> kmon \<Rightarrow> bool" where
  km_create: "kmon_create_current s k ceiling fl out = (r, k') \<Longrightarrow> kmon_step (s, k) (s, k')"
| km_destroy: "kmon_destroy_current s k h = (u, k') \<Longrightarrow> kmon_step (s, k) (s, k')"
| km_enter: "current_task s = Some c \<Longrightarrow> outside k c \<Longrightarrow> kmon_enter_current s k h = Some (e, s', k') \<Longrightarrow> kmon_step (s, k) (s', k')"
| km_exit: "current_task s = Some c \<Longrightarrow> outside k c \<Longrightarrow> kmon_exit_current s k h = Some (u, s', k') \<Longrightarrow> kmon_step (s, k) (s', k')"
| km_wait: "current_task s = Some c \<Longrightarrow> outside k c \<Longrightarrow> kmon_wait_current s k h cond = Some (q, s', k') \<Longrightarrow> kmon_step (s, k) (s', k')"
| km_signal: "kmon_signal_current s k h cond = Some (u, s', k') \<Longrightarrow> kmon_step (s, k) (s', k')"
| km_broadcast: "kmon_broadcast_current s k h cond = Some (u, s', k') \<Longrightarrow> kmon_step (s, k) (s', k')"
| km_enter_poll: "current_task s = Some c \<Longrightarrow> c \<noteq> IDLE_SLOT \<Longrightarrow> mw_active (kmon_waiters k w) \<Longrightarrow> mw_task (kmon_waiters k w) = Some c \<Longrightarrow>
    mw_mon (kmon_waiters k w) = Some i \<Longrightarrow> queue_kind (kmon_waiters k w) \<noteq> KMON_Q_COND \<Longrightarrow>
    kmon_enter_poll s k i w allow pend = Some (e, s', k') \<Longrightarrow> kmon_step (s, k) (s', k')"
| km_wait_poll: "current_task s = Some c \<Longrightarrow> mw_active (kmon_waiters k w) \<Longrightarrow> mw_task (kmon_waiters k w) = Some c \<Longrightarrow> mw_mon (kmon_waiters k w) = Some i \<Longrightarrow>
    kmon_wait_poll s k h i w pend to now dl = Some (x, s', k') \<Longrightarrow> kmon_step (s, k) (s', k')"
| km_cleanup: "kmon_task_cleanup s k (Some t) = Some (s', k') \<Longrightarrow> kmon_step (s, k) (s', k')"
| km_task: "task_step s s' \<Longrightarrow> \<forall>t. state_of s' t = TCB_BLOCKED \<longrightarrow> state_of s t = TCB_BLOCKED \<or> outside k t \<Longrightarrow> kmon_step (s, k) (s', k)"

lemma mwf_mono:
  assumes wf: "mwf X L n k qs" and m: "n \<le> m" shows "mwf X L m k qs"
proof -
  have "mwaiters m k" using mwfD(9) [OF wf] m unfolding mwaiters_def by (meson less_le_trans)
  then show ?thesis using wf m unfolding mwf_def by (meson less_le_trans)
qed

lemma task_move_inv:
  assumes inv: "kmon_inv (s, k)" and st: "task_step s s'" and b: "\<forall>t. state_of s' t = TCB_BLOCKED \<longrightarrow> state_of s t = TCB_BLOCKED \<or> outside k t"
  shows "kmon_inv (s', k)"
proof -
  obtain qs where q: "task_inv s" "mwf {} {} (task_count s) k qs" by (rule kmon_invE [OF inv])
  have "mwf {} {} (task_count s') k qs" by (rule mwf_mono [OF q(2) task_step_count [OF q(1) st]])
  then show ?thesis using inv task_step_inv [OF q(1) st] b unfolding kmon_inv_def outside_def by simp blast
qed

lemma kmon_step_inv:
  assumes "kmon_inv a" "kmon_step a b" shows "kmon_inv b"
  using assms(2)
proof cases
  case (km_create s k ceiling fl out r k') then show ?thesis using mon_create_ok [of s k ceiling fl out] assms(1) by simp
next
  case (km_destroy s k h u k') then show ?thesis using destroy_ok [of s k h] assms(1) by simp
next
  case (km_enter s c k h e s' k')
  then have "m_owner (kmon_pool k i) \<noteq> Some c" if "kmon_find_locked k h = Some i" for i
    using enter_recursive [OF km_enter(3) that] by (auto simp: kmon_enter_current_def)
  then show ?thesis using enter_ok [of s k c h] km_enter assms(1) by (auto simp: kmon_enter_current_def)
next
  case (km_exit s c k h u s' k') then show ?thesis using exit_ok [of s k c h] assms(1) by auto
next
  case (km_wait s c k h cond q s' k') then show ?thesis using wait_ok [of s k c h cond] assms(1) by auto
next
  case (km_signal s k h cond u s' k') then show ?thesis using signal_ok [of s k h cond] assms(1) by auto
next
  case (km_broadcast s k h cond u s' k') then show ?thesis using broadcast_ok [of s k h cond] assms(1) by auto
next
  case (km_enter_poll s c k w i allow pend e s' k') then show ?thesis using enter_poll_ok [of s k c w i allow pend] assms(1) by auto
next
  case (km_wait_poll s c k w i h pend to now dl x s' k') then show ?thesis using mon_wait_poll_ok [of s k c w i h pend to now dl] assms(1) by auto
next
  case (km_cleanup s k t s' k') then show ?thesis using mon_cleanup_ok [of s k t] assms(1) by auto
next
  case (km_task s s' k) then show ?thesis using task_move_inv assms(1) by simp
qed

interpretation kmonsys: invariant_system kmon_step kmon_inv
  by unfold_locales (rule kmon_step_inv)

end
