(* ===== verification/Kmon_Props.thy ===== *)
theory Kmon_Props
  imports Kmon
begin

text \<open>
  What the monitors of \<^verbatim>\<open>kernel/kmon.c\<close> promise: the tables stay well formed on all runs and nobody who has been given a monitor
  stays blocked, leaving a monitor hands it to the longest waiter, and where signals put the tasks they wake.
\<close>

subsection \<open>The lists in the queues\<close>

text \<open>The waiters in a queue, first to last.\<close>

definition queued :: "kmon \<Rightarrow> queue_ptr \<Rightarrow> nat list \<Rightarrow> bool" where
  "queued k p ws \<longleftrightarrow> fifo_rep (mw_next k) (q_fifo (queue_at k p)) ws \<and> unat (n_waiters (queue_at k p)) = length ws"

lemma mwf_queued: "mwf X L n k qs \<Longrightarrow> queued k p (qs p)"
  using qarrD(1) [OF mwfD(1)] mwfD(2) by (simp add: queued_def)

lemma queued_mwf: "mwf X L n k qs \<Longrightarrow> queued k p ws \<longleftrightarrow> ws = qs p"
  using mwf_queued [of X L n k qs p] fifo_rep_unique by (auto simp: queued_def)

lemma handed_over_lists: "handed_over s k i qs s' k' \<Longrightarrow> mwf {} {} (task_count s) k' (qs(EnterQ i := tl (qs (EnterQ i))))"
  by (cases "qs (EnterQ i)") (simp_all add: handed_over_def fun_upd_idem)

lemma boot_kmon:
  obtains s where "sched_init = Some s" "task_inv s" "current_task s = Some 0" "kmon_inv (s, kmon_init)"
proof (rule sched_init_inv)
  fix s assume s: "sched_init = Some s" "sched_inv s" "proc_inv s" "current_task s = Some 0"
  then have "kmon_inv (s, kmon_init)" using mwf_init [of "task_count s"] by (auto simp: kmon_inv_def task_inv_def kmon_init_def)
  then show thesis using that [of s] s by (simp add: task_inv_def)
qed

text \<open>There is always a free waiter: a task waits at most once, and the table has room for all tasks.\<close>

lemma waiter_available:
  assumes inv: "kmon_inv (s, k)" and c: "current_task s = Some c" "outside k c"
  shows "kmon_waiter_alloc_locked k i c kind cd \<noteq> None"
proof
  assume "kmon_waiter_alloc_locked k i c kind cd = None"
  then have "for_find (\<lambda>w. \<not> mw_active (kmon_waiters k w)) 0 KMON_MAX_WAITERS = None"
    by (auto simp: kmon_waiter_alloc_locked_def split: option.splits)
  then have all: "mw_active (kmon_waiters k w)" if "w < KMON_MAX_WAITERS" for w using that by (simp add: for_find_None)
  obtain qs where q: "task_inv s" "mwf {} {} (task_count s) k qs" by (rule kmon_invE [OF inv])
  let ?f = "\<lambda>w. the (mw_task (kmon_waiters k w))"
  have t: "mw_task (kmon_waiters k w) = Some (?f w) \<and> ?f w < task_count s" if w: "w < KMON_MAX_WAITERS" for w
    by (rule mwf_waiter [OF q(2) all [OF w]]) simp
  have "inj_on ?f {..<KMON_MAX_WAITERS}"
    by (rule inj_onI) (metis all lessThan_iff mwf_same_task [OF q(2)] t)
  moreover have "?f ` {..<KMON_MAX_WAITERS} \<subseteq> {..<task_count s} - {c}"
    using t all c(2) by (fastforce simp: outside_def)
  ultimately have "KMON_MAX_WAITERS \<le> card ({..<task_count s} - {c})" using card_inj_on_le [of ?f "{..<KMON_MAX_WAITERS}" "{..<task_count s} - {c}"] by simp
  moreover have "card ({..<task_count s} - {c}) < task_count s" using current_slot [OF q(1) c(1)] by (simp add: card_Diff_singleton)
  moreover have "task_count s \<le> SCHED_MAX_TASKS" using task_invD(2) [OF q(1)] by (simp add: proc_inv_def)
  ultimately show False by (simp add: KMON_MAX_WAITERS_def SCHED_MAX_TASKS_def)
qed

text \<open>What the invariant says about a waiter.\<close>

lemma waiter_facts:
  assumes inv: "kmon_inv (s, k)" and w: "mw_active (kmon_waiters k w)"
  shows "\<exists>i t. mw_mon (kmon_waiters k w) = Some i \<and> m_active (kmon_pool k i) \<and> mw_task (kmon_waiters k w) = Some t \<and>
      (wake_reason (kmon_waiters k w) = KMON_WAKE_LOCK \<longleftrightarrow> m_owner (kmon_pool k i) = Some t) \<and>
      (wake_reason (kmon_waiters k w) = KMON_WAKE_LOCK \<longrightarrow> state_of s t \<noteq> TCB_BLOCKED) \<and>
      (\<forall>v. mw_active (kmon_waiters k v) \<and> mw_task (kmon_waiters k v) = Some t \<longrightarrow> v = w)"
proof -
  obtain qs where q: "task_inv s" "mwf {} {} (task_count s) k qs"
    "\<forall>w t. mw_active (kmon_waiters k w) \<and> wake_reason (kmon_waiters k w) = KMON_WAKE_LOCK \<and> mw_task (kmon_waiters k w) = Some t \<longrightarrow> state_of s t \<noteq> TCB_BLOCKED"
    by (rule kmon_invE [OF inv])
  obtain i t where it: "mw_mon (kmon_waiters k w) = Some i" "m_active (kmon_pool k i)" "mw_task (kmon_waiters k w) = Some t" by (rule mwf_waiter [OF q(2) w])
  moreover have "wake_reason (kmon_waiters k w) = KMON_WAKE_LOCK \<longleftrightarrow> m_owner (kmon_pool k i) = Some t"
      using mwfD(5) [OF q(2), of i] w it by (simp add: mowner_def)
  moreover have "v = w" if "mw_active (kmon_waiters k v) \<and> mw_task (kmon_waiters k v) = Some t" for v
      using mwf_same_task [OF q(2) _ w, of v] that it(3) by simp
  ultimately show ?thesis using q(3) w by blast
qed

subsection \<open>Examples\<close>

text \<open>The boot task creates monitor 1 and enters it.\<close>

lemma demo_owned:
  obtains s k where "kmon_inv (s, k)" "current_task s = Some 0" "kmon_find_locked k 1 = Some 0" "m_owner (kmon_pool k 0) = Some 0"
    "queued k (EnterQ 0) []" "queued k (CondQ 0 0) []" "\<forall>w. \<not> mw_active (kmon_waiters k w)" "task_count s = 2"
proof -
  obtain s where s: "task_inv s" "current_task s = Some 0" "task_count s = 2" by (rule sched_init_inv) (auto simp: task_inv_def)
  have inv0: "kmon_inv (s, kmon_init)" using s(1) mwf_init [of "task_count s"] by (auto simp: kmon_inv_def kmon_init_def)
  define k where "k = snd (kmon_create_current s kmon_init 0 0 True)"
  have "for_find (\<lambda>i. \<not> m_active (kmon_pool kmon_init i)) 0 KMON_MAX = Some 0" by (simp add: for_find_Some kmon_init_def zero_mon_def KMON_MAX_def)
  then have k: "kmon_pool k = (\<lambda>_. zero_mon)(0 := zero_mon\<lparr>m_active := True, m_handle := 1, m_flags := KMON_HOARE\<rparr>)" "kmon_waiters k = (\<lambda>_. zero_mwaiter)"
    using s(2) by (simp_all add: k_def kmon_create_current_def kmon_alloc_locked_def Let_def KMON_HOARE_def KMON_MESA_def kmon_init_def zero_mon_def)
  have f: "kmon_find_locked k 1 = Some 0" by (simp add: kmon_find_locked_def for_find_Some k KMON_MAX_def)
  have inv: "kmon_inv (s, k)" unfolding k_def by (rule mon_create_ok [OF inv0])
  have out: "outside k 0" by (simp add: outside_def k)
  let ?k = "set_mon k 0 ((kmon_pool k 0)\<lparr>m_owner := Some 0, entry_count := 1\<rparr>)"
  obtain s' where s': "kmon_inv (s', ?k)" "sched_soft s s'" by (rule enter_free [OF inv s(2) out f]) (auto simp: k zero_mon_def)
  have "queue_at ?k p = zero_queue" for p by (cases p) (simp_all add: k zero_mon_def)
  then have q: "queued ?k p []" for p by (simp add: queued_def fifo_rep_empty zero_queue_def)
  have "kmon_find_locked ?k 1 = Some 0" by (simp add: kmon_find_locked_def for_find_Some k KMON_MAX_def)
  then show ?thesis using that [OF s'(1) _ _ _ q q] s(2,3) sched_softD(2,3) [OF s'(2)] by (simp add: k)
qed

text \<open>It waits on condition 0 and blocks; the other task of the boot state enters.\<close>

lemma demo_cond:
  obtains s k w where "kmon_inv (s, k)" "current_task s = Some 1" "outside k 1" "kmon_find_locked k 1 = Some 0" "m_owner (kmon_pool k 0) = Some 1"
    "queued k (EnterQ 0) []" "queued k (CondQ 0 0) [w]" "mw_task (kmon_waiters k w) = Some 0"
proof -
  obtain s k where d: "kmon_inv (s, k)" "current_task s = Some 0" "kmon_find_locked k 1 = Some 0" "m_owner (kmon_pool k 0) = Some 0"
    "queued k (EnterQ 0) []" "queued k (CondQ 0 0) []" "\<forall>w. \<not> mw_active (kmon_waiters k w)" "task_count s = 2" by (rule demo_owned)
  obtain qs where wf: "mwf {} {} (task_count s) k qs" by (rule kmon_invE [OF d(1)])
  have q: "qs (EnterQ 0) = []" "qs (CondQ 0 0) = []" using d(5,6) queued_mwf [OF wf] by auto
  have out: "outside k 0" using d(7) by (simp add: outside_def)
  have own: "kmon_owned s k 0" using mwfD(5) [OF wf, of 0] d(2,4) by (simp add: kmon_owned_def mowner_def)
  have c0: "unat (0 :: u8) < KMON_MAX_COND" by (simp add: KMON_MAX_COND_def)
  have "kmon_wait_current s k 1 0 \<noteq> Some (Inl ENOSPC, s, k)"
    using d(2,3) own waiter_available [OF d(1,2) out, of 0 KMON_Q_COND 0] by (auto simp: kmon_wait_current_def KMON_MAX_COND_def Let_def bind_eq_Some_conv)
  then obtain w s' k' v k1 where r: "kmon_inv (s', k')" "mw_task v = Some 0" "kmon_waiters k' w = v" "kmon_waiters k1 = (kmon_waiters k)(w := v)" "mon_same k k1"
    "handed_over s k1 0 (qs(CondQ 0 0 := qs (CondQ 0 0) @ [w])) s' k'"
    using wait_queue [OF d(1,2) out d(3) own c0, unfolded unat_0] wf by blast
  have k': "mwf {} {} (task_count s) k' (qs(CondQ 0 0 := [w]))" "m_owner (kmon_pool k' 0) = None" "kmon_waiters k' = (kmon_waiters k)(w := v)" "sched_soft s s'"
    "\<forall>j. m_active (kmon_pool k' j) = m_active (kmon_pool k j) \<and> m_handle (kmon_pool k' j) = m_handle (kmon_pool k j)"
    using r(4-6) q by (simp_all add: handed_over_def mon_same_def)
  have find: "kmon_find_locked k' 1 = Some 0" using d(3) k'(5) by (simp add: kmon_find_locked_def)
  have cur: "current_task s' = Some 0" "task_count s' = 2" using sched_softD(2,3) [OF k'(4)] d(2,8) by simp_all
  obtain u where u: "sched_block s' = Some u" "sched_inv u" "proc_same s' u" "current_task u \<noteq> Some 0" "\<forall>t. state_of u t = TCB_BLOCKED \<longleftrightarrow> t = 0 \<or> state_of s' t = TCB_BLOCKED"
    by (rule sched_block_state [OF task_invD(1) [OF sched_softD(1) [OF k'(4)]] cur(1)]) (auto simp: IDLE_SLOT_def)
  have "task_inv u" by (rule task_inv_sched [OF sched_softD(1) [OF k'(4)] step_block [OF _ u(1)]]) (use cur in \<open>simp add: IDLE_SLOT_def\<close>)
  obtain n where n: "current_task u = Some n" "n < task_count u" by (rule sched_invE [OF u(2)])
  then have c: "current_task u = Some 1" using u(3,4) cur(2) by (auto simp: proc_same_def less_2_cases_iff)
  have "wake_reason v \<noteq> KMON_WAKE_LOCK"
  proof
    assume "wake_reason v = KMON_WAKE_LOCK"
    moreover have "w \<in> set ((qs(CondQ 0 0 := [w])) (CondQ 0 0))" by simp
    ultimately show False using mwfD(3) [OF k'(1), of w "CondQ 0 0"] mwf_wake(1) [OF k'(1), of w] r(3) by auto
  qed
  then have inv: "kmon_inv (u, k')"
    using \<open>task_inv u\<close> u(3,5) d(7) by (intro sched_change_inv [OF r(1)]) (auto simp: proc_same_def k'(3) split: if_splits)
  have out1: "outside k' 1" using d(7) r(2) by (auto simp: outside_def k'(3))
  let ?k = "set_mon k' 0 ((kmon_pool k' 0)\<lparr>m_owner := Some 1, entry_count := 1\<rparr>)"
  obtain s3 where s3: "kmon_inv (s3, ?k)" "sched_soft u s3" by (rule enter_free [OF inv c out1 find k'(2)])
  have "queue_at ?k p = queue_at k' p" for p by (cases p) simp_all
  then have ql: "queued ?k p ws = queued k' p ws" for p ws by (simp add: queued_def)
  have "queued ?k (EnterQ 0) []" "queued ?k (CondQ 0 0) [w]" unfolding ql using queued_mwf [OF k'(1)] q by simp_all
  moreover have "kmon_find_locked ?k 1 = Some 0" "outside ?k 1" using find out1 by (auto simp: kmon_find_locked_def outside_def for_find_Some)
  ultimately show ?thesis using that [OF s3(1)] c sched_softD(3) [OF s3(2)] r(2,3) by simp
qed

subsection \<open>Properties\<close>



text \<open>
  C29. The owner of a monitor can leave it. With nobody waiting to enter, the monitor becomes free; otherwise the longest waiting task owns it
  at once, is not blocked any more, and its next turn returns with the monitor entered. The other waiters keep their
  order, and the other queues and monitors are untouched.
\<close>

theorem kmon_exit_hands_over:
  assumes inv: "kmon_inv (s, k)" and c: "current_task s = Some c" "outside k c"
    and i: "kmon_find_locked k h = Some i" "m_owner (kmon_pool k i) = Some c" and ws: "queued k (EnterQ i) ws"
  shows "\<exists>s' k'. kmon_exit_current s k h = Some (Inr (), s', k') \<and> kmon_inv (s', k') \<and> queued k' (EnterQ i) (tl ws) \<and>
    (\<forall>p ps. p \<noteq> EnterQ i \<longrightarrow> queued k p ps \<longrightarrow> queued k' p ps) \<and> (\<forall>j. j \<noteq> i \<longrightarrow> m_owner (kmon_pool k' j) = m_owner (kmon_pool k j)) \<and>
    (case ws of [] \<Rightarrow> m_owner (kmon_pool k' i) = None
     | w # _ \<Rightarrow> \<exists>t. mw_task (kmon_waiters k w) = Some t \<and> m_owner (kmon_pool k' i) = Some t \<and> state_of s' t \<noteq> TCB_BLOCKED \<and>
         (\<forall>s'' allow pend. kmon_enter_poll s'' k' i w allow pend = Some (Entered, s'', kmon_waiter_free_locked k' w)))"
proof -
  obtain qs where wf: "mwf {} {} (task_count s) k qs" by (rule kmon_invE [OF inv])
  have q: "ws = qs (EnterQ i)" using ws queued_mwf [OF wf] by simp
  have own: "kmon_owned s k i" using mwfD(5) [OF wf, of i] i(2) c(1) by (simp add: kmon_owned_def mowner_def)
  obtain s' k' where r: "kmon_release_locked s (clear_count k i) i (Some c) = Some (s', k')" "handed_over s k i qs s' k'" "kmon_inv (s', k')"
    using release_owned [OF inv i(2) c(2) wf] by blast
  have ex: "kmon_exit_current s k h = Some (Inr (), s', k')" using c(1) i(1) own r(1) by (simp add: kmon_exit_current_def)
  have wf': "mwf {} {} (task_count s) k' (qs(EnterQ i := tl ws))" using handed_over_lists [OF r(2)] q by simp
  have lists: "queued k' (EnterQ i) (tl ws)" "p \<noteq> EnterQ i \<Longrightarrow> queued k p ps \<Longrightarrow> queued k' p ps" for p ps
    using queued_mwf [OF wf'] queued_mwf [OF wf] by auto
  have owners: "j \<noteq> i \<Longrightarrow> m_owner (kmon_pool k' j) = m_owner (kmon_pool k j)" for j using r(2) by (simp add: handed_over_def)
  have "case ws of [] \<Rightarrow> m_owner (kmon_pool k' i) = None
     | w # _ \<Rightarrow> \<exists>t. mw_task (kmon_waiters k w) = Some t \<and> m_owner (kmon_pool k' i) = Some t \<and> state_of s' t \<noteq> TCB_BLOCKED \<and>
         (\<forall>s'' allow pend. kmon_enter_poll s'' k' i w allow pend = Some (Entered, s'', kmon_waiter_free_locked k' w))"
  proof (cases ws)
    case (Cons w vs)
    then have "mw_active (kmon_waiters k w)" using mwfD(3) [OF wf, of w "EnterQ i"] q by simp
    then obtain t where "mw_task (kmon_waiters k w) = Some t" by (rule mwf_waiter [OF wf])
    then show ?thesis using r(2) Cons q by (simp add: handed_over_def kmon_enter_poll_def)
  qed (use r(2) q in \<open>simp add: handed_over_def\<close>)
  then show ?thesis using ex r(3) lists owners by blast
qed

theorem kmon_exit_hands_over_witness:
  "\<exists>s k w s' k'. queued k (EnterQ 0) [w] \<and> kmon_exit_current s k 1 = Some (Inr (), s', k') \<and> m_owner (kmon_pool k 0) = Some 1 \<and> m_owner (kmon_pool k' 0) = Some 0"
proof -
  obtain s0 k0 w where d: "kmon_inv (s0, k0)" "current_task s0 = Some 1" "outside k0 1" "kmon_find_locked k0 1 = Some 0" "m_owner (kmon_pool k0 0) = Some 1"
    "queued k0 (EnterQ 0) []" "queued k0 (CondQ 0 0) [w]" "mw_task (kmon_waiters k0 w) = Some 0" by (rule demo_cond)
  obtain qs where wf: "mwf {} {} (task_count s0) k0 qs" by (rule kmon_invE [OF d(1)])
  have q: "qs (EnterQ 0) = []" "qs (CondQ 0 0) = [w]" using d(6,7) queued_mwf [OF wf] by auto
  have "kmon_owned s0 k0 0" using mwfD(5) [OF wf, of 0] d(2,5) by (simp add: kmon_owned_def mowner_def)
  then obtain s k where m: "moved s0 k0 0 0 [w] [] s k" using signal_moves [OF d(1) wf d(4) _ d(2), of 0] q by (auto simp: KMON_MAX_COND_def)
  have "mwf {} {} (task_count s0) k (qs(CondQ 0 0 := [], EnterQ 0 := qs (EnterQ 0) @ [w]))" using m wf unfolding moved_def by blast
  then have wf': "mwf {} {} (task_count s0) k (qs(CondQ 0 0 := [], EnterQ 0 := [w]))" using q(1) by simp
  have e: "kmon_inv (s, k)" "current_task s = Some 1" "outside k 1" "kmon_find_locked k 1 = Some 0" "m_owner (kmon_pool k 0) = Some 1" "queued k (EnterQ 0) [w]"
    "mw_task (kmon_waiters k w) = Some 0"
    using moved_inv [OF d(1) m] m d(2-5,8) find_same [of k0 k 1] queued_mwf [OF wf'] sched_softD(3) [of s0 s]
    by (auto simp: moved_def mon_same_def outside_def)
  from kmon_exit_hands_over [OF e(1-6)] e(5-7) show ?thesis by simp blast
qed

text \<open>
  Signals are of the Mesa kind. A signal on a condition moves the task that waits longest on it to the end of the queue for entering, and a broadcast moves all
  of them; the caller stays the owner. A broadcast puts the longest waiting task behind all others of the condition. With nobody
  waiting neither has an effect.
\<close>

lemma kmon_signal_order:
  assumes inv: "kmon_inv (s, k)" and c: "current_task s = Some c" and i: "kmon_find_locked k h = Some i" "m_owner (kmon_pool k i) = Some c"
    and cond: "unat cond < KMON_MAX_COND" and es: "queued k (EnterQ i) es" and cs: "queued k (CondQ i (unat cond)) cs"
  shows "case cs of [] \<Rightarrow> kmon_signal_current s k h cond = Some (Inr (), s, k) \<and> kmon_broadcast_current s k h cond = Some (Inr (), s, k)
    | w # ws \<Rightarrow>
        (\<exists>s' k'. kmon_signal_current s k h cond = Some (Inr (), s', k') \<and> kmon_inv (s', k') \<and> m_owner (kmon_pool k' i) = Some c \<and>
           queued k' (EnterQ i) (es @ [w]) \<and> queued k' (CondQ i (unat cond)) ws \<and> (\<forall>v. mw_task (kmon_waiters k' v) = mw_task (kmon_waiters k v))) \<and>
        (\<exists>s' k'. kmon_broadcast_current s k h cond = Some (Inr (), s', k') \<and> kmon_inv (s', k') \<and> m_owner (kmon_pool k' i) = Some c \<and>
           queued k' (EnterQ i) (es @ ws @ [w]) \<and> queued k' (CondQ i (unat cond)) [] \<and> (\<forall>v. mw_task (kmon_waiters k' v) = mw_task (kmon_waiters k v)))"
proof -
  obtain qs where wf: "mwf {} {} (task_count s) k qs" by (rule kmon_invE [OF inv])
  have q: "es = qs (EnterQ i)" "cs = qs (CondQ i (unat cond))" using es cs queued_mwf [OF wf] by simp_all
  have own: "kmon_owned s k i" using mwfD(5) [OF wf, of i] i(2) c by (simp add: kmon_owned_def mowner_def)
  have after: "kmon_inv (s', k') \<and> m_owner (kmon_pool k' i) = Some c \<and> queued k' (EnterQ i) (es @ ws) \<and> queued k' (CondQ i (unat cond)) left \<and>
      (\<forall>v. mw_task (kmon_waiters k' v) = mw_task (kmon_waiters k v))" if m: "moved s k i (unat cond) ws left s' k'" for ws left s' k'
  proof -
    have "mwf {} {} (task_count s) k' (qs(CondQ i (unat cond) := left, EnterQ i := es @ ws))" using m wf q(1) by (simp add: moved_def)
    from mwf_queued [OF this, of "EnterQ i"] mwf_queued [OF this, of "CondQ i (unat cond)"] m i(2) moved_inv [OF inv m]
    show ?thesis by (simp add: moved_def mon_same_def)
  qed
  show ?thesis
  proof (cases cs)
    case Nil
    then show ?thesis using signal_moves [OF inv wf i(1) own c cond] broadcast_moves [OF inv wf i(1) own c cond] q(2) by simp
  next
    case (Cons w ws)
    obtain s1 k1 where 1: "kmon_signal_current s k h cond = Some (Inr (), s1, k1)" "moved s k i (unat cond) [w] ws s1 k1"
      using signal_moves [OF inv wf i(1) own c cond, folded q(2), unfolded Cons] by auto
    obtain s2 k2 where 2: "kmon_broadcast_current s k h cond = Some (Inr (), s2, k2)" "moved s k i (unat cond) (ws @ [w]) [] s2 k2"
      using broadcast_moves [OF inv wf i(1) own c cond, folded q(2), unfolded Cons] by auto
    show ?thesis using 1(1) 2(1) after [OF 1(2)] after [OF 2(2)] Cons by simp
  qed
qed

text \<open>
  Waiting on a condition always finds a free waiter. It queues the owner at the end of the condition and gives the monitor to the task that waits longest to
  enter, or frees it; without a signal, a deadline or a pending signal a turn of the wait changes nothing and the task yields.
\<close>

lemma kmon_wait_releases:
  assumes inv: "kmon_inv (s, k)" and c: "current_task s = Some c" "outside k c" and i: "kmon_find_locked k h = Some i" "m_owner (kmon_pool k i) = Some c"
    and cond: "unat cond < KMON_MAX_COND" and es: "queued k (EnterQ i) es" and cs: "queued k (CondQ i (unat cond)) cs"
  shows "\<exists>w s' k'. kmon_wait_current s k h cond = Some (Inr (w, i), s', k') \<and> kmon_inv (s', k') \<and> mw_task (kmon_waiters k' w) = Some c \<and>
    queued k' (CondQ i (unat cond)) (cs @ [w]) \<and> queued k' (EnterQ i) (tl es) \<and>
    m_owner (kmon_pool k' i) = (case es of [] \<Rightarrow> None | v # _ \<Rightarrow> mw_task (kmon_waiters k v)) \<and> m_owner (kmon_pool k' i) \<noteq> Some c \<and>
    (\<exists>s''. sched_yield s' = Some s'' \<and> kmon_wait_poll s' k' h i w False KMON_WAIT_FOREVER_NS now dl = Some (StillWaiting, s'', k'))"
proof -
  obtain qs where wf: "mwf {} {} (task_count s) k qs" by (rule kmon_invE [OF inv])
  let ?p = "CondQ i (unat cond)"
  have q: "es = qs (EnterQ i)" "cs = qs ?p" using es cs queued_mwf [OF wf] by simp_all
  have own: "kmon_owned s k i" using mwfD(5) [OF wf, of i] i(2) c(1) by (simp add: kmon_owned_def mowner_def)
  obtain w k0 where al: "kmon_waiter_alloc_locked k i c KMON_Q_COND cond = Some (w, k0)" using waiter_available [OF inv c] by (metis not_None_eq prod.exhaust)
  have "kmon_wait_current s k h cond \<noteq> Some (Inl ENOSPC, s, k)"
    using c(1) i(1) cond own al by (auto simp: kmon_wait_current_def Let_def bind_eq_Some_conv)
  then obtain w s' k' v k1 where r: "kmon_wait_current s k h cond = Some (Inr (w, i), s', k')" "kmon_inv (s', k')"
    "mw_active v" "mw_task v = Some c" "mw_mon v = Some i" "place v = Some ?p" "kmon_waiters k' w = v" "kmon_waiters k1 = (kmon_waiters k)(w := v)" "mon_same k k1"
    "handed_over s k1 i (qs(?p := qs ?p @ [w])) s' k'"
    using wait_queue [OF inv c i(1) own cond] wf by blast
  have wf': "mwf {} {} (task_count s) k' (qs(?p := cs @ [w], EnterQ i := tl es))" using handed_over_lists [OF r(10)] q by simp
  have "w \<notin> set es"
  proof
    assume w: "w \<in> set es"
    then obtain x xs where x: "es = x # xs" by (cases es) auto
    have "place (kmon_waiters k' x) = None"
      using r(10) x q(1) by (auto simp: handed_over_def place_def kmon_waiter_queue_def mon_consts split: option.split)
    moreover have "w \<notin> set xs" using mwfD(3) [OF wf', of w "EnterQ i"] r(6,7) x by auto
    ultimately show False using w x r(6,7) by auto
  qed
  then have ow: "m_owner (kmon_pool k' i) = (case es of [] \<Rightarrow> None | v # _ \<Rightarrow> mw_task (kmon_waiters k v))"
    using r(10) q by (auto simp: handed_over_def r(8) split: list.splits)
  have ne: "m_owner (kmon_pool k' i) \<noteq> Some c"
    using c(2) ow q mwfD(3) [OF wf, of _ "EnterQ i"] by (auto simp: outside_def split: list.splits)
  have wk: "wake_reason (kmon_waiters k' w) \<noteq> KMON_WAKE_LOCK" using mwf_wake(1) [OF wf', of w] r(3,6,7) by auto
  obtain s'' where y: "sched_yield s' = Some s''" using yield_ok [OF r(2)] by blast
  have "queued k' ?p (cs @ [w])" "queued k' (EnterQ i) (tl es)" using queued_mwf [OF wf'] by simp_all
  moreover have "kmon_wait_poll s' k' h i w False KMON_WAIT_FOREVER_NS now dl = Some (StillWaiting, s'', k')" using wk y by (simp add: kmon_wait_poll_def)
  ultimately show ?thesis using r(1,2,4,7) ow ne y by blast
qed

end
