(* ===== verification/Signal.thy ===== *)
theory Signal
  imports Futex Pmm
begin

text \<open>
  POSIX signals, \<^verbatim>\<open>kernel/signal.c\<close>: the pending and blocked sets of every task, the actions of
  every process, sending, picking, stopping, delivery on the way back to user mode with a frame
  on the user stack, and the return from a handler. A signal number is an \<^typ>\<open>int\<close> as in the
  code; the states are indexed by pid modulo the task pool, the actions by process slot.
  User memory is reached as the code reaches it, through \<^verbatim>\<open>mmu_space_prepare_write\<close> and
  \<^verbatim>\<open>mmu_space_resolve_ptr\<close>, which are parameters (\<open>prepare\<close>, \<open>resolve\<close>) over a state \<open>'pt\<close> of the
  page tables. Calls that give up the CPU end a step: a stop ends with \<open>Deliver_stopped\<close> and the
  loop is entered again when the task runs, an exit ends with \<open>Deliver_exit\<close> and the exit code.
\<close>

subsection \<open>Data\<close>

definition ENLILOS_NSIG :: int where "ENLILOS_NSIG = 64"
definition SIGILL :: int where "SIGILL = 4"
definition SIGBUS :: int where "SIGBUS = 7"
definition SIGFPE :: int where "SIGFPE = 8"
definition SIGKILL :: int where "SIGKILL = 9"
definition SIGSEGV :: int where "SIGSEGV = 11"
definition SIGALRM :: int where "SIGALRM = 14"
definition SIGTERM :: int where "SIGTERM = 15"
definition SIGCHLD :: int where "SIGCHLD = 17"
definition SIGCONT :: int where "SIGCONT = 18"
definition SIGSTOP :: int where "SIGSTOP = 19"
definition SIGTSTP :: int where "SIGTSTP = 20"
definition SIGTTIN :: int where "SIGTTIN = 21"
definition SIGTTOU :: int where "SIGTTOU = 22"
definition SIGWINCH :: int where "SIGWINCH = 28"
definition SIG_DFL :: u64 where "SIG_DFL = 0"
definition SIG_IGN :: u64 where "SIG_IGN = 1"
definition SA_NODEFER :: u32 where "SA_NODEFER = 2"
definition SA_RESETHAND :: u32 where "SA_RESETHAND = 4"
definition SIG_BLOCK :: int where "SIG_BLOCK = 0"
definition SIG_UNBLOCK :: int where "SIG_UNBLOCK = 1"
definition SIG_SETMASK :: int where "SIG_SETMASK = 2"
definition SIGFRAME_MAGIC :: u64 where "SIGFRAME_MAGIC = 0x5349474652414D45"
definition MMU_USER_SIGTRAMP_VA :: u64 where "MMU_USER_SIGTRAMP_VA = MMU_USER_LIMIT - 0x1000"
definition MMU_USER_LINUX_SIGTRAMP_VA :: u64 where "MMU_USER_LINUX_SIGTRAMP_VA = MMU_USER_SIGTRAMP_VA + 12"

lemmas sig_numbers [kernel_defs] =
  ENLILOS_NSIG_def SIGILL_def SIGBUS_def SIGFPE_def SIGKILL_def SIGSEGV_def SIGALRM_def SIGTERM_def
  SIGCHLD_def SIGCONT_def SIGSTOP_def SIGTSTP_def SIGTTIN_def SIGTTOU_def SIGWINCH_def

record signal_user_frame =
  fr_magic :: u64
  fr_saved_mask :: u64
  fr_delivered_sig :: u64
  fr_pad0 :: u64
  fr_saved_frame :: exception_frame

record signal_state =
  sg_pending :: u64
  sg_blocked :: u64
  sg_parent_pid :: u32
  sg_in_handler :: bool
  sg_stopped :: bool
  sg_stop_reported :: bool
  sg_stop_sig :: u8
  sg_active_sig :: u8

record sigaction =
  sa_handler :: u64
  sa_mask :: u64
  sa_flags :: u32

record signals =
  signal_state :: "nat \<Rightarrow> signal_state"
  signal_actions :: "nat \<Rightarrow> nat \<Rightarrow> sigaction"

text \<open>The two static arrays at boot, and after \<^verbatim>\<open>memset\<close>.\<close>

definition zero_sigstate :: signal_state where
  "zero_sigstate = \<lparr>sg_pending = 0, sg_blocked = 0, sg_parent_pid = 0, sg_in_handler = False,
     sg_stopped = False, sg_stop_reported = False, sg_stop_sig = 0, sg_active_sig = 0\<rparr>"

definition zero_sigaction :: sigaction where
  "zero_sigaction = \<lparr>sa_handler = SIG_DFL, sa_mask = 0, sa_flags = 0\<rparr>"

definition set_sig :: "signals \<Rightarrow> nat \<Rightarrow> signal_state \<Rightarrow> signals" where
  "set_sig g i st = g\<lparr>signal_state := (signal_state g)(i := st)\<rparr>"

definition set_action :: "signals \<Rightarrow> nat \<Rightarrow> nat \<Rightarrow> sigaction \<Rightarrow> signals" where
  "set_action g p i a = g\<lparr>signal_actions := (signal_actions g)(p := (signal_actions g p)(i := a))\<rparr>"

subsection \<open>Slots and sets\<close>

definition signal_slot_pid :: "u32 \<Rightarrow> nat" where
  "signal_slot_pid pid = unat pid mod SCHED_MAX_TASKS"

definition signal_slot_task :: "sched \<Rightarrow> nat option \<Rightarrow> nat" where
  "signal_slot_task s t = signal_slot_pid (case t of Some i \<Rightarrow> t_pid (task_pool s i) | None \<Rightarrow> 0)"

definition signal_proc_slot_task :: "sched \<Rightarrow> nat option \<Rightarrow> nat" where
  "signal_proc_slot_task s t =
     (case t of Some i \<Rightarrow> sched_task_proc_slot s t mod SCHED_MAX_TASKS | None \<Rightarrow> 0)"

definition signal_actions_for_task :: "signals \<Rightarrow> sched \<Rightarrow> nat option \<Rightarrow> nat \<Rightarrow> sigaction" where
  "signal_actions_for_task g s t = signal_actions g (signal_proc_slot_task s t)"

text \<open>The shift count is the conversion of \<^verbatim>\<open>sig - 1\<close> to 32 bits; the callers pass 1 to 64.\<close>

definition signal_bit :: "int \<Rightarrow> u64" where
  "signal_bit sig = push_bit (unat (word_of_int (sig - 1) :: u32)) 1"

definition signal_valid :: "int \<Rightarrow> bool" where
  "signal_valid sig \<longleftrightarrow> sig \<ge> 1 \<and> sig \<le> ENLILOS_NSIG"

definition signal_unmaskable_bits :: u64 where
  "signal_unmaskable_bits = signal_bit SIGKILL OR signal_bit SIGSTOP"

definition signal_strip_unmaskable :: "u64 \<Rightarrow> u64" where
  "signal_strip_unmaskable m = m AND NOT signal_unmaskable_bits"

definition signal_default_ignore :: "int \<Rightarrow> bool" where
  "signal_default_ignore sig \<longleftrightarrow> sig = SIGCHLD \<or> sig = SIGWINCH"

definition signal_default_stop :: "int \<Rightarrow> bool" where
  "signal_default_stop sig \<longleftrightarrow> sig = SIGSTOP \<or> sig = SIGTSTP \<or> sig = SIGTTIN \<or> sig = SIGTTOU"

definition signal_default_terminate :: "int \<Rightarrow> bool" where
  "signal_default_terminate sig \<longleftrightarrow>
     \<not> (signal_default_ignore sig \<or> signal_default_stop sig \<or> sig = SIGCONT)"

definition signal_stop_bits :: u64 where
  "signal_stop_bits = signal_bit SIGSTOP OR signal_bit SIGTSTP OR signal_bit SIGTTIN OR signal_bit SIGTTOU"

definition signal_ready :: "signal_state \<Rightarrow> u64" where
  "signal_ready st =
     (sg_pending st AND NOT (signal_strip_unmaskable (sg_blocked st))) OR
     (sg_pending st AND signal_unmaskable_bits)"

definition signal_pick_pending :: "signal_state \<Rightarrow> int" where
  "signal_pick_pending st =
     (let ready = signal_ready st in if ready = 0 then 0 else 1 + int (ctzll ready))"

definition signal_ignored :: "sigaction \<Rightarrow> int \<Rightarrow> bool" where
  "signal_ignored act sig \<longleftrightarrow>
     sa_handler act = SIG_IGN \<or> sa_handler act = SIG_DFL \<and> signal_default_ignore sig"

text \<open>Clearing the lowest set bit shrinks the word: the measure of the loops over a signal set.\<close>

lemma and_not_le: "x AND NOT y \<le> (x :: u64)"
  by (simp add: word_and_le2)

lemma signal_bit_ctz: "x \<noteq> 0 \<Longrightarrow> signal_bit (1 + int (ctzll x)) = push_bit (ctzll x) 1"
proof -
  assume "x \<noteq> 0"
  then have "ctzll x < 64" by (rule ctzll_props(1))
  then show ?thesis by (simp add: signal_bit_def unat_of_nat)
qed

lemma clear_lowest_less: "x \<noteq> 0 \<Longrightarrow> unat (x AND NOT (signal_bit (1 + int (ctzll x)))) < unat x"
proof -
  assume nz: "x \<noteq> 0"
  have "bit x (ctzll x)" "ctzll x < 64" using ctzll_props(1,2) [OF nz] by auto
  then have "x AND NOT (signal_bit (1 + int (ctzll x))) \<noteq> x"
    unfolding signal_bit_ctz [OF nz] by (auto simp: bit_eq_iff bit_simps)
  with and_not_le [of x "signal_bit (1 + int (ctzll x))"] show ?thesis
    by (metis order_less_le word_less_nat_alt)
qed

function has_deliverable_loop :: "(nat \<Rightarrow> sigaction) \<Rightarrow> u64 \<Rightarrow> bool" where
  "has_deliverable_loop acts ready =
     (if ready = 0 then False
      else
        (let sig = 1 + int (ctzll ready); act = acts (nat (sig - 1))
         in if \<not> signal_ignored act sig then True
            else has_deliverable_loop acts (ready AND NOT (signal_bit sig))))"
  by pat_completeness auto
termination
  by (relation "measure (\<lambda>(acts, ready). unat ready)") (auto simp: clear_lowest_less)

declare has_deliverable_loop.simps [simp del]

definition signal_has_deliverable_pending :: "signals \<Rightarrow> signal_state \<Rightarrow> sched \<Rightarrow> nat option \<Rightarrow> bool" where
  "signal_has_deliverable_pending g st s t =
     has_deliverable_loop (signal_actions_for_task g s t) (signal_ready st)"

text \<open>The actions of an exec and of a new process.\<close>

definition signal_reset_actions :: "signals \<Rightarrow> nat \<Rightarrow> signals" where
  "signal_reset_actions g p =
     g\<lparr>signal_actions := (signal_actions g)(p :=
        (\<lambda>i. if i < nat ENLILOS_NSIG then zero_sigaction else signal_actions g p i))\<rparr>"

definition signal_init :: "signals \<Rightarrow> signals" where
  "signal_init g = g\<lparr>signal_state := (\<lambda>_. zero_sigstate), signal_actions := (\<lambda>_ _. zero_sigaction)\<rparr>"

subsection \<open>Life of a task\<close>

definition signal_task_init :: "signals \<Rightarrow> sched \<Rightarrow> nat option \<Rightarrow> u32 \<Rightarrow> signals" where
  "signal_task_init g s t parent_pid =
     (if t = None then g
      else signal_reset_actions
             (set_sig g (signal_slot_task s t) (zero_sigstate\<lparr>sg_parent_pid := parent_pid\<rparr>))
             (signal_proc_slot_task s t))"

definition signal_task_fork :: "signals \<Rightarrow> sched \<Rightarrow> nat option \<Rightarrow> nat option \<Rightarrow> signals" where
  "signal_task_fork g s child parent =
     (if child = None \<or> parent = None then g
      else
        (let src = signal_state g (signal_slot_task s parent);
             g = set_sig g (signal_slot_task s child)
                   (src\<lparr>sg_pending := 0, sg_in_handler := False, sg_stopped := False, sg_stop_reported := False,
                        sg_stop_sig := 0, sg_active_sig := 0, sg_parent_pid := tgid_of s parent\<rparr>)
         in g\<lparr>signal_actions := (signal_actions g)(signal_proc_slot_task s child :=
                signal_actions_for_task g s parent)\<rparr>))"

definition signal_task_clone_thread :: "signals \<Rightarrow> sched \<Rightarrow> nat option \<Rightarrow> nat option \<Rightarrow> signals" where
  "signal_task_clone_thread g s child parent =
     (if child = None \<or> parent = None then g
      else
        (let d = signal_slot_task s child; p = signal_slot_task s parent;
             g = set_sig g d zero_sigstate;
             g = set_sig g d ((signal_state g d)\<lparr>sg_blocked := sg_blocked (signal_state g p)\<rparr>)
         in set_sig g d ((signal_state g d)\<lparr>sg_parent_pid := sg_parent_pid (signal_state g p)\<rparr>)))"

definition signal_task_reset_for_exec :: "signals \<Rightarrow> sched \<Rightarrow> nat option \<Rightarrow> signals" where
  "signal_task_reset_for_exec g s t =
     (if t = None then g
      else
        (let st = signal_state g (signal_slot_task s t)
         in signal_reset_actions
              (set_sig g (signal_slot_task s t)
                 (zero_sigstate\<lparr>sg_blocked := signal_strip_unmaskable (sg_blocked st), sg_parent_pid := sg_parent_pid st\<rparr>))
              (signal_proc_slot_task s t)))"

definition signal_task_exit :: "signals \<Rightarrow> sched \<Rightarrow> nat option \<Rightarrow> signals" where
  "signal_task_exit g s t =
     (if t = None then g
      else set_sig g (signal_slot_task s t) ((signal_state g (signal_slot_task s t))
             \<lparr>sg_pending := 0, sg_in_handler := False, sg_stopped := False, sg_stop_reported := False,
              sg_stop_sig := 0\<rparr>))"

subsection \<open>Sending\<close>

definition signal_find_process_target :: "sched \<Rightarrow> u32 \<Rightarrow> nat option" where
  "signal_find_process_target s tgid =
     (if tgid = 0 then None
      else
        (let ok = (\<lambda>t. sched_task_is_user s (Some t) \<and> state_of s t \<noteq> TCB_ZOMBIE \<and> tgid_of s (Some t) = tgid)
         in case sched_task_find s tgid of
              Some l \<Rightarrow> if ok l then Some l else for_find ok 0 (task_count s)
            | None \<Rightarrow> for_find ok 0 (task_count s)))"

text \<open>
  \<^verbatim>\<open>signal_send_task\<close> calls \<^verbatim>\<open>signal_send_pid\<close>, which calls it again, for the SIGCHLD that tells the
  parent of a continued task; a SIGCHLD sends nothing further.
\<close>

function signal_send_task :: "signals \<Rightarrow> sched \<Rightarrow> nat option \<Rightarrow> int \<Rightarrow> (errno + unit) \<times> signals \<times> sched" where
  "signal_send_task g s t sig =
     (if \<not> signal_valid sig then (Inl EINVAL, g, s)
      else case t of
        None \<Rightarrow> (Inl ESRCH, g, s)
      | Some i \<Rightarrow>
          if \<not> sched_task_is_user s t then (Inl EPERM, g, s)
          else if state_of s i = TCB_ZOMBIE then (Inl ESRCH, g, s)
          else
            (let k = signal_slot_task s t
             in if sig = SIGCONT
                then
                  (let st = (signal_state g k)
                         \<lparr>sg_pending := sg_pending (signal_state g k) AND NOT signal_stop_bits,
                          sg_stopped := False, sg_stop_reported := False, sg_stop_sig := 0\<rparr>;
                       s1 = (if state_of s i = TCB_BLOCKED then sched_unblock s (Some i) else s);
                       st = st\<lparr>sg_pending := sg_pending st OR signal_bit SIGCONT\<rparr>;
                       g1 = set_sig g k st
                   in if sg_parent_pid st \<noteq> 0
                      then (Inr (), snd (signal_send_task g1 s1 (signal_find_process_target s1 (sg_parent_pid st)) SIGCHLD))
                      else (Inr (), g1, s1))
                else
                  (let st = (signal_state g k)\<lparr>sg_pending := sg_pending (signal_state g k) OR signal_bit sig\<rparr>
                   in if sig = SIGKILL \<and> sg_stopped st \<and> state_of s i = TCB_BLOCKED
                      then (Inr (), set_sig g k (st\<lparr>sg_stopped := False\<rparr>), sched_unblock s (Some i))
                      else (Inr (), set_sig g k st, s))))"
  by pat_completeness auto
termination
  by (relation "measure (\<lambda>(g, s, t, sig). if sig = SIGCONT then 1 else 0)") (auto simp: SIGCONT_def SIGCHLD_def)

declare signal_send_task.simps [simp del]

definition signal_send_pid :: "signals \<Rightarrow> sched \<Rightarrow> u32 \<Rightarrow> int \<Rightarrow> (errno + unit) \<times> signals \<times> sched" where
  "signal_send_pid g s pid sig = signal_send_task g s (signal_find_process_target s pid) sig"

definition signal_send_tgkill :: "signals \<Rightarrow> sched \<Rightarrow> u32 \<Rightarrow> u32 \<Rightarrow> int \<Rightarrow> (errno + unit) \<times> signals \<times> sched" where
  "signal_send_tgkill g s tgid tid sig =
     (if \<not> signal_valid sig then (Inl EINVAL, g, s)
      else if tgid = 0 \<or> tid = 0 then (Inl EINVAL, g, s)
      else case sched_task_find s tid of
        None \<Rightarrow> (Inl ESRCH, g, s)
      | Some t \<Rightarrow>
          if \<not> sched_task_is_user s (Some t) \<or> state_of s t = TCB_ZOMBIE then (Inl ESRCH, g, s)
          else if tgid_of s (Some t) \<noteq> tgid then (Inl ESRCH, g, s)
          else signal_send_task g s (Some t) sig)"

text \<open>One turn of the loop over the task pool, then the loop; the flag is \<^verbatim>\<open>delivered\<close>.\<close>

definition send_pgrp_turn ::
  "u32 \<Rightarrow> int \<Rightarrow> bool \<times> signals \<times> sched \<Rightarrow> nat \<Rightarrow> bool \<times> signals \<times> sched" where
  "send_pgrp_turn pgid sig = (\<lambda>(d, g, s) i.
     (case sched_task_at s i of
        None \<Rightarrow> (d, g, s)
      | Some t \<Rightarrow>
          if \<not> sched_task_is_user s (Some t) \<or> pgid_of s (Some t) \<noteq> pgid \<or> state_of s t = TCB_ZOMBIE then (d, g, s)
          else (case signal_send_task g s (Some t) sig of
                  (Inr _, g', s') \<Rightarrow> (True, g', s')
                | (Inl _, g', s') \<Rightarrow> (d, g', s'))))"

definition signal_send_pgrp :: "signals \<Rightarrow> sched \<Rightarrow> u32 \<Rightarrow> int \<Rightarrow> (errno + unit) \<times> signals \<times> sched" where
  "signal_send_pgrp g s pgid sig =
     (if pgid = 0 \<or> \<not> signal_valid sig then (Inl EINVAL, g, s)
      else case foldl (send_pgrp_turn pgid sig) (False, g, s) [0..<task_count s] of
        (d, g', s') \<Rightarrow> (if d then Inr () else Inl ESRCH, g', s'))"

text \<open>The two system calls, \<^verbatim>\<open>kernel/syscall.c\<close>; \<^verbatim>\<open>(int32_t)args[0]\<close> is the signed value of the low word.\<close>

definition sys_kill :: "signals \<Rightarrow> sched \<Rightarrow> u64 \<Rightarrow> u64 \<Rightarrow> u64 \<times> signals \<times> sched" where
  "sys_kill g s a0 a1 =
     (let pid = ucast a0 :: u32; sig = sint (ucast a1 :: u32);
          (r, g', s') =
            (if sint pid > 0 then signal_send_pid g s pid sig
             else if sint pid = 0
             then (if pgid_of s (current_task s) = 0 then (Inl EINVAL, g, s)
                   else signal_send_pgrp g s (pgid_of s (current_task s)) sig)
             else if sint pid < - 1 then signal_send_pgrp g s (- pid) sig
             else (Inl EINVAL, g, s))
      in (case r of Inl e \<Rightarrow> ERR e | Inr _ \<Rightarrow> 0, g', s'))"

definition sys_tgkill :: "signals \<Rightarrow> sched \<Rightarrow> u64 \<Rightarrow> u64 \<Rightarrow> u64 \<Rightarrow> u64 \<times> signals \<times> sched" where
  "sys_tgkill g s a0 a1 a2 =
     (let (r, g', s') = signal_send_tgkill g s (ucast a0) (ucast a1) (sint (ucast a2 :: u32))
      in (case r of Inl e \<Rightarrow> ERR e | Inr _ \<Rightarrow> 0, g', s'))"

definition signal_has_unblocked_pending :: "signals \<Rightarrow> sched \<Rightarrow> nat option \<Rightarrow> bool" where
  "signal_has_unblocked_pending g s t =
     (if \<not> sched_task_is_user s t then False
      else signal_has_deliverable_pending g (signal_state g (signal_slot_task s t)) s t)"

definition signal_task_is_stopped :: "signals \<Rightarrow> sched \<Rightarrow> nat option \<Rightarrow> bool" where
  "signal_task_is_stopped g s t = (t \<noteq> None \<and> sg_stopped (signal_state g (signal_slot_task s t)))"

definition signal_task_consume_stop_report :: "signals \<Rightarrow> sched \<Rightarrow> nat option \<Rightarrow> int option \<times> signals" where
  "signal_task_consume_stop_report g s t =
     (if t = None then (None, g)
      else
        (let k = signal_slot_task s t; st = signal_state g k
         in if \<not> sg_stopped st \<or> sg_stop_reported st then (None, g)
            else (Some (if sg_stop_sig st \<noteq> 0 then uint (sg_stop_sig st) else SIGSTOP),
                  set_sig g k (st\<lparr>sg_stop_reported := True\<rparr>))))"

subsection \<open>Actions and masks\<close>

text \<open>The result carries the old action, which the code stores through \<^verbatim>\<open>old\<close> when it is not null.\<close>

definition signal_sigaction_current ::
  "signals \<Rightarrow> sched \<Rightarrow> int \<Rightarrow> sigaction option \<Rightarrow> (errno + unit) \<times> sigaction option \<times> signals" where
  "signal_sigaction_current g s sig act =
     (if \<not> sched_task_is_user s (current_task s) then (Inl EPERM, None, g)
      else if \<not> signal_valid sig then (Inl EINVAL, None, g)
      else
        (let i = nat (sig - 1); old = signal_actions_for_task g s (current_task s) i
         in case act of
              None \<Rightarrow> (Inr (), Some old, g)
            | Some a \<Rightarrow>
                if sig = SIGKILL \<or> sig = SIGSTOP then (Inl EINVAL, Some old, g)
                else (Inr (), Some old,
                      set_action g (signal_proc_slot_task s (current_task s)) i
                        (a\<lparr>sa_mask := signal_strip_unmaskable (sa_mask a)\<rparr>))))"

definition signal_sigprocmask_current ::
  "signals \<Rightarrow> sched \<Rightarrow> int \<Rightarrow> u64 option \<Rightarrow> (errno + unit) \<times> u64 option \<times> signals" where
  "signal_sigprocmask_current g s how m =
     (if \<not> sched_task_is_user s (current_task s) then (Inl EPERM, None, g)
      else
        (let k = signal_slot_task s (current_task s); st = signal_state g k; old = sg_blocked st;
             upd = (\<lambda>b. set_sig g k (st\<lparr>sg_blocked := b\<rparr>))
         in case m of
              None \<Rightarrow> (Inr (), Some old, g)
            | Some v \<Rightarrow>
                if how = SIG_BLOCK then (Inr (), Some old, upd (old OR signal_strip_unmaskable v))
                else if how = SIG_UNBLOCK then (Inr (), Some old, upd (old AND NOT (signal_strip_unmaskable v)))
                else if how = SIG_SETMASK then (Inr (), Some old, upd (signal_strip_unmaskable v))
                else (Inl EINVAL, Some old, g)))"

subsection \<open>User memory\<close>

text \<open>
  The state of the page tables and the bytes of physical memory. \<open>resolve\<close> gives the kernel
  address of a user range or fails, \<open>prepare\<close> makes it writable, which may copy pages, or fails.
\<close>

record 'pt umem =
  um_pt :: 'pt
  um_ram :: "u64 \<Rightarrow> u8"

type_synonym 'pt mmu_resolve = "'pt \<Rightarrow> nat \<Rightarrow> u64 \<Rightarrow> nat \<Rightarrow> u64 option"
type_synonym 'pt mmu_prepare = "'pt umem \<Rightarrow> nat \<Rightarrow> u64 \<Rightarrow> nat \<Rightarrow> bool \<times> 'pt umem"

definition ram_read :: "(u64 \<Rightarrow> u8) \<Rightarrow> u64 \<Rightarrow> nat \<Rightarrow> u8 list" where
  "ram_read ram a n = map (\<lambda>k. ram (a + of_nat k)) [0..<n]"

definition ram_write :: "(u64 \<Rightarrow> u8) \<Rightarrow> u64 \<Rightarrow> u8 list \<Rightarrow> u64 \<Rightarrow> u8" where
  "ram_write ram a bs x = (if unat (x - a) < length bs then bs ! unat (x - a) else ram x)"

text \<open>The bytes of the range that lie in the page of \<open>cur\<close>.\<close>

definition page_chunk :: "u64 \<Rightarrow> nat \<Rightarrow> nat" where
  "page_chunk cur left = (let chunk = 4096 - unat (cur AND (PAGE_SIZE - 1)) in if chunk > left then left else chunk)"

lemma page_chunk_pos: "0 < left \<Longrightarrow> 0 < page_chunk cur left"
proof -
  have "cur AND (PAGE_SIZE - 1) \<le> PAGE_SIZE - 1" by (rule word_and_le1)
  then have "unat (cur AND (PAGE_SIZE - 1)) < 4096" by (simp add: word_le_nat_alt PAGE_SIZE_def)
  then show "0 < left \<Longrightarrow> 0 < page_chunk cur left" by (simp add: page_chunk_def Let_def)
qed

lemma page_chunk_le: "page_chunk cur left \<le> left"
  by (simp add: page_chunk_def Let_def)

function copy_from_loop :: "'pt mmu_resolve \<Rightarrow> 'pt umem \<Rightarrow> nat \<Rightarrow> u64 \<Rightarrow> nat \<Rightarrow> nat \<Rightarrow> u8 list option" where
  "copy_from_loop resolve um sp uva n copied =
     (if copied < n
      then
        (let cur = uva + of_nat copied; chunk = page_chunk cur (n - copied)
         in case resolve (um_pt um) sp cur chunk of
              None \<Rightarrow> None
            | Some src \<Rightarrow>
                map_option (\<lambda>bs. ram_read (um_ram um) src chunk @ bs)
                  (copy_from_loop resolve um sp uva n (copied + chunk)))
      else Some [])"
  by pat_completeness auto
termination
  by (relation "measure (\<lambda>(resolve, um, sp, uva, n, copied). n - copied)")
    (auto simp: page_chunk_pos intro!: diff_less_mono2)

declare copy_from_loop.simps [simp del]

definition signal_copy_from_user :: "'pt mmu_resolve \<Rightarrow> 'pt umem \<Rightarrow> nat \<Rightarrow> u64 \<Rightarrow> nat \<Rightarrow> u8 list option" where
  "signal_copy_from_user resolve um sp uva n = copy_from_loop resolve um sp uva n 0"

function copy_to_loop ::
  "'pt mmu_prepare \<Rightarrow> 'pt mmu_resolve \<Rightarrow> 'pt umem \<Rightarrow> nat \<Rightarrow> u64 \<Rightarrow> u8 list \<Rightarrow> nat \<Rightarrow> bool \<times> 'pt umem" where
  "copy_to_loop prepare resolve um sp uva bs copied =
     (if copied < length bs
      then
        (let cur = uva + of_nat copied; chunk = page_chunk cur (length bs - copied)
         in case prepare um sp cur chunk of
              (False, um1) \<Rightarrow> (False, um1)
            | (True, um1) \<Rightarrow>
                (case resolve (um_pt um1) sp cur chunk of
                   None \<Rightarrow> (False, um1)
                 | Some dst \<Rightarrow>
                     copy_to_loop prepare resolve
                       (um1\<lparr>um_ram := ram_write (um_ram um1) dst (take chunk (drop copied bs))\<rparr>)
                       sp uva bs (copied + chunk)))
      else (True, um))"
  by pat_completeness auto
termination
  by (relation "measure (\<lambda>(prepare, resolve, um, sp, uva, bs, copied). length bs - copied)")
    (auto simp: page_chunk_pos intro!: diff_less_mono2)

declare copy_to_loop.simps [simp del]

definition signal_copy_to_user ::
  "'pt mmu_prepare \<Rightarrow> 'pt mmu_resolve \<Rightarrow> 'pt umem \<Rightarrow> nat \<Rightarrow> u64 \<Rightarrow> u8 list \<Rightarrow> bool \<times> 'pt umem" where
  "signal_copy_to_user prepare resolve um sp uva bs = copy_to_loop prepare resolve um sp uva bs 0"

text \<open>The layout of the frame: 40 little-endian words of 64 bits.\<close>

definition le_bytes :: "u64 \<Rightarrow> u8 list" where
  "le_bytes w = map (\<lambda>i. ucast (drop_bit (8 * i) w)) [0..<8]"

definition le_word :: "u8 list \<Rightarrow> u64" where
  "le_word bs = foldr (\<lambda>b acc. ucast b OR push_bit 8 acc) bs 0"

definition SIGFRAME_SIZE :: nat where "SIGFRAME_SIZE = 320"

definition frame_words :: "exception_frame \<Rightarrow> u64 list" where
  "frame_words f = map (f_x f) [0..<31] @ [f_sp f, f_pc f, f_spsr f, f_esr f, f_far f]"

definition sigframe_bytes :: "signal_user_frame \<Rightarrow> u8 list" where
  "sigframe_bytes r =
     concat (map le_bytes ([fr_magic r, fr_saved_mask r, fr_delivered_sig r, fr_pad0 r] @ frame_words (fr_saved_frame r)))"

definition word_at :: "u8 list \<Rightarrow> nat \<Rightarrow> u64" where
  "word_at bs i = le_word (take 8 (drop (8 * i) bs))"

definition sigframe_of :: "u8 list \<Rightarrow> signal_user_frame" where
  "sigframe_of bs =
     \<lparr>fr_magic = word_at bs 0, fr_saved_mask = word_at bs 1, fr_delivered_sig = word_at bs 2, fr_pad0 = word_at bs 3,
      fr_saved_frame =
        \<lparr>f_x = (\<lambda>i. if i < 31 then word_at bs (4 + i) else 0), f_sp = word_at bs 35, f_pc = word_at bs 36,
         f_spsr = word_at bs 37, f_esr = word_at bs 38, f_far = word_at bs 39\<rparr>\<rparr>"

subsection \<open>Delivery\<close>

definition signal_install_user_frame ::
  "'pt mmu_prepare \<Rightarrow> 'pt mmu_resolve \<Rightarrow> signals \<Rightarrow> sched \<Rightarrow> 'pt umem \<Rightarrow> exception_frame \<Rightarrow> int \<Rightarrow> sigaction \<Rightarrow>
   (errno + unit) \<times> signals \<times> 'pt umem \<times> exception_frame" where
  "signal_install_user_frame prepare resolve g s um frame sig act =
     (if sa_handler act = SIG_DFL \<or> sa_handler act = SIG_IGN then (Inl EINVAL, g, um, frame)
      else case sched_task_space s (current_task s) of
        None \<Rightarrow> (Inl EFAULT, g, um, frame)
      | Some sp \<Rightarrow>
          (let sig_sp = (f_sp frame - of_nat SIGFRAME_SIZE) AND NOT 0xF
           in if sig_sp < MMU_USER_BASE \<or> sig_sp \<ge> MMU_USER_LIMIT then (Inl EFAULT, g, um, frame)
              else
                (let k = signal_slot_task s (current_task s); st = signal_state g k;
                     sigframe = \<lparr>fr_magic = SIGFRAME_MAGIC, fr_saved_mask = sg_blocked st,
                       fr_delivered_sig = ucast (word_of_int sig :: u32), fr_pad0 = 0, fr_saved_frame = frame\<rparr>;
                     (ok, um) = signal_copy_to_user prepare resolve um sp sig_sp (sigframe_bytes sigframe)
                 in if \<not> ok then (Inl EFAULT, g, um, frame)
                    else
                      (let b = signal_strip_unmaskable (sg_blocked st OR sa_mask act);
                           b = (if sa_flags act AND SA_NODEFER = 0 then b OR signal_bit sig else b);
                           g = set_sig g k (st\<lparr>sg_blocked := b, sg_in_handler := True, sg_active_sig := word_of_int sig\<rparr>);
                           p = signal_proc_slot_task s (current_task s); i = nat (sig - 1);
                           g = (if sa_flags act AND SA_RESETHAND \<noteq> 0
                                then set_action g p i ((signal_actions g p i)\<lparr>sa_handler := SIG_DFL\<rparr>) else g);
                           lr = (if sched_task_abi_mode s (current_task s) = SCHED_ABI_LINUX
                                 then MMU_USER_LINUX_SIGTRAMP_VA else MMU_USER_SIGTRAMP_VA)
                       in (Inr (), g, um, frame\<lparr>f_sp := sig_sp, f_pc := sa_handler act,
                             f_x := (f_x frame)(0 := ucast (word_of_int sig :: u32), 1 := 0, 2 := 0, 30 := lr)\<rparr>)))))"

text \<open>Stopping the current task, up to the call of \<^verbatim>\<open>schedule\<close>, which gives the CPU away.\<close>

definition signal_stop_current :: "signals \<Rightarrow> sched \<Rightarrow> int \<Rightarrow> (signals \<times> sched) option" where
  "signal_stop_current g s sig =
     (case current_task s of
        None \<Rightarrow> Some (g, s)
      | Some c \<Rightarrow>
          (let k = signal_slot_task s (Some c);
               g = set_sig g k ((signal_state g k)\<lparr>sg_stopped := True, sg_stop_reported := False, sg_stop_sig := word_of_int sig\<rparr>);
               parent = sg_parent_pid (signal_state g k);
               (g, s) = (if parent \<noteq> 0 then snd (signal_send_pid g s parent SIGCHLD) else (g, s))
           in do { s \<leftarrow> schedule (set_state s c TCB_BLOCKED); Some (g, s) }))"

text \<open>The code that \<^verbatim>\<open>signal_terminate_current\<close> passes to \<^verbatim>\<open>sched_task_exit_with_code\<close>, which does not return.\<close>

definition signal_terminate_code :: "int \<Rightarrow> int" where
  "signal_terminate_code sig = 128 + (if sig \<le> 0 then SIGTERM else sig)"

datatype deliver = Deliver_ret bool | Deliver_stopped | Deliver_exit int

type_synonym 'pt deliver_result = "(deliver \<times> signals \<times> sched \<times> 'pt umem \<times> exception_frame) option"

lemma signal_ready_sub: "signal_ready st AND sg_pending st = signal_ready st"
  by (simp add: signal_ready_def bit_eq_iff bit_simps) blast

lemma pick_clear_less:
  "signal_pick_pending st \<noteq> 0 \<Longrightarrow> unat (sg_pending st AND NOT (signal_bit (signal_pick_pending st))) < unat (sg_pending st)"
proof -
  assume "signal_pick_pending st \<noteq> 0"
  then have nz: "signal_ready st \<noteq> 0" and p: "signal_pick_pending st = 1 + int (ctzll (signal_ready st))"
    by (auto simp: signal_pick_pending_def Let_def split: if_splits)
  have "bit (signal_ready st AND sg_pending st) (ctzll (signal_ready st))"
    unfolding signal_ready_sub using ctzll_props(2) [OF nz] .
  then have b: "bit (sg_pending st) (ctzll (signal_ready st))" by (simp add: bit_simps)
  have "sg_pending st AND NOT (signal_bit (signal_pick_pending st)) \<noteq> sg_pending st"
    unfolding p signal_bit_ctz [OF nz] using b ctzll_props(1) [OF nz] by (auto simp: bit_eq_iff bit_simps)
  with and_not_le [of "sg_pending st" "signal_bit (signal_pick_pending st)"] show ?thesis
    by (metis order_less_le word_less_nat_alt)
qed

function signal_deliver_loop ::
  "'pt mmu_prepare \<Rightarrow> 'pt mmu_resolve \<Rightarrow> nat \<Rightarrow> signals \<Rightarrow> sched \<Rightarrow> 'pt umem \<Rightarrow> exception_frame \<Rightarrow> 'pt deliver_result" where
  "signal_deliver_loop prepare resolve c g s um frame =
     (let k = signal_slot_task s (Some c); st = signal_state g k; sig = signal_pick_pending st
      in if sig = 0 then Some (Deliver_ret False, g, s, um, frame)
         else
           (let st1 = st\<lparr>sg_pending := sg_pending st AND NOT (signal_bit sig)\<rparr>;
                g1 = set_sig g k st1;
                act = signal_actions_for_task g1 s (Some c) (nat (sig - 1))
            in if signal_ignored act sig then signal_deliver_loop prepare resolve c g1 s um frame
               else if sa_handler act = SIG_DFL
               then
                 (if sig = SIGCONT
                  then signal_deliver_loop prepare resolve c
                         (set_sig g1 k (st1\<lparr>sg_stopped := False, sg_stop_reported := False, sg_stop_sig := 0\<rparr>)) s um frame
                  else if signal_default_stop sig
                  then map_option (\<lambda>(g2, s2). (Deliver_stopped, g2, s2, um, frame)) (signal_stop_current g1 s sig)
                  else if signal_default_terminate sig
                  then Some (Deliver_exit (signal_terminate_code sig), g1, s, um, frame)
                  else signal_deliver_loop prepare resolve c g1 s um frame)
               else
                 (case signal_install_user_frame prepare resolve g1 s um frame sig act of
                    (Inl _, g2, um2, frame2) \<Rightarrow> Some (Deliver_exit (signal_terminate_code sig), g2, s, um2, frame2)
                  | (Inr _, g2, um2, frame2) \<Rightarrow> Some (Deliver_ret True, g2, s, um2, frame2))))"
  by pat_completeness auto
termination
  by (relation "measure (\<lambda>(prepare, resolve, c, g, s, um, frame). unat (sg_pending (signal_state g (signal_slot_task s (Some c)))))")
    (use pick_clear_less in \<open>fastforce simp: set_sig_def\<close>)+

declare signal_deliver_loop.simps [simp del]

definition signal_deliver_pending ::
  "'pt mmu_prepare \<Rightarrow> 'pt mmu_resolve \<Rightarrow> signals \<Rightarrow> sched \<Rightarrow> 'pt umem \<Rightarrow> exception_frame \<Rightarrow> 'pt deliver_result" where
  "signal_deliver_pending prepare resolve g s um frame =
     (case current_task s of
        None \<Rightarrow> Some (Deliver_ret False, g, s, um, frame)
      | Some c \<Rightarrow>
          if \<not> sched_task_is_user s (Some c) then Some (Deliver_ret False, g, s, um, frame)
          else if sg_in_handler (signal_state g (signal_slot_task s (Some c))) then Some (Deliver_ret False, g, s, um, frame)
          else signal_deliver_loop prepare resolve c g s um frame)"

definition fault_signal :: "u32 \<Rightarrow> int" where
  "fault_signal ec =
     (if ec = 0x20 \<or> ec = 0x24 then SIGSEGV else if ec = 0x2C then SIGFPE
      else if ec = 0x22 \<or> ec = 0x26 then SIGBUS else SIGILL)"

text \<open>\<open>None\<close> in the first place of the result is the return value -1; the console output is left out.\<close>

definition signal_handle_user_exception ::
  "'pt mmu_prepare \<Rightarrow> 'pt mmu_resolve \<Rightarrow> signals \<Rightarrow> sched \<Rightarrow> 'pt umem \<Rightarrow> exception_frame \<Rightarrow> u32 \<Rightarrow>
   (deliver option \<times> signals \<times> sched \<times> 'pt umem \<times> exception_frame) option" where
  "signal_handle_user_exception prepare resolve g s um frame ec =
     (case current_task s of
        None \<Rightarrow> Some (None, g, s, um, frame)
      | Some c \<Rightarrow>
          if \<not> sched_task_is_user s (Some c) then Some (None, g, s, um, frame)
          else
            (let (_, g1, s1) = signal_send_tgkill g s (tgid_of s (Some c)) (t_pid (task_pool s c)) (fault_signal ec)
             in map_option (\<lambda>(d, r). (Some d, r)) (signal_deliver_pending prepare resolve g1 s1 um frame)))"

definition signal_sigreturn_current ::
  "'pt mmu_resolve \<Rightarrow> signals \<Rightarrow> sched \<Rightarrow> 'pt umem \<Rightarrow> exception_frame \<Rightarrow> (errno + unit) \<times> signals \<times> exception_frame" where
  "signal_sigreturn_current resolve g s um frame =
     (if \<not> sched_task_is_user s (current_task s) then (Inl EPERM, g, frame)
      else
        (let k = signal_slot_task s (current_task s); st = signal_state g k
         in if \<not> sg_in_handler st then (Inl EINVAL, g, frame)
            else case sched_task_space s (current_task s) of
              None \<Rightarrow> (Inl EFAULT, g, frame)
            | Some sp \<Rightarrow>
                (case signal_copy_from_user resolve um sp (f_sp frame) SIGFRAME_SIZE of
                   None \<Rightarrow> (Inl EFAULT, g, frame)
                 | Some bs \<Rightarrow>
                     (let r = sigframe_of bs
                      in if fr_magic r \<noteq> SIGFRAME_MAGIC then (Inl EINVAL, g, frame)
                         else (Inr (),
                               set_sig g k (st\<lparr>sg_blocked := signal_strip_unmaskable (fr_saved_mask r),
                                               sg_in_handler := False, sg_active_sig := 0\<rparr>),
                               fr_saved_frame r)))))"

subsection \<open>The frame in memory\<close>

lemma le_bytes_length [simp]: "length (le_bytes w) = 8"
  by (simp add: le_bytes_def)

lemma le_word_Cons: "le_word (b # bs) = ucast b OR push_bit 8 (le_word bs)"
  by (simp add: le_word_def)

lemma le_word_prefix: "le_word (map (\<lambda>i. ucast (drop_bit (8 * i) w)) [0..<m]) = take_bit (8 * m) w"
proof (induction m arbitrary: w)
  case 0 then show ?case by (simp add: le_word_def)
next
  case (Suc m)
  have "map (\<lambda>i. ucast (drop_bit (8 * i) w)) [0..<Suc m] =
      (ucast w :: u8) # map (\<lambda>i. ucast (drop_bit (8 * i) (drop_bit 8 w))) [0..<m]"
    by (simp add: upt_conv_Cons map_Suc_upt [symmetric] drop_bit_drop_bit add.commute del: upt_Suc)
  then have "le_word (map (\<lambda>i. ucast (drop_bit (8 * i) w)) [0..<Suc m]) =
      ucast (ucast w :: u8) OR push_bit 8 (take_bit (8 * m) (drop_bit 8 w))"
    by (simp only: le_word_Cons Suc)
  also have "\<dots> = take_bit (8 * Suc m) w"
    by (rule bit_word_eqI) (auto simp: bit_simps)
  finally show ?case .
qed

lemma le_word_bytes [simp]: "le_word (le_bytes w) = w"
  unfolding le_bytes_def le_word_prefix by (rule take_bit_word_eq_self) simp

lemma word_at_concat: "i < length ws \<Longrightarrow> word_at (concat (map le_bytes ws)) i = ws ! i"
proof (induction ws arbitrary: i)
  case (Cons w ws)
  show ?case
  proof (cases i)
    case 0 then show ?thesis by (simp add: word_at_def)
  next
    case (Suc j) then show ?thesis using Cons by (simp add: word_at_def)
  qed
qed simp

lemma concat_le_bytes_length: "length (concat (map le_bytes ws)) = 8 * length ws"
  by (induction ws) simp_all

lemma sigframe_bytes_length: "length (sigframe_bytes r) = SIGFRAME_SIZE"
  unfolding sigframe_bytes_def concat_le_bytes_length by (simp add: frame_words_def SIGFRAME_SIZE_def)

text \<open>A frame is read back as it was written; a register file has 31 registers.\<close>

lemma sigframe_roundtrip:
  "sigframe_of (sigframe_bytes r) = r\<lparr>fr_saved_frame := (fr_saved_frame r)\<lparr>f_x := (\<lambda>i. if i < 31 then f_x (fr_saved_frame r) i else 0)\<rparr>\<rparr>"
proof -
  let ?ws = "[fr_magic r, fr_saved_mask r, fr_delivered_sig r, fr_pad0 r] @ frame_words (fr_saved_frame r)"
  have w: "word_at (sigframe_bytes r) i = ?ws ! i" if "i < 40" for i
    unfolding sigframe_bytes_def by (rule word_at_concat) (use that in \<open>simp add: frame_words_def\<close>)
  show ?thesis
    unfolding sigframe_of_def
    by (simp add: w frame_words_def nth_append fun_eq_iff)
qed

subsection \<open>What user memory has to do\<close>

text \<open>
  The documented behaviour of the two MMU calls, for the space \<open>sp\<close> and a window \<open>W\<close> of user addresses:
  \<open>tr\<close> is the translation of a byte. A resolved range is translated byte by byte, a range in one
  page whose bytes are mapped is resolved, making a page writable changes no byte a user address reads,
  and no two addresses of the window share a byte (no page is mapped twice in the window). \<open>good\<close>
  is what the page tables have to satisfy for this and what \<open>prepare\<close> keeps.
\<close>

definition mmu_contract ::
  "('pt \<Rightarrow> u64 \<Rightarrow> u64 option) \<Rightarrow> ('pt \<Rightarrow> bool) \<Rightarrow> 'pt mmu_prepare \<Rightarrow> 'pt mmu_resolve \<Rightarrow> nat \<Rightarrow> u64 set \<Rightarrow> bool" where
  "mmu_contract tr good prepare resolve sp W \<longleftrightarrow>
     (\<forall>pt va n p. good pt \<longrightarrow> resolve pt sp va n = Some p \<longrightarrow> (\<forall>k < n. tr pt (va + of_nat k) = Some (p + of_nat k))) \<and>
     (\<forall>pt va n. good pt \<longrightarrow> page_chunk va n = n \<longrightarrow> (\<forall>k < n. tr pt (va + of_nat k) \<noteq> None) \<longrightarrow> resolve pt sp va n \<noteq> None) \<and>
     (\<forall>um va n um'. good (um_pt um) \<longrightarrow> prepare um sp va n = (True, um') \<longrightarrow>
        good (um_pt um') \<and>
        (\<forall>a. map_option (um_ram um') (tr (um_pt um') a) = map_option (um_ram um) (tr (um_pt um) a))) \<and>
     (\<forall>pt a b p. good pt \<longrightarrow> a \<in> W \<longrightarrow> b \<in> W \<longrightarrow> tr pt a = Some p \<longrightarrow> tr pt b = Some p \<longrightarrow> a = b)"

lemma mmu_contractD:
  assumes "mmu_contract tr good prepare resolve sp W"
  shows "good pt \<Longrightarrow> resolve pt sp va n = Some p \<Longrightarrow> k < n \<Longrightarrow> tr pt (va + of_nat k) = Some (p + of_nat k)"
    and "good pt \<Longrightarrow> page_chunk va n = n \<Longrightarrow> (\<And>k. k < n \<Longrightarrow> tr pt (va + of_nat k) \<noteq> None) \<Longrightarrow> \<exists>p. resolve pt sp va n = Some p"
    and "good (um_pt um) \<Longrightarrow> prepare um sp va n = (True, um') \<Longrightarrow> good (um_pt um')"
    and "good (um_pt um) \<Longrightarrow> prepare um sp va n = (True, um') \<Longrightarrow>
      map_option (um_ram um') (tr (um_pt um') a) = map_option (um_ram um) (tr (um_pt um) a)"
    and "good pt \<Longrightarrow> a \<in> W \<Longrightarrow> b \<in> W \<Longrightarrow> tr pt a = Some q \<Longrightarrow> tr pt b = Some q \<Longrightarrow> a = b"
  using assms unfolding mmu_contract_def by (blast | metis not_None_eq)+

text \<open>The byte a user address reads.\<close>

definition ubyte :: "('pt \<Rightarrow> u64 \<Rightarrow> u64 option) \<Rightarrow> 'pt umem \<Rightarrow> u64 \<Rightarrow> u8 option" where
  "ubyte tr um a = map_option (um_ram um) (tr (um_pt um) a)"

lemma page_chunk_idem: "page_chunk cur (page_chunk cur n) = page_chunk cur n"
  by (simp add: page_chunk_def Let_def)

lemma copy_from_reads:
  assumes c: "mmu_contract tr good prepare resolve sp W" "good (um_pt um)"
    and r: "\<And>j. j < length bs \<Longrightarrow> ubyte tr um (uva + of_nat j) = Some (bs ! j)"
  shows "copy_from_loop resolve um sp uva (length bs) copied = Some (drop copied bs)"
proof (induction "length bs - copied" arbitrary: copied rule: less_induct)
  case less
  show ?case
  proof (cases "copied < length bs")
    case False then show ?thesis by (simp add: copy_from_loop.simps)
  next
    case True
    let ?cur = "uva + of_nat copied" and ?n = "page_chunk (uva + of_nat copied) (length bs - copied)"
    have n: "0 < ?n" "copied + ?n \<le> length bs"
      using page_chunk_pos [of "length bs - copied" ?cur] page_chunk_le [of ?cur "length bs - copied"] True by linarith+
    have rk: "ubyte tr um (?cur + of_nat k) = Some (bs ! (copied + k))" if "k < ?n" for k
      using r [of "copied + k"] that n(2) by (simp add: add.assoc)
    have m: "tr (um_pt um) (?cur + of_nat k) \<noteq> None" if "k < ?n" for k using rk [OF that] by (auto simp: ubyte_def)
    obtain p where p: "resolve (um_pt um) sp ?cur ?n = Some p"
      using mmu_contractD(2) [OF c page_chunk_idem m] by blast
    have b: "um_ram um (p + of_nat k) = bs ! (copied + k)" if "k < ?n" for k
      using rk [OF that] mmu_contractD(1) [OF c p that] by (simp add: ubyte_def)
    have "ram_read (um_ram um) p ?n = map (\<lambda>k. bs ! (copied + k)) [0..<?n]" using b by (simp add: ram_read_def)
    also have "\<dots> = take ?n (drop copied bs)" using n(2) by (intro nth_equalityI) simp_all
    finally have rd: "ram_read (um_ram um) p ?n = take ?n (drop copied bs)" .
    have "copy_from_loop resolve um sp uva (length bs) (copied + ?n) = Some (drop (copied + ?n) bs)"
      by (rule less) (use n True in simp)
    moreover have "take ?n (drop copied bs) @ drop (copied + ?n) bs = drop copied bs"
      by (metis append_take_drop_id drop_drop add.commute)
    ultimately show ?thesis using True p rd by (subst copy_from_loop.simps) (simp add: Let_def)
  qed
qed

text \<open>What a write of a resolved chunk does to the bytes of the window.\<close>

lemma ubyte_write:
  assumes c: "mmu_contract tr good prepare resolve sp W" "good (um_pt um)"
    and p: "resolve (um_pt um) sp cur (length bs) = Some p" and W: "\<And>k. k < length bs \<Longrightarrow> cur + of_nat k \<in> W"
    and small: "length bs < 2 ^ 64" and a: "a \<in> W"
  shows "ubyte tr (um\<lparr>um_ram := ram_write (um_ram um) p bs\<rparr>) a =
    (if \<exists>k < length bs. a = cur + of_nat k then Some (bs ! unat (a - cur)) else ubyte tr um a)"
proof (cases "\<exists>k < length bs. a = cur + of_nat k")
  case True
  then obtain k where k: "k < length bs" "a = cur + of_nat k" by blast
  have u: "unat (of_nat k :: u64) = k" using k(1) small by (simp add: unat_of_nat)
  show ?thesis using mmu_contractD(1) [OF c p k(1)] k u by (auto simp: ubyte_def ram_write_def)
next
  case False
  have "um_ram (um\<lparr>um_ram := ram_write (um_ram um) p bs\<rparr>) q = um_ram um q" if q: "tr (um_pt um) a = Some q" for q
  proof -
    have "\<not> unat (q - p) < length bs"
    proof
      assume lt: "unat (q - p) < length bs"
      have "tr (um_pt um) (cur + of_nat (unat (q - p))) = Some q" using mmu_contractD(1) [OF c p lt] by simp
      from mmu_contractD(5) [OF c a W [OF lt] q this] False lt show False by blast
    qed
    then show ?thesis by (simp add: ram_write_def)
  qed
  then have "map_option (ram_write (um_ram um) p bs) (tr (um_pt um) a) = map_option (um_ram um) (tr (um_pt um) a)"
    by (cases "tr (um_pt um) a") simp_all
  then show ?thesis unfolding ubyte_def if_not_P [OF False] by simp
qed

lemma copy_to_writes:
  assumes c: "mmu_contract tr good prepare resolve sp W" and g: "good (um_pt um)"
    and W: "\<And>j. j < length bs \<Longrightarrow> uva + of_nat j \<in> W" and small: "length bs < 2 ^ 64"
    and run: "copy_to_loop prepare resolve um sp uva bs copied = (True, um')"
    and before: "\<And>j. j < copied \<Longrightarrow> j < length bs \<Longrightarrow> ubyte tr um (uva + of_nat j) = Some (bs ! j)"
  shows "good (um_pt um') \<and> (\<forall>j < length bs. ubyte tr um' (uva + of_nat j) = Some (bs ! j))"
  using g run before
proof (induction "length bs - copied" arbitrary: copied um rule: less_induct)
  case less
  show ?case
  proof (cases "copied < length bs")
    case False
    then show ?thesis using less.prems by (simp add: copy_to_loop.simps)
  next
    case True
    let ?cur = "uva + of_nat copied" and ?n = "page_chunk (uva + of_nat copied) (length bs - copied)"
    let ?ch = "take ?n (drop copied bs)"
    have n: "0 < ?n" "copied + ?n \<le> length bs" "length ?ch = ?n"
      using page_chunk_pos [of "length bs - copied" ?cur] page_chunk_le [of ?cur "length bs - copied"] True by auto
    obtain um1 p where p: "prepare um sp ?cur ?n = (True, um1)" "resolve (um_pt um1) sp ?cur ?n = Some p"
      "copy_to_loop prepare resolve (um1\<lparr>um_ram := ram_write (um_ram um1) p ?ch\<rparr>) sp uva bs (copied + ?n) = (True, um')"
      using less.prems(2) True
      by (subst (asm) copy_to_loop.simps) (auto simp: Let_def split: prod.splits bool.splits option.splits)
    have g1: "good (um_pt um1)" by (rule mmu_contractD(3) [OF c less.prems(1) p(1)])
    have same: "ubyte tr um1 a = ubyte tr um a" for a
      unfolding ubyte_def by (rule mmu_contractD(4) [OF c less.prems(1) p(1)])
    let ?um2 = "um1\<lparr>um_ram := ram_write (um_ram um1) p ?ch\<rparr>"
    have Wk: "?cur + of_nat k \<in> W" if "k < length ?ch" for k
      using W [of "copied + k"] that n by (simp add: add.assoc)
    have w: "ubyte tr ?um2 (uva + of_nat j) = Some (bs ! j)" if j: "j < copied + ?n" for j
    proof -
      have jl: "j < length bs" using j n(2) by simp
      have uw: "ubyte tr ?um2 (uva + of_nat j) =
          (if \<exists>k < ?n. uva + of_nat j = ?cur + of_nat k then Some (?ch ! unat (uva + of_nat j - ?cur)) else ubyte tr um1 (uva + of_nat j))"
        using ubyte_write [OF c g1, where cur = ?cur and bs = ?ch and p = p and a = "uva + of_nat j"] Wk p(2) W [OF jl] small
        unfolding n(3) using n(2) by simp
      show ?thesis
      proof (cases "copied \<le> j")
        case False
        have "uva + of_nat j \<noteq> ?cur + of_nat k" if "k < ?n" for k
        proof
          assume "uva + of_nat j = ?cur + of_nat k"
          then have "(of_nat j :: u64) = of_nat (copied + k)" by (simp add: add.assoc)
          then have "unat (of_nat j :: u64) = unat (of_nat (copied + k) :: u64)" by (rule arg_cong)
          moreover have "unat (of_nat j :: u64) = j" "unat (of_nat (copied + k) :: u64) = copied + k"
            using jl that n(2) small by (simp_all add: unat_of_nat del: of_nat_add)
          ultimately have "j = copied + k" by simp
          with False show False by simp
        qed
        with uw same less.prems(3) False jl show ?thesis by auto
      next
        case True
        then obtain k where k: "j = copied + k" by (metis le_Suc_ex)
        have "k < ?n" using k j by simp
        moreover have "unat (of_nat k :: u64) = k" using k jl small by (simp add: unat_of_nat)
        ultimately show ?thesis using uw k n(2) by (auto simp: add.assoc)
      qed
    qed
    show ?thesis by (rule less.hyps [OF _ _ p(3)]) (use n True g1 w in auto)
  qed
qed

subsection \<open>What sending does\<close>

lemma set_sig_simps [simp]:
  "signal_state (set_sig g k st) = (signal_state g)(k := st)" "signal_actions (set_sig g k st) = signal_actions g"
  by (simp_all add: set_sig_def)

lemma set_action_simps [simp]:
  "signal_state (set_action g p i a) = signal_state g"
  "signal_actions (set_action g p i a) = (signal_actions g)(p := (signal_actions g p)(i := a))"
  by (simp_all add: set_action_def)

text \<open>The parts of the signal state that no sender touches.\<close>

definition sig_kept :: "signals \<Rightarrow> signals \<Rightarrow> bool" where
  "sig_kept g g' \<longleftrightarrow> signal_actions g' = signal_actions g \<and>
     (\<forall>k. sg_blocked (signal_state g' k) = sg_blocked (signal_state g k) \<and>
          sg_parent_pid (signal_state g' k) = sg_parent_pid (signal_state g k) \<and>
          sg_in_handler (signal_state g' k) = sg_in_handler (signal_state g k) \<and>
          sg_active_sig (signal_state g' k) = sg_active_sig (signal_state g k))"

lemma sig_kept_refl [simp]: "sig_kept g g"
  by (simp add: sig_kept_def)

lemma sig_kept_trans: "sig_kept a b \<Longrightarrow> sig_kept b c \<Longrightarrow> sig_kept a c"
  by (auto simp: sig_kept_def)

lemma sig_kept_set:
  "sg_blocked st = sg_blocked (signal_state g k) \<Longrightarrow> sg_parent_pid st = sg_parent_pid (signal_state g k) \<Longrightarrow>
   sg_in_handler st = sg_in_handler (signal_state g k) \<Longrightarrow> sg_active_sig st = sg_active_sig (signal_state g k) \<Longrightarrow>
   sig_kept g (set_sig g k st)"
  by (simp add: sig_kept_def)

text \<open>What a sender does to the scheduler: it wakes tasks of the pool.\<close>

definition wakes :: "sched \<Rightarrow> sched \<Rightarrow> bool" where
  "wakes s s' \<longleftrightarrow> (\<exists>ws. s' = wake_all s ws \<and> (\<forall>w \<in> set ws. w < task_count s))"

lemma wakes_refl [simp]: "wakes s s"
  unfolding wakes_def by (intro exI [of _ "[]"]) simp

lemma wakes_unblock: "i < task_count s \<Longrightarrow> wakes s (sched_unblock s (Some i))"
  unfolding wakes_def by (intro exI [of _ "[i]"]) simp

lemma wake_all_append: "wake_all s (u @ v) = wake_all (wake_all s u) v"
  by (simp add: wake_all_def)

lemma wakes_trans: "wakes a b \<Longrightarrow> wakes b c \<Longrightarrow> wakes a c"
proof -
  assume "wakes a b" "wakes b c"
  then obtain u v where "b = wake_all a u" "\<forall>w \<in> set u. w < task_count a" "c = wake_all b v" "\<forall>w \<in> set v. w < task_count b"
    by (auto simp: wakes_def)
  then show "wakes a c" unfolding wakes_def by (intro exI [of _ "u @ v"]) (auto simp: wake_all_append)
qed

lemma wakes_task_inv: "wakes s s' \<Longrightarrow> task_inv s \<Longrightarrow> task_inv s'"
proof -
  have "task_inv (wake_all s ws)" if "task_inv s" "\<forall>w \<in> set ws. w < task_count s" for ws
    using that
  proof (induction ws arbitrary: s)
    case (Cons w ws)
    then have "task_inv (sched_unblock s (Some w))" using task_inv_sched sched_step.step_unblock by simp
    with Cons show ?case by simp
  qed simp
  then show "wakes s s' \<Longrightarrow> task_inv s \<Longrightarrow> task_inv s'" by (auto simp: wakes_def)
qed

lemma find_target_bound: "signal_find_process_target s tgid = Some t \<Longrightarrow> t < task_count s"
  by (auto simp: signal_find_process_target_def sched_task_find_def Let_def
      split: if_splits option.splits dest: for_find_SomeD)

text \<open>A signal other than SIGCONT becomes pending; only a SIGKILL to a stopped task wakes it.\<close>

lemma send_task_plain:
  assumes "signal_valid sig" "sched_task_is_user s (Some i)" "state_of s i \<noteq> TCB_ZOMBIE" "sig \<noteq> SIGCONT"
  shows "signal_send_task g s (Some i) sig =
    (let k = signal_slot_task s (Some i); st = (signal_state g k)\<lparr>sg_pending := sg_pending (signal_state g k) OR signal_bit sig\<rparr>
     in if sig = SIGKILL \<and> sg_stopped st \<and> state_of s i = TCB_BLOCKED
        then (Inr (), set_sig g k (st\<lparr>sg_stopped := False\<rparr>), sched_unblock s (Some i))
        else (Inr (), set_sig g k st, s))"
  using assms by (subst signal_send_task.simps) (simp add: Let_def)

text \<open>The targets a signal reaches.\<close>

definition sendable :: "sched \<Rightarrow> nat option \<Rightarrow> int \<Rightarrow> bool" where
  "sendable s t sig \<longleftrightarrow> signal_valid sig \<and>
     (case t of None \<Rightarrow> False | Some i \<Rightarrow> sched_task_is_user s (Some i) \<and> state_of s i \<noteq> TCB_ZOMBIE)"

lemma send_task_rejects: "\<not> sendable s t sig \<Longrightarrow> \<exists>e. signal_send_task g s t sig = (Inl e, g, s)"
  by (subst signal_send_task.simps) (auto simp: sendable_def split: option.splits)

lemma send_plain_kept:
  assumes "signal_send_task g s t sig = (r, g', s')" "sig \<noteq> SIGCONT" "\<And>i. t = Some i \<Longrightarrow> i < task_count s"
  shows "sig_kept g g' \<and> wakes s s'"
proof (cases "sendable s t sig")
  case False
  then show ?thesis using assms(1) send_task_rejects [of s t sig g] by auto
next
  case True
  then obtain i where i: "t = Some i" "signal_valid sig" "sched_task_is_user s (Some i)" "state_of s i \<noteq> TCB_ZOMBIE"
    by (auto simp: sendable_def split: option.splits)
  show ?thesis
    using assms(1,3) send_task_plain [OF i(2-4) assms(2)] i(1)
    by (auto simp: Let_def wakes_unblock intro!: sig_kept_set split: if_splits)
qed

text \<open>A SIGCONT clears the pending stops, wakes the task and tells the parent.\<close>

lemma send_task_cont:
  assumes "sched_task_is_user s (Some i)" "state_of s i \<noteq> TCB_ZOMBIE"
  shows "signal_send_task g s (Some i) SIGCONT =
    (let k = signal_slot_task s (Some i);
         st = (signal_state g k)\<lparr>sg_stopped := False, sg_stop_reported := False, sg_stop_sig := 0,
           sg_pending := sg_pending (signal_state g k) AND NOT signal_stop_bits OR signal_bit SIGCONT\<rparr>;
         s1 = (if state_of s i = TCB_BLOCKED then sched_unblock s (Some i) else s)
     in if sg_parent_pid (signal_state g k) \<noteq> 0
        then (Inr (), snd (signal_send_task (set_sig g k st) s1 (signal_find_process_target s1 (sg_parent_pid (signal_state g k))) SIGCHLD))
        else (Inr (), set_sig g k st, s1))"
  using assms by (subst signal_send_task.simps) (simp add: Let_def signal_valid_def SIGCONT_def ENLILOS_NSIG_def)

lemma send_task_kept:
  assumes "signal_send_task g s t sig = (r, g', s')" "\<And>i. t = Some i \<Longrightarrow> i < task_count s"
  shows "sig_kept g g' \<and> wakes s s'"
proof (cases "sig = SIGCONT \<and> sendable s t sig")
  case False
  then show ?thesis using assms send_plain_kept send_task_rejects [of s t sig g] by fastforce
next
  case True
  then obtain i where i: "t = Some i" "sig = SIGCONT" "sched_task_is_user s (Some i)" "state_of s i \<noteq> TCB_ZOMBIE"
    by (auto simp: sendable_def split: option.splits)
  define k where "k = signal_slot_task s (Some i)"
  define s1 where "s1 = (if state_of s i = TCB_BLOCKED then sched_unblock s (Some i) else s)"
  define st where "st = (signal_state g k)\<lparr>sg_stopped := False, sg_stop_reported := False, sg_stop_sig := 0,
      sg_pending := sg_pending (signal_state g k) AND NOT signal_stop_bits OR signal_bit SIGCONT\<rparr>"
  let ?up = "signal_send_task (set_sig g k st) s1 (signal_find_process_target s1 (sg_parent_pid (signal_state g k))) SIGCHLD"
  have a: "sig_kept g (set_sig g k st)" "wakes s s1"
    using assms(2) [OF i(1)] by (auto simp: st_def s1_def wakes_unblock intro!: sig_kept_set)
  have "(g', s') = (set_sig g k st, s1) \<or> (\<exists>r1. ?up = (r1, g', s'))"
    using assms(1) send_task_cont [OF i(3,4), of g] unfolding i(1,2)
    by (cases ?up) (auto simp: Let_def k_def s1_def st_def split: if_splits)
  then show ?thesis
  proof
    assume "\<exists>r1. ?up = (r1, g', s')"
    then have "sig_kept (set_sig g k st) g' \<and> wakes s1 s'"
      using send_plain_kept find_target_bound by (auto simp: SIGCHLD_def SIGCONT_def)
    with a show ?thesis using sig_kept_trans wakes_trans by blast
  qed (use a in simp)
qed

end
