(* ===== verification/Signal_Props.thy ===== *)
theory Signal_Props
  imports Signal
begin

text \<open>
  The invariant of the signal code and its properties: SIGKILL and SIGSTOP cannot be blocked,
  caught or ignored, what delivery does with a pending SIGKILL, the round trip through a handler,
  what sigreturn believes, and what happens to a task that is inside a handler.
\<close>

subsection \<open>The invariant\<close>

text \<open>
  No mask contains SIGKILL or SIGSTOP and their actions are the default ones (entries 8 and 18).
\<close>

definition sig_masks :: "signals \<Rightarrow> bool" where
  "sig_masks g \<longleftrightarrow>
     (\<forall>k. sg_blocked (signal_state g k) AND signal_unmaskable_bits = 0) \<and>
     (\<forall>p i. sa_mask (signal_actions g p i) AND signal_unmaskable_bits = 0) \<and>
     (\<forall>p. sa_handler (signal_actions g p 8) = SIG_DFL \<and> sa_handler (signal_actions g p 18) = SIG_DFL)"

lemma sig_masks_kept: "sig_masks g \<Longrightarrow> sig_kept g g' \<Longrightarrow> sig_masks g'"
  by (simp add: sig_masks_def sig_kept_def)

lemma sig_masks_set_sig: "sig_masks g \<Longrightarrow> sg_blocked st AND signal_unmaskable_bits = 0 \<Longrightarrow> sig_masks (set_sig g k st)"
  by (simp add: sig_masks_def)

lemma sig_masks_set_action:
  "sig_masks g \<Longrightarrow> sa_mask a AND signal_unmaskable_bits = 0 \<Longrightarrow> (i = 8 \<or> i = 18 \<longrightarrow> sa_handler a = SIG_DFL) \<Longrightarrow>
   sig_masks (set_action g p i a)"
  by (auto simp: sig_masks_def)

lemma strip_and [simp]: "signal_strip_unmaskable m AND signal_unmaskable_bits = 0"
  by (simp add: signal_strip_unmaskable_def and.assoc)

lemma or_and_zero: "a AND m = 0 \<Longrightarrow> b AND m = 0 \<Longrightarrow> (a OR b) AND m = (0 :: u64)"
  by (simp add: bit_eq_iff bit_simps) blast

lemma and_and_zero: "a AND m = 0 \<Longrightarrow> (a AND b) AND m = (0 :: u64)"
  by (metis and.assoc and.commute and_zero_eq)

lemma signal_bit_push: "signal_bit (1 + int n) = push_bit n 1" if "n < 64"
  using that by (simp add: signal_bit_def unat_of_nat)

lemma signal_validE:
  assumes "signal_valid sig" obtains n where "sig = 1 + int n" "n < 64" "nat (sig - 1) = n"
  using assms that [of "nat (sig - 1)"] by (auto simp: signal_valid_def ENLILOS_NSIG_def)

lemma signal_bit_bit: "signal_valid sig \<Longrightarrow> bit (signal_bit sig) n \<longleftrightarrow> n = nat (sig - 1)"
  by (elim signal_validE) (auto simp: signal_bit_push bit_simps)

lemma unmaskable_bit: "bit signal_unmaskable_bits n \<longleftrightarrow> n = 8 \<or> n = 18"
  using signal_bit_bit [of SIGKILL n] signal_bit_bit [of SIGSTOP n]
  by (simp add: signal_unmaskable_bits_def bit_or_iff signal_valid_def SIGKILL_def SIGSTOP_def ENLILOS_NSIG_def)

lemma signal_bit_unmaskable:
  assumes "signal_valid sig" "sig \<noteq> SIGKILL" "sig \<noteq> SIGSTOP" shows "signal_bit sig AND signal_unmaskable_bits = 0"
proof (rule bit_word_eqI)
  fix n
  have "nat (sig - 1) \<noteq> 8" "nat (sig - 1) \<noteq> 18"
    using assms by (auto simp: signal_valid_def SIGKILL_def SIGSTOP_def)
  then show "bit (signal_bit sig AND signal_unmaskable_bits) n \<longleftrightarrow> bit (0 :: u64) n"
    by (auto simp: bit_and_iff signal_bit_bit [OF assms(1)] unmaskable_bit)
qed

lemma pick_valid:
  assumes "signal_pick_pending st \<noteq> 0"
  shows "signal_valid (signal_pick_pending st)" "nat (signal_pick_pending st - 1) = ctzll (signal_ready st)" "signal_ready st \<noteq> 0"
proof -
  have nz: "signal_ready st \<noteq> 0" and p: "signal_pick_pending st = 1 + int (ctzll (signal_ready st))"
    using assms by (auto simp: signal_pick_pending_def Let_def split: if_splits)
  show "signal_valid (signal_pick_pending st)" "nat (signal_pick_pending st - 1) = ctzll (signal_ready st)"
    using ctzll_props(1) [OF nz] p by (auto simp: signal_valid_def ENLILOS_NSIG_def)
  show "signal_ready st \<noteq> 0" by (rule nz)
qed

subsection \<open>Every operation keeps the masks\<close>

lemma reset_actions_masks: "sig_masks g \<Longrightarrow> sig_masks (signal_reset_actions g p)"
  by (simp add: sig_masks_def signal_reset_actions_def zero_sigaction_def)

lemma task_init_masks: "sig_masks g \<Longrightarrow> sig_masks (signal_task_init g s t parent)"
  by (simp add: signal_task_init_def reset_actions_masks sig_masks_set_sig zero_sigstate_def)

lemma task_fork_masks: "sig_masks g \<Longrightarrow> sig_masks (signal_task_fork g s child parent)"
  by (simp add: signal_task_fork_def Let_def sig_masks_def signal_actions_for_task_def)

lemma clone_thread_masks: "sig_masks g \<Longrightarrow> sig_masks (signal_task_clone_thread g s child parent)"
  by (simp add: signal_task_clone_thread_def Let_def sig_masks_def zero_sigstate_def)

lemma reset_for_exec_masks: "sig_masks g \<Longrightarrow> sig_masks (signal_task_reset_for_exec g s t)"
  by (simp add: signal_task_reset_for_exec_def Let_def reset_actions_masks sig_masks_set_sig)

lemma task_exit_masks: "sig_masks g \<Longrightarrow> sig_masks (signal_task_exit g s t)"
  by (simp add: signal_task_exit_def sig_masks_def)

lemma sigaction_masks: "sig_masks g \<Longrightarrow> signal_sigaction_current g s sig act = (r, old, g') \<Longrightarrow> sig_masks g'"
  by (auto simp: signal_sigaction_current_def Let_def signal_valid_def SIGKILL_def SIGSTOP_def
      intro!: sig_masks_set_action split: if_splits option.splits)

lemma sigprocmask_masks: "sig_masks g \<Longrightarrow> signal_sigprocmask_current g s how m = (r, old, g') \<Longrightarrow> sig_masks g'"
  by (auto simp: signal_sigprocmask_current_def Let_def
      intro!: sig_masks_set_sig or_and_zero and_and_zero split: if_splits option.splits)
    (auto simp: sig_masks_def)

lemma consume_report_masks: "sig_masks g \<Longrightarrow> signal_task_consume_stop_report g s t = (r, g') \<Longrightarrow> sig_masks g'"
  by (auto simp: signal_task_consume_stop_report_def Let_def sig_masks_def split: if_splits)

lemma sigreturn_masks: "sig_masks g \<Longrightarrow> signal_sigreturn_current resolve g s um f = (r, g', f') \<Longrightarrow> sig_masks g'"
  by (auto simp: signal_sigreturn_current_def Let_def intro!: sig_masks_set_sig split: if_splits option.splits)

lemma install_masks:
  assumes m: "sig_masks g" and sig: "signal_valid sig" "sig \<noteq> SIGKILL" "sig \<noteq> SIGSTOP" and a: "sa_mask act AND signal_unmaskable_bits = 0"
    and run: "signal_install_user_frame prepare resolve g s um f sig act = (r, g', um', f')"
  shows "sig_masks g'"
proof -
  have h: "sa_handler (signal_actions g p i) = SIG_DFL" if "i = 8 \<or> i = 18" for p i using m that by (auto simp: sig_masks_def)
  have k: "sa_mask (signal_actions g p i) AND signal_unmaskable_bits = 0" for p i using m by (simp add: sig_masks_def)
  show ?thesis
    using run m signal_bit_unmaskable [OF sig] k
    by (auto simp: signal_install_user_frame_def Let_def
        intro!: sig_masks_set_sig sig_masks_set_action or_and_zero split: if_splits option.splits prod.splits)
qed

subsection \<open>Delivery keeps the invariant\<close>

definition sig_inv :: "signals \<times> sched \<times> 'pt umem \<Rightarrow> bool" where
  "sig_inv = (\<lambda>(g, s, um). task_inv s \<and> sig_masks g)"

lemma task_find_bound: "sched_task_find s pid = Some t \<Longrightarrow> t < task_count s"
  by (auto simp: sched_task_find_def dest: for_find_SomeD)

lemma send_pid_kept: "signal_send_pid g s pid sig = (r, g', s') \<Longrightarrow> sig_kept g g' \<and> wakes s s'"
  unfolding signal_send_pid_def by (erule send_task_kept) (rule find_target_bound)

lemma send_tgkill_kept: "signal_send_tgkill g s tgid tid sig = (r, g', s') \<Longrightarrow> sig_kept g g' \<and> wakes s s'"
  by (auto simp: signal_send_tgkill_def dest: send_task_kept task_find_bound split: if_splits option.splits)

lemma wakes_count: "wakes s s' \<Longrightarrow> task_count s' = task_count s" "wakes s s' \<Longrightarrow> current_task s' = current_task s"
  by (auto simp: wakes_def)

lemma pgrp_turn_kept:
  assumes "send_pgrp_turn pgid sig (d, g, s) i = (d', g', s')" shows "sig_kept g g' \<and> wakes s s'"
  using assms by (auto simp: send_pgrp_turn_def sched_task_at_def dest!: send_task_kept split: if_splits option.splits prod.splits sum.splits)

lemma pgrp_loop_kept:
  "foldl (send_pgrp_turn pgid sig) (d, g, s) is = (d', g', s') \<Longrightarrow> sig_kept g g' \<and> wakes s s'"
proof (induction "is" arbitrary: d g s)
  case (Cons i "is")
  obtain d1 g1 s1 where one: "send_pgrp_turn pgid sig (d, g, s) i = (d1, g1, s1)" by (metis prod_cases3)
  with Cons show ?case using pgrp_turn_kept [OF one] sig_kept_trans wakes_trans by fastforce
qed simp

lemma send_pgrp_kept: "signal_send_pgrp g s pgid sig = (r, g', s') \<Longrightarrow> sig_kept g g' \<and> wakes s s'"
  by (auto simp: signal_send_pgrp_def dest: pgrp_loop_kept split: if_splits prod.splits)

lemma sys_kill_kept: "sys_kill g s a0 a1 = (r, g', s') \<Longrightarrow> sig_kept g g' \<and> wakes s s'"
  by (auto simp: sys_kill_def Let_def dest: send_pid_kept send_pgrp_kept split: if_splits prod.splits)

lemma sys_tgkill_kept: "sys_tgkill g s a0 a1 a2 = (r, g', s') \<Longrightarrow> sig_kept g g' \<and> wakes s s'"
  by (auto simp: sys_tgkill_def Let_def dest: send_tgkill_kept split: prod.splits)

lemma sig_inv_kept: "sig_inv (g, s, um) \<Longrightarrow> sig_kept g g' \<and> wakes s s' \<Longrightarrow> sig_inv (g', s', um')"
  by (auto simp: sig_inv_def intro: sig_masks_kept wakes_task_inv)

lemma stop_current_inv:
  assumes inv: "sig_inv (g, s, um)" and c: "current_task s \<noteq> Some IDLE_SLOT" and run: "signal_stop_current g s sig = Some (g', s')"
  shows "sig_inv (g', s', um')"
proof -
  obtain c where cur: "current_task s = Some c" using inv by (auto simp: sig_inv_def task_inv_def sched_inv_def)
  define k where "k = signal_slot_task s (Some c)"
  define g1 where "g1 = set_sig g k ((signal_state g k)\<lparr>sg_stopped := True, sg_stop_reported := False, sg_stop_sig := word_of_int sig\<rparr>)"
  define p where "p = (if sg_parent_pid (signal_state g1 k) \<noteq> 0
    then snd (signal_send_pid g1 s (sg_parent_pid (signal_state g1 k)) SIGCHLD) else (g1, s))"
  have k1: "sig_kept g g1" unfolding g1_def by (rule sig_kept_set) simp_all
  have "sig_kept g1 (fst p) \<and> wakes s (snd p)"
    unfolding p_def using send_pid_kept [of g1 s _ SIGCHLD] by (auto simp: prod_eq_iff)
  then have i1: "sig_inv (fst p, snd p, um')" and w: "current_task (snd p) = Some c"
    using sig_inv_kept [OF inv] k1 sig_kept_trans wakes_count cur by metis+
  have "schedule (set_state (snd p) c TCB_BLOCKED) = Some s'" "g' = fst p"
    using run cur by (auto simp: signal_stop_current_def Let_def k_def g1_def p_def Option.bind_eq_Some_conv split: prod.splits if_splits)
  then have "sched_block (snd p) = Some s'" using w by (simp add: sched_block_def schedule_def)
  then have "sched_step (snd p) s'" by (intro sched_step.step_block) (use c cur w in simp)
  then have "task_inv s'" using i1 task_inv_sched by (auto simp: sig_inv_def)
  with i1 \<open>g' = fst p\<close> show ?thesis by (simp add: sig_inv_def)
qed

text \<open>
  The loop discards ignored signals, and a SIGCONT with the default action, until it finds none or
  one that has an effect. \<open>deliver_final\<close> is the turn that ends it.
\<close>

abbreviation task_sig :: "signals \<Rightarrow> sched \<Rightarrow> nat \<Rightarrow> signal_state" where
  "task_sig g s c \<equiv> signal_state g (signal_slot_task s (Some c))"

definition sig_discarded :: "(nat \<Rightarrow> sigaction) \<Rightarrow> nat \<Rightarrow> bool" where
  "sig_discarded acts n \<longleftrightarrow> signal_ignored (acts n) (1 + int n) \<or> sa_handler (acts n) = SIG_DFL \<and> 1 + int n = SIGCONT"

definition sig_taken :: "signals \<Rightarrow> sched \<Rightarrow> nat \<Rightarrow> signals" where
  "sig_taken g s c = set_sig g (signal_slot_task s (Some c))
     ((task_sig g s c)\<lparr>sg_pending := sg_pending (task_sig g s c) AND NOT (signal_bit (signal_pick_pending (task_sig g s c)))\<rparr>)"

definition deliver_final ::
  "'pt mmu_prepare \<Rightarrow> 'pt mmu_resolve \<Rightarrow> nat \<Rightarrow> signals \<Rightarrow> sched \<Rightarrow> 'pt umem \<Rightarrow> exception_frame \<Rightarrow> 'pt deliver_result" where
  "deliver_final prepare resolve c g s um f =
     (let sig = signal_pick_pending (task_sig g s c); act = signal_actions_for_task g s (Some c) (nat (sig - 1))
      in if sig = 0 then Some (Deliver_ret False, g, s, um, f)
         else if sa_handler act = SIG_DFL
         then (if signal_default_stop sig
               then map_option (\<lambda>(g2, s2). (Deliver_stopped, g2, s2, um, f)) (signal_stop_current (sig_taken g s c) s sig)
               else Some (Deliver_exit (128 + sig), sig_taken g s c, s, um, f))
         else (case signal_install_user_frame prepare resolve (sig_taken g s c) s um f sig act of
                 (Inl _, g2, um2, f2) \<Rightarrow> Some (Deliver_exit (128 + sig), g2, s, um2, f2)
               | (Inr _, g2, um2, f2) \<Rightarrow> Some (Deliver_ret True, g2, s, um2, f2)))"

lemma actions_taken [simp]: "signal_actions_for_task (sig_taken g s c) = signal_actions_for_task g"
  by (simp add: sig_taken_def signal_actions_for_task_def fun_eq_iff)

lemma actions_set_sig [simp]: "signal_actions_for_task (set_sig g k st) = signal_actions_for_task g"
  by (simp add: signal_actions_for_task_def fun_eq_iff)

definition sig_discards :: "sched \<Rightarrow> nat \<Rightarrow> signals \<Rightarrow> signals \<Rightarrow> bool" where
  "sig_discards s c g g' \<longleftrightarrow> sig_kept g g' \<and>
     (\<forall>j. j \<noteq> signal_slot_task s (Some c) \<longrightarrow> signal_state g' j = signal_state g j) \<and>
     (\<forall>n. bit (sg_pending (task_sig g' s c)) n \<longrightarrow> bit (sg_pending (task_sig g s c)) n) \<and>
     (\<forall>n. bit (sg_pending (task_sig g s c)) n \<longrightarrow> \<not> bit (sg_pending (task_sig g' s c)) n \<longrightarrow>
        sig_discarded (signal_actions_for_task g s (Some c)) n)"

lemma sig_discards_refl: "sig_discards s c g g"
  by (simp add: sig_discards_def)

lemma actions_kept: "sig_kept g g' \<Longrightarrow> signal_actions_for_task g' = signal_actions_for_task g"
  by (simp add: sig_kept_def signal_actions_for_task_def fun_eq_iff)

lemma sig_discards_trans: "sig_discards s c a b \<Longrightarrow> sig_discards s c b d \<Longrightarrow> sig_discards s c a d"
proof -
  assume ab: "sig_discards s c a b" and bd: "sig_discards s c b d"
  have "signal_actions_for_task b = signal_actions_for_task a" using ab actions_kept by (auto simp: sig_discards_def)
  note a = this
  show ?thesis
    using ab bd unfolding sig_discards_def a
    by (intro conjI allI impI) (auto intro: sig_kept_trans)
qed

lemma pick_bits:
  assumes "signal_pick_pending st \<noteq> 0"
  obtains n where "signal_pick_pending st = 1 + int n" "n < 64" "bit (sg_pending st) n" "bit (signal_ready st) n"
    "\<forall>j < n. \<not> bit (signal_ready st) j" "signal_bit (signal_pick_pending st) = push_bit n 1"
proof -
  let ?n = "ctzll (signal_ready st)"
  note v = pick_valid [OF assms]
  have p: "signal_pick_pending st = 1 + int ?n" using v(3) by (simp add: signal_pick_pending_def Let_def)
  have "bit (signal_ready st AND sg_pending st) ?n" using ctzll_props(2) [OF v(3)] by (simp only: signal_ready_sub)
  then have "bit (sg_pending st) ?n" by (simp add: bit_and_iff)
  then show ?thesis
    using that [of ?n] p ctzll_props [OF v(3)] signal_bit_push [of ?n] by auto
qed

lemma taken_pending:
  assumes "signal_pick_pending (task_sig g s c) = 1 + int n" "n < 64"
  shows "bit (sg_pending (task_sig (sig_taken g s c) s c)) j \<longleftrightarrow> bit (sg_pending (task_sig g s c)) j \<and> j \<noteq> n"
  using assms by (auto simp: sig_taken_def signal_bit_push bit_simps bit_imp_le_length dest: bit_imp_le_length)

lemma taken_discards:
  assumes "signal_pick_pending (task_sig g s c) = 1 + int n" "n < 64" "sig_discarded (signal_actions_for_task g s (Some c)) n"
  shows "sig_discards s c g (sig_taken g s c)"
  unfolding sig_discards_def
proof (intro conjI allI impI)
  show "sig_kept g (sig_taken g s c)" unfolding sig_taken_def by (rule sig_kept_set) simp_all
qed (use assms taken_pending [OF assms(1,2)] in \<open>auto simp: sig_taken_def [of g s c, THEN arg_cong [where f = signal_state]]\<close>)

text \<open>One turn of the loop.\<close>

definition sig_continued :: "signals \<Rightarrow> sched \<Rightarrow> nat \<Rightarrow> signals" where
  "sig_continued g s c = set_sig g (signal_slot_task s (Some c))
     ((task_sig g s c)\<lparr>sg_stopped := False, sg_stop_reported := False, sg_stop_sig := 0\<rparr>)"

lemma deliver_unfold:
  assumes "signal_pick_pending (task_sig g s c) = sig" "sig \<noteq> 0"
  shows "signal_deliver_loop prepare resolve c g s um f =
    (let act = signal_actions_for_task g s (Some c) (nat (sig - 1)); g1 = sig_taken g s c
     in if signal_ignored act sig then signal_deliver_loop prepare resolve c g1 s um f
        else if sa_handler act = SIG_DFL
        then (if sig = SIGCONT then signal_deliver_loop prepare resolve c (sig_continued g1 s c) s um f
              else if signal_default_stop sig
              then map_option (\<lambda>(g2, s2). (Deliver_stopped, g2, s2, um, f)) (signal_stop_current g1 s sig)
              else if signal_default_terminate sig then Some (Deliver_exit (signal_terminate_code sig), g1, s, um, f)
              else signal_deliver_loop prepare resolve c g1 s um f)
        else (case signal_install_user_frame prepare resolve g1 s um f sig act of
                (Inl _, g2, um2, frame2) \<Rightarrow> Some (Deliver_exit (signal_terminate_code sig), g2, s, um2, frame2)
              | (Inr _, g2, um2, frame2) \<Rightarrow> Some (Deliver_ret True, g2, s, um2, frame2)))"
proof -
  have c: "set_sig (sig_taken g s c) (signal_slot_task s (Some c))
      ((task_sig (sig_taken g s c) s c)\<lparr>sg_stopped := False, sg_stop_reported := False, sg_stop_sig := 0\<rparr>) =
      sig_continued (sig_taken g s c) s c" by (simp add: sig_continued_def)
  have t: "set_sig g (signal_slot_task s (Some c)) (task_sig (sig_taken g s c) s c) = sig_taken g s c"
    by (simp add: sig_taken_def)
  have u: "(task_sig g s c)\<lparr>sg_pending := sg_pending (task_sig g s c) AND NOT (signal_bit sig)\<rparr> = task_sig (sig_taken g s c) s c"
    using assms(1) by (simp add: sig_taken_def)
  show ?thesis
    by (subst signal_deliver_loop.simps) (simp only: Let_def assms(1) t u c actions_taken if_not_P [OF assms(2)])
qed

lemma deliver_turn_discard:
  assumes n: "signal_pick_pending (task_sig g s c) = 1 + int n" "n < 64"
    and d: "sig_discarded (signal_actions_for_task g s (Some c)) n"
  obtains g' where "sig_discards s c g g'" "unat (sg_pending (task_sig g' s c)) < unat (sg_pending (task_sig g s c))"
    "signal_deliver_loop prepare resolve c g s um f = signal_deliver_loop prepare resolve c g' s um f"
proof -
  let ?g = "sig_taken g s c"
  have l: "unat (sg_pending (task_sig ?g s c)) < unat (sg_pending (task_sig g s c))"
    using pick_clear_less [of "task_sig g s c"] n by (simp add: sig_taken_def)
  have nn: "nat (1 + int n - 1) = n" "1 + int n \<noteq> 0" by simp_all
  note u = deliver_unfold [OF n(1) nn(2), of prepare resolve um f]
  show ?thesis
  proof (cases "signal_ignored (signal_actions_for_task g s (Some c) n) (1 + int n)")
    case True
    then show ?thesis using that [of ?g] taken_discards [OF n d] l u by simp
  next
    case False
    then have h: "sa_handler (signal_actions_for_task g s (Some c) n) = SIG_DFL" "1 + int n = SIGCONT"
      using d by (auto simp: sig_discarded_def)
    have "sig_discards s c ?g (sig_continued ?g s c)"
      unfolding sig_discards_def sig_continued_def by (auto intro!: sig_kept_set)
    then have "sig_discards s c g (sig_continued ?g s c)" using taken_discards [OF n d] sig_discards_trans by blast
    moreover have "signal_deliver_loop prepare resolve c g s um f = signal_deliver_loop prepare resolve c (sig_continued ?g s c) s um f"
      using u by (simp only: Let_def if_not_P [OF False] if_P [OF h(1)] if_P [OF h(2)] nn(1))
    moreover have "sg_pending (task_sig (sig_continued ?g s c) s c) = sg_pending (task_sig ?g s c)" by (simp add: sig_continued_def)
    ultimately show ?thesis using that l by simp
  qed
qed

lemma deliver_turn_final:
  assumes "signal_pick_pending (task_sig g s c) \<noteq> 0 \<longrightarrow>
     \<not> sig_discarded (signal_actions_for_task g s (Some c)) (nat (signal_pick_pending (task_sig g s c) - 1))"
  shows "signal_deliver_loop prepare resolve c g s um f = deliver_final prepare resolve c g s um f"
proof (cases "signal_pick_pending (task_sig g s c) = 0")
  case True
  then show ?thesis by (subst signal_deliver_loop.simps) (simp add: deliver_final_def Let_def)
next
  case False
  then obtain n where n: "signal_pick_pending (task_sig g s c) = 1 + int n" by (rule pick_bits)
  have t: "signal_terminate_code (1 + int n) = 128 + (1 + int n)" by (simp add: signal_terminate_code_def)
  have "signal_default_terminate (1 + int n)" if "\<not> signal_default_stop (1 + int n)" "sa_handler (signal_actions_for_task g s (Some c) n) = SIG_DFL"
    using assms n that by (auto simp: signal_default_terminate_def sig_discarded_def signal_ignored_def)
  then show ?thesis
    using assms n unfolding deliver_final_def deliver_unfold [OF n, of prepare resolve um f, simplified] n
    by (auto simp: Let_def sig_discarded_def t split: prod.splits sum.splits)
qed

lemma deliver_loop_final:
  "\<exists>g'. sig_discards s c g g' \<and> signal_deliver_loop prepare resolve c g s um f = deliver_final prepare resolve c g' s um f \<and>
     (signal_pick_pending (task_sig g' s c) \<noteq> 0 \<longrightarrow>
        \<not> sig_discarded (signal_actions_for_task g s (Some c)) (nat (signal_pick_pending (task_sig g' s c) - 1)))"
proof (induction "unat (sg_pending (task_sig g s c))" arbitrary: g rule: less_induct)
  case less
  show ?case
  proof (cases "signal_pick_pending (task_sig g s c) \<noteq> 0 \<and>
      sig_discarded (signal_actions_for_task g s (Some c)) (nat (signal_pick_pending (task_sig g s c) - 1))")
    case False
    then show ?thesis using deliver_turn_final sig_discards_refl by blast
  next
    case True
    then obtain n where n: "signal_pick_pending (task_sig g s c) = 1 + int n" "n < 64" by (metis pick_bits)
    obtain g1 where g1: "sig_discards s c g g1" "unat (sg_pending (task_sig g1 s c)) < unat (sg_pending (task_sig g s c))"
      "signal_deliver_loop prepare resolve c g s um f = signal_deliver_loop prepare resolve c g1 s um f"
      by (rule deliver_turn_discard [OF n]) (use True n in auto)
    have "signal_actions_for_task g1 = signal_actions_for_task g" using g1(1) actions_kept by (auto simp: sig_discards_def)
    with less [OF g1(2)] g1(1,3) show ?thesis using sig_discards_trans by metis
  qed
qed

lemma taken_kept: "sig_kept g (sig_taken g s c)"
  unfolding sig_taken_def by (rule sig_kept_set) simp_all

lemma deliver_final_inv:
  assumes inv: "sig_inv (g, s, um)" and c: "current_task s \<noteq> Some IDLE_SLOT"
    and run: "deliver_final prepare resolve c g s um f = Some (d, g', s', um', f')"
  shows "sig_inv (g', s', um')"
proof (cases "signal_pick_pending (task_sig g s c) = 0")
  case True
  then show ?thesis using run inv by (simp add: deliver_final_def Let_def sig_inv_def)
next
  case False
  define sig where "sig = signal_pick_pending (task_sig g s c)"
  define act where "act = signal_actions_for_task g s (Some c) (nat (sig - 1))"
  have v: "signal_valid sig" unfolding sig_def by (rule pick_valid [OF False])
  have i1: "sig_inv (sig_taken g s c, s, um)" by (rule sig_inv_kept [OF inv]) (simp add: taken_kept)
  then have m: "sig_masks (sig_taken g s c)" "task_inv s" by (auto simp: sig_inv_def)
  have a: "sa_mask act AND signal_unmaskable_bits = 0" and u: "sa_handler act = SIG_DFL" if "sig = SIGKILL \<or> sig = SIGSTOP"
    using inv that by (auto simp: act_def sig_inv_def sig_masks_def signal_actions_for_task_def SIGKILL_def SIGSTOP_def)
  have a: "sa_mask act AND signal_unmaskable_bits = 0"
    using inv by (auto simp: act_def sig_inv_def sig_masks_def signal_actions_for_task_def)
  note r = run [unfolded deliver_final_def Let_def, folded sig_def, folded act_def]
  show ?thesis
  proof (cases "sa_handler act = SIG_DFL")
    case True
    then show ?thesis
      using r False i1 stop_current_inv [OF i1 c] by (auto simp: sig_def [symmetric] sig_inv_def split: if_splits)
  next
    case h: False
    obtain e g2 um2 f2 where ins: "signal_install_user_frame prepare resolve (sig_taken g s c) s um f sig act = (e, g2, um2, f2)"
      by (metis prod_cases4)
    have "sig_masks g2" using install_masks [OF m(1) v _ _ a ins] h u by blast
    then show ?thesis using r False h ins m(2) by (auto simp: sig_def [symmetric] sig_inv_def split: sum.splits)
  qed
qed

lemma deliver_loop_inv:
  assumes inv: "sig_inv (g, s, um)" and c: "current_task s \<noteq> Some IDLE_SLOT"
    and run: "signal_deliver_loop prepare resolve c g s um f = Some (d, g', s', um', f')"
  shows "sig_inv (g', s', um')"
proof -
  obtain g1 where g1: "sig_discards s c g g1" "signal_deliver_loop prepare resolve c g s um f = deliver_final prepare resolve c g1 s um f"
    using deliver_loop_final by blast
  have "sig_inv (g1, s, um)" by (rule sig_inv_kept [OF inv]) (use g1(1) in \<open>simp add: sig_discards_def\<close>)
  moreover have "deliver_final prepare resolve c g1 s um f = Some (d, g', s', um', f')" using g1(2) run by simp
  ultimately show ?thesis by (rule deliver_final_inv [OF _ c])
qed

lemma deliver_pending_inv:
  assumes "sig_inv (g, s, um)" "current_task s \<noteq> Some IDLE_SLOT"
    "signal_deliver_pending prepare resolve g s um f = Some (d, g', s', um', f')"
  shows "sig_inv (g', s', um')"
  using assms deliver_loop_inv [OF assms(1,2)]
  by (auto simp: signal_deliver_pending_def split: option.splits if_splits)

lemma user_exception_inv:
  assumes "sig_inv (g, s, um)" "current_task s \<noteq> Some IDLE_SLOT"
    "signal_handle_user_exception prepare resolve g s um f ec = Some (d, g', s', um', f')"
  shows "sig_inv (g', s', um')"
proof (cases "\<exists>c. current_task s = Some c \<and> sched_task_is_user s (Some c)")
  case False
  then show ?thesis using assms by (auto simp: signal_handle_user_exception_def split: option.splits if_splits)
next
  case True
  then obtain c where c: "current_task s = Some c" "sched_task_is_user s (Some c)" by blast
  obtain r g1 s1 where k: "signal_send_tgkill g s (tgid_of s (Some c)) (t_pid (task_pool s c)) (fault_signal ec) = (r, g1, s1)"
    by (metis prod_cases3)
  note kk = send_tgkill_kept [OF k]
  obtain d1 where d: "signal_deliver_pending prepare resolve g1 s1 um f = Some (d1, g', s', um', f')"
    using assms(3) c k by (auto simp: signal_handle_user_exception_def)
  show ?thesis
    by (rule deliver_pending_inv [OF sig_inv_kept [OF assms(1) kk] _ d]) (use assms(2) kk wakes_count in auto)
qed

subsection \<open>Step relation\<close>

text \<open>
  What can happen: a step of tasks and the scheduler, user code changing memory, the signal part
  of creation, fork, thread creation, exec and exit, the senders, the system calls of the current
  task, delivery on return to user mode, a stopped task that runs again (\<open>resume\<close>), a fault in user
  mode and the return from a handler.
\<close>

inductive sig_step :: "'pt mmu_prepare \<Rightarrow> 'pt mmu_resolve \<Rightarrow> signals \<times> sched \<times> 'pt umem \<Rightarrow> signals \<times> sched \<times> 'pt umem \<Rightarrow> bool"
  for prepare resolve where
  task: "task_step s s' \<Longrightarrow> sig_step prepare resolve (g, s, um) (g, s', um)"
| user: "sig_step prepare resolve (g, s, um) (g, s, um')"
| init: "sig_step prepare resolve (g, s, um) (signal_task_init g s t parent, s, um)"
| fork: "sig_step prepare resolve (g, s, um) (signal_task_fork g s child parent', s, um)"
| clone: "sig_step prepare resolve (g, s, um) (signal_task_clone_thread g s child parent', s, um)"
| exec: "sig_step prepare resolve (g, s, um) (signal_task_reset_for_exec g s t, s, um)"
| exit: "sig_step prepare resolve (g, s, um) (signal_task_exit g s t, s, um)"
| send: "signal_send_pid g s pid sig = (r, g', s') \<Longrightarrow> sig_step prepare resolve (g, s, um) (g', s', um)"
| kill: "sys_kill g s a0 a1 = (v, g', s') \<Longrightarrow> sig_step prepare resolve (g, s, um) (g', s', um)"
| tgkill: "sys_tgkill g s a0 a1 a2 = (v, g', s') \<Longrightarrow> sig_step prepare resolve (g, s, um) (g', s', um)"
| pgrp: "signal_send_pgrp g s pgid sig = (r, g', s') \<Longrightarrow> sig_step prepare resolve (g, s, um) (g', s', um)"
| action: "signal_sigaction_current g s sig act = (r, old, g') \<Longrightarrow> sig_step prepare resolve (g, s, um) (g', s, um)"
| procmask: "signal_sigprocmask_current g s how m = (r, omask, g') \<Longrightarrow> sig_step prepare resolve (g, s, um) (g', s, um)"
| report: "signal_task_consume_stop_report g s t = (rep, g') \<Longrightarrow> sig_step prepare resolve (g, s, um) (g', s, um)"
| deliver: "current_task s \<noteq> Some IDLE_SLOT \<Longrightarrow>
    signal_deliver_pending prepare resolve g s um f = Some (d, g', s', um', f') \<Longrightarrow> sig_step prepare resolve (g, s, um) (g', s', um')"
| resume: "current_task s = Some c \<Longrightarrow> c \<noteq> IDLE_SLOT \<Longrightarrow>
    signal_deliver_loop prepare resolve c g s um f = Some (d, g', s', um', f') \<Longrightarrow> sig_step prepare resolve (g, s, um) (g', s', um')"
| fault: "current_task s \<noteq> Some IDLE_SLOT \<Longrightarrow>
    signal_handle_user_exception prepare resolve g s um f ec = Some (dd, g', s', um', f') \<Longrightarrow> sig_step prepare resolve (g, s, um) (g', s', um')"
| sigreturn: "signal_sigreturn_current resolve g s um f = (r, g', f') \<Longrightarrow> sig_step prepare resolve (g, s, um) (g', s, um)"

lemma sig_inv_masks: "sig_inv (g, s, um) \<Longrightarrow> sig_masks g' \<Longrightarrow> sig_inv (g', s, um')"
  by (simp add: sig_inv_def)

lemma sig_step_inv:
  assumes inv: "sig_inv x" and step: "sig_step prepare resolve x y" shows "sig_inv y"
proof -
  have m: "\<And>g s um. x = (g, s, um) \<Longrightarrow> sig_masks g" using inv by (auto simp: sig_inv_def)
  show ?thesis
    using step
  proof cases
    case task then show ?thesis using inv task_step_inv by (auto simp: sig_inv_def)
  next
    case init then show ?thesis using inv m task_init_masks sig_inv_masks by blast
  next
    case fork then show ?thesis using inv m task_fork_masks sig_inv_masks by blast
  next
    case clone then show ?thesis using inv m clone_thread_masks sig_inv_masks by blast
  next
    case exec then show ?thesis using inv m reset_for_exec_masks sig_inv_masks by blast
  next
    case exit then show ?thesis using inv m task_exit_masks sig_inv_masks by blast
  next
    case send then show ?thesis using inv send_pid_kept sig_inv_kept by blast
  next
    case kill then show ?thesis using inv sys_kill_kept sig_inv_kept by blast
  next
    case tgkill then show ?thesis using inv sys_tgkill_kept sig_inv_kept by blast
  next
    case pgrp then show ?thesis using inv send_pgrp_kept sig_inv_kept by blast
  next
    case action then show ?thesis using inv m sigaction_masks sig_inv_masks by blast
  next
    case procmask then show ?thesis using inv m sigprocmask_masks sig_inv_masks by blast
  next
    case report then show ?thesis using inv m consume_report_masks sig_inv_masks by blast
  next
    case deliver then show ?thesis using inv deliver_pending_inv by blast
  next
    case (resume s c) then show ?thesis using inv deliver_loop_inv [of _ s _ prepare resolve c] by simp
  next
    case fault then show ?thesis using inv user_exception_inv by blast
  next
    case sigreturn then show ?thesis using inv m sigreturn_masks sig_inv_masks by blast
  qed (use inv in \<open>simp add: sig_inv_def\<close>)
qed

interpretation sigsys: invariant_system "sig_step prepare resolve" sig_inv
  by unfold_locales (rule sig_step_inv)

subsection \<open>Facts behind the properties\<close>

lemma sig_kept_in_handler: "sig_kept g g' \<Longrightarrow> sg_in_handler (signal_state g' k) = sg_in_handler (signal_state g k)"
  by (simp add: sig_kept_def)

text \<open>A pending SIGKILL is always ready, so the loop never ends without effect.\<close>

lemma kill_ready: "bit (sg_pending st) 8 \<Longrightarrow> bit (signal_ready st) 8"
  by (simp add: signal_ready_def bit_or_iff bit_and_iff unmaskable_bit)

lemma kill_not_discarded: "sig_masks g \<Longrightarrow> \<not> sig_discarded (signal_actions_for_task g s t) 8"
  by (simp add: sig_masks_def sig_discarded_def signal_ignored_def signal_actions_for_task_def signal_default_ignore_def
      SIG_IGN_def SIG_DFL_def SIGCHLD_def SIGWINCH_def SIGCONT_def)

lemma pick_at_most_kill:
  assumes "bit (sg_pending st) 8"
  obtains n where "signal_pick_pending st = 1 + int n" "n \<le> 8" "bit (signal_ready st) n"
proof -
  have r: "bit (signal_ready st) 8" by (rule kill_ready [OF assms])
  then have "signal_ready st \<noteq> 0" by auto
  then have "signal_pick_pending st \<noteq> 0" by (simp add: signal_pick_pending_def Let_def)
  then obtain n where n: "signal_pick_pending st = 1 + int n" "n < 64" "bit (sg_pending st) n" "bit (signal_ready st) n"
    "\<forall>j < n. \<not> bit (signal_ready st) j" "signal_bit (signal_pick_pending st) = push_bit n 1" by (rule pick_bits)
  have "n \<le> 8" using n(5) r by (meson not_le)
  with n that show ?thesis by blast
qed

lemma low_not_stop: "n \<le> 8 \<Longrightarrow> \<not> signal_default_stop (1 + int n)"
  by (simp add: signal_default_stop_def SIGSTOP_def SIGTSTP_def SIGTTIN_def SIGTTOU_def)

lemma install_pending:
  assumes "signal_install_user_frame prepare resolve g s um f sig act = (Inr u, g', um', f')" "current_task s = Some c"
  shows "sg_in_handler (task_sig g' s c)" "sg_pending (task_sig g' s c) = sg_pending (task_sig g s c)"
  using assms by (auto simp: signal_install_user_frame_def Let_def split: if_splits option.splits prod.splits)

lemma deliver_final_kill:
  assumes m: "sig_masks g" and c: "current_task s = Some c" and p: "bit (sg_pending (task_sig g s c)) 8"
  shows "\<exists>d g' um' f'. deliver_final prepare resolve c g s um f = Some (d, g', s, um', f') \<and>
    (\<exists>n \<le> 8. bit (signal_ready (task_sig g s c)) n \<and>
      (d = Deliver_exit (129 + int n) \<or>
       n < 8 \<and> d = Deliver_ret True \<and> sg_in_handler (task_sig g' s c) \<and> bit (sg_pending (task_sig g' s c)) 8))"
proof -
  obtain n where n: "signal_pick_pending (task_sig g s c) = 1 + int n" "n \<le> 8" "bit (signal_ready (task_sig g s c)) n"
    by (rule pick_at_most_kill [OF p])
  let ?a = "signal_actions_for_task g s (Some c) n" and ?g = "sig_taken g s c"
  have nn: "nat (1 + int n - 1) = n" "1 + int n \<noteq> 0" by simp_all
  note df = deliver_final_def [of prepare resolve c g s um f, unfolded Let_def n(1) nn(1) if_not_P [OF nn(2)]]
  show ?thesis
  proof (cases "sa_handler ?a = SIG_DFL")
    case True
    then show ?thesis using df low_not_stop [OF n(2)] n(2,3) by auto
  next
    case False
    then have n8: "n < 8" using m n(2) by (cases "n = 8") (auto simp: sig_masks_def signal_actions_for_task_def)
    obtain e g2 um2 f2 where ins: "signal_install_user_frame prepare resolve ?g s um f (1 + int n) ?a = (e, g2, um2, f2)"
      by (metis prod_cases4)
    show ?thesis
    proof (cases e)
      case (Inl x) then show ?thesis using df False ins n(2,3) by auto
    next
      case (Inr u)
      have "bit (sg_pending (task_sig ?g s c)) 8" using taken_pending [OF n(1), of 8] n8 p by simp
      then show ?thesis using df False ins n(2,3) n8 Inr install_pending [OF ins [unfolded Inr] c] by (auto intro!: exI [of _ n])
    qed
  qed
qed

text \<open>The fault signals are neither SIGCONT nor SIGKILL: sending one changes no task.\<close>

lemma send_tgkill_fault:
  assumes "signal_send_tgkill g s tgid tid (fault_signal ec) = (r, g', s')" shows "s' = s"
proof -
  have "fault_signal ec \<noteq> SIGCONT" "fault_signal ec \<noteq> SIGKILL"
    by (auto simp: fault_signal_def SIGSEGV_def SIGFPE_def SIGBUS_def SIGILL_def SIGCONT_def SIGKILL_def)
  then have "s' = s" if "signal_send_task g s (Some t) (fault_signal ec) = (r, g', s')" for t
    using that send_task_rejects [of s "Some t" "fault_signal ec" g] send_task_plain [of "fault_signal ec" s t g]
    by (cases "sendable s (Some t) (fault_signal ec)") (auto simp: sendable_def Let_def)
  then show ?thesis using assms by (auto simp: signal_send_tgkill_def split: if_splits option.splits)
qed

text \<open>The return from a handler, on a frame in user memory.\<close>

lemma sigreturn_frame:
  assumes "current_task s = Some c" "sched_task_is_user s (Some c)" "sg_in_handler (task_sig g s c)"
    "sched_task_space s (Some c) = Some sp"
    "signal_copy_from_user resolve um sp (f_sp f) SIGFRAME_SIZE = Some (sigframe_bytes r)" "fr_magic r = SIGFRAME_MAGIC"
  shows "signal_sigreturn_current resolve g s um f =
    (Inr (), set_sig g (signal_slot_task s (Some c))
       ((task_sig g s c)\<lparr>sg_blocked := signal_strip_unmaskable (fr_saved_mask r), sg_in_handler := False, sg_active_sig := 0\<rparr>),
     (fr_saved_frame r)\<lparr>f_x := (\<lambda>i. if i < 31 then f_x (fr_saved_frame r) i else 0)\<rparr>)"
  using assms by (simp add: signal_sigreturn_current_def Let_def sigframe_roundtrip)

lemma install_frame:
  assumes "signal_install_user_frame prepare resolve g s um f sig act = (Inr u, g', um', f')"
    "current_task s = Some c" "sched_task_space s (Some c) = Some sp"
  shows "f_sp f' = (f_sp f - of_nat SIGFRAME_SIZE) AND NOT 0xF"
    "signal_copy_to_user prepare resolve um sp (f_sp f')
       (sigframe_bytes \<lparr>fr_magic = SIGFRAME_MAGIC, fr_saved_mask = sg_blocked (task_sig g s c),
          fr_delivered_sig = ucast (word_of_int sig :: u32), fr_pad0 = 0, fr_saved_frame = f\<rparr>) = (True, um')"
  using assms by (auto simp: signal_install_user_frame_def Let_def split: if_splits option.splits prod.splits)

text \<open>The alarm of the timer tick, as the scheduler's model asks for it: it wakes nobody it should not.\<close>

lemma signal_alarm_ok: "alarm_ok (\<lambda>pid s. snd (snd (signal_send_pid g s pid SIGALRM)))"
  unfolding alarm_ok_def
proof (intro allI)
  fix pid s
  have "wakes s (snd (snd (signal_send_pid g s pid SIGALRM)))" using send_pid_kept [of g s pid SIGALRM] by (metis prod.collapse)
  then show "\<exists>ws. snd (snd (signal_send_pid g s pid SIGALRM)) = wake_all s ws \<and> (\<forall>w \<in> set ws. w < task_count s)"
    by (simp add: wakes_def)
qed

text \<open>A SIGCONT makes a BLOCKED task READY, whether or not a signal has stopped it.\<close>

lemma wakes_ready: "wakes s s' \<Longrightarrow> state_of s i = TCB_READY \<Longrightarrow> state_of s' i = TCB_READY"
  by (auto simp: wakes_def wake_all_state)

lemma cont_wakes_blocked:
  assumes u: "sched_task_is_user s (Some i)" "state_of s i = TCB_BLOCKED" and run: "signal_send_task g s (Some i) SIGCONT = (r, g', s')"
  shows "r = Inr () \<and> state_of s' i = TCB_READY"
proof -
  let ?s1 = "sched_unblock s (Some i)"
  have s1: "state_of ?s1 i = TCB_READY" using u(2) by simp
  have "wakes ?s1 (snd (snd (signal_send_task g2 ?s1 (signal_find_process_target ?s1 p) SIGCHLD)))" for g2 p
    using send_pid_kept [of g2 ?s1 p SIGCHLD, unfolded signal_send_pid_def] by (metis prod.collapse)
  from wakes_ready [OF this s1] s1 run send_task_cont [OF u(1), of g] u(2) show ?thesis
    by (auto simp: Let_def split: if_splits) (metis snd_conv)
qed

text \<open>A stop is reported once.\<close>

lemma stop_reported_once:
  "signal_task_consume_stop_report g s t = (Some sig, g') \<Longrightarrow> signal_task_consume_stop_report g' s t = (None, g')"
  by (auto simp: signal_task_consume_stop_report_def Let_def split: if_splits)

subsection \<open>A concrete task\<close>

text \<open>A running user task, and a flat memory in which every address is mapped to itself.\<close>

definition sig_boot :: signals where
  "sig_boot = \<lparr>signal_state = (\<lambda>_. zero_sigstate), signal_actions = (\<lambda>_ _. zero_sigaction)\<rparr>"

definition flat_mem :: "unit umem" where
  "flat_mem = \<lparr>um_pt = (), um_ram = (\<lambda>_. 0)\<rparr>"

abbreviation flat_prepare :: "unit mmu_prepare" where "flat_prepare \<equiv> \<lambda>um _ _ _. (True, um)"
abbreviation flat_resolve :: "unit mmu_resolve" where "flat_resolve \<equiv> \<lambda>_ _ va _. Some va"

lemma flat_contract: "mmu_contract (\<lambda>_. Some) (\<lambda>_. True) flat_prepare flat_resolve sp UNIV"
  by (simp add: mmu_contract_def)

lemma flat_copy_ok: "\<exists>um'. copy_to_loop flat_prepare flat_resolve um sp uva bs copied = (True, um')"
proof (induction "length bs - copied" arbitrary: copied um rule: less_induct)
  case less
  show ?case
  proof (cases "copied < length bs")
    case True
    then have "length bs - (copied + page_chunk (uva + of_nat copied) (length bs - copied)) < length bs - copied"
      using page_chunk_pos [of "length bs - copied" "uva + of_nat copied"] by simp
    from less [OF this] True show ?thesis by (subst copy_to_loop.simps) (simp add: Let_def)
  qed (simp add: copy_to_loop.simps)
qed

lemma flat_copy_never_fails [simp]: "copy_to_loop flat_prepare flat_resolve um sp uva bs copied \<noteq> (False, um')"
  using flat_copy_ok [of um sp uva bs copied] by auto

lemma user_task_demo:
  obtains s sp where "task_inv s" "current_task s = Some 0" "sched_task_is_user s (Some 0)" "sched_task_space s (Some 0) = Some sp"
proof -
  obtain s0 where s0: "task_inv s0" "current_task s0 = Some 0" by (rule sched_init_inv) (auto simp: task_inv_def)
  let ?s = "set_ctx s0 0 ((task_ctx s0 0)\<lparr>c_is_user := True\<rparr>)"
  have "task_inv ?s" by (rule task_inv_set_ctx [OF s0(1)]) simp
  moreover have "\<exists>sp. sched_task_space ?s (Some 0) = Some sp"
    by (auto simp: sched_task_space_def mmu_kernel_space_def split: option.splits)
  ultimately show ?thesis using that [of ?s] s0(2) by (auto simp: sched_task_is_user_def set_ctx_def)
qed

lemma sig_boot_masks: "sig_masks (set_sig sig_boot k (zero_sigstate\<lparr>sg_pending := p, sg_in_handler := h\<rparr>))"
  by (simp add: sig_masks_def sig_boot_def zero_sigstate_def zero_sigaction_def)

subsection \<open>Properties\<close>

text \<open>
  C30. From boot on, whatever tasks, senders, handlers and user memory do, the task invariant holds, no
  task has SIGKILL or SIGSTOP in its mask, no action adds them to a mask, and the actions of both are the
  default ones: neither signal can be blocked, caught or ignored.
\<close>

theorem signal_reachable_inv:
  "\<exists>s0. sched_init = Some s0 \<and>
    (\<forall>g s um. (sig_step prepare resolve)\<^sup>*\<^sup>* (signal_init g0, s0, um0) (g, s, um) \<longrightarrow> task_inv s \<and> sig_masks g)"
proof -
  obtain s0 where s0: "sched_init = Some s0" "sched_inv s0" "proc_inv s0" by (rule sched_init_inv)
  have "sig_inv (signal_init g0, s0, um0)"
    using s0 by (simp add: sig_inv_def task_inv_def sig_masks_def signal_init_def zero_sigstate_def zero_sigaction_def)
  from sigsys.run_inv [OF _ this] s0(1) show ?thesis by (auto simp: sig_inv_def)
qed

theorem signal_reachable_inv_witness:
  "\<exists>s0 g0. sched_init = Some s0 \<and> task_inv s0 \<and> sig_masks (signal_init g0)"
  using signal_reachable_inv [of "\<lambda>um _ _ _. (True, um)" "\<lambda>_ _ va _. Some va" sig_boot flat_mem] by blast

text \<open>
  C31. A SIGKILL that is pending when a task is about to return to user mode, and is not inside a handler, is
  never put off for good: delivery returns, and either the task exits, or the handler of a signal with a lower
  number is entered and the SIGKILL stays pending. If none with a lower number can be delivered, the task exits
  with code 137, whatever it has done to its mask and its actions.
\<close>

theorem signal_kill_delivered:
  assumes inv: "sig_inv (g, s, um)" and c: "current_task s = Some c" "sched_task_is_user s (Some c)"
    and st: "\<not> sg_in_handler (task_sig g s c)" "bit (sg_pending (task_sig g s c)) 8"
  shows "\<exists>d g' um' f'. signal_deliver_pending prepare resolve g s um f = Some (d, g', s, um', f') \<and>
    (\<exists>n \<le> 8. bit (signal_ready (task_sig g s c)) n \<and>
      (d = Deliver_exit (129 + int n) \<or>
       n < 8 \<and> d = Deliver_ret True \<and> sg_in_handler (task_sig g' s c) \<and> bit (sg_pending (task_sig g' s c)) 8))"
proof -
  obtain g1 where g1: "sig_discards s c g g1" "signal_deliver_loop prepare resolve c g s um f = deliver_final prepare resolve c g1 s um f"
    using deliver_loop_final by blast
  have m: "sig_masks g" using inv by (simp add: sig_inv_def)
  then have m1: "sig_masks g1" using g1(1) sig_masks_kept by (auto simp: sig_discards_def)
  have p: "bit (sg_pending (task_sig g1 s c)) 8" using g1(1) st(2) kill_not_discarded [OF m] by (auto simp: sig_discards_def)
  have r: "bit (signal_ready (task_sig g s c)) n" if "bit (signal_ready (task_sig g1 s c)) n" for n
    using that g1(1) by (auto simp: sig_discards_def sig_kept_def signal_ready_def bit_or_iff bit_and_iff bit_not_iff)
  have "signal_deliver_pending prepare resolve g s um f = deliver_final prepare resolve c g1 s um f"
    using c st(1) g1(2) by (simp add: signal_deliver_pending_def)
  with deliver_final_kill [OF m1 c(1) p, of prepare resolve um f] r show ?thesis by metis
qed

theorem signal_kill_delivered_witness:
  "\<exists>s g d r. task_inv s \<and> current_task s = Some 0 \<and> bit (sg_pending (task_sig g s 0)) 8 \<and>
     signal_deliver_pending flat_prepare flat_resolve g s flat_mem zero_frame = Some (d, r) \<and> d = Deliver_exit 137"
proof -
  obtain s sp where s: "task_inv s" "current_task s = Some 0" "sched_task_is_user s (Some 0)" "sched_task_space s (Some 0) = Some sp"
    by (rule user_task_demo)
  define g where "g = set_sig sig_boot (signal_slot_task s (Some 0)) (zero_sigstate\<lparr>sg_pending := signal_bit SIGKILL, sg_in_handler := False\<rparr>)"
  have t: "task_sig g s 0 = zero_sigstate\<lparr>sg_pending := signal_bit SIGKILL, sg_in_handler := False\<rparr>" by (simp add: g_def)
  have b: "bit (signal_bit SIGKILL) n \<longleftrightarrow> n = 8" for n
    using signal_bit_bit [of SIGKILL n] by (simp add: signal_valid_def SIGKILL_def ENLILOS_NSIG_def)
  have inv: "sig_inv (g, s, flat_mem)" using s(1) sig_boot_masks by (simp add: sig_inv_def g_def)
  have r: "n = 8" if "bit (signal_ready (task_sig g s 0)) n" for n
    using that by (simp add: t signal_ready_def zero_sigstate_def bit_or_iff bit_and_iff b) blast
  have st: "\<not> sg_in_handler (task_sig g s 0)" "bit (sg_pending (task_sig g s 0)) 8" by (simp_all add: t b zero_sigstate_def)
  obtain d g' um' f' n where d: "signal_deliver_pending flat_prepare flat_resolve g s flat_mem zero_frame = Some (d, g', s, um', f')"
    "bit (signal_ready (task_sig g s 0)) n" "d = Deliver_exit (129 + int n) \<or> n < 8"
    using signal_kill_delivered [OF inv s(2,3) st, of flat_prepare flat_resolve zero_frame] by blast
  have "n = 8" by (rule r [OF d(2)])
  with d(3) have "d = Deliver_exit 137" by simp
  with d(1) s(1,2) st(2) show ?thesis by blast
qed

text \<open>
  C32. A task inside a handler is out of reach of every signal until it returns from it: nothing is delivered,
  SIGKILL included, whoever sends it, and a fault in the handler goes back to the very instruction that
  faulted, in a state in which the same happens again.
\<close>

theorem signal_handler_shields:
  assumes c: "current_task s = Some c" "sched_task_is_user s (Some c)" and h: "sg_in_handler (task_sig g s c)"
  shows "signal_deliver_pending prepare resolve g s um f = Some (Deliver_ret False, g, s, um, f) \<and>
    (\<exists>g'. signal_handle_user_exception prepare resolve g s um f ec = Some (Some (Deliver_ret False), g', s, um, f) \<and>
       sg_in_handler (task_sig g' s c)) \<and>
    sg_in_handler (task_sig (fst (snd (signal_send_pid g s pid sig))) s c)"
proof -
  have d: "signal_deliver_pending prepare resolve g s um f = Some (Deliver_ret False, g, s, um, f)"
    if "sg_in_handler (task_sig g s c)" for g using that c by (simp add: signal_deliver_pending_def)
  obtain r g1 s1 where k: "signal_send_tgkill g s (tgid_of s (Some c)) (t_pid (task_pool s c)) (fault_signal ec) = (r, g1, s1)"
    by (metis prod_cases3)
  have h1: "sg_in_handler (task_sig g1 s c)" using h send_tgkill_kept [OF k] sig_kept_in_handler by blast
  have "signal_handle_user_exception prepare resolve g s um f ec = Some (Some (Deliver_ret False), g1, s, um, f)"
    using c k send_tgkill_fault [OF k] d [OF h1] by (simp add: signal_handle_user_exception_def)
  moreover have "sg_in_handler (task_sig (fst (snd (signal_send_pid g s pid sig))) s c)"
    using h send_pid_kept [of g s pid sig] sig_kept_in_handler by (metis prod.collapse)
  ultimately show ?thesis using d [OF h] h1 by blast
qed

theorem signal_handler_shields_witness:
  "\<exists>s g. current_task s = Some 0 \<and> sg_in_handler (task_sig g s 0) \<and> sg_pending (task_sig g s 0) = signal_bit SIGKILL \<and>
     signal_deliver_pending flat_prepare flat_resolve g s flat_mem zero_frame = Some (Deliver_ret False, g, s, flat_mem, zero_frame)"
proof -
  obtain s sp where s: "task_inv s" "current_task s = Some 0" "sched_task_is_user s (Some 0)" "sched_task_space s (Some 0) = Some sp"
    by (rule user_task_demo)
  define g where "g = set_sig sig_boot (signal_slot_task s (Some 0)) (zero_sigstate\<lparr>sg_pending := signal_bit SIGKILL, sg_in_handler := True\<rparr>)"
  have h: "sg_in_handler (task_sig g s 0)" "sg_pending (task_sig g s 0) = signal_bit SIGKILL" by (simp_all add: g_def)
  with signal_handler_shields [OF s(2,3) h(1), where prepare = flat_prepare and resolve = flat_resolve and um = flat_mem and f = zero_frame and ec = "0x24" and pid = 1 and sig = 9] s(2) show ?thesis by blast
qed

text \<open>
  C33. Running a handler and returning from it is invisible to the interrupted code: once the frame has been
  installed, if the handler leaves the frame on the stack as it is and returns with the stack pointer it was given,
  \<^verbatim>\<open>sigreturn\<close> succeeds and restores all registers, the program counter and PSTATE, and the mask of before the
  handler (less SIGKILL and SIGSTOP), whatever else the handler did to memory and to its own mask.
\<close>

theorem signal_handler_roundtrip:
  assumes mmu: "mmu_contract tr good prepare resolve sp W" "good (um_pt um)"
    and c: "current_task s = Some c" "sched_task_space s (Some c) = Some sp"
    and ins: "signal_install_user_frame prepare resolve g s um f sig act = (Inr u, g1, um1, f1)"
    and W: "\<And>j. j < SIGFRAME_SIZE \<Longrightarrow> f_sp f1 + of_nat j \<in> W"
    and later: "good (um_pt um2)" "\<And>j. j < SIGFRAME_SIZE \<Longrightarrow> ubyte tr um2 (f_sp f1 + of_nat j) = ubyte tr um1 (f_sp f1 + of_nat j)"
    and ret: "current_task s2 = Some c" "sched_task_is_user s2 (Some c)" "sched_task_space s2 (Some c) = Some sp"
      "sg_in_handler (task_sig g2 s2 c)" "f_sp f2 = f_sp f1"
  shows "\<exists>f'. signal_sigreturn_current resolve g2 s2 um2 f2 =
      (Inr (), set_sig g2 (signal_slot_task s2 (Some c))
        ((task_sig g2 s2 c)\<lparr>sg_blocked := signal_strip_unmaskable (sg_blocked (task_sig g s c)), sg_in_handler := False, sg_active_sig := 0\<rparr>), f') \<and>
    (\<forall>i < 31. f_x f' i = f_x f i) \<and> f_sp f' = f_sp f \<and> f_pc f' = f_pc f \<and> f_spsr f' = f_spsr f"
proof -
  define r where "r = \<lparr>fr_magic = SIGFRAME_MAGIC, fr_saved_mask = sg_blocked (task_sig g s c),
      fr_delivered_sig = ucast (word_of_int sig :: u32), fr_pad0 = 0, fr_saved_frame = f\<rparr>"
  note l = sigframe_bytes_length [of r]
  have w: "copy_to_loop prepare resolve um sp (f_sp f1) (sigframe_bytes r) 0 = (True, um1)"
    using install_frame(2) [OF ins c] by (simp add: r_def signal_copy_to_user_def)
  have b: "ubyte tr um1 (f_sp f1 + of_nat j) = Some (sigframe_bytes r ! j)" if "j < SIGFRAME_SIZE" for j
    using copy_to_writes [OF mmu _ _ w] W that unfolding l by (simp add: SIGFRAME_SIZE_def)
  have "copy_from_loop resolve um2 sp (f_sp f1) (length (sigframe_bytes r)) 0 = Some (drop 0 (sigframe_bytes r))"
    by (rule copy_from_reads [OF mmu(1) later(1)]) (use later(2) b l in simp)
  then have rd: "signal_copy_from_user resolve um2 sp (f_sp f2) SIGFRAME_SIZE = Some (sigframe_bytes r)"
    using ret(5) l by (simp add: signal_copy_from_user_def)
  show ?thesis using sigreturn_frame [OF ret(1,2,4,3) rd] by (simp add: r_def)
qed

theorem signal_handler_roundtrip_witness:
  "\<exists>s g (f :: exception_frame) um f2 g' f'. f_pc f = 0x7FC0001234 \<and> f_sp f2 \<noteq> f_sp f \<and>
     signal_sigreturn_current flat_resolve g s um f2 = (Inr (), g', f') \<and> f_pc f' = f_pc f \<and> f_sp f' = f_sp f"
proof -
  obtain s sp where s: "task_inv s" "current_task s = Some 0" "sched_task_is_user s (Some 0)" "sched_task_space s (Some 0) = Some sp"
    by (rule user_task_demo)
  define f where "f = zero_frame\<lparr>f_sp := 0x7FFF000000, f_pc := 0x7FC0001234\<rparr>"
  define act where "act = \<lparr>sa_handler = 0x7FC0005678, sa_mask = 0, sa_flags = 0\<rparr>"
  obtain r g1 um1 f1 where ins: "signal_install_user_frame flat_prepare flat_resolve sig_boot s flat_mem f 10 act = (r, g1, um1, f1)"
    by (metis prod_cases4)
  have "r = Inr ()"
    using ins s(2,4)
    by (auto simp: signal_install_user_frame_def act_def f_def SIG_DFL_def SIG_IGN_def SIGFRAME_SIZE_def MMU_USER_BASE_def
        MMU_USER_LIMIT_def signal_copy_to_user_def Let_def split: prod.splits if_splits)
  note ins = ins [unfolded this]
  note sp = install_frame(1) [OF ins s(2,4)]
  have "\<exists>f'. signal_sigreturn_current flat_resolve g1 s um1 f1 = (Inr (), set_sig g1 (signal_slot_task s (Some 0))
        ((task_sig g1 s 0)\<lparr>sg_blocked := signal_strip_unmaskable (sg_blocked (task_sig sig_boot s 0)), sg_in_handler := False, sg_active_sig := 0\<rparr>), f') \<and>
      (\<forall>i < 31. f_x f' i = f_x f i) \<and> f_sp f' = f_sp f \<and> f_pc f' = f_pc f \<and> f_spsr f' = f_spsr f"
    by (rule signal_handler_roundtrip [OF flat_contract _ s(2,4) ins])
      (use s install_pending(1) [OF ins s(2)] in auto)
  then obtain g' f' where x: "signal_sigreturn_current flat_resolve g1 s um1 f1 = (Inr (), g', f')" "f_sp f' = f_sp f" "f_pc f' = f_pc f"
    by blast
  have y: "f_sp f1 \<noteq> f_sp f" "f_pc f = 0x7FC0001234" unfolding sp by (simp_all add: f_def SIGFRAME_SIZE_def)
  show ?thesis
    by (rule exI [of _ s], rule exI [of _ g1], rule exI [of _ f], rule exI [of _ um1], rule exI [of _ f1]) (use x y in blast)
qed

text \<open>
  C34. \<^verbatim>\<open>sigreturn\<close> believes the frame it finds in user memory: inside a handler, a task that puts the magic
  number and any register values at its stack pointer gets them, the saved PSTATE included, which holds the
  exception level the CPU returns to.
\<close>

theorem signal_sigreturn_trusts_frame:
  assumes c: "current_task s = Some c" "sched_task_is_user s (Some c)" "sched_task_space s (Some c) = Some sp"
    and h: "sg_in_handler (task_sig g s c)"
    and mem: "signal_copy_from_user resolve um sp (f_sp f) SIGFRAME_SIZE = Some (sigframe_bytes r)" "fr_magic r = SIGFRAME_MAGIC"
  shows "\<exists>g' f'. signal_sigreturn_current resolve g s um f = (Inr (), g', f') \<and>
    f_spsr f' = f_spsr (fr_saved_frame r) \<and> f_pc f' = f_pc (fr_saved_frame r) \<and> f_sp f' = f_sp (fr_saved_frame r) \<and>
    (\<forall>i < 31. f_x f' i = f_x (fr_saved_frame r) i)"
  using sigreturn_frame [OF c(1,2) h c(3) mem] by simp

theorem signal_sigreturn_trusts_frame_witness:
  "\<exists>s g um f g' f'. current_task s = Some 0 \<and> f_spsr f = 0 \<and>
     signal_sigreturn_current flat_resolve g s um f = (Inr (), g', f') \<and> f_spsr f' = 0x3C5"
proof -
  obtain s sp where s: "task_inv s" "current_task s = Some 0" "sched_task_is_user s (Some 0)" "sched_task_space s (Some 0) = Some sp"
    by (rule user_task_demo)
  define g where "g = set_sig sig_boot (signal_slot_task s (Some 0)) (zero_sigstate\<lparr>sg_pending := 0, sg_in_handler := True\<rparr>)"
  define r where "r = \<lparr>fr_magic = SIGFRAME_MAGIC, fr_saved_mask = 0, fr_delivered_sig = 0, fr_pad0 = 0,
      fr_saved_frame = zero_frame\<lparr>f_spsr := 0x3C5\<rparr>\<rparr>"
  define um where "um = flat_mem\<lparr>um_ram := ram_write (\<lambda>_. 0) 0 (sigframe_bytes r)\<rparr>"
  have "copy_from_loop flat_resolve um sp 0 (length (sigframe_bytes r)) 0 = Some (drop 0 (sigframe_bytes r))"
    by (rule copy_from_reads [OF flat_contract])
      (simp_all add: um_def ubyte_def ram_write_def flat_mem_def sigframe_bytes_length SIGFRAME_SIZE_def unat_of_nat)
  then have mem: "signal_copy_from_user flat_resolve um sp (f_sp zero_frame) SIGFRAME_SIZE = Some (sigframe_bytes r)"
    by (simp add: signal_copy_from_user_def sigframe_bytes_length zero_frame_def)
  have "sg_in_handler (task_sig g s 0)" "fr_magic r = SIGFRAME_MAGIC" by (simp_all add: g_def r_def)
  from signal_sigreturn_trusts_frame [OF s(2,3,4) this(1) mem this(2)]
  obtain g' f' where "signal_sigreturn_current flat_resolve g s um zero_frame = (Inr (), g', f')" "f_spsr f' = 0x3C5"
    by (auto simp: r_def)
  moreover have "f_spsr zero_frame = 0" by (simp add: zero_frame_def)
  ultimately show ?thesis using s(2) by blast
qed

end
