(* ===== verification/Line_Discipline.thy ===== *)
theory Line_Discipline
  imports Prelude
begin

text \<open>
  What the console and the pseudo terminals share: the byte ring with one free slot, the \<^verbatim>\<open>termios\<close>
  settings of \<^verbatim>\<open>include/termios.h\<close>, and the specification of a line discipline. The ring is the
  locale \<open>byte_ring\<close>, for any capacity, and represents a list. A line discipline is specified by \<open>ed_step\<close>, an editor over two lists: the
  line being typed and the bytes a reader can have. The locale \<open>line_discipline\<close> holds what follows for every implementation of it.
\<close>

subsection \<open>Byte rings\<close>

record ring =
  rb_buf :: "nat \<Rightarrow> u8"
  rb_head :: nat
  rb_tail :: nat

definition rb_empty :: "ring \<Rightarrow> bool" where
  "rb_empty r \<longleftrightarrow> rb_head r = rb_tail r"

definition rb_full :: "nat \<Rightarrow> ring \<Rightarrow> bool" where
  "rb_full cap r \<longleftrightarrow> (rb_head r + 1) mod cap = rb_tail r"

definition rb_push :: "nat \<Rightarrow> ring \<Rightarrow> u8 \<Rightarrow> bool \<times> ring" where
  "rb_push cap r c =
     (if rb_full cap r then (False, r)
      else (True, r\<lparr>rb_buf := (rb_buf r)(rb_head r := c), rb_head := (rb_head r + 1) mod cap\<rparr>))"

definition rb_pop :: "nat \<Rightarrow> ring \<Rightarrow> (u8 \<times> ring) option" where
  "rb_pop cap r =
     (if rb_empty r then None
      else Some (rb_buf r (rb_tail r), r\<lparr>rb_tail := (rb_tail r + 1) mod cap\<rparr>))"

text \<open>\<^verbatim>\<open>for (...) if (!push(buf[i])) break;\<close>\<close>

fun rb_push_all :: "nat \<Rightarrow> ring \<Rightarrow> u8 list \<Rightarrow> ring" where
  "rb_push_all cap r [] = r"
| "rb_push_all cap r (c # cs) =
     (case rb_push cap r c of (False, _) \<Rightarrow> r | (True, r') \<Rightarrow> rb_push_all cap r' cs)"

text \<open>A read: at most \<open>n\<close> bytes, up to and including the first newline if \<open>canon\<close>.\<close>

fun rb_drain :: "nat \<Rightarrow> bool \<Rightarrow> nat \<Rightarrow> ring \<Rightarrow> u8 list \<times> ring" where
  "rb_drain cap canon 0 r = ([], r)"
| "rb_drain cap canon (Suc n) r =
     (case rb_pop cap r of
        None \<Rightarrow> ([], r)
      | Some (c, r') \<Rightarrow>
          if canon \<and> c = 10 then ([c], r')
          else (let (cs, r'') = rb_drain cap canon n r' in (c # cs, r'')))"

fun rb_chunk :: "bool \<Rightarrow> nat \<Rightarrow> u8 list \<Rightarrow> u8 list" where
  "rb_chunk canon n [] = []"
| "rb_chunk canon 0 cs = []"
| "rb_chunk canon (Suc n) (c # cs) = (if canon \<and> c = 10 then [c] else c # rb_chunk canon n cs)"

text \<open>The bytes in a ring, oldest first.\<close>

definition rb_list :: "nat \<Rightarrow> ring \<Rightarrow> u8 list" where
  "rb_list cap r = map (\<lambda>k. rb_buf r ((rb_tail r + k) mod cap)) [0..<(rb_head r + cap - rb_tail r) mod cap]"

definition rb_ok :: "nat \<Rightarrow> ring \<Rightarrow> bool" where
  "rb_ok cap r \<longleftrightarrow> rb_head r < cap \<and> rb_tail r < cap"

definition rb_reset :: "ring \<Rightarrow> ring" where
  "rb_reset r = r\<lparr>rb_head := 0, rb_tail := 0\<rparr>"

lemma chunk_0 [simp]: "rb_chunk canon 0 cs = []"
  by (cases cs) simp_all

lemma chunk_prefix: "cs = rb_chunk canon n cs @ drop (length (rb_chunk canon n cs)) cs"
  by (induction canon n cs rule: rb_chunk.induct) auto

lemma chunk_Nil: "rb_chunk canon n cs = [] \<longleftrightarrow> n = 0 \<or> cs = []"
  by (cases n; cases cs) auto

lemma chunk_line: "10 \<notin> set cs \<Longrightarrow> length cs < n \<Longrightarrow> rb_chunk True n (cs @ 10 # ds) = cs @ [10]"
  by (induction cs arbitrary: n) (case_tac n; auto)+

text \<open>
  The contract of the ring: a list with room for one byte less than the capacity.
\<close>

locale byte_ring =
  fixes cap :: nat
  assumes cap: "1 < cap"
begin

lemma mod2: "x < 2 * cap \<Longrightarrow> x mod cap = (if x < cap then x else x - cap)"
  by (simp add: le_mod_geq)

lemma ring_len: "rb_ok cap r \<Longrightarrow> length (rb_list cap r) = (if rb_tail r \<le> rb_head r then rb_head r - rb_tail r else rb_head r + cap - rb_tail r)"
  using mod2 [of "rb_head r + cap - rb_tail r"] by (auto simp: rb_list_def rb_ok_def)

lemma empty_iff: "rb_ok cap r \<Longrightarrow> rb_empty r \<longleftrightarrow> rb_list cap r = []"
  using ring_len [of r] by (auto simp: rb_empty_def rb_ok_def length_0_conv [symmetric] simp del: length_0_conv split: if_splits)

lemma full_iff: "rb_ok cap r \<Longrightarrow> rb_full cap r \<longleftrightarrow> length (rb_list cap r) = cap - 1"
  using cap mod2 [of "rb_head r + 1"] by (auto simp: ring_len rb_full_def rb_ok_def split: if_splits)

lemma len_less: "rb_ok cap r \<Longrightarrow> length (rb_list cap r) < cap"
  by (auto simp: ring_len rb_ok_def)

lemma ring_nth: "k < length (rb_list cap r) \<Longrightarrow> rb_list cap r ! k = rb_buf r ((rb_tail r + k) mod cap)"
  by (simp add: rb_list_def)

lemma push_ok:
  assumes ok: "rb_ok cap r" and room: "length (rb_list cap r) < cap - 1"
  obtains r' where "rb_push cap r c = (True, r')" "rb_ok cap r'" "rb_list cap r' = rb_list cap r @ [c]"
proof -
  let ?n = "length (rb_list cap r)" and ?r = "r\<lparr>rb_buf := (rb_buf r)(rb_head r := c), rb_head := (rb_head r + 1) mod cap\<rparr>"
  have nf: "\<not> rb_full cap r" using full_iff [OF ok] room by simp
  have ok': "rb_ok cap ?r" using ok cap by (simp add: rb_ok_def)
  have n: "(rb_head r + cap - rb_tail r) mod cap = ?n" by (simp add: rb_list_def)
  have n': "(rb_head ?r + cap - rb_tail ?r) mod cap = Suc ?n"
  proof -
    have "length (rb_list cap ?r) = Suc ?n"
      using ok nf cap mod2 [of "rb_head r + 1"] unfolding ring_len [OF ok'] ring_len [OF ok]
      by (auto simp: rb_ok_def rb_full_def split: if_splits)
    then show ?thesis by (simp add: rb_list_def)
  qed
  have nc: "?n < cap" by (rule len_less [OF ok])
  have h: "(rb_tail r + ?n) mod cap = rb_head r"
    using ok nc mod2 [of "rb_tail r + ?n"] unfolding ring_len [OF ok] by (auto simp: rb_ok_def split: if_splits)
  have old: "(rb_tail r + k) mod cap \<noteq> rb_head r" if "k < ?n" for k
    using that ok nc mod2 [of "rb_tail r + k"] unfolding ring_len [OF ok] by (auto simp: rb_ok_def split: if_splits)
  have "rb_list cap ?r = rb_list cap r @ [c]"
  proof (rule nth_equalityI)
    show "length (rb_list cap ?r) = length (rb_list cap r @ [c])" using n' by (simp add: rb_list_def)
    show "rb_list cap ?r ! k = (rb_list cap r @ [c]) ! k" if "k < length (rb_list cap ?r)" for k
    proof -
      have k: "k < Suc ?n" using that n' by (simp add: rb_list_def)
      have "rb_list cap ?r ! k = ((rb_buf r)(rb_head r := c)) ((rb_tail r + k) mod cap)" using ring_nth [OF that] by simp
      also have "\<dots> = (rb_list cap r @ [c]) ! k"
      proof (cases "k = ?n")
        case True then show ?thesis using h by simp
      next
        case False
        then have "k < ?n" using k by simp
        then show ?thesis using old [of k] ring_nth [of k r] by (simp add: nth_append)
      qed
      finally show ?thesis .
    qed
  qed
  moreover have "rb_push cap r c = (True, ?r)" using nf by (simp add: rb_push_def)
  ultimately show ?thesis using that ok' by blast
qed

lemma push_full: "rb_ok cap r \<Longrightarrow> length (rb_list cap r) = cap - 1 \<Longrightarrow> rb_push cap r c = (False, r)"
  by (simp add: rb_push_def full_iff)

lemma push_list:
  assumes "rb_ok cap r"
  shows "rb_ok cap (snd (rb_push cap r c))" "rb_list cap (snd (rb_push cap r c)) = take (cap - 1) (rb_list cap r @ [c])"
    "fst (rb_push cap r c) \<longleftrightarrow> length (rb_list cap r) < cap - 1"
proof -
  have l: "length (rb_list cap r) < cap" by (rule len_less [OF assms])
  have "rb_ok cap (snd (rb_push cap r c)) \<and> rb_list cap (snd (rb_push cap r c)) = take (cap - 1) (rb_list cap r @ [c]) \<and>
      (fst (rb_push cap r c) \<longleftrightarrow> length (rb_list cap r) < cap - 1)"
  proof (cases "length (rb_list cap r) < cap - 1")
    case True
    then obtain r' where "rb_push cap r c = (True, r')" "rb_ok cap r'" "rb_list cap r' = rb_list cap r @ [c]" by (rule push_ok [OF assms])
    then show ?thesis using True by simp
  next
    case False
    then show ?thesis using push_full [OF assms, of c] assms l by simp
  qed
  then show "rb_ok cap (snd (rb_push cap r c))" "rb_list cap (snd (rb_push cap r c)) = take (cap - 1) (rb_list cap r @ [c])"
    "fst (rb_push cap r c) \<longleftrightarrow> length (rb_list cap r) < cap - 1" by blast+
qed

lemma pop_Nil: "rb_ok cap r \<Longrightarrow> rb_list cap r = [] \<Longrightarrow> rb_pop cap r = None"
  by (simp add: rb_pop_def empty_iff)

lemma pop_Cons:
  assumes ok: "rb_ok cap r" and l: "rb_list cap r = c # cs"
  obtains r' where "rb_pop cap r = Some (c, r')" "rb_ok cap r'" "rb_list cap r' = cs"
proof -
  let ?r = "r\<lparr>rb_tail := (rb_tail r + 1) mod cap\<rparr>"
  have n: "(rb_head r + cap - rb_tail r) mod cap = Suc (length cs)" using arg_cong [OF l, of length] by (simp add: rb_list_def)
  have ok': "rb_ok cap ?r" using ok cap by (simp add: rb_ok_def)
  have n': "(rb_head ?r + cap - rb_tail ?r) mod cap = length cs"
  proof -
    have "length (rb_list cap ?r) = length cs"
      using ok cap mod2 [of "rb_tail r + 1"] arg_cong [OF l, of length] unfolding ring_len [OF ok'] ring_len [OF ok]
      by (auto simp: rb_ok_def split: if_splits)
    then show ?thesis by (simp add: rb_list_def)
  qed
  have c: "rb_buf r (rb_tail r) = c" using l n ok by (simp add: rb_list_def rb_ok_def upt_conv_Cons del: upt_Suc)
  have "rb_list cap ?r = cs"
  proof (rule nth_equalityI)
    show "length (rb_list cap ?r) = length cs" using n' by (simp add: rb_list_def)
    show "rb_list cap ?r ! k = cs ! k" if "k < length (rb_list cap ?r)" for k
    proof -
      have k: "k < length cs" using that n' by (simp add: rb_list_def)
      have "((rb_tail r + 1) mod cap + k) mod cap = (rb_tail r + Suc k) mod cap" by (simp add: mod_add_left_eq)
      then have "rb_list cap ?r ! k = rb_list cap r ! Suc k" using k n n' by (simp add: rb_list_def del: upt_Suc)
      then show ?thesis using l by simp
    qed
  qed
  moreover have "rb_pop cap r = Some (c, ?r)" using empty_iff [OF ok] l c by (simp add: rb_pop_def)
  ultimately show ?thesis using that ok' by blast
qed

lemma push_all_list:
  "rb_ok cap r \<Longrightarrow> rb_ok cap (rb_push_all cap r cs) \<and> rb_list cap (rb_push_all cap r cs) = take (cap - 1) (rb_list cap r @ cs)"
proof (induction cs arbitrary: r)
  case Nil then show ?case using len_less [OF Nil] by simp
next
  case (Cons c cs)
  show ?case
  proof (cases "length (rb_list cap r) < cap - 1")
    case True
    then obtain r' where "rb_push cap r c = (True, r')" "rb_ok cap r'" "rb_list cap r' = rb_list cap r @ [c]" by (rule push_ok [OF Cons.prems])
    then show ?thesis using Cons.IH [of r'] by simp
  next
    case False
    with len_less [OF Cons.prems] have "length (rb_list cap r) = cap - 1" by simp
    then show ?thesis using push_full [OF Cons.prems] Cons.prems by simp
  qed
qed

lemma reset_list: "rb_ok cap (rb_reset r)" "rb_list cap (rb_reset r) = []"
  using cap by (simp_all add: rb_ok_def rb_list_def rb_reset_def)

lemma drain_list:
  "rb_ok cap r \<Longrightarrow> rb_drain cap canon n r = (cs, r') \<Longrightarrow>
   rb_ok cap r' \<and> cs = rb_chunk canon n (rb_list cap r) \<and> rb_list cap r' = drop (length cs) (rb_list cap r)"
proof (induction cap\<equiv>cap canon n r arbitrary: cs r' rule: rb_drain.induct)
  case (2 canon n r)
  show ?case
  proof (cases "rb_list cap r")
    case Nil
    then show ?thesis using 2 pop_Nil [of r] by simp
  next
    case (Cons c ds)
    obtain q where q: "rb_pop cap r = Some (c, q)" "rb_ok cap q" "rb_list cap q = ds"
      by (rule pop_Cons [OF "2.prems"(1) Cons])
    show ?thesis
    proof (cases "canon \<and> c = 10")
      case True then show ?thesis using q Cons "2.prems" by auto
    next
      case False
      obtain es q' where d: "rb_drain cap canon n q = (es, q')" by (cases "rb_drain cap canon n q")
      from "2.hyps" [OF q(1) refl False q(2) d] show ?thesis using q Cons "2.prems"(2) False d by auto
    qed
  qed
qed simp

end

subsection \<open>Terminal settings\<close>

definition ICRNL :: u32 where "ICRNL = 1"
definition IXON :: u32 where "IXON = 2"
definition OPOST :: u32 where "OPOST = 1"
definition ONLCR :: u32 where "ONLCR = 2"
definition CS8 :: u32 where "CS8 = 1"
definition CREAD :: u32 where "CREAD = 2"
definition ECHO :: u32 where "ECHO = 1"
definition ECHOE :: u32 where "ECHOE = 2"
definition ICANON :: u32 where "ICANON = 4"
definition ISIG :: u32 where "ISIG = 8"
definition IEXTEN :: u32 where "IEXTEN = 16"
definition VINTR :: nat where "VINTR = 0"
definition VEOF :: nat where "VEOF = 1"
definition VERASE :: nat where "VERASE = 2"
definition VKILL :: nat where "VKILL = 3"
definition VMIN :: nat where "VMIN = 4"
definition VTIME :: nat where "VTIME = 5"
definition VSUSP :: nat where "VSUSP = 6"
definition TCSANOW :: int where "TCSANOW = 0"
definition TCSADRAIN :: int where "TCSADRAIN = 1"
definition TCSAFLUSH :: int where "TCSAFLUSH = 2"
definition TTY_EDIT_MAX :: nat where "TTY_EDIT_MAX = 256"
definition TTY_READY_MAX :: nat where "TTY_READY_MAX = 512"
definition TTY_CTRL_C :: u8 where "TTY_CTRL_C = 3"
definition TTY_CTRL_Z :: u8 where "TTY_CTRL_Z = 0x1A"
definition TTY_BS :: u8 where "TTY_BS = 8"
definition TTY_DEL :: u8 where "TTY_DEL = 0x7F"

text \<open>The characters \<^verbatim>\<open>\n\<close>, \<^verbatim>\<open>\r\<close> and \<^verbatim>\<open>\t\<close>.\<close>

abbreviation NL :: u8 where "NL \<equiv> 10"
abbreviation CR :: u8 where "CR \<equiv> 13"
abbreviation TAB :: u8 where "TAB \<equiv> 9"

lemmas tty_consts [kernel_defs] =
  ICRNL_def IXON_def OPOST_def ONLCR_def CS8_def CREAD_def ECHO_def ECHOE_def ICANON_def ISIG_def IEXTEN_def
  VINTR_def VEOF_def VERASE_def VKILL_def VMIN_def VTIME_def VSUSP_def
  TTY_EDIT_MAX_def TTY_READY_MAX_def TTY_CTRL_C_def TTY_CTRL_Z_def TTY_BS_def TTY_DEL_def

record termios =
  c_iflag :: u32
  c_oflag :: u32
  c_cflag :: u32
  c_lflag :: u32
  c_cc :: "nat \<Rightarrow> u8"

definition tty_termios_defaults :: termios where
  "tty_termios_defaults =
     \<lparr>c_iflag = ICRNL OR IXON, c_oflag = OPOST OR ONLCR, c_cflag = CS8 OR CREAD,
      c_lflag = ECHO OR ECHOE OR ICANON OR ISIG OR IEXTEN,
      c_cc = (\<lambda>_. 0)(VINTR := TTY_CTRL_C, VEOF := 4, VERASE := TTY_DEL, VKILL := 0x15, VMIN := 1, VTIME := 0, VSUSP := TTY_CTRL_Z)\<rparr>"

text \<open>The defaults that \<^verbatim>\<open>tcsetattr\<close> puts in place of zero characters.\<close>

definition termios_fixup :: "termios \<Rightarrow> termios" where
  "termios_fixup t =
     (let cc = c_cc t;
          cc = (if cc VERASE = 0 then cc(VERASE := TTY_DEL) else cc);
          cc = (if cc VINTR = 0 then cc(VINTR := TTY_CTRL_C) else cc);
          cc = (if cc VSUSP = 0 then cc(VSUSP := TTY_CTRL_Z) else cc);
          cc = (if cc VMIN = 0 then cc(VMIN := 1) else cc)
      in t\<lparr>c_cc := cc\<rparr>)"

subsection \<open>The specification of a line discipline\<close>

text \<open>The line being typed, the bytes a reader can have, and whether an end of file was typed.\<close>

record editor =
  ed_line :: "u8 list"
  ed_ready :: "u8 list"
  ed_eof :: bool

definition ed_key :: "termios \<Rightarrow> u8 \<Rightarrow> u8" where
  "ed_key tio c = (if c_iflag tio AND ICRNL \<noteq> 0 \<and> c = CR then NL else c)"

definition ed_signal :: "termios \<Rightarrow> u8 \<Rightarrow> bool" where
  "ed_signal tio c \<longleftrightarrow> c_lflag tio AND ISIG \<noteq> 0 \<and> (c = c_cc tio VINTR \<or> c = c_cc tio VSUSP)"

definition ed_canonical :: "termios \<Rightarrow> bool" where
  "ed_canonical tio \<longleftrightarrow> c_lflag tio AND ICANON \<noteq> 0"

definition ed_erase :: "termios \<Rightarrow> u8 \<Rightarrow> bool" where
  "ed_erase tio c \<longleftrightarrow> c = c_cc tio VERASE \<or> c = 8"

definition ed_printable :: "u8 \<Rightarrow> bool" where
  "ed_printable c \<longleftrightarrow> c = TAB \<or> c \<ge> 32 \<and> c < 127"

definition ed_commit :: "nat \<Rightarrow> editor \<Rightarrow> u8 list \<Rightarrow> editor" where
  "ed_commit cap e cs = e\<lparr>ed_ready := take cap (ed_ready e @ ed_line e @ cs), ed_line := []\<rparr>"

text \<open>One character, for lines of at most \<open>emax\<close> and at most \<open>cap\<close> bytes waiting for a reader.\<close>

definition ed_step :: "nat \<Rightarrow> nat \<Rightarrow> termios \<Rightarrow> editor \<Rightarrow> u8 \<Rightarrow> editor" where
  "ed_step emax cap tio e c0 =
     (let c = ed_key tio c0
      in if ed_signal tio c then e\<lparr>ed_line := []\<rparr>
         else if \<not> ed_canonical tio then e\<lparr>ed_ready := take cap (ed_ready e @ [c])\<rparr>
         else if ed_erase tio c then e\<lparr>ed_line := butlast (ed_line e)\<rparr>
         else if c = c_cc tio VKILL then e\<lparr>ed_line := []\<rparr>
         else if c = c_cc tio VEOF then (if ed_line e = [] then e\<lparr>ed_eof := True\<rparr> else ed_commit cap e [])
         else if c = NL then ed_commit cap e [NL]
         else if ed_printable c then e\<lparr>ed_line := take emax (ed_line e @ [c])\<rparr>
         else e)"

text \<open>Characters without a function in the given settings, and settings in which a newline ends a line.\<close>

definition ed_ordinary :: "termios \<Rightarrow> u8 \<Rightarrow> bool" where
  "ed_ordinary tio c \<longleftrightarrow> \<not> ed_signal tio c \<and> \<not> ed_erase tio c \<and> c \<noteq> c_cc tio VKILL \<and> c \<noteq> c_cc tio VEOF"

definition ed_text :: "termios \<Rightarrow> u8 \<Rightarrow> bool" where
  "ed_text tio c \<longleftrightarrow> ed_ordinary tio c \<and> ed_printable c"

lemma printable_not: "ed_printable c \<Longrightarrow> c \<noteq> NL \<and> c \<noteq> CR \<and> c \<noteq> 8"
  by (auto simp: ed_printable_def)

lemma step_text:
  "ed_canonical tio \<Longrightarrow> ed_text tio c \<Longrightarrow> ed_step emax cap tio e c = e\<lparr>ed_line := take emax (ed_line e @ [c])\<rparr>"
  using printable_not [of c] by (auto simp: ed_step_def ed_key_def ed_text_def ed_ordinary_def)

lemma step_newline:
  "ed_canonical tio \<Longrightarrow> ed_ordinary tio NL \<Longrightarrow> ed_step emax cap tio e NL = ed_commit cap e [NL]"
  by (simp add: ed_step_def ed_key_def ed_ordinary_def)

lemma steps_text:
  "ed_canonical tio \<Longrightarrow> list_all (ed_text tio) cs \<Longrightarrow> length (ed_line e) \<le> emax \<Longrightarrow>
   foldl (ed_step emax cap tio) e cs = e\<lparr>ed_line := take emax (ed_line e @ cs)\<rparr>"
proof (induction cs arbitrary: e)
  case (Cons c cs)
  then show ?case by (cases "emax - length (ed_line e)") (simp_all add: step_text diff_Suc)
qed simp

text \<open>
  What every implementation of the specification has. \<open>view\<close> is the editor a state stands for, \<open>settings\<close> its
  \<^verbatim>\<open>termios\<close>.
\<close>

locale line_discipline =
  fixes ok :: "'st \<Rightarrow> bool" and view :: "'st \<Rightarrow> editor" and settings :: "'st \<Rightarrow> termios"
    and step :: "'st \<Rightarrow> u8 \<Rightarrow> 'st" and emax cap :: nat
  assumes step_ok: "ok x \<Longrightarrow> ok (step x c)"
    and step_settings: "ok x \<Longrightarrow> settings (step x c) = settings x"
    and step_view: "ok x \<Longrightarrow> view (step x c) = ed_step emax cap (settings x) (view x) c"
    and bounds: "ok x \<Longrightarrow> length (ed_line (view x)) \<le> emax \<and> length (ed_ready (view x)) \<le> cap"
begin

lemma steps_view:
  "ok x \<Longrightarrow> ok (foldl step x cs) \<and> settings (foldl step x cs) = settings x \<and>
     view (foldl step x cs) = foldl (ed_step emax cap (settings x)) (view x) cs"
  by (induction cs arbitrary: x) (auto simp: step_ok step_settings step_view)

lemma line_typed:
  assumes ok: "ok x" and tio: "ed_canonical (settings x)" "ed_ordinary (settings x) NL" "list_all (ed_text (settings x)) cs"
    and empty: "ed_line (view x) = []" and n: "length cs \<le> emax" "length (ed_ready (view x)) + length cs < cap"
  shows "view (foldl step x (cs @ [NL])) = (view x)\<lparr>ed_ready := ed_ready (view x) @ cs @ [NL]\<rparr>"
  using steps_view [OF ok, of "cs @ [NL]"] steps_text [OF tio(1,3), of "view x" emax cap] n empty
  by (simp add: step_newline [OF tio(1,2)] ed_commit_def)

text \<open>A text character followed by the erase character leaves nothing behind.\<close>

lemma erase_undoes:
  assumes ok: "ok x" and tio: "ed_canonical (settings x)" "ed_text (settings x) c" "ed_erase (settings x) b" "ed_key (settings x) b = b"
      "\<not> ed_signal (settings x) b" and room: "length (ed_line (view x)) < emax"
  shows "view (foldl step x [c, b]) = view x"
proof -
  have "view (foldl step x [c, b]) = ed_step emax cap (settings x) ((view x)\<lparr>ed_line := ed_line (view x) @ [c]\<rparr>) b"
    using steps_view [OF ok, of "[c, b]"] room by (simp add: step_text [OF tio(1,2)])
  also have "\<dots> = view x" using tio by (simp add: ed_step_def)
  finally show ?thesis .
qed

text \<open>No character changes what a reader can already have.\<close>

lemma ready_grows:
  assumes "ok x" shows "\<exists>cs. ed_ready (view (step x c)) = ed_ready (view x) @ cs"
proof -
  have "ed_ready (view x) @ take (cap - length (ed_ready (view x))) ds = take cap (ed_ready (view x) @ ds)" for ds
    using bounds [OF assms] by simp
  then show ?thesis using assms by (auto simp: step_view ed_step_def ed_commit_def Let_def)
qed

text \<open>A line that does not fit is cut and loses its newline.\<close>

lemma full_line:
  assumes "ok x" "ed_canonical (settings x)" "ed_ordinary (settings x) NL" "length (ed_ready (view x)) + length (ed_line (view x)) \<ge> cap"
  shows "ed_ready (view (step x NL)) = take cap (ed_ready (view x) @ ed_line (view x))" "ed_line (view (step x NL)) = []"
  using assms by (simp_all add: step_view step_newline ed_commit_def)

end

end
