(* ===== verification/Tty.thy ===== *)
theory Tty
  imports Line_Discipline Signal_Props
begin

text \<open>
  The console, \<^verbatim>\<open>kernel/tty.c\<close>: line editing, echo, the signals of control characters, reading and job
  control. What the keyboard has
  ready is an argument (\<^verbatim>\<open>keyboard_getc\<close> until it returns a negative value), the bytes sent to the serial line and to the
  text console are a list in the state. A read is one turn of its loop; \<open>Tty_again\<close> is the turn that yields.
\<close>

subsection \<open>The console\<close>

definition SIGINT :: int where "SIGINT = 2"

datatype tty_byte = Term u8 | Uart u8

record tty =
  tty_edit_buf :: "nat \<Rightarrow> u8"
  tty_edit_len :: nat
  tty_ready :: ring
  tty_eof_pending :: bool
  tty_foreground_pgid :: u32
  tty_session_sid :: u32
  tty_termios :: termios
  tty_out :: "tty_byte list"

text \<open>The statics before \<^verbatim>\<open>tty_init\<close>.\<close>

definition tty_bss :: tty where
  "tty_bss = \<lparr>tty_edit_buf = (\<lambda>_. 0), tty_edit_len = 0, tty_ready = \<lparr>rb_buf = (\<lambda>_. 0), rb_head = 0, rb_tail = 0\<rparr>, tty_eof_pending = False,
     tty_foreground_pgid = 0, tty_session_sid = 0,
     tty_termios = \<lparr>c_iflag = 0, c_oflag = 0, c_cflag = 0, c_lflag = 0, c_cc = (\<lambda>_. 0)\<rparr>, tty_out = []\<rparr>"

definition tty_put :: "tty \<Rightarrow> tty_byte list \<Rightarrow> tty" where
  "tty_put t bs = t\<lparr>tty_out := tty_out t @ bs\<rparr>"

definition tty_ready_empty :: "tty \<Rightarrow> bool" where
  "tty_ready_empty t = rb_empty (tty_ready t)"

definition tty_ready_push :: "tty \<Rightarrow> u8 \<Rightarrow> bool \<times> tty" where
  "tty_ready_push t c = (let (ok, r) = rb_push TTY_READY_MAX (tty_ready t) c in (ok, t\<lparr>tty_ready := r\<rparr>))"

definition tty_echo_char :: "tty \<Rightarrow> u8 \<Rightarrow> tty" where
  "tty_echo_char t c =
     (if c = NL
      then tty_put t (Term NL #
             (if c_oflag (tty_termios t) AND OPOST \<noteq> 0 \<and> c_oflag (tty_termios t) AND ONLCR \<noteq> 0 then [Uart CR] else []) @ [Uart NL])
      else tty_put t [Term c, Uart c])"

definition tty_echo_backspace :: "tty \<Rightarrow> tty" where
  "tty_echo_backspace t = tty_put t [Term 8, Uart 8, Uart 32, Uart 8]"

definition tty_current_pgid :: "sched \<Rightarrow> u32" where
  "tty_current_pgid s = (case current_task s of Some c \<Rightarrow> pgid_of s (Some c) | None \<Rightarrow> 0)"

definition tty_current_sid :: "sched \<Rightarrow> u32" where
  "tty_current_sid s = (case current_task s of Some c \<Rightarrow> sid_of s (Some c) | None \<Rightarrow> 0)"

definition tty_adopt_current_session :: "tty \<Rightarrow> sched \<Rightarrow> tty" where
  "tty_adopt_current_session t s =
     (let sid = tty_current_sid s; pgid = tty_current_pgid s
      in if sid = 0 \<or> pgid = 0 then t
         else if tty_session_sid t = 0 \<or> \<not> sched_task_has_session s (tty_session_sid t)
         then t\<lparr>tty_session_sid := sid, tty_foreground_pgid := pgid\<rparr>
         else if tty_session_sid t = sid \<and> \<not> sched_task_has_pgrp s (tty_session_sid t) (tty_foreground_pgid t)
         then t\<lparr>tty_foreground_pgid := pgid\<rparr> else t)"

definition tty_is_background_current :: "tty \<Rightarrow> sched \<Rightarrow> bool" where
  "tty_is_background_current t s =
     (let sid = tty_current_sid s; pgid = tty_current_pgid s
      in \<not> (\<not> sched_task_is_user s (current_task s)
            \<or> tty_session_sid t = 0 \<or> sid = 0
            \<or> sid \<noteq> tty_session_sid t
            \<or> pgid = 0 \<or> pgid = tty_foreground_pgid t
            \<or> \<not> sched_task_has_pgrp s (tty_session_sid t) (tty_foreground_pgid t)))"

definition tty_signal_foreground :: "tty \<Rightarrow> signals \<Rightarrow> sched \<Rightarrow> int \<Rightarrow> signals \<times> sched" where
  "tty_signal_foreground t g s sig =
     (if tty_foreground_pgid t \<noteq> 0 then snd (signal_send_pgrp g s (tty_foreground_pgid t) sig) else (g, s))"

definition tty_signal_current_group :: "signals \<Rightarrow> sched \<Rightarrow> int \<Rightarrow> signals \<times> sched" where
  "tty_signal_current_group g s sig =
     (if tty_current_pgid s \<noteq> 0 then snd (signal_send_pgrp g s (tty_current_pgid s) sig) else (g, s))"

definition tty_commit_partial_line :: "tty \<Rightarrow> tty" where
  "tty_commit_partial_line t =
     t\<lparr>tty_ready := rb_push_all TTY_READY_MAX (tty_ready t) (map (tty_edit_buf t) [0..<tty_edit_len t]), tty_edit_len := 0\<rparr>"

definition tty_commit_line :: "tty \<Rightarrow> tty" where
  "tty_commit_line t =
     (let t1 = t\<lparr>tty_ready := rb_push_all TTY_READY_MAX (tty_ready t) (map (tty_edit_buf t) [0..<tty_edit_len t])\<rparr>
      in (snd (tty_ready_push t1 NL))\<lparr>tty_edit_len := 0\<rparr>)"

definition tty_is_canonical :: "tty \<Rightarrow> bool" where
  "tty_is_canonical t \<longleftrightarrow> c_lflag (tty_termios t) AND ICANON \<noteq> 0"

definition tty_is_echo_enabled :: "tty \<Rightarrow> bool" where
  "tty_is_echo_enabled t \<longleftrightarrow> c_lflag (tty_termios t) AND ECHO \<noteq> 0"

definition tty_erase :: "tty \<Rightarrow> tty" where
  "tty_erase t =
     (let t1 = t\<lparr>tty_edit_len := tty_edit_len t - 1\<rparr>
      in if c_lflag (tty_termios t) AND ECHOE \<noteq> 0 then tty_echo_backspace t1 else t1)"

fun tty_kill_loop :: "nat \<Rightarrow> tty \<Rightarrow> tty" where
  "tty_kill_loop 0 t = t"
| "tty_kill_loop (Suc n) t = tty_kill_loop n (tty_erase t)"

text \<open>The characters that raise a signal: the edited line is dropped, the group is signalled, \<open>mark\<close> is echoed.\<close>

definition tty_signal_char :: "tty \<Rightarrow> signals \<Rightarrow> sched \<Rightarrow> int \<Rightarrow> u8 \<Rightarrow> tty \<times> signals \<times> sched" where
  "tty_signal_char t g s sig mark =
     (let t1 = t\<lparr>tty_edit_len := 0\<rparr>; gs = tty_signal_foreground t1 g s sig
      in (if tty_is_echo_enabled t1 then tty_echo_char (tty_put t1 [Uart 94, Uart mark]) NL else t1, fst gs, snd gs))"

definition tty_canonical_char :: "tty \<Rightarrow> u8 \<Rightarrow> tty" where
  "tty_canonical_char t c =
     (let cc = c_cc (tty_termios t)
      in if c = cc VERASE \<or> c = TTY_BS then (if tty_edit_len t > 0 then tty_erase t else t)
         else if c = cc VKILL then tty_kill_loop (tty_edit_len t) t
         else if c = cc VEOF
         then (if tty_edit_len t > 0 then tty_commit_partial_line t else t\<lparr>tty_eof_pending := True\<rparr>)
         else if c = NL then tty_commit_line (if tty_is_echo_enabled t then tty_echo_char t NL else t)
         else if c = TAB \<or> c \<ge> 32 \<and> c < 127
         then (if tty_edit_len t < TTY_EDIT_MAX
               then (let t1 = t\<lparr>tty_edit_buf := (tty_edit_buf t)(tty_edit_len t := c), tty_edit_len := tty_edit_len t + 1\<rparr>
                     in if tty_is_echo_enabled t1 then tty_echo_char t1 c else t1)
               else t)
         else t)"

definition tty_raw_char :: "tty \<Rightarrow> u8 \<Rightarrow> tty" where
  "tty_raw_char t c =
     (let c = (if c = CR \<and> c_iflag (tty_termios t) AND ICRNL \<noteq> 0 then NL else c);
          (ok, t1) = tty_ready_push t c
      in if ok \<and> tty_is_echo_enabled t1
         then (if c = TTY_DEL \<or> c = TTY_BS then tty_echo_backspace t1 else tty_echo_char t1 c)
         else t1)"

definition tty_handle_input_char :: "tty \<times> signals \<times> sched \<Rightarrow> u8 \<Rightarrow> tty \<times> signals \<times> sched" where
  "tty_handle_input_char = (\<lambda>(t, g, s) c.
     (let c = (if c_iflag (tty_termios t) AND ICRNL \<noteq> 0 \<and> c = CR then NL else c)
      in if c_lflag (tty_termios t) AND ISIG \<noteq> 0 \<and> c = c_cc (tty_termios t) VINTR then tty_signal_char t g s SIGINT 67
         else if c_lflag (tty_termios t) AND ISIG \<noteq> 0 \<and> c = c_cc (tty_termios t) VSUSP then tty_signal_char t g s SIGTSTP 90
         else if tty_is_canonical t then (tty_canonical_char t c, g, s)
         else (tty_raw_char t c, g, s)))"

definition tty_pump_input :: "u8 list \<Rightarrow> tty \<times> signals \<times> sched \<Rightarrow> tty \<times> signals \<times> sched" where
  "tty_pump_input keys x = foldl tty_handle_input_char x keys"

definition tty_has_input :: "u8 list \<Rightarrow> tty \<times> signals \<times> sched \<Rightarrow> bool \<times> tty \<times> signals \<times> sched" where
  "tty_has_input keys x =
     (let (t, g, s) = tty_pump_input keys x
      in (if tty_eof_pending t \<and> tty_ready_empty t then True else \<not> tty_ready_empty t, t, g, s))"

definition tty_init :: "tty \<Rightarrow> tty" where
  "tty_init t = t\<lparr>tty_edit_len := 0, tty_ready := rb_reset (tty_ready t), tty_eof_pending := False,
     tty_foreground_pgid := 0, tty_session_sid := 0, tty_termios := tty_termios_defaults\<rparr>"

subsection \<open>Reading\<close>

definition tty_drain :: "nat \<Rightarrow> tty \<Rightarrow> u8 list \<times> tty" where
  "tty_drain cnt t = (let (cs, r) = rb_drain TTY_READY_MAX (tty_is_canonical t) cnt (tty_ready t) in (cs, t\<lparr>tty_ready := r\<rparr>))"

datatype tty_read = Tty_err errno | Tty_got "u8 list" | Tty_again

text \<open>One turn of the loop of \<^verbatim>\<open>tty_read\<close>, with the keys that arrived; \<open>Tty_got []\<close> is the end of file.\<close>

definition tty_read_turn :: "u8 list \<Rightarrow> nat \<Rightarrow> tty \<times> signals \<times> sched \<Rightarrow> (tty_read \<times> tty \<times> signals \<times> sched) option" where
  "tty_read_turn keys cnt = (\<lambda>(t, g, s).
     (if cnt = 0 then Some (Tty_err EFAULT, t, g, s)
      else
        (let t = tty_adopt_current_session t s
         in if tty_is_background_current t s
            then (let (g, s) = tty_signal_current_group g s SIGTTIN in Some (Tty_err EINTR, t, g, s))
            else
              (let (t, g, s) = tty_pump_input keys (t, g, s)
               in if signal_has_unblocked_pending g s (current_task s) then Some (Tty_err EINTR, t, g, s)
                  else if tty_eof_pending t \<and> tty_ready_empty t
                  then Some (Tty_got [], t\<lparr>tty_eof_pending := False\<rparr>, g, s)
                  else if \<not> tty_ready_empty t
                  then (let (cs, t) = tty_drain cnt t in Some (if cs = [] then Tty_err EAGAIN else Tty_got cs, t, g, s))
                  else map_option (\<lambda>s. (Tty_again, t, g, s)) (sched_yield s)))))"

subsection \<open>Control\<close>

definition tty_check_output_current :: "tty \<Rightarrow> signals \<Rightarrow> sched \<Rightarrow> (errno + unit) \<times> signals \<times> sched" where
  "tty_check_output_current t g s =
     (if tty_is_background_current t s then (let (g, s) = tty_signal_current_group g s SIGTTOU in (Inl EINTR, g, s))
      else (Inr (), g, s))"

definition tty_tcsetpgrp_current :: "tty \<Rightarrow> sched \<Rightarrow> u32 \<Rightarrow> (errno + unit) \<times> tty" where
  "tty_tcsetpgrp_current t s pgid =
     (if \<not> sched_task_is_user s (current_task s) then (Inl EPERM, t)
      else
        (let sid = tty_current_sid s
         in if sid = 0 \<or> pgid = 0 then (Inl EINVAL, t)
            else
              (let t = (if tty_session_sid t = 0 \<or> \<not> sched_task_has_session s (tty_session_sid t)
                        then t\<lparr>tty_session_sid := sid\<rparr> else t)
               in if sid \<noteq> tty_session_sid t then (Inl EPERM, t)
                  else if \<not> sched_task_has_pgrp s sid pgid then (Inl EPERM, t)
                  else (Inr (), t\<lparr>tty_foreground_pgid := pgid\<rparr>))))"

definition tty_tcgetpgrp :: "tty \<Rightarrow> sched \<Rightarrow> u32 \<times> tty" where
  "tty_tcgetpgrp t s = (let t = tty_adopt_current_session t s in (tty_foreground_pgid t, t))"

definition tty_tcgetattr :: "tty \<Rightarrow> termios" where
  "tty_tcgetattr t = tty_termios t"

definition tty_tcsetattr :: "tty \<Rightarrow> int \<Rightarrow> termios option \<Rightarrow> (errno + unit) \<times> tty" where
  "tty_tcsetattr t action inp =
     (case inp of
        None \<Rightarrow> (Inl EFAULT, t)
      | Some i \<Rightarrow>
          if action \<noteq> TCSANOW \<and> action \<noteq> TCSADRAIN \<and> action \<noteq> TCSAFLUSH then (Inl EINVAL, t)
          else
            (let t = t\<lparr>tty_termios := termios_fixup i\<rparr>
             in (Inr (),
                 if action = TCSAFLUSH
                 then t\<lparr>tty_ready := rb_reset (tty_ready t), tty_edit_len := 0, tty_eof_pending := False\<rparr>
                 else t)))"

interpretation tty_ring: byte_ring TTY_READY_MAX
  by unfold_locales (simp add: TTY_READY_MAX_def)

subsection \<open>The console is a line discipline\<close>

definition tty_ok :: "tty \<Rightarrow> bool" where
  "tty_ok t \<longleftrightarrow> rb_ok TTY_READY_MAX (tty_ready t) \<and> tty_edit_len t \<le> TTY_EDIT_MAX"

definition tty_view :: "tty \<Rightarrow> editor" where
  "tty_view t = \<lparr>ed_line = map (tty_edit_buf t) [0..<tty_edit_len t],
     ed_ready = rb_list TTY_READY_MAX (tty_ready t), ed_eof = tty_eof_pending t\<rparr>"

lemma put_view [simp]: "tty_view (tty_put t bs) = tty_view t" "tty_ok (tty_put t bs) = tty_ok t" "tty_termios (tty_put t bs) = tty_termios t"
  by (simp_all add: tty_put_def tty_view_def tty_ok_def)

lemma echo_view [simp]:
  "tty_view (tty_echo_char t c) = tty_view t" "tty_ok (tty_echo_char t c) = tty_ok t" "tty_termios (tty_echo_char t c) = tty_termios t"
  "tty_view (tty_echo_backspace t) = tty_view t" "tty_ok (tty_echo_backspace t) = tty_ok t" "tty_termios (tty_echo_backspace t) = tty_termios t"
  by (simp_all add: tty_echo_char_def tty_echo_backspace_def)

lemma push_view:
  assumes "tty_ok t"
  shows "tty_ok (snd (tty_ready_push t c))" "tty_termios (snd (tty_ready_push t c)) = tty_termios t"
    "tty_view (snd (tty_ready_push t c)) = (tty_view t)\<lparr>ed_ready := take (TTY_READY_MAX - 1) (ed_ready (tty_view t) @ [c])\<rparr>"
  using assms tty_ring.push_list [of "tty_ready t" c]
  by (auto simp: tty_ready_push_def tty_view_def tty_ok_def split: prod.splits)

lemma partial_view:
  assumes "tty_ok t"
  shows "tty_ok (tty_commit_partial_line t)" "tty_termios (tty_commit_partial_line t) = tty_termios t"
    "tty_view (tty_commit_partial_line t) = ed_commit (TTY_READY_MAX - 1) (tty_view t) []"
  using assms tty_ring.push_all_list [of "tty_ready t"] by (auto simp: tty_commit_partial_line_def tty_view_def tty_ok_def ed_commit_def)

lemma commit_view:
  assumes "tty_ok t"
  shows "tty_ok (tty_commit_line t)" "tty_termios (tty_commit_line t) = tty_termios t"
    "tty_view (tty_commit_line t) = ed_commit (TTY_READY_MAX - 1) (tty_view t) [NL]"
proof -
  let ?cs = "map (tty_edit_buf t) [0..<tty_edit_len t]" and ?n = "TTY_READY_MAX - 1"
  let ?r = "rb_push_all TTY_READY_MAX (tty_ready t) ?cs"
  have r: "rb_ok TTY_READY_MAX ?r" "rb_list TTY_READY_MAX ?r = take ?n (rb_list TTY_READY_MAX (tty_ready t) @ ?cs)"
    using tty_ring.push_all_list [of "tty_ready t" ?cs] assms by (auto simp: tty_ok_def)
  have "take n (take n xs @ [x]) = take n (xs @ [x])" for n xs and x :: u8 by (cases "n \<le> length xs") simp_all
  from this [of ?n "rb_list TTY_READY_MAX (tty_ready t) @ ?cs"]
  have "rb_list TTY_READY_MAX (snd (rb_push TTY_READY_MAX ?r NL)) = take ?n (rb_list TTY_READY_MAX (tty_ready t) @ ?cs @ [NL])"
    unfolding tty_ring.push_list(2) [OF r(1)] r(2) append_assoc .
  with tty_ring.push_list(1) [OF r(1), of NL]
  show "tty_ok (tty_commit_line t)" "tty_termios (tty_commit_line t) = tty_termios t"
    "tty_view (tty_commit_line t) = ed_commit ?n (tty_view t) [NL]"
    by (simp_all add: tty_commit_line_def tty_ready_push_def tty_ok_def tty_view_def ed_commit_def case_prod_beta del: take_append)
qed

lemma erase_view:
  assumes "tty_ok t"
  shows "tty_ok (tty_erase t)" "tty_termios (tty_erase t) = tty_termios t" "tty_edit_len (tty_erase t) = tty_edit_len t - 1"
    "tty_view (tty_erase t) = (tty_view t)\<lparr>ed_line := butlast (ed_line (tty_view t))\<rparr>"
proof -
  have b: "butlast (map f [0..<n]) = map f [0..<n - 1]" for f :: "nat \<Rightarrow> u8" and n by (cases n) simp_all
  have v: "tty_view (t\<lparr>tty_edit_len := tty_edit_len t - 1\<rparr>) = (tty_view t)\<lparr>ed_line := butlast (ed_line (tty_view t))\<rparr>"
    "tty_ok (t\<lparr>tty_edit_len := tty_edit_len t - 1\<rparr>)"
    using assms by (auto simp: tty_view_def b tty_ok_def)
  then show "tty_ok (tty_erase t)" "tty_termios (tty_erase t) = tty_termios t" "tty_edit_len (tty_erase t) = tty_edit_len t - 1"
    "tty_view (tty_erase t) = (tty_view t)\<lparr>ed_line := butlast (ed_line (tty_view t))\<rparr>"
    by (simp_all add: tty_erase_def Let_def) (simp add: tty_echo_backspace_def tty_put_def)
qed

lemma kill_view:
  "tty_ok t \<Longrightarrow> n = tty_edit_len t \<Longrightarrow>
     tty_ok (tty_kill_loop n t) \<and> tty_termios (tty_kill_loop n t) = tty_termios t \<and> tty_view (tty_kill_loop n t) = (tty_view t)\<lparr>ed_line := []\<rparr>"
proof (induction n arbitrary: t)
  case 0 then show ?case by (simp add: tty_view_def)
next
  case (Suc n)
  note e = erase_view [OF Suc.prems(1)]
  from Suc.prems(2) e(3) have "n = tty_edit_len (tty_erase t)" by simp
  from Suc.IH [OF e(1) this] e(2,4) show ?case by simp
qed

lemma char_view:
  assumes "tty_ok t" "tty_is_canonical t" "\<not> ed_signal (tty_termios t) c" "ed_key (tty_termios t) c = c"
  shows "tty_ok (tty_canonical_char t c) \<and> tty_termios (tty_canonical_char t c) = tty_termios t \<and>
    tty_view (tty_canonical_char t c) = ed_step TTY_EDIT_MAX (TTY_READY_MAX - 1) (tty_termios t) (tty_view t) c"
proof -
  let ?t = "t\<lparr>tty_edit_buf := (tty_edit_buf t)(tty_edit_len t := c), tty_edit_len := tty_edit_len t + 1\<rparr>"
  have l: "length (ed_line (tty_view t)) = tty_edit_len t" by (simp add: tty_view_def)
  have e: "ed_line (tty_view t) = [] \<longleftrightarrow> tty_edit_len t = 0" by (simp add: tty_view_def)
  have put: "tty_edit_len t < TTY_EDIT_MAX \<Longrightarrow> tty_ok ?t" "tty_view ?t = (tty_view t)\<lparr>ed_line := ed_line (tty_view t) @ [c]\<rparr>"
    using assms(1) by (simp_all add: tty_ok_def tty_view_def)
  have full: "\<not> tty_edit_len t < TTY_EDIT_MAX \<Longrightarrow> take TTY_EDIT_MAX (ed_line (tty_view t) @ [c]) = ed_line (tty_view t)"
    using assms(1) l by (simp add: tty_ok_def)
  have nil: "tty_edit_len t = 0 \<Longrightarrow> butlast (ed_line (tty_view t)) = ed_line (tty_view t)" using e by simp
  have eof: "tty_ok (t\<lparr>tty_eof_pending := True\<rparr>)" "tty_view (t\<lparr>tty_eof_pending := True\<rparr>) = (tty_view t)\<lparr>ed_eof := True\<rparr>"
    using assms(1) by (simp_all add: tty_ok_def tty_view_def)
  have can: "ed_canonical (tty_termios t)" using assms(2) by (simp add: tty_is_canonical_def ed_canonical_def)
  have st: "ed_step m n (tty_termios t) x c =
      (if ed_erase (tty_termios t) c then x\<lparr>ed_line := butlast (ed_line x)\<rparr>
       else if c = c_cc (tty_termios t) VKILL then x\<lparr>ed_line := []\<rparr>
       else if c = c_cc (tty_termios t) VEOF then (if ed_line x = [] then x\<lparr>ed_eof := True\<rparr> else ed_commit n x [])
       else if c = NL then ed_commit n x [NL]
       else if ed_printable c then x\<lparr>ed_line := take m (ed_line x @ [c])\<rparr> else x)" for m n x
    using assms(3,4) can by (simp add: ed_step_def)
  consider "ed_erase (tty_termios t) c" | "\<not> ed_erase (tty_termios t) c" "c = c_cc (tty_termios t) VKILL"
    | "ed_ordinary (tty_termios t) c" "c = NL" | "\<not> ed_erase (tty_termios t) c" "c \<noteq> c_cc (tty_termios t) VKILL" "c = c_cc (tty_termios t) VEOF"
    | "ed_ordinary (tty_termios t) c" "c \<noteq> NL" using assms(3) unfolding ed_ordinary_def by blast
  then show ?thesis
  proof cases
    case 1 then show ?thesis using assms(1) nil erase_view [OF assms(1)] unfolding st tty_canonical_char_def Let_def by (simp add: ed_erase_def TTY_BS_def)
  next
    case 2 then show ?thesis using kill_view [OF assms(1) refl] unfolding st tty_canonical_char_def Let_def by (simp add: ed_erase_def TTY_BS_def)
  next
    case 3
    have "tty_ok (if b then tty_echo_char t NL else t)" for b using assms(1) by simp
    from commit_view [OF this] 3 show ?thesis unfolding st tty_canonical_char_def Let_def by (simp add: ed_ordinary_def ed_erase_def TTY_BS_def)
  next
    case 4
    then show ?thesis using partial_view [OF assms(1)] eof e unfolding st tty_canonical_char_def Let_def by (simp add: ed_erase_def TTY_BS_def)
  next
    case 5
    then have "tty_canonical_char t c =
        (if ed_printable c \<and> tty_edit_len t < TTY_EDIT_MAX then if tty_is_echo_enabled ?t then tty_echo_char ?t c else ?t else t)"
      by (simp add: tty_canonical_char_def ed_ordinary_def ed_erase_def TTY_BS_def ed_printable_def Let_def)
    moreover have "ed_step TTY_EDIT_MAX (TTY_READY_MAX - 1) (tty_termios t) (tty_view t) c =
        (if ed_printable c then (tty_view t)\<lparr>ed_line := take TTY_EDIT_MAX (ed_line (tty_view t) @ [c])\<rparr> else tty_view t)"
      using 5 by (simp add: st ed_ordinary_def)
    moreover have "tty_edit_len t < TTY_EDIT_MAX \<Longrightarrow> take TTY_EDIT_MAX (ed_line (tty_view t) @ [c]) = ed_line (tty_view t) @ [c]" using l by simp
    ultimately show ?thesis using put full assms(1) by (cases "tty_edit_len t < TTY_EDIT_MAX") simp_all
  qed
qed

lemma raw_view:
  assumes "tty_ok t"
  shows "tty_ok (tty_raw_char t c) \<and> tty_termios (tty_raw_char t c) = tty_termios t \<and>
    tty_view (tty_raw_char t c) = (tty_view t)\<lparr>ed_ready := take (TTY_READY_MAX - 1) (ed_ready (tty_view t) @ [ed_key (tty_termios t) c])\<rparr>"
proof -
  obtain b t1 where p: "tty_ready_push t (ed_key (tty_termios t) c) = (b, t1)" by (cases "tty_ready_push t (ed_key (tty_termios t) c)")
  have "(if c = CR \<and> c_iflag (tty_termios t) AND ICRNL \<noteq> 0 then NL else c) = ed_key (tty_termios t) c" by (auto simp: ed_key_def)
  with push_view [OF assms, of "ed_key (tty_termios t) c"] p show ?thesis by (simp add: tty_raw_char_def Let_def)
qed

lemma signal_view:
  assumes "tty_signal_char t g s sig mark = (t', g', s')"
  shows "tty_ok t \<Longrightarrow> tty_ok t'" "tty_termios t' = tty_termios t" "tty_view t' = (tty_view t)\<lparr>ed_line := []\<rparr>"
  using assms by (auto simp: tty_signal_char_def Let_def) (auto simp: tty_ok_def tty_view_def)

lemma handle_view:
  assumes "tty_ok t" "tty_handle_input_char (t, g, s) c = (t', g', s')"
  shows "tty_ok t' \<and> tty_termios t' = tty_termios t \<and>
    tty_view t' = ed_step TTY_EDIT_MAX (TTY_READY_MAX - 1) (tty_termios t) (tty_view t) c"
proof -
  let ?c = "ed_key (tty_termios t) c"
  have k: "ed_key (tty_termios t) ?c = ?c" by (simp add: ed_key_def)
  have st: "ed_step n m (tty_termios t) e c = ed_step n m (tty_termios t) e ?c" for n m e by (simp add: ed_step_def k)
  have run: "(t', g', s') =
      (if ed_signal (tty_termios t) ?c
       then if ?c = c_cc (tty_termios t) VINTR then tty_signal_char t g s SIGINT 67 else tty_signal_char t g s SIGTSTP 90
       else if tty_is_canonical t then (tty_canonical_char t ?c, g, s) else (tty_raw_char t ?c, g, s))"
    using assms(2) by (auto simp: tty_handle_input_char_def ed_signal_def ed_key_def [symmetric] Let_def)
  show ?thesis
  proof (cases "ed_signal (tty_termios t) ?c")
    case True
    then obtain sig m where "tty_signal_char t g s sig m = (t', g', s')" using run by (metis (full_types))
    from signal_view [OF this] assms(1) True show ?thesis by (simp add: ed_step_def)
  next
    case False
    then show ?thesis unfolding st
      using run char_view [OF assms(1) _ False k] raw_view [OF assms(1), of ?c] k
      by (cases "tty_is_canonical t") (auto simp: ed_step_def ed_canonical_def tty_is_canonical_def)
  qed
qed

abbreviation tty_settings :: "tty \<times> signals \<times> sched \<Rightarrow> termios" where "tty_settings x \<equiv> tty_termios (fst x)"

interpretation tty_ld: line_discipline "\<lambda>x. tty_ok (fst x)" "\<lambda>x. tty_view (fst x)" tty_settings tty_handle_input_char TTY_EDIT_MAX "TTY_READY_MAX - 1"
proof
  fix x :: "tty \<times> signals \<times> sched" and c
  obtain t g s where x: "x = (t, g, s)" by (metis prod_cases3)
  obtain t' g' s' where h: "tty_handle_input_char x c = (t', g', s')" by (metis prod_cases3)
  show "tty_ok (fst (tty_handle_input_char x c))" "tty_settings (tty_handle_input_char x c) = tty_settings x"
    "tty_view (fst (tty_handle_input_char x c)) = ed_step TTY_EDIT_MAX (TTY_READY_MAX - 1) (tty_settings x) (tty_view (fst x)) c"
    if "tty_ok (fst x)" using handle_view [of t g s c] that h x by auto
  show "length (ed_line (tty_view (fst x))) \<le> TTY_EDIT_MAX \<and> length (ed_ready (tty_view (fst x))) \<le> TTY_READY_MAX - 1" if "tty_ok (fst x)"
    using that tty_ring.len_less [of "tty_ready (fst x)"] by (auto simp: tty_ok_def tty_view_def)
qed

subsection \<open>Signals to a group\<close>

lemma deliverable_iff:
  "has_deliverable_loop acts ready \<longleftrightarrow> (\<exists>n < 64. bit ready n \<and> \<not> signal_ignored (acts n) (1 + int n))"
proof (induction acts ready rule: has_deliverable_loop.induct)
  case (1 acts ready)
  let ?n = "ctzll ready" and ?r = "ready AND NOT (signal_bit (1 + int (ctzll ready)))"
  show ?case
  proof (cases "ready = 0 \<or> \<not> signal_ignored (acts ?n) (1 + int ?n)")
    case True
    then show ?thesis using ctzll_props(1,2) [of ready] by (subst has_deliverable_loop.simps) auto
  next
    case False
    then have bit: "bit ?r j \<longleftrightarrow> bit ready j \<and> j \<noteq> ?n" if "j < 64" for j
      using that signal_bit_ctz [of ready] by (auto simp: bit_simps)
    have "has_deliverable_loop acts ready = has_deliverable_loop acts ?r"
      using False by (subst has_deliverable_loop.simps) (simp add: Let_def)
    also have "\<dots> \<longleftrightarrow> (\<exists>n < 64. bit ?r n \<and> \<not> signal_ignored (acts n) (1 + int n))" using 1 [OF _ refl refl] False by simp
    finally show ?thesis using bit False by auto
  qed
qed

definition in_pgrp :: "sched \<Rightarrow> u32 \<Rightarrow> nat \<Rightarrow> bool" where
  "in_pgrp s pgid i \<longleftrightarrow> i < task_count s \<and> sched_task_is_user s (Some i) \<and> pgid_of s (Some i) = pgid \<and> state_of s i \<noteq> TCB_ZOMBIE"

definition signal_sends :: "int \<Rightarrow> bool" where
  "signal_sends sig \<longleftrightarrow> signal_valid sig \<and> sig \<noteq> SIGCONT \<and> sig \<noteq> SIGKILL"

lemma pgrp_turn_plain:
  assumes "signal_sends sig"
  shows "\<exists>d'. send_pgrp_turn pgid sig (d, g, s) i =
    (if in_pgrp s pgid i
     then (d', set_sig g (signal_slot_task s (Some i)) ((task_sig g s i)\<lparr>sg_pending := sg_pending (task_sig g s i) OR signal_bit sig\<rparr>), s)
     else (d', g, s))"
  using assms by (auto simp: send_pgrp_turn_def in_pgrp_def sched_task_at_def signal_sends_def send_task_plain Let_def)

text \<open>No signal but SIGCONT and SIGKILL changes the tasks; every member of the group has it pending afterwards.\<close>

lemma pgrp_loop_plain:
  assumes "signal_sends sig"
  shows "foldl (send_pgrp_turn pgid sig) (d, g, s) is = (d', g', s') \<Longrightarrow>
    s' = s \<and> (\<forall>k n. bit (sg_pending (signal_state g k)) n \<longrightarrow> bit (sg_pending (signal_state g' k)) n) \<and>
    (\<forall>i \<in> set is. in_pgrp s pgid i \<longrightarrow> bit (sg_pending (task_sig g' s i)) (nat (sig - 1)))"
proof (induction "is" arbitrary: d g)
  case (Cons i "is")
  obtain d1 g1 where one: "send_pgrp_turn pgid sig (d, g, s) i = (d1, g1, s)"
      "g1 = (if in_pgrp s pgid i
        then set_sig g (signal_slot_task s (Some i)) ((task_sig g s i)\<lparr>sg_pending := sg_pending (task_sig g s i) OR signal_bit sig\<rparr>) else g)"
    using pgrp_turn_plain [OF assms, of pgid d g s i] by (metis (full_types))
  have b: "bit (signal_bit sig) (nat (sig - 1))" using assms signal_bit_bit by (simp add: signal_sends_def)
  have "bit (sg_pending (signal_state g k)) n \<longrightarrow> bit (sg_pending (signal_state g1 k)) n" for k n
    by (simp add: one(2) set_sig_def bit_or_iff)
  moreover have "in_pgrp s pgid i \<longrightarrow> bit (sg_pending (task_sig g1 s i)) (nat (sig - 1))" using b by (simp add: one(2) set_sig_def bit_or_iff)
  ultimately show ?case using Cons.IH [of d1 g1] Cons.prems one(1) by auto
qed simp

lemma send_pgrp_plain:
  assumes "signal_sends sig" "pgid \<noteq> 0" "signal_send_pgrp g s pgid sig = (r, g', s')"
  shows "s' = s" "in_pgrp s pgid i \<Longrightarrow> bit (sg_pending (task_sig g' s i)) (nat (sig - 1))"
proof -
  obtain d where "foldl (send_pgrp_turn pgid sig) (False, g, s) [0..<task_count s] = (d, g', s')"
    using assms by (auto simp: signal_send_pgrp_def signal_sends_def split: prod.splits)
  from pgrp_loop_plain [OF assms(1) this] show "s' = s" "in_pgrp s pgid i \<Longrightarrow> bit (sg_pending (task_sig g' s i)) (nat (sig - 1))"
    by (auto simp: in_pgrp_def)
qed

lemma sends_sigint: "signal_sends SIGINT"
  by (simp add: signal_sends_def signal_valid_def SIGINT_def SIGCONT_def SIGKILL_def ENLILOS_NSIG_def)

text \<open>A shell in session and group 1 on the processor.\<close>

definition shell_demo :: sched where
  "shell_demo = sched_bss\<lparr>task_count := 1, current_task := Some 0,
     task_ctx := (\<lambda>_. zero_ctx\<lparr>c_is_user := True\<rparr>),
     proc_ctx := (\<lambda>_. zero_proc\<lparr>p_in_use := True, p_pgid := 1, p_sid := 1\<rparr>)\<rparr>"

subsection \<open>Reading\<close>

lemma drain_view:
  assumes "tty_ok t" "tty_drain n t = (cs, t')"
  shows "tty_ok t' \<and> tty_termios t' = tty_termios t \<and> cs = rb_chunk (tty_is_canonical t) n (ed_ready (tty_view t)) \<and>
    tty_view t' = (tty_view t)\<lparr>ed_ready := drop (length cs) (ed_ready (tty_view t))\<rparr>"
proof -
  obtain r where r: "rb_drain TTY_READY_MAX (tty_is_canonical t) n (tty_ready t) = (cs, r)" "t' = t\<lparr>tty_ready := r\<rparr>"
    using assms(2) by (auto simp: tty_drain_def split: prod.splits)
  from tty_ring.drain_list [OF _ r(1)] assms(1) r(2) show ?thesis by (auto simp: tty_ok_def tty_view_def)
qed

lemma adopt_view [simp]:
  "tty_ok (tty_adopt_current_session t s) = tty_ok t" "tty_view (tty_adopt_current_session t s) = tty_view t"
  "tty_termios (tty_adopt_current_session t s) = tty_termios t"
  by (auto simp: tty_adopt_current_session_def Let_def tty_ok_def tty_view_def)

lemma ready_empty_view: "tty_ok t \<Longrightarrow> tty_ready_empty t \<longleftrightarrow> ed_ready (tty_view t) = []"
  by (simp add: tty_ready_empty_def tty_view_def tty_ok_def tty_ring.empty_iff)

lemma fresh_foreground: "tty_session_sid t = 0 \<Longrightarrow> \<not> tty_is_background_current (tty_adopt_current_session t s) s"
  by (auto simp: tty_adopt_current_session_def tty_is_background_current_def Let_def)

text \<open>Without signal characters the keyboard changes neither signals nor tasks.\<close>

lemma handle_quiet: "\<not> ed_signal (tty_termios t) (ed_key (tty_termios t) c) \<Longrightarrow> snd (tty_handle_input_char (t, g, s) c) = (g, s)"
  by (auto simp: tty_handle_input_char_def ed_signal_def ed_key_def Let_def)

lemma pump_quiet:
  "tty_ok t \<Longrightarrow> list_all (\<lambda>c. \<not> ed_signal (tty_termios t) (ed_key (tty_termios t) c)) keys \<Longrightarrow> snd (tty_pump_input keys (t, g, s)) = (g, s)"
proof (induction keys arbitrary: t)
  case (Cons c keys)
  obtain t' where h: "tty_handle_input_char (t, g, s) c = (t', g, s)"
    using handle_quiet [of t c g s] Cons.prems(2) by (cases "tty_handle_input_char (t, g, s) c") auto
  from handle_view [OF Cons.prems(1) h] Cons.IH [of t'] Cons.prems(2) h show ?case by (simp add: tty_pump_input_def)
qed (simp add: tty_pump_input_def)

lemma text_quiet: "ed_text tio c \<Longrightarrow> \<not> ed_signal tio (ed_key tio c)"
  using printable_not [of c] by (auto simp: ed_text_def ed_ordinary_def ed_key_def)

lemma defaults_text:
  "ed_canonical tty_termios_defaults" "ed_ordinary tty_termios_defaults NL"
  "c \<ge> 32 \<Longrightarrow> c < 127 \<Longrightarrow> ed_text tty_termios_defaults c"
  by (auto simp: ed_canonical_def ed_ordinary_def ed_signal_def ed_erase_def ed_text_def ed_printable_def tty_termios_defaults_def tty_consts)

lemma init_view: "tty_ok (tty_init t)" "tty_view (tty_init t) = \<lparr>ed_line = [], ed_ready = [], ed_eof = False\<rparr>"
  using tty_ring.reset_list [of "tty_ready t"] by (simp_all add: tty_init_def tty_ok_def tty_view_def)

lemma line_pumped:
  assumes ok: "tty_ok t" and tio: "ed_canonical (tty_termios t)" "ed_ordinary (tty_termios t) NL" "list_all (ed_text (tty_termios t)) cs"
    and empty: "ed_line (tty_view t) = []" and n: "length cs \<le> TTY_EDIT_MAX" "length (ed_ready (tty_view t)) + length cs < TTY_READY_MAX - 1"
  obtains t' where "tty_pump_input (cs @ [NL]) (t, g, s) = (t', g, s)" "tty_ok t'" "tty_termios t' = tty_termios t"
    "tty_view t' = (tty_view t)\<lparr>ed_ready := ed_ready (tty_view t) @ cs @ [NL]\<rparr>"
proof -
  have "\<not> ed_signal (tty_termios t) (ed_key (tty_termios t) NL)" using tio(2) by (simp add: ed_ordinary_def ed_key_def)
  then have q: "list_all (\<lambda>c. \<not> ed_signal (tty_termios t) (ed_key (tty_termios t) c)) (cs @ [NL])"
    using tio(3) text_quiet by (auto simp: list_all_iff)
  from pump_quiet [OF ok q, of g s] obtain t' where t': "tty_pump_input (cs @ [NL]) (t, g, s) = (t', g, s)"
    by (cases "tty_pump_input (cs @ [NL]) (t, g, s)") auto
  with tty_ld.steps_view [of "(t, g, s)" "cs @ [NL]"] tty_ld.line_typed [of "(t, g, s)" cs] assms
  show ?thesis by (intro that [of t']) (simp_all add: tty_pump_input_def)
qed

text \<open>
  C35. Whatever is typed, in whatever settings: the line being edited, the bytes waiting for a reader and the pending end of file are those of the list editor, no index leaves
  its array, and the settings stay as they are.
\<close>

theorem tty_refines_editor:
  assumes "tty_ok t" "tty_pump_input keys (t, g, s) = (t', g', s')"
  shows "tty_ok t' \<and> tty_termios t' = tty_termios t \<and>
    tty_view t' = foldl (ed_step TTY_EDIT_MAX (TTY_READY_MAX - 1) (tty_termios t)) (tty_view t) keys"
  using tty_ld.steps_view [of "(t, g, s)" keys] assms by (simp add: tty_pump_input_def)

theorem tty_refines_editor_witness:
  "\<exists>t' g' s'. tty_pump_input [97, 98, TTY_DEL, 99, NL] (tty_init tty_bss, sig_boot, sched_bss) = (t', g', s') \<and>
     ed_ready (tty_view t') = [97, 99, NL]"
proof -
  obtain t' g' s' where p: "tty_pump_input [97, 98, TTY_DEL, 99, NL] (tty_init tty_bss, sig_boot, sched_bss) = (t', g', s')" by (metis prod_cases3)
  have er: "ed_step m n tty_termios_defaults e TTY_DEL = e\<lparr>ed_line := butlast (ed_line e)\<rparr>" for m n e
    by (simp add: ed_step_def ed_key_def ed_signal_def ed_canonical_def ed_erase_def tty_termios_defaults_def tty_consts)
  have tio: "tty_termios (tty_init tty_bss) = tty_termios_defaults" by (simp add: tty_init_def)
  from tty_refines_editor [OF init_view(1) p]
  have "ed_ready (tty_view t') = [97, 99, NL]"
    by (simp add: init_view(2) tio er step_text defaults_text step_newline ed_commit_def TTY_EDIT_MAX_def TTY_READY_MAX_def)
  with p show ?thesis by blast
qed

text \<open>
  C36. A reader in the foreground gets the line that is typed: in canonical mode, with nothing waiting, any text of at most
  256 characters followed by a newline is what the read returns, complete and with the newline, and the
  console is left as it was.
\<close>

theorem tty_line_roundtrip:
  assumes ok: "tty_ok t" and tio: "ed_canonical (tty_termios t)" "ed_ordinary (tty_termios t) NL" "list_all (ed_text (tty_termios t)) cs"
    and empty: "ed_line (tty_view t) = []" "ed_ready (tty_view t) = []" and n: "length cs \<le> TTY_EDIT_MAX" "length cs < cnt"
    and fg: "\<not> tty_is_background_current (tty_adopt_current_session t s) s" and quiet: "\<not> signal_has_unblocked_pending g s (current_task s)"
  shows "\<exists>t'. tty_read_turn (cs @ [NL]) cnt (t, g, s) = Some (Tty_got (cs @ [NL]), t', g, s) \<and>
    tty_ok t' \<and> tty_termios t' = tty_termios t \<and> tty_view t' = tty_view t"
proof -
  let ?t = "tty_adopt_current_session t s"
  obtain t1 where t1: "tty_pump_input (cs @ [NL]) (?t, g, s) = (t1, g, s)" "tty_ok t1" "tty_termios t1 = tty_termios t"
      "tty_view t1 = (tty_view t)\<lparr>ed_ready := cs @ [NL]\<rparr>"
    by (rule line_pumped [of ?t cs g s]) (use assms in \<open>simp_all add: TTY_EDIT_MAX_def TTY_READY_MAX_def\<close>)
  obtain ds t2 where d: "tty_drain cnt t1 = (ds, t2)" by (cases "tty_drain cnt t1")
  have "tty_is_canonical t1" using tio(1) t1(3) by (simp add: tty_is_canonical_def ed_canonical_def)
  moreover have "NL \<notin> set cs" using tio(3) printable_not by (auto simp: list_all_iff ed_text_def)
  ultimately have "ds = cs @ [NL]" using drain_view [OF t1(2) d] t1(4) chunk_line [of cs cnt "[]"] n(2) by simp
  then show ?thesis
    using drain_view [OF t1(2) d] t1 d fg quiet n(2) ready_empty_view [OF t1(2)] empty(2)
    by (auto simp: tty_read_turn_def Let_def)
qed

theorem tty_line_roundtrip_witness:
  "\<exists>t'. tty_read_turn [104, 105, NL] 16 (tty_init tty_bss, sig_boot, sched_bss) = Some (Tty_got [104, 105, NL], t', sig_boot, sched_bss) \<and>
     tty_ok t' \<and> tty_termios t' = tty_termios (tty_init tty_bss) \<and> tty_view t' = tty_view (tty_init tty_bss)"
proof -
  have t: "tty_termios (tty_init tty_bss) = tty_termios_defaults" "tty_session_sid (tty_init tty_bss) = 0" by (simp_all add: tty_init_def)
  have "list_all (ed_text (tty_termios (tty_init tty_bss))) [104, 105]" by (simp add: t defaults_text(3))
  from tty_line_roundtrip [OF init_view(1) _ _ this, of 16 sched_bss sig_boot] fresh_foreground [OF t(2), of sched_bss] show ?thesis
    by (simp add: t(1) defaults_text(1,2) init_view(2) TTY_EDIT_MAX_def signal_has_unblocked_pending_def sched_task_is_user_def sched_bss_def)
qed

text \<open>
  The interrupt character reaches a reader: when it is typed while a member of the foreground group reads,
  and that task neither blocks nor ignores SIGINT, the read returns \<open>EINTR\<close>, SIGINT is pending for the task,
  and the line typed so far is gone.
\<close>

lemma tty_interrupt_read:
  assumes ok: "tty_ok t" and k: "c_lflag (tty_termios t) AND ISIG \<noteq> 0" "ed_key (tty_termios t) c = c_cc (tty_termios t) VINTR"
    and cur: "current_task s = Some i" "in_pgrp s (tty_foreground_pgid t) i" "tty_foreground_pgid t \<noteq> 0"
    and own: "tty_adopt_current_session t s = t" and n: "0 < cnt"
    and may: "\<not> bit (sg_blocked (task_sig g s i)) 1" "\<not> signal_ignored (signal_actions_for_task g s (Some i) 1) SIGINT"
  shows "\<exists>t' g'. tty_read_turn [c] cnt (t, g, s) = Some (Tty_err EINTR, t', g', s) \<and>
    bit (sg_pending (task_sig g' s i)) 1 \<and> ed_line (tty_view t') = []"
proof -
  obtain t' g' s' where h: "tty_signal_char t g s SIGINT 67 = (t', g', s')" by (metis prod_cases3)
  then obtain r where "signal_send_pgrp g s (tty_foreground_pgid t) SIGINT = (r, g', s')"
    using cur(3) by (cases "signal_send_pgrp g s (tty_foreground_pgid t) SIGINT") (auto simp: tty_signal_char_def tty_signal_foreground_def Let_def)
  note r = send_pgrp_plain [OF sends_sigint cur(3) this] send_pgrp_kept [OF this]
  have p: "bit (sg_pending (task_sig g' s i)) 1" using r(2) [OF cur(2)] by (simp add: SIGINT_def)
  have "bit (signal_ready (task_sig g' s i)) 1"
    using p r(3) may(1) by (simp add: signal_ready_def signal_strip_unmaskable_def sig_kept_def bit_simps)
  moreover have "\<not> signal_ignored (signal_actions_for_task g' s (Some i) 1) (1 + int 1)"
    using may(2) actions_kept [OF conjunct1 [OF r(3)]] by (simp add: SIGINT_def)
  ultimately have "signal_has_unblocked_pending g' s (Some i)"
    using cur(2) by (auto simp: signal_has_unblocked_pending_def signal_has_deliverable_pending_def deliverable_iff in_pgrp_def intro: exI [of _ 1])
  moreover have "tty_pump_input [c] (t, g, s) = (t', g', s)"
    using h k r(1) by (simp add: tty_pump_input_def tty_handle_input_char_def ed_key_def [symmetric] Let_def)
  moreover have "\<not> tty_is_background_current t s" using cur(1,2) by (simp add: tty_is_background_current_def tty_current_pgid_def in_pgrp_def Let_def)
  ultimately show ?thesis using own n cur(1) p signal_view(3) [OF h] by (simp add: tty_read_turn_def)
qed

end
