(* ===== verification/Pty.thy ===== *)
theory Pty
  imports Tty
begin

text \<open>
  Pseudo terminals, \<^verbatim>\<open>kernel/pty.c\<close>, with the four places of \<^verbatim>\<open>kernel/vfs.c\<close> and \<^verbatim>\<open>kernel/syscall.c\<close> that open, close
  and unlock them. The pool is a function of the slot number; an operation on a pair works on its record
  together with the signals and the scheduler. A blocking read is split at \<^verbatim>\<open>sched_block\<close>: \<open>pty_slave_read\<close> and
  \<open>pty_master_read\<close> are the code up to and including it, \<open>pty_slave_resume\<close> and \<open>pty_master_resume\<close> the code from it on. The callers
  have looked the pair up, so that the checks for a null pair do not appear.
\<close>

subsection \<open>Data\<close>

definition PTY_MAX :: nat where "PTY_MAX = 8"
definition PTY_BUF_SIZE :: nat where "PTY_BUF_SIZE = 4096"
definition PTY_EDIT_MAX :: nat where "PTY_EDIT_MAX = 256"

record winsize =
  ws_row :: u16
  ws_col :: u16
  ws_xpixel :: u16
  ws_ypixel :: u16

record pty =
  pt_in_use :: bool
  master_open :: bool
  slave_open :: bool
  eof_pending :: bool
  pt_locked :: bool
  pt_idx :: nat
  slave_sid :: u32
  slave_pgid :: u32
  m2s :: ring
  s2m :: ring
  edit_buf :: "nat \<Rightarrow> u8"
  edit_len :: nat
  pt_termios :: termios
  pt_winsize :: winsize
  slave_reader :: "nat option"
  master_reader :: "nat option"

type_synonym ptys = "nat \<Rightarrow> pty"

definition zero_ring :: ring where
  "zero_ring = \<lparr>rb_buf = (\<lambda>_. 0), rb_head = 0, rb_tail = 0\<rparr>"

definition zero_pty :: pty where
  "zero_pty = \<lparr>pt_in_use = False, master_open = False, slave_open = False, eof_pending = False, pt_locked = False, pt_idx = 0,
     slave_sid = 0, slave_pgid = 0, m2s = zero_ring, s2m = zero_ring, edit_buf = (\<lambda>_. 0), edit_len = 0,
     pt_termios = \<lparr>c_iflag = 0, c_oflag = 0, c_cflag = 0, c_lflag = 0, c_cc = (\<lambda>_. 0)\<rparr>,
     pt_winsize = \<lparr>ws_row = 0, ws_col = 0, ws_xpixel = 0, ws_ypixel = 0\<rparr>, slave_reader = None, master_reader = None\<rparr>"

subsection \<open>Rings and wake-ups\<close>

definition wake_slave_reader :: "pty \<times> sched \<Rightarrow> pty \<times> sched" where
  "wake_slave_reader = (\<lambda>(p, s).
     (if slave_reader p = None then (p, s) else (p\<lparr>slave_reader := None\<rparr>, sched_unblock s (slave_reader p))))"

definition wake_master_reader :: "pty \<times> sched \<Rightarrow> pty \<times> sched" where
  "wake_master_reader = (\<lambda>(p, s).
     (if master_reader p = None then (p, s) else (p\<lparr>master_reader := None\<rparr>, sched_unblock s (master_reader p))))"

definition m2s_push :: "pty \<times> sched \<Rightarrow> u8 \<Rightarrow> pty \<times> sched" where
  "m2s_push = (\<lambda>(p, s) c.
     (case rb_push PTY_BUF_SIZE (m2s p) c of
        (False, _) \<Rightarrow> (p, s)
      | (True, r) \<Rightarrow> wake_slave_reader (p\<lparr>m2s := r\<rparr>, s)))"

definition s2m_push :: "pty \<times> sched \<Rightarrow> u8 \<Rightarrow> pty \<times> sched" where
  "s2m_push = (\<lambda>(p, s) c.
     (case rb_push PTY_BUF_SIZE (s2m p) c of
        (False, _) \<Rightarrow> (p, s)
      | (True, r) \<Rightarrow> wake_master_reader (p\<lparr>s2m := r\<rparr>, s)))"

definition pty_termios_defaults :: termios where
  "pty_termios_defaults =
     \<lparr>c_iflag = ICRNL OR IXON, c_oflag = OPOST OR ONLCR, c_cflag = CS8 OR CREAD,
      c_lflag = ECHO OR ECHOE OR ICANON OR ISIG OR IEXTEN,
      c_cc = (\<lambda>_. 0)(VINTR := 3, VEOF := 4, VERASE := 0x7F, VKILL := 0x15, VMIN := 1, VTIME := 0, VSUSP := 0x1A)\<rparr>"

subsection \<open>The line discipline\<close>

definition pty_flag :: "pty \<Rightarrow> u32 \<Rightarrow> bool" where
  "pty_flag p m \<longleftrightarrow> c_lflag (pt_termios p) AND m \<noteq> 0"

definition pty_onlcr :: "pty \<Rightarrow> bool" where
  "pty_onlcr p \<longleftrightarrow> c_oflag (pt_termios p) AND OPOST \<noteq> 0 \<and> c_oflag (pt_termios p) AND ONLCR \<noteq> 0"

definition pty_signal_char :: "pty \<times> signals \<times> sched \<Rightarrow> int \<Rightarrow> u8 \<Rightarrow> pty \<times> signals \<times> sched" where
  "pty_signal_char = (\<lambda>(p, g, s) sig mark.
     (let gs = (if slave_pgid p \<noteq> 0 then snd (signal_send_pgrp g s (slave_pgid p) sig) else (g, s));
          ps = (if pty_flag p ECHO then foldl s2m_push (p, snd gs) [94, mark, NL] else (p, snd gs))
      in ((fst ps)\<lparr>edit_len := 0\<rparr>, fst gs, snd ps)))"

definition pty_erase :: "pty \<times> sched \<Rightarrow> pty \<times> sched" where
  "pty_erase = (\<lambda>(p, s).
     (let p = p\<lparr>edit_len := edit_len p - 1\<rparr>
      in if pty_flag p ECHOE then foldl s2m_push (p, s) [8, 32, 8] else (p, s)))"

fun pty_kill_loop :: "nat \<Rightarrow> pty \<times> sched \<Rightarrow> pty \<times> sched" where
  "pty_kill_loop 0 x = x"
| "pty_kill_loop (Suc n) x = pty_kill_loop n (pty_erase x)"

definition pty_commit :: "pty \<times> sched \<Rightarrow> u8 list \<Rightarrow> pty \<times> sched" where
  "pty_commit = (\<lambda>(p, s) nl.
     (let ps = foldl m2s_push (p, s) (map (edit_buf p) [0..<edit_len p] @ nl)
      in ((fst ps)\<lparr>edit_len := 0\<rparr>, snd ps)))"

definition pty_canonical_char :: "pty \<times> sched \<Rightarrow> u8 \<Rightarrow> pty \<times> sched" where
  "pty_canonical_char = (\<lambda>(p, s) c.
     (let cc = c_cc (pt_termios p)
      in if c = cc VERASE \<or> c = 8 then (if edit_len p > 0 then pty_erase (p, s) else (p, s))
         else if c = cc VKILL then pty_kill_loop (edit_len p) (p, s)
         else if c = cc VEOF
         then (if edit_len p > 0 then pty_commit (p, s) [] else wake_slave_reader (p\<lparr>eof_pending := True\<rparr>, s))
         else if c = NL
         then pty_commit (if pty_flag p ECHO then foldl s2m_push (p, s) ((if pty_onlcr p then [CR] else []) @ [NL]) else (p, s)) [NL]
         else if c = TAB \<or> c \<ge> 32 \<and> c < 127
         then (let p = (if edit_len p < PTY_EDIT_MAX
                        then p\<lparr>edit_buf := (edit_buf p)(edit_len p := c), edit_len := edit_len p + 1\<rparr> else p)
               in if pty_flag p ECHO then s2m_push (p, s) c else (p, s))
         else (p, s)))"

definition pty_ld_byte :: "pty \<times> signals \<times> sched \<Rightarrow> u8 \<Rightarrow> pty \<times> signals \<times> sched" where
  "pty_ld_byte = (\<lambda>(p, g, s) c.
     (let c = (if c_iflag (pt_termios p) AND ICRNL \<noteq> 0 \<and> c = CR then NL else c)
      in if pty_flag p ISIG \<and> c = c_cc (pt_termios p) VINTR then pty_signal_char (p, g, s) SIGINT 67
         else if pty_flag p ISIG \<and> c = c_cc (pt_termios p) VSUSP then pty_signal_char (p, g, s) SIGTSTP 90
         else
           (let ps = (if pty_flag p ICANON then pty_canonical_char (p, s) c
                      else (let ps = m2s_push (p, s) c in if pty_flag (fst ps) ECHO then s2m_push ps c else ps))
            in (fst ps, g, snd ps))))"

subsection \<open>Life cycle\<close>

definition pty_init :: "ptys \<Rightarrow> ptys" where
  "pty_init pool = (\<lambda>i. if i < PTY_MAX then (pool i)\<lparr>pt_in_use := False, pt_idx := i\<rparr> else pool i)"

definition pty_fresh :: "nat \<Rightarrow> pty" where
  "pty_fresh i = zero_pty\<lparr>pt_in_use := True, master_open := True, slave_open := False, pt_locked := True, pt_idx := i,
     pt_termios := pty_termios_defaults, pt_winsize := \<lparr>ws_row = 25, ws_col = 80, ws_xpixel = 0, ws_ypixel = 0\<rparr>\<rparr>"

definition pty_alloc :: "ptys \<Rightarrow> nat option \<times> ptys" where
  "pty_alloc pool =
     (case for_find (\<lambda>i. \<not> pt_in_use (pool i)) 0 PTY_MAX of
        None \<Rightarrow> (None, pool)
      | Some i \<Rightarrow> (Some i, pool(i := pty_fresh i)))"

definition pty_get :: "ptys \<Rightarrow> nat \<Rightarrow> nat option" where
  "pty_get pool idx = (if idx \<ge> PTY_MAX then None else if \<not> pt_in_use (pool idx) then None else Some idx)"

definition pty_open_slave :: "pty \<Rightarrow> sched \<Rightarrow> u32 \<Rightarrow> pty" where
  "pty_open_slave p s pgid =
     (let p = p\<lparr>slave_open := True\<rparr>;
          p = (if pgid \<noteq> 0 then p\<lparr>slave_pgid := pgid\<rparr> else p);
          sid = sid_of s (current_task s)
      in if sched_task_is_user s (current_task s) \<and> sid \<noteq> 0 then p\<lparr>slave_sid := sid\<rparr> else p)"

definition pty_close_master :: "pty \<times> sched \<Rightarrow> pty \<times> sched" where
  "pty_close_master = (\<lambda>(p, s).
     (let ps = wake_slave_reader (p\<lparr>master_open := False\<rparr>, s)
      in if \<not> slave_open (fst ps) then ((fst ps)\<lparr>pt_in_use := False\<rparr>, snd ps) else ps))"

definition pty_close_slave :: "pty \<times> sched \<Rightarrow> pty \<times> sched" where
  "pty_close_slave = (\<lambda>(p, s).
     (let ps = wake_master_reader (p\<lparr>slave_open := False, slave_sid := 0, slave_pgid := 0\<rparr>, s)
      in if \<not> master_open (fst ps) then ((fst ps)\<lparr>pt_in_use := False\<rparr>, snd ps) else ps))"

definition pty_master_has_data :: "pty \<Rightarrow> bool" where
  "pty_master_has_data p \<longleftrightarrow> \<not> rb_empty (s2m p)"

definition pty_slave_has_data :: "pty \<Rightarrow> bool" where
  "pty_slave_has_data p \<longleftrightarrow> eof_pending p \<or> \<not> rb_empty (m2s p)"

text \<open>Opening \<^verbatim>\<open>/dev/ptmx\<close> and \<^verbatim>\<open>/dev/pts/n\<close>, closing both, and the \<^verbatim>\<open>TIOCSPTLCK\<close> request.\<close>

definition devfs_open_ptmx :: "ptys \<Rightarrow> (errno + nat) \<times> ptys" where
  "devfs_open_ptmx pool = (case pty_alloc pool of (None, q) \<Rightarrow> (Inl ENOMEM, q) | (Some i, q) \<Rightarrow> (Inr i, q))"

definition devfs_open_pts :: "ptys \<Rightarrow> sched \<Rightarrow> nat \<Rightarrow> (errno + nat) \<times> ptys" where
  "devfs_open_pts pool s n =
     (if n \<ge> PTY_MAX then (Inl ENOENT, pool)
      else case pty_get pool n of
        None \<Rightarrow> (Inl ENOENT, pool)
      | Some i \<Rightarrow> if pt_locked (pool i) then (Inl EIO, pool) else (Inr i, pool(i := pty_open_slave (pool i) s 0)))"

definition devfs_close_ptmx :: "ptys \<Rightarrow> sched \<Rightarrow> nat \<Rightarrow> ptys \<times> sched" where
  "devfs_close_ptmx pool s cookie =
     (case pty_get pool cookie of None \<Rightarrow> (pool, s)
      | Some i \<Rightarrow> let ps = pty_close_master (pool i, s) in (pool(i := fst ps), snd ps))"

definition devfs_close_pts :: "ptys \<Rightarrow> sched \<Rightarrow> nat \<Rightarrow> ptys \<times> sched" where
  "devfs_close_pts pool s cookie =
     (case pty_get pool cookie of None \<Rightarrow> (pool, s)
      | Some i \<Rightarrow> let ps = pty_close_slave (pool i, s) in (pool(i := fst ps), snd ps))"

definition pty_set_lock :: "pty \<Rightarrow> u32 \<Rightarrow> pty" where
  "pty_set_lock p v = p\<lparr>pt_locked := v \<noteq> 0\<rparr>"

subsection \<open>Reading and writing\<close>

text \<open>A null buffer is \<open>None\<close>.\<close>

definition pty_master_write :: "pty \<times> signals \<times> sched \<Rightarrow> u8 list option \<Rightarrow> (errno + nat) \<times> pty \<times> signals \<times> sched" where
  "pty_master_write x buf =
     (case buf of
        None \<Rightarrow> (Inl EFAULT, x)
      | Some cs \<Rightarrow> if \<not> slave_open (fst x) then (Inl EIO, x) else (Inr (length cs), foldl pty_ld_byte x cs))"

definition pty_slave_put :: "pty \<times> sched \<Rightarrow> u8 \<Rightarrow> pty \<times> sched" where
  "pty_slave_put x c = (let x = (if pty_onlcr (fst x) \<and> c = NL then s2m_push x CR else x) in s2m_push x c)"

definition pty_slave_write :: "pty \<times> sched \<Rightarrow> u8 list option \<Rightarrow> (errno + nat) \<times> pty \<times> sched" where
  "pty_slave_write x buf =
     (case buf of
        None \<Rightarrow> (Inl EFAULT, x)
      | Some cs \<Rightarrow> if \<not> master_open (fst x) then (Inl EIO, x) else (Inr (length cs), foldl pty_slave_put x cs))"

datatype pty_read = Pty_err errno | Pty_got "u8 list" | Pty_block

text \<open>One turn of the loop of \<^verbatim>\<open>pty_master_read\<close>, up to the block.\<close>

definition pty_master_turn :: "nat \<Rightarrow> pty \<times> sched \<Rightarrow> (pty_read \<times> pty \<times> sched) option" where
  "pty_master_turn cnt = (\<lambda>(p, s).
     (let (cs, r) = rb_drain PTY_BUF_SIZE False cnt (s2m p); p = p\<lparr>s2m := r\<rparr>
      in if cs \<noteq> [] then Some (Pty_got cs, p, s)
         else if \<not> slave_open p then Some (Pty_got [], p, s)
         else map_option (\<lambda>s'. (Pty_block, p\<lparr>master_reader := current_task s\<rparr>, s')) (sched_block s)))"

definition pty_master_read :: "bool \<Rightarrow> nat \<Rightarrow> bool \<Rightarrow> pty \<times> sched \<Rightarrow> (pty_read \<times> pty \<times> sched) option" where
  "pty_master_read buf cnt nonblock = (\<lambda>(p, s).
     (if \<not> buf then Some (Pty_err EFAULT, p, s)
      else if \<not> master_open p then Some (Pty_err EIO, p, s)
      else if nonblock
      then (let (cs, r) = rb_drain PTY_BUF_SIZE False cnt (s2m p)
            in Some (if cs \<noteq> [] then Pty_got cs else Pty_err EAGAIN, p\<lparr>s2m := r\<rparr>, s))
      else pty_master_turn cnt (p, s)))"

definition pty_master_resume :: "nat \<Rightarrow> pty \<times> sched \<Rightarrow> (pty_read \<times> pty \<times> sched) option" where
  "pty_master_resume cnt = (\<lambda>(p, s). pty_master_turn cnt (p\<lparr>master_reader := None\<rparr>, s))"

definition pty_slave_turn :: "nat \<Rightarrow> bool \<Rightarrow> pty \<times> sched \<Rightarrow> (pty_read \<times> pty \<times> sched) option" where
  "pty_slave_turn cnt nonblock = (\<lambda>(p, s).
     (if eof_pending p \<and> rb_empty (m2s p) then Some (Pty_got [], p\<lparr>eof_pending := False\<rparr>, s)
      else
        (let (cs, r) = rb_drain PTY_BUF_SIZE (pty_flag p ICANON) cnt (m2s p); p = p\<lparr>m2s := r\<rparr>
         in if cs \<noteq> [] then Some (Pty_got cs, p, s)
            else if nonblock then Some (Pty_err EAGAIN, p, s)
            else if \<not> master_open p then Some (Pty_got [], p, s)
            else map_option (\<lambda>s'. (Pty_block, p\<lparr>slave_reader := current_task s\<rparr>, s')) (sched_block s))))"

definition pty_slave_read :: "bool \<Rightarrow> nat \<Rightarrow> bool \<Rightarrow> pty \<times> sched \<Rightarrow> (pty_read \<times> pty \<times> sched) option" where
  "pty_slave_read buf cnt nonblock = (\<lambda>(p, s).
     (if \<not> buf then Some (Pty_err EFAULT, p, s)
      else if \<not> slave_open p then Some (Pty_err EIO, p, s)
      else
        (let pgid = pgid_of s (current_task s)
         in pty_slave_turn cnt nonblock
              (if sched_task_is_user s (current_task s) \<and> pgid \<noteq> 0 then p\<lparr>slave_pgid := pgid\<rparr> else p, s))))"

definition pty_slave_resume :: "nat \<Rightarrow> bool \<Rightarrow> pty \<times> sched \<Rightarrow> (pty_read \<times> pty \<times> sched) option" where
  "pty_slave_resume cnt nonblock = (\<lambda>(p, s). pty_slave_turn cnt nonblock (p\<lparr>slave_reader := None\<rparr>, s))"

subsection \<open>Attributes\<close>

definition pty_tcgetattr :: "pty \<Rightarrow> termios" where
  "pty_tcgetattr p = pt_termios p"

definition pty_tcsetattr :: "pty \<Rightarrow> int \<Rightarrow> termios option \<Rightarrow> (errno + unit) \<times> pty" where
  "pty_tcsetattr p action inp =
     (case inp of
        None \<Rightarrow> (Inl EFAULT, p)
      | Some i \<Rightarrow>
          if action \<noteq> TCSANOW \<and> action \<noteq> TCSADRAIN \<and> action \<noteq> TCSAFLUSH then (Inl EINVAL, p)
          else
            (let p = p\<lparr>pt_termios := termios_fixup i\<rparr>
             in (Inr (), if action = TCSAFLUSH then p\<lparr>m2s := rb_reset (m2s p), edit_len := 0, eof_pending := False\<rparr> else p)))"

definition pty_get_winsize :: "pty \<Rightarrow> winsize" where
  "pty_get_winsize p = pt_winsize p"

definition pty_set_winsize :: "pty \<times> signals \<times> sched \<Rightarrow> winsize option \<Rightarrow> (errno + unit) \<times> pty \<times> signals \<times> sched" where
  "pty_set_winsize = (\<lambda>(p, g, s) inp.
     (case inp of
        None \<Rightarrow> (Inl EFAULT, p, g, s)
      | Some w \<Rightarrow> (Inr (), p\<lparr>pt_winsize := w\<rparr>,
          if slave_pgid p \<noteq> 0 then snd (signal_send_pgrp g s (slave_pgid p) SIGWINCH) else (g, s))))"

definition pty_tcgetpgrp :: "pty \<Rightarrow> u32" where
  "pty_tcgetpgrp p = slave_pgid p"

definition pty_tcsetpgrp :: "pty \<Rightarrow> u32 \<Rightarrow> u32 \<Rightarrow> (errno + unit) \<times> pty" where
  "pty_tcsetpgrp p sid pgid =
     (if pgid = 0 then (Inl EINVAL, p)
      else if sid = 0 then (Inl EPERM, p)
      else
        (let p = (if slave_sid p = 0 then p\<lparr>slave_sid := sid\<rparr> else p)
         in if slave_sid p \<noteq> sid then (Inl EPERM, p) else (Inr (), p\<lparr>slave_pgid := pgid\<rparr>)))"

definition pty_set_ctty :: "pty \<Rightarrow> u32 \<Rightarrow> u32 \<Rightarrow> (errno + unit) \<times> pty" where
  "pty_set_ctty p sid pgid =
     (if sid = 0 then (Inl EPERM, p)
      else if slave_sid p \<noteq> 0 \<and> slave_sid p \<noteq> sid then (Inl EPERM, p)
      else
        (let p = p\<lparr>slave_sid := sid\<rparr>
         in (Inr (), if pgid \<noteq> 0 then p\<lparr>slave_pgid := pgid\<rparr> else p)))"

definition pty_task_cleanup :: "ptys \<Rightarrow> nat \<Rightarrow> ptys" where
  "pty_task_cleanup pool t =
     (\<lambda>i. if i < PTY_MAX
          then (pool i)\<lparr>slave_reader := (if slave_reader (pool i) = Some t then None else slave_reader (pool i)),
                 master_reader := (if master_reader (pool i) = Some t then None else master_reader (pool i))\<rparr>
          else pool i)"

interpretation pty_ring: byte_ring PTY_BUF_SIZE
  by unfold_locales (simp add: PTY_BUF_SIZE_def)

subsection \<open>Invariant and wake-ups\<close>

text \<open>A registered reader has nothing to read and somebody to wait for.\<close>

definition pty_ok :: "pty \<Rightarrow> bool" where
  "pty_ok p \<longleftrightarrow> rb_ok PTY_BUF_SIZE (m2s p) \<and> rb_ok PTY_BUF_SIZE (s2m p) \<and> edit_len p \<le> PTY_EDIT_MAX \<and>
     (slave_reader p \<noteq> None \<longrightarrow> \<not> pty_slave_has_data p \<and> master_open p) \<and>
     (master_reader p \<noteq> None \<longrightarrow> \<not> pty_master_has_data p \<and> slave_open p)"

definition pty_view :: "pty \<Rightarrow> editor" where
  "pty_view p = \<lparr>ed_line = map (edit_buf p) [0..<edit_len p], ed_ready = rb_list PTY_BUF_SIZE (m2s p), ed_eof = eof_pending p\<rparr>"

text \<open>A step wakes every reader it takes off the pair, and blocks nobody.\<close>

definition pty_wakes :: "pty \<times> sched \<Rightarrow> pty \<times> sched \<Rightarrow> bool" where
  "pty_wakes = (\<lambda>(p, s) (q, s').
     (\<forall>t. slave_reader p = Some t \<longrightarrow> slave_reader q = Some t \<or> state_of s' t \<noteq> TCB_BLOCKED) \<and>
     (\<forall>t. master_reader p = Some t \<longrightarrow> master_reader q = Some t \<or> state_of s' t \<noteq> TCB_BLOCKED) \<and>
     (\<forall>t. state_of s' t = TCB_BLOCKED \<longrightarrow> state_of s t = TCB_BLOCKED))"

lemma pty_wakes_refl [simp]: "pty_wakes x x"
  by (simp add: pty_wakes_def split: prod.splits)

lemma pty_wakes_trans: "pty_wakes x y \<Longrightarrow> pty_wakes y z \<Longrightarrow> pty_wakes x z"
  by (auto simp: pty_wakes_def split: prod.splits)

lemma pty_wakes_fold: "(\<And>x c. pty_wakes x (f x c)) \<Longrightarrow> pty_wakes x (foldl f x cs)"
proof (induction cs arbitrary: x)
  case (Cons c cs)
  show ?case unfolding foldl_Cons by (rule pty_wakes_trans [OF Cons.prems Cons.IH [OF Cons.prems]])
qed simp

lemma unblock_blocked: "state_of (sched_unblock s o') t = TCB_BLOCKED \<Longrightarrow> state_of s t = TCB_BLOCKED \<and> o' \<noteq> Some t"
  by (cases o') (auto simp: sched_unblock_def [of _ None] split: if_splits)

lemma wake_slave_wakes: "pty_wakes x (wake_slave_reader x)"
  by (auto simp: pty_wakes_def wake_slave_reader_def dest: unblock_blocked split: prod.splits)

lemma wake_master_wakes: "pty_wakes x (wake_master_reader x)"
  by (auto simp: pty_wakes_def wake_master_reader_def dest: unblock_blocked split: prod.splits)

lemma pty_wakes_upd:
  "slave_reader p' = slave_reader p \<Longrightarrow> master_reader p' = master_reader p \<Longrightarrow> pty_wakes (p', s) y \<Longrightarrow> pty_wakes (p, s) y"
  by (auto simp: pty_wakes_def split: prod.splits)

lemma m2s_push_wakes: "pty_wakes x (m2s_push x c)"
  by (auto simp: m2s_push_def split: prod.splits bool.splits intro: pty_wakes_upd [OF _ _ wake_slave_wakes])

lemma s2m_push_wakes: "pty_wakes x (s2m_push x c)"
  by (auto simp: s2m_push_def split: prod.splits bool.splits intro: pty_wakes_upd [OF _ _ wake_master_wakes])

lemmas push_wakes = pty_wakes_fold [of m2s_push, OF m2s_push_wakes] pty_wakes_fold [of s2m_push, OF s2m_push_wakes]

subsection \<open>The rings\<close>

text \<open>What a push leaves alone.\<close>

definition to_master :: "pty \<Rightarrow> pty \<Rightarrow> bool" where
  "to_master p q \<longleftrightarrow> (\<exists>r t. q = p\<lparr>s2m := r, master_reader := t\<rparr>)"

definition to_slave :: "pty \<Rightarrow> pty \<Rightarrow> bool" where
  "to_slave p q \<longleftrightarrow> (\<exists>r t. q = p\<lparr>m2s := r, slave_reader := t\<rparr>)"

lemma toI: "q = p\<lparr>s2m := r, master_reader := t\<rparr> \<Longrightarrow> to_master p q" "q = p\<lparr>m2s := r, slave_reader := t\<rparr> \<Longrightarrow> to_slave p q"
  unfolding to_master_def to_slave_def by blast+

lemma to_refl [simp]: "to_master p p" "to_slave p p"
  by (rule toI(1) [where r = "s2m p" and t = "master_reader p"], simp) (rule toI(2) [where r = "m2s p" and t = "slave_reader p"], simp)

lemma to_upd [simp]: "to_master p (p\<lparr>s2m := r, master_reader := t\<rparr>)" "to_slave p (p\<lparr>m2s := r, slave_reader := t\<rparr>)"
  "to_master p (p\<lparr>s2m := r\<rparr>)" "to_slave p (p\<lparr>m2s := r\<rparr>)"
  using toI(1) [of "p\<lparr>s2m := r\<rparr>" "master_reader p" r p] toI(2) [of "p\<lparr>m2s := r\<rparr>" "slave_reader p" r p] by (simp_all add: toI)

lemma to_trans:
  assumes "to_master p q" "to_master q r" shows "to_master p r"
  using assms unfolding to_master_def by (elim exE) (simp add: to_upd(1) [unfolded to_master_def])

lemma to_slave_trans:
  assumes "to_slave p q" "to_slave q r" shows "to_slave p r"
  using assms unfolding to_slave_def by (elim exE) (simp add: to_upd(2) [unfolded to_slave_def])

lemma s2m_push_ok:
  assumes "pty_ok p" "s2m_push (p, s) c = (q, s')"
  shows "pty_ok q \<and> to_master p q \<and>
    rb_list PTY_BUF_SIZE (s2m q) = take (PTY_BUF_SIZE - 1) (rb_list PTY_BUF_SIZE (s2m p) @ [c])"
proof -
  have r: "rb_ok PTY_BUF_SIZE (s2m p)" using assms(1) by (simp add: pty_ok_def)
  obtain b r' where p: "rb_push PTY_BUF_SIZE (s2m p) c = (b, r')" by (cases "rb_push PTY_BUF_SIZE (s2m p) c")
  have "\<not> b \<Longrightarrow> r' = s2m p" using p by (auto simp: rb_push_def split: if_splits)
  with pty_ring.push_list [OF r, of c] p assms show ?thesis
    by (cases b) (auto simp: s2m_push_def wake_master_reader_def pty_ok_def pty_slave_has_data_def split: if_splits)
qed

lemma m2s_push_ok:
  assumes "pty_ok p" "m2s_push (p, s) c = (q, s')"
  shows "pty_ok q \<and> to_slave p q \<and>
    rb_list PTY_BUF_SIZE (m2s q) = take (PTY_BUF_SIZE - 1) (rb_list PTY_BUF_SIZE (m2s p) @ [c])"
proof -
  have r: "rb_ok PTY_BUF_SIZE (m2s p)" using assms(1) by (simp add: pty_ok_def)
  obtain b r' where p: "rb_push PTY_BUF_SIZE (m2s p) c = (b, r')" by (cases "rb_push PTY_BUF_SIZE (m2s p) c")
  have "\<not> b \<Longrightarrow> r' = m2s p" using p by (auto simp: rb_push_def split: if_splits)
  with pty_ring.push_list [OF r, of c] p assms show ?thesis
    by (cases b) (auto simp: m2s_push_def wake_slave_reader_def pty_ok_def pty_master_has_data_def split: if_splits)
qed

lemma take_take_snoc: "take n (take n xs @ ys) = take n (xs @ ys)"
  by (cases "n \<le> length xs") simp_all

lemma s2m_puts_ok:
  "pty_ok p \<Longrightarrow> foldl s2m_push (p, s) cs = (q, s') \<Longrightarrow> pty_ok q \<and> to_master p q \<and>
    rb_list PTY_BUF_SIZE (s2m q) = take (PTY_BUF_SIZE - 1) (rb_list PTY_BUF_SIZE (s2m p) @ cs)"
proof (induction cs arbitrary: p s)
  case Nil
  then show ?case using pty_ring.len_less [of "s2m q"] by (simp add: pty_ok_def)
next
  case (Cons c cs)
  obtain p1 s1 where one: "s2m_push (p, s) c = (p1, s1)" by fastforce
  note p1 = s2m_push_ok [OF Cons.prems(1) one]
  from Cons.IH [OF conjunct1 [OF p1], of s1] Cons.prems(2) one p1 to_trans [of p p1 q]
    take_take_snoc [of "PTY_BUF_SIZE - 1" "rb_list PTY_BUF_SIZE (s2m p) @ [c]" cs]
  show ?case by (simp del: take_append)
qed

lemma m2s_puts_ok:
  "pty_ok p \<Longrightarrow> foldl m2s_push (p, s) cs = (q, s') \<Longrightarrow> pty_ok q \<and> to_slave p q \<and>
    rb_list PTY_BUF_SIZE (m2s q) = take (PTY_BUF_SIZE - 1) (rb_list PTY_BUF_SIZE (m2s p) @ cs)"
proof (induction cs arbitrary: p s)
  case Nil
  then show ?case using pty_ring.len_less [of "m2s q"] by (simp add: pty_ok_def)
next
  case (Cons c cs)
  obtain p1 s1 where one: "m2s_push (p, s) c = (p1, s1)" by fastforce
  note p1 = m2s_push_ok [OF Cons.prems(1) one]
  from Cons.IH [OF conjunct1 [OF p1], of s1] Cons.prems(2) one p1 to_slave_trans [of p p1 q]
    take_take_snoc [of "PTY_BUF_SIZE - 1" "rb_list PTY_BUF_SIZE (m2s p) @ [c]" cs]
  show ?case by (simp del: take_append)
qed

subsection \<open>A pair is a line discipline\<close>

lemma to_master_view:
  assumes "to_master p q"
  shows "pty_view q = pty_view p" "pt_termios q = pt_termios p" "edit_len q = edit_len p" "slave_open q = slave_open p" "slave_reader q = slave_reader p"
    "edit_buf q = edit_buf p"
  using assms by (auto simp: to_master_def pty_view_def)

lemma to_slave_view:
  assumes "to_slave p q"
  shows "pty_view q = (pty_view p)\<lparr>ed_ready := rb_list PTY_BUF_SIZE (m2s q)\<rparr>" "pt_termios q = pt_termios p" "slave_open q = slave_open p"
  using assms by (auto simp: to_slave_def pty_view_def)

lemma edit_len_ok: "pty_ok p \<Longrightarrow> n \<le> PTY_EDIT_MAX \<Longrightarrow> pty_ok (p\<lparr>edit_len := n\<rparr>)"
  by (simp add: pty_ok_def pty_slave_has_data_def pty_master_has_data_def)

text \<open>The discipline between states with the scheduler: invariant, settings and wake-ups kept, the view changed by \<open>f\<close>.\<close>

definition pty_does :: "(editor \<Rightarrow> editor) \<Rightarrow> pty \<times> sched \<Rightarrow> pty \<times> sched \<Rightarrow> bool" where
  "pty_does f x y \<longleftrightarrow> pty_ok (fst y) \<and> pt_termios (fst y) = pt_termios (fst x) \<and> slave_open (fst y) = slave_open (fst x) \<and>
     pty_wakes x y \<and> pty_view (fst y) = f (pty_view (fst x))"

lemma does_echo: "pty_ok (fst x) \<Longrightarrow> pty_does (\<lambda>e. e) x (foldl s2m_push x cs)"
proof -
  assume ok: "pty_ok (fst x)"
  obtain q s' where q: "foldl s2m_push x cs = (q, s')" by fastforce
  have "pty_ok (fst x) \<Longrightarrow> foldl s2m_push (fst x, snd x) cs = (q, s')" using q by simp
  from s2m_puts_ok [OF ok this [OF ok]] to_master_view [of "fst x" q] push_wakes(2) [of x cs] q show ?thesis by (simp add: pty_does_def)
qed

lemma does_echo1: "pty_ok (fst x) \<Longrightarrow> pty_does (\<lambda>e. e) x (s2m_push x c)"
  using does_echo [of x "[c]"] by simp

lemma does_feed: "pty_ok (fst x) \<Longrightarrow> pty_does (\<lambda>e. e\<lparr>ed_ready := take (PTY_BUF_SIZE - 1) (ed_ready e @ cs)\<rparr>) x (foldl m2s_push x cs)"
proof -
  assume ok: "pty_ok (fst x)"
  obtain q s' where q: "foldl m2s_push x cs = (q, s')" by fastforce
  have "foldl m2s_push (fst x, snd x) cs = (q, s')" using q by simp
  from m2s_puts_ok [OF ok this] to_slave_view [of "fst x" q] push_wakes(1) [of x cs] q show ?thesis
    by (simp add: pty_does_def) (simp add: pty_view_def)
qed

lemma does_trans: "pty_does f x y \<Longrightarrow> pty_does h y z \<Longrightarrow> pty_does (\<lambda>e. h (f e)) x z"
  by (auto simp: pty_does_def intro: pty_wakes_trans)

lemma does_upd:
  assumes "pty_ok (fst y)" "pt_termios (fst y) = pt_termios (fst x)" "slave_open (fst y) = slave_open (fst x)" "slave_reader (fst y) = slave_reader (fst x)"
    "master_reader (fst y) = master_reader (fst x)" "snd y = snd x" "pty_view (fst y) = f (pty_view (fst x))"
  shows "pty_does f x y"
  using assms by (auto simp: pty_does_def pty_wakes_def split: prod.splits)

lemma does_clear: "pty_ok p \<Longrightarrow> pty_does (\<lambda>e. e\<lparr>ed_line := []\<rparr>) (p, s) (p\<lparr>edit_len := 0\<rparr>, s)"
  by (rule does_upd) (auto simp: edit_len_ok pty_view_def)

lemma does_erase:
  assumes "pty_ok p" shows "pty_does (\<lambda>e. e\<lparr>ed_line := butlast (ed_line e)\<rparr>) (p, s) (pty_erase (p, s)) \<and> edit_len (fst (pty_erase (p, s))) = edit_len p - 1"
proof -
  let ?p = "p\<lparr>edit_len := edit_len p - 1\<rparr>"
  have b: "butlast (map f [0..<n]) = map f [0..<n - 1]" for f :: "nat \<Rightarrow> u8" and n by (cases n) simp_all
  have ok: "pty_ok ?p" using assms by (intro edit_len_ok) (auto simp: pty_ok_def)
  have d: "pty_does (\<lambda>e. e\<lparr>ed_line := butlast (ed_line e)\<rparr>) (p, s) (?p, s)" by (rule does_upd) (use ok in \<open>simp_all add: pty_view_def b\<close>)
  obtain q s' where q: "foldl s2m_push (?p, s) [8, 32, 8] = (q, s')" by fastforce
  have "edit_len q = edit_len p - 1" using s2m_puts_ok [OF ok q] to_master_view(3) [of ?p q] by simp
  then show ?thesis using d does_trans [OF d does_echo [of "(?p, s)" "[8, 32, 8]"]] ok q by (simp add: pty_erase_def Let_def)
qed

lemma does_kill:
  "pty_ok p \<Longrightarrow> n = edit_len p \<Longrightarrow> pty_does (\<lambda>e. e\<lparr>ed_line := []\<rparr>) (p, s) (pty_kill_loop n (p, s))"
proof (induction n arbitrary: p s)
  case 0
  then show ?case by (auto simp: pty_view_def intro!: does_upd)
next
  case (Suc n)
  obtain q s' where q: "pty_erase (p, s) = (q, s')" by fastforce
  note e = does_erase [OF Suc.prems(1), of s, unfolded q]
  have "pty_does (\<lambda>e. e\<lparr>ed_line := []\<rparr>) (q, s') (pty_kill_loop n (q, s'))"
    by (rule Suc.IH) (use e Suc.prems(2) in \<open>auto simp: pty_does_def\<close>)
  from does_trans [OF conjunct1 [OF e] this] q show ?case by simp
qed

lemma does_commit:
  assumes "pty_ok p" shows "pty_does (\<lambda>e. ed_commit (PTY_BUF_SIZE - 1) e nl) (p, s) (pty_commit (p, s) nl)"
proof -
  let ?cs = "map (edit_buf p) [0..<edit_len p] @ nl"
  obtain q s' where q: "foldl m2s_push (p, s) ?cs = (q, s')" by fastforce
  have f: "pty_does (\<lambda>e. e\<lparr>ed_ready := take (PTY_BUF_SIZE - 1) (ed_ready e @ ?cs)\<rparr>) (p, s) (q, s')"
    using does_feed [of "(p, s)" ?cs] assms q by simp
  then have ok: "pty_ok q" by (simp add: pty_does_def)
  from does_trans [OF f does_clear [OF ok]] q show ?thesis
    by (simp add: pty_commit_def pty_does_def) (simp add: pty_view_def ed_commit_def)
qed

lemma does_eof: "pty_ok p \<Longrightarrow> pty_does (\<lambda>e. e\<lparr>ed_eof := True\<rparr>) (p, s) (wake_slave_reader (p\<lparr>eof_pending := True\<rparr>, s))"
proof -
  assume ok: "pty_ok p"
  have "pty_wakes (p, s) (wake_slave_reader (p\<lparr>eof_pending := True\<rparr>, s))" by (rule pty_wakes_upd [OF _ _ wake_slave_wakes]) simp_all
  with ok show ?thesis
    by (auto simp: pty_does_def wake_slave_reader_def pty_ok_def pty_view_def pty_slave_has_data_def pty_master_has_data_def)
qed

lemma does_text:
  assumes "pty_ok p"
  shows "pty_does (\<lambda>e. e\<lparr>ed_line := take PTY_EDIT_MAX (ed_line e @ [c])\<rparr>) (p, s)
    (if edit_len p < PTY_EDIT_MAX then p\<lparr>edit_buf := (edit_buf p)(edit_len p := c), edit_len := edit_len p + 1\<rparr> else p, s)"
proof (cases "edit_len p < PTY_EDIT_MAX")
  case True
  then show ?thesis using assms
    by (intro does_upd) (simp_all add: pty_view_def pty_ok_def pty_slave_has_data_def pty_master_has_data_def)
next
  case False
  then have "edit_len p = PTY_EDIT_MAX" using assms by (simp add: pty_ok_def)
  then show ?thesis using assms by (intro does_upd) (simp_all add: pty_view_def)
qed

lemma does_canonical:
  assumes ok: "pty_ok p" and can: "ed_canonical (pt_termios p)" "\<not> ed_signal (pt_termios p) c" "ed_key (pt_termios p) c = c"
  shows "pty_does (\<lambda>e. ed_step PTY_EDIT_MAX (PTY_BUF_SIZE - 1) (pt_termios p) e c) (p, s) (pty_canonical_char (p, s) c)"
proof -
  let ?cc = "c_cc (pt_termios p)"
  have st: "ed_step m n (pt_termios p) x c =
      (if ed_erase (pt_termios p) c then x\<lparr>ed_line := butlast (ed_line x)\<rparr>
       else if c = ?cc VKILL then x\<lparr>ed_line := []\<rparr>
       else if c = ?cc VEOF then (if ed_line x = [] then x\<lparr>ed_eof := True\<rparr> else ed_commit n x [])
       else if c = NL then ed_commit n x [NL]
       else if ed_printable c then x\<lparr>ed_line := take m (ed_line x @ [c])\<rparr> else x)" for m n x
    using can by (simp add: ed_step_def)
  have nil: "ed_line (pty_view p) = [] \<longleftrightarrow> edit_len p = 0" by (simp add: pty_view_def)
  let ?e = "if pty_flag p ECHO then foldl s2m_push (p, s) ((if pty_onlcr p then [CR] else []) @ [NL]) else (p, s)"
  have id: "pty_does (\<lambda>e. e) (p, s) (p, s)" using ok by (simp add: pty_does_def)
  have e: "pty_does (\<lambda>e. e) (p, s) ?e"
    using id does_echo [of "(p, s)" "(if pty_onlcr p then [CR] else []) @ [NL]"] ok by (cases "pty_flag p ECHO") (simp_all only: if_True if_False fst_conv)
  have nl: "pty_does (\<lambda>e. ed_commit (PTY_BUF_SIZE - 1) e [NL]) (p, s) (pty_commit ?e [NL])"
  proof -
    obtain q s' where q: "?e = (q, s')" by fastforce
    have "pty_ok q" using e unfolding q by (simp add: pty_does_def)
    from does_trans [OF e [unfolded q] does_commit [OF this]] show ?thesis unfolding q .
  qed
  let ?t = "(if edit_len p < PTY_EDIT_MAX then p\<lparr>edit_buf := (edit_buf p)(edit_len p := c), edit_len := edit_len p + 1\<rparr> else p, s)"
  note t = does_text [OF ok, of c s]
  have "pty_ok (fst ?t)" using t by (simp only: pty_does_def)
  from does_trans [OF t does_echo1 [OF this, of c]]
  have tx: "pty_does (\<lambda>e. e\<lparr>ed_line := take PTY_EDIT_MAX (ed_line e @ [c])\<rparr>) (p, s) (if pty_flag (fst ?t) ECHO then s2m_push ?t c else ?t)"
    using t by simp
  consider (erase) "ed_erase (pt_termios p) c" | (kill) "\<not> ed_erase (pt_termios p) c" "c = ?cc VKILL"
    | (eof) "\<not> ed_erase (pt_termios p) c" "c \<noteq> ?cc VKILL" "c = ?cc VEOF" | (newline) "ed_ordinary (pt_termios p) c" "c = NL"
    | (other) "ed_ordinary (pt_termios p) c" "c \<noteq> NL" using can(2) unfolding ed_ordinary_def by blast
  then show ?thesis
  proof cases
    case erase
    then show ?thesis using does_erase [OF ok, of s] nil ok by (simp add: pty_does_def st pty_canonical_char_def ed_erase_def) (simp add: pty_view_def)
  next
    case kill
    then show ?thesis unfolding st pty_canonical_char_def Let_def using does_kill [OF ok refl, of s] by (simp add: ed_erase_def)
  next
    case eof
    then show ?thesis unfolding st pty_canonical_char_def Let_def using does_eof [OF ok, of s] does_commit [OF ok, of "[]" s] nil by (simp add: pty_does_def ed_erase_def)
  next
    case newline
    then show ?thesis unfolding st pty_canonical_char_def Let_def using nl by (simp add: ed_ordinary_def ed_erase_def)
  next
    case other
    then show ?thesis unfolding st pty_canonical_char_def Let_def ed_printable_def [symmetric] using tx id
      by (cases "ed_printable c") (simp_all add: ed_ordinary_def ed_erase_def)
  qed
qed

lemma wakes_pty: "wakes s s' \<Longrightarrow> pty_wakes (p, s) (p, s')"
  by (auto simp: pty_wakes_def wakes_def wake_all_state split: if_splits)

lemma does_signal:
  assumes "pty_ok p" "pty_signal_char (p, g, s) sig mark = (q, g', s')"
  shows "pty_does (\<lambda>e. e\<lparr>ed_line := []\<rparr>) (p, s) (q, s')"
proof -
  obtain g1 s1 where gs: "(if slave_pgid p \<noteq> 0 then snd (signal_send_pgrp g s (slave_pgid p) sig) else (g, s)) = (g1, s1)" by fastforce
  have w: "wakes s s1" using gs send_pgrp_kept [of g s "slave_pgid p" sig] wakes_refl by (cases "signal_send_pgrp g s (slave_pgid p) sig") (auto split: if_splits)
  have 1: "pty_does (\<lambda>e. e) (p, s) (p, s1)" using assms(1) wakes_pty [OF w] by (simp add: pty_does_def)
  obtain p2 s2 where e: "(if pty_flag p ECHO then foldl s2m_push (p, s1) [94, mark, NL] else (p, s1)) = (p2, s2)" by fastforce
  have 2: "pty_does (\<lambda>e. e) (p, s1) (p2, s2)"
    using e assms(1) does_echo [of "(p, s1)" "[94, mark, NL]"] by (cases "pty_flag p ECHO") (auto simp: pty_does_def)
  then have "pty_ok p2" by (simp add: pty_does_def)
  note d = does_trans [OF does_trans [OF 1 2] does_clear [OF this]]
  have "pty_signal_char (p, g, s) sig mark = (p2\<lparr>edit_len := 0\<rparr>, g1, s2)"
    unfolding pty_signal_char_def Let_def prod.case gs fst_conv snd_conv e ..
  with d assms(2) show ?thesis by simp
qed

lemma ld_does:
  assumes ok: "pty_ok p" and run: "pty_ld_byte (p, g, s) c = (q, g', s')"
  shows "pty_does (\<lambda>e. ed_step PTY_EDIT_MAX (PTY_BUF_SIZE - 1) (pt_termios p) e c) (p, s) (q, s')"
proof -
  let ?c = "ed_key (pt_termios p) c"
  have k: "ed_key (pt_termios p) ?c = ?c" by (simp add: ed_key_def)
  have st: "ed_step n m (pt_termios p) e c = ed_step n m (pt_termios p) e ?c" for n m e by (simp add: ed_step_def k)
  show ?thesis
  proof (cases "ed_signal (pt_termios p) ?c")
    case True
    then obtain sig m where "pty_signal_char (p, g, s) sig m = (q, g', s')"
      using run by (auto simp: pty_ld_byte_def ed_signal_def pty_flag_def ed_key_def [symmetric] Let_def split: if_splits)
    from does_signal [OF ok this] True show ?thesis by (simp add: ed_step_def)
  next
    case False
    let ?ps = "if pty_flag p ICANON then pty_canonical_char (p, s) ?c
               else (let ps = m2s_push (p, s) ?c in if pty_flag (fst ps) ECHO then s2m_push ps ?c else ps)"
    have q: "?ps = (q, s')"
      using run False by (auto simp: pty_ld_byte_def ed_signal_def pty_flag_def ed_key_def [symmetric] Let_def split: if_splits)
    show ?thesis
    proof (cases "pty_flag p ICANON")
      case True
      then show ?thesis unfolding st using q does_canonical [OF ok _ False k, of s] by (simp add: ed_canonical_def pty_flag_def)
    next
      case raw: False
      obtain p1 s1 where 1: "m2s_push (p, s) ?c = (p1, s1)" by fastforce
      have f: "pty_does (\<lambda>e. e\<lparr>ed_ready := take (PTY_BUF_SIZE - 1) (ed_ready e @ [?c])\<rparr>) (p, s) (p1, s1)"
        using does_feed [of "(p, s)" "[?c]"] ok 1 by simp
      then have "pty_ok p1" by (simp add: pty_does_def)
      then have e: "pty_does (\<lambda>e. e\<lparr>ed_ready := take (PTY_BUF_SIZE - 1) (ed_ready e @ [?c])\<rparr>) (p, s) (s2m_push (p1, s1) ?c)"
        using does_trans [OF f does_echo1 [of "(p1, s1)" ?c]] by (simp only: fst_conv)
      have "(if pty_flag p1 ECHO then s2m_push (p1, s1) ?c else (p1, s1)) = (q, s')" using q raw 1 by (simp add: Let_def split: if_splits)
      then have "pty_does (\<lambda>e. e\<lparr>ed_ready := take (PTY_BUF_SIZE - 1) (ed_ready e @ [?c])\<rparr>) (p, s) (q, s')"
        using e f by (cases "pty_flag p1 ECHO") (simp_all only: if_True if_False)
      then show ?thesis using raw False by (simp add: ed_step_def ed_canonical_def pty_flag_def)
    qed
  qed
qed

abbreviation pty_settings :: "pty \<times> signals \<times> sched \<Rightarrow> termios" where "pty_settings x \<equiv> pt_termios (fst x)"

interpretation pty_ld: line_discipline "\<lambda>x. pty_ok (fst x)" "\<lambda>x. pty_view (fst x)" pty_settings pty_ld_byte PTY_EDIT_MAX "PTY_BUF_SIZE - 1"
proof
  fix x :: "pty \<times> signals \<times> sched" and c
  obtain p g s where x: "x = (p, g, s)" by (metis prod_cases3)
  obtain q g' s' where h: "pty_ld_byte x c = (q, g', s')" by (metis prod_cases3)
  show "pty_ok (fst (pty_ld_byte x c))" "pty_settings (pty_ld_byte x c) = pty_settings x"
    "pty_view (fst (pty_ld_byte x c)) = ed_step PTY_EDIT_MAX (PTY_BUF_SIZE - 1) (pty_settings x) (pty_view (fst x)) c"
    if "pty_ok (fst x)" using ld_does [of p g s c] that h x by (auto simp: pty_does_def)
  show "length (ed_line (pty_view (fst x))) \<le> PTY_EDIT_MAX \<and> length (ed_ready (pty_view (fst x))) \<le> PTY_BUF_SIZE - 1" if "pty_ok (fst x)"
    using that pty_ring.len_less [of "m2s (fst x)"] by (auto simp: pty_ok_def pty_view_def)
qed

lemma ld_wakes:
  "pty_ok p \<Longrightarrow> foldl pty_ld_byte (p, g, s) cs = (q, g', s') \<Longrightarrow> pty_ok q \<and> pty_wakes (p, s) (q, s') \<and> slave_open q = slave_open p"
proof (induction cs arbitrary: p g s)
  case (Cons c cs)
  obtain p1 g1 s1 where 1: "pty_ld_byte (p, g, s) c = (p1, g1, s1)" by (metis prod_cases3)
  from ld_does [OF Cons.prems(1) 1] Cons.IH [of p1 g1 s1] Cons.prems(2) 1 show ?case by (auto simp: pty_does_def intro: pty_wakes_trans)
qed simp

subsection \<open>Reads\<close>

lemma slave_turn_ok:
  assumes ok: "pty_ok p" and n: "0 < cnt" and run: "pty_slave_turn cnt nb (p, s) = Some (r, q, s')"
  shows "pty_ok q"
proof (cases "eof_pending p \<and> rb_empty (m2s p)")
  case True
  then show ?thesis using run ok by (auto simp: pty_slave_turn_def pty_ok_def pty_slave_has_data_def pty_master_has_data_def)
next
  case False
  obtain cs r' where d: "rb_drain PTY_BUF_SIZE (pty_flag p ICANON) cnt (m2s p) = (cs, r')" by fastforce
  have m: "rb_ok PTY_BUF_SIZE (m2s p)" using ok by (simp add: pty_ok_def)
  note l = pty_ring.drain_list [OF m d]
  have e: "cs = [] \<longleftrightarrow> rb_empty (m2s p)" using l n chunk_Nil pty_ring.empty_iff [OF m] by auto
  have e': "rb_empty (m2s p) \<Longrightarrow> rb_empty r'" using l pty_ring.empty_iff [OF m] pty_ring.empty_iff [of r'] by simp
  have "q = p\<lparr>m2s := r'\<rparr> \<or> cs = [] \<and> master_open p \<and> q = p\<lparr>m2s := r', slave_reader := current_task s\<rparr>"
    using run False d by (auto simp: pty_slave_turn_def Let_def split: if_splits)
  then show ?thesis using ok False e e' l by (auto simp: pty_ok_def pty_slave_has_data_def pty_master_has_data_def)
qed

lemma master_turn_ok:
  assumes ok: "pty_ok p" and n: "0 < cnt" and run: "pty_master_turn cnt (p, s) = Some (r, q, s')"
  shows "pty_ok q"
proof -
  obtain cs r' where d: "rb_drain PTY_BUF_SIZE False cnt (s2m p) = (cs, r')" by fastforce
  have m: "rb_ok PTY_BUF_SIZE (s2m p)" using ok by (simp add: pty_ok_def)
  note l = pty_ring.drain_list [OF m d]
  have e: "cs = [] \<longleftrightarrow> rb_empty (s2m p)" using l n chunk_Nil pty_ring.empty_iff [OF m] by auto
  have e': "rb_empty (s2m p) \<Longrightarrow> rb_empty r'" using l pty_ring.empty_iff [OF m] pty_ring.empty_iff [of r'] by simp
  have "q = p\<lparr>s2m := r'\<rparr> \<or> cs = [] \<and> slave_open p \<and> q = p\<lparr>s2m := r', master_reader := current_task s\<rparr>"
    using run d by (auto simp: pty_master_turn_def Let_def split: if_splits)
  then show ?thesis using ok e e' l by (auto simp: pty_ok_def pty_slave_has_data_def pty_master_has_data_def)
qed

lemma drained_ok: "pty_ok p \<Longrightarrow> rb_drain PTY_BUF_SIZE False cnt (s2m p) = (cs, r) \<Longrightarrow> pty_ok (p\<lparr>s2m := r\<rparr>)"
  using pty_ring.drain_list [of "s2m p" False cnt cs r] pty_ring.empty_iff [of "s2m p"] pty_ring.empty_iff [of r]
  by (auto simp: pty_ok_def pty_slave_has_data_def pty_master_has_data_def)

lemma master_read_ok:
  assumes "pty_ok p" "0 < cnt" "pty_master_read buf cnt nb (p, s) = Some (r, q, s')"
  shows "pty_ok q"
  using assms master_turn_ok [OF assms(1,2)] drained_ok [OF assms(1)] by (auto simp: pty_master_read_def split: if_splits prod.splits)

lemma slave_read_ok:
  assumes "pty_ok p" "0 < cnt" "pty_slave_read buf cnt nb (p, s) = Some (r, q, s')"
  shows "pty_ok q"
proof -
  have "pty_ok (p\<lparr>slave_pgid := k\<rparr>)" for k using assms(1) by (simp add: pty_ok_def pty_slave_has_data_def pty_master_has_data_def)
  then show ?thesis using assms slave_turn_ok [of _ cnt nb s r q s'] by (auto simp: pty_slave_read_def Let_def split: if_splits)
qed

lemma no_reader_ok: "pty_ok p \<Longrightarrow> pty_ok (p\<lparr>slave_reader := None\<rparr>)" "pty_ok p \<Longrightarrow> pty_ok (p\<lparr>master_reader := None\<rparr>)"
  by (simp_all add: pty_ok_def pty_slave_has_data_def pty_master_has_data_def)

subsection \<open>Every operation keeps the invariant\<close>

lemma fresh_ok: "pty_ok (pty_fresh i)"
  by (simp add: pty_fresh_def zero_pty_def zero_ring_def pty_ok_def rb_ok_def pty_slave_has_data_def pty_master_has_data_def PTY_BUF_SIZE_def)

lemma close_master_ok: "pty_ok p \<Longrightarrow> pty_ok (fst (pty_close_master (p, s)))"
  by (auto simp: pty_close_master_def wake_slave_reader_def Let_def pty_ok_def pty_slave_has_data_def pty_master_has_data_def)

lemma close_slave_ok: "pty_ok p \<Longrightarrow> pty_ok (fst (pty_close_slave (p, s)))"
  by (auto simp: pty_close_slave_def wake_master_reader_def Let_def pty_ok_def pty_slave_has_data_def pty_master_has_data_def)

lemma attributes_ok:
  assumes "pty_ok p"
  shows "pty_ok (pty_open_slave p s pgid)" "pty_ok (pty_set_lock p v)" "pty_ok (snd (pty_tcsetpgrp p sid pgid))" "pty_ok (snd (pty_set_ctty p sid pgid))"
    "pty_ok (fst (snd (pty_set_winsize (p, g, s) w)))" "pty_ok (snd (pty_tcsetattr p action inp))"
  using assms pty_ring.reset_list [of "m2s p"] pty_ring.empty_iff [of "rb_reset (m2s p)"]
  by (auto simp: pty_open_slave_def pty_set_lock_def pty_tcsetpgrp_def pty_set_ctty_def pty_set_winsize_def pty_tcsetattr_def Let_def
      pty_ok_def pty_slave_has_data_def pty_master_has_data_def split: option.splits)

lemma slave_put_does: "pty_ok (fst x) \<Longrightarrow> pty_does (\<lambda>e. e) x (pty_slave_put x c)"
  using does_echo [of x "[CR, c]"] does_echo1 [of x c] by (auto simp: pty_slave_put_def Let_def)

lemma slave_puts_does: "pty_ok (fst x) \<Longrightarrow> pty_does (\<lambda>e. e) x (foldl pty_slave_put x cs)"
proof (induction cs arbitrary: x)
  case (Cons c cs)
  note d = slave_put_does [OF Cons.prems, of c]
  then show ?case using does_trans [OF d Cons.IH] by (simp add: pty_does_def)
qed (simp add: pty_does_def)

lemma master_write_ok:
  "pty_ok p \<Longrightarrow> pty_master_write (p, g, s) buf = (r, q, g', s') \<Longrightarrow> pty_ok q \<and> pty_wakes (p, s) (q, s')"
  using ld_wakes [of p g s _ q g' s'] by (auto simp: pty_master_write_def split: option.splits if_splits)

lemma slave_write_ok:
  assumes "pty_ok p" "pty_slave_write (p, s) buf = (r, q, s')"
  shows "pty_ok q \<and> pty_wakes (p, s) (q, s')"
proof (cases buf)
  case (Some cs)
  from slave_puts_does [of "(p, s)" cs] assms Some show ?thesis by (auto simp: pty_slave_write_def pty_does_def split: if_splits)
qed (use assms in \<open>simp add: pty_slave_write_def\<close>)

subsection \<open>Reachable pools\<close>

text \<open>
  Any sequence of operations on descriptors, of reads that go on after a block, of exits, and of anything
  the rest of the kernel does with signals and tasks. A read asks for at least one byte: \<^verbatim>\<open>sys_read\<close> answers the others itself.
\<close>

inductive pty_step :: "ptys \<times> signals \<times> sched \<Rightarrow> ptys \<times> signals \<times> sched \<Rightarrow> bool" where
  rest: "pty_step (P, g, s) (P, g', s')"
| open_ptmx: "devfs_open_ptmx P = (r, P') \<Longrightarrow> pty_step (P, g, s) (P', g, s)"
| open_pts: "devfs_open_pts P s n = (r, P') \<Longrightarrow> pty_step (P, g, s) (P', g, s)"
| close_ptmx: "devfs_close_ptmx P s n = (P', s') \<Longrightarrow> pty_step (P, g, s) (P', g, s')"
| close_pts: "devfs_close_pts P s n = (P', s') \<Longrightarrow> pty_step (P, g, s) (P', g, s')"
| master_write: "pty_get P n = Some i \<Longrightarrow> pty_master_write (P i, g, s) buf = (r, p, g', s') \<Longrightarrow> pty_step (P, g, s) (P(i := p), g', s')"
| slave_write: "pty_get P n = Some i \<Longrightarrow> pty_slave_write (P i, s) buf = (r, p, s') \<Longrightarrow> pty_step (P, g, s) (P(i := p), g, s')"
| master_read: "pty_get P n = Some i \<Longrightarrow> 0 < cnt \<Longrightarrow> pty_master_read b cnt nb (P i, s) = Some (r', p, s') \<Longrightarrow> pty_step (P, g, s) (P(i := p), g, s')"
| slave_read: "pty_get P n = Some i \<Longrightarrow> 0 < cnt \<Longrightarrow> pty_slave_read b cnt nb (P i, s) = Some (r', p, s') \<Longrightarrow> pty_step (P, g, s) (P(i := p), g, s')"
| master_resume: "i < PTY_MAX \<Longrightarrow> 0 < cnt \<Longrightarrow> pty_master_resume cnt (P i, s) = Some (r', p, s') \<Longrightarrow> pty_step (P, g, s) (P(i := p), g, s')"
| slave_resume: "i < PTY_MAX \<Longrightarrow> 0 < cnt \<Longrightarrow> pty_slave_resume cnt nb (P i, s) = Some (r', p, s') \<Longrightarrow> pty_step (P, g, s) (P(i := p), g, s')"
| set_lock: "pty_get P n = Some i \<Longrightarrow> pty_step (P, g, s) (P(i := pty_set_lock (P i) v), g, s)"
| set_attr: "pty_get P n = Some i \<Longrightarrow> pty_step (P, g, s) (P(i := snd (pty_tcsetattr (P i) action inp)), g, s)"
| set_winsize: "pty_get P n = Some i \<Longrightarrow> pty_set_winsize (P i, g, s) w = (r'', p, g', s') \<Longrightarrow> pty_step (P, g, s) (P(i := p), g', s')"
| set_pgrp: "pty_get P n = Some i \<Longrightarrow> pty_step (P, g, s) (P(i := snd (pty_tcsetpgrp (P i) sid pgid)), g, s)"
| set_ctty: "pty_get P n = Some i \<Longrightarrow> pty_step (P, g, s) (P(i := snd (pty_set_ctty (P i) sid pgid)), g, s)"
| cleanup: "pty_step (P, g, s) (pty_task_cleanup P t, g, s)"

definition pool_ok :: "ptys \<Rightarrow> bool" where
  "pool_ok P \<longleftrightarrow> (\<forall>i < PTY_MAX. pty_ok (P i))"

lemma pool_okD: "pool_ok P \<Longrightarrow> pty_get P n = Some i \<Longrightarrow> pty_ok (P i)"
  by (auto simp: pool_ok_def pty_get_def split: if_splits)

lemma pool_upd: "pool_ok P \<Longrightarrow> pty_ok p \<Longrightarrow> pool_ok (P(i := p))"
  by (simp add: pool_ok_def)

lemma cleanup_ok: "pool_ok P \<Longrightarrow> pool_ok (pty_task_cleanup P t)"
  by (auto simp: pool_ok_def pty_task_cleanup_def pty_ok_def pty_slave_has_data_def pty_master_has_data_def)

lemma pool_open_ok:
  assumes "pool_ok P"
  shows "devfs_open_ptmx P = (r, P') \<Longrightarrow> pool_ok P'" "devfs_open_pts P s n = (r, P') \<Longrightarrow> pool_ok P'"
  using assms pool_upd [OF assms] fresh_ok attributes_ok(1) pool_okD [OF assms]
  by (auto simp: devfs_open_ptmx_def pty_alloc_def devfs_open_pts_def split: option.splits if_splits)

lemma pool_close_ok:
  assumes "pool_ok P"
  shows "devfs_close_ptmx P s n = (P', s') \<Longrightarrow> pool_ok P'" "devfs_close_pts P s n = (P', s') \<Longrightarrow> pool_ok P'"
  using assms pool_upd [OF assms] close_master_ok close_slave_ok pool_okD [OF assms]
  by (auto simp: devfs_close_ptmx_def devfs_close_pts_def Let_def split: option.splits)

lemma pty_step_ok:
  assumes "pty_step x y" "pool_ok (fst x)" shows "pool_ok (fst y)"
  using assms
proof (induction rule: pty_step.induct)
  case (master_resume i cnt P s r p s' g)
  then show ?case using master_turn_ok [of "(P i)\<lparr>master_reader := None\<rparr>" cnt s r p s']
    by (auto simp: pty_master_resume_def pool_ok_def no_reader_ok)
next
  case (slave_resume i cnt nb P s r p s' g)
  then show ?case using slave_turn_ok [of "(P i)\<lparr>slave_reader := None\<rparr>" cnt nb s r p s']
    by (auto simp: pty_slave_resume_def pool_ok_def no_reader_ok)
next
  case (set_winsize P n i g s w r p g' s')
  then show ?case using attributes_ok(5) [of "P i" g s w] pool_okD [of P n i] pool_upd [of P p i] by (simp add: fun_upd_def)
qed (auto intro!: pool_upd cleanup_ok attributes_ok dest: pool_okD master_write_ok slave_write_ok master_read_ok slave_read_ok
  intro: pool_open_ok pool_close_ok)

interpretation ptysys: invariant_system pty_step "\<lambda>x. pool_ok (fst x)"
  by unfold_locales (rule pty_step_ok)

text \<open>A push to the master leaves every task alone but the one that waits there.\<close>

lemma s2m_push_state:
  assumes "s2m_push (p, s) c = (q, s')" "master_reader p \<noteq> Some t"
  shows "state_of s' t = state_of s t \<and> master_reader q \<noteq> Some t"
proof -
  have "state_of (sched_unblock s (Some m)) t = state_of s t" if "m \<noteq> t" for m using that by simp
  then show ?thesis using assms by (auto simp: s2m_push_def wake_master_reader_def split: prod.splits bool.splits if_splits)
qed

lemma s2m_puts_state:
  "foldl s2m_push (p, s) cs = (q, s') \<Longrightarrow> master_reader p \<noteq> Some t \<Longrightarrow> state_of s' t = state_of s t"
proof (induction cs arbitrary: p s)
  case (Cons c cs)
  obtain p1 s1 where 1: "s2m_push (p, s) c = (p1, s1)" by fastforce
  from s2m_push_state [OF 1 Cons.prems(2)] Cons.IH [of p1 s1] Cons.prems(1) 1 show ?case by simp
qed simp

text \<open>A pair whose slave is open, and a shell that is blocked on it.\<close>

definition pty_demo :: pty where
  "pty_demo = (pty_fresh 0)\<lparr>slave_open := True, slave_pgid := 1, slave_reader := Some 0\<rparr>"

definition blocked_demo :: sched where
  "blocked_demo = shell_demo\<lparr>task_pool := (\<lambda>_. zero_tcb\<lparr>t_state := TCB_BLOCKED\<rparr>)\<rparr>"

lemma pty_demo:
  "pty_ok pty_demo" "slave_open pty_demo" "slave_reader pty_demo = Some 0" "slave_pgid pty_demo = 1" "pt_termios pty_demo = tty_termios_defaults"
  "pty_view pty_demo = \<lparr>ed_line = [], ed_ready = [], ed_eof = False\<rparr>" "master_reader pty_demo = None"
  using fresh_ok [of 0]
  by (auto simp: pty_demo_def pty_ok_def pty_fresh_def zero_pty_def zero_ring_def pty_slave_has_data_def pty_master_has_data_def rb_empty_def
      pty_termios_defaults_def tty_termios_defaults_def tty_consts pty_view_def rb_list_def)

lemma blocked_demo: "state_of blocked_demo 0 = TCB_BLOCKED" "in_pgrp blocked_demo 1 0"
  by (simp_all add: blocked_demo_def shell_demo_def sched_bss_def zero_ctx_def zero_proc_def in_pgrp_def sched_task_is_user_def pgid_of_def proc_of_def
      SCHED_MAX_TASKS_def)

subsection \<open>Properties\<close>

text \<open>
  C37. From boot on, whatever is opened, written, read, closed or set on the pairs and whatever else the
  kernel does: every ring index and line length is within its array, and no reader is registered on an end that
  has data, a pending end of file or a closed other end. A task that waits in a read has nothing to read.
\<close>

theorem pty_reachable_inv:
  "pty_step\<^sup>*\<^sup>* (pty_init (\<lambda>_. zero_pty), g0, s0) (P, g, s) \<Longrightarrow> i < PTY_MAX \<Longrightarrow> pty_ok (P i)"
proof -
  assume "pty_step\<^sup>*\<^sup>* (pty_init (\<lambda>_. zero_pty), g0, s0) (P, g, s)" "i < PTY_MAX"
  moreover have "pool_ok (pty_init (\<lambda>_. zero_pty))"
    using fresh_ok by (simp add: pool_ok_def pty_init_def pty_fresh_def zero_pty_def pty_ok_def pty_slave_has_data_def pty_master_has_data_def)
  ultimately show ?thesis using ptysys.run_inv by (fastforce simp: pool_ok_def)
qed

theorem pty_reachable_inv_witness:
  "\<exists>P. pty_step\<^sup>*\<^sup>* (pty_init (\<lambda>_. zero_pty), sig_boot, sched_bss) (P, sig_boot, sched_bss) \<and> pt_in_use (P 0) \<and> pty_ok (P 0)"
proof -
  let ?P = "(pty_init (\<lambda>_. zero_pty))(0 := pty_fresh 0)"
  have "devfs_open_ptmx (pty_init (\<lambda>_. zero_pty)) = (Inr 0, ?P)"
    by (simp add: devfs_open_ptmx_def pty_alloc_def for_find.simps PTY_MAX_def pty_init_def)
  then have "pty_step\<^sup>*\<^sup>* (pty_init (\<lambda>_. zero_pty), sig_boot, sched_bss) (?P, sig_boot, sched_bss)"
    by (intro r_into_rtranclp) (rule pty_step.open_ptmx)
  from this pty_reachable_inv [OF this, of 0] show ?thesis
    by (intro exI [of _ ?P]) (simp add: PTY_MAX_def pty_fresh_def)
qed

text \<open>
  What is written to the master goes through the same editor as what is typed at the console, with room
  for 4095 bytes: the line being edited, the bytes the slave can read and the pending end of file are the editor's. No write blocks or
  reports a short count, and each wakes every reader that it gives something to read.
\<close>

lemma pty_refines_editor:
  assumes ok: "pty_ok p" and o: "slave_open p" and w: "pty_master_write (p, g, s) (Some cs) = (r, q, g', s')"
  shows "r = Inr (length cs) \<and> pty_ok q \<and> pt_termios q = pt_termios p \<and>
    pty_view q = foldl (ed_step PTY_EDIT_MAX (PTY_BUF_SIZE - 1) (pt_termios p)) (pty_view p) cs \<and>
    (\<forall>t. slave_reader p = Some t \<longrightarrow> pty_slave_has_data q \<longrightarrow> state_of s' t \<noteq> TCB_BLOCKED)"
proof -
  have f: "r = Inr (length cs)" "foldl pty_ld_byte (p, g, s) cs = (q, g', s')" using w o by (auto simp: pty_master_write_def)
  note k = ld_wakes [OF ok f(2)]
  have "slave_reader q = None" if "pty_slave_has_data q" using k that by (auto simp: pty_ok_def)
  then show ?thesis using f pty_ld.steps_view [of "(p, g, s)" cs] ok k by (auto simp: pty_wakes_def)
qed

text \<open>
  C38. A reader that is blocked on the slave gets the line: when a text of at most 256 characters and a newline are
  written to the master, the reader is woken and registered no more, and its read, once it runs again, returns
  exactly that line.
\<close>

theorem pty_blocked_reader_served:
  assumes ok: "pty_ok p" and o: "slave_open p" "slave_reader p = Some t"
    and tio: "ed_canonical (pt_termios p)" "ed_ordinary (pt_termios p) NL" "list_all (ed_text (pt_termios p)) cs"
    and line: "ed_line (pty_view p) = []" and n: "length cs \<le> PTY_EDIT_MAX" "length cs < cnt"
    and w: "pty_master_write (p, g, s) (Some (cs @ [NL])) = (r, q, g', s')"
  shows "state_of s' t \<noteq> TCB_BLOCKED \<and> slave_reader q = None \<and>
    (\<forall>s2. \<exists>q'. pty_slave_resume cnt nb (q, s2) = Some (Pty_got (cs @ [NL]), q', s2) \<and> pty_ok q' \<and> pty_view q' = pty_view p)"
proof -
  have f: "foldl pty_ld_byte (p, g, s) (cs @ [NL]) = (q, g', s')" using w o by (auto simp: pty_master_write_def)
  note k = ld_wakes [OF ok f]
  have none: "\<not> pty_slave_has_data p" "rb_ok PTY_BUF_SIZE (m2s p)" using ok o(2) by (auto simp: pty_ok_def)
  then have rdy: "ed_ready (pty_view p) = []" "\<not> eof_pending p"
    using pty_ring.empty_iff by (auto simp: pty_view_def pty_slave_has_data_def)
  have v: "pty_view q = (pty_view p)\<lparr>ed_ready := cs @ [NL]\<rparr>" "pt_termios q = pt_termios p"
    using pty_ld.line_typed [of "(p, g, s)" cs] pty_ld.steps_view [of "(p, g, s)" "cs @ [NL]"] ok tio line n f rdy
    by (simp_all add: PTY_EDIT_MAX_def PTY_BUF_SIZE_def)
  have m: "rb_ok PTY_BUF_SIZE (m2s q)" "rb_list PTY_BUF_SIZE (m2s q) = cs @ [NL]" "\<not> eof_pending q"
    using k v rdy by (auto simp: pty_ok_def pty_view_def)
  then have "pty_slave_has_data q" using pty_ring.empty_iff [OF m(1)] by (simp add: pty_slave_has_data_def)
  then have sr: "slave_reader q = None" "state_of s' t \<noteq> TCB_BLOCKED" using k o(2) by (auto simp: pty_ok_def pty_wakes_def)
  obtain ds r' where d: "rb_drain PTY_BUF_SIZE True cnt (m2s q) = (ds, r')" by fastforce
  have "NL \<notin> set cs" using tio(3) printable_not by (auto simp: list_all_iff ed_text_def)
  then have ds: "ds = cs @ [NL]" using pty_ring.drain_list [OF m(1) d] m(2) chunk_line [of cs cnt "[]"] n(2) by simp
  have "pty_slave_resume cnt nb (q, s2) = Some (Pty_got (cs @ [NL]), q\<lparr>slave_reader := None, m2s := r'\<rparr>, s2)" for s2
    using d ds m(3) tio(1) v(2) by (simp add: pty_slave_resume_def pty_slave_turn_def pty_flag_def ed_canonical_def)
  moreover have "pty_view (q\<lparr>slave_reader := None, m2s := r'\<rparr>) = pty_view p"
    using v(1) rdy pty_ring.drain_list [OF m(1) d] m(2) ds by (auto simp: pty_view_def)
  moreover have "pty_ok (q\<lparr>slave_reader := None, m2s := r'\<rparr>)"
    using k pty_ring.drain_list [OF m(1) d] by (auto simp: pty_ok_def pty_master_has_data_def)
  ultimately show ?thesis using sr by blast
qed

theorem pty_blocked_reader_served_witness:
  "\<exists>q g' s'. pty_master_write (pty_demo, sig_boot, blocked_demo) (Some [104, 105, NL]) = (Inr 3, q, g', s') \<and>
     state_of blocked_demo 0 = TCB_BLOCKED \<and> state_of s' 0 \<noteq> TCB_BLOCKED \<and>
     (\<exists>q'. pty_slave_resume 16 False (q, s') = Some (Pty_got [104, 105, NL], q', s'))"
proof -
  obtain r q g' s' where w: "pty_master_write (pty_demo, sig_boot, blocked_demo) (Some ([104, 105] @ [NL])) = (r, q, g', s')" by (metis prod_cases4)
  have "list_all (ed_text (pt_termios pty_demo)) [104, 105]" by (simp add: pty_demo(5) defaults_text(3))
  from pty_blocked_reader_served [OF pty_demo(1-3) _ _ this _ _ _ w, of 16 False]
  have "state_of s' 0 \<noteq> TCB_BLOCKED \<and> (\<exists>q'. pty_slave_resume 16 False (q, s') = Some (Pty_got [104, 105, NL], q', s'))"
    by (auto simp: pty_demo defaults_text PTY_EDIT_MAX_def)
  moreover have "r = Inr 3" using w pty_demo(2) by (auto simp: pty_master_write_def eval_nat_numeral)
  ultimately show ?thesis using w blocked_demo(1) by auto
qed

text \<open>
  C39. The interrupt character does not interrupt a read of the slave. When it is written to the master while a task of the foreground
  group is blocked in a read, SIGINT becomes pending for that task, but it stays blocked and registered: the
  signal is acted on only after somebody writes a line or closes the master.
\<close>

theorem pty_interrupt_keeps_reader:
  assumes ok: "pty_ok p" and o: "slave_open p" "slave_reader p = Some t" "state_of s t = TCB_BLOCKED" "master_reader p \<noteq> Some t"
    and grp: "in_pgrp s (slave_pgid p) t" "slave_pgid p \<noteq> 0"
    and c: "c_lflag (pt_termios p) AND ISIG \<noteq> 0" "ed_key (pt_termios p) c = c_cc (pt_termios p) VINTR"
    and w: "pty_master_write (p, g, s) (Some [c]) = (r, q, g', s')"
  shows "bit (sg_pending (task_sig g' s t)) 1 \<and> state_of s' t = TCB_BLOCKED \<and> slave_reader q = Some t \<and> \<not> pty_slave_has_data q"
proof -
  have sg: "pty_signal_char (p, g, s) SIGINT 67 = (q, g', s')"
    using w o(1) c by (simp add: pty_master_write_def pty_ld_byte_def pty_flag_def ed_key_def [symmetric] Let_def)
  obtain r1 g1 s1 where snd: "signal_send_pgrp g s (slave_pgid p) SIGINT = (r1, g1, s1)" by (metis prod_cases3)
  note p = send_pgrp_plain [OF sends_sigint grp(2) snd]
  obtain p2 s2 where e: "(if pty_flag p ECHO then foldl s2m_push (p, s) [94, 67, NL] else (p, s)) = (p2, s2)" by fastforce
  have "pty_signal_char (p, g, s) SIGINT 67 = (p2\<lparr>edit_len := 0\<rparr>, g1, s2)"
    unfolding pty_signal_char_def Let_def prod.case snd if_P [OF grp(2)] snd_conv fst_conv p(1) e ..
  then have q: "q = p2\<lparr>edit_len := 0\<rparr>" "g' = g1" "s' = s2" using sg by auto
  have "state_of s2 t = TCB_BLOCKED" using e o(3,4) s2m_puts_state [of p s "[94, 67, NL]" p2 s2 t] by (auto split: if_splits)
  moreover have "slave_reader p2 = Some t" using e o(2) s2m_puts_ok [OF ok, of s "[94, 67, NL]" p2 s2] to_master_view(5) [of p p2] by (auto split: if_splits)
  moreover have "bit (sg_pending (task_sig g' s t)) 1" using p(2) [OF grp(1)] q(2) by (simp add: SIGINT_def)
  moreover have "pty_ok q" using master_write_ok [OF ok w] by simp
  ultimately show ?thesis using q by (auto simp: pty_ok_def)
qed

theorem pty_interrupt_keeps_reader_witness:
  "\<exists>q g' s'. pty_master_write (pty_demo, sig_boot, blocked_demo) (Some [3]) = (Inr 1, q, g', s') \<and>
     bit (sg_pending (task_sig g' blocked_demo 0)) 1 \<and> state_of s' 0 = TCB_BLOCKED \<and> slave_reader q = Some 0"
proof -
  obtain r q g' s' where w: "pty_master_write (pty_demo, sig_boot, blocked_demo) (Some [3]) = (r, q, g', s')" by (metis prod_cases4)
  have "c_lflag (pt_termios pty_demo) AND ISIG \<noteq> 0" "ed_key (pt_termios pty_demo) 3 = c_cc (pt_termios pty_demo) VINTR"
    by (simp_all add: pty_demo(5) tty_termios_defaults_def ed_key_def tty_consts)
  from pty_interrupt_keeps_reader [OF pty_demo(1-3) blocked_demo(1) _ _ _ this w] blocked_demo(2) pty_demo(4,7)
  have "bit (sg_pending (task_sig g' blocked_demo 0)) 1 \<and> state_of s' 0 = TCB_BLOCKED \<and> slave_reader q = Some 0" by simp
  moreover have "r = Inr 1" using w pty_demo(2) by (simp add: pty_master_write_def)
  ultimately show ?thesis using w by blast
qed

text \<open>
  The slave end counts no descriptors. When it is opened twice and one of the two is closed, the pair takes
  the slave for closed; when the master is closed too, the slot is free, and the next pair that is opened
  gets it, although a descriptor of the old slave is still open and now names the new pair.
\<close>

lemma pty_stale_slave:
  assumes i: "pty_get P i = Some i" "\<not> pt_locked (P i)" "\<forall>j < i. pt_in_use (P j)"
    and run: "devfs_open_pts P s i = (r1, P1)" "devfs_open_pts P1 s i = (r2, P2)"
      "devfs_close_pts P2 s i = (P3, s3)" "devfs_close_ptmx P3 s3 i = (P4, s4)" "devfs_open_ptmx P4 = (r5, P5)"
  shows "r1 = Inr i \<and> r2 = Inr i \<and> \<not> slave_open (P3 i) \<and> \<not> pt_in_use (P4 i) \<and> r5 = Inr i \<and> pty_get P5 i = Some i \<and> P5 i = pty_fresh i"
proof -
  have lt: "i < PTY_MAX" "pt_in_use (P i)" using i(1) by (auto simp: pty_get_def split: if_splits)
  have op: "pt_in_use (pty_open_slave p s 0) = pt_in_use p" "pt_locked (pty_open_slave p s 0) = pt_locked p" "slave_open (pty_open_slave p s 0)" for p
    by (simp_all add: pty_open_slave_def Let_def)
  have g: "pty_get Q i = Some i" if "pt_in_use (Q i)" for Q using that lt(1) by (simp add: pty_get_def)
  have p1: "r1 = Inr i" "P1 = P(i := pty_open_slave (P i) s 0)" using run(1) i lt by (auto simp: devfs_open_pts_def)
  then have p2: "r2 = Inr i" "P2 = P1(i := pty_open_slave (P1 i) s 0)" using run(2) i(2) lt g [of P1] by (auto simp: devfs_open_pts_def op)
  have u2: "pt_in_use (P2 i)" using p1 p2 lt(2) by (simp add: op)
  have p3: "P3 = P2(i := fst (pty_close_slave (P2 i, s)))" using run(3) g [of P2, OF u2] by (auto simp: devfs_close_pts_def Let_def)
  have c3: "\<not> slave_open (P3 i)" "pt_in_use (P3 i) \<longleftrightarrow> master_open (P3 i)"
    using u2 by (auto simp: p3 pty_close_slave_def wake_master_reader_def Let_def)
  have p4: "\<not> pt_in_use (P4 i)" "\<forall>j. j \<noteq> i \<longrightarrow> P4 j = P j"
    using run(4) c3 g [of P3] by (auto simp: devfs_close_ptmx_def pty_get_def lt pty_close_master_def wake_slave_reader_def Let_def p1(2) p2(2) p3 split: if_splits)
  have "for_find (\<lambda>j. \<not> pt_in_use (P4 j)) 0 PTY_MAX = Some i" using p4 i(3) lt(1) by (auto simp: for_find_Some)
  then have "r5 = Inr i" "P5 = P4(i := pty_fresh i)" using run(5) by (auto simp: devfs_open_ptmx_def pty_alloc_def)
  then show ?thesis using p1 p2 c3 p4 g [of P5] by (simp add: pty_fresh_def)
qed

end
