(* ===== verification/Spec2Isabelle.thy ===== *)
theory Spec2Isabelle
  imports Cap Proc Utf8 Futex Ksem_Props Mreact Vmm Kheap Ipc Kmon_Props Signal_Props Pty
begin

text \<open>
  \<^bold>\<open>A verification of the EnlilOS kernel core.\<close>

  EnlilOS is a microkernel for AArch64 written in C (\<^verbatim>\<open>src/kernel\<close>, headers in
  \<^verbatim>\<open>src/include\<close>). A system call enters with interrupts masked, works on statically sized
  tables and leaves; it gives up the processor only where it calls \<^verbatim>\<open>sched_block\<close> or
  \<^verbatim>\<open>sched_yield\<close>. The development follows that shape: a component is a record that holds
  its tables, an operation is a function on the record, a call that blocks is split at the point where it
  gives up the processor, and the interleavings are the runs of a step relation.

  \<^bold>\<open>Parts and theories.\<close>

  \<^item> \<open>Prelude\<close>: word types, the error numbers of \<^verbatim>\<open>include/syscall.h\<close>, the loop that searches a
    fixed table (\<open>for_find\<close>), and the locale \<open>invariant_system\<close> (a step relation with an invariant),
    which is interpreted for capabilities, scheduler, tasks, futexes, page frames, the heap, semaphores,
    monitors, message passing, signals and pseudo terminals.
  \<^item> \<open>Fifo\<close>: the intrusive singly linked queue with head and tail that \<^verbatim>\<open>sched.c\<close>,
    \<^verbatim>\<open>futex.c\<close>, \<^verbatim>\<open>ksem.c\<close> and \<^verbatim>\<open>kmon.c\<close> write out by hand; its contract is the locale
    \<open>fifo_queue\<close>, the pointer code is an instance, \<open>qarr\<close> is an array of such queues over one pool.
  \<^item> \<open>Cap\<close>: the capability manager \<^verbatim>\<open>kernel/cap.c\<close>, whole.
  \<^item> \<open>Sched\<close>: task pool, ready bitmap, run queues, \<^verbatim>\<open>schedule\<close>, \<^verbatim>\<open>sched_yield\<close>,
    \<^verbatim>\<open>sched_block\<close>, \<^verbatim>\<open>sched_unblock\<close>, the tick with interval timers and priority donation of
    \<^verbatim>\<open>kernel/sched.c\<close>.
  \<^item> \<open>Proc\<close>: the rest of \<^verbatim>\<open>kernel/sched.c\<close>: task and process slots, creation, fork, threads,
    exit, group exit, reaping, process groups, sessions, limits, timers, boot.
  \<^item> \<open>Blocking\<close>: what the components that block share about task states.
  \<^item> \<open>Futex\<close>: \<^verbatim>\<open>kernel/futex.c\<close>, whole; a hash table of wait queues, refined to one list per key.
  \<^item> \<open>Ksem\<close> and \<open>Ksem_Props\<close>: \<^verbatim>\<open>kernel/ksem.c\<close>, whole; semaphores, waiters, handles, one-shot
    and real-time semaphores with priority inheritance through the scheduler's donations.
  \<^item> \<open>Kmon\<close> and \<open>Kmon_Props\<close>: \<^verbatim>\<open>kernel/kmon.c\<close>, whole; monitors with condition queues, hand-over of ownership and priority
    inheritance.
  \<^item> \<open>Ipc\<close>: \<^verbatim>\<open>kernel/microkernel.c\<close>, whole; ports with synchronous request and reply, priority donation
    and statistics, mailboxes.
  \<^item> \<open>Signal\<close> and \<open>Signal_Props\<close>: \<^verbatim>\<open>kernel/signal.c\<close>, whole, with the calls \<^verbatim>\<open>sys_kill\<close> and \<^verbatim>\<open>sys_tgkill\<close> of
    \<^verbatim>\<open>kernel/syscall.c\<close>; masks and actions, sending, stop and continue, delivery with a frame in user memory, sigreturn.
  \<^item> \<open>Line_Discipline\<close>, \<open>Tty\<close> and \<open>Pty\<close>: the console \<^verbatim>\<open>kernel/tty.c\<close> and the pseudo terminals \<^verbatim>\<open>kernel/pty.c\<close>, both whole, with the
    places of \<^verbatim>\<open>kernel/vfs.c\<close> and \<^verbatim>\<open>kernel/syscall.c\<close> that open, close and unlock a pair. Byte rings are the
    locale \<open>byte_ring\<close>; the specification of line editing is \<open>ed_step\<close> with the locale \<open>line_discipline\<close>, and both terminals are
    instances of both.
  \<^item> \<open>Ring\<close> and \<open>Pmm\<close>: circular doubly linked lists and the buddy allocator of \<^verbatim>\<open>kernel/pmm.c\<close>.
  \<^item> \<open>Slab\<close>: the rest of \<^verbatim>\<open>kernel/pmm.c\<close>: size classes, guard words, \<^verbatim>\<open>kmalloc\<close>, \<^verbatim>\<open>kfree\<close>,
    \<^verbatim>\<open>slab_warm\<close> and \<^verbatim>\<open>pmm_init\<close>, over the page allocator and a memory of 32-bit words.
  \<^item> \<open>Kheap\<close>: the named object caches of \<^verbatim>\<open>kernel/kheap.c\<close>, whole; what they need of the heap is the locale
    \<open>object_heap\<close>, interpreted for the slab allocator.
  \<^item> \<open>Vmm\<close>: \<^verbatim>\<open>kernel/vmm.c\<close>, whole; file mappings per task with write-back.
  \<^item> \<open>Mreact\<close>: \<^verbatim>\<open>kernel/mreact.c\<close>, whole; subscriptions to conditions on words of user memory.
  \<^item> \<open>Utf8\<close>: \<^verbatim>\<open>kernel/utf8.c\<close>, whole, over a byte memory.

  \<^bold>\<open>How state and operations correspond.\<close> Definitions carry the names of the C functions. Pointers
  into a static table are indices (\<open>None\<close> is the null pointer); the \<^verbatim>\<open>next\<close> fields of a table are one map;
  counters, flags, addresses and rights are words of their C width, so wrap-around is that of the code.
  A function that returns a negative error number is a function into \<open>errno + 'a\<close>. Where C code
  walks a list or retries, the model is a \<open>partial_function (option)\<close> and \<open>None\<close> means that the
  C code does not return (an endless loop or, in \<open>Proc\<close> and \<open>Pmm\<close>, the panic loops); the
  theorems show that a value is returned on every reachable state, except where a panic is the documented result.

  \<^bold>\<open>What the theorems show.\<close>

  \<^item> Capabilities (C1 to C4): well-formed tables, no amplification of rights, complete revocation,
    errors without effect.
  \<^item> Scheduler (C5 and C6): run queues hold exactly the READY tasks and one task runs, on every run; which task
    \<^verbatim>\<open>schedule\<close> picks (the tick is the lemma \<open>sched_tick_effect\<close>; that \<^verbatim>\<open>schedule\<close> may demote a runnable task is \<open>schedule_demotes_running\<close>).
  \<^item> Tasks and processes (C7 to C9): reference counts equal live threads, exit,
    exhaustion of task slots (group exit and fork are the lemmas \<open>exit_group_kills_others\<close> and \<open>fork_child\<close>).
  \<^item> UTF-8 (C10): soundness of decoding (round trip with the encoder, termination and counting are lemmas of the theory).
  \<^item> Futexes (C11 and C12): refinement to queues per key, no lost wake-up (the invariant and the address check are lemmas).
  \<^item> Page frames (C13 to C15): allocation and release against the set of free pages, the kernel
    image is never handed out (the alignment error of the boot scan is the lemma \<open>pmm_boot_misaligned\<close>).
  \<^item> Semaphores (C16 and C17): invariant of the tables over all runs of the whole process layer, hand-off of
    tokens (priority inheritance, waiting, names and handles, errors are lemmas of the theory).
  \<^item> Subscriptions (C18): a turn of a wait agrees with the quantified condition on memory.
  \<^item> File mappings (C19): what is found after a mapping, and what unmapping writes back.
  \<^item> Heap (C20 to C23): boot, invariant over all runs (live objects disjoint, every one can be released), what
    \<^verbatim>\<open>kmalloc\<close> returns and when it panics, release, reuse and double release, the wrap-around of large sizes.
  \<^item> Object caches (C24 and C25): allocation and release against the objects in use, and the boot of the whole memory
    system.
  \<^item> Ports (C26 and C27): invariant over all runs of the process layer, a call with its reply from end to end.
  \<^item> Monitors (C28 and C29): invariant over all runs with no lost wake-up, hand-over on leaving (the order of
    signals and waiting are lemmas).
  \<^item> Signals (C30 to C34): SIGKILL and SIGSTOP stay deliverable on every run, what delivery does with a SIGKILL, that a
    handler shields its task from every signal, the round trip through a handler, and what sigreturn takes from user memory.
  \<^item> Console (C35 and C36): refinement of the line editing to the list editor in all settings, a typed line is what a read returns (that
    the interrupt character ends a read is the lemma \<open>tty_interrupt_read\<close>).
  \<^item> Pseudo terminals (C37 to C39): a waiting reader has nothing to read, on every run; a line that is written reaches a blocked
    reader; the interrupt character does not (the refinement and the reuse of a pair under an open descriptor are the lemmas
    \<open>pty_refines_editor\<close> and \<open>pty_stale_slave\<close>).
  \<^item> Signals and ports (C40, in this theory): a SIGCONT to a client of a port leaves the port unusable.

  \<^bold>\<open>Bounds.\<close> Table sizes are those of the headers. The loops over fixed tables are bounded
  searches and folds with no fuel; \<open>split_block\<close> and \<open>coalesce\<close> recurse on the order of a block, at most
  \<open>MAX_ORDER\<close>; the loops of the heap that fill a page or warm a class are shown to end when enough
  pages are free.

  \<^bold>\<open>Not modelled.\<close> Register switching and assembly, device registers, console output and the
  statistics functions. The memory management unit is seen only through the word at a user address (a parameter of the
  futex and subscription operations) and whether an address resolves (file mappings), the file system through the list of page
  writes of an unmapping, exit hooks through parameters that keep the scheduler's data. The signal code reaches user memory
  through the two calls of the MMU that it makes, with a contract for them (\<open>mmu_contract\<close>); the alarm that the tick sends is a
  parameter of the scheduler's theory, and \<open>signal_alarm_ok\<close> shows that the signal code meets what is asked of it. Page-table code,
  file systems, the ELF loader, the text console \<^verbatim>\<open>kernel/term80.c\<close>, sockets, System V IPC and the system call dispatcher are not covered; they move
  data between devices, user memory and the components above.
\<close>

subsection \<open>Signals and ports\<close>

text \<open>A sender of signals is a run of scheduler steps for the other components.\<close>

lemma wakes_ipc_steps: "wakes s s' \<Longrightarrow> ipc_step\<^sup>*\<^sup>* (m, s, fl) (m, s', fl)"
proof -
  have "ipc_step\<^sup>*\<^sup>* (m, s, fl) (m, wake_all s ws, fl)" if "\<forall>w \<in> set ws. w < task_count s" for ws
    using that
  proof (induction ws arbitrary: s)
    case (Cons w ws)
    then have "ipc_step (m, s, fl) (m, sched_unblock s (Some w), fl)"
      by (intro ipc_step.process task_step.sched sched_step.step_unblock) simp
    moreover have "ipc_step\<^sup>*\<^sup>* (m, sched_unblock s (Some w), fl) (m, wake_all (sched_unblock s (Some w)) ws, fl)"
      by (rule Cons.IH) (use Cons.prems in simp)
    ultimately show ?case by simp
  qed simp
  then show "wakes s s' \<Longrightarrow> ?thesis" by (auto simp: wakes_def)
qed

text \<open>
  C40. A SIGCONT to a task that is blocked in a call on a port wakes it, although no signal has stopped it and no
  reply is there. When it runs, its call fails with \<open>EAGAIN\<close> and leaves it the active client of the port for ever:
  from then on every call on the port fails, and it can be neither destroyed nor given to another owner.
\<close>

theorem sigcont_wedges_port:
  assumes inv: "ipc_inv (m, s, fl)" and c: "fl c = Some (InCall i t)" "state_of s c = TCB_BLOCKED" "sched_task_is_user s (Some c)" "c < task_count s"
    and early: "\<not> reply_valid (ports m i)" and send: "signal_send_task g s (Some c) SIGCONT = (r, g', s')"
  shows "r = Inr () \<and> state_of s' c = TCB_READY \<and> ipc_step\<^sup>*\<^sup>* (m, s, fl) (m, s', fl) \<and>
    (\<forall>s2. ipc_step\<^sup>*\<^sup>* (m, s', fl) (m, s2, fl) \<and> current_task s2 = Some c \<longrightarrow>
       mk_ipc_call_finish m i t = (Inl EAGAIN, m) \<and> ipc_step (m, s2, fl) (m, s2, fl(c := None)) \<and>
       (\<forall>m' s3 fl'. ipc_step\<^sup>*\<^sup>* (m, s2, fl(c := None)) (m', s3, fl') \<longrightarrow> mk_port_by_id m' (port_id (ports m i)) = Some i \<longrightarrow>
          (\<exists>e. mk_ipc_call junk now m' s3 out (port_id (ports m i)) ty data len = Some (Inl e, m', s3)) \<and>
          mk_port_destroy m' (port_id (ports m i)) = (Inl EBUSY, m') \<and>
          mk_port_rebind m' (port_id (ports m i)) owner = (Inl EBUSY, m')))"
proof -
  have "wakes s s'" using send_task_kept [OF send] c(4) by blast
  then have run: "ipc_step\<^sup>*\<^sup>* (m, s, fl) (m, s', fl)" by (rule wakes_ipc_steps)
  have "ipc_inv (m, s2, fl)" if "ipc_step\<^sup>*\<^sup>* (m, s', fl) (m, s2, fl)" for s2
    using ipcsys.run_inv [OF rtranclp_trans [OF run that] inv] .
  note w = early_wakeup_wedges [OF this _ c(1) early]
  show ?thesis using cont_wakes_blocked [OF c(3,2) send] run w by blast
qed

theorem sigcont_wedges_port_witness:
  "\<exists>m s fl g g' s'. fl 2 = Some (InCall 0 2) \<and> state_of s 2 = TCB_BLOCKED \<and>
     signal_send_task g s (Some 2) SIGCONT = (Inr (), g', s') \<and> state_of s' 2 = TCB_READY \<and> ipc_step\<^sup>*\<^sup>* (m, s, fl) (m, s', fl)"
proof -
  obtain s0 where s0: "task_inv s0" "current_task s0 = Some 2" by (rule client_demo)
  have idle: "2 \<noteq> IDLE_SLOT" by (simp add: IDLE_SLOT_def)
  obtain s1 where s1: "sched_block s0 = Some s1" "sched_inv s1" "proc_same s0 s1" "current_task s1 \<noteq> Some 2"
    "\<forall>t. state_of s1 t = TCB_BLOCKED \<longleftrightarrow> t = 2 \<or> state_of s0 t = TCB_BLOCKED" "eff_prio_slot s1 = eff_prio_slot s0"
    by (rule sched_block_state [OF task_invD(1) [OF s0(1)] s0(2) idle])
  have i1: "task_inv s1" by (rule task_inv_sched [OF s0(1) sched_step.step_block [OF _ s1(1)]]) (use s0(2) idle in simp)
  define s where "s = set_ctx s1 2 ((task_ctx s1 2)\<lparr>c_is_user := True\<rparr>)"
  have s: "task_inv s" "state_of s 2 = TCB_BLOCKED" "sched_task_is_user s (Some 2)"
    using task_inv_set_ctx [OF i1] s1(5) by (simp_all add: s_def set_ctx_def sched_task_is_user_def)
  have n: "2 < task_count s"
    using sched_inv_current(1) [OF task_invD(1) [OF s0(1)] s0(2)] s1(3) by (simp add: s_def set_ctx_def proc_same_def)
  let ?m = "set_port mk_demo 0 ((ports mk_demo 0)\<lparr>active_client_tid := 2\<rparr>)" and ?fl = "(\<lambda>_. None)(2 := Some (InCall 0 2))"
  have "mk_wf ?m ?fl" using mk_demo_port by (auto simp: mk_wf_def port_ok_def split: if_splits)
  then have inv: "ipc_inv (?m, s, ?fl)" using s(1) by (simp add: ipc_inv_def)
  obtain r g' s' where send: "signal_send_task sig_boot s (Some 2) SIGCONT = (r, g', s')" by (metis prod_cases3)
  have "\<not> reply_valid (ports ?m 0)" "?fl 2 = Some (InCall 0 2)" using mk_demo_port(5) by simp_all
  from sigcont_wedges_port [OF inv this(2) s(2,3) n this(1) send]
  have "r = Inr () \<and> state_of s' 2 = TCB_READY \<and> ipc_step\<^sup>*\<^sup>* (?m, s, ?fl) (?m, s', ?fl)" by blast
  with send s(2) show ?thesis
    by (intro exI [of _ ?m] exI [of _ s] exI [of _ ?fl] exI [of _ sig_boot] exI [of _ g'] exI [of _ s']) auto
qed

end
